(* ===== verification/Kernel_Prelude.thy ===== *)
theory Kernel_Prelude
  imports Main "HOL-Library.Word" "HOL-Library.Monad_Syntax" "HOL-Library.Signed_Division"
begin

text \<open>
  Types, error conventions and generic lemmas shared by the models of the kernel components.

  A function of the kernel that can stop the machine (a failed \<open>ASSERT\<close>, a
  \<open>PANIC\<close>, a null dereference, a wait that nobody ends, undefined C arithmetic) has a
  result of type \<open>'a option\<close>: \<open>None\<close> is "the kernel does not continue".
  Failures the code reports to its caller (\<open>false\<close>, \<open>-1\<close>, \<open>NULL\<close>,
  \<open>BITMAP_ERROR\<close>) are values of the model's own result.
\<close>

unbundle bit_operations_syntax

section \<open>Machine types\<close>

type_synonym byte = "8 word"
type_synonym u16 = "16 word"
type_synonym u32 = "32 word"

text \<open>\<open>block_sector_t\<close> of \<open>devices/block.h\<close>: an unsigned 32-bit sector number.\<close>

type_synonym sector = "32 word"

text \<open>
  Collections of simplification rules: \<open>kernel_simps\<close> holds the equations every
  component proof unfolds (results, field updates), \<open>c_arith\<close> the rules for C's
  integer operations.
\<close>

named_theorems kernel_simps "results and updates shared by the component proofs"
named_theorems c_arith "C integer arithmetic"

section \<open>Assertions\<close>

definition kassert :: "bool \<Rightarrow> unit option" where
  "kassert b = (if b then Some () else None)"

lemma kassert_True [simp]: "kassert True = Some ()"
  by (simp add: kassert_def)

lemma kassert_False [simp]: "kassert False = None"
  by (simp add: kassert_def)

lemma kassert_bind_Some [kernel_simps]:
  "(Option.bind (kassert b) f = Some r) \<longleftrightarrow> b \<and> f () = Some r"
  by (simp add: kassert_def)

lemma kassert_Some [kernel_simps]: "kassert b = Some u \<longleftrightarrow> b"
  by (simp add: kassert_def)

lemma kassert_bind_holds [simp]: "b \<Longrightarrow> Option.bind (kassert b) f = f ()"
  by (simp add: kassert_def)

section \<open>C integer division\<close>

text \<open>
  \<open>sdiv\<close> and \<open>smod\<close> of \<open>Signed_Division\<close> round towards zero, as C does.
  On non-negative operands they agree with \<open>div\<close> and \<open>mod\<close>.
\<close>

lemma sdiv_nonneg [c_arith]: "0 \<le> a \<Longrightarrow> 0 < b \<Longrightarrow> (a::int) sdiv b = a div b"
  by (cases "a = 0") (simp_all add: signed_divide_int_def)

lemma smod_nonneg [c_arith]: "0 \<le> a \<Longrightarrow> 0 < b \<Longrightarrow> (a::int) smod b = a mod b"
  by (cases "a = 0") (simp_all add: signed_modulo_int_def)

text \<open>
  The macros of \<open>lib/round.h\<close>, documented for a non-negative \<open>X\<close> and a positive
  \<open>STEP\<close>: \<open>X\<close> rounded up to the nearest multiple of \<open>STEP\<close>, and that
  multiple divided by \<open>STEP\<close>.
\<close>

definition DIV_ROUND_UP :: "int \<Rightarrow> int \<Rightarrow> int" where
  "DIV_ROUND_UP x step = (x + step - 1) sdiv step"

definition ROUND_UP :: "int \<Rightarrow> int \<Rightarrow> int" where
  "ROUND_UP x step = (x + step - 1) sdiv step * step"

lemma ROUND_UP_nonneg: "0 \<le> x \<Longrightarrow> 0 < step \<Longrightarrow> ROUND_UP x step = (x + step - 1) div step * step"
  by (simp add: ROUND_UP_def c_arith)

lemma ROUND_UP_bounds:
  assumes "0 \<le> x" "0 < step"
  shows "x \<le> ROUND_UP x step" "ROUND_UP x step < x + step"
proof -
  have e: "(x + step - 1) div step * step + (x + step - 1) mod step = x + step - 1"
    by (rule div_mult_mod_eq)
  have "(x + step - 1) mod step < step" "0 \<le> (x + step - 1) mod step"
    using assms by simp_all
  with e show "x \<le> ROUND_UP x step" "ROUND_UP x step < x + step"
    unfolding ROUND_UP_nonneg [OF assms] by linarith+
qed

lemma ROUND_UP_dvd: "0 \<le> x \<Longrightarrow> 0 < step \<Longrightarrow> step dvd ROUND_UP x step"
  by (simp add: ROUND_UP_nonneg)

lemma ROUND_UP_multiple: "0 \<le> x \<Longrightarrow> 0 < step \<Longrightarrow> step dvd x \<Longrightarrow> ROUND_UP x step = x"
proof -
  assume a: "0 \<le> x" "0 < step" "step dvd x"
  then obtain k where k: "x = step * k" by (auto elim: dvdE)
  have "x + step - 1 = step - 1 + step * k" by (simp add: k)
  then have "(x + step - 1) div step = (step - 1) div step + k"
    using a(2) by (simp only: div_mult_self2 less_irrefl)
  also have "(step - 1) div step = 0" using a(2) by simp
  finally show ?thesis using a(1,2) k by (simp add: ROUND_UP_nonneg)
qed

lemma ROUND_UP_greater: "x < ROUND_UP x 512 + 512"
proof (cases "0 \<le> x + 511")
  case True
  have "(x + 511) div 512 * 512 + (x + 511) mod 512 = x + 511" by (rule div_mult_mod_eq)
  moreover have "(x + 511) mod 512 < 512" by simp
  moreover have "ROUND_UP x 512 = (x + 511) div 512 * 512"
    using True by (simp add: ROUND_UP_def c_arith)
  ultimately show ?thesis by linarith
next
  case False
  define k where "k = - (x + 511)"
  have "ROUND_UP x 512 = - (k div 512 * 512)"
    using False by (simp add: ROUND_UP_def signed_divide_int_def k_def)
  moreover have "k div 512 * 512 + k mod 512 = k" "0 \<le> k mod 512" by simp_all
  ultimately show ?thesis unfolding k_def by linarith
qed

section \<open>Searching a list\<close>

fun first_index :: "('a \<Rightarrow> bool) \<Rightarrow> 'a list \<Rightarrow> nat option" where
  "first_index P [] = None"
| "first_index P (x # xs) = (if P x then Some 0 else map_option Suc (first_index P xs))"

lemma first_index_None: "first_index P xs = None \<longleftrightarrow> (\<forall>x\<in>set xs. \<not> P x)"
  by (induction xs) auto

lemma first_index_Some:
  "first_index P xs = Some i \<Longrightarrow> i < length xs \<and> P (xs ! i) \<and> (\<forall>j<i. \<not> P (xs ! j))"
  by (induction xs arbitrary: i) (auto split: if_splits simp: less_Suc_eq_0_disj)

lemma first_index_unique:
  assumes "i < length xs" "P (xs ! i)" "\<And>j. j < length xs \<Longrightarrow> P (xs ! j) \<Longrightarrow> j = i"
  shows "first_index P xs = Some i"
proof (cases "first_index P xs")
  case None
  with assms(1,2) show ?thesis by (auto simp: first_index_None)
next
  case (Some j)
  with first_index_Some [OF Some] assms(3) show ?thesis by blast
qed

section \<open>Ranges\<close>

lemma upt_split: "i \<le> j \<Longrightarrow> j \<le> k \<Longrightarrow> [i..<k] = [i..<j] @ [j..<k]"
  using upt_add_eq_append [of i j "k - j"] by simp

section \<open>Copying into a buffer\<close>

text \<open>\<open>memcpy (data + ofs, buf, length buf)\<close> on a buffer represented by its bytes.\<close>

definition memcpy_at :: "nat \<Rightarrow> 'a list \<Rightarrow> 'a list \<Rightarrow> 'a list" where
  "memcpy_at ofs buf data = take ofs data @ buf @ drop (ofs + length buf) data"

lemma length_memcpy_at [simp]:
  "ofs + length buf \<le> length data \<Longrightarrow> length (memcpy_at ofs buf data) = length data"
  by (simp add: memcpy_at_def)

lemma nth_memcpy_at:
  "ofs + length buf \<le> length data \<Longrightarrow> i < length data \<Longrightarrow>
   memcpy_at ofs buf data ! i = (if ofs \<le> i \<and> i < ofs + length buf then buf ! (i - ofs) else data ! i)"
  by (auto simp: memcpy_at_def nth_append min_def)

lemma memcpy_at_read:
  "ofs + length buf \<le> length data \<Longrightarrow> take (length buf) (drop ofs (memcpy_at ofs buf data)) = buf"
  by (simp add: memcpy_at_def)

lemma memcpy_at_all [simp]: "length buf = length data \<Longrightarrow> memcpy_at 0 buf data = buf"
  by (simp add: memcpy_at_def)


section \<open>C arrays and C ints\<close>

text \<open>
  Reading or writing outside an array and an \<open>int\<close> result outside 32 bits are undefined
  in C: \<open>None\<close>.
\<close>

definition c_nth :: "'a list \<Rightarrow> int \<Rightarrow> 'a option" where
  "c_nth xs i = (if 0 \<le> i \<and> i < int (length xs) then Some (xs ! nat i) else None)"

definition c_update :: "'a list \<Rightarrow> int \<Rightarrow> 'a \<Rightarrow> 'a list option" where
  "c_update xs i v = (if 0 \<le> i \<and> i < int (length xs) then Some (xs[nat i := v]) else None)"

definition c_int :: "int \<Rightarrow> int option" where
  "c_int x = (if - (2 ^ 31) \<le> x \<and> x < 2 ^ 31 then Some x else None)"

definition c_int64 :: "int \<Rightarrow> int option" where
  "c_int64 x = (if - (2 ^ 63) \<le> x \<and> x < 2 ^ 63 then Some x else None)"

lemma c_nth_in [simp]: "0 \<le> i \<Longrightarrow> i < int (length xs) \<Longrightarrow> c_nth xs i = Some (xs ! nat i)"
  by (simp add: c_nth_def)

lemma c_update_in [simp]: "0 \<le> i \<Longrightarrow> i < int (length xs) \<Longrightarrow> c_update xs i v = Some (xs[nat i := v])"
  by (simp add: c_update_def)

lemma c_int_in [simp]: "- (2 ^ 31) \<le> x \<Longrightarrow> x < 2 ^ 31 \<Longrightarrow> c_int x = Some x"
  by (simp add: c_int_def)

section \<open>Little-endian integers in memory\<close>

definition le16 :: "u16 \<Rightarrow> byte list" where
  "le16 w = [ucast w, ucast (drop_bit 8 w)]"

definition le32 :: "u32 \<Rightarrow> byte list" where
  "le32 w = [ucast w, ucast (drop_bit 8 w), ucast (drop_bit 16 w), ucast (drop_bit 24 w)]"

fun of_le16 :: "byte list \<Rightarrow> u16" where
  "of_le16 (a # b # _) = ucast a OR push_bit 8 (ucast b)"
| "of_le16 _ = 0"

fun of_le32 :: "byte list \<Rightarrow> u32" where
  "of_le32 (a # b # c # d # _) =
     ucast a OR push_bit 8 (ucast b) OR push_bit 16 (ucast c) OR push_bit 24 (ucast d)"
| "of_le32 _ = 0"

lemma length_le [simp]: "length (le16 w) = 2" "length (le32 v) = 4"
  by (simp_all add: le16_def le32_def)

lemma of_le16_le16 [simp]: "of_le16 (le16 w @ xs) = w" "of_le16 (le16 w) = w"
  by (auto simp: le16_def bit_simps intro!: bit_word_eqI)

lemma byte_index_cases:
  assumes "n < 32"
  obtains "n < 8" | m where "n = 8 + m" "m < 8" | m where "n = 16 + m" "m < 8" | m where "n = 24 + m" "m < (8::nat)"
proof -
  consider "n < 8" | "8 \<le> n" "n < 16" | "16 \<le> n" "n < 24" | "24 \<le> n" using assms by linarith
  then show thesis
  proof cases
    case 2 then show thesis using that(2) [of "n - 8"] by simp
  next
    case 3 then show thesis using that(3) [of "n - 16"] by simp
  next
    case 4 then show thesis using that(4) [of "n - 24"] assms by simp
  qed (use that(1) in blast)
qed

lemma of_le32_le32 [simp]: "of_le32 (le32 w @ xs) = w" "of_le32 (le32 w) = w"
proof -
  show "of_le32 (le32 w @ xs) = w" for xs
  proof (rule bit_word_eqI)
    fix n assume "n < LENGTH(32)"
    then have "n < 32" by simp
    then show "bit (of_le32 (le32 w @ xs)) n \<longleftrightarrow> bit w n"
      by (rule byte_index_cases) (simp_all add: le32_def bit_simps)
  qed
  from this [of "[]"] show "of_le32 (le32 w) = w" by simp
qed

end
