(* ===== verification/Buffer_Cache.thy ===== *)
theory Buffer_Cache
  imports Kernel_Prelude
begin

text \<open>
  The buffer cache of \<open>file-system/filesys/cache.c\<close>: 64 sector buffers over the file
  system device, a second-chance sweep that picks the buffer to reuse, and the operations
  \<open>cache_read\<close>, \<open>cache_write\<close>, \<open>cache_zero\<close>, \<open>cache_save\<close>.

  The block device (\<open>devices/block.c\<close>) is not part of the sources. It is the parameter
  \<open>bd\<close>, a record of its two operations and the predicate that says a device is in a
  proper state; \<open>blockdev_ok\<close> states what \<open>block.h\<close> documents of them.

  Other threads run while a thread waits for a lock. The parameter \<open>w\<close> lists what they
  do: each acquisition of a lock takes the next element of \<open>w\<close>, a state transformer, and
  applies it before the lock is granted. The empty list is the run without interference.
\<close>

section \<open>State\<close>

text \<open>\<open>struct cache_entry\<close>; the block lock is its held flag.\<close>

record cache_entry =
  ce_sector :: sector
  block_lock :: bool
  ce_dirty :: bool
  ce_accessed :: bool
  ce_data :: "byte list"

record 'd cache =
  buffer_cache :: "cache_entry list"
  buffer_lock :: bool
  fs_device :: 'd

record 'd blockdev =
  block_read :: "'d \<Rightarrow> sector \<Rightarrow> byte list"
  block_write :: "'d \<Rightarrow> sector \<Rightarrow> byte list \<Rightarrow> 'd"
  device_ok :: "'d \<Rightarrow> bool"

type_synonym 'd interference = "('d cache \<Rightarrow> 'd cache) list"

abbreviation CACHE_SIZE :: nat where
  "CACHE_SIZE \<equiv> 64"

abbreviation BLOCK_SECTOR_SIZE :: int where
  "BLOCK_SECTOR_SIZE \<equiv> 512"

text \<open>The value \<open>-1\<close> that marks a buffer without a sector.\<close>

abbreviation no_sector :: sector where
  "no_sector \<equiv> - 1"

definition blockdev_ok :: "'d blockdev \<Rightarrow> bool" where
  "blockdev_ok bd \<longleftrightarrow>
     (\<forall>d s. device_ok bd d \<longrightarrow> length (block_read bd d s) = 512) \<and>
     (\<forall>d s x. device_ok bd d \<longrightarrow> length x = 512 \<longrightarrow>
        device_ok bd (block_write bd d s x) \<and>
        block_read bd (block_write bd d s x) s = x \<and>
        (\<forall>t. t \<noteq> s \<longrightarrow> block_read bd (block_write bd d s x) t = block_read bd d t))"

section \<open>Operations\<close>

definition upd_entry :: "nat \<Rightarrow> (cache_entry \<Rightarrow> cache_entry) \<Rightarrow> 'd cache \<Rightarrow> 'd cache" where
  "upd_entry i f c = c\<lparr>buffer_cache := (buffer_cache c)[i := f (buffer_cache c ! i)]\<rparr>"

text \<open>What the other threads do before a lock is granted.\<close>

definition others_run :: "'d interference \<Rightarrow> 'd cache \<Rightarrow> 'd cache" where
  "others_run w c = (case w of [] \<Rightarrow> c | e # _ \<Rightarrow> e c)"

text \<open>Acquiring a lock that stays held is waiting for ever.\<close>

definition acquire_buffer_lock :: "'d interference \<Rightarrow> 'd cache \<Rightarrow> 'd cache option" where
  "acquire_buffer_lock w c =
     (let c' = others_run w c
      in if buffer_lock c' then None else Some (c'\<lparr>buffer_lock := True\<rparr>))"

definition release_buffer_lock :: "'d cache \<Rightarrow> 'd cache" where
  "release_buffer_lock c = c\<lparr>buffer_lock := False\<rparr>"

definition acquire_block_lock :: "'d interference \<Rightarrow> nat \<Rightarrow> 'd cache \<Rightarrow> 'd cache option" where
  "acquire_block_lock w i c =
     (let c' = others_run w c
      in if block_lock (buffer_cache c' ! i) then None
         else Some (upd_entry i (\<lambda>e. e\<lparr>block_lock := True\<rparr>) c'))"

definition release_block_lock :: "nat \<Rightarrow> 'd cache \<Rightarrow> 'd cache" where
  "release_block_lock i c = upd_entry i (\<lambda>e. e\<lparr>block_lock := False\<rparr>) c"

text \<open>
  The loop of \<open>next_cache_entry\<close>: it clears \<open>accessed\<close> until it meets a buffer
  where it is not set, and stays on the last buffer when it was set everywhere.
\<close>

fun clock_sweep :: "nat \<Rightarrow> cache_entry list \<Rightarrow> nat \<times> cache_entry list" where
  "clock_sweep i [] = (i - 1, [])"
| "clock_sweep i (e # es) =
     (if ce_accessed e
      then (case clock_sweep (Suc i) es of (j, es') \<Rightarrow> (j, e\<lparr>ce_accessed := False\<rparr> # es'))
      else (i, e # es))"

definition write_back :: "'d blockdev \<Rightarrow> nat \<Rightarrow> 'd cache \<Rightarrow> 'd cache" where
  "write_back bd i c =
     (let e = buffer_cache c ! i
      in if ce_dirty e
         then upd_entry i (\<lambda>e. e\<lparr>ce_dirty := False\<rparr>)
                (c\<lparr>fs_device := block_write bd (fs_device c) (ce_sector e) (ce_data e)\<rparr>)
         else c)"

text \<open>
  \<open>next_cache_entry\<close> starts over when the buffer it chose was used again before its lock
  was granted. Every round takes two elements of \<open>w\<close>; \<open>next_cache_entry_returns\<close>
  below shows that the case where they have run out is not reached.
\<close>

fun next_cache_entry :: "'d blockdev \<Rightarrow> 'd interference \<Rightarrow> 'd cache \<Rightarrow>
    (nat \<times> 'd interference \<times> 'd cache) option" where
  "next_cache_entry bd w c = do {
     c1 \<leftarrow> acquire_buffer_lock w c;
     let (i, es) = clock_sweep 0 (buffer_cache c1);
     let c2 = release_buffer_lock (c1\<lparr>buffer_cache := es\<rparr>);
     c3 \<leftarrow> acquire_block_lock (tl w) i c2;
     if \<not> ce_accessed (buffer_cache c3 ! i) then Some (i, tl (tl w), write_back bd i c3)
     else if w = [] then None
     else next_cache_entry bd (tl (tl w)) (release_block_lock i c3)
   }"

definition load_entry :: "'d blockdev \<Rightarrow> sector \<Rightarrow> nat \<Rightarrow> 'd cache \<Rightarrow> 'd cache" where
  "load_entry bd s i c =
     upd_entry i (\<lambda>e. e\<lparr>ce_sector := s, ce_data := block_read bd (fs_device c) s\<rparr>) c"

fun find_cache_entry :: "'d blockdev \<Rightarrow> sector \<Rightarrow> 'd interference \<Rightarrow> 'd cache \<Rightarrow>
    (nat \<times> 'd interference \<times> 'd cache) option" where
  "find_cache_entry bd s w c = do {
     c1 \<leftarrow> acquire_buffer_lock w c;
     let hit = first_index (\<lambda>e. ce_sector e = s) (buffer_cache c1);
     let c2 = release_buffer_lock c1;
     (case hit of
        None \<Rightarrow> do {
          (i, w', c3) \<leftarrow> next_cache_entry bd (tl w) c2;
          Some (i, w', load_entry bd s i c3)
        }
      | Some i \<Rightarrow> do {
          c3 \<leftarrow> acquire_block_lock (tl w) i c2;
          if ce_sector (buffer_cache c3 ! i) = s then Some (i, tl (tl w), c3)
          else if w = [] then None
          else find_cache_entry bd s (tl (tl w)) (release_block_lock i c3)
        })
   }"

declare next_cache_entry.simps [simp del] find_cache_entry.simps [simp del]

definition cache_write :: "'d blockdev \<Rightarrow> sector \<Rightarrow> byte list \<Rightarrow> int \<Rightarrow> int \<Rightarrow> 'd interference \<Rightarrow>
    'd cache \<Rightarrow> 'd cache option" where
  "cache_write bd s buffer sz offset w c = do {
     kassert (0 \<le> sz);
     kassert (0 \<le> offset);
     kassert (offset + sz \<le> BLOCK_SECTOR_SIZE);
     (i, w', c1) \<leftarrow> find_cache_entry bd s w c;
     let c2 = upd_entry i (\<lambda>e. e\<lparr>ce_dirty := True, ce_accessed := True,
                ce_data := memcpy_at (nat offset) (take (nat sz) buffer) (ce_data e)\<rparr>) c1;
     Some (release_block_lock i c2)
   }"

definition cache_read :: "'d blockdev \<Rightarrow> sector \<Rightarrow> int \<Rightarrow> int \<Rightarrow> 'd interference \<Rightarrow>
    'd cache \<Rightarrow> (byte list \<times> 'd cache) option" where
  "cache_read bd s sz offset w c = do {
     kassert (0 \<le> sz);
     kassert (0 \<le> offset);
     kassert (offset + sz \<le> BLOCK_SECTOR_SIZE);
     (i, w', c1) \<leftarrow> find_cache_entry bd s w c;
     let c2 = upd_entry i (\<lambda>e. e\<lparr>ce_accessed := True\<rparr>) c1;
     let buf = take (nat sz) (drop (nat offset) (ce_data (buffer_cache c2 ! i)));
     Some (buf, release_block_lock i c2)
   }"

definition cache_zero :: "'d blockdev \<Rightarrow> sector \<Rightarrow> 'd interference \<Rightarrow> 'd cache \<Rightarrow> 'd cache option" where
  "cache_zero bd s w c = do {
     (i, w', c1) \<leftarrow> find_cache_entry bd s w c;
     let c2 = upd_entry i (\<lambda>e. e\<lparr>ce_data := replicate 512 0, ce_dirty := True, ce_accessed := True\<rparr>) c1;
     Some (release_block_lock i c2)
   }"

text \<open>\<open>cache_save\<close> writes back buffer after buffer, under the lock of each.\<close>

fun cache_save_from :: "'d blockdev \<Rightarrow> nat list \<Rightarrow> 'd interference \<Rightarrow> 'd cache \<Rightarrow> 'd cache option" where
  "cache_save_from bd [] w c = Some c"
| "cache_save_from bd (i # is) w c = do {
     c1 \<leftarrow> acquire_block_lock w i c;
     cache_save_from bd is (tl w) (release_block_lock i (write_back bd i c1))
   }"

definition cache_save :: "'d blockdev \<Rightarrow> 'd interference \<Rightarrow> 'd cache \<Rightarrow> 'd cache option" where
  "cache_save bd w c = cache_save_from bd [0..<CACHE_SIZE] w c"

text \<open>
  \<open>cache_init\<close> with \<open>allocate_cache\<close>: the static array is zero before, and the
  write-behind thread it creates is the periodic \<open>cache_save\<close> of the interference.
\<close>

definition empty_entry :: cache_entry where
  "empty_entry = \<lparr>ce_sector = no_sector, block_lock = False, ce_dirty = False,
                  ce_accessed = False, ce_data = replicate 512 0\<rparr>"

definition cache_init :: "'d \<Rightarrow> 'd cache" where
  "cache_init d = \<lparr>buffer_cache = replicate CACHE_SIZE empty_entry, buffer_lock = False, fs_device = d\<rparr>"

section \<open>Coherence\<close>

abbreviation entry :: "'d cache \<Rightarrow> nat \<Rightarrow> cache_entry" where
  "entry c i \<equiv> buffer_cache c ! i"

definition entry_ok :: "'d blockdev \<Rightarrow> 'd \<Rightarrow> cache_entry \<Rightarrow> bool" where
  "entry_ok bd d e \<longleftrightarrow>
     length (ce_data e) = 512 \<and>
     (ce_sector e = no_sector \<longrightarrow> \<not> ce_dirty e) \<and>
     (\<not> ce_dirty e \<longrightarrow> ce_sector e \<noteq> no_sector \<longrightarrow> ce_data e = block_read bd d (ce_sector e))"

text \<open>
  The cache at rest (\<open>h = None\<close>), or with the one block lock \<open>h = Some i\<close> held:
  every buffer is dirty or equal to its sector on the device, and no two buffers hold the
  same sector.
\<close>

definition coherent :: "'d blockdev \<Rightarrow> nat option \<Rightarrow> 'd cache \<Rightarrow> bool" where
  "coherent bd h c \<longleftrightarrow>
     length (buffer_cache c) = CACHE_SIZE \<and> \<not> buffer_lock c \<and> device_ok bd (fs_device c) \<and>
     (\<forall>i<CACHE_SIZE. block_lock (entry c i) \<longleftrightarrow> h = Some i) \<and>
     (\<forall>i<CACHE_SIZE. entry_ok bd (fs_device c) (entry c i)) \<and>
     (\<forall>i<CACHE_SIZE. \<forall>j<CACHE_SIZE. i \<noteq> j \<longrightarrow> ce_sector (entry c i) = ce_sector (entry c j) \<longrightarrow>
        ce_sector (entry c i) = no_sector)"

text \<open>What a reader of the cache sees in a sector.\<close>

definition cache_view :: "'d blockdev \<Rightarrow> 'd cache \<Rightarrow> sector \<Rightarrow> byte list" where
  "cache_view bd c s =
     (case first_index (\<lambda>e. ce_sector e = s) (buffer_cache c) of
        Some i \<Rightarrow> ce_data (entry c i)
      | None \<Rightarrow> block_read bd (fs_device c) s)"

lemma upd_entry_simps [simp]:
  "length (buffer_cache (upd_entry i f c)) = length (buffer_cache c)"
  "buffer_lock (upd_entry i f c) = buffer_lock c"
  "fs_device (upd_entry i f c) = fs_device c"
  by (simp_all add: upd_entry_def)

lemma entry_upd_entry [simp]:
  "i < length (buffer_cache c) \<Longrightarrow>
   entry (upd_entry i f c) j = (if j = i then f (entry c i) else entry c j)"
  by (simp add: upd_entry_def nth_list_update)

lemma coherent_length [simp]: "coherent bd h c \<Longrightarrow> length (buffer_cache c) = CACHE_SIZE"
  by (simp add: coherent_def)

lemma coherent_entry: "coherent bd h c \<Longrightarrow> i < CACHE_SIZE \<Longrightarrow> entry_ok bd (fs_device c) (entry c i)"
  by (simp add: coherent_def)

lemma coherent_sector_unique:
  "coherent bd h c \<Longrightarrow> i < CACHE_SIZE \<Longrightarrow> j < CACHE_SIZE \<Longrightarrow> ce_sector (entry c i) = s \<Longrightarrow>
   ce_sector (entry c j) = s \<Longrightarrow> s \<noteq> no_sector \<Longrightarrow> j = i"
  by (auto simp: coherent_def)

lemma cache_view_hit:
  assumes "coherent bd h c" "i < CACHE_SIZE" "ce_sector (entry c i) = s" "s \<noteq> no_sector"
  shows "cache_view bd c s = ce_data (entry c i)"
proof -
  have "first_index (\<lambda>e. ce_sector e = s) (buffer_cache c) = Some i"
    using assms coherent_sector_unique [OF assms(1)] by (intro first_index_unique) auto
  then show ?thesis by (simp add: cache_view_def)
qed

lemma cache_view_miss:
  assumes "length (buffer_cache c) = CACHE_SIZE" "\<And>i. i < CACHE_SIZE \<Longrightarrow> ce_sector (entry c i) \<noteq> s"
  shows "cache_view bd c s = block_read bd (fs_device c) s"
proof -
  have "first_index (\<lambda>e. ce_sector e = s) (buffer_cache c) = None"
    unfolding first_index_None all_set_conv_all_nth using assms by simp
  then show ?thesis by (simp add: cache_view_def)
qed

text \<open>Two coherent caches with the same buffers at sector \<open>s\<close> show the same bytes there.\<close>

lemma cache_view_cong:
  assumes "coherent bd h c" "coherent bd h' c'" "s \<noteq> no_sector"
    and "\<And>i. i < CACHE_SIZE \<Longrightarrow> ce_sector (entry c' i) = s \<longleftrightarrow> ce_sector (entry c i) = s"
    and "\<And>i. i < CACHE_SIZE \<Longrightarrow> ce_sector (entry c i) = s \<Longrightarrow> ce_data (entry c' i) = ce_data (entry c i)"
    and "block_read bd (fs_device c') s = block_read bd (fs_device c) s"
  shows "cache_view bd c' s = cache_view bd c s"
proof (cases "\<exists>i<CACHE_SIZE. ce_sector (entry c i) = s")
  case True
  then obtain i where "i < CACHE_SIZE" "ce_sector (entry c i) = s" by blast
  with assms show ?thesis by (simp add: cache_view_hit [where i = i])
next
  case False
  with assms show ?thesis by (simp add: cache_view_miss)
qed

lemma cache_view_length:
  assumes "blockdev_ok bd" "coherent bd h c" "s \<noteq> no_sector"
  shows "length (cache_view bd c s) = 512"
proof (cases "\<exists>i<CACHE_SIZE. ce_sector (entry c i) = s")
  case True
  with assms show ?thesis
    using coherent_entry [OF assms(2)] by (auto simp: cache_view_hit entry_ok_def)
next
  case False
  with assms show ?thesis by (auto simp: cache_view_miss blockdev_ok_def coherent_def)
qed

section \<open>The sweep\<close>

abbreviation unref :: "cache_entry \<Rightarrow> cache_entry" where
  "unref e \<equiv> e\<lparr>ce_accessed := False\<rparr>"

lemma clock_sweep_index:
  "clock_sweep k es = (i, es') \<Longrightarrow> es \<noteq> [] \<Longrightarrow>
   k \<le> i \<and> i < k + length es \<and> \<not> ce_accessed (es' ! (i - k))"
proof (induction k es arbitrary: i es' rule: clock_sweep.induct)
  case (2 k e es)
  show ?case
  proof (cases "ce_accessed e \<and> es \<noteq> []")
    case True
    then obtain es'' where es'': "clock_sweep (Suc k) es = (i, es'')" "es' = unref e # es''"
      using 2(2) by (auto split: prod.splits)
    with 2(1) True have "Suc k \<le> i" "i < Suc k + length es" "\<not> ce_accessed (es'' ! (i - Suc k))" by auto
    with es'' show ?thesis by (auto simp: nth_Cons' )
  qed (use 2(2) in \<open>auto split: if_splits prod.splits\<close>)
qed simp

lemma clock_sweep_unref: "clock_sweep k es = (i, es') \<Longrightarrow> map unref es' = map unref es"
  by (induction k es arbitrary: i es' rule: clock_sweep.induct) (auto split: if_splits prod.splits)

lemma unref_eq_fields:
  assumes "map unref es' = map unref es" "i < length es"
  shows "ce_sector (es' ! i) = ce_sector (es ! i)" "block_lock (es' ! i) = block_lock (es ! i)"
    "ce_dirty (es' ! i) = ce_dirty (es ! i)" "ce_data (es' ! i) = ce_data (es ! i)"
proof -
  have "length es' = length es" using assms(1) by (rule map_eq_imp_length_eq)
  with assms have "unref (es' ! i) = unref (es ! i)" by (metis nth_map)
  then show "ce_sector (es' ! i) = ce_sector (es ! i)" "block_lock (es' ! i) = block_lock (es ! i)"
    "ce_dirty (es' ! i) = ce_dirty (es ! i)" "ce_data (es' ! i) = ce_data (es ! i)"
    by (cases "es' ! i"; cases "es ! i"; simp)+
qed


lemma coherent_unref:
  assumes "coherent bd h c" "map unref es = map unref (buffer_cache c)"
  shows "coherent bd h (c\<lparr>buffer_cache := es\<rparr>)"
    and "s \<noteq> no_sector \<Longrightarrow> cache_view bd (c\<lparr>buffer_cache := es\<rparr>) s = cache_view bd c s"
proof -
  have len: "length es = CACHE_SIZE"
    using assms by (metis coherent_length length_map)
  have f: "i < CACHE_SIZE \<Longrightarrow> ce_sector (es ! i) = ce_sector (entry c i) \<and>
      block_lock (es ! i) = block_lock (entry c i) \<and> ce_dirty (es ! i) = ce_dirty (entry c i) \<and>
      ce_data (es ! i) = ce_data (entry c i)" for i
    using unref_eq_fields [OF assms(2)] assms(1) by simp
  show c: "coherent bd h (c\<lparr>buffer_cache := es\<rparr>)"
    using assms(1) len unfolding coherent_def by (simp add: f entry_ok_def)
  show "s \<noteq> no_sector \<Longrightarrow> cache_view bd (c\<lparr>buffer_cache := es\<rparr>) s = cache_view bd c s"
    using f by (intro cache_view_cong [OF assms(1) c]) simp_all
qed

lemma coherentI:
  assumes "length (buffer_cache c) = CACHE_SIZE" "\<not> buffer_lock c" "device_ok bd (fs_device c)"
    and "\<And>i. i < CACHE_SIZE \<Longrightarrow> block_lock (entry c i) \<longleftrightarrow> h = Some i"
    and "\<And>i. i < CACHE_SIZE \<Longrightarrow> entry_ok bd (fs_device c) (entry c i)"
    and "\<And>i j. i < CACHE_SIZE \<Longrightarrow> j < CACHE_SIZE \<Longrightarrow> i \<noteq> j \<Longrightarrow>
           ce_sector (entry c i) = ce_sector (entry c j) \<Longrightarrow> ce_sector (entry c i) = no_sector"
  shows "coherent bd h c"
  using assms unfolding coherent_def by blast

lemma coherentD:
  assumes "coherent bd h c"
  shows "\<not> buffer_lock c" "device_ok bd (fs_device c)"
    "i < CACHE_SIZE \<Longrightarrow> block_lock (entry c i) \<longleftrightarrow> h = Some i"
    "i < CACHE_SIZE \<Longrightarrow> j < CACHE_SIZE \<Longrightarrow> i \<noteq> j \<Longrightarrow>
       ce_sector (entry c i) = ce_sector (entry c j) \<Longrightarrow> ce_sector (entry c i) = no_sector"
  using assms unfolding coherent_def by blast+

text \<open>
  Replacing one buffer, the lock of which may be taken or given back on the way: the new
  contents must be proper, and hold a sector that no other buffer holds.
\<close>

lemma coherent_upd_entry:
  assumes c: "coherent bd h c" and i: "i < CACHE_SIZE" and h: "h = None \<or> h = Some i"
    and h': "h' = (if block_lock (f (entry c i)) then Some i else None)"
    and ok: "entry_ok bd (fs_device c) (f (entry c i))"
    and sec: "\<And>j. j < CACHE_SIZE \<Longrightarrow> j \<noteq> i \<Longrightarrow> ce_sector (entry c j) = ce_sector (f (entry c i)) \<Longrightarrow>
                ce_sector (entry c j) = no_sector"
  shows "coherent bd h' (upd_entry i f c)"
proof (rule coherentI)
  fix j assume "j < CACHE_SIZE"
  with c i h h' show "block_lock (entry (upd_entry i f c) j) \<longleftrightarrow> h' = Some j"
    using coherentD(3) [OF c] by auto
  show "entry_ok bd (fs_device (upd_entry i f c)) (entry (upd_entry i f c) j)"
    using c i ok coherent_entry [OF c] \<open>j < CACHE_SIZE\<close> by simp
next
  fix j k assume jk: "j < CACHE_SIZE" "k < CACHE_SIZE" "j \<noteq> k"
    "ce_sector (entry (upd_entry i f c) j) = ce_sector (entry (upd_entry i f c) k)"
  note e = entry_upd_entry [of i c f, unfolded coherent_length [OF c], OF i]
  consider "j = i" | "k = i" | "j \<noteq> i" "k \<noteq> i" by blast
  then show "ce_sector (entry (upd_entry i f c) j) = no_sector"
  proof cases
    case 1
    with jk sec [of k] show ?thesis by (simp add: e)
  next
    case 2
    with jk sec [of j] show ?thesis by (simp add: e)
  next
    case 3
    with jk coherentD(4) [OF c, of j k] show ?thesis by (simp add: e)
  qed
qed (use c coherentD [OF c] in simp_all)

lemma coherent_lock:
  assumes c: "coherent bd None c" and i: "i < CACHE_SIZE"
  shows "acquire_block_lock [] i c = Some (upd_entry i (\<lambda>e. e\<lparr>block_lock := True\<rparr>) c)"
    and "coherent bd (Some i) (upd_entry i (\<lambda>e. e\<lparr>block_lock := True\<rparr>) c)"
proof -
  show "acquire_block_lock [] i c = Some (upd_entry i (\<lambda>e. e\<lparr>block_lock := True\<rparr>) c)"
    using coherentD(3) [OF c i] by (simp add: acquire_block_lock_def others_run_def)
  show "coherent bd (Some i) (upd_entry i (\<lambda>e. e\<lparr>block_lock := True\<rparr>) c)"
    by (rule coherent_upd_entry [OF c i])
       (use coherent_entry [OF c i] coherentD(4) [OF c i] i in \<open>auto simp: entry_ok_def\<close>)
qed

lemma coherent_release:
  assumes c: "coherent bd (Some i) c" and i: "i < CACHE_SIZE"
  shows "coherent bd None (release_block_lock i c)"
  unfolding release_block_lock_def
  by (rule coherent_upd_entry [OF c i])
     (use coherent_entry [OF c i] coherentD(4) [OF c i] i in \<open>auto simp: entry_ok_def\<close>)

text \<open>A change that keeps the sector and the bytes of a buffer changes nothing a reader sees.\<close>

lemma cache_view_upd_meta:
  assumes "length (buffer_cache c) = CACHE_SIZE" "i < CACHE_SIZE"
    and "\<And>e. ce_sector (f e) = ce_sector e" "\<And>e. ce_data (f e) = ce_data e"
  shows "cache_view bd (upd_entry i f c) s = cache_view bd c s"
proof -
  have sec: "map ce_sector (buffer_cache (upd_entry i f c)) = map ce_sector (buffer_cache c)"
    using assms by (auto intro!: nth_equalityI)
  have fi: "first_index (\<lambda>e. ce_sector e = s) es = first_index (\<lambda>x. x = s) (map ce_sector es)" for es
    by (induction es) auto
  have "first_index (\<lambda>e. ce_sector e = s) (buffer_cache (upd_entry i f c))
      = first_index (\<lambda>e. ce_sector e = s) (buffer_cache c)"
    by (simp only: fi sec)
  moreover have "ce_data (entry (upd_entry i f c) j) = ce_data (entry c j)" if "j < CACHE_SIZE" for j
    using assms by simp
  ultimately show ?thesis
    using assms(1) by (auto simp: cache_view_def split: option.splits dest!: first_index_Some)
qed

lemma write_back_simps:
  assumes "length (buffer_cache c) = CACHE_SIZE" "i < CACHE_SIZE"
  shows "length (buffer_cache (write_back bd i c)) = CACHE_SIZE"
    and "buffer_lock (write_back bd i c) = buffer_lock c"
    and "entry (write_back bd i c) j = (if j = i then (entry c i)\<lparr>ce_dirty := False\<rparr> else entry c j)"
    and "fs_device (write_back bd i c) =
      (if ce_dirty (entry c i)
       then block_write bd (fs_device c) (ce_sector (entry c i)) (ce_data (entry c i)) else fs_device c)"
  using assms by (cases "entry c i"; simp add: write_back_def Let_def upd_entry_def nth_list_update)+

lemma write_back_device:
  assumes "blockdev_ok bd" "coherent bd h c" "i < CACHE_SIZE"
  shows "device_ok bd (fs_device (write_back bd i c))"
    and "block_read bd (fs_device (write_back bd i c)) t =
      (if ce_dirty (entry c i) \<and> t = ce_sector (entry c i) then ce_data (entry c i)
       else block_read bd (fs_device c) t)"
  using assms coherent_entry [OF assms(2,3)] coherentD(2) [OF assms(2)]
  by (auto simp: write_back_simps blockdev_ok_def entry_ok_def)

lemma coherent_write_back:
  assumes bd: "blockdev_ok bd" and c: "coherent bd (Some i) c" and i: "i < CACHE_SIZE"
  shows "coherent bd (Some i) (write_back bd i c)"
    and "s \<noteq> no_sector \<Longrightarrow> cache_view bd (write_back bd i c) s = cache_view bd c s"
proof -
  note wb = write_back_simps [OF coherent_length [OF c] i, of bd]
    and dv = write_back_device [OF bd c i]
  show co: "coherent bd (Some i) (write_back bd i c)"
  proof (rule coherentI)
    fix j assume j: "j < CACHE_SIZE"
    show "block_lock (entry (write_back bd i c) j) \<longleftrightarrow> Some i = Some j"
      using coherentD(3) [OF c j] coherentD(3) [OF c i] by (simp add: wb(3))
    show "entry_ok bd (fs_device (write_back bd i c)) (entry (write_back bd i c) j)"
      using coherent_entry [OF c j] coherent_entry [OF c i] coherentD(4) [OF c i j]
      by (auto simp: wb(3) dv(2) entry_ok_def)
  next
    fix j k assume "j < CACHE_SIZE" "k < CACHE_SIZE" "j \<noteq> k"
      "ce_sector (entry (write_back bd i c) j) = ce_sector (entry (write_back bd i c) k)"
    then show "ce_sector (entry (write_back bd i c) j) = no_sector"
      using coherentD(4) [OF c, of j k] by (auto simp: wb(3) split: if_splits)
  qed (use wb dv coherentD [OF c] in simp_all)
  show "cache_view bd (write_back bd i c) s = cache_view bd c s" if s: "s \<noteq> no_sector"
  proof (cases "\<exists>j<CACHE_SIZE. ce_sector (entry c j) = s")
    case True
    then obtain j where "j < CACHE_SIZE" "ce_sector (entry c j) = s" by blast
    with s cache_view_hit [OF c, of j s] cache_view_hit [OF co, of j s] show ?thesis
      by (auto simp: wb(3))
  next
    case False
    then have "\<And>j. j < CACHE_SIZE \<Longrightarrow> ce_sector (entry (write_back bd i c) j) \<noteq> s" by (auto simp: wb(3))
    with False c wb(1) i show ?thesis by (auto simp: cache_view_miss dv(2))
  qed
qed


section \<open>Choosing a buffer\<close>

text \<open>One sweep under the cache lock, without interference.\<close>

lemma coherent_sweep:
  assumes c: "coherent bd None c" and sw: "clock_sweep 0 (buffer_cache c) = (i, es)"
  shows "i < CACHE_SIZE" "\<not> ce_accessed (es ! i)" "coherent bd None (c\<lparr>buffer_cache := es\<rparr>)"
    and "s \<noteq> no_sector \<Longrightarrow> cache_view bd (c\<lparr>buffer_cache := es\<rparr>) s = cache_view bd c s"
    and "j < CACHE_SIZE \<Longrightarrow> ce_sector (es ! j) = ce_sector (entry c j)"
proof -
  have "buffer_cache c \<noteq> []" using coherent_length [OF c] by auto
  from clock_sweep_index [OF sw this] show "i < CACHE_SIZE" "\<not> ce_accessed (es ! i)"
    using coherent_length [OF c] by simp_all
  note u = clock_sweep_unref [OF sw]
  show "coherent bd None (c\<lparr>buffer_cache := es\<rparr>)"
    and "s \<noteq> no_sector \<Longrightarrow> cache_view bd (c\<lparr>buffer_cache := es\<rparr>) s = cache_view bd c s"
    by (fact coherent_unref [OF c u])+
  show "j < CACHE_SIZE \<Longrightarrow> ce_sector (es ! j) = ce_sector (entry c j)"
    using unref_eq_fields(1) [OF u] coherent_length [OF c] by simp
qed

text \<open>A contract for the other threads: whole operations, which leave the cache at rest.\<close>

definition polite :: "'d blockdev \<Rightarrow> 'd interference \<Rightarrow> bool" where
  "polite bd w \<longleftrightarrow> (\<forall>e\<in>set w. \<forall>c. coherent bd None c \<longrightarrow> coherent bd None (e c))"

lemma polite_tl [simp]: "polite bd w \<Longrightarrow> polite bd (tl w)"
  by (cases w) (auto simp: polite_def)

lemma polite_Nil [simp]: "polite bd []"
  by (simp add: polite_def)

lemma polite_others_run: "polite bd w \<Longrightarrow> coherent bd None c \<Longrightarrow> coherent bd None (others_run w c)"
  by (auto simp: polite_def others_run_def split: list.splits)

lemma acquire_buffer_lock_polite:
  assumes "polite bd w" "coherent bd None c"
  shows "acquire_buffer_lock w c = Some ((others_run w c)\<lparr>buffer_lock := True\<rparr>)"
  using coherentD(1) [OF polite_others_run [OF assms]] by (simp add: acquire_buffer_lock_def Let_def)

lemma acquire_block_lock_polite:
  assumes "polite bd w" "coherent bd None c" "i < CACHE_SIZE"
  shows "acquire_block_lock w i c = Some (upd_entry i (\<lambda>e. e\<lparr>block_lock := True\<rparr>) (others_run w c))"
    and "coherent bd (Some i) (upd_entry i (\<lambda>e. e\<lparr>block_lock := True\<rparr>) (others_run w c))"
  using coherent_lock [OF polite_others_run [OF assms(1,2)] assms(3)]
  by (simp_all add: acquire_block_lock_def others_run_def)

lemma locked_unlocked:
  "coherent bd None c \<Longrightarrow> release_buffer_lock (c\<lparr>buffer_lock := True, buffer_cache := es\<rparr>) = c\<lparr>buffer_cache := es\<rparr>"
  "coherent bd None c \<Longrightarrow> release_buffer_lock (c\<lparr>buffer_lock := True\<rparr>) = c"
  using coherentD(1) [of bd None c] by (cases c; simp add: release_buffer_lock_def)+

text \<open>
  Without interference the chosen buffer is the last one swept, clean, and the sectors of
  all buffers are what they were.
\<close>

lemma next_cache_entry_alone:
  assumes bd: "blockdev_ok bd" and c: "coherent bd None c"
  obtains i c' where "next_cache_entry bd [] c = Some (i, [], c')" "i < CACHE_SIZE"
    "coherent bd (Some i) c'" "\<not> ce_dirty (entry c' i)"
    "\<And>s. s \<noteq> no_sector \<Longrightarrow> cache_view bd c' s = cache_view bd c s"
    "\<And>j. j < CACHE_SIZE \<Longrightarrow> ce_sector (entry c' j) = ce_sector (entry c j)"
proof -
  obtain i es where sw: "clock_sweep 0 (buffer_cache c) = (i, es)" by force
  note s = coherent_sweep [OF c sw]
  let ?c2 = "c\<lparr>buffer_cache := es\<rparr>"
  let ?c3 = "upd_entry i (\<lambda>e. e\<lparr>block_lock := True\<rparr>) ?c2"
  note l = coherent_lock [OF s(3,1)]
  note wb = write_back_simps [OF coherent_length [OF l(2)] s(1), of bd]
  have len: "length (buffer_cache ?c2) = CACHE_SIZE" using s(3) by (rule coherent_length)
  have acc: "\<not> ce_accessed (entry ?c3 i)"
    using s(1,2) len by simp
  have "next_cache_entry bd [] c = Some (i, [], write_back bd i ?c3)"
    using c sw acc l(1) locked_unlocked [OF c]
    by (simp add: next_cache_entry.simps acquire_buffer_lock_polite others_run_def)
  moreover have "cache_view bd (write_back bd i ?c3) t = cache_view bd c t" if t: "t \<noteq> no_sector" for t
    using coherent_write_back(2) [OF bd l(2) s(1) t] s(4) [OF t] len s(1)
    by (simp add: cache_view_upd_meta)
  moreover have "ce_sector (entry (write_back bd i ?c3) j) = ce_sector (entry c j)" if "j < CACHE_SIZE" for j
    using that s(5) len s(1) by (simp add: wb(3))
  ultimately show ?thesis
    using that coherent_write_back(1) [OF bd l(2) s(1)] s(1) by (simp add: wb(3))
qed


section \<open>Finding a sector\<close>

lemma coherent_load:
  assumes bd: "blockdev_ok bd" and c: "coherent bd (Some i) c" and i: "i < CACHE_SIZE"
    and clean: "\<not> ce_dirty (entry c i)" and s: "s \<noteq> no_sector"
    and fresh: "\<And>j. j < CACHE_SIZE \<Longrightarrow> ce_sector (entry c j) \<noteq> s"
  shows "coherent bd (Some i) (load_entry bd s i c)"
    and "t \<noteq> no_sector \<Longrightarrow> cache_view bd (load_entry bd s i c) t = cache_view bd c t"
proof -
  note e = entry_upd_entry [of i c, unfolded coherent_length [OF c], OF i]
  have len: "length (block_read bd (fs_device c) s) = 512"
    using bd coherentD(2) [OF c] by (simp add: blockdev_ok_def)
  show co: "coherent bd (Some i) (load_entry bd s i c)"
    unfolding load_entry_def
    by (rule coherent_upd_entry [OF c i])
       (use coherentD(3) [OF c i] clean s fresh len in \<open>auto simp: entry_ok_def\<close>)
  have old: "cache_view bd c (ce_sector (entry c i)) = block_read bd (fs_device c) (ce_sector (entry c i))"
    if "ce_sector (entry c i) \<noteq> no_sector"
    using cache_view_hit [OF c i refl that] coherent_entry [OF c i] clean that
    by (simp add: entry_ok_def)
  show "cache_view bd (load_entry bd s i c) t = cache_view bd c t" if t: "t \<noteq> no_sector"
  proof -
    consider "t = s" | "t \<noteq> s" "\<exists>j<CACHE_SIZE. j \<noteq> i \<and> ce_sector (entry c j) = t"
      | "t \<noteq> s" "\<forall>j<CACHE_SIZE. j \<noteq> i \<longrightarrow> ce_sector (entry c j) \<noteq> t" by blast
    then show ?thesis
    proof cases
      case 1
      then have "cache_view bd c t = block_read bd (fs_device c) s"
        using cache_view_miss [OF coherent_length [OF c], of t] fresh by simp
      with 1 show ?thesis
        using cache_view_hit [OF co i, of s] s by (simp add: load_entry_def e)
    next
      case 2
      then obtain j where j: "j < CACHE_SIZE" "j \<noteq> i" "ce_sector (entry c j) = t" by blast
      then have "ce_sector (entry (load_entry bd s i c) j) = t" by (simp add: load_entry_def e)
      from cache_view_hit [OF co j(1) this t] cache_view_hit [OF c j(1,3) t] j(2)
      show ?thesis by (simp add: load_entry_def e)
    next
      case 3
      have "cache_view bd (load_entry bd s i c) t = block_read bd (fs_device c) t"
        using 3 cache_view_miss [OF coherent_length [OF co], of t] by (simp add: load_entry_def e)
      also have "\<dots> = cache_view bd c t"
      proof (cases "ce_sector (entry c i) = t")
        case True
        with old t show ?thesis by simp
      next
        case False
        with 3 show ?thesis using cache_view_miss [OF coherent_length [OF c], of t] by metis
      qed
      finally show ?thesis .
    qed
  qed
qed

lemma find_cache_entry_alone:
  assumes bd: "blockdev_ok bd" and c: "coherent bd None c" and s: "s \<noteq> no_sector"
  obtains i c' where "find_cache_entry bd s [] c = Some (i, [], c')" "i < CACHE_SIZE"
    "coherent bd (Some i) c'" "ce_sector (entry c' i) = s" "ce_data (entry c' i) = cache_view bd c s"
    "\<And>t. t \<noteq> no_sector \<Longrightarrow> cache_view bd c' t = cache_view bd c t"
proof (cases "first_index (\<lambda>e. ce_sector e = s) (buffer_cache c)")
  case None
  then have fresh: "j < CACHE_SIZE \<Longrightarrow> ce_sector (entry c j) \<noteq> s" for j
    using coherent_length [OF c] by (auto simp: first_index_None)
  obtain i c' where n: "next_cache_entry bd [] c = Some (i, [], c')" "i < CACHE_SIZE"
    "coherent bd (Some i) c'" "\<not> ce_dirty (entry c' i)"
    "\<And>s. s \<noteq> no_sector \<Longrightarrow> cache_view bd c' s = cache_view bd c s"
    "\<And>j. j < CACHE_SIZE \<Longrightarrow> ce_sector (entry c' j) = ce_sector (entry c j)"
    using next_cache_entry_alone [OF bd c] by blast
  have fresh': "j < CACHE_SIZE \<Longrightarrow> ce_sector (entry c' j) \<noteq> s" for j
    using fresh n(6) by simp
  have l: "coherent bd (Some i) (load_entry bd s i c')"
    "t \<noteq> no_sector \<Longrightarrow> cache_view bd (load_entry bd s i c') t = cache_view bd c' t" for t
    by (rule coherent_load [OF bd n(3,2,4) s]; use fresh' in blast)+
  have "find_cache_entry bd s [] c = Some (i, [], load_entry bd s i c')"
    using c n(1) None locked_unlocked [OF c]
    by (simp add: find_cache_entry.simps acquire_buffer_lock_polite others_run_def)
  moreover have sec: "ce_sector (entry (load_entry bd s i c') i) = s"
    using n(2) coherent_length [OF n(3)] by (simp add: load_entry_def)
  moreover have "ce_data (entry (load_entry bd s i c') i) = cache_view bd c s"
    using cache_view_hit [OF l(1) n(2) sec s] l(2) [OF s] n(5) [OF s] by simp
  ultimately show ?thesis using that l n(2,5) by metis
next
  case (Some i)
  then have i: "i < CACHE_SIZE" "ce_sector (entry c i) = s"
    using first_index_Some [OF Some] coherent_length [OF c] by auto
  note l = coherent_lock [OF c i(1)]
  let ?c' = "upd_entry i (\<lambda>e. e\<lparr>block_lock := True\<rparr>) c"
  have e: "ce_sector (entry ?c' i) = s" "ce_data (entry ?c' i) = ce_data (entry c i)"
    using i coherent_length [OF c] by simp_all
  have "find_cache_entry bd s [] c = Some (i, [], ?c')"
    using c l(1) Some e locked_unlocked [OF c]
    by (simp add: find_cache_entry.simps acquire_buffer_lock_polite others_run_def)
  moreover have "cache_view bd ?c' t = cache_view bd c t" for t
    using coherent_length [OF c] i(1) by (simp add: cache_view_upd_meta)
  ultimately show ?thesis
    using that l(2) i e cache_view_hit [OF c i s] by metis
qed

section \<open>The operations refine a store of sectors\<close>

text \<open>A change of the locked buffer changes what a reader sees in its sector only.\<close>

lemma cache_view_upd_data:
  assumes c: "coherent bd (Some i) c" and i: "i < CACHE_SIZE" and s: "ce_sector (entry c i) = s" "s \<noteq> no_sector"
    and f: "ce_sector (f (entry c i)) = s" "block_lock (f (entry c i))" "entry_ok bd (fs_device c) (f (entry c i))"
  shows "coherent bd (Some i) (upd_entry i f c)"
    and "t \<noteq> no_sector \<Longrightarrow> cache_view bd (upd_entry i f c) t
           = (if t = s then ce_data (f (entry c i)) else cache_view bd c t)"
proof -
  note e = entry_upd_entry [of i c, unfolded coherent_length [OF c], OF i]
  show co: "coherent bd (Some i) (upd_entry i f c)"
    by (rule coherent_upd_entry [OF c i]) (use f s coherentD(4) [OF c _ i] in auto)
  show "cache_view bd (upd_entry i f c) t
      = (if t = s then ce_data (f (entry c i)) else cache_view bd c t)" if t: "t \<noteq> no_sector"
  proof (cases "t = s")
    case True
    then show ?thesis using cache_view_hit [OF co i, of s] f(1) s(2) by (simp add: e)
  next
    case False
    then show ?thesis
      using s f(1) by (auto intro!: cache_view_cong [OF c co t] simp: e)
  qed
qed

lemma cache_read_alone:
  assumes bd: "blockdev_ok bd" and c: "coherent bd None c" and s: "s \<noteq> no_sector"
    and r: "0 \<le> sz" "0 \<le> ofs" "ofs + sz \<le> BLOCK_SECTOR_SIZE"
  shows "\<exists>c'. cache_read bd s sz ofs [] c = Some (take (nat sz) (drop (nat ofs) (cache_view bd c s)), c') \<and>
    coherent bd None c' \<and> (\<forall>t. t \<noteq> no_sector \<longrightarrow> cache_view bd c' t = cache_view bd c t)"
proof -
  obtain i c1 where f: "find_cache_entry bd s [] c = Some (i, [], c1)" "i < CACHE_SIZE"
    "coherent bd (Some i) c1" "ce_sector (entry c1 i) = s" "ce_data (entry c1 i) = cache_view bd c s"
    "\<And>t. t \<noteq> no_sector \<Longrightarrow> cache_view bd c1 t = cache_view bd c t"
    using find_cache_entry_alone [OF bd c s] by blast
  let ?c2 = "upd_entry i (\<lambda>e. e\<lparr>ce_accessed := True\<rparr>) c1"
  note len = coherent_length [OF f(3)]
  have co: "coherent bd (Some i) ?c2"
    by (rule cache_view_upd_data(1) [OF f(3,2,4) s])
       (use f coherentD(3) [OF f(3,2)] coherent_entry [OF f(3,2)] in \<open>simp_all add: entry_ok_def\<close>)
  have "cache_read bd s sz ofs [] c =
      Some (take (nat sz) (drop (nat ofs) (cache_view bd c s)), release_block_lock i ?c2)"
    using r f(1,2,5) len by (simp add: cache_read_def)
  moreover have "cache_view bd (release_block_lock i ?c2) t = cache_view bd c1 t" for t
    using len f(2) by (simp add: release_block_lock_def cache_view_upd_meta)
  ultimately show ?thesis using coherent_release [OF co f(2)] f(6) by auto
qed

lemma cache_write_alone:
  assumes bd: "blockdev_ok bd" and c: "coherent bd None c" and s: "s \<noteq> no_sector"
    and r: "0 \<le> sz" "0 \<le> ofs" "ofs + sz \<le> BLOCK_SECTOR_SIZE" and buf: "sz \<le> int (length buf)"
  shows "\<exists>c'. cache_write bd s buf sz ofs [] c = Some c' \<and> coherent bd None c' \<and>
    (\<forall>t. t \<noteq> no_sector \<longrightarrow> cache_view bd c' t =
       (if t = s then memcpy_at (nat ofs) (take (nat sz) buf) (cache_view bd c s) else cache_view bd c t))"
proof -
  obtain i c1 where f: "find_cache_entry bd s [] c = Some (i, [], c1)" "i < CACHE_SIZE"
    "coherent bd (Some i) c1" "ce_sector (entry c1 i) = s" "ce_data (entry c1 i) = cache_view bd c s"
    "\<And>t. t \<noteq> no_sector \<Longrightarrow> cache_view bd c1 t = cache_view bd c t"
    using find_cache_entry_alone [OF bd c s] by blast
  let ?f = "\<lambda>e. e\<lparr>ce_dirty := True, ce_accessed := True,
     ce_data := memcpy_at (nat ofs) (take (nat sz) buf) (ce_data e)\<rparr>"
  let ?c2 = "upd_entry i ?f c1"
  note len = coherent_length [OF f(3)]
  have "length (ce_data (entry c1 i)) = 512" using coherent_entry [OF f(3,2)] by (simp add: entry_ok_def)
  then have ok: "entry_ok bd (fs_device c1) (?f (entry c1 i))"
    using r buf f(4) s by (simp add: entry_ok_def)
  note u = cache_view_upd_data [OF f(3,2,4) s, of ?f, OF _ _ ok]
  have "cache_write bd s buf sz ofs [] c = Some (release_block_lock i ?c2)"
    using r f(1) by (simp add: cache_write_def)
  moreover have "cache_view bd (release_block_lock i ?c2) t = cache_view bd ?c2 t" for t
    using len f(2) by (simp add: release_block_lock_def cache_view_upd_meta)
  moreover have "coherent bd None (release_block_lock i ?c2)"
    using u(1) f coherentD(3) [OF f(3,2)] by (intro coherent_release) simp_all
  ultimately show ?thesis using u(2) f(4-6) coherentD(3) [OF f(3,2)] by auto
qed


lemma cache_zero_alone:
  assumes bd: "blockdev_ok bd" and c: "coherent bd None c" and s: "s \<noteq> no_sector"
  shows "\<exists>c'. cache_zero bd s [] c = Some c' \<and> coherent bd None c' \<and>
    (\<forall>t. t \<noteq> no_sector \<longrightarrow> cache_view bd c' t = (if t = s then replicate 512 0 else cache_view bd c t))"
proof -
  obtain i c1 where f: "find_cache_entry bd s [] c = Some (i, [], c1)" "i < CACHE_SIZE"
    "coherent bd (Some i) c1" "ce_sector (entry c1 i) = s" "ce_data (entry c1 i) = cache_view bd c s"
    "\<And>t. t \<noteq> no_sector \<Longrightarrow> cache_view bd c1 t = cache_view bd c t"
    using find_cache_entry_alone [OF bd c s] by blast
  let ?f = "\<lambda>e. e\<lparr>ce_data := replicate 512 0, ce_dirty := True, ce_accessed := True\<rparr>"
  let ?c2 = "upd_entry i ?f c1"
  note len = coherent_length [OF f(3)]
  have ok: "entry_ok bd (fs_device c1) (?f (entry c1 i))"
    using f(4) s by (simp add: entry_ok_def)
  note u = cache_view_upd_data [OF f(3,2,4) s, of ?f, OF _ _ ok]
  have "cache_zero bd s [] c = Some (release_block_lock i ?c2)"
    using f(1) by (simp add: cache_zero_def)
  moreover have "cache_view bd (release_block_lock i ?c2) t = cache_view bd ?c2 t" for t
    using len f(2) by (simp add: release_block_lock_def cache_view_upd_meta)
  moreover have "coherent bd None (release_block_lock i ?c2)"
    using u(1) f coherentD(3) [OF f(3,2)] by (intro coherent_release) simp_all
  ultimately show ?thesis using u(2) f(4-6) coherentD(3) [OF f(3,2)] by auto
qed

section \<open>Saving the cache\<close>

lemma save_one:
  assumes bd: "blockdev_ok bd" and c: "coherent bd None c" and i: "i < CACHE_SIZE"
  obtains c1 where "acquire_block_lock [] i c = Some c1"
    "coherent bd None (release_block_lock i (write_back bd i c1))"
    "\<And>s. s \<noteq> no_sector \<Longrightarrow> cache_view bd (release_block_lock i (write_back bd i c1)) s = cache_view bd c s"
    "\<And>j. j < CACHE_SIZE \<Longrightarrow> ce_dirty (entry (release_block_lock i (write_back bd i c1)) j)
        \<longleftrightarrow> j \<noteq> i \<and> ce_dirty (entry c j)"
proof -
  let ?c1 = "upd_entry i (\<lambda>e. e\<lparr>block_lock := True\<rparr>) c"
  let ?c2 = "write_back bd i ?c1"
  note l = coherent_lock [OF c i] and w = coherent_write_back [OF bd coherent_lock(2) [OF c i] i]
  note wb = write_back_simps [OF coherent_length [OF l(2)] i, of bd]
  have "cache_view bd (release_block_lock i ?c2) s = cache_view bd c s" if "s \<noteq> no_sector" for s
    using w(2) [OF that] coherent_length [OF c] coherent_length [OF w(1)] i
    by (simp add: release_block_lock_def cache_view_upd_meta)
  moreover have "ce_dirty (entry (release_block_lock i ?c2) j) \<longleftrightarrow> j \<noteq> i \<and> ce_dirty (entry c j)"
    if "j < CACHE_SIZE" for j
    using coherent_length [OF c] wb(1) i by (simp add: release_block_lock_def wb(3))
  ultimately show ?thesis using that l(1) coherent_release [OF w(1) i] by blast
qed

lemma cache_save_from_alone:
  assumes bd: "blockdev_ok bd" and "coherent bd None c" "\<forall>i\<in>set is. i < CACHE_SIZE"
  shows "\<exists>c'. cache_save_from bd is [] c = Some c' \<and> coherent bd None c' \<and>
    (\<forall>s. s \<noteq> no_sector \<longrightarrow> cache_view bd c' s = cache_view bd c s) \<and>
    (\<forall>j<CACHE_SIZE. ce_dirty (entry c' j) \<longleftrightarrow> j \<notin> set is \<and> ce_dirty (entry c j))"
  using assms(2,3)
proof (induction "is" arbitrary: c)
  case (Cons i "is")
  have i: "i < CACHE_SIZE" using Cons.prems by simp
  obtain c1 where o: "acquire_block_lock [] i c = Some c1"
    "coherent bd None (release_block_lock i (write_back bd i c1))"
    "\<And>s. s \<noteq> no_sector \<Longrightarrow> cache_view bd (release_block_lock i (write_back bd i c1)) s = cache_view bd c s"
    "\<And>j. j < CACHE_SIZE \<Longrightarrow> ce_dirty (entry (release_block_lock i (write_back bd i c1)) j)
        \<longleftrightarrow> j \<noteq> i \<and> ce_dirty (entry c j)"
    using save_one [OF bd Cons.prems(1) i] by blast
  from Cons.IH [OF o(2)] Cons.prems o show ?case by auto
qed simp

lemma cache_save_alone:
  assumes bd: "blockdev_ok bd" and c: "coherent bd None c"
  shows "\<exists>c'. cache_save bd [] c = Some c' \<and> coherent bd None c' \<and>
    (\<forall>s. s \<noteq> no_sector \<longrightarrow> cache_view bd c' s = cache_view bd c s \<and>
       block_read bd (fs_device c') s = cache_view bd c s)"
proof -
  obtain c' where s: "cache_save bd [] c = Some c'" "coherent bd None c'"
    "\<And>s. s \<noteq> no_sector \<Longrightarrow> cache_view bd c' s = cache_view bd c s"
    "\<And>j. j < CACHE_SIZE \<Longrightarrow> \<not> ce_dirty (entry c' j)"
    using cache_save_from_alone [OF bd c, of "[0..<CACHE_SIZE]"] by (auto simp: cache_save_def)
  have "block_read bd (fs_device c') s = cache_view bd c' s" if t: "s \<noteq> no_sector" for s
  proof (cases "\<exists>i<CACHE_SIZE. ce_sector (entry c' i) = s")
    case True
    then obtain i where i: "i < CACHE_SIZE" "ce_sector (entry c' i) = s" by blast
    with cache_view_hit [OF s(2) i t] coherent_entry [OF s(2) i(1)] s(4) [OF i(1)] t
    show ?thesis by (simp add: entry_ok_def)
  next
    case False
    then show ?thesis using cache_view_miss [OF coherent_length [OF s(2)], of s bd] by auto
  qed
  with s show ?thesis by auto
qed

lemma coherent_cache_init:
  assumes "device_ok bd d"
  shows "coherent bd None (cache_init d)"
    and "s \<noteq> no_sector \<Longrightarrow> cache_view bd (cache_init d) s = block_read bd d s"
proof -
  show "coherent bd None (cache_init d)"
    by (rule coherentI) (use assms in \<open>simp_all add: cache_init_def empty_entry_def entry_ok_def\<close>)
  show "s \<noteq> no_sector \<Longrightarrow> cache_view bd (cache_init d) s = block_read bd d s"
    by (subst cache_view_miss) (simp_all add: cache_init_def empty_entry_def)
qed


section \<open>Interference\<close>

text \<open>
  With other threads running whole operations between the lock acquisitions, a thread
  still gets a clean buffer under its lock, after finitely many rounds: the search does not
  run out of rounds and does not wait for ever.
\<close>

lemma next_cache_entry_polite:
  assumes "blockdev_ok bd" "polite bd w" "coherent bd None c"
  shows "\<exists>i w' c'. next_cache_entry bd w c = Some (i, w', c') \<and> i < CACHE_SIZE \<and>
    coherent bd (Some i) c' \<and> \<not> ce_dirty (entry c' i) \<and> polite bd w'"
  using assms
proof (induction bd w c rule: next_cache_entry.induct)
  case (1 bd w c)
  let ?c0 = "others_run w c"
  obtain i es where sw: "clock_sweep 0 (buffer_cache ?c0) = (i, es)" by force
  note o = polite_others_run [OF 1(3,4)]
  note s = coherent_sweep [OF o sw]
  let ?c2 = "?c0\<lparr>buffer_cache := es\<rparr>"
  note l = acquire_block_lock_polite [OF polite_tl [OF 1(3)] s(3,1)]
  let ?c3 = "upd_entry i (\<lambda>e. e\<lparr>block_lock := True\<rparr>) (others_run (tl w) ?c2)"
  have n: "next_cache_entry bd w c =
      (if \<not> ce_accessed (entry ?c3 i) then Some (i, tl (tl w), write_back bd i ?c3)
       else if w = [] then None else next_cache_entry bd (tl (tl w)) (release_block_lock i ?c3))"
    using sw l(1) locked_unlocked [OF o] acquire_buffer_lock_polite [OF 1(3,4)] by (simp add: next_cache_entry.simps [of bd w c])
  show ?case
  proof (cases "ce_accessed (entry ?c3 i)")
    case False
    then show ?thesis
      using n s(1) coherent_write_back(1) [OF 1(2) l(2) s(1)] 1(3)
        write_back_simps(3) [OF coherent_length [OF l(2)] s(1), of bd] by simp
  next
    case True
    have "w \<noteq> []"
    proof
      assume "w = []"
      then have "ce_accessed (es ! i)"
        using True s(1) coherent_length [OF s(3)] by (simp add: others_run_def)
      with s(2) show False ..
    qed
    with True n 1(1) [OF acquire_buffer_lock_polite [OF 1(3,4)]] show ?thesis
      using 1(2,3) sw l coherent_release [OF l(2) s(1)] locked_unlocked [OF o] by simp
  qed
qed

lemma find_cache_entry_polite:
  assumes "blockdev_ok bd" "polite bd w" "coherent bd None c"
  shows "\<exists>i w' c'. find_cache_entry bd s w c = Some (i, w', c') \<and> i < CACHE_SIZE \<and>
    ce_sector (entry c' i) = s \<and> block_lock (entry c' i)"
  using assms
proof (induction bd s w c rule: find_cache_entry.induct)
  case (1 bd s w c)
  let ?c0 = "others_run w c" and ?hit = "\<lambda>c. first_index (\<lambda>e. ce_sector e = s) (buffer_cache c)"
  note o = polite_others_run [OF 1(3,4)]
  show ?case
  proof (cases "?hit ?c0")
    case None
    obtain i w' c' where n: "next_cache_entry bd (tl w) ?c0 = Some (i, w', c')" "i < CACHE_SIZE"
      "coherent bd (Some i) c'"
      using next_cache_entry_polite [OF 1(2) polite_tl [OF 1(3)] o] by blast
    then have "find_cache_entry bd s w c = Some (i, w', load_entry bd s i c')"
      using n(1) locked_unlocked [OF o] acquire_buffer_lock_polite [OF 1(3,4)] None by (simp add: find_cache_entry.simps [of bd s w c])
    moreover have "block_lock (entry c' i)" using coherentD(3) [OF n(3,2)] by simp
    ultimately show ?thesis using n coherent_length [OF n(3)] by (simp add: load_entry_def)
  next
    case (Some i)
    then have i: "i < CACHE_SIZE" "ce_sector (entry ?c0 i) = s"
      using first_index_Some [OF Some] coherent_length [OF o] by auto
    note l = acquire_block_lock_polite [OF polite_tl [OF 1(3)] o i(1)]
    let ?c3 = "upd_entry i (\<lambda>e. e\<lparr>block_lock := True\<rparr>) (others_run (tl w) ?c0)"
    have f: "find_cache_entry bd s w c =
      (if ce_sector (entry ?c3 i) = s then Some (i, tl (tl w), ?c3)
       else if w = [] then None else find_cache_entry bd s (tl (tl w)) (release_block_lock i ?c3))"
      using locked_unlocked [OF o] acquire_buffer_lock_polite [OF 1(3,4)] Some l(1) by (simp add: find_cache_entry.simps [of bd s w c])
    show ?thesis
    proof (cases "ce_sector (entry ?c3 i) = s")
      case True
      then show ?thesis using f i(1) coherentD(3) [OF l(2) i(1)] by simp
    next
      case False
      have "w \<noteq> []"
      proof
        assume "w = []"
        then show False using False i coherent_length [OF o] by (simp add: others_run_def)
      qed
      with False f 1(1) [OF acquire_buffer_lock_polite [OF 1(3,4)]] show ?thesis
        using 1(2,3) l coherent_release [OF l(2) i(1)] locked_unlocked [OF o] Some by simp
    qed
  qed
qed


section \<open>Two threads missing the same sector\<close>

text \<open>
  \<open>find_cache_entry\<close> does not look again for the sector once it has given back the cache
  lock after a miss. A thread that loads the same sector in between leaves two buffers for it.
\<close>

definition reader_thread :: "'d blockdev \<Rightarrow> sector \<Rightarrow> 'd cache \<Rightarrow> 'd cache" where
  "reader_thread bd s c = (case cache_read bd s 512 0 [] c of Some (_, c') \<Rightarrow> c' | None \<Rightarrow> c)"

lemma reader_thread_polite:
  assumes "blockdev_ok bd" "s \<noteq> no_sector"
  shows "polite bd [reader_thread bd s]"
  using cache_read_alone [OF assms(1) _ assms(2), of _ 512 0]
  by (fastforce simp: polite_def reader_thread_def)

lemma empty_buffers: "replicate 64 e = e # e # replicate 62 (e :: cache_entry)"
  by (simp add: numeral_eq_Suc)

lemma empty_entry_simps [simp]:
  "ce_sector empty_entry = no_sector" "\<not> block_lock empty_entry" "\<not> ce_dirty empty_entry"
  "\<not> ce_accessed empty_entry" "ce_data empty_entry = replicate 512 0"
  by (simp_all add: empty_entry_def)

lemma find_from_empty [simp]:
  "s \<noteq> no_sector \<Longrightarrow> first_index (\<lambda>e. ce_sector e = s) (replicate n empty_entry) = None"
  by (auto simp: first_index_None empty_entry_def)

section \<open>The interface of a store of sectors\<close>

locale sector_store =
  fixes inv :: "'c \<Rightarrow> bool" and view :: "'c \<Rightarrow> sector \<Rightarrow> byte list"
    and rd :: "sector \<Rightarrow> int \<Rightarrow> int \<Rightarrow> 'c \<Rightarrow> (byte list \<times> 'c) option"
    and wr :: "sector \<Rightarrow> byte list \<Rightarrow> int \<Rightarrow> int \<Rightarrow> 'c \<Rightarrow> 'c option"
    and zero :: "sector \<Rightarrow> 'c \<Rightarrow> 'c option"
  assumes view_length: "inv c \<Longrightarrow> s \<noteq> no_sector \<Longrightarrow> length (view c s) = 512"
    and rd_spec: "inv c \<Longrightarrow> s \<noteq> no_sector \<Longrightarrow> 0 \<le> sz \<Longrightarrow> 0 \<le> ofs \<Longrightarrow> ofs + sz \<le> BLOCK_SECTOR_SIZE \<Longrightarrow>
      \<exists>c'. rd s sz ofs c = Some (take (nat sz) (drop (nat ofs) (view c s)), c') \<and> inv c' \<and>
           (\<forall>t. t \<noteq> no_sector \<longrightarrow> view c' t = view c t)"
    and wr_spec: "inv c \<Longrightarrow> s \<noteq> no_sector \<Longrightarrow> 0 \<le> sz \<Longrightarrow> 0 \<le> ofs \<Longrightarrow> ofs + sz \<le> BLOCK_SECTOR_SIZE \<Longrightarrow>
      sz \<le> int (length buf) \<Longrightarrow>
      \<exists>c'. wr s buf sz ofs c = Some c' \<and> inv c' \<and>
           (\<forall>t. t \<noteq> no_sector \<longrightarrow> view c' t =
              (if t = s then memcpy_at (nat ofs) (take (nat sz) buf) (view c s) else view c t))"
    and zero_spec: "inv c \<Longrightarrow> s \<noteq> no_sector \<Longrightarrow>
      \<exists>c'. zero s c = Some c' \<and> inv c' \<and>
           (\<forall>t. t \<noteq> no_sector \<longrightarrow> view c' t = (if t = s then replicate 512 0 else view c t))"
begin

text \<open>What is written is read back, and other sectors are as before.\<close>

lemma read_after_write:
  assumes "inv c" "s \<noteq> no_sector" "0 \<le> ofs" "ofs + int (length buf) \<le> BLOCK_SECTOR_SIZE"
    and "wr s buf (int (length buf)) ofs c = Some c'"
  shows "\<exists>c''. rd s (int (length buf)) ofs c' = Some (buf, c'')"
proof -
  have c': "inv c'" "view c' s = memcpy_at (nat ofs) buf (view c s)"
    using wr_spec [of c s "int (length buf)" ofs buf] assms by auto
  have "take (length buf) (drop (nat ofs) (view c' s)) = buf"
    using view_length [OF assms(1,2)] assms(3,4) c'(2) by (simp add: memcpy_at_read)
  then show ?thesis using rd_spec [OF c'(1) assms(2), of "int (length buf)" ofs] assms(3,4) by auto
qed

lemma read_other_after_write:
  assumes "inv c" "s \<noteq> no_sector" "t \<noteq> no_sector" "t \<noteq> s" "0 \<le> ofs" "0 \<le> sz" "ofs + sz \<le> BLOCK_SECTOR_SIZE"
    and "sz \<le> int (length buf)" "wr s buf sz ofs c = Some c'"
    and "0 \<le> ofs'" "0 \<le> sz'" "ofs' + sz' \<le> BLOCK_SECTOR_SIZE"
  shows "map_option fst (rd t sz' ofs' c') = map_option fst (rd t sz' ofs' c)"
proof -
  have "inv c'" "view c' t = view c t" using wr_spec [of c s sz ofs buf] assms by auto
  then show ?thesis using rd_spec [of c' t sz' ofs'] rd_spec [of c t sz' ofs'] assms by auto
qed

lemma read_after_zero:
  assumes "inv c" "s \<noteq> no_sector" "zero s c = Some c'" "0 \<le> ofs" "0 \<le> sz" "ofs + sz \<le> BLOCK_SECTOR_SIZE"
  shows "\<exists>c''. rd s sz ofs c' = Some (replicate (nat sz) 0, c'')"
proof -
  have "inv c'" "view c' s = replicate 512 0" using zero_spec [of c s] assms by auto
  then show ?thesis using rd_spec [of c' s sz ofs] assms by (auto simp: min_def)
qed

end

definition cache_ok :: "'d blockdev \<Rightarrow> 'd cache \<Rightarrow> bool" where
  "cache_ok bd c \<longleftrightarrow> blockdev_ok bd \<and> coherent bd None c"

interpretation cache_store: sector_store "cache_ok bd" "cache_view bd"
    "\<lambda>s sz ofs. cache_read bd s sz ofs []" "\<lambda>s buf sz ofs. cache_write bd s buf sz ofs []"
    "\<lambda>s. cache_zero bd s []"
  for bd :: "'d blockdev"
proof (unfold_locales, goal_cases)
  case (1 c s) then show ?case by (auto simp: cache_ok_def intro: cache_view_length)
next
  case (2 c s sz ofs) then show ?case using cache_read_alone [of bd c s sz ofs] by (auto simp: cache_ok_def)
next
  case (3 c s sz ofs buf) then show ?case using cache_write_alone [of bd c s sz ofs buf] by (auto simp: cache_ok_def)
next
  case (4 c s) then show ?case using cache_zero_alone [of bd c s] by (auto simp: cache_ok_def)
qed


section \<open>Properties\<close>

text \<open>A device in memory, for the concrete instances of the properties.\<close>

definition ram_disk :: "(sector \<Rightarrow> byte list) blockdev" where
  "ram_disk = \<lparr>block_read = (\<lambda>d s. d s), block_write = (\<lambda>d s x. d(s := x)),
               device_ok = (\<lambda>d. \<forall>s. length (d s) = 512)\<rparr>"

definition blank_disk :: "sector \<Rightarrow> byte list" where
  "blank_disk = (\<lambda>s. replicate 512 0)"

lemma ram_disk_ok: "blockdev_ok ram_disk" "device_ok ram_disk blank_disk"
  by (auto simp: blockdev_ok_def ram_disk_def blank_disk_def)

lemma blank_cache_ok: "cache_ok ram_disk (cache_init blank_disk)"
  using ram_disk_ok coherent_cache_init by (simp add: cache_ok_def)

lemma ram_disk_read [simp]: "block_read ram_disk d s = d s"
  by (simp add: ram_disk_def)

text \<open>
  C1 (refinement): whatever is cached, dirty or evicted on the way, the three operations act
  on the sector contents as on an array of sectors: \<open>cache_read\<close> returns the requested
  bytes and changes no sector, \<open>cache_write\<close> replaces exactly the bytes
  \<open>offset .. offset + size - 1\<close> of its sector, \<open>cache_zero\<close> clears its sector, and
  every other sector keeps its bytes. All locks are free again afterwards.
\<close>

theorem cache_refines_sectors:
  assumes "cache_ok bd c" "s \<noteq> no_sector" "0 \<le> sz" "0 \<le> ofs" "ofs + sz \<le> BLOCK_SECTOR_SIZE"
    and "sz \<le> int (length buf)"
  shows "(\<exists>c'. cache_read bd s sz ofs [] c = Some (take (nat sz) (drop (nat ofs) (cache_view bd c s)), c') \<and>
            cache_ok bd c' \<and> (\<forall>t. t \<noteq> no_sector \<longrightarrow> cache_view bd c' t = cache_view bd c t)) \<and>
         (\<exists>c'. cache_write bd s buf sz ofs [] c = Some c' \<and> cache_ok bd c' \<and>
            (\<forall>t. t \<noteq> no_sector \<longrightarrow> cache_view bd c' t =
               (if t = s then memcpy_at (nat ofs) (take (nat sz) buf) (cache_view bd c s) else cache_view bd c t))) \<and>
         (\<exists>c'. cache_zero bd s [] c = Some c' \<and> cache_ok bd c' \<and>
            (\<forall>t. t \<noteq> no_sector \<longrightarrow> cache_view bd c' t = (if t = s then replicate 512 0 else cache_view bd c t)))"
  using cache_store.rd_spec [OF assms(1-5)] cache_store.wr_spec [OF assms] cache_store.zero_spec [OF assms(1,2)]
  by blast

theorem cache_refines_sectors_witness:
  "\<exists>c'. cache_write ram_disk 7 [1, 2, 3] 3 100 [] (cache_init blank_disk) = Some c' \<and>
     cache_view ram_disk c' 7 = memcpy_at 100 [1, 2, 3] (replicate 512 0) \<and>
     cache_view ram_disk c' 8 = replicate 512 0"
  using cache_refines_sectors [OF blank_cache_ok, of 7 3 100 "[1, 2, 3]"]
    coherent_cache_init(2) [OF ram_disk_ok(2)]
  by (auto simp: blank_disk_def)

text \<open>
  Bytes written to a sector are read back at the same place, also after a
  write of any other sector in between, whatever the cache evicts for it.
\<close>

theorem cache_write_read_roundtrip:
  assumes "cache_ok bd c" "s \<noteq> no_sector" "t \<noteq> no_sector" "t \<noteq> s"
    and "0 \<le> ofs" "ofs + int (length buf) \<le> BLOCK_SECTOR_SIZE" "length other = 512"
    and "cache_write bd s buf (int (length buf)) ofs [] c = Some c1"
    and "cache_write bd t other 512 0 [] c1 = Some c2"
  shows "\<exists>c3. cache_read bd s (int (length buf)) ofs [] c2 = Some (buf, c3)"
proof -
  have c1: "cache_ok bd c1" using cache_store.wr_spec [OF assms(1,2), of "int (length buf)" ofs buf] assms by auto
  obtain c3 where "cache_read bd s (int (length buf)) ofs [] c1 = Some (buf, c3)"
    using cache_store.read_after_write [OF assms(1,2,5,6,8)] by blast
  moreover have "map_option fst (cache_read bd s (int (length buf)) ofs [] c2)
      = map_option fst (cache_read bd s (int (length buf)) ofs [] c1)"
    by (rule cache_store.read_other_after_write [OF c1 assms(3,2) _ _ _ _ _ assms(9)]) (use assms in auto)
  ultimately show ?thesis by (auto simp: map_option_case split: option.splits)
qed

theorem cache_write_read_roundtrip_witness:
  "\<exists>c1 c2 c3. cache_write ram_disk 7 [1, 2, 3] 3 100 [] (cache_init blank_disk) = Some c1 \<and>
     cache_write ram_disk 8 (replicate 512 9) 512 0 [] c1 = Some c2 \<and>
     cache_read ram_disk 7 3 100 [] c2 = Some ([1, 2, 3], c3)"
proof -
  obtain c1 where c1: "cache_write ram_disk 7 [1, 2, 3] 3 100 [] (cache_init blank_disk) = Some c1" "cache_ok ram_disk c1"
    using cache_store.wr_spec [OF blank_cache_ok, of 7 3 100 "[1, 2, 3]"] by auto
  obtain c2 where c2: "cache_write ram_disk 8 (replicate 512 9) 512 0 [] c1 = Some c2"
    using cache_store.wr_spec [OF c1(2), of 8 512 0 "replicate 512 9"] by auto
  show ?thesis
    using cache_write_read_roundtrip [OF blank_cache_ok, of 7 8 100 "[1, 2, 3]" "replicate 512 9" c1 c2] c1 c2 by simp
qed

text \<open>
  \<open>cache_save\<close> makes the device agree with the cache on every sector, so that
  nothing written before it is lost when the machine stops, and it changes no contents.
\<close>

theorem cache_save_durable:
  assumes "cache_ok bd c"
  shows "\<exists>c'. cache_save bd [] c = Some c' \<and> cache_ok bd c' \<and>
    (\<forall>s. s \<noteq> no_sector \<longrightarrow> cache_view bd c' s = cache_view bd c s \<and>
       block_read bd (fs_device c') s = cache_view bd c s)"
  using cache_save_alone [of bd c] assms by (auto simp: cache_ok_def)

theorem cache_save_durable_witness:
  "\<exists>c1 c2. cache_write ram_disk 7 (replicate 512 5) 512 0 [] (cache_init blank_disk) = Some c1 \<and>
     cache_save ram_disk [] c1 = Some c2 \<and> fs_device c2 7 = replicate 512 5"
proof -
  obtain c1 where c1: "cache_write ram_disk 7 (replicate 512 5) 512 0 [] (cache_init blank_disk) = Some c1"
    "cache_ok ram_disk c1" "cache_view ram_disk c1 7 = memcpy_at 0 (replicate 512 5) (cache_view ram_disk (cache_init blank_disk) 7)"
    using cache_store.wr_spec [OF blank_cache_ok, of 7 512 0 "replicate 512 5"] by auto
  have "cache_view ram_disk c1 7 = replicate 512 5"
    using c1(3) cache_store.view_length [OF blank_cache_ok, of 7] by simp
  then show ?thesis using cache_save_durable [OF c1(2)] c1(1) by auto
qed

text \<open>
  Other threads may run a finite number \<open>w\<close> of whole operations, each while this one waits for a
  lock, that leave the cache at rest: then \<open>find_cache_entry\<close> returns and the buffer it returns is locked and holds the
  requested sector. (Each retry uses up some of \<open>w\<close>; the loops of the code have no bound of their own, and other threads that keep evicting
  the buffer could make them go on.)
\<close>

theorem find_cache_entry_returns:
  assumes "blockdev_ok bd" "polite bd w" "coherent bd None c"
  shows "\<exists>i w' c'. find_cache_entry bd s w c = Some (i, w', c') \<and> i < CACHE_SIZE \<and>
    ce_sector (entry c' i) = s \<and> block_lock (entry c' i)"
  using assms by (rule find_cache_entry_polite)

theorem find_cache_entry_returns_witness:
  "\<exists>i w' c'. find_cache_entry ram_disk 3 [reader_thread ram_disk 3] (cache_init blank_disk) = Some (i, w', c') \<and>
     i < CACHE_SIZE \<and> ce_sector (entry c' i) = 3 \<and> block_lock (entry c' i)"
  using find_cache_entry_returns [OF ram_disk_ok(1) reader_thread_polite [OF ram_disk_ok(1), of 3]
      coherent_cache_init(1) [OF ram_disk_ok(2)], of 3] by simp

text \<open>
  A lost write. Two threads miss the same sector: while the first waits for the
  cache lock to choose a buffer, the second reads the sector into the cache. The first then
  loads it a second time and completes its \<open>cache_write\<close>; yet a later
  \<open>cache_read\<close> returns what the device held before, not what was written.
\<close>

theorem cache_miss_race:
  assumes bd: "blockdev_ok bd" and d: "device_ok bd d" and s: "s \<noteq> no_sector" and buf: "length buf = 512"
  shows "\<exists>c1 c2. cache_write bd s buf 512 0 [\<lambda>c. c, reader_thread bd s] (cache_init d) = Some c1 \<and>
    cache_read bd s 512 0 [] c1 = Some (block_read bd d s, c2)"
proof -
  have len: "length (block_read bd d s) = 512" using bd d by (simp add: blockdev_ok_def)
  show ?thesis
    using s buf len
    by (simp add: cache_init_def cache_write_def cache_read_def reader_thread_def others_run_def
        find_cache_entry.simps next_cache_entry.simps acquire_buffer_lock_def acquire_block_lock_def
        release_buffer_lock_def release_block_lock_def write_back_def load_entry_def upd_entry_def
        empty_buffers Let_def)
qed

theorem cache_miss_race_witness:
  "\<exists>c1 c2. cache_write ram_disk 3 (replicate 512 1) 512 0 [\<lambda>c. c, reader_thread ram_disk 3] (cache_init blank_disk) = Some c1 \<and>
     cache_read ram_disk 3 512 0 [] c1 = Some (replicate 512 0, c2) \<and> replicate 512 0 \<noteq> replicate 512 (1::byte)"
  using cache_miss_race [OF ram_disk_ok, of 3 "replicate 512 1"] by (simp add: blank_disk_def)

text \<open>
  The second-chance rule. The buffer chosen is the first one that was not used
  since the last sweep, or the last buffer when all were; the buffers before it lose their
  mark, those after it keep theirs.
\<close>

theorem clock_sweep_second_chance:
  assumes "es \<noteq> []"
  shows "clock_sweep 0 es =
    (case first_index (\<lambda>e. \<not> ce_accessed e) es of
       Some i \<Rightarrow> (i, map unref (take i es) @ drop i es)
     | None \<Rightarrow> (length es - 1, map unref es))"
proof -
  have "clock_sweep k es =
    (case first_index (\<lambda>e. \<not> ce_accessed e) es of
       Some i \<Rightarrow> (k + i, map unref (take i es) @ drop i es)
     | None \<Rightarrow> (k + length es - 1, map unref es))" for k
    by (induction es arbitrary: k) (auto split: option.splits)
  from this [of 0] show ?thesis by (simp split: option.splits)
qed

theorem clock_sweep_second_chance_witness:
  "clock_sweep 0 [empty_entry\<lparr>ce_accessed := True\<rparr>, empty_entry] = (1, [empty_entry, empty_entry])"
  using clock_sweep_second_chance [of "[empty_entry\<lparr>ce_accessed := True\<rparr>, empty_entry]"]
  by (simp add: empty_entry_def)

end
