(* ===== verification/Free_Map.thy ===== *)
theory Free_Map
  imports Buffer_Cache
begin

text \<open>
  The free map of \<open>file-system/filesys/free-map.c\<close>: one bit per sector of the file
  system device, kept in memory and written to its own file after every change.

  \<open>lib/kernel/bitmap.c\<close> and \<open>filesys/file.c\<close> are not part of the sources: the
  bitmap operations and the transfer of the bitmap to and from its file are the parameter
  \<open>ops\<close>, and \<open>bitmap_ok\<close>, \<open>fm_file_ok\<close> state what is documented of them.
\<close>

section \<open>State and parameters\<close>

record 'd fs_ops =
  fs_dev :: "'d blockdev"
  bitmap_create :: "nat \<Rightarrow> bool list option"
  bitmap_mark :: "bool list \<Rightarrow> nat \<Rightarrow> bool list"
  bitmap_scan_and_flip :: "bool list \<Rightarrow> nat \<Rightarrow> nat \<Rightarrow> bool \<Rightarrow> nat option \<times> bool list"
  bitmap_set_multiple :: "bool list \<Rightarrow> nat \<Rightarrow> nat \<Rightarrow> bool \<Rightarrow> bool list"
  bitmap_all :: "bool list \<Rightarrow> nat \<Rightarrow> nat \<Rightarrow> bool"
  bitmap_write :: "bool list \<Rightarrow> 'd cache \<Rightarrow> bool \<times> 'd cache"
  bitmap_read :: "bool list \<Rightarrow> 'd cache \<Rightarrow> bool \<times> bool list \<times> 'd cache"
  bitmap_file_size :: "bool list \<Rightarrow> int"

text \<open>\<open>free_map_file\<close> says whether the pointer to the free map file is set.\<close>

record 'd fs =
  fs_cache :: "'d cache"
  free_map :: "bool list"
  free_map_file :: bool

abbreviation FREE_MAP_SECTOR :: sector where "FREE_MAP_SECTOR \<equiv> 0"
abbreviation ROOT_DIR_SECTOR :: sector where "ROOT_DIR_SECTOR \<equiv> 1"

text \<open>
  The documented behaviour of the bitmap operations as they are used here: for single bits,
  searching from the start. A search that finds nothing returns \<open>BITMAP_ERROR\<close>
  (\<open>None\<close>) and changes nothing.
\<close>

definition bitmap_ok :: "'d fs_ops \<Rightarrow> bool" where
  "bitmap_ok ops \<longleftrightarrow>
     (\<forall>b v. bitmap_scan_and_flip ops b 0 1 v =
        (case first_index (\<lambda>x. x = v) b of None \<Rightarrow> (None, b) | Some i \<Rightarrow> (Some i, b[i := \<not> v]))) \<and>
     (\<forall>b i v. i < length b \<longrightarrow> bitmap_set_multiple ops b i 1 v = b[i := v]) \<and>
     (\<forall>b i. i < length b \<longrightarrow> bitmap_all ops b i 1 = b ! i) \<and>
     (\<forall>b i. i < length b \<longrightarrow> bitmap_mark ops b i = b[i := True]) \<and>
     (\<forall>n b. bitmap_create ops n = Some b \<longrightarrow> b = replicate n False)"

text \<open>
  Writing the bitmap to its file touches the sectors \<open>F\<close> of that file only, through the
  cache.
\<close>

definition fm_file_ok :: "'d fs_ops \<Rightarrow> sector set \<Rightarrow> bool" where
  "fm_file_ok ops F \<longleftrightarrow>
     (\<forall>b c ok c'. cache_ok (fs_dev ops) c \<longrightarrow> bitmap_write ops b c = (ok, c') \<longrightarrow>
        cache_ok (fs_dev ops) c' \<and>
        (\<forall>s. s \<notin> F \<longrightarrow> s \<noteq> no_sector \<longrightarrow> cache_view (fs_dev ops) c' s = cache_view (fs_dev ops) c s))"

section \<open>Operations\<close>

definition free_map_init :: "'d fs_ops \<Rightarrow> nat \<Rightarrow> ('d, 'z) fs_scheme \<Rightarrow> ('d, 'z) fs_scheme option" where
  "free_map_init ops block_size fs = do {
     b \<leftarrow> bitmap_create ops block_size;
     Some (fs\<lparr>free_map := bitmap_mark ops (bitmap_mark ops b (unat FREE_MAP_SECTOR)) (unat ROOT_DIR_SECTOR)\<rparr>)
   }"

definition free_map_allocate :: "'d fs_ops \<Rightarrow> ('d, 'z) fs_scheme \<Rightarrow> sector option \<times> ('d, 'z) fs_scheme" where
  "free_map_allocate ops fs =
     (case bitmap_scan_and_flip ops (free_map fs) 0 1 False of
        (None, b) \<Rightarrow> (None, fs\<lparr>free_map := b\<rparr>)
      | (Some n, b) \<Rightarrow>
          if free_map_file fs then
            (case bitmap_write ops b (fs_cache fs) of
               (True, c) \<Rightarrow> (Some (of_nat n), fs\<lparr>free_map := b, fs_cache := c\<rparr>)
             | (False, c) \<Rightarrow> (None, fs\<lparr>free_map := bitmap_set_multiple ops b n 1 False, fs_cache := c\<rparr>))
          else (Some (of_nat n), fs\<lparr>free_map := b\<rparr>))"

text \<open>Without its file the last call dereferences a null pointer.\<close>

definition free_map_release :: "'d fs_ops \<Rightarrow> sector \<Rightarrow> ('d, 'z) fs_scheme \<Rightarrow> ('d, 'z) fs_scheme option" where
  "free_map_release ops s fs = do {
     kassert (bitmap_all ops (free_map fs) (unat s) 1);
     let b = bitmap_set_multiple ops (free_map fs) (unat s) 1 False;
     kassert (free_map_file fs);
     let (ok, c) = bitmap_write ops b (fs_cache fs);
     Some (fs\<lparr>free_map := b, fs_cache := c\<rparr>)
   }"

section \<open>The interface of an allocator\<close>

text \<open>\<open>n\<close> allocations in a row, stopping at the first that fails.\<close>

fun allocate_n :: "('s \<Rightarrow> 'x option \<times> 's) \<Rightarrow> nat \<Rightarrow> 's \<Rightarrow> 'x list \<times> 's" where
  "allocate_n alloc 0 s = ([], s)"
| "allocate_n alloc (Suc n) s =
     (case alloc s of
        (None, s') \<Rightarrow> ([], s')
      | (Some x, s') \<Rightarrow> (case allocate_n alloc n s' of (xs, s'') \<Rightarrow> (x # xs, s'')))"

locale allocator =
  fixes inv :: "'s \<Rightarrow> bool" and used :: "'s \<Rightarrow> 'x set"
    and alloc :: "'s \<Rightarrow> 'x option \<times> 's" and release :: "'x \<Rightarrow> 's \<Rightarrow> 's option"
  assumes alloc_Some: "inv s \<Longrightarrow> alloc s = (Some x, s') \<Longrightarrow> inv s' \<and> x \<notin> used s \<and> used s' = insert x (used s)"
    and alloc_None: "inv s \<Longrightarrow> alloc s = (None, s') \<Longrightarrow> inv s' \<and> used s' = used s"
    and release_used: "inv s \<Longrightarrow> x \<in> used s \<Longrightarrow> \<exists>s'. release x s = Some s' \<and> inv s' \<and> used s' = used s - {x}"
begin

lemma alloc_inv: "inv s \<Longrightarrow> inv (snd (alloc s))"
  using alloc_Some [of s _ "snd (alloc s)"] alloc_None [of s "snd (alloc s)"]
  by (cases "alloc s"; cases "fst (alloc s)") simp_all

lemma alloc_release:
  assumes "inv s" "alloc s = (Some x, s')"
  shows "\<exists>s''. release x s' = Some s'' \<and> inv s'' \<and> used s'' = used s"
  using alloc_Some [OF assms] release_used [of s' x] by auto

lemma alloc_twice_distinct:
  "inv s \<Longrightarrow> alloc s = (Some x, s') \<Longrightarrow> alloc s' = (Some y, s'') \<Longrightarrow> x \<noteq> y"
  using alloc_Some by blast

lemma allocate_n_distinct:
  "inv s \<Longrightarrow> allocate_n alloc n s = (xs, s') \<Longrightarrow>
   inv s' \<and> distinct xs \<and> set xs \<inter> used s = {} \<and> used s' = used s \<union> set xs \<and> length xs \<le> n"
proof (induction n arbitrary: s xs)
  case (Suc n)
  obtain r s1 where al: "alloc s = (r, s1)" by force
  show ?case
  proof (cases r)
    case None
    with Suc.prems al alloc_None [of s s1] show ?thesis by simp
  next
    case (Some x)
    obtain ys t where ys: "allocate_n alloc n s1 = (ys, t)" by force
    have eq: "xs = x # ys" "s' = t" using Suc.prems(2) al Some ys by simp_all
    have o: "inv s1 \<and> x \<notin> used s \<and> used s1 = insert x (used s)"
      using alloc_Some Suc.prems(1) al Some by blast
    from Suc.IH [of s1 ys] o ys eq show ?thesis by auto
  qed
qed simp

lemma alloc_keeps_used: "inv s \<Longrightarrow> used s \<subseteq> used (snd (alloc s))"
  using alloc_Some [of s _ "snd (alloc s)"] alloc_None [of s "snd (alloc s)"]
  by (cases "alloc s"; cases "fst (alloc s)") auto

end

section \<open>The free map as an allocator\<close>

text \<open>
  A free map that fits the 32-bit sector numbers (\<open>BITMAP_ERROR\<close> and \<open>-1\<close> are not
  sectors), with its file open.
\<close>

definition fm_inv :: "'d fs_ops \<Rightarrow> sector set \<Rightarrow> ('d, 'z) fs_scheme \<Rightarrow> bool" where
  "fm_inv ops F fs \<longleftrightarrow> bitmap_ok ops \<and> fm_file_ok ops F \<and> cache_ok (fs_dev ops) (fs_cache fs) \<and>
     length (free_map fs) < 2 ^ 32 \<and> free_map_file fs"

definition used_sectors :: "('d, 'z) fs_scheme \<Rightarrow> sector set" where
  "used_sectors fs = {s. unat s < length (free_map fs) \<and> free_map fs ! unat s}"

lemma unat_of_nat_sector: "n < 2 ^ 32 \<Longrightarrow> unat (of_nat n :: sector) = n"
  by (simp add: unat_of_nat take_bit_eq_mod)

lemma used_sectors_upd:
  assumes "i < length (free_map fs)" "length (free_map fs) < 2 ^ 32"
  shows "{s::sector. unat s < length (free_map fs) \<and> (free_map fs)[i := v] ! unat s} =
     (if v then insert (of_nat i) (used_sectors fs) else used_sectors fs - {of_nat i})"
proof -
  have i: "unat (of_nat i :: sector) = i" using assms by (simp add: unat_of_nat_sector)
  have e: "i = unat s \<longleftrightarrow> s = of_nat i" for s :: sector by (auto simp: word_unat_eq_iff i)
  show ?thesis using assms i by (auto simp: used_sectors_def nth_list_update e)
qed

lemma free_map_allocate_Some:
  assumes "fm_inv ops F fs" "free_map_allocate ops fs = (Some s, fs')"
  shows "fm_inv ops F fs' \<and> s \<notin> used_sectors fs \<and> used_sectors fs' = insert s (used_sectors fs) \<and>
    unat s < length (free_map fs) \<and> length (free_map fs') = length (free_map fs) \<and>
    (\<forall>t. t \<notin> F \<longrightarrow> t \<noteq> no_sector \<longrightarrow>
       cache_view (fs_dev ops) (fs_cache fs') t = cache_view (fs_dev ops) (fs_cache fs) t)"
proof -
  let ?b = "free_map fs"
  obtain i where i: "first_index (\<lambda>x. x = False) ?b = Some i"
    using assms by (auto simp: free_map_allocate_def fm_inv_def bitmap_ok_def split: option.splits)
  note fi = first_index_Some [OF i]
  obtain c where w: "bitmap_write ops (?b[i := True]) (fs_cache fs) = (True, c)"
    and s: "s = of_nat i" and fs': "fs' = fs\<lparr>free_map := ?b[i := True], fs_cache := c\<rparr>"
    using assms i by (auto simp: free_map_allocate_def fm_inv_def bitmap_ok_def split: prod.splits bool.splits)
  have len: "length ?b < 2 ^ 32" using assms(1) by (simp add: fm_inv_def)
  have si: "unat s = i" unfolding s using fi len by (intro unat_of_nat_sector) simp
  have "used_sectors fs' = insert s (used_sectors fs)"
    using used_sectors_upd [OF _ len, of i True] fi by (simp add: used_sectors_def fs' s)
  moreover have "s \<notin> used_sectors fs" using fi si by (simp add: used_sectors_def)
  moreover have "cache_ok (fs_dev ops) c"
    "\<forall>t. t \<notin> F \<longrightarrow> t \<noteq> no_sector \<longrightarrow> cache_view (fs_dev ops) c t = cache_view (fs_dev ops) (fs_cache fs) t"
    using assms(1) w unfolding fm_inv_def fm_file_ok_def by blast+
  ultimately show ?thesis using assms(1) fi si by (simp add: fm_inv_def fs')
qed

lemma free_map_allocate_None:
  assumes "fm_inv ops F fs" "free_map_allocate ops fs = (None, fs')"
  shows "fm_inv ops F fs' \<and> free_map fs' = free_map fs \<and>
    (\<forall>t. t \<notin> F \<longrightarrow> t \<noteq> no_sector \<longrightarrow>
       cache_view (fs_dev ops) (fs_cache fs') t = cache_view (fs_dev ops) (fs_cache fs) t)"
proof (cases "first_index (\<lambda>x. x = False) (free_map fs)")
  case None
  then show ?thesis
    using assms by (auto simp: free_map_allocate_def fm_inv_def bitmap_ok_def)
next
  case (Some i)
  note fi = first_index_Some [OF Some]
  let ?b = "(free_map fs)[i := True]"
  obtain c where w: "bitmap_write ops ?b (fs_cache fs) = (False, c)"
    and fs': "fs' = fs\<lparr>free_map := bitmap_set_multiple ops ?b i 1 False, fs_cache := c\<rparr>"
    using assms Some by (auto simp: free_map_allocate_def fm_inv_def bitmap_ok_def split: prod.splits bool.splits)
  have "bitmap_set_multiple ops ?b i 1 False = ?b[i := False]"
    using assms(1) fi by (simp add: fm_inv_def bitmap_ok_def)
  then have "free_map fs' = free_map fs" using fi by (simp add: fs' list_update_same_conv)
  moreover have "cache_ok (fs_dev ops) c"
    "\<forall>t. t \<notin> F \<longrightarrow> t \<noteq> no_sector \<longrightarrow> cache_view (fs_dev ops) c t = cache_view (fs_dev ops) (fs_cache fs) t"
    using assms(1) w unfolding fm_inv_def fm_file_ok_def by blast+
  ultimately show ?thesis using assms(1) by (simp add: fm_inv_def fs')
qed

lemma free_map_release_used:
  assumes "fm_inv ops F fs" "s \<in> used_sectors fs"
  shows "\<exists>fs'. free_map_release ops s fs = Some fs' \<and> fm_inv ops F fs' \<and>
    used_sectors fs' = used_sectors fs - {s} \<and> length (free_map fs') = length (free_map fs) \<and>
    (\<forall>t. t \<notin> F \<longrightarrow> t \<noteq> no_sector \<longrightarrow>
       cache_view (fs_dev ops) (fs_cache fs') t = cache_view (fs_dev ops) (fs_cache fs) t)"
proof -
  let ?b = "(free_map fs)[unat s := False]"
  have s: "unat s < length (free_map fs)" "free_map fs ! unat s" using assms(2) by (auto simp: used_sectors_def)
  obtain ok c where w: "bitmap_write ops ?b (fs_cache fs) = (ok, c)" by force
  have len: "length (free_map fs) < 2 ^ 32" using assms(1) by (simp add: fm_inv_def)
  have "free_map_release ops s fs = Some (fs\<lparr>free_map := ?b, fs_cache := c\<rparr>)"
    using assms(1) s w by (simp add: free_map_release_def fm_inv_def bitmap_ok_def)
  moreover have "used_sectors (fs\<lparr>free_map := ?b, fs_cache := c\<rparr>) = used_sectors fs - {s}"
    using used_sectors_upd [OF s(1) len, of False] s by (simp add: used_sectors_def)
  moreover have "cache_ok (fs_dev ops) c"
    "\<forall>t. t \<notin> F \<longrightarrow> t \<noteq> no_sector \<longrightarrow> cache_view (fs_dev ops) c t = cache_view (fs_dev ops) (fs_cache fs) t"
    using assms(1) w unfolding fm_inv_def fm_file_ok_def by blast+
  ultimately show ?thesis using assms(1) by (simp add: fm_inv_def)
qed

interpretation fm: allocator "fm_inv ops F" used_sectors "free_map_allocate ops" "free_map_release ops"
  for ops :: "'d fs_ops" and F :: "sector set"
proof (unfold_locales, goal_cases)
  case (1 s x s') then show ?case using free_map_allocate_Some by blast
next
  case (2 s s')
  from free_map_allocate_None [OF 2] show ?case by (simp add: used_sectors_def)
next
  case (3 s x) then show ?case using free_map_release_used by blast
qed

text \<open>A free sector is found whenever there is one and the bitmap can be written.\<close>

lemma free_map_allocate_succeeds:
  assumes "fm_inv ops F fs" "i < length (free_map fs)" "\<not> free_map fs ! i"
    and wr: "\<And>b c. fst (bitmap_write ops b c)"
  shows "\<exists>s fs'. free_map_allocate ops fs = (Some s, fs')"
proof -
  have "False \<in> set (free_map fs)" using assms(2,3) by (metis nth_mem)
  then obtain j where j: "first_index (\<lambda>x. x = False) (free_map fs) = Some j"
    by (cases "first_index (\<lambda>x. x = False) (free_map fs)") (auto simp: first_index_None)
  obtain c where "bitmap_write ops ((free_map fs)[j := True]) (fs_cache fs) = (True, c)"
    using wr [of "(free_map fs)[j := True]" "fs_cache fs"]
    by (cases "bitmap_write ops ((free_map fs)[j := True]) (fs_cache fs)") auto
  with j assms(1) show ?thesis by (simp add: free_map_allocate_def fm_inv_def bitmap_ok_def)
qed

text \<open>The sector handed out is the first that is free.\<close>

lemma free_map_allocate_first:
  assumes "fm_inv ops F fs" "free_map_allocate ops fs = (Some s, fs')" "j < unat s"
  shows "free_map fs ! j"
proof -
  obtain i where i: "first_index (\<lambda>x. x = False) (free_map fs) = Some i"
    using assms(1,2) by (auto simp: free_map_allocate_def fm_inv_def bitmap_ok_def split: option.splits)
  note fi = first_index_Some [OF i]
  have "s = of_nat i"
    using assms(1,2) i by (auto simp: free_map_allocate_def fm_inv_def bitmap_ok_def split: prod.splits bool.splits if_splits)
  moreover have "i < 2 ^ 32" using assms(1) fi by (simp add: fm_inv_def)
  ultimately have "unat s = i" by (simp add: unat_of_nat_sector)
  then show ?thesis using fi assms(3) by auto
qed

end
