(* ===== verification/Inode.thy ===== *)
theory Inode
  imports Free_Map
begin

text \<open>
  The inodes of \<open>file-system/filesys/inode.c\<close>: the on-disk inode and its encoding in a
  sector, the index from file positions to sectors, growth by one sector at a time, and the
  open inodes with their reference counts.

  Inode pointers are natural numbers; the heap of inodes is the map \<open>inodes\<close>, and
  \<open>malloc\<close> (not part of the sources) is an argument of \<open>inode_open\<close>: the pointer it
  returns, or \<open>None\<close>. \<open>calloc\<close> is an argument of \<open>inode_create\<close> likewise. The
  cache operations run without interference: their callers hold the inode lock.
\<close>

section \<open>State\<close>

abbreviation INODE_MAGIC :: u32 where "INODE_MAGIC \<equiv> 0x494e4f44"
abbreviation NUM_DIRECT :: int where "NUM_DIRECT \<equiv> 188"
abbreviation NUM_INDIRECT :: nat where "NUM_INDIRECT \<equiv> 64"
abbreviation INDIRECT_LEN :: int where "INDIRECT_LEN \<equiv> 256"
abbreviation MAX_INODE_LEN :: int where "MAX_INODE_LEN \<equiv> 8 * 1024 * 1024"

record inode_disk =
  id_length :: int
  id_magic :: u32
  direct :: "u16 list"
  indirect :: "u16 list"

record inode =
  in_sector :: sector
  open_cnt :: int
  removed :: bool
  deny_write_cnt :: int
  in_lock :: bool
  in_data :: inode_disk

record 'd inode_fs = "'d fs" +
  open_inodes :: "nat list"
  inodes :: "nat \<rightharpoonup> inode"

text \<open>\<open>struct inode_disk\<close> as it lies in a sector.\<close>

definition encode_inode :: "inode_disk \<Rightarrow> byte list" where
  "encode_inode d = le32 (word_of_int (id_length d)) @ le32 (id_magic d) @
     concat (map le16 (direct d)) @ concat (map le16 (indirect d))"

definition u16_at :: "byte list \<Rightarrow> nat \<Rightarrow> u16" where
  "u16_at bs k = of_le16 (take 2 (drop k bs))"

definition decode_inode :: "byte list \<Rightarrow> inode_disk" where
  "decode_inode bs =
     \<lparr>id_length = sint (of_le32 (take 4 bs)), id_magic = of_le32 (take 4 (drop 4 bs)),
      direct = map (\<lambda>i. u16_at bs (8 + 2 * i)) [0..<188],
      indirect = map (\<lambda>i. u16_at bs (384 + 2 * i)) [0..<NUM_INDIRECT]\<rparr>"

section \<open>From positions to sectors\<close>

definition bytes_to_sectors :: "int \<Rightarrow> int" where
  "bytes_to_sectors sz = DIV_ROUND_UP sz BLOCK_SECTOR_SIZE"

definition byte_to_sector_disk :: "'d blockdev \<Rightarrow> inode_disk \<Rightarrow> int \<Rightarrow> 'd cache \<Rightarrow>
    (sector \<times> 'd cache) option" where
  "byte_to_sector_disk bd disk pos c = do {
     kassert (0 \<le> pos);
     if id_length disk \<le> pos then Some (no_sector, c)
     else do {
       let idx = pos sdiv BLOCK_SECTOR_SIZE;
       if idx < NUM_DIRECT then do {
         s \<leftarrow> c_nth (direct disk) idx;
         Some (ucast s, c)
       } else do {
         let ind_idx = (idx - NUM_DIRECT) sdiv INDIRECT_LEN;
         let ind_ofs = (idx - NUM_DIRECT) smod INDIRECT_LEN;
         ind \<leftarrow> c_nth (indirect disk) ind_idx;
         (b, c') \<leftarrow> cache_read bd (ucast ind) 2 ind_ofs [] c;
         Some (ucast (of_le16 b), c')
       }
     }
   }"

definition byte_to_sector :: "'d blockdev \<Rightarrow> inode \<Rightarrow> int \<Rightarrow> 'd cache \<Rightarrow> (sector \<times> 'd cache) option" where
  "byte_to_sector bd ino pos c = do {
     kassert (in_lock ino);
     byte_to_sector_disk bd (in_data ino) pos c
   }"

section \<open>Growth\<close>

definition allocate_short :: "'d fs_ops \<Rightarrow> ('d, 'z) fs_scheme \<Rightarrow> (u16 option \<times> ('d, 'z) fs_scheme) option" where
  "allocate_short ops fs =
     (case free_map_allocate ops fs of
        (None, fs1) \<Rightarrow> Some (None, fs1)
      | (Some sector, fs1) \<Rightarrow>
          if 65535 < sector then do {
            fs2 \<leftarrow> free_map_release ops sector fs1;
            Some (None, fs2)
          } else do {
            c \<leftarrow> cache_zero (fs_dev ops) sector [] (fs_cache fs1);
            Some (Some (ucast sector), fs1\<lparr>fs_cache := c\<rparr>)
          })"

text \<open>The second half of \<open>append_sector\<close>: a sector reached through an indirect block.\<close>

definition append_indirect :: "'d fs_ops \<Rightarrow> int \<Rightarrow> int \<Rightarrow> inode_disk \<Rightarrow> ('d, 'z) fs_scheme \<Rightarrow>
    (bool \<times> inode_disk \<times> ('d, 'z) fs_scheme) option" where
  "append_indirect ops idx new_length disk fs = do {
     let old_idx = (id_length disk - 1) sdiv BLOCK_SECTOR_SIZE;
     let old_ind_idx = (old_idx - NUM_DIRECT) sdiv INDIRECT_LEN;
     let ind_idx = (idx - NUM_DIRECT) sdiv INDIRECT_LEN;
     (ok, disk1, fs1) \<leftarrow>
       (if old_ind_idx < ind_idx then do {
          (r, fs1) \<leftarrow> allocate_short ops fs;
          (case r of
             None \<Rightarrow> Some (False, disk, fs1)
           | Some v \<Rightarrow> do {
               ins \<leftarrow> c_update (indirect disk) ind_idx v;
               Some (True, disk\<lparr>indirect := ins\<rparr>, fs1)
             })
        } else Some (True, disk, fs));
     if \<not> ok then Some (False, disk1, fs1)
     else do {
       (r, fs2) \<leftarrow> allocate_short ops fs1;
       (case r of
          None \<Rightarrow>
            if old_ind_idx < ind_idx then do {
              ind \<leftarrow> c_nth (indirect disk1) ind_idx;
              fs3 \<leftarrow> free_map_release ops (ucast ind) fs2;
              Some (False, disk1, fs3)
            } else Some (False, disk1, fs2)
        | Some dir_idx \<Rightarrow> do {
            let ind_ofs = (idx - NUM_DIRECT) smod INDIRECT_LEN;
            ind \<leftarrow> c_nth (indirect disk1) ind_idx;
            c \<leftarrow> cache_write (fs_dev ops) (ucast ind) (le16 dir_idx) 2 ind_ofs [] (fs_cache fs2);
            Some (True, disk1\<lparr>id_length := new_length\<rparr>, fs2\<lparr>fs_cache := c\<rparr>)
          })
     }
   }"

definition append_sector :: "'d fs_ops \<Rightarrow> inode_disk \<Rightarrow> ('d, 'z) fs_scheme \<Rightarrow>
    (bool \<times> inode_disk \<times> ('d, 'z) fs_scheme) option" where
  "append_sector ops disk fs = do {
     let new_length = ROUND_UP (id_length disk) BLOCK_SECTOR_SIZE + BLOCK_SECTOR_SIZE;
     if MAX_INODE_LEN < new_length then Some (False, disk, fs)
     else do {
       let idx = (new_length - 1) sdiv BLOCK_SECTOR_SIZE;
       if idx < NUM_DIRECT then do {
         (r, fs1) \<leftarrow> allocate_short ops fs;
         (case r of
            None \<Rightarrow> Some (False, disk, fs1)
          | Some v \<Rightarrow> do {
              ds \<leftarrow> c_update (direct disk) idx v;
              Some (True, disk\<lparr>direct := ds, id_length := new_length\<rparr>, fs1)
            })
       } else append_indirect ops idx new_length disk fs
     }
   }"

lemma append_sector_length:
  "append_sector ops disk fs = Some (True, disk', fs') \<Longrightarrow>
   id_length disk' = ROUND_UP (id_length disk) 512 + 512"
  by (auto simp: append_sector_def append_indirect_def Let_def bind_eq_Some_conv split: if_splits option.splits)

lemma append_sector_grows:
  "append_sector ops disk fs = Some (True, disk', fs') \<Longrightarrow> id_length disk < id_length disk'"
  using append_sector_length ROUND_UP_greater by metis

text \<open>The loop of \<open>extend_disk\<close> ends: every sector appended makes the inode longer.\<close>

function extend_loop :: "'d fs_ops \<Rightarrow> int \<Rightarrow> inode_disk \<Rightarrow> ('d, 'z) fs_scheme \<Rightarrow>
    (inode_disk \<times> ('d, 'z) fs_scheme) option" where
  "extend_loop ops len disk fs =
     (if id_length disk < len then
        (case append_sector ops disk fs of
           None \<Rightarrow> None
         | Some (True, disk', fs') \<Rightarrow> extend_loop ops len disk' fs'
         | Some (False, disk', fs') \<Rightarrow> Some (disk', fs'))
      else Some (disk, fs))"
  by pat_completeness auto
termination
  by (relation "measure (\<lambda>(ops, len, disk, fs). nat (len - id_length disk))")
     (auto dest!: append_sector_grows)

declare extend_loop.simps [simp del]

definition extend_disk :: "'d fs_ops \<Rightarrow> inode_disk \<Rightarrow> int \<Rightarrow> ('d, 'z) fs_scheme \<Rightarrow>
    (int \<times> inode_disk \<times> ('d, 'z) fs_scheme) option" where
  "extend_disk ops disk len fs =
     (if len \<le> id_length disk then Some (id_length disk, disk, fs)
      else do {
        (disk1, fs1) \<leftarrow> extend_loop ops len (disk\<lparr>id_length := ROUND_UP (id_length disk) BLOCK_SECTOR_SIZE\<rparr>) fs;
        let disk2 = (if len < id_length disk1 then disk1\<lparr>id_length := len\<rparr> else disk1);
        Some (id_length disk2, disk2, fs1)
      })"

text \<open>
  The loops that give the data sectors of an inode back to the free map, from position
  \<open>ofs\<close> on; \<open>look\<close> is \<open>byte_to_sector\<close> or \<open>byte_to_sector_disk\<close> of the inode.
\<close>

function release_sectors :: "'d fs_ops \<Rightarrow> (int \<Rightarrow> 'd cache \<Rightarrow> (sector \<times> 'd cache) option) \<Rightarrow> int \<Rightarrow> int \<Rightarrow>
    ('d, 'z) fs_scheme \<Rightarrow> ('d, 'z) fs_scheme option" where
  "release_sectors ops look len ofs fs =
     (if ofs < len then do {
        (s, c) \<leftarrow> look ofs (fs_cache fs);
        fs1 \<leftarrow> free_map_release ops s (fs\<lparr>fs_cache := c\<rparr>);
        release_sectors ops look len (ofs + BLOCK_SECTOR_SIZE) fs1
      } else Some fs)"
  by pat_completeness auto
termination
  by (relation "measure (\<lambda>(ops, look, len, ofs, fs). nat (len - ofs))") auto

declare release_sectors.simps [simp del]

definition inode_create :: "'d fs_ops \<Rightarrow> sector \<Rightarrow> int \<Rightarrow> bool \<Rightarrow> ('d, 'z) fs_scheme \<Rightarrow>
    (bool \<times> ('d, 'z) fs_scheme) option" where
  "inode_create ops sector len calloc_ok fs =
     (if \<not> calloc_ok then Some (False, fs)
      else do {
        let disk = \<lparr>id_length = 0, id_magic = INODE_MAGIC, direct = replicate 188 0,
                    indirect = replicate NUM_INDIRECT 0\<rparr>;
        (n, disk1, fs1) \<leftarrow> extend_disk ops disk len fs;
        if n < len then do {
          fs2 \<leftarrow> release_sectors ops (byte_to_sector_disk (fs_dev ops) disk1) (id_length disk1) 0 fs1;
          Some (False, fs2)
        } else do {
          c \<leftarrow> cache_write (fs_dev ops) sector (encode_inode disk1) BLOCK_SECTOR_SIZE 0 [] (fs_cache fs1);
          Some (True, fs1\<lparr>fs_cache := c\<rparr>)
        }
      })"

section \<open>Open inodes\<close>

definition inode_init :: "'d inode_fs \<Rightarrow> 'd inode_fs" where
  "inode_init fs = fs\<lparr>open_inodes := []\<rparr>"

definition set_inode :: "nat \<Rightarrow> inode \<Rightarrow> 'd inode_fs \<Rightarrow> 'd inode_fs" where
  "set_inode p ino fs = fs\<lparr>inodes := (inodes fs)(p \<mapsto> ino)\<rparr>"

text \<open>The inode lock is not recursive: to acquire it again is to wait for ever.\<close>

definition acquire_inode :: "nat \<Rightarrow> 'd inode_fs \<Rightarrow> (inode \<times> 'd inode_fs) option" where
  "acquire_inode p fs = do {
     ino \<leftarrow> inodes fs p;
     kassert (\<not> in_lock ino);
     let ino' = ino\<lparr>in_lock := True\<rparr>;
     Some (ino', set_inode p ino' fs)
   }"

definition release_inode :: "nat \<Rightarrow> inode \<Rightarrow> 'd inode_fs \<Rightarrow> 'd inode_fs" where
  "release_inode p ino fs = set_inode p (ino\<lparr>in_lock := False\<rparr>) fs"

fun find_open :: "(nat \<rightharpoonup> inode) \<Rightarrow> sector \<Rightarrow> nat list \<Rightarrow> nat option option" where
  "find_open m s [] = Some None"
| "find_open m s (p # ps) = do {
     ino \<leftarrow> m p;
     if in_sector ino = s then Some (Some p) else find_open m s ps
   }"

definition inode_reopen :: "nat option \<Rightarrow> 'd inode_fs \<Rightarrow> (nat option \<times> 'd inode_fs) option" where
  "inode_reopen p fs =
     (case p of
        None \<Rightarrow> Some (None, fs)
      | Some q \<Rightarrow> do {
          (ino, fs1) \<leftarrow> acquire_inode q fs;
          Some (p, release_inode q (ino\<lparr>open_cnt := open_cnt ino + 1\<rparr>) fs1)
        })"

definition inode_open :: "'d fs_ops \<Rightarrow> sector \<Rightarrow> nat option \<Rightarrow> 'd inode_fs \<Rightarrow>
    (nat option \<times> 'd inode_fs) option" where
  "inode_open ops sector malloc fs = do {
     r \<leftarrow> find_open (inodes fs) sector (open_inodes fs);
     (case r of
        Some p \<Rightarrow> do {
          (q, fs1) \<leftarrow> inode_reopen (Some p) fs;
          Some (Some p, fs1)
        }
      | None \<Rightarrow>
          (case malloc of
             None \<Rightarrow> Some (None, fs)
           | Some p \<Rightarrow> do {
               (b, c) \<leftarrow> cache_read (fs_dev ops) sector BLOCK_SECTOR_SIZE 0 [] (fs_cache fs);
               let ino = \<lparr>in_sector = sector, open_cnt = 1, removed = False, deny_write_cnt = 0,
                          in_lock = False, in_data = decode_inode b\<rparr>;
               Some (Some p, set_inode p ino (fs\<lparr>fs_cache := c, open_inodes := p # open_inodes fs\<rparr>))
             }))
   }"

definition inode_get_inumber :: "nat \<Rightarrow> 'd inode_fs \<Rightarrow> sector option" where
  "inode_get_inumber p fs = map_option in_sector (inodes fs p)"

definition inode_close :: "'d fs_ops \<Rightarrow> nat option \<Rightarrow> 'd inode_fs \<Rightarrow> 'd inode_fs option" where
  "inode_close ops p fs =
     (case p of
        None \<Rightarrow> Some fs
      | Some q \<Rightarrow> do {
          (ino0, fs1) \<leftarrow> acquire_inode q fs;
          let ino = ino0\<lparr>open_cnt := open_cnt ino0 - 1\<rparr>;
          if open_cnt ino = 0 then do {
            let fs2 = (set_inode q ino fs1)\<lparr>open_inodes := remove1 q (open_inodes fs1)\<rparr>;
            fs3 \<leftarrow>
              (if removed ino then do {
                 f \<leftarrow> free_map_release ops (in_sector ino) fs2;
                 release_sectors ops (byte_to_sector (fs_dev ops) ino) (id_length (in_data ino)) 0 f
               } else Some fs2);
            Some (fs3\<lparr>inodes := (inodes fs3)(q := None)\<rparr>)
          } else Some (release_inode q ino fs1)
        })"

definition inode_remove :: "nat \<Rightarrow> 'd inode_fs \<Rightarrow> 'd inode_fs option" where
  "inode_remove p fs = do {
     (ino, fs1) \<leftarrow> acquire_inode p fs;
     Some (release_inode p (ino\<lparr>removed := True\<rparr>) fs1)
   }"

section \<open>Reading and writing\<close>

definition chunk_size :: "int \<Rightarrow> int \<Rightarrow> int \<Rightarrow> int" where
  "chunk_size len sz ofs =
     (let sector_ofs = ofs smod BLOCK_SECTOR_SIZE;
          inode_left = len - ofs;
          sector_left = BLOCK_SECTOR_SIZE - sector_ofs;
          min_left = (if inode_left < sector_left then inode_left else sector_left)
      in if sz < min_left then sz else min_left)"

function read_loop :: "'d blockdev \<Rightarrow> inode \<Rightarrow> int \<Rightarrow> int \<Rightarrow> byte list \<Rightarrow> 'd cache \<Rightarrow>
    (byte list \<times> 'd cache) option" where
  "read_loop bd ino sz ofs buffer c =
     (if 0 < sz \<and> ofs < id_length (in_data ino) then do {
        (sector_idx, c1) \<leftarrow> byte_to_sector bd ino ofs c;
        kassert (sector_idx \<noteq> no_sector);
        let sector_ofs = ofs smod BLOCK_SECTOR_SIZE;
        let n = chunk_size (id_length (in_data ino)) sz ofs;
        if n \<le> 0 then Some (buffer, c1)
        else do {
          (b, c2) \<leftarrow> cache_read bd sector_idx n sector_ofs [] c1;
          read_loop bd ino (sz - n) (ofs + n) (buffer @ b) c2
        }
      } else Some (buffer, c))"
  by pat_completeness auto
termination
  by (relation "measure (\<lambda>(bd, ino, sz, ofs, buffer, c). nat sz)") auto

text \<open>The bytes of \<open>buffer\<close> that are read, whose number is the result of the C function.\<close>

definition inode_read_at :: "'d fs_ops \<Rightarrow> nat \<Rightarrow> int \<Rightarrow> int \<Rightarrow> 'd inode_fs \<Rightarrow>
    (byte list \<times> 'd inode_fs) option" where
  "inode_read_at ops p sz ofs fs = do {
     (ino, fs1) \<leftarrow> acquire_inode p fs;
     (buffer, c) \<leftarrow> read_loop (fs_dev ops) ino sz ofs [] (fs_cache fs1);
     Some (buffer, release_inode p ino (fs1\<lparr>fs_cache := c\<rparr>))
   }"

function write_loop :: "'d blockdev \<Rightarrow> inode \<Rightarrow> byte list \<Rightarrow> int \<Rightarrow> int \<Rightarrow> int \<Rightarrow> 'd cache \<Rightarrow>
    (int \<times> 'd cache) option" where
  "write_loop bd ino buffer sz ofs written c =
     (if 0 < sz \<and> ofs < id_length (in_data ino) then do {
        (sector_idx, c1) \<leftarrow> byte_to_sector bd ino ofs c;
        kassert (sector_idx \<noteq> no_sector);
        let sector_ofs = ofs smod BLOCK_SECTOR_SIZE;
        let n = chunk_size (id_length (in_data ino)) sz ofs;
        if n \<le> 0 then Some (written, c1)
        else do {
          c2 \<leftarrow> cache_write bd sector_idx (drop (nat written) buffer) n sector_ofs [] c1;
          write_loop bd ino buffer (sz - n) (ofs + n) (written + n) c2
        }
      } else Some (written, c))"
  by pat_completeness auto
termination
  by (relation "measure (\<lambda>(bd, ino, buffer, sz, ofs, written, c). nat sz)") auto

declare read_loop.simps [simp del] write_loop.simps [simp del]

definition extend :: "'d fs_ops \<Rightarrow> inode \<Rightarrow> int \<Rightarrow> ('d, 'z) fs_scheme \<Rightarrow>
    (int \<times> inode \<times> ('d, 'z) fs_scheme) option" where
  "extend ops ino pos fs = do {
     kassert (in_lock ino);
     (n, disk, fs1) \<leftarrow> extend_disk ops (in_data ino) pos fs;
     Some (n, ino\<lparr>in_data := disk\<rparr>, fs1)
   }"

definition inode_write_at :: "'d fs_ops \<Rightarrow> nat \<Rightarrow> byte list \<Rightarrow> int \<Rightarrow> int \<Rightarrow> 'd inode_fs \<Rightarrow>
    (int \<times> 'd inode_fs) option" where
  "inode_write_at ops p buffer sz ofs fs = do {
     (ino, fs1) \<leftarrow> acquire_inode p fs;
     if deny_write_cnt ino \<noteq> 0 then Some (0, release_inode p ino fs1)
     else do {
       pos \<leftarrow> c_int (ofs + sz);
       (n, ino1, fs2) \<leftarrow> extend ops ino pos fs1;
       (written, c) \<leftarrow> write_loop (fs_dev ops) ino1 buffer sz ofs 0 (fs_cache fs2);
       Some (written, release_inode p ino1 (fs2\<lparr>fs_cache := c\<rparr>))
     }
   }"

definition inode_deny_write :: "nat \<Rightarrow> 'd inode_fs \<Rightarrow> 'd inode_fs option" where
  "inode_deny_write p fs = do {
     (ino0, fs1) \<leftarrow> acquire_inode p fs;
     let ino = ino0\<lparr>deny_write_cnt := deny_write_cnt ino0 + 1\<rparr>;
     kassert (deny_write_cnt ino \<le> open_cnt ino);
     Some (release_inode p ino fs1)
   }"

definition inode_allow_write :: "nat \<Rightarrow> 'd inode_fs \<Rightarrow> 'd inode_fs option" where
  "inode_allow_write p fs = do {
     (ino, fs1) \<leftarrow> acquire_inode p fs;
     kassert (0 < deny_write_cnt ino);
     kassert (deny_write_cnt ino \<le> open_cnt ino);
     Some (release_inode p (ino\<lparr>deny_write_cnt := deny_write_cnt ino - 1\<rparr>) fs1)
   }"

definition inode_length :: "nat \<Rightarrow> 'd inode_fs \<Rightarrow> (int \<times> 'd inode_fs) option" where
  "inode_length p fs = do {
     (ino, fs1) \<leftarrow> acquire_inode p fs;
     Some (id_length (in_data ino), release_inode p ino fs1)
   }"

end
