(* ===== verification/Inode_Files.thy ===== *)
theory Inode_Files
  imports Inode
begin

text \<open>
  An inode as a file: the bytes its data sectors hold through the cache, what reading and
  writing do to them, and growth. The statements are about inodes whose data is reached
  through the direct indices, that is up to \<open>188 * 512\<close> bytes; \<open>Inode_Properties\<close> shows what
  the code does beyond.
\<close>

section \<open>The bytes of a file\<close>

abbreviation DIRECT_BYTES :: nat where "DIRECT_BYTES \<equiv> 96256"

definition data_sector :: "inode_disk \<Rightarrow> nat \<Rightarrow> sector" where
  "data_sector d i = ucast (direct d ! i)"

definition file_len :: "inode_disk \<Rightarrow> nat" where
  "file_len d = nat (id_length d)"

definition num_sectors :: "inode_disk \<Rightarrow> nat" where
  "num_sectors d = (file_len d + 511) div 512"

definition file_byte :: "'d blockdev \<Rightarrow> 'd cache \<Rightarrow> inode_disk \<Rightarrow> nat \<Rightarrow> byte" where
  "file_byte bd c d k = cache_view bd c (data_sector d (k div 512)) ! (k mod 512)"

definition file_bytes :: "'d blockdev \<Rightarrow> 'd cache \<Rightarrow> inode_disk \<Rightarrow> byte list" where
  "file_bytes bd c d = map (file_byte bd c d) [0..<file_len d]"

definition direct_inode :: "inode_disk \<Rightarrow> bool" where
  "direct_inode d \<longleftrightarrow> 0 \<le> id_length d \<and> file_len d \<le> DIRECT_BYTES \<and> length (direct d) = 188"

lemma length_file_bytes [simp]: "length (file_bytes bd c d) = file_len d"
  by (simp add: file_bytes_def)

lemma data_sector_valid [simp]: "data_sector d i \<noteq> no_sector"
proof
  assume "data_sector d i = no_sector"
  then have "uint (ucast (direct d ! i) :: sector) = uint (- 1 :: sector)" by (simp add: data_sector_def)
  moreover have lt: "uint (direct d ! i) < 65536" using uint_lt2p [of "direct d ! i"] by simp
  moreover have "uint (ucast (direct d ! i) :: sector) = uint (direct d ! i)"
    using lt by (simp add: unsigned_ucast_eq take_bit_int_eq_self)
  moreover have "uint (- 1 :: sector) = 4294967295"
    by (simp add: unsigned_minus_1_eq_mask mask_eq_exp_minus_1)
  ultimately show False by linarith
qed

lemma direct_inode_length: "direct_inode d \<Longrightarrow> id_length d = int (file_len d)"
  by (simp add: direct_inode_def file_len_def)

lemma sector_index: "k < file_len d \<Longrightarrow> k div 512 < num_sectors d"
  by (simp add: num_sectors_def)

lemma direct_inode_sectors: "direct_inode d \<Longrightarrow> num_sectors d \<le> 188"
  unfolding direct_inode_def num_sectors_def by arith

text \<open>Finding the sector of a byte within the direct indices needs no access to the disk.\<close>

lemma byte_to_sector_disk_direct:
  assumes "direct_inode d" "k < file_len d"
  shows "byte_to_sector_disk bd d (int k) c = Some (data_sector d (k div 512), c)"
proof -
  have "k div 512 < 188" using sector_index [OF assms(2)] direct_inode_sectors [OF assms(1)] by simp
  moreover have "int k sdiv 512 = int (k div 512)" by (simp add: c_arith zdiv_int)
  ultimately show ?thesis
    using assms direct_inode_length [OF assms(1)]
    by (simp add: byte_to_sector_disk_def data_sector_def direct_inode_def)
qed

lemma chunk_size_nat:
  "k < len \<Longrightarrow> chunk_size (int len) (int z) (int k) = int (min z (min (len - k) (512 - k mod 512)))"
proof -
  have "int k smod 512 = int (k mod 512)" by (simp add: c_arith zmod_int)
  moreover have "k mod 512 < 512" by simp
  ultimately show "k < len \<Longrightarrow> chunk_size (int len) (int z) (int k) = int (min z (min (len - k) (512 - k mod 512)))"
    by (auto simp: chunk_size_def Let_def min_def)
qed

text \<open>Positions within one sector.\<close>

lemma within_sector:
  assumes "k mod 512 + n \<le> 512" "k \<le> j" "j < k + (n::nat)"
  shows "j div 512 = k div 512" "j mod 512 = k mod 512 + (j - k)"
proof -
  define i where "i = j - k"
  have j: "j = k + i" "k mod 512 + i < 512" using assms by (simp_all add: i_def)
  have m: "(k + i) mod 512 = k mod 512 + i" using j(2) by (metis mod_add_left_eq mod_less)
  have "(k + i) div 512 * 512 + (k + i) mod 512 = k + i" "k div 512 * 512 + k mod 512 = k"
    by (rule div_mult_mod_eq)+
  with m have "(k + i) div 512 = k div 512" by linarith
  with m show "j div 512 = k div 512" "j mod 512 = k mod 512 + (j - k)" by (simp_all add: j(1))
qed

lemma file_byte_cong:
  assumes "\<And>s. s \<noteq> no_sector \<Longrightarrow> cache_view bd c' s = cache_view bd c s"
  shows "file_byte bd c' d = file_byte bd c d"
  using assms by (simp add: file_byte_def fun_eq_iff)

lemma read_chunk:
  assumes "k mod 512 + n \<le> 512" "length v = 512"
  shows "take n (drop (k mod 512) v) = map (\<lambda>j. v ! (j mod 512)) [k..<k + n]"
proof (rule nth_equalityI)
  show "length (take n (drop (k mod 512) v)) = length (map (\<lambda>j. v ! (j mod 512)) [k..<k + n])"
    using assms by simp
  fix i assume "i < length (take n (drop (k mod 512) v))"
  then have "i < n" by simp
  then show "take n (drop (k mod 512) v) ! i = map (\<lambda>j. v ! (j mod 512)) [k..<k + n] ! i"
    using within_sector(2) [OF assms(1), of "k + i"] assms by simp
qed

section \<open>Reading\<close>

lemma read_loop_direct:
  assumes d: "direct_inode (in_data ino)" "in_lock ino" and "cache_ok bd c"
  shows "\<exists>c'. read_loop bd ino (int z) (int k) buffer c =
      Some (buffer @ map (file_byte bd c (in_data ino)) [k..<min (k + z) (file_len (in_data ino))], c') \<and>
    cache_ok bd c' \<and> (\<forall>t. t \<noteq> no_sector \<longrightarrow> cache_view bd c' t = cache_view bd c t)"
  using assms(3)
proof (induction z arbitrary: k buffer c rule: less_induct)
  case (less z)
  let ?d = "in_data ino"
  let ?L = "file_len ?d"
  note len = direct_inode_length [OF d(1)]
  show ?case
  proof (cases "0 < z \<and> k < ?L")
    case False
    then show ?thesis using less.prems len by (auto simp: read_loop.simps)
  next
    case True
    define n where "n = min z (min (?L - k) (512 - k mod 512))"
    have m: "k mod 512 < 512" by simp
    have n: "0 < n" "n \<le> z" "k + n \<le> ?L" "k mod 512 + n \<le> 512"
      using True m unfolding n_def by (auto simp: min_def)
    have ch: "chunk_size (int ?L) (int z) (int k) = int n"
      unfolding n_def using True by (simp add: chunk_size_nat)
    let ?s = "data_sector ?d (k div 512)"
    have sm: "int k smod 512 = int (k mod 512)" by (simp add: c_arith zmod_int)
    have bts: "byte_to_sector bd ino (int k) c = Some (?s, c)"
      using byte_to_sector_disk_direct [OF d(1), of k bd c] True d(2) by (simp add: byte_to_sector_def)
    obtain c2 where rd: "cache_read bd ?s (int n) (int (k mod 512)) [] c =
        Some (take n (drop (k mod 512) (cache_view bd c ?s)), c2)"
      and c2: "cache_ok bd c2" "\<And>t. t \<noteq> no_sector \<Longrightarrow> cache_view bd c2 t = cache_view bd c t"
      using cache_store.rd_spec [OF less.prems, of ?s "int n" "int (k mod 512)"] n(4) by auto
    have bytes: "take n (drop (k mod 512) (cache_view bd c ?s)) = map (file_byte bd c ?d) [k..<k + n]"
      unfolding read_chunk [OF n(4) cache_store.view_length [OF less.prems data_sector_valid]]
    proof (rule map_cong)
      fix j assume "j \<in> set [k..<k + n]"
      then have "j div 512 = k div 512" using within_sector(1) [OF n(4), of j] by simp
      then show "cache_view bd c ?s ! (j mod 512) = file_byte bd c ?d j" by (simp add: file_byte_def)
    qed simp
    have "read_loop bd ino (int z) (int k) buffer c =
        read_loop bd ino (int (z - n)) (int (k + n)) (buffer @ map (file_byte bd c ?d) [k..<k + n]) c2"
    proof -
      have g: "0 < int z \<and> int k < id_length ?d" using True len by simp
      have "int (z - n) = int z - int n" "\<not> int n \<le> 0" using n(1,2) by simp_all
      then show ?thesis
        by (subst read_loop.simps) (simp add: g True bts rd bytes len ch sm Let_def)
    qed
    moreover have "min (k + n + (z - n)) ?L = min (k + z) ?L" using n by simp
    moreover have "[k..<min (k + z) ?L] = [k..<k + n] @ [k + n..<min (k + z) ?L]"
      using n(2,3) by (intro upt_split) simp_all
    ultimately show ?thesis
      using less.IH [of "z - n" c2 "k + n" "buffer @ map (file_byte bd c ?d) [k..<k + n]"] n(1,2) c2
        file_byte_cong [of bd c2 c ?d, OF c2(2)] by auto
  qed
qed


section \<open>Writing in place\<close>

definition data_sectors :: "inode_disk \<Rightarrow> sector set" where
  "data_sectors d = data_sector d ` {..<num_sectors d}"

definition distinct_sectors :: "inode_disk \<Rightarrow> bool" where
  "distinct_sectors d \<longleftrightarrow> inj_on (data_sector d) {..<num_sectors d}"

lemma same_sector_order:
  assumes "(j::nat) div 512 = k div 512"
  shows "k mod 512 \<le> j mod 512 \<longleftrightarrow> k \<le> j" "j mod 512 < k mod 512 + n \<longleftrightarrow> j < k + n"
    "j mod 512 - k mod 512 = j - k"
proof -
  have "j div 512 * 512 + j mod 512 = j" "k div 512 * 512 + k mod 512 = k" by (rule div_mult_mod_eq)+
  with assms show "k mod 512 \<le> j mod 512 \<longleftrightarrow> k \<le> j" "j mod 512 < k mod 512 + n \<longleftrightarrow> j < k + n"
    "j mod 512 - k mod 512 = j - k" by linarith+
qed

lemma write_chunk:
  assumes inj: "distinct_sectors d" and k: "k div 512 < num_sectors d" and n: "k mod 512 + n \<le> 512"
    and len: "length (cache_view bd c (data_sector d (k div 512))) = 512" and b: "length b = n"
    and view: "\<And>t. t \<noteq> no_sector \<Longrightarrow> cache_view bd c2 t =
      (if t = data_sector d (k div 512) then memcpy_at (k mod 512) b (cache_view bd c t) else cache_view bd c t)"
    and j: "j div 512 < num_sectors d"
  shows "file_byte bd c2 d j = (if k \<le> j \<and> j < k + n then b ! (j - k) else file_byte bd c d j)"
proof (cases "j div 512 = k div 512")
  case True
  have "j mod 512 < 512" by simp
  then have "memcpy_at (k mod 512) b (cache_view bd c (data_sector d (k div 512))) ! (j mod 512) =
     (if k mod 512 \<le> j mod 512 \<and> j mod 512 < k mod 512 + n then b ! (j mod 512 - k mod 512)
      else cache_view bd c (data_sector d (k div 512)) ! (j mod 512))"
    using n len b by (simp add: nth_memcpy_at)
  then show ?thesis
    using True view [OF data_sector_valid] same_sector_order [OF True] by (simp add: file_byte_def)
next
  case False
  then have "data_sector d (j div 512) \<noteq> data_sector d (k div 512)"
    using inj j k by (auto simp: distinct_sectors_def inj_on_def)
  moreover have "\<not> (k \<le> j \<and> j < k + n)" using within_sector(1) [OF n] False by blast
  ultimately show ?thesis using view [OF data_sector_valid] by (auto simp: file_byte_def)
qed

lemma write_loop_direct:
  assumes d: "direct_inode (in_data ino)" "in_lock ino" "distinct_sectors (in_data ino)"
    and "cache_ok bd c" "wr + z \<le> length buf"
  shows "\<exists>c'. write_loop bd ino buf (int z) (int k) (int wr) c =
      Some (int (wr + (min (k + z) (file_len (in_data ino)) - k)), c') \<and> cache_ok bd c' \<and>
    (\<forall>j. j div 512 < num_sectors (in_data ino) \<longrightarrow> file_byte bd c' (in_data ino) j =
       (if k \<le> j \<and> j < min (k + z) (file_len (in_data ino)) then buf ! (wr + (j - k))
        else file_byte bd c (in_data ino) j)) \<and>
    (\<forall>t. t \<noteq> no_sector \<longrightarrow> t \<notin> data_sectors (in_data ino) \<longrightarrow> cache_view bd c' t = cache_view bd c t)"
  using assms(4,5)
proof (induction z arbitrary: k wr c rule: less_induct)
  case (less z)
  let ?d = "in_data ino"
  let ?L = "file_len ?d"
  note len = direct_inode_length [OF d(1)]
  show ?case
  proof (cases "0 < z \<and> k < ?L")
    case False
    then show ?thesis using less.prems len by (auto simp: write_loop.simps)
  next
    case True
    define n where "n = min z (min (?L - k) (512 - k mod 512))"
    have m: "k mod 512 < 512" by simp
    have n: "0 < n" "n \<le> z" "k + n \<le> ?L" "k mod 512 + n \<le> 512"
      using True m unfolding n_def by (auto simp: min_def)
    have ch: "chunk_size (int ?L) (int z) (int k) = int n"
      unfolding n_def using True by (simp add: chunk_size_nat)
    let ?s = "data_sector ?d (k div 512)" and ?b = "take n (drop wr buf)"
    have sm: "int k smod 512 = int (k mod 512)" by (simp add: c_arith zmod_int)
    have bts: "byte_to_sector bd ino (int k) c = Some (?s, c)"
      using byte_to_sector_disk_direct [OF d(1), of k bd c] True d(2) by (simp add: byte_to_sector_def)
    obtain c2 where wt: "cache_write bd ?s (drop wr buf) (int n) (int (k mod 512)) [] c = Some c2"
      and c2: "cache_ok bd c2" "\<And>t. t \<noteq> no_sector \<Longrightarrow> cache_view bd c2 t =
        (if t = ?s then memcpy_at (k mod 512) ?b (cache_view bd c t) else cache_view bd c t)"
      using cache_store.wr_spec [OF less.prems(1), of ?s "int n" "int (k mod 512)" "drop wr buf"] n less.prems(2) by auto
    have step: "write_loop bd ino buf (int z) (int k) (int wr) c =
        write_loop bd ino buf (int (z - n)) (int (k + n)) (int (wr + n)) c2"
    proof -
      have g: "0 < int z \<and> int k < id_length ?d" using True len by simp
      have "int (z - n) = int z - int n" "\<not> int n \<le> 0" using n(1,2) by simp_all
      then show ?thesis
        by (subst write_loop.simps) (simp add: g True bts wt len ch sm Let_def)
    qed
    obtain c' where c': "write_loop bd ino buf (int (z - n)) (int (k + n)) (int (wr + n)) c2 =
        Some (int (wr + n + (min (k + n + (z - n)) ?L - (k + n))), c')" "cache_ok bd c'"
      "\<And>j. j div 512 < num_sectors ?d \<Longrightarrow> file_byte bd c' ?d j =
         (if k + n \<le> j \<and> j < min (k + n + (z - n)) ?L then buf ! (wr + n + (j - (k + n)))
          else file_byte bd c2 ?d j)"
      "\<And>t. t \<noteq> no_sector \<Longrightarrow> t \<notin> data_sectors ?d \<Longrightarrow> cache_view bd c' t = cache_view bd c2 t"
      using less.IH [of "z - n" c2 "wr + n" "k + n"] n(1,2) c2(1) less.prems(2) by auto
    have ks: "k div 512 < num_sectors ?d" using True by (intro sector_index) simp
    have mid: "file_byte bd c2 ?d j = (if k \<le> j \<and> j < k + n then ?b ! (j - k) else file_byte bd c ?d j)"
      if "j div 512 < num_sectors ?d" for j
      by (rule write_chunk [OF d(3) ks n(4) cache_store.view_length [OF less.prems(1) data_sector_valid] _ c2(2) that])
         (use n less.prems(2) in simp)
    have e: "k + n + (z - n) = k + z" "wr + n + (min (k + z) ?L - (k + n)) = wr + (min (k + z) ?L - k)"
      using n by auto
    have "file_byte bd c' ?d j = (if k \<le> j \<and> j < min (k + z) ?L then buf ! (wr + (j - k)) else file_byte bd c ?d j)"
      if "j div 512 < num_sectors ?d" for j
      using c'(3) [OF that] mid [OF that] n(2,3) less.prems(2) by (auto simp: e(1))
    moreover have "cache_view bd c' t = cache_view bd c t"
      if "t \<noteq> no_sector" "t \<notin> data_sectors ?d" for t
    proof -
      have "t \<noteq> ?s" using that(2) ks by (auto simp: data_sectors_def)
      then show ?thesis using c'(4) [OF that] c2(2) [OF that(1)] by simp
    qed
    ultimately show ?thesis using step c'(1,2) e by auto
  qed
qed

end
