(* ===== verification/Inode_Growth.thy ===== *)
theory Inode_Growth
  imports Inode_Files
begin

text \<open>
  Growth of an inode within the direct indices: a new sector comes from the free map, is
  cleared, and belongs to no other file; the bytes the file had stay, the new ones are zero.
\<close>

section \<open>Files and the free map\<close>

text \<open>\<open>F\<close> are the sectors of the free map's own file.\<close>

definition fs_inv :: "'d fs_ops \<Rightarrow> sector set \<Rightarrow> ('d, 'z) fs_scheme \<Rightarrow> bool" where
  "fs_inv ops F fs \<longleftrightarrow> fm_inv ops F fs \<and> F \<subseteq> used_sectors fs"

abbreviation fs_view :: "'d fs_ops \<Rightarrow> ('d, 'z) fs_scheme \<Rightarrow> sector \<Rightarrow> byte list" where
  "fs_view ops fs \<equiv> cache_view (fs_dev ops) (fs_cache fs)"

abbreviation fs_byte :: "'d fs_ops \<Rightarrow> ('d, 'z) fs_scheme \<Rightarrow> inode_disk \<Rightarrow> nat \<Rightarrow> byte" where
  "fs_byte ops fs \<equiv> file_byte (fs_dev ops) (fs_cache fs)"

text \<open>
  A proper file: its sectors are allocated, pairwise different and not those of the free
  map, and what follows its end in the last sector is zero.
\<close>

definition file_ok :: "'d fs_ops \<Rightarrow> sector set \<Rightarrow> ('d, 'z) fs_scheme \<Rightarrow> inode_disk \<Rightarrow> bool" where
  "file_ok ops F fs d \<longleftrightarrow>
     direct_inode d \<and> distinct_sectors d \<and> data_sectors d \<subseteq> used_sectors fs - F \<and>
     (\<forall>k. file_len d \<le> k \<longrightarrow> k div 512 < num_sectors d \<longrightarrow> fs_byte ops fs d k = 0)"

lemma fs_inv_fm: "fs_inv ops F fs \<Longrightarrow> fm_inv ops F fs"
  by (simp add: fs_inv_def)

lemma fs_inv_cache: "fs_inv ops F fs \<Longrightarrow> cache_ok (fs_dev ops) (fs_cache fs)"
  by (simp add: fs_inv_def fm_inv_def)

lemma used_sectors_cache [simp]: "used_sectors (fs\<lparr>fs_cache := c\<rparr>) = used_sectors fs"
  by (simp add: used_sectors_def)

lemma fs_inv_cache_upd: "fs_inv ops F fs \<Longrightarrow> cache_ok (fs_dev ops) c \<Longrightarrow> fs_inv ops F (fs\<lparr>fs_cache := c\<rparr>)"
  by (simp add: fs_inv_def fm_inv_def)

lemma short_sector:
  assumes "\<not> 65535 < (s :: sector)"
  shows "ucast (ucast s :: u16) = s" "s \<noteq> no_sector"
proof -
  have "uint s \<le> 65535" using assms by (simp add: word_less_def)
  then have "take_bit 16 (uint s) = uint s" by (simp add: take_bit_int_eq_self)
  then show "ucast (ucast s :: u16) = s"
    by (simp add: word_uint_eq_iff unsigned_ucast_eq unsigned_take_bit_eq)
  show "s \<noteq> no_sector"
  proof
    assume "s = no_sector"
    with assms show False by simp
  qed
qed

lemma sector_below_map: "fm_inv ops F fs \<Longrightarrow> unat s < length (free_map fs) \<Longrightarrow> s \<noteq> no_sector"
  by (auto simp: fm_inv_def unsigned_minus_1_eq_mask mask_eq_exp_minus_1)

text \<open>
  No sector with a 16-bit number is left. This is what stops the growth of a file, unless
  the free map cannot be written.
\<close>

definition short_full :: "'d fs_ops \<Rightarrow> ('d, 'z) fs_scheme \<Rightarrow> bool" where
  "short_full ops fs \<longleftrightarrow> ((\<forall>b c. fst (bitmap_write ops b c)) \<longrightarrow>
     (\<forall>s. unat s < length (free_map fs) \<longrightarrow> s \<le> 65535 \<longrightarrow> s \<in> used_sectors fs))"

lemma allocate_short_full:
  assumes inv: "fs_inv ops F fs" and al: "allocate_short ops fs = Some (None, fs')"
  shows "short_full ops fs'"
  unfolding short_full_def
proof (intro impI allI)
  fix t :: sector
  assume wr: "\<forall>b c. fst (bitmap_write ops b c)" and t: "unat t < length (free_map fs')" "t \<le> 65535"
  note fm = fs_inv_fm [OF inv]
  obtain r fs1 where fa: "free_map_allocate ops fs = (r, fs1)" by force
  show "t \<in> used_sectors fs'"
  proof (cases r)
    case None
    then have "fs' = fs1" using al fa by (simp add: allocate_short_def)
    moreover have "free_map fs1 = free_map fs" using free_map_allocate_None [OF fm] fa None by simp
    moreover have "free_map fs ! unat t" if "unat t < length (free_map fs)"
      using free_map_allocate_succeeds [OF fm that] wr fa None by fastforce
    ultimately show ?thesis using t by (simp add: used_sectors_def)
  next
    case (Some s)
    note a = free_map_allocate_Some [OF fm fa [unfolded Some]]
    have big: "65535 < s" and rel: "free_map_release ops s fs1 = Some fs'"
      using al fa Some by (auto simp: allocate_short_def bind_eq_Some_conv split: if_splits)
    have r: "used_sectors fs' = used_sectors fs1 - {s}" "length (free_map fs') = length (free_map fs1)"
      using free_map_release_used [of ops F fs1 s] a rel by auto
    have "t < s" using t(2) big by (rule order.strict_trans1)
    then have "unat t < unat s" "t \<noteq> s" by (auto simp: word_less_nat_alt)
    then have "free_map fs ! unat t" using free_map_allocate_first [OF fm fa [unfolded Some]] by simp
    then have "t \<in> used_sectors fs" using t(1) r(2) a by (simp add: used_sectors_def)
    then show ?thesis using r(1) a \<open>t \<noteq> s\<close> by simp
  qed
qed

lemma allocate_short_spec:
  assumes inv: "fs_inv ops F fs"
  shows "\<exists>r fs'. allocate_short ops fs = Some (r, fs') \<and> fs_inv ops F fs' \<and> length (free_map fs') = length (free_map fs) \<and>
    (case r of
       None \<Rightarrow> used_sectors fs' = used_sectors fs \<and>
         (\<forall>t. t \<notin> F \<longrightarrow> t \<noteq> no_sector \<longrightarrow> fs_view ops fs' t = fs_view ops fs t)
     | Some v \<Rightarrow> ucast v \<notin> used_sectors fs \<and> used_sectors fs' = insert (ucast v) (used_sectors fs) \<and>
         fs_view ops fs' (ucast v) = replicate 512 0 \<and>
         (\<forall>t. t \<notin> F \<longrightarrow> t \<noteq> no_sector \<longrightarrow> t \<noteq> ucast v \<longrightarrow> fs_view ops fs' t = fs_view ops fs t))"
proof (cases "free_map_allocate ops fs")
  case (Pair r fs1)
  note fm = fs_inv_fm [OF inv]
  show ?thesis
  proof (cases r)
    case None
    with Pair free_map_allocate_None [OF fm, of fs1] inv show ?thesis
      by (simp add: allocate_short_def fs_inv_def used_sectors_def)
  next
    case (Some s)
    have a: "fm_inv ops F fs1" "s \<notin> used_sectors fs" "used_sectors fs1 = insert s (used_sectors fs)"
      "unat s < length (free_map fs)"
      "\<And>t. t \<notin> F \<Longrightarrow> t \<noteq> no_sector \<Longrightarrow> fs_view ops fs1 t = fs_view ops fs t"
      "length (free_map fs1) = length (free_map fs)"
      using free_map_allocate_Some [OF fm, of s fs1] Pair Some by auto
    have F: "F \<subseteq> used_sectors fs" using inv by (simp add: fs_inv_def)
    show ?thesis
    proof (cases "65535 < s")
      case True
      obtain fs2 where r: "free_map_release ops s fs1 = Some fs2" "fm_inv ops F fs2"
        "used_sectors fs2 = used_sectors fs1 - {s}" "length (free_map fs2) = length (free_map fs1)"
        "\<And>t. t \<notin> F \<Longrightarrow> t \<noteq> no_sector \<Longrightarrow> fs_view ops fs2 t = fs_view ops fs1 t"
        using free_map_release_used [OF a(1), of s] a(3) by auto
      with True Pair Some a F show ?thesis by (auto simp: allocate_short_def fs_inv_def)
    next
      case False
      note s = short_sector [OF False]
      have c1: "cache_ok (fs_dev ops) (fs_cache fs1)" using a(1) by (simp add: fm_inv_def)
      obtain c where z: "cache_zero (fs_dev ops) s [] (fs_cache fs1) = Some c" "cache_ok (fs_dev ops) c"
        "\<And>t. t \<noteq> no_sector \<Longrightarrow> cache_view (fs_dev ops) c t = (if t = s then replicate 512 0 else fs_view ops fs1 t)"
        using cache_store.zero_spec [OF c1 s(2)] by auto
      have "fs_inv ops F (fs1\<lparr>fs_cache := c\<rparr>)"
        by (rule fs_inv_cache_upd) (use a F z in \<open>auto simp: fs_inv_def\<close>)
      with False Pair Some a s z show ?thesis by (simp add: allocate_short_def)
    qed
  qed
qed

section \<open>One more sector\<close>

lemma ROUND_UP_sector: "ROUND_UP (512 * int m) 512 = 512 * int m"
  by (rule ROUND_UP_multiple) simp_all

lemma num_sectors_whole: "file_len d = 512 * m \<Longrightarrow> num_sectors d = m"
  by (simp add: num_sectors_def)

lemma file_byte_frame:
  assumes "data_sectors d \<subseteq> U" "j div 512 < num_sectors d"
    and "\<And>t. t \<in> U \<Longrightarrow> t \<noteq> no_sector \<Longrightarrow> cache_view bd c' t = cache_view bd c t"
  shows "file_byte bd c' d j = file_byte bd c d j"
proof -
  have "data_sector d (j div 512) \<in> U" using assms(1,2) by (auto simp: data_sectors_def)
  then show ?thesis using assms(3) by (simp add: file_byte_def)
qed

definition grown :: "inode_disk \<Rightarrow> nat \<Rightarrow> u16 \<Rightarrow> inode_disk" where
  "grown d m v = d\<lparr>direct := (direct d)[m := v], id_length := 512 * int m + 512\<rparr>"

lemma grown_simps:
  assumes "length (direct d) = 188" "m < 188"
  shows "file_len (grown d m v) = 512 * Suc m" "num_sectors (grown d m v) = Suc m"
    "data_sector (grown d m v) i = (if i = m then ucast v else data_sector d i)"
    "direct_inode (grown d m v)"
  using assms by (auto simp: grown_def file_len_def num_sectors_def data_sector_def direct_inode_def nat_add_distrib nat_mult_distrib)

lemma append_sector_direct:
  assumes inv: "fs_inv ops F fs" and d: "file_ok ops F fs d" "file_len d = 512 * m" "m < 188"
  shows "\<exists>ok d' fs'. append_sector ops d fs = Some (ok, d', fs') \<and> fs_inv ops F fs' \<and> file_ok ops F fs' d' \<and>
    file_len d' = (if ok then 512 * Suc m else 512 * m) \<and>
    (\<forall>j<file_len d'. fs_byte ops fs' d' j = (if j < file_len d then fs_byte ops fs d j else 0)) \<and>
    data_sectors d \<subseteq> data_sectors d' \<and> used_sectors fs' = used_sectors fs \<union> data_sectors d' \<and>
    (\<forall>t. t \<in> used_sectors fs - F \<longrightarrow> t \<noteq> no_sector \<longrightarrow> fs_view ops fs' t = fs_view ops fs t) \<and>
    (ok \<or> short_full ops fs') \<and> data_sectors d' \<inter> used_sectors fs \<subseteq> data_sectors d \<and>
    length (free_map fs') = length (free_map fs)"
proof -
  have dd: "direct_inode d" "length (direct d) = 188" "data_sectors d \<subseteq> used_sectors fs - F"
    using d(1) by (simp_all add: file_ok_def direct_inode_def)
  have len: "id_length d = 512 * int m" using direct_inode_length [OF dd(1)] d(2) by simp
  note ns = num_sectors_whole [OF d(2)]
  have ru: "ROUND_UP (id_length d) BLOCK_SECTOR_SIZE = 512 * int m" by (simp add: len ROUND_UP_sector)
  have idx: "(511 + 512 * int m) sdiv 512 = int m" by (simp add: c_arith)
  obtain r fs' where a: "allocate_short ops fs = Some (r, fs')" "fs_inv ops F fs'" "length (free_map fs') = length (free_map fs)"
    and sp: "case r of
       None \<Rightarrow> used_sectors fs' = used_sectors fs \<and>
         (\<forall>t. t \<notin> F \<longrightarrow> t \<noteq> no_sector \<longrightarrow> fs_view ops fs' t = fs_view ops fs t)
     | Some v \<Rightarrow> ucast v \<notin> used_sectors fs \<and> used_sectors fs' = insert (ucast v) (used_sectors fs) \<and>
         fs_view ops fs' (ucast v) = replicate 512 0 \<and>
         (\<forall>t. t \<notin> F \<longrightarrow> t \<noteq> no_sector \<longrightarrow> t \<noteq> ucast v \<longrightarrow> fs_view ops fs' t = fs_view ops fs t)"
    using allocate_short_spec [OF inv] by blast
  show ?thesis
  proof (cases r)
    case None
    have ap: "append_sector ops d fs = Some (False, d, fs')"
      using d(3) a(1) None by (simp add: append_sector_def ru idx Let_def)
    have fr: "fs_view ops fs' t = fs_view ops fs t" if "t \<in> used_sectors fs - F" "t \<noteq> no_sector" for t
      using sp None that by auto
    have fb: "fs_byte ops fs' d j = fs_byte ops fs d j" if "j div 512 < num_sectors d" for j
      by (rule file_byte_frame [OF dd(3) that fr])
    have "file_ok ops F fs' d" using d(1) sp None by (simp add: file_ok_def fb)
    moreover have "short_full ops fs'" using allocate_short_full [OF inv] a(1) None by simp
    ultimately show ?thesis using ap a(2,3) sp None fr fb d(2) dd(3) sector_index [of _ d] by auto
  next
    case (Some v)
    note g = grown_simps [OF dd(2) d(3), of v]
    have new: "ucast v \<notin> used_sectors fs" "used_sectors fs' = insert (ucast v) (used_sectors fs)"
      "fs_view ops fs' (ucast v) = replicate 512 0"
      using sp Some by simp_all
    have fr: "fs_view ops fs' t = fs_view ops fs t" if "t \<in> used_sectors fs - F" "t \<noteq> no_sector" for t
      using sp Some that by auto
    have F: "F \<subseteq> used_sectors fs" using inv by (simp add: fs_inv_def)
    have ap: "append_sector ops d fs = Some (True, grown d m v, fs')"
      using d(3) a(1) Some dd(2) by (simp add: append_sector_def ru idx grown_def Let_def)
    have old: "data_sector d i \<in> used_sectors fs - F" if "i < m" for i
      using dd(3) that ns by (auto simp: data_sectors_def)
    have fb: "fs_byte ops fs' (grown d m v) j = (if j < file_len d then fs_byte ops fs d j else 0)"
      if "j < file_len (grown d m v)" for j
    proof (cases "j < file_len d")
      case True
      then have "j div 512 < m" using d(2) by simp
      then show ?thesis using True fr [OF old data_sector_valid] by (simp add: file_byte_def g(3))
    next
      case False
      then have "j div 512 = m" using that d(2) g(1) by simp
      then show ?thesis using False new(3) by (simp add: file_byte_def g(3))
    qed
    have ne: "data_sector d i \<noteq> ucast v" if "i < m" for i
      using old [OF that] new(1) by (metis DiffD1)
    have dist: "distinct_sectors (grown d m v)"
    proof -
      have "inj_on (data_sector (grown d m v)) {..<m} \<longleftrightarrow> inj_on (data_sector d) {..<m}"
        by (rule inj_on_cong) (simp add: g(3))
      moreover have "inj_on (data_sector d) {..<m}" using d(1) ns by (simp add: file_ok_def distinct_sectors_def)
      moreover have "data_sector (grown d m v) m \<notin> data_sector (grown d m v) ` {..<m}"
      proof
        assume "data_sector (grown d m v) m \<in> data_sector (grown d m v) ` {..<m}"
        then obtain i where "i < m" "data_sector d i = ucast v" by (auto simp: g(3))
        with ne show False by blast
      qed
      ultimately show ?thesis by (simp add: distinct_sectors_def g(2) lessThan_Suc)
    qed
    have ds: "data_sectors (grown d m v) = insert (ucast v) (data_sectors d)"
      unfolding data_sectors_def g(2) ns by (auto simp: g(3) lessThan_Suc)
    have fok: "file_ok ops F fs' (grown d m v)"
      using g(1,2,4) dist ds new dd(3) F by (auto simp: file_ok_def)
    have sets: "data_sectors d \<subseteq> data_sectors (grown d m v)"
      "used_sectors fs' = used_sectors fs \<union> data_sectors (grown d m v)"
      "data_sectors (grown d m v) \<inter> used_sectors fs \<subseteq> data_sectors d"
      using ds new(1,2) dd(3) by auto
    show ?thesis
      by (intro exI [of _ True] exI [of _ "grown d m v"] exI [of _ fs'] conjI allI impI)
         (use ap a(2,3) fok g(1) fb sets fr in simp_all)
  qed
qed


section \<open>Growth to a length\<close>

text \<open>
  The loop of \<open>extend_disk\<close>, started on whole sectors: it returns, and the file it
  returns starts with the old bytes, goes on with zeros and is longer by whole sectors.
\<close>

definition grows_to :: "'d fs_ops \<Rightarrow> sector set \<Rightarrow> inode_disk \<Rightarrow> ('d, 'z) fs_scheme \<Rightarrow> inode_disk \<Rightarrow>
    ('d, 'z) fs_scheme \<Rightarrow> bool" where
  "grows_to ops F d fs d' fs' \<longleftrightarrow>
     fs_inv ops F fs' \<and> file_ok ops F fs' d' \<and> file_len d \<le> file_len d' \<and>
     (\<forall>j<file_len d'. fs_byte ops fs' d' j = (if j < file_len d then fs_byte ops fs d j else 0)) \<and>
     data_sectors d \<subseteq> data_sectors d' \<and> data_sectors d' \<inter> used_sectors fs \<subseteq> data_sectors d \<and>
     used_sectors fs' = used_sectors fs \<union> data_sectors d' \<and>
     (\<forall>t. t \<in> used_sectors fs - F \<longrightarrow> t \<noteq> no_sector \<longrightarrow> fs_view ops fs' t = fs_view ops fs t) \<and>
     length (free_map fs') = length (free_map fs)"

lemma grows_to_refl:
  "fs_inv ops F fs \<Longrightarrow> file_ok ops F fs d \<Longrightarrow> grows_to ops F d fs d fs"
  by (auto simp: grows_to_def file_ok_def)

lemma grows_toD:
  assumes "grows_to ops F d fs d' fs'"
  shows "fs_inv ops F fs'" "file_ok ops F fs' d'" "file_len d \<le> file_len d'"
    "j < file_len d' \<Longrightarrow> fs_byte ops fs' d' j = (if j < file_len d then fs_byte ops fs d j else 0)"
    "data_sectors d \<subseteq> data_sectors d'" "used_sectors fs' = used_sectors fs \<union> data_sectors d'"
    "t \<in> used_sectors fs - F \<Longrightarrow> t \<noteq> no_sector \<Longrightarrow> fs_view ops fs' t = fs_view ops fs t"
    "data_sectors d' \<inter> used_sectors fs \<subseteq> data_sectors d" "length (free_map fs') = length (free_map fs)"
  using assms unfolding grows_to_def by simp_all

lemma file_ok_direct: "file_ok ops F fs d \<Longrightarrow> direct_inode d"
  by (simp add: file_ok_def)

lemma grows_to_trans:
  assumes a: "grows_to ops F d fs d1 fs1" and b: "grows_to ops F d1 fs1 d2 fs2"
  shows "grows_to ops F d fs d2 fs2"
proof -
  have "fs_view ops fs2 t = fs_view ops fs t" if "t \<in> used_sectors fs - F" "t \<noteq> no_sector" for t
    using a b that by (auto simp: grows_to_def)
  moreover have "data_sectors d2 \<inter> used_sectors fs \<subseteq> data_sectors d"
  proof
    fix t assume t: "t \<in> data_sectors d2 \<inter> used_sectors fs"
    then have "t \<in> data_sectors d1" using grows_toD(6) [OF a] grows_toD(8) [OF b] by blast
    with t show "t \<in> data_sectors d" using grows_toD(8) [OF a] by blast
  qed
  moreover have "used_sectors fs2 = used_sectors fs \<union> data_sectors d2"
    using grows_toD(6) [OF a] grows_toD(5,6) [OF b] by blast
  moreover have "data_sectors d \<subseteq> data_sectors d2" using grows_toD(5) [OF a] grows_toD(5) [OF b] by blast
  moreover have "fs_byte ops fs2 d2 j = (if j < file_len d then fs_byte ops fs d j else 0)" if "j < file_len d2" for j
    using grows_toD(4) [OF b that] grows_toD(4) [OF a, of j] grows_toD(3) [OF a] by simp
  moreover have "file_len d \<le> file_len d2" using grows_toD(3) [OF a] grows_toD(3) [OF b] by (rule order_trans)
  moreover have "length (free_map fs2) = length (free_map fs)" using grows_toD(9) [OF a] grows_toD(9) [OF b] by simp
  ultimately show ?thesis using grows_toD(1,2) [OF b] unfolding grows_to_def by blast
qed

lemma append_grows:
  assumes "fs_inv ops F fs" "file_ok ops F fs d" "file_len d = 512 * m" "m < 188"
  obtains ok d' fs' where "append_sector ops d fs = Some (ok, d', fs')" "grows_to ops F d fs d' fs'"
    "file_len d' = (if ok then 512 * Suc m else 512 * m)" "ok \<or> short_full ops fs'"
  using append_sector_direct [OF assms] assms(3) by (fastforce simp: grows_to_def)

lemma extend_loop_direct:
  assumes "fs_inv ops F fs" "file_ok ops F fs d" "512 dvd file_len d" "len \<le> DIRECT_BYTES" "file_len d < len + 512"
  shows "\<exists>d' fs'. extend_loop ops (int len) d fs = Some (d', fs') \<and> grows_to ops F d fs d' fs' \<and>
    512 dvd file_len d' \<and> file_len d' < len + 512 \<and> (len \<le> file_len d' \<or> short_full ops fs')"
  using assms
proof (induction "len - file_len d" arbitrary: d fs rule: less_induct)
  case less
  note len = direct_inode_length [of d]
  have di: "direct_inode d" using less.prems(2) by (simp add: file_ok_def)
  obtain m where m: "file_len d = 512 * m" using less.prems(3) by (auto elim: dvdE)
  show ?case
  proof (cases "file_len d < len")
    case False
    then show ?thesis
      using less.prems direct_inode_length [OF di] by (auto simp: extend_loop.simps intro: grows_to_refl)
  next
    case True
    then have "m < 188" using m less.prems(4) by simp
    then obtain ok d1 fs1 where a: "append_sector ops d fs = Some (ok, d1, fs1)" "grows_to ops F d fs d1 fs1"
      "file_len d1 = (if ok then 512 * Suc m else 512 * m)" "ok \<or> short_full ops fs1"
      using append_grows [OF less.prems(1,2) m] by blast
    have g: "int (file_len d) < int len" using True by simp
    show ?thesis
    proof (cases ok)
      case False
      then have "extend_loop ops (int len) d fs = Some (d1, fs1)"
        using a(1) g by (subst extend_loop.simps) (simp add: direct_inode_length [OF di])
      then show ?thesis using a(2,3,4) m False True by simp
    next
      case True': True
      have e: "extend_loop ops (int len) d fs = extend_loop ops (int len) d1 fs1"
        using a(1) g True' by (subst extend_loop.simps) (simp add: direct_inode_length [OF di])
      have "\<exists>d' fs'. extend_loop ops (int len) d1 fs1 = Some (d', fs') \<and> grows_to ops F d1 fs1 d' fs' \<and>
          512 dvd file_len d' \<and> file_len d' < len + 512 \<and> (len \<le> file_len d' \<or> short_full ops fs')"
        by (rule less.hyps) (use a m True True' less.prems(4) in \<open>auto simp: grows_to_def\<close>)
      then show ?thesis using e grows_to_trans [OF a(2)] by auto
    qed
  qed
qed

section \<open>Changing the length within the last sector\<close>

lemma set_length_same_sectors:
  assumes "file_ok ops F fs d" "num_sectors (d\<lparr>id_length := int n\<rparr>) = num_sectors d" "n \<le> DIRECT_BYTES"
    and "\<And>k. n \<le> k \<Longrightarrow> k div 512 < num_sectors d \<Longrightarrow> fs_byte ops fs d k = 0"
  shows "file_ok ops F fs (d\<lparr>id_length := int n\<rparr>)"
    and "data_sectors (d\<lparr>id_length := int n\<rparr>) = data_sectors d"
    and "fs_byte ops fs (d\<lparr>id_length := int n\<rparr>) = fs_byte ops fs d"
proof -
  have ds: "data_sector (d\<lparr>id_length := int n\<rparr>) = data_sector d" by (simp add: data_sector_def fun_eq_iff)
  show fb: "fs_byte ops fs (d\<lparr>id_length := int n\<rparr>) = fs_byte ops fs d"
    by (simp add: file_byte_def fun_eq_iff ds)
  show sec: "data_sectors (d\<lparr>id_length := int n\<rparr>) = data_sectors d"
    by (simp add: data_sectors_def ds assms(2))
  have fl: "file_len (d\<lparr>id_length := int n\<rparr>) = n" by (simp add: file_len_def)
  show "file_ok ops F fs (d\<lparr>id_length := int n\<rparr>)"
    using assms unfolding file_ok_def sec fl fb
    by (simp add: distinct_sectors_def ds direct_inode_def fl)
qed

lemma num_sectors_set: "num_sectors (d\<lparr>id_length := int n\<rparr>) = (n + 511) div 512"
  by (simp add: num_sectors_def file_len_def)

lemma extend_disk_direct:
  assumes inv: "fs_inv ops F fs" and d: "file_ok ops F fs d" and len: "len \<le> DIRECT_BYTES"
  shows "\<exists>d' fs'. extend_disk ops d (int len) fs = Some (id_length d', d', fs') \<and>
    grows_to ops F d fs d' fs' \<and> file_len d' \<le> max len (file_len d) \<and> (len \<le> file_len d' \<or> short_full ops fs')"
proof (cases "len \<le> file_len d")
  case True
  have "id_length d = int (file_len d)" using d by (simp add: file_ok_def direct_inode_length)
  then show ?thesis using True grows_to_refl [OF inv d] by (auto simp: extend_disk_def)
next
  case False
  have di: "direct_inode d" using d by (simp add: file_ok_def)
  note il = direct_inode_length [OF di]
  define L where "L = file_len d"
  define r where "r = 512 * num_sectors d"
  have Lr: "L \<le> r" "r < L + 512" "512 dvd r" "r \<le> DIRECT_BYTES"
  proof -
    have "(L + 511) div 512 * 512 + (L + 511) mod 512 = L + 511" "(L + 511) mod 512 < 512" by simp_all
    then show "L \<le> r" "r < L + 512" unfolding r_def L_def num_sectors_def by linarith+
    show "512 dvd r" by (simp add: r_def)
    show "r \<le> DIRECT_BYTES" using direct_inode_sectors [OF di] by (simp add: r_def)
  qed
  have ru: "ROUND_UP (id_length d) BLOCK_SECTOR_SIZE = int r"
    unfolding il r_def num_sectors_def by (simp add: ROUND_UP_nonneg zdiv_int)
  let ?d0 = "d\<lparr>id_length := int r\<rparr>"
  have rs: "num_sectors ?d0 = num_sectors d" unfolding num_sectors_set by (simp add: r_def)
  have r0: "fs_byte ops fs d k = 0" if "r \<le> k" "k div 512 < num_sectors d" for k
    using that unfolding r_def by (metis div_le_mono leD nonzero_mult_div_cancel_left zero_neq_numeral)
  note s0 = set_length_same_sectors [OF d rs Lr(4) r0]
  have f0: "file_len ?d0 = r" by (simp add: file_len_def)
  have pre: "512 dvd file_len ?d0" "file_len ?d0 < len + 512"
    using Lr(2,3) False by (simp_all add: f0 L_def)
  obtain d1 fs1 where e: "extend_loop ops (int len) ?d0 fs = Some (d1, fs1)" "grows_to ops F ?d0 fs d1 fs1"
    "512 dvd file_len d1" "file_len d1 < len + 512" "len \<le> file_len d1 \<or> short_full ops fs1"
    using extend_loop_direct [OF inv s0(1) pre(1) len pre(2)] by blast
  note d1 = grows_toD(2) [OF e(2)] file_ok_direct [OF grows_toD(2) [OF e(2)]]
  note il1 = direct_inode_length [OF d1(2)]
  have zero: "fs_byte ops fs d j = 0" if "L \<le> j" "j < r" for j
    using d that unfolding file_ok_def L_def r_def by (auto simp: less_mult_imp_div_less mult.commute)
  have g: "fs_byte ops fs1 d1 j = (if j < L then fs_byte ops fs d j else 0)" if "j < file_len d1" for j
    using grows_toD(4) [OF e(2) that] zero [of j] Lr(1) by (simp add: f0 s0(3))
  define n where "n = min len (file_len d1)"
  have nL: "L \<le> n" using grows_toD(3) [OF e(2)] f0 Lr(1) False unfolding n_def L_def by simp
  have nsame: "num_sectors (d1\<lparr>id_length := int n\<rparr>) = num_sectors d1"
  proof -
    obtain q where q: "file_len d1 = 512 * q" using e(3) by (auto elim: dvdE)
    have "n \<le> 512 * q" "512 * q < n + 512" using e(4) q unfolding n_def by auto
    then have "(n + 511) div 512 = q" by (intro div_nat_eqI) auto
    then show ?thesis unfolding num_sectors_set num_sectors_whole [OF q] .
  qed
  have n1: "fs_byte ops fs1 d1 k = 0" if "n \<le> k" "k div 512 < num_sectors d1" for k
  proof (cases "k < file_len d1")
    case True
    then show ?thesis using g [OF True] that(1) nL by simp
  next
    case False
    then show ?thesis using d1(1) that(2) unfolding file_ok_def by simp
  qed
  have nb: "n \<le> DIRECT_BYTES" using len by (simp add: n_def)
  note s1 = set_length_same_sectors [OF d1(1) nsame nb n1]
  let ?d2 = "d1\<lparr>id_length := int n\<rparr>"
  have cut: "(if int len < id_length d1 then d1\<lparr>id_length := int len\<rparr> else d1) = ?d2"
    unfolding n_def using il1 by (cases d1) (auto simp: min_def)
  have guard: "\<not> int len \<le> id_length d" using False il by simp
  have "extend_disk ops d (int len) fs = Some (id_length ?d2, ?d2, fs1)"
    unfolding extend_disk_def ru if_not_P [OF guard] Let_def e(1) bind.bind_lunit prod.case cut by (rule refl)
  moreover have f2: "file_len ?d2 = n" by (simp add: file_len_def)
  moreover have "grows_to ops F d fs ?d2 fs1"
    unfolding grows_to_def f2
  proof (intro conjI allI impI)
    show "fs_inv ops F fs1" by (rule grows_toD(1) [OF e(2)])
    show "file_ok ops F fs1 ?d2" by (rule s1(1))
    show "length (free_map fs1) = length (free_map fs)" by (rule grows_toD(9) [OF e(2)])
    show "data_sectors ?d2 \<inter> used_sectors fs \<subseteq> data_sectors d" using grows_toD(8) [OF e(2)] s0(2) s1(2) by simp
    show "file_len d \<le> n" using nL by (simp add: L_def)
    show "data_sectors d \<subseteq> data_sectors ?d2" using grows_toD(5) [OF e(2)] s0(2) s1(2) by simp
    show "used_sectors fs1 = used_sectors fs \<union> data_sectors ?d2" using grows_toD(6) [OF e(2)] s1(2) by simp
    show "fs_byte ops fs1 ?d2 j = (if j < file_len d then fs_byte ops fs d j else 0)" if "j < n" for j
      using g [of j] that s1(3) by (simp add: n_def L_def)
    show "fs_view ops fs1 t = fs_view ops fs t" if "t \<in> used_sectors fs - F" "t \<noteq> no_sector" for t
      by (rule grows_toD(7) [OF e(2) that])
  qed
  moreover have "n \<le> max len (file_len d)" "len \<le> n \<or> short_full ops fs1" using e(5) by (auto simp: n_def)
  ultimately show ?thesis by metis
qed

section \<open>What growth leaves alone\<close>

lemma free_map_release_more:
  "free_map_release ops s fs = Some fs' \<Longrightarrow> fs.more fs' = fs.more fs"
  by (auto simp: free_map_release_def bind_eq_Some_conv Let_def split: prod.splits)

lemma same_more:
  "fs.more r = fs.more (r' :: 'd inode_fs) \<Longrightarrow> inodes r = inodes r' \<and> open_inodes r = open_inodes r'"
  by (cases r; cases r') simp

lemma c_update_length: "c_update xs i v = Some ys \<Longrightarrow> length ys = length xs"
  by (auto simp: c_update_def split: if_splits)

text \<open>Growth keeps the sizes of the index tables and what lies beyond the free map in the state.\<close>

definition same_shape :: "inode_disk \<Rightarrow> ('d, 'z) fs_scheme \<Rightarrow> inode_disk \<Rightarrow> ('d, 'z) fs_scheme \<Rightarrow> bool" where
  "same_shape d fs d' fs' \<longleftrightarrow> length (direct d') = length (direct d) \<and> length (indirect d') = length (indirect d) \<and>
     fs.more fs' = fs.more fs"

lemma same_shapeI:
  "length (direct d') = length (direct d) \<Longrightarrow> length (indirect d') = length (indirect d) \<Longrightarrow>
   fs.more fs' = fs.more fs \<Longrightarrow> same_shape d fs d' fs'"
  by (simp add: same_shape_def)

lemma free_map_allocate_more: "free_map_allocate ops fs = (r, fs') \<Longrightarrow> fs.more fs' = fs.more fs"
  by (auto simp: free_map_allocate_def split: prod.splits option.splits if_splits bool.splits)

lemma allocate_short_more: "allocate_short ops fs = Some (r, fs') \<Longrightarrow> fs.more fs' = fs.more fs"
  by (auto simp: allocate_short_def bind_eq_Some_conv split: prod.splits option.splits if_splits
      dest!: free_map_allocate_more free_map_release_more)

lemma append_indirect_shape: "append_indirect ops idx n d fs = Some (ok, d', fs') \<Longrightarrow> same_shape d fs d' fs'"
proof -
  assume a: "append_indirect ops idx n d fs = Some (ok, d', fs')"
  let ?new = "((id_length d - 1) sdiv 512 - NUM_DIRECT) sdiv INDIRECT_LEN < (idx - NUM_DIRECT) sdiv INDIRECT_LEN"
  obtain ok1 d1 fs1 where
    1: "(if ?new then do {
          (r, fs1) \<leftarrow> allocate_short ops fs;
          (case r of
             None \<Rightarrow> Some (False, d, fs1)
           | Some v \<Rightarrow> do {
               ins \<leftarrow> c_update (indirect d) ((idx - NUM_DIRECT) sdiv INDIRECT_LEN) v;
               Some (True, d\<lparr>indirect := ins\<rparr>, fs1)
             })
        } else Some (True, d, fs)) = Some (ok1, d1, fs1)"
    using a by (auto simp: append_indirect_def Let_def bind_eq_Some_conv)
  have s1: "same_shape d fs d1 fs1"
    using 1 by (auto simp: bind_eq_Some_conv same_shape_def split: if_splits option.splits
        dest!: c_update_length allocate_short_more)
  show ?thesis
  proof (cases ok1)
    case False
    then have "d' = d1 \<and> fs' = fs1" using a unfolding append_indirect_def Let_def 1 by simp
    with s1 show ?thesis by simp
  next
    case True
    then obtain r fs2 where 2: "allocate_short ops fs1 = Some (r, fs2)"
      using a unfolding append_indirect_def Let_def 1 by (auto simp: bind_eq_Some_conv)
    note m = allocate_short_more [OF 2]
    show ?thesis
    proof (cases r)
      case None
      then have "d' = d1 \<and> fs.more fs' = fs.more fs2"
        using a True 2 unfolding append_indirect_def Let_def 1
        by (auto simp: bind_eq_Some_conv split: if_splits dest: free_map_release_more)
      with s1 m show ?thesis by (simp add: same_shape_def)
    next
      case (Some v)
      then have "direct d' = direct d1 \<and> indirect d' = indirect d1 \<and> fs.more fs' = fs.more fs2"
        using a True 2 unfolding append_indirect_def Let_def 1
        by (auto simp: bind_eq_Some_conv)
      with s1 m show ?thesis by (simp add: same_shape_def)
    qed
  qed
qed

lemma append_sector_shape: "append_sector ops d fs = Some (ok, d', fs') \<Longrightarrow> same_shape d fs d' fs'"
  by (auto simp: append_sector_def Let_def bind_eq_Some_conv same_shape_def
      dest!: c_update_length allocate_short_more append_indirect_shape [unfolded same_shape_def]
      split: if_splits option.splits)

lemma extend_loop_shape: "extend_loop ops len d fs = Some (d', fs') \<Longrightarrow> same_shape d fs d' fs'"
proof (induction ops len d fs rule: extend_loop.induct)
  case (1 ops len d fs)
  show ?case
  proof (cases "id_length d < len")
    case False
    then show ?thesis using 1(2) by (simp add: extend_loop.simps same_shape_def)
  next
    case True
    then obtain ok d1 fs1 where a: "append_sector ops d fs = Some (ok, d1, fs1)"
      using 1(2) by (cases "append_sector ops d fs") (auto simp: extend_loop.simps)
    show ?thesis
    proof (cases ok)
      case False
      then show ?thesis using 1(2) True a append_sector_shape [OF a] by (simp add: extend_loop.simps)
    next
      case ok: True
      then have "extend_loop ops len d1 fs1 = Some (d', fs')"
        using 1(2) True a by (subst (asm) extend_loop.simps) simp
      then have "same_shape d1 fs1 d' fs'" using 1(1) [OF True a [unfolded ok]] ok by blast
      then show ?thesis using append_sector_shape [OF a] by (simp add: same_shape_def)
    qed
  qed
qed

lemma extend_disk_shape: "extend_disk ops d len fs = Some (n, d', fs') \<Longrightarrow> same_shape d fs d' fs'"
  by (auto simp: extend_disk_def Let_def bind_eq_Some_conv same_shape_def dest!: extend_loop_shape split: if_splits)

end
