(* ===== verification/Inode_Ops.thy ===== *)
theory Inode_Ops
  imports Inode_Growth
begin

text \<open>
  What the operations of \<open>inode.c\<close> promise their callers: reading returns the bytes of the
  file, writing extends and overwrites them and touches no other file, a denied write
  changes nothing, opening twice gives one inode, and the on-disk form is read back as it
  was written.
\<close>

section \<open>The lock of an inode\<close>

lemma acquire_inode_free:
  "inodes fs p = Some ino \<Longrightarrow> \<not> in_lock ino \<Longrightarrow>
   acquire_inode p fs = Some (ino\<lparr>in_lock := True\<rparr>, set_inode p (ino\<lparr>in_lock := True\<rparr>) fs)"
  by (simp add: acquire_inode_def Let_def)

lemma set_inode_simps [simp]:
  "fs_cache (set_inode p ino fs) = fs_cache fs" "free_map (set_inode p ino fs) = free_map fs"
  "free_map_file (set_inode p ino fs) = free_map_file fs" "inodes (set_inode p ino fs) = (inodes fs)(p \<mapsto> ino)"
  "open_inodes (set_inode p ino fs) = open_inodes fs"
  by (simp_all add: set_inode_def)

lemma release_inode_simps [simp]:
  "fs_cache (release_inode p ino fs) = fs_cache fs" "free_map (release_inode p ino fs) = free_map fs"
  "free_map_file (release_inode p ino fs) = free_map_file fs"
  "inodes (release_inode p ino fs) = (inodes fs)(p \<mapsto> ino\<lparr>in_lock := False\<rparr>)"
  "open_inodes (release_inode p ino fs) = open_inodes fs"
  by (simp_all add: release_inode_def)

lemma used_sectors_inode [simp]:
  "used_sectors (set_inode p ino fs) = used_sectors fs" "used_sectors (release_inode p ino fs) = used_sectors fs"
  by (simp_all add: used_sectors_def)

lemma fs_inv_inode [simp]:
  "fs_inv ops F (set_inode p ino fs) = fs_inv ops F fs" "fs_inv ops F (release_inode p ino fs) = fs_inv ops F fs"
  by (simp_all add: fs_inv_def fm_inv_def)

lemma file_ok_inode [simp]:
  "file_ok ops F (set_inode p ino fs) d = file_ok ops F fs d"
  "file_ok ops F (release_inode p ino fs) d = file_ok ops F fs d"
  by (simp_all add: file_ok_def)

lemma in_data_lock [simp]: "in_data (ino\<lparr>in_lock := b\<rparr>) = in_data ino"
  by simp

lemma unlocked_same: "\<not> in_lock ino \<Longrightarrow> ino\<lparr>in_lock := False\<rparr> = ino"
  by simp

section \<open>Reading\<close>

lemma take_drop_bytes:
  "take z (drop k (file_bytes bd c d)) = map (file_byte bd c d) [k..<min (k + z) (file_len d)]"
  by (simp add: file_bytes_def drop_map take_map drop_upt take_upt min_def)

lemma inode_read_at_spec:
  assumes inv: "fs_inv ops F fs" and p: "inodes fs p = Some ino" "\<not> in_lock ino" and d: "file_ok ops F fs (in_data ino)"
  shows "\<exists>c'. inode_read_at ops p (int z) (int k) fs =
      Some (take z (drop k (file_bytes (fs_dev ops) (fs_cache fs) (in_data ino))),
            release_inode p ino (fs\<lparr>fs_cache := c'\<rparr>)) \<and>
    cache_ok (fs_dev ops) c' \<and>
    (\<forall>t. t \<noteq> no_sector \<longrightarrow> cache_view (fs_dev ops) c' t = fs_view ops fs t)"
proof -
  obtain c' where c': "read_loop (fs_dev ops) (ino\<lparr>in_lock := True\<rparr>) (int z) (int k) [] (fs_cache fs) =
      Some ([] @ map (fs_byte ops fs (in_data ino)) [k..<min (k + z) (file_len (in_data ino))], c')"
    "cache_ok (fs_dev ops) c'" "\<forall>t. t \<noteq> no_sector \<longrightarrow> cache_view (fs_dev ops) c' t = fs_view ops fs t"
    using read_loop_direct [of "ino\<lparr>in_lock := True\<rparr>" "fs_dev ops" "fs_cache fs" z k "[]"]
      file_ok_direct [OF d] fs_inv_cache [OF inv] by auto
  then show ?thesis
    by (intro exI [of _ c']) (simp add: inode_read_at_def acquire_inode_free [OF p] take_drop_bytes
        release_inode_def set_inode_def)
qed

section \<open>Writing\<close>

text \<open>
  The bytes of a file of length \<open>n\<close> after the first \<open>m\<close> bytes of \<open>buf\<close> are put at
  position \<open>k\<close> of the bytes \<open>xs\<close>; a gap is filled with zeros.
\<close>

definition overwrite :: "nat \<Rightarrow> nat \<Rightarrow> nat \<Rightarrow> byte list \<Rightarrow> byte list \<Rightarrow> byte list" where
  "overwrite n k m buf xs = map (\<lambda>j. if k \<le> j \<and> j < k + m then buf ! (j - k)
     else if j < length xs then xs ! j else 0) [0..<n]"

lemma file_bytes_eq_overwrite:
  assumes "\<And>j. j < file_len d' \<Longrightarrow> file_byte bd c' d' j = (if k \<le> j \<and> j < k + m then buf ! (j - k)
     else if j < file_len d then file_byte bd c d j else 0)"
  shows "file_bytes bd c' d' = overwrite (file_len d') k m buf (file_bytes bd c d)"
  unfolding file_bytes_def overwrite_def by (rule map_cong) (auto simp: assms)

lemma data_sectors_used: "file_ok ops F fs d \<Longrightarrow> data_sectors d \<subseteq> used_sectors fs - F"
  by (simp add: file_ok_def)

text \<open>
  What a write leaves: \<open>n\<close> bytes were written; the inode is \<open>d'\<close> instead of \<open>d\<close>.
\<close>

definition write_result :: "'d fs_ops \<Rightarrow> sector set \<Rightarrow> inode_disk \<Rightarrow> ('d, 'z) fs_scheme \<Rightarrow> nat \<Rightarrow> nat \<Rightarrow> byte list \<Rightarrow>
    nat \<Rightarrow> inode_disk \<Rightarrow> ('d, 'z) fs_scheme \<Rightarrow> bool" where
  "write_result ops F d fs k z buf n d' fs' \<longleftrightarrow>
     fs_inv ops F fs' \<and> file_ok ops F fs' d' \<and>
     file_bytes (fs_dev ops) (fs_cache fs') d' =
       overwrite (file_len d') k n buf (file_bytes (fs_dev ops) (fs_cache fs) d) \<and>
     file_len d \<le> file_len d' \<and> file_len d' \<le> max (k + z) (file_len d) \<and>
     n = min (k + z) (file_len d') - k \<and> (n = z \<or> short_full ops fs') \<and>
     used_sectors fs' = used_sectors fs \<union> data_sectors d' \<and>
     (\<forall>t \<in> used_sectors fs - F - data_sectors d. t \<noteq> no_sector \<longrightarrow> fs_view ops fs' t = fs_view ops fs t)"

lemma write_resultD:
  assumes "write_result ops F d fs k z buf n d' fs'"
  shows "fs_inv ops F fs'" "file_ok ops F fs' d'"
    "file_bytes (fs_dev ops) (fs_cache fs') d' = overwrite (file_len d') k n buf (file_bytes (fs_dev ops) (fs_cache fs) d)"
    "file_len d \<le> file_len d'" "file_len d' \<le> max (k + z) (file_len d)" "n = min (k + z) (file_len d') - k"
    "n = z \<or> short_full ops fs'" "used_sectors fs' = used_sectors fs \<union> data_sectors d'"
    "\<forall>t \<in> used_sectors fs - F - data_sectors d. t \<noteq> no_sector \<longrightarrow> fs_view ops fs' t = fs_view ops fs t"
  using assms unfolding write_result_def by blast+

lemma write_after_growth:
  assumes inv: "fs_inv ops F fs" and d: "file_ok ops F fs (in_data ino)" "in_lock ino"
    and g: "grows_to ops F (in_data ino) fs d' fs1" "file_len d' \<le> max (k + z) (file_len (in_data ino))"
      "k + z \<le> file_len d' \<or> short_full ops fs1"
    and z: "z \<le> length buf"
  shows "\<exists>n c. write_loop (fs_dev ops) (ino\<lparr>in_data := d'\<rparr>) buf (int z) (int k) 0 (fs_cache fs1) = Some (int n, c) \<and>
    write_result ops F (in_data ino) fs k z buf n d' (fs1\<lparr>fs_cache := c\<rparr>)"
proof -
  let ?bd = "fs_dev ops" and ?d = "in_data ino"
  note g' = grows_toD [OF g(1)]
  have d': "direct_inode d'" "distinct_sectors d'" using g'(2) by (simp_all add: file_ok_def)
  define n where "n = min (k + z) (file_len d') - k"
  obtain c where c: "write_loop ?bd (ino\<lparr>in_data := d'\<rparr>) buf (int z) (int k) (int 0) (fs_cache fs1) = Some (int (0 + n), c)"
    "cache_ok ?bd c"
    "\<And>j. j div 512 < num_sectors d' \<Longrightarrow> file_byte ?bd c d' j =
       (if k \<le> j \<and> j < min (k + z) (file_len d') then buf ! (0 + (j - k)) else fs_byte ops fs1 d' j)"
    "\<And>t. t \<noteq> no_sector \<Longrightarrow> t \<notin> data_sectors d' \<Longrightarrow> cache_view ?bd c t = fs_view ops fs1 t"
    using write_loop_direct [of "ino\<lparr>in_data := d'\<rparr>" ?bd "fs_cache fs1" 0 z buf k] d' d(2) z
      fs_inv_cache [OF g'(1)] unfolding n_def by auto
  let ?fs' = "fs1\<lparr>fs_cache := c\<rparr>"
  have kn: "k \<le> j \<and> j < min (k + z) (file_len d') \<longleftrightarrow> k \<le> j \<and> j < k + n" for j
    unfolding n_def by auto
  have bytes: "file_byte ?bd c d' j = (if k \<le> j \<and> j < k + n then buf ! (j - k)
      else if j < file_len ?d then fs_byte ops fs ?d j else 0)" if "j < file_len d'" for j
    using c(3) [OF sector_index [OF that]] g'(4) [OF that] unfolding kn by simp
  have "write_result ops F ?d fs k z buf n d' ?fs'"
    unfolding write_result_def
  proof (intro conjI ballI impI)
    show "fs_inv ops F ?fs'" by (rule fs_inv_cache_upd [OF g'(1) c(2)])
    have "file_byte ?bd c d' j = 0" if "file_len d' \<le> j" "j div 512 < num_sectors d'" for j
      using c(3) [OF that(2)] that g'(2) by (simp add: file_ok_def)
    then show "file_ok ops F ?fs' d'" using g'(2) by (simp add: file_ok_def)
    show "file_bytes ?bd (fs_cache ?fs') d' = overwrite (file_len d') k n buf (file_bytes ?bd (fs_cache fs) ?d)"
      by (rule file_bytes_eq_overwrite) (simp add: bytes)
    show "file_len ?d \<le> file_len d'" "file_len d' \<le> max (k + z) (file_len ?d)" "n = min (k + z) (file_len d') - k"
      using g'(3) g(2) by (simp_all add: n_def)
    show "n = z \<or> short_full ops ?fs'" using g(3) by (auto simp: n_def short_full_def used_sectors_def)
    show "used_sectors ?fs' = used_sectors fs \<union> data_sectors d'" using g'(6) by simp
    fix t assume t: "t \<in> used_sectors fs - F - data_sectors ?d" "t \<noteq> no_sector"
    then have "t \<notin> data_sectors d'" using g'(8) by auto
    then show "fs_view ops ?fs' t = fs_view ops fs t" using c(4) [OF t(2)] g'(7) [of t] t by simp
  qed
  then show ?thesis using c(1) by auto
qed


lemma c_int_small: "0 \<le> x \<Longrightarrow> x < 2 ^ 31 \<Longrightarrow> c_int x = Some x"
  by simp

lemma write_result_inode [simp]:
  "write_result ops F d (set_inode p ino fs) k z buf n d' fs' = write_result ops F d fs k z buf n d' fs'"
  by (simp add: write_result_def)

lemma inode_write_at_spec:
  assumes inv: "fs_inv ops F fs" and p: "inodes fs p = Some ino" "\<not> in_lock ino" "deny_write_cnt ino = 0"
    and d: "file_ok ops F fs (in_data ino)" and z: "z \<le> length buf" "k + z \<le> DIRECT_BYTES"
  shows "\<exists>n d' fs1. inode_write_at ops p buf (int z) (int k) fs =
      Some (int n, release_inode p (ino\<lparr>in_data := d'\<rparr>) fs1) \<and>
    write_result ops F (in_data ino) fs k z buf n d' fs1 \<and>
    fs.more fs1 = fs.more (set_inode p (ino\<lparr>in_lock := True\<rparr>) fs)"
proof -
  let ?ino = "ino\<lparr>in_lock := True\<rparr>" and ?fs = "set_inode p (ino\<lparr>in_lock := True\<rparr>) fs"
  have inv': "fs_inv ops F ?fs" and d'': "file_ok ops F ?fs (in_data ino)" using inv d by simp_all
  obtain d' fs1 where e: "extend_disk ops (in_data ino) (int (k + z)) ?fs = Some (id_length d', d', fs1)"
    "grows_to ops F (in_data ino) ?fs d' fs1" "file_len d' \<le> max (k + z) (file_len (in_data ino))"
    "k + z \<le> file_len d' \<or> short_full ops fs1"
    using extend_disk_direct [OF inv' d'' z(2)] by blast
  have "in_lock ?ino" "file_ok ops F ?fs (in_data ?ino)" "grows_to ops F (in_data ?ino) ?fs d' fs1"
    "file_len d' \<le> max (k + z) (file_len (in_data ?ino))" using d'' e by simp_all
  then obtain n c where w: "write_loop (fs_dev ops) (?ino\<lparr>in_data := d'\<rparr>) buf (int z) (int k) 0 (fs_cache fs1) = Some (int n, c)"
    "write_result ops F (in_data ?ino) ?fs k z buf n d' (fs1\<lparr>fs_cache := c\<rparr>)"
    using write_after_growth [OF inv' _ _ _ _ e(4) z(1)] by metis
  have "int (k + z) < 2 ^ 31" using z(2) by simp
  then have ci: "c_int (int k + int z) = Some (int (k + z))" by simp
  have "inode_write_at ops p buf (int z) (int k) fs =
      Some (int n, release_inode p (?ino\<lparr>in_data := d'\<rparr>) (fs1\<lparr>fs_cache := c\<rparr>))"
    using w(1) e(1) p(3) by (simp add: inode_write_at_def acquire_inode_free [OF p(1,2)] extend_def ci)
  moreover have "release_inode p (?ino\<lparr>in_data := d'\<rparr>) (fs1\<lparr>fs_cache := c\<rparr>) =
      release_inode p (ino\<lparr>in_data := d'\<rparr>) (fs1\<lparr>fs_cache := c\<rparr>)"
    by (simp add: release_inode_def)
  moreover have "fs.more (fs1\<lparr>fs_cache := c\<rparr>) = fs.more ?fs"
    using extend_disk_shape [OF e(1)] by (simp add: same_shape_def)
  ultimately show ?thesis
    using w(2) by (intro exI [of _ n] exI [of _ d'] exI [of _ "fs1\<lparr>fs_cache := c\<rparr>"]) simp
qed

section \<open>The inode on disk\<close>

lemma concat_le16_read:
  "i < length xs \<Longrightarrow> take 2 (drop (2 * i) (concat (map le16 xs) @ ys)) = le16 (xs ! i)"
proof (induction xs arbitrary: i)
  case (Cons x xs)
  show ?case
  proof (cases i)
    case (Suc j)
    have "drop (2 * i) (concat (map le16 (x # xs)) @ ys) = drop (2 * j) (concat (map le16 xs) @ ys)"
      unfolding Suc by (simp add: drop_append)
    with Cons Suc show ?thesis by simp
  qed simp
qed simp

lemma length_concat_le16 [simp]: "length (concat (map le16 xs)) = 2 * length xs"
  by (induction xs) simp_all

lemma length_encode_inode: "length (direct d) = 188 \<Longrightarrow> length (indirect d) = 64 \<Longrightarrow> length (encode_inode d) = 512"
  by (simp add: encode_inode_def)

lemma u16_at_region:
  assumes "i < length xs" "bs = pre @ concat (map le16 xs) @ post" "k = length pre + 2 * i"
  shows "u16_at bs k = xs ! i"
proof -
  have "take 2 (drop k bs) = le16 (xs ! i)"
    unfolding assms(2,3) using concat_le16_read [OF assms(1)] by (simp add: drop_append)
  then show ?thesis by (simp add: u16_at_def)
qed

lemma decode_encode:
  assumes len: "length (direct d) = 188" "length (indirect d) = 64" and r: "- (2 ^ 31) \<le> id_length d" "id_length d < 2 ^ 31"
  shows "decode_inode (encode_inode d) = d"
proof -
  let ?bs = "encode_inode d"
  let ?h = "le32 (word_of_int (id_length d)) @ le32 (id_magic d)"
  have "sint (word_of_int (id_length d) :: u32) = id_length d"
    using r by (simp add: sint_sbintrunc' signed_take_bit_int_eq_self)
  moreover have "of_le32 (take 4 ?bs) = word_of_int (id_length d)" "of_le32 (take 4 (drop 4 ?bs)) = id_magic d"
    by (simp_all add: encode_inode_def)
  moreover have "map (\<lambda>i. u16_at ?bs (8 + 2 * i)) [0..<188] = direct d"
  proof (rule nth_equalityI)
    fix i assume "i < length (map (\<lambda>i. u16_at ?bs (8 + 2 * i)) [0..<188])"
    then show "map (\<lambda>i. u16_at ?bs (8 + 2 * i)) [0..<188] ! i = direct d ! i"
      using u16_at_region [of i "direct d" ?bs ?h "concat (map le16 (indirect d))"] by (simp add: len encode_inode_def)
  qed (simp add: len)
  moreover have "map (\<lambda>i. u16_at ?bs (384 + 2 * i)) [0..<64] = indirect d"
  proof (rule nth_equalityI)
    fix i assume "i < length (map (\<lambda>i. u16_at ?bs (384 + 2 * i)) [0..<64])"
    then show "map (\<lambda>i. u16_at ?bs (384 + 2 * i)) [0..<64] ! i = indirect d ! i"
      using u16_at_region [of i "indirect d" ?bs "?h @ concat (map le16 (direct d))" "[]"] by (simp add: len encode_inode_def)
  qed (simp add: len)
  ultimately show ?thesis by (simp add: decode_inode_def)
qed

end
