(* ===== verification/Inode_Table.thy ===== *)
theory Inode_Table
  imports Inode_Ops
begin

text \<open>
  The table of open inodes: one inode per sector, reference counts, the closing that
  releases the sectors of a removed file, creation, and what closing does with the length of
  a file that has grown.
\<close>

section \<open>The invariant of the table\<close>

definition table_ok :: "'d inode_fs \<Rightarrow> bool" where
  "table_ok fs \<longleftrightarrow> distinct (open_inodes fs) \<and> dom (inodes fs) = set (open_inodes fs) \<and>
     (\<forall>p ino. inodes fs p = Some ino \<longrightarrow> \<not> in_lock ino \<and> 0 < open_cnt ino) \<and>
     (\<forall>p q ino jno. inodes fs p = Some ino \<longrightarrow> inodes fs q = Some jno \<longrightarrow> in_sector ino = in_sector jno \<longrightarrow> p = q)"

lemma table_okD:
  assumes "table_ok fs"
  shows "distinct (open_inodes fs)" "p \<in> set (open_inodes fs) \<longleftrightarrow> (\<exists>ino. inodes fs p = Some ino)"
    "inodes fs p = Some ino \<Longrightarrow> \<not> in_lock ino" "inodes fs p = Some ino \<Longrightarrow> 0 < open_cnt ino"
    "inodes fs p = Some ino \<Longrightarrow> inodes fs q = Some jno \<Longrightarrow> in_sector ino = in_sector jno \<Longrightarrow> p = q"
  using assms unfolding table_ok_def by blast+

lemma table_okI:
  assumes "distinct (open_inodes fs)" "dom (inodes fs) = set (open_inodes fs)"
    and "\<And>p ino. inodes fs p = Some ino \<Longrightarrow> \<not> in_lock ino \<and> 0 < open_cnt ino"
    and "\<And>p q ino jno. inodes fs p = Some ino \<Longrightarrow> inodes fs q = Some jno \<Longrightarrow> in_sector ino = in_sector jno \<Longrightarrow> p = q"
  shows "table_ok fs"
  using assms unfolding table_ok_def by blast

text \<open>Changing the counters of an open inode keeps the table in order.\<close>

lemma table_ok_update:
  assumes t: "table_ok fs" and p: "inodes fs p = Some ino"
    and n: "in_sector ino' = in_sector ino" "\<not> in_lock ino'" "0 < open_cnt ino'"
    and fs': "open_inodes fs' = open_inodes fs" "inodes fs' = (inodes fs)(p \<mapsto> ino')"
  shows "table_ok fs'"
proof (rule table_okI)
  have "dom (inodes fs) = set (open_inodes fs)" using t by (simp add: table_ok_def)
  then show "dom (inodes fs') = set (open_inodes fs')" using p by (auto simp: fs')
  show "distinct (open_inodes fs')" using table_okD(1) [OF t] by (simp add: fs')
  show "\<not> in_lock i \<and> 0 < open_cnt i" if "inodes fs' q = Some i" for q i
    using that n table_okD(3,4) [OF t] by (auto simp: fs' split: if_splits)
  show "q = r" if "inodes fs' q = Some i" "inodes fs' r = Some j" "in_sector i = in_sector j" for q r i j
    using that n(1) table_okD(5) [OF t] p by (auto simp: fs' split: if_splits)
qed

lemma find_open_Some:
  "find_open m s ps = Some (Some p) \<Longrightarrow> p \<in> set ps \<and> (\<exists>ino. m p = Some ino \<and> in_sector ino = s)"
  by (induction ps) (auto simp: bind_eq_Some_conv split: if_splits)

lemma find_open_None:
  "find_open m s ps = Some None \<Longrightarrow> p \<in> set ps \<Longrightarrow> m p = Some ino \<Longrightarrow> in_sector ino \<noteq> s"
  by (induction ps) (auto simp: bind_eq_Some_conv split: if_splits)

lemma find_open_total: "set ps \<subseteq> dom m \<Longrightarrow> \<exists>r. find_open m s ps = Some r"
  by (induction ps) auto

lemma find_open_table:
  assumes "table_ok fs"
  shows "find_open (inodes fs) s (open_inodes fs) =
    Some (if \<exists>p ino. inodes fs p = Some ino \<and> in_sector ino = s
          then Some (THE p. \<exists>ino. inodes fs p = Some ino \<and> in_sector ino = s) else None)"
proof -
  obtain r where r: "find_open (inodes fs) s (open_inodes fs) = Some r"
    using find_open_total [of "open_inodes fs" "inodes fs"] table_okD(2) [OF assms] by blast
  show ?thesis
  proof (cases r)
    case None
    then show ?thesis using r find_open_None [of "inodes fs" s "open_inodes fs"] table_okD(2) [OF assms] by fastforce
  next
    case (Some p)
    then obtain ino where p: "inodes fs p = Some ino" "in_sector ino = s" using r find_open_Some by blast
    then have "(THE p. \<exists>ino. inodes fs p = Some ino \<and> in_sector ino = s) = p"
      using table_okD(5) [OF assms] by (intro the_equality) blast+
    then show ?thesis using r Some p by auto
  qed
qed

lemma find_open_hit:
  assumes "table_ok fs" "inodes fs p = Some ino"
  shows "find_open (inodes fs) (in_sector ino) (open_inodes fs) = Some (Some p)"
proof -
  have "(THE q. \<exists>i. inodes fs q = Some i \<and> in_sector i = in_sector ino) = p"
    using assms(2) table_okD(5) [OF assms(1)] by (intro the_equality) blast+
  then show ?thesis using find_open_table [OF assms(1), of "in_sector ino"] assms(2) by auto
qed

lemma find_open_miss:
  assumes "table_ok fs" "\<And>p ino. inodes fs p = Some ino \<Longrightarrow> in_sector ino \<noteq> s"
  shows "find_open (inodes fs) s (open_inodes fs) = Some None"
  using find_open_table [OF assms(1), of s] assms(2) by auto

section \<open>Opening\<close>

lemma open_unlocked: "\<not> in_lock ino \<Longrightarrow> ino\<lparr>open_cnt := n, in_lock := False\<rparr> = ino\<lparr>open_cnt := n\<rparr>"
  by (cases ino) simp

lemma inode_open_again:
  assumes t: "table_ok fs" and p: "inodes fs p = Some ino"
  shows "inode_open ops (in_sector ino) m fs = Some (Some p, set_inode p (ino\<lparr>open_cnt := open_cnt ino + 1\<rparr>) fs)"
    and "table_ok (set_inode p (ino\<lparr>open_cnt := open_cnt ino + 1\<rparr>) fs)"
proof -
  note l = table_okD(3,4) [OF t p]
  show "inode_open ops (in_sector ino) m fs = Some (Some p, set_inode p (ino\<lparr>open_cnt := open_cnt ino + 1\<rparr>) fs)"
    using open_unlocked [OF l(1)] by (simp add: inode_open_def find_open_hit [OF t p] inode_reopen_def
        acquire_inode_free [OF p l(1)] release_inode_def set_inode_def)
  show "table_ok (set_inode p (ino\<lparr>open_cnt := open_cnt ino + 1\<rparr>) fs)"
    by (rule table_ok_update [OF t p]) (use l in simp_all)
qed

lemma inode_open_fresh:
  assumes t: "table_ok fs" and miss: "\<And>p ino. inodes fs p = Some ino \<Longrightarrow> in_sector ino \<noteq> s"
    and c: "cache_ok (fs_dev ops) (fs_cache fs)" "s \<noteq> no_sector" and p: "inodes fs p = None"
  shows "\<exists>c'. inode_open ops s (Some p) fs = Some (Some p, set_inode p
      \<lparr>in_sector = s, open_cnt = 1, removed = False, deny_write_cnt = 0, in_lock = False,
       in_data = decode_inode (fs_view ops fs s)\<rparr> (fs\<lparr>fs_cache := c', open_inodes := p # open_inodes fs\<rparr>)) \<and>
    cache_ok (fs_dev ops) c' \<and> (\<forall>t. t \<noteq> no_sector \<longrightarrow> cache_view (fs_dev ops) c' t = fs_view ops fs t) \<and>
    table_ok (set_inode p
      \<lparr>in_sector = s, open_cnt = 1, removed = False, deny_write_cnt = 0, in_lock = False,
       in_data = decode_inode (fs_view ops fs s)\<rparr> (fs\<lparr>fs_cache := c', open_inodes := p # open_inodes fs\<rparr>))"
proof -
  let ?ino = "\<lparr>in_sector = s, open_cnt = 1, removed = False, deny_write_cnt = 0, in_lock = False,
       in_data = decode_inode (fs_view ops fs s)\<rparr>"
  obtain c' where rd: "cache_read (fs_dev ops) s 512 0 [] (fs_cache fs) =
      Some (take (nat 512) (drop (nat 0) (fs_view ops fs s)), c')"
    "cache_ok (fs_dev ops) c'" "\<And>t. t \<noteq> no_sector \<Longrightarrow> cache_view (fs_dev ops) c' t = fs_view ops fs t"
    using cache_store.rd_spec [OF c, of 512 0] by auto
  let ?fs' = "set_inode p ?ino (fs\<lparr>fs_cache := c', open_inodes := p # open_inodes fs\<rparr>)"
  have "length (fs_view ops fs s) = 512" by (rule cache_store.view_length [OF c])
  then have open_eq: "inode_open ops s (Some p) fs = Some (Some p, ?fs')"
    using rd(1) by (simp add: inode_open_def find_open_miss [OF t miss] Let_def)
  have "table_ok ?fs'"
  proof (rule table_okI)
    have "p \<notin> set (open_inodes fs)" using table_okD(2) [OF t] p by simp
    then show "distinct (open_inodes ?fs')" using table_okD(1) [OF t] by simp
    have "dom (inodes fs) = set (open_inodes fs)" using t by (simp add: table_ok_def)
    then show "dom (inodes ?fs') = set (open_inodes ?fs')" by simp
    show "\<not> in_lock i \<and> 0 < open_cnt i" if "inodes ?fs' q = Some i" for q i
      using that table_okD(3,4) [OF t] by (auto split: if_splits)
    show "q = r" if "inodes ?fs' q = Some i" "inodes ?fs' r = Some j" "in_sector i = in_sector j" for q r i j
      using that miss [of q i] miss [of r j] table_okD(5) [OF t] by (auto split: if_splits)
  qed
  then show ?thesis using open_eq rd(2,3) by auto
qed

section \<open>Releasing the sectors of a file\<close>

lemma release_keeps_inv:
  assumes "fs_inv ops F fs" "s \<in> used_sectors fs - F"
  shows "\<exists>fs'. free_map_release ops s fs = Some fs' \<and> fs_inv ops F fs' \<and> used_sectors fs' = used_sectors fs - {s} \<and>
    fs.more fs' = fs.more fs \<and> (\<forall>t. t \<notin> F \<longrightarrow> t \<noteq> no_sector \<longrightarrow> fs_view ops fs' t = fs_view ops fs t)"
proof -
  obtain fs' where r: "free_map_release ops s fs = Some fs'" "fm_inv ops F fs'" "used_sectors fs' = used_sectors fs - {s}"
    "\<And>t. t \<notin> F \<Longrightarrow> t \<noteq> no_sector \<Longrightarrow> fs_view ops fs' t = fs_view ops fs t"
    using free_map_release_used [OF fs_inv_fm [OF assms(1)], of s] assms(2) by auto
  have "F \<subseteq> used_sectors fs'" using assms r(3) by (auto simp: fs_inv_def)
  then show ?thesis using r free_map_release_more [OF r(1)] by (auto simp: fs_inv_def)
qed

lemma fs_cache_same [simp]: "fs\<lparr>fs_cache := fs_cache fs\<rparr> = fs"
  by simp

lemma release_sectors_direct:
  assumes d: "direct_inode d" "distinct_sectors d"
    and look: "\<And>k c. k < file_len d \<Longrightarrow> look (int k) c = Some (data_sector d (k div 512), c)"
    and "fs_inv ops F fs" "data_sector d ` {i..<num_sectors d} \<subseteq> used_sectors fs - F"
  shows "\<exists>fs'. release_sectors ops look (int (file_len d)) (int (512 * i)) fs = Some fs' \<and> fs_inv ops F fs' \<and>
    used_sectors fs' = used_sectors fs - data_sector d ` {i..<num_sectors d} \<and> fs.more fs' = fs.more fs \<and>
    (\<forall>t. t \<notin> F \<longrightarrow> t \<noteq> no_sector \<longrightarrow> fs_view ops fs' t = fs_view ops fs t)"
  using assms(4,5)
proof (induction "num_sectors d - i" arbitrary: i fs)
  case 0
  then have "num_sectors d \<le> i" by simp
  then have "file_len d \<le> 512 * i" unfolding num_sectors_def by linarith
  moreover have "{i..<num_sectors d} = {}" using \<open>num_sectors d \<le> i\<close> by simp
  ultimately show ?case using 0 by (subst release_sectors.simps) simp
next
  case (Suc n)
  then have i: "i < num_sectors d" by simp
  then have lt: "512 * i < file_len d" unfolding num_sectors_def by linarith
  have lk: "look (int (512 * i)) c = Some (data_sector d i, c)" for c using look [OF lt] by simp
  have s: "data_sector d i \<in> used_sectors fs - F" by (rule subsetD [OF Suc.prems(2) imageI]) (simp add: i)
  obtain fs1 where r: "free_map_release ops (data_sector d i) fs = Some fs1" "fs_inv ops F fs1"
    "used_sectors fs1 = used_sectors fs - {data_sector d i}" "fs.more fs1 = fs.more fs"
    "\<And>t. t \<notin> F \<Longrightarrow> t \<noteq> no_sector \<Longrightarrow> fs_view ops fs1 t = fs_view ops fs t"
    using release_keeps_inv [OF Suc.prems(1) s] by blast
  have split: "{i..<num_sectors d} = insert i {Suc i..<num_sectors d}" using i by auto
  have "data_sector d i \<notin> data_sector d ` {Suc i..<num_sectors d}"
  proof
    assume "data_sector d i \<in> data_sector d ` {Suc i..<num_sectors d}"
    then obtain j where "j \<in> {Suc i..<num_sectors d}" "data_sector d i = data_sector d j" by blast
    moreover from this have "i = j" using inj_onD [OF d(2) [unfolded distinct_sectors_def], of i j] i by simp
    ultimately show False by simp
  qed
  then have rest: "data_sector d ` {Suc i..<num_sectors d} \<subseteq> used_sectors fs1 - F"
    using Suc.prems(2) unfolding split r(3) by blast
  have "n = num_sectors d - Suc i" using Suc.hyps(2) by simp
  from Suc.hyps(1) [OF this r(2) rest] obtain fs' where
    f: "release_sectors ops look (int (file_len d)) (int (512 * Suc i)) fs1 = Some fs'" "fs_inv ops F fs'"
    "used_sectors fs' = used_sectors fs1 - data_sector d ` {Suc i..<num_sectors d}" "fs.more fs' = fs.more fs1"
    "\<And>t. t \<notin> F \<Longrightarrow> t \<noteq> no_sector \<Longrightarrow> fs_view ops fs' t = fs_view ops fs1 t" by blast
  have "release_sectors ops look (int (file_len d)) (int (512 * i)) fs = Some fs'"
  proof -
    have e: "int (512 * i) + 512 = int (512 * Suc i)" and g: "int (512 * i) < int (file_len d)" using lt by simp_all
    show ?thesis by (subst release_sectors.simps) (simp only: if_P [OF g] lk bind.bind_lunit prod.case fs_cache_same r(1) e f(1))
  qed
  moreover have "used_sectors fs' = used_sectors fs - data_sector d ` {i..<num_sectors d}"
    unfolding f(3) r(3) split by auto
  ultimately show ?case using f(2,4,5) r(4,5) by auto
qed

section \<open>Closing\<close>

lemma inode_close_shared:
  assumes t: "table_ok fs" and p: "inodes fs p = Some ino" "1 < open_cnt ino"
  shows "inode_close ops (Some p) fs = Some (set_inode p (ino\<lparr>open_cnt := open_cnt ino - 1\<rparr>) fs)"
    and "table_ok (set_inode p (ino\<lparr>open_cnt := open_cnt ino - 1\<rparr>) fs)"
proof -
  note l = table_okD(3) [OF t p(1)]
  show "inode_close ops (Some p) fs = Some (set_inode p (ino\<lparr>open_cnt := open_cnt ino - 1\<rparr>) fs)"
    using p(2) open_unlocked [OF l]
    by (simp add: inode_close_def acquire_inode_free [OF p(1) l] Let_def release_inode_def set_inode_def)
  show "table_ok (set_inode p (ino\<lparr>open_cnt := open_cnt ino - 1\<rparr>) fs)"
    by (rule table_ok_update [OF t p(1)]) (use l p(2) in simp_all)
qed

lemma table_ok_drop:
  assumes t: "table_ok fs" and fs': "open_inodes fs' = remove1 p (open_inodes fs)" "inodes fs' = (inodes fs)(p := None)"
  shows "table_ok fs'"
proof (rule table_okI)
  show "distinct (open_inodes fs')" using table_okD(1) [OF t] by (simp add: fs' distinct_remove1)
  have "dom (inodes fs) = set (open_inodes fs)" using t by (simp add: table_ok_def)
  then show "dom (inodes fs') = set (open_inodes fs')" using table_okD(1) [OF t] by (auto simp: fs')
  show "\<not> in_lock i \<and> 0 < open_cnt i" if "inodes fs' q = Some i" for q i
    using that table_okD(3,4) [OF t] by (auto simp: fs' split: if_splits)
  show "q = r" if "inodes fs' q = Some i" "inodes fs' r = Some j" "in_sector i = in_sector j" for q r i j
    using that table_okD(5) [OF t] by (auto simp: fs' split: if_splits)
qed

lemma inode_close_last_kept:
  assumes t: "table_ok fs" and p: "inodes fs p = Some ino" "open_cnt ino = 1" "\<not> removed ino"
  shows "inode_close ops (Some p) fs = Some (fs\<lparr>inodes := (inodes fs)(p := None), open_inodes := remove1 p (open_inodes fs)\<rparr>)"
    and "table_ok (fs\<lparr>inodes := (inodes fs)(p := None), open_inodes := remove1 p (open_inodes fs)\<rparr>)"
proof -
  note l = table_okD(3) [OF t p(1)]
  show "inode_close ops (Some p) fs = Some (fs\<lparr>inodes := (inodes fs)(p := None), open_inodes := remove1 p (open_inodes fs)\<rparr>)"
    using p(2,3) by (simp add: inode_close_def acquire_inode_free [OF p(1) l] Let_def set_inode_def)
  show "table_ok (fs\<lparr>inodes := (inodes fs)(p := None), open_inodes := remove1 p (open_inodes fs)\<rparr>)"
    by (rule table_ok_drop [OF t]) simp_all
qed

lemma inode_close_last_removed:
  assumes t: "table_ok fs" and p: "inodes fs p = Some ino" "open_cnt ino = 1" "removed ino"
    and inv: "fs_inv ops F fs" and d: "file_ok ops F fs (in_data ino)"
    and s: "in_sector ino \<in> used_sectors fs - F" "in_sector ino \<notin> data_sectors (in_data ino)"
  shows "\<exists>fs'. inode_close ops (Some p) fs = Some fs' \<and> fs_inv ops F fs' \<and> table_ok fs' \<and>
    inodes fs' = (inodes fs)(p := None) \<and>
    used_sectors fs' = used_sectors fs - {in_sector ino} - data_sectors (in_data ino) \<and>
    (\<forall>t. t \<notin> F \<longrightarrow> t \<noteq> no_sector \<longrightarrow> fs_view ops fs' t = fs_view ops fs t)"
proof -
  note l = table_okD(3) [OF t p(1)]
  let ?d = "in_data ino" and ?ino = "ino\<lparr>in_lock := True, open_cnt := 0\<rparr>"
  let ?fs2 = "(set_inode p ?ino (set_inode p (ino\<lparr>in_lock := True\<rparr>) fs))\<lparr>open_inodes := remove1 p (open_inodes fs)\<rparr>"
  have same2: "fs_inv ops F ?fs2" "used_sectors ?fs2 = used_sectors fs" "fs_view ops ?fs2 = fs_view ops fs"
    using inv by (simp_all add: fs_inv_def fm_inv_def used_sectors_def)
  obtain fs3 where r: "free_map_release ops (in_sector ino) ?fs2 = Some fs3" "fs_inv ops F fs3"
    "used_sectors fs3 = used_sectors ?fs2 - {in_sector ino}" "fs.more fs3 = fs.more ?fs2"
    "\<And>t. t \<notin> F \<Longrightarrow> t \<noteq> no_sector \<Longrightarrow> fs_view ops fs3 t = fs_view ops ?fs2 t"
    using release_keeps_inv [OF same2(1), of "in_sector ino"] s(1) unfolding same2(2) by blast
  have di: "direct_inode ?d" "distinct_sectors ?d" using d by (simp_all add: file_ok_def)
  have look: "byte_to_sector (fs_dev ops) ?ino (int k) c = Some (data_sector ?d (k div 512), c)"
    if "k < file_len ?d" for k c
    using byte_to_sector_disk_direct [OF di(1) that] by (simp add: byte_to_sector_def)
  have ds: "data_sector ?d ` {0..<num_sectors ?d} = data_sectors ?d" by (simp add: data_sectors_def atLeast0LessThan)
  have sub: "data_sector ?d ` {0..<num_sectors ?d} \<subseteq> used_sectors fs3 - F"
    unfolding ds r(3) same2(2) using data_sectors_used [OF d] s(2) by auto
  obtain fs4 where f: "release_sectors ops (byte_to_sector (fs_dev ops) ?ino) (int (file_len ?d)) (int (512 * 0)) fs3 = Some fs4"
    "fs_inv ops F fs4" "used_sectors fs4 = used_sectors fs3 - data_sectors ?d" "fs.more fs4 = fs.more fs3"
    "\<And>t. t \<notin> F \<Longrightarrow> t \<noteq> no_sector \<Longrightarrow> fs_view ops fs4 t = fs_view ops fs3 t"
    using release_sectors_direct [of ?d "byte_to_sector (fs_dev ops) ?ino", OF di look r(2) sub] unfolding ds by blast
  let ?fs' = "fs4\<lparr>inodes := (inodes fs4)(p := None)\<rparr>"
  have mo: "inodes fs4 = inodes ?fs2 \<and> open_inodes fs4 = open_inodes ?fs2"
    using same_more [of fs4 ?fs2] f(4) r(4) by simp
  have il: "id_length ?d = int (file_len ?d)" by (rule direct_inode_length [OF di(1)])
  have "inode_close ops (Some p) fs = Some ?fs'"
    using p(2,3) r(1) f(1) il by (simp add: inode_close_def acquire_inode_free [OF p(1) l] Let_def)
  moreover have "table_ok ?fs'" by (rule table_ok_drop [OF t]) (simp_all add: mo)
  moreover have "fs_inv ops F ?fs'" using f(2) by (simp add: fs_inv_def fm_inv_def used_sectors_def)
  moreover have "used_sectors ?fs' = used_sectors fs - {in_sector ino} - data_sectors ?d"
    using f(3) r(3) same2(2) by (simp add: used_sectors_def)
  ultimately show ?thesis using mo f(5) r(5) same2(3) by (intro exI [of _ ?fs']) simp
qed

section \<open>Creation\<close>

text \<open>A new file of \<open>len\<close> zero bytes, its inode written to sector \<open>s\<close>.\<close>

definition created :: "'d fs_ops \<Rightarrow> sector set \<Rightarrow> ('d, 'z) fs_scheme \<Rightarrow> sector \<Rightarrow> nat \<Rightarrow> inode_disk \<Rightarrow>
    ('d, 'z) fs_scheme \<Rightarrow> bool" where
  "created ops F fs s len d fs' \<longleftrightarrow>
     file_ok ops F fs' d \<and> file_bytes (fs_dev ops) (fs_cache fs') d = replicate len 0 \<and>
     decode_inode (fs_view ops fs' s) = d \<and> s \<notin> data_sectors d \<and> data_sectors d \<inter> used_sectors fs = {} \<and>
     used_sectors fs' = used_sectors fs \<union> data_sectors d \<and>
     (\<forall>t \<in> used_sectors fs - F - {s}. t \<noteq> no_sector \<longrightarrow> fs_view ops fs' t = fs_view ops fs t)"

abbreviation new_disk :: inode_disk where
  "new_disk \<equiv> \<lparr>id_length = 0, id_magic = INODE_MAGIC, direct = replicate 188 0, indirect = replicate NUM_INDIRECT 0\<rparr>"

lemma new_disk_ok: "file_ok ops F fs new_disk" "data_sectors new_disk = {}" "file_len new_disk = 0"
  by (simp_all add: file_ok_def direct_inode_def distinct_sectors_def data_sectors_def file_len_def num_sectors_def)

lemma length_zero_bytes: "file_bytes bd c d = replicate n 0 \<Longrightarrow> file_len d = n"
  by (metis length_file_bytes length_replicate)

lemma inode_create_spec:
  assumes inv: "fs_inv ops F fs" and s: "s \<in> used_sectors fs - F" "s \<noteq> no_sector" and len: "len \<le> DIRECT_BYTES"
  shows "\<exists>ok fs'. inode_create ops s (int len) True fs = Some (ok, fs') \<and> fs_inv ops F fs' \<and> fs.more fs' = fs.more fs \<and>
    (if ok then \<exists>d. created ops F fs s len d fs' else used_sectors fs' = used_sectors fs)"
proof -
  note d0 = new_disk_ok(1) [where ops = ops and F = F and fs = fs] new_disk_ok(2,3)
  obtain d fs1 where e: "extend_disk ops new_disk (int len) fs = Some (id_length d, d, fs1)"
    "grows_to ops F new_disk fs d fs1" "file_len d \<le> max len (file_len new_disk)"
    using extend_disk_direct [OF inv d0(1) len] by blast
  note g = grows_toD [OF e(2)]
  have il: "id_length d = int (file_len d)" by (rule direct_inode_length [OF file_ok_direct [OF g(2)]])
  have fresh: "data_sectors d \<inter> used_sectors fs = {}" using g(8) d0(2) by auto
  have sh: "length (direct d) = 188" "length (indirect d) = 64" "fs.more fs1 = fs.more fs"
    using extend_disk_shape [OF e(1)] by (simp_all add: same_shape_def)
  show ?thesis
  proof (cases "file_len d < len")
    case True
    have dd: "direct_inode d" "distinct_sectors d" using g(2) by (simp_all add: file_ok_def)
    have ds: "data_sector d ` {0..<num_sectors d} = data_sectors d" by (simp add: data_sectors_def atLeast0LessThan)
    have sub: "data_sector d ` {0..<num_sectors d} \<subseteq> used_sectors fs1 - F"
      unfolding ds by (rule data_sectors_used [OF g(2)])
    obtain fs2 where f: "release_sectors ops (byte_to_sector_disk (fs_dev ops) d) (int (file_len d)) (int (512 * 0)) fs1 = Some fs2"
      "fs_inv ops F fs2" "used_sectors fs2 = used_sectors fs1 - data_sectors d" "fs.more fs2 = fs.more fs1"
      using release_sectors_direct [of d "byte_to_sector_disk (fs_dev ops) d",
          OF dd byte_to_sector_disk_direct [OF dd(1)] g(1) sub] unfolding ds by blast
    have "inode_create ops s (int len) True fs = Some (False, fs2)"
      using e(1) f(1) True il by (simp add: inode_create_def Let_def)
    moreover have "used_sectors fs2 = used_sectors fs" using f(3) g(6) fresh by auto
    ultimately show ?thesis using f(2,4) sh(3) by auto
  next
    case False
    then have L: "file_len d = len" using e(3) d0(3) by simp
    have "length (encode_inode d) = 512" by (rule length_encode_inode [OF sh(1,2)])
    then obtain c where w: "cache_write (fs_dev ops) s (encode_inode d) 512 0 [] (fs_cache fs1) = Some c"
      "cache_ok (fs_dev ops) c" "\<And>t. t \<noteq> no_sector \<Longrightarrow> cache_view (fs_dev ops) c t =
         (if t = s then memcpy_at (nat 0) (take (nat 512) (encode_inode d)) (fs_view ops fs1 s) else fs_view ops fs1 t)"
      using cache_store.wr_spec [OF fs_inv_cache [OF g(1)] s(2), of 512 0 "encode_inode d"] by auto
    have vs: "cache_view (fs_dev ops) c s = encode_inode d"
      using w(3) [OF s(2)] length_encode_inode [OF sh(1,2)] cache_store.view_length [OF fs_inv_cache [OF g(1)] s(2)]
      by simp
    have ns: "s \<notin> data_sectors d" using fresh s(1) by auto
    let ?fs' = "fs1\<lparr>fs_cache := c\<rparr>"
    have fb: "fs_byte ops ?fs' d j = fs_byte ops fs1 d j" if "j div 512 < num_sectors d" for j
      by (rule file_byte_frame [of d "data_sectors d", OF subset_refl that]) (use w(3) ns in auto)
    have "created ops F fs s len d ?fs'"
      unfolding created_def
    proof (intro conjI ballI impI)
      show "file_ok ops F ?fs' d" using g(2) fb by (simp add: file_ok_def)
      show "file_bytes (fs_dev ops) (fs_cache ?fs') d = replicate len 0"
        using fb g(4) sector_index [of _ d] d0(3) by (intro nth_equalityI) (simp_all add: L file_bytes_def)
      have "id_length d < 2 ^ 31" using L len il by simp
      then show "decode_inode (fs_view ops ?fs' s) = d" using decode_encode [of d] sh il vs by simp
      show "s \<notin> data_sectors d" "data_sectors d \<inter> used_sectors fs = {}" by fact+
      show "used_sectors ?fs' = used_sectors fs \<union> data_sectors d" using g(6) by simp
      show "fs_view ops ?fs' t = fs_view ops fs t" if "t \<in> used_sectors fs - F - {s}" "t \<noteq> no_sector" for t
        using w(3) g(7) that by simp
    qed
    moreover have "inode_create ops s (int len) True fs = Some (True, ?fs')"
      using e(1) w(1) L il by (simp add: inode_create_def Let_def)
    moreover have "fs_inv ops F ?fs'" by (rule fs_inv_cache_upd [OF g(1) w(2)])
    ultimately show ?thesis using sh(3) by auto
  qed
qed

text \<open>Opening the new file finds it: its bytes are zeros.\<close>

lemma create_open_spec:
  assumes inv: "fs_inv ops F fs" and t: "table_ok fs" and s: "s \<in> used_sectors fs - F" "s \<noteq> no_sector" and len: "len \<le> DIRECT_BYTES"
    and miss: "\<And>q ino. inodes fs q = Some ino \<Longrightarrow> in_sector ino \<noteq> s" and p: "inodes fs p = None"
    and create: "inode_create ops s (int len) True fs = Some (True, fs1)"
  shows "\<exists>ino fs2. inode_open ops s (Some p) fs1 = Some (Some p, fs2) \<and> table_ok fs2 \<and> fs_inv ops F fs2 \<and>
    inodes fs2 p = Some ino \<and> file_ok ops F fs2 (in_data ino) \<and>
    file_bytes (fs_dev ops) (fs_cache fs2) (in_data ino) = replicate len 0"
proof -
  obtain d where c: "created ops F fs s len d fs1" "fs_inv ops F fs1" "fs.more fs1 = fs.more fs"
    using inode_create_spec [OF inv s len] create by auto
  note mo = same_more [OF c(3)]
  have t1: "table_ok fs1" using t mo by (simp add: table_ok_def)
  let ?ino = "\<lparr>in_sector = s, open_cnt = 1, removed = False, deny_write_cnt = 0, in_lock = False,
       in_data = decode_inode (fs_view ops fs1 s)\<rparr>"
  obtain c' where o: "inode_open ops s (Some p) fs1 = Some (Some p, set_inode p ?ino (fs1\<lparr>fs_cache := c', open_inodes := p # open_inodes fs1\<rparr>))"
    "cache_ok (fs_dev ops) c'" "\<And>t. t \<noteq> no_sector \<Longrightarrow> cache_view (fs_dev ops) c' t = fs_view ops fs1 t"
    "table_ok (set_inode p ?ino (fs1\<lparr>fs_cache := c', open_inodes := p # open_inodes fs1\<rparr>))"
    using inode_open_fresh [OF t1 _ fs_inv_cache [OF c(2)] s(2), of p] miss p mo by metis
  let ?fs2 = "set_inode p ?ino (fs1\<lparr>fs_cache := c', open_inodes := p # open_inodes fs1\<rparr>)"
  have d: "decode_inode (fs_view ops fs1 s) = d" using c(1) by (simp add: created_def)
  have fb: "file_byte (fs_dev ops) c' d = fs_byte ops fs1 d" by (rule file_byte_cong) (rule o(3))
  have "fs_inv ops F ?fs2" using c(2) o(2) by (simp add: fs_inv_def fm_inv_def used_sectors_def)
  moreover have us: "used_sectors ?fs2 = used_sectors fs1" by (simp add: used_sectors_def)
  have "file_ok ops F fs1 d" using c(1) by (simp add: created_def)
  then have "file_ok ops F ?fs2 d" unfolding file_ok_def us by (simp add: fb)
  moreover have "file_bytes (fs_dev ops) (fs_cache ?fs2) d = replicate len 0"
    using c(1) fb by (simp add: created_def file_bytes_def)
  ultimately show ?thesis using o(1,4) d by (intro exI [of _ ?ino] exI [of _ ?fs2]) simp
qed

end
