(* ===== verification/Inode_Properties.thy ===== *)
theory Inode_Properties
  imports Inode_Table
begin

text \<open>
  The properties of the file system below the directories: the free map, reading, writing,
  creating, opening and closing files, and the two places where \<open>inode.c\<close> does not do what
  it means to: growth beyond the direct indices, and the length of a file that is closed.
\<close>

section \<open>A small file system\<close>

text \<open>
  A device in memory with twelve sectors, of which the first two are used; the bitmap file
  accepts every write. The properties are applied to it.
\<close>

definition ram_ops :: "(sector \<Rightarrow> byte list) fs_ops" where
  "ram_ops = \<lparr>fs_dev = ram_disk, bitmap_create = \<lambda>n. Some (replicate n False),
     bitmap_mark = \<lambda>b i. b[i := True],
     bitmap_scan_and_flip = \<lambda>b start cnt v.
       (case first_index (\<lambda>x. x = v) b of None \<Rightarrow> (None, b) | Some i \<Rightarrow> (Some i, b[i := \<not> v])),
     bitmap_set_multiple = \<lambda>b i cnt v. b[i := v], bitmap_all = \<lambda>b i cnt. b ! i,
     bitmap_write = \<lambda>b c. (True, c), bitmap_read = \<lambda>b c. (True, b, c),
     bitmap_file_size = \<lambda>b. int (length b)\<rparr>"

definition ram_fs :: "(sector \<Rightarrow> byte list) inode_fs" where
  "ram_fs = \<lparr>fs_cache = cache_init blank_disk, free_map = True # True # replicate 10 False, free_map_file = True,
     open_inodes = [], inodes = Map.empty\<rparr>"

lemma ram_ops_ok: "bitmap_ok ram_ops" "fm_file_ok ram_ops F" "fs_dev ram_ops = ram_disk"
  by (simp_all add: ram_ops_def bitmap_ok_def fm_file_ok_def)

lemma ram_fs_inv: "fm_inv ram_ops {} ram_fs" "fs_inv ram_ops {} ram_fs" "table_ok ram_fs"
  using ram_ops_ok blank_cache_ok by (simp_all add: fs_inv_def fm_inv_def ram_fs_def table_ok_def)

text \<open>A file of 600 bytes in the sectors 2 and 3, whose inode is in sector 1, open at address 7.\<close>

definition ram_file :: inode_disk where
  "ram_file = \<lparr>id_length = 600, id_magic = INODE_MAGIC, direct = 2 # 3 # replicate 186 0, indirect = replicate 64 0\<rparr>"

definition ram_inode :: inode where
  "ram_inode = \<lparr>in_sector = 1, open_cnt = 1, removed = False, deny_write_cnt = 0, in_lock = False, in_data = ram_file\<rparr>"

definition ram_open :: "(sector \<Rightarrow> byte list) inode_fs" where
  "ram_open = ram_fs\<lparr>free_map := replicate 4 True @ replicate 8 False, open_inodes := [7], inodes := [7 \<mapsto> ram_inode]\<rparr>"

lemma ram_file_sectors:
  "file_len ram_file = 600" "num_sectors ram_file = 2" "data_sector ram_file 0 = 2" "data_sector ram_file (Suc 0) = 3"
  "data_sectors ram_file = {2, 3}"
proof -
  show l: "file_len ram_file = 600" "num_sectors ram_file = 2" "data_sector ram_file 0 = 2" "data_sector ram_file (Suc 0) = 3"
    by (simp_all add: ram_file_def file_len_def num_sectors_def data_sector_def)
  show "data_sectors ram_file = {2, 3}" using l by (auto simp: data_sectors_def lessThan_nat_numeral)
qed

lemma ram_fs_view: "s \<noteq> no_sector \<Longrightarrow> cache_view ram_disk (cache_init blank_disk) s = replicate 512 0"
  using coherent_cache_init [OF ram_disk_ok(2)] by (simp add: blank_disk_def)

lemma ram_file_byte: "k div 512 < 2 \<Longrightarrow> file_byte ram_disk (cache_init blank_disk) ram_file k = 0"
  by (simp add: file_byte_def ram_fs_view)

lemma ram_file_bytes: "file_bytes ram_disk (cache_init blank_disk) ram_file = replicate 600 0"
  by (rule nth_equalityI) (simp_all add: file_bytes_def ram_file_sectors(1) ram_file_byte)

lemma ram_open_inv:
  "fs_inv ram_ops {} ram_open" "table_ok ram_open" "inodes ram_open 7 = Some ram_inode" "\<not> in_lock ram_inode"
  "deny_write_cnt ram_inode = 0" "file_ok ram_ops {} ram_open (in_data ram_inode)"
proof -
  show "fs_inv ram_ops {} ram_open" "table_ok ram_open" "inodes ram_open 7 = Some ram_inode" "\<not> in_lock ram_inode"
    "deny_write_cnt ram_inode = 0"
    using ram_fs_inv by (simp_all add: ram_open_def fs_inv_def fm_inv_def table_ok_def ram_inode_def)
  have "direct_inode ram_file" using ram_file_sectors(1) by (simp add: direct_inode_def ram_file_def)
  moreover have "distinct_sectors ram_file"
    using ram_file_sectors by (auto simp: distinct_sectors_def inj_on_def lessThan_nat_numeral)
  moreover have "data_sectors ram_file \<subseteq> used_sectors ram_open"
    by (simp add: ram_file_sectors used_sectors_def ram_open_def nth_append)
  moreover have "fs_byte ram_ops ram_open ram_file k = 0" if "k div 512 < 2" for k
    using ram_file_byte [OF that] by (simp add: ram_open_def ram_fs_def ram_ops_ok)
  ultimately show "file_ok ram_ops {} ram_open (in_data ram_inode)"
    by (simp add: file_ok_def ram_inode_def ram_file_sectors)
qed

text \<open>The disk after its first sectors were cleared: sector 1 holds an empty file, open at address 7.\<close>

definition ram_fresh_inode :: inode where
  "ram_fresh_inode = \<lparr>in_sector = 1, open_cnt = 1, removed = False, deny_write_cnt = 0, in_lock = False,
     in_data = decode_inode (replicate 512 0)\<rparr>"

definition ram_fresh :: "(sector \<Rightarrow> byte list) inode_fs" where
  "ram_fresh = ram_fs\<lparr>open_inodes := [7], inodes := [7 \<mapsto> ram_fresh_inode]\<rparr>"

lemma decode_zeros: "id_length (decode_inode (replicate 512 0)) = 0" "length (direct (decode_inode bs)) = 188"
  by (simp_all add: decode_inode_def eval_nat_numeral)

lemma ram_fresh_inv:
  "fs_inv ram_ops {} ram_fresh" "table_ok ram_fresh" "inodes ram_fresh 7 = Some ram_fresh_inode"
  "open_cnt ram_fresh_inode = 1" "\<not> removed ram_fresh_inode" "deny_write_cnt ram_fresh_inode = 0"
  "file_ok ram_ops {} ram_fresh (in_data ram_fresh_inode)"
  "in_sector ram_fresh_inode \<in> used_sectors ram_fresh - {} - data_sectors (in_data ram_fresh_inode)"
  "in_sector ram_fresh_inode \<noteq> no_sector"
  "decode_inode (fs_view ram_ops ram_fresh (in_sector ram_fresh_inode)) = in_data ram_fresh_inode"
proof -
  have z: "file_len (decode_inode (replicate 512 0)) = 0" "num_sectors (decode_inode (replicate 512 0)) = 0"
    by (simp_all add: file_len_def num_sectors_def decode_zeros)
  then show "file_ok ram_ops {} ram_fresh (in_data ram_fresh_inode)"
    by (simp add: file_ok_def ram_fresh_inode_def direct_inode_def decode_zeros distinct_sectors_def data_sectors_def)
  show "in_sector ram_fresh_inode \<in> used_sectors ram_fresh - {} - data_sectors (in_data ram_fresh_inode)"
    using z by (simp add: ram_fresh_inode_def ram_fresh_def ram_fs_def used_sectors_def data_sectors_def)
  show "decode_inode (fs_view ram_ops ram_fresh (in_sector ram_fresh_inode)) = in_data ram_fresh_inode"
    using ram_fs_view [of 1] by (simp add: ram_fresh_def ram_fs_def ram_fresh_inode_def ram_ops_ok)
qed (use ram_fs_inv in \<open>simp_all add: ram_fresh_def fs_inv_def fm_inv_def table_ok_def ram_fresh_inode_def\<close>)

section \<open>The free map\<close>

text \<open>
  However many sectors are taken from the free map in a row, they are
  different from each other and from every sector in use, and exactly they become used.
\<close>

theorem free_map_allocations_distinct:
  assumes "fm_inv ops F fs" "allocate_n (free_map_allocate ops) n fs = (xs, fs')"
  shows "distinct xs \<and> set xs \<inter> used_sectors fs = {} \<and> used_sectors fs' = used_sectors fs \<union> set xs \<and> length xs \<le> n"
  using fm.allocate_n_distinct [OF assms] by simp

theorem free_map_allocations_distinct_witness:
  "\<exists>xs fs'. allocate_n (free_map_allocate ram_ops) 3 ram_fs = (xs, fs') \<and> distinct xs \<and> length xs \<le> 3"
  using free_map_allocations_distinct [OF ram_fs_inv(1), of 3]
  by (cases "allocate_n (free_map_allocate ram_ops) 3 ram_fs") blast

section \<open>Reading and writing\<close>

text \<open>
  The inode written to its sector is read back as it was.
\<close>

theorem inode_disk_roundtrip:
  assumes "length (direct d) = 188" "length (indirect d) = 64" "- (2 ^ 31) \<le> id_length d" "id_length d < 2 ^ 31"
  shows "decode_inode (encode_inode d) = d \<and> length (encode_inode d) = 512"
  using decode_encode [OF assms] length_encode_inode [OF assms(1,2)] by simp

theorem inode_disk_roundtrip_witness:
  "decode_inode (encode_inode (new_disk\<lparr>id_length := 700\<rparr>)) = new_disk\<lparr>id_length := 700\<rparr>"
  using inode_disk_roundtrip [of "new_disk\<lparr>id_length := 700\<rparr>"] by simp

text \<open>
  C3 (functional): in a file within the direct indices (\<open>file_ok\<close>: at most 188 sectors, 94 KB, as the indirect ones are broken)
  reading \<open>z\<close> bytes at \<open>k\<close> returns the bytes of the file from \<open>k\<close> on, as
  many as there are up to \<open>z\<close>, and leaves the contents of every sector as it is.
\<close>

theorem inode_read_at_correct:
  assumes "fs_inv ops F fs" "inodes fs p = Some ino" "\<not> in_lock ino" "file_ok ops F fs (in_data ino)"
  shows "\<exists>fs'. inode_read_at ops p (int z) (int k) fs =
      Some (take z (drop k (file_bytes (fs_dev ops) (fs_cache fs) (in_data ino))), fs') \<and>
    fs_inv ops F fs' \<and> inodes fs' = inodes fs \<and>
    (\<forall>t. t \<noteq> no_sector \<longrightarrow> fs_view ops fs' t = fs_view ops fs t)"
proof -
  obtain c' where c': "inode_read_at ops p (int z) (int k) fs =
      Some (take z (drop k (file_bytes (fs_dev ops) (fs_cache fs) (in_data ino))),
            release_inode p ino (fs\<lparr>fs_cache := c'\<rparr>))" "cache_ok (fs_dev ops) c'"
    "\<forall>t. t \<noteq> no_sector \<longrightarrow> cache_view (fs_dev ops) c' t = fs_view ops fs t"
    using inode_read_at_spec [OF assms] by blast
  moreover have "fs_inv ops F (release_inode p ino (fs\<lparr>fs_cache := c'\<rparr>))"
    using fs_inv_cache_upd [OF assms(1) c'(2)] by simp
  ultimately show ?thesis using unlocked_same [OF assms(3)] assms(2) by (auto simp: fun_upd_idem)
qed

theorem inode_read_at_correct_witness:
  "\<exists>fs'. inode_read_at ram_ops 7 (int 10) (int 595) ram_open = Some ([0, 0, 0, 0, 0], fs')"
  using inode_read_at_correct [OF ram_open_inv(1,3,4,6), of 10 595]
  by (auto simp: ram_inode_def ram_open_def ram_fs_def ram_ops_ok ram_file_bytes eval_nat_numeral)

text \<open>
  C2 (functional): writing \<open>z\<close> bytes at \<open>k\<close>, within the direct indices, returns; it
  grows the file where needed, filling a gap with zeros, puts the bytes written in their
  place and leaves the other bytes of the file, and every sector in use that is not the
  file's or the free map's, as they are. All \<open>z\<close> bytes are written unless every sector with
  a 16-bit number is in use (or the free map could not be written).
\<close>

theorem inode_write_at_correct:
  assumes "fs_inv ops F fs" "inodes fs p = Some ino" "\<not> in_lock ino" "deny_write_cnt ino = 0"
    and "file_ok ops F fs (in_data ino)" "z \<le> length buf" "k + z \<le> DIRECT_BYTES"
  shows "\<exists>n d fs'. inode_write_at ops p buf (int z) (int k) fs = Some (int n, fs') \<and>
    inodes fs' p = Some (ino\<lparr>in_data := d\<rparr>) \<and> fs_inv ops F fs' \<and> file_ok ops F fs' d \<and>
    file_bytes (fs_dev ops) (fs_cache fs') d =
      map (\<lambda>j. if k \<le> j \<and> j < k + n then buf ! (j - k)
               else if j < file_len (in_data ino) then fs_byte ops fs (in_data ino) j else 0) [0..<file_len d] \<and>
    file_len (in_data ino) \<le> file_len d \<and> file_len d \<le> max (k + z) (file_len (in_data ino)) \<and>
    n = min (k + z) (file_len d) - k \<and> (n = z \<or> short_full ops fs') \<and>
    (\<forall>t \<in> used_sectors fs - F - data_sectors (in_data ino). t \<noteq> no_sector \<longrightarrow> fs_view ops fs' t = fs_view ops fs t)"
proof -
  let ?d = "in_data ino"
  obtain n d fs1 where w: "inode_write_at ops p buf (int z) (int k) fs =
      Some (int n, release_inode p (ino\<lparr>in_data := d\<rparr>) fs1)" "write_result ops F ?d fs k z buf n d fs1"
    using inode_write_at_spec [OF assms] by blast
  let ?fs' = "release_inode p (ino\<lparr>in_data := d\<rparr>) fs1"
  note r = write_resultD [OF w(2)]
  have ino: "inodes ?fs' p = Some (ino\<lparr>in_data := d\<rparr>)" using assms(3) by (cases ino) simp
  have bytes: "overwrite (file_len d) k n buf (file_bytes (fs_dev ops) (fs_cache fs) ?d) =
      map (\<lambda>j. if k \<le> j \<and> j < k + n then buf ! (j - k)
               else if j < file_len ?d then fs_byte ops fs ?d j else 0) [0..<file_len d]"
    by (simp add: overwrite_def file_bytes_def)
  have full: "short_full ops ?fs' = short_full ops fs1" by (simp add: short_full_def)
  show ?thesis
    using w(1) ino r(1-5,7,9) unfolding full [symmetric] bytes
    by (intro exI [of _ n] exI [of _ d] exI [of _ ?fs'] conjI r(6)) simp_all
qed

theorem inode_write_at_correct_witness:
  "\<exists>n d fs'. inode_write_at ram_ops 7 [1, 2, 3] (int 3) (int 700) ram_open = Some (int n, fs') \<and>
     inodes fs' 7 = Some (ram_inode\<lparr>in_data := d\<rparr>) \<and> n \<le> 3 \<and> (n = 3 \<longrightarrow> file_len d = 703) \<and>
     fs_view ram_ops fs' 1 = fs_view ram_ops ram_open 1"
proof -
  have "(1 :: sector) \<in> used_sectors ram_open - {} - data_sectors (in_data ram_inode)"
    by (simp add: ram_inode_def ram_file_sectors used_sectors_def ram_open_def nth_append)
  moreover have "file_len (in_data ram_inode) = 600" by (simp add: ram_inode_def ram_file_sectors)
  moreover obtain n d fs' where w: "inode_write_at ram_ops 7 [1, 2, 3] (int 3) (int 700) ram_open = Some (int n, fs')"
    "inodes fs' 7 = Some (ram_inode\<lparr>in_data := d\<rparr>)" "file_len (in_data ram_inode) \<le> file_len d"
    "file_len d \<le> max (700 + 3) (file_len (in_data ram_inode))" "n = min (700 + 3) (file_len d) - 700"
    "\<forall>t \<in> used_sectors ram_open - {} - data_sectors (in_data ram_inode). t \<noteq> no_sector \<longrightarrow>
       fs_view ram_ops fs' t = fs_view ram_ops ram_open t"
    using inode_write_at_correct [OF ram_open_inv(1,3,4,5,6), of 3 "[1, 2, 3]" 700] by auto
  ultimately have "fs_view ram_ops fs' 1 = fs_view ram_ops ram_open 1" "n \<le> 3" "n = 3 \<longrightarrow> file_len d = 703" by auto
  with w(1,2) show ?thesis by blast
qed

text \<open>
  C9 (roundtrip): in a file within the direct indices that may be written, and up to the end of them (94 KB), the bytes that a write says it has
  written are what a read at the same place returns; and it has written all of them unless every sector with a 16-bit number is in
  use (or the free map could not be written).
\<close>

theorem inode_write_read_roundtrip:
  assumes "fs_inv ops F fs" "inodes fs p = Some ino" "\<not> in_lock ino" "deny_write_cnt ino = 0"
    and "file_ok ops F fs (in_data ino)" "length buf = z" "k + z \<le> DIRECT_BYTES"
  shows "\<exists>n fs1 fs2. inode_write_at ops p buf (int z) (int k) fs = Some (int n, fs1) \<and>
    inode_read_at ops p (int z) (int k) fs1 = Some (take n buf, fs2) \<and> (n = z \<or> short_full ops fs1)"
proof -
  obtain n d fs1 where w: "inode_write_at ops p buf (int z) (int k) fs =
      Some (int n, release_inode p (ino\<lparr>in_data := d\<rparr>) fs1)" "write_result ops F (in_data ino) fs k z buf n d fs1"
    using inode_write_at_spec [OF assms(1-5)] assms(6,7) by blast
  let ?fs = "release_inode p (ino\<lparr>in_data := d\<rparr>) fs1" and ?ino = "ino\<lparr>in_data := d, in_lock := False\<rparr>"
  note r = write_resultD [OF w(2)]
  have "fs_inv ops F ?fs" "inodes ?fs p = Some ?ino" "\<not> in_lock ?ino" "file_ok ops F ?fs (in_data ?ino)"
    using r by simp_all
  from inode_read_at_spec [OF this, of z k] obtain c' where
    "inode_read_at ops p (int z) (int k) ?fs =
      Some (take z (drop k (file_bytes (fs_dev ops) (fs_cache fs1) d)), release_inode p ?ino (?fs\<lparr>fs_cache := c'\<rparr>))"
    by auto
  moreover have "take z (drop k (file_bytes (fs_dev ops) (fs_cache fs1) d)) = take n buf"
  proof (rule nth_equalityI)
    note n = r(6) and fb = r(3)
    show len: "length (take z (drop k (file_bytes (fs_dev ops) (fs_cache fs1) d))) = length (take n buf)"
      using n assms(6) by simp
    fix i assume "i < length (take z (drop k (file_bytes (fs_dev ops) (fs_cache fs1) d)))"
    then have "i < n" "i < z" "k + i < file_len d" using len n by (simp_all add: less_diff_conv add.commute)
    then show "take z (drop k (file_bytes (fs_dev ops) (fs_cache fs1) d)) ! i = take n buf ! i"
      using assms(6) by (simp add: fb overwrite_def)
  qed
  moreover have "n = z \<or> short_full ops ?fs" using r(7) by (simp add: short_full_def)
  ultimately show ?thesis using w(1) by metis
qed

theorem inode_write_read_roundtrip_witness:
  "\<exists>n fs1 fs2. inode_write_at ram_ops 7 [1, 2, 3] (int 3) (int 100) ram_open = Some (int n, fs1) \<and>
     inode_read_at ram_ops 7 (int 3) (int 100) fs1 = Some (take n [1, 2, 3], fs2) \<and> (n = 3 \<or> short_full ram_ops fs1)"
  by (rule inode_write_read_roundtrip [OF ram_open_inv(1,3,4,5,6)]) simp_all

section \<open>Creating, opening, closing\<close>

text \<open>
  C10 (functional): with memory for the inode, creating a file of \<open>len\<close> bytes, at most the 94 KB of the direct indices, either fails and leaves every sector as
  free or used as it was, or leaves an inode that \<open>inode_open\<close> reads back as a proper file
  of \<open>len\<close> zero bytes in sectors that were free before; the table stays in order.
\<close>

theorem inode_create_open:
  assumes "fs_inv ops F fs" "table_ok fs" "s \<in> used_sectors fs - F" "s \<noteq> no_sector" "len \<le> DIRECT_BYTES"
    and "\<And>q ino. inodes fs q = Some ino \<Longrightarrow> in_sector ino \<noteq> s" "inodes fs p = None"
  shows "\<exists>ok fs1. inode_create ops s (int len) True fs = Some (ok, fs1) \<and> fs_inv ops F fs1 \<and>
    (\<not> ok \<longrightarrow> used_sectors fs1 = used_sectors fs) \<and>
    (ok \<longrightarrow> (\<exists>ino fs2. inode_open ops s (Some p) fs1 = Some (Some p, fs2) \<and> table_ok fs2 \<and> fs_inv ops F fs2 \<and>
       inodes fs2 p = Some ino \<and> file_ok ops F fs2 (in_data ino) \<and>
       file_bytes (fs_dev ops) (fs_cache fs2) (in_data ino) = replicate len 0))"
proof -
  obtain ok fs1 where c: "inode_create ops s (int len) True fs = Some (ok, fs1)" "fs_inv ops F fs1"
    "if ok then \<exists>d. created ops F fs s len d fs1 else used_sectors fs1 = used_sectors fs"
    using inode_create_spec [OF assms(1,3,4,5)] by blast
  show ?thesis
  proof (cases ok)
    case True
    then have "inode_create ops s (int len) True fs = Some (True, fs1)" using c(1) by simp
    from create_open_spec [OF assms(1-5) _ assms(7) this] assms(6) show ?thesis using c True by blast
  next
    case False
    with c show ?thesis by auto
  qed
qed

theorem inode_create_open_witness:
  "\<exists>ok fs1. inode_create ram_ops 1 (int 1000) True ram_fs = Some (ok, fs1) \<and> fs_inv ram_ops {} fs1"
  using inode_create_open [OF ram_fs_inv(2,3), of 1 1000 7] by (auto simp: used_sectors_def ram_fs_def)

text \<open>
  Opening the sector of an open inode returns that inode and counts the
  opener; the matching close gives back the very state before. The table keeps one inode per
  sector, unlocked and with a positive count.
\<close>

theorem inode_open_close_shared:
  assumes "table_ok fs" "inodes fs p = Some ino"
  shows "\<exists>fs1. inode_open ops (in_sector ino) m fs = Some (Some p, fs1) \<and> table_ok fs1 \<and>
    inodes fs1 = (inodes fs)(p \<mapsto> ino\<lparr>open_cnt := open_cnt ino + 1\<rparr>) \<and>
    inode_close ops (Some p) fs1 = Some fs"
proof -
  let ?ino = "ino\<lparr>open_cnt := open_cnt ino + 1\<rparr>"
  have t: "table_ok (set_inode p ?ino fs)" by (rule inode_open_again(2) [OF assms])
  have p: "inodes (set_inode p ?ino fs) p = Some ?ino" "1 < open_cnt ?ino"
    using table_okD(4) [OF assms] by simp_all
  have "set_inode p (?ino\<lparr>open_cnt := open_cnt ?ino - 1\<rparr>) (set_inode p ?ino fs) = fs"
    using assms(2) by (cases ino; cases fs) (simp add: set_inode_def fun_upd_idem)
  then show ?thesis using inode_open_again(1) [OF assms] inode_close_shared(1) [OF t p] t by auto
qed

theorem inode_open_close_shared_witness:
  "\<exists>fs1. inode_open ram_ops 1 None ram_open = Some (Some 7, fs1) \<and> inode_close ram_ops (Some 7) fs1 = Some ram_open"
  using inode_open_close_shared [OF ram_open_inv(2,3), of ram_ops None] by (auto simp: ram_inode_def)

text \<open>
  C11 (functional): the last close of a removed file within the direct indices (94 KB) gives its inode sector and all its data
  sectors back to the free map, and nothing else; the inode leaves the table.
\<close>

theorem inode_close_releases:
  assumes "table_ok fs" "inodes fs p = Some ino" "open_cnt ino = 1"
    and "fs_inv ops F fs" "file_ok ops F fs (in_data ino)"
    and "in_sector ino \<in> used_sectors fs - F" "in_sector ino \<notin> data_sectors (in_data ino)"
  shows "\<exists>fs1 fs2. inode_remove p fs = Some fs1 \<and> inode_close ops (Some p) fs1 = Some fs2 \<and>
    used_sectors fs2 = used_sectors fs - {in_sector ino} - data_sectors (in_data ino) \<and>
    inodes fs2 = (inodes fs)(p := None) \<and> table_ok fs2 \<and> fs_inv ops F fs2"
proof -
  let ?ino = "ino\<lparr>removed := True\<rparr>" and ?fs = "set_inode p (ino\<lparr>removed := True\<rparr>) fs"
  note l = table_okD(3) [OF assms(1,2)]
  have "ino\<lparr>removed := True, in_lock := False\<rparr> = ?ino" using l by (cases ino) simp
  then have rm: "inode_remove p fs = Some ?fs"
    by (simp add: inode_remove_def acquire_inode_free [OF assms(2) l] release_inode_def set_inode_def)
  have t: "table_ok ?fs"
    by (rule table_ok_update [OF assms(1,2)]) (use l assms(3) in simp_all)
  have "inodes ?fs p = Some ?ino" "open_cnt ?ino = 1" "removed ?ino" "fs_inv ops F ?fs" "file_ok ops F ?fs (in_data ?ino)"
    "in_sector ?ino \<in> used_sectors ?fs - F" "in_sector ?ino \<notin> data_sectors (in_data ?ino)"
    using assms(3-7) by simp_all
  from inode_close_last_removed [OF t this] show ?thesis using rm by auto
qed

theorem inode_close_releases_witness:
  "\<exists>fs1 fs2. inode_remove 7 ram_open = Some fs1 \<and> inode_close ram_ops (Some 7) fs1 = Some fs2 \<and>
     used_sectors fs2 = used_sectors ram_open - {1} - {2, 3}"
  using inode_close_releases [OF ram_open_inv(2,3) _ ram_open_inv(1,6)]
  by (auto simp: ram_inode_def ram_file_sectors used_sectors_def ram_open_def nth_append)

text \<open>
  A write to an inode whose writes are denied writes nothing and changes
  nothing; it is allowed again once every denial is taken back.
\<close>

theorem inode_deny_write_safe:
  assumes "table_ok fs" "inodes fs p = Some ino" "0 \<le> deny_write_cnt ino" "deny_write_cnt ino < open_cnt ino"
  shows "\<exists>fs1. inode_deny_write p fs = Some fs1 \<and>
    inode_write_at ops p buf z k fs1 = Some (0, fs1) \<and> inode_allow_write p fs1 = Some fs"
proof -
  note l = table_okD(3) [OF assms(1,2)]
  let ?ino = "ino\<lparr>deny_write_cnt := deny_write_cnt ino + 1\<rparr>"
  let ?fs = "set_inode p ?ino fs"
  have u: "i\<lparr>in_lock := True, in_lock := False\<rparr> = i" "i\<lparr>in_lock := False\<rparr> = i" if "\<not> in_lock i" for i
    using that by simp_all
  have e: "ino\<lparr>in_lock := True, deny_write_cnt := n, in_lock := False\<rparr> = ino\<lparr>deny_write_cnt := n\<rparr>" for n
    using l by (cases ino) simp
  have p1: "inodes ?fs p = Some ?ino" "\<not> in_lock ?ino" using l by simp_all
  have "inode_deny_write p fs = Some ?fs"
    using assms(4) e by (simp add: inode_deny_write_def acquire_inode_free [OF assms(2) l] Let_def release_inode_def set_inode_def)
  moreover have "inode_write_at ops p buf z k ?fs = Some (0, ?fs)"
    using assms(3) p1(2)
    by (simp add: inode_write_at_def acquire_inode_free [OF p1] release_inode_def)
       (simp add: set_inode_def u)
  moreover have "inode_allow_write p ?fs = Some fs"
  proof -
    have "fs\<lparr>inodes := (inodes fs)(p \<mapsto> ino)\<rparr> = fs" using assms(2) by (simp add: fun_upd_idem)
    moreover have "ino\<lparr>deny_write_cnt := deny_write_cnt ino, in_lock := False\<rparr> = ino" using l by simp
    ultimately show ?thesis using assms(3,4)
      by (simp add: inode_allow_write_def acquire_inode_free [OF p1] release_inode_def)
         (simp add: set_inode_def)
  qed
  ultimately show ?thesis by blast
qed

theorem inode_deny_write_safe_witness:
  "\<exists>fs1. inode_deny_write 7 ram_open = Some fs1 \<and> inode_write_at ram_ops 7 [1] 1 0 fs1 = Some (0, fs1)"
  using inode_deny_write_safe [OF ram_open_inv(2,3), of ram_ops "[1]" 1 0] by (auto simp: ram_inode_def)

section \<open>Where the code falls short\<close>

text \<open>
  Closing a file does not write its inode. Whatever a write has done to
  the length of an open file, once the file is closed and opened again its inode is the one
  that was on the disk before: the bytes past the old end are gone and their sectors stay
  used. The comment above \<open>inode_close\<close> says that it writes the inode to disk.
\<close>

theorem inode_close_loses_growth:
  assumes "fs_inv ops F fs" "table_ok fs" "inodes fs p = Some ino" "open_cnt ino = 1" "\<not> removed ino"
    and "deny_write_cnt ino = 0" "file_ok ops F fs (in_data ino)" "z \<le> length buf" "k + z \<le> DIRECT_BYTES"
    and "in_sector ino \<in> used_sectors fs - F - data_sectors (in_data ino)" "in_sector ino \<noteq> no_sector"
    and "decode_inode (fs_view ops fs (in_sector ino)) = in_data ino"
  shows "\<exists>n d fs1 fs2 fs3 ino'. inode_write_at ops p buf (int z) (int k) fs = Some (int n, fs1) \<and>
    inodes fs1 p = Some (ino\<lparr>in_data := d\<rparr>) \<and> n = min (k + z) (file_len d) - k \<and>
    inode_close ops (Some p) fs1 = Some fs2 \<and> used_sectors fs2 = used_sectors fs \<union> data_sectors d \<and>
    inode_open ops (in_sector ino) (Some p) fs2 = Some (Some p, fs3) \<and>
    inodes fs3 p = Some ino' \<and> in_data ino' = in_data ino"
proof -
  note l = table_okD(3) [OF assms(2,3)]
  obtain n d g where w: "inode_write_at ops p buf (int z) (int k) fs = Some (int n, release_inode p (ino\<lparr>in_data := d\<rparr>) g)"
    "write_result ops F (in_data ino) fs k z buf n d g" "fs.more g = fs.more (set_inode p (ino\<lparr>in_lock := True\<rparr>) fs)"
    using inode_write_at_spec [OF assms(1,3) l assms(6-9)] by blast
  let ?ino = "ino\<lparr>in_data := d\<rparr>" and ?fs1 = "release_inode p (ino\<lparr>in_data := d\<rparr>) g"
  note r = write_resultD [OF w(2)] and mo = same_more [OF w(3)]
  have p1: "inodes ?fs1 p = Some ?ino" "open_cnt ?ino = 1" "\<not> removed ?ino"
    using l assms(4,5) by (cases ino; simp)+
  have t1: "table_ok ?fs1"
    by (rule table_ok_update [OF assms(2,3), of "ino\<lparr>in_data := d, in_lock := False\<rparr>"]) (use assms(4) mo in simp_all)
  define fs2 where "fs2 = ?fs1\<lparr>inodes := (inodes ?fs1)(p := None), open_inodes := remove1 p (open_inodes ?fs1)\<rparr>"
  have c: "inode_close ops (Some p) ?fs1 = Some fs2" "table_ok fs2"
    unfolding fs2_def by (rule inode_close_last_kept [OF t1 p1])+
  have miss: "in_sector jno \<noteq> in_sector ino" if "inodes fs2 q = Some jno" for q jno
    using that table_okD(5) [OF assms(2), of q jno p ino] assms(3) mo by (auto simp: fs2_def split: if_splits)
  have same: "cache_ok (fs_dev ops) (fs_cache fs2)" "inodes fs2 p = None" "fs_view ops fs2 = fs_view ops g"
    "used_sectors fs2 = used_sectors g"
    using fs_inv_cache [OF r(1)] by (simp_all add: fs2_def used_sectors_def)
  have "fs_view ops fs2 (in_sector ino) = fs_view ops fs (in_sector ino)" using r(9) assms(10,11) same(3) by simp
  then have dec: "decode_inode (fs_view ops fs2 (in_sector ino)) = in_data ino" using assms(12) by simp
  obtain fs3 ino' where "inode_open ops (in_sector ino) (Some p) fs2 = Some (Some p, fs3)"
    "inodes fs3 p = Some ino'" "in_data ino' = in_data ino"
    using inode_open_fresh [OF c(2) _ same(1) assms(11) same(2)] miss unfolding dec by fastforce
  then show ?thesis using w(1) p1(1) r(6) c(1) r(8) same(4) by metis
qed

theorem inode_close_loses_growth_witness:
  "\<exists>n d fs1 fs2 fs3 ino'. inode_write_at ram_ops 7 [1, 2, 3] (int 3) (int 0) ram_fresh = Some (int n, fs1) \<and>
    inodes fs1 7 = Some (ram_fresh_inode\<lparr>in_data := d\<rparr>) \<and> inode_close ram_ops (Some 7) fs1 = Some fs2 \<and>
    inode_open ram_ops 1 (Some 7) fs2 = Some (Some 7, fs3) \<and>
    inodes fs3 7 = Some ino' \<and> id_length (in_data ino') = 0"
proof -
  have "in_sector ram_fresh_inode = 1" "id_length (in_data ram_fresh_inode) = 0" by (simp_all add: ram_fresh_inode_def decode_zeros)
  then show ?thesis
    using inode_close_loses_growth [OF ram_fresh_inv(1-3), of 3 "[1, 2, 3]" 0] ram_fresh_inv(4-10) by force
qed

text \<open>
  Growth beyond the 188 direct indices: the index of the last indirect block of a file with
  exactly 188 sectors is computed as \<open>(187 - 188) / 256\<close>, which is 0 in C, the same as that of
  the first sector to come, so no indirect block is allocated.
\<close>

lemma append_first_indirect:
  assumes "id_length d = 96256" "length (indirect d) = 64" "allocate_short ops fs = Some (Some v, fs1)"
    and "cache_write (fs_dev ops) (ucast (indirect d ! 0)) (le16 v) 2 0 [] (fs_cache fs1) = Some c"
  shows "append_sector ops d fs = Some (True, d\<lparr>id_length := 96768\<rparr>, fs1\<lparr>fs_cache := c\<rparr>)"
proof -
  have "ROUND_UP 96256 512 = 96256" by (rule ROUND_UP_multiple) simp_all
  moreover have "((96255 sdiv 512 - 188) sdiv 256 :: int) = 0" "(96767 sdiv 512 :: int) = 188" "((188 - 188) sdiv 256 :: int) = 0" "((188 - 188) smod 256 :: int) = 0"
    by code_simp+
  ultimately show ?thesis
    using assms by (simp add: append_sector_def append_indirect_def Let_def)
qed

text \<open>
  C12 (error): files do not grow beyond the direct indices. Appending the sector after the 188th to a file that has no indirect
  block yet (94 KB, as such files are left by appending) allocates none: the function reports success and writes the number of the new
  sector into sector 0, the inode of the free map.
\<close>

theorem append_overwrites_sector_0:
  assumes "fs_inv ops F fs" "id_length d = 96256" "length (indirect d) = 64" "indirect d ! 0 = 0"
    and "allocate_short ops fs = Some (Some v, fs1)"
  shows "\<exists>d' fs'. append_sector ops d fs = Some (True, d', fs') \<and> indirect d' = indirect d \<and>
    fs_view ops fs' FREE_MAP_SECTOR = memcpy_at 0 (le16 v) (fs_view ops fs1 FREE_MAP_SECTOR)"
proof -
  have inv1: "fs_inv ops F fs1" using allocate_short_spec [OF assms(1)] assms(5) by auto
  have "(0 :: sector) \<noteq> no_sector" by simp
  then obtain c where w: "cache_write (fs_dev ops) 0 (le16 v) 2 0 [] (fs_cache fs1) = Some c"
    "cache_view (fs_dev ops) c 0 = memcpy_at 0 (take 2 (le16 v)) (fs_view ops fs1 0)"
    using cache_store.wr_spec [OF fs_inv_cache [OF inv1], of 0 2 0 "le16 v"] by fastforce
  have "append_sector ops d fs = Some (True, d\<lparr>id_length := 96768\<rparr>, fs1\<lparr>fs_cache := c\<rparr>)"
    by (rule append_first_indirect [OF assms(2,3,5)]) (simp add: assms(4) w(1))
  then show ?thesis using w(2) by auto
qed

theorem append_overwrites_sector_0_witness:
  "\<exists>v fs1 d' fs'. allocate_short ram_ops ram_fs = Some (Some v, fs1) \<and>
     append_sector ram_ops (new_disk\<lparr>id_length := 96256\<rparr>) ram_fs = Some (True, d', fs') \<and>
     fs_view ram_ops fs' 0 = memcpy_at 0 (le16 v) (fs_view ram_ops fs1 0)"
proof -
  let ?fs1 = "ram_fs\<lparr>free_map := True # True # True # replicate 9 False\<rparr>"
  have "free_map_allocate ram_ops ram_fs = (Some 2, ?fs1)"
    by (simp add: free_map_allocate_def ram_ops_def ram_fs_def eval_nat_numeral)
  moreover have "cache_ok ram_disk (fs_cache ?fs1)" using blank_cache_ok by (simp add: ram_fs_def)
  then obtain c where "cache_zero ram_disk 2 [] (fs_cache ?fs1) = Some c"
    using cache_store.zero_spec [of ram_disk "fs_cache ?fs1" 2] by auto
  ultimately have al: "allocate_short ram_ops ram_fs = Some (Some 2, ?fs1\<lparr>fs_cache := c\<rparr>)"
    by (simp add: allocate_short_def ram_ops_ok)
  from append_overwrites_sector_0 [OF ram_fs_inv(2) _ _ _ this, of "new_disk\<lparr>id_length := 96256\<rparr>"] al
  show ?thesis by auto
qed

text \<open>
  The entries of an indirect block overlap. They are two bytes wide but
  stored one byte apart, so once the entries \<open>i\<close> and \<open>i + 1\<close> are written, looking up the
  first gives its low byte followed by the low byte of the second.
\<close>

theorem indirect_entries_overlap:
  assumes "cache_ok bd c" "length (indirect d) = 64" "i < 255" "96256 + 512 * int i < id_length d"
    and "cache_write bd (ucast (indirect d ! 0)) (le16 v) 2 (int i) [] c = Some c1"
    and "cache_write bd (ucast (indirect d ! 0)) (le16 v') 2 (int (Suc i)) [] c1 = Some c2"
  shows "\<exists>c3. byte_to_sector_disk bd d (96256 + 512 * int i) c2 = Some (ucast (of_le16 [le16 v ! 0, le16 v' ! 0]), c3)"
proof -
  let ?s = "ucast (indirect d ! 0) :: sector"
  have s: "?s \<noteq> no_sector" using data_sector_valid [of "d\<lparr>direct := indirect d\<rparr>" 0] by (simp add: data_sector_def)
  have c1: "cache_ok bd c1" "cache_view bd c1 ?s = memcpy_at i (le16 v) (cache_view bd c ?s)"
    using cache_store.wr_spec [OF assms(1) s, of 2 "int i" "le16 v"] assms(3,5) s by auto
  have suc: "nat (1 + int i) = Suc i" by simp
  have c2: "cache_ok bd c2" "cache_view bd c2 ?s = memcpy_at (Suc i) (le16 v') (cache_view bd c1 ?s)"
    using cache_store.wr_spec [OF c1(1) s, of 2 "int (Suc i)" "le16 v'"] assms(3,6) s by (auto simp: suc)
  have L: "length (cache_view bd c ?s) = 512" by (rule cache_store.view_length [OF assms(1) s])
  have "take 2 (drop i (cache_view bd c2 ?s)) = [le16 v ! 0, le16 v' ! 0]"
  proof (rule nth_equalityI)
    show "length (take 2 (drop i (cache_view bd c2 ?s))) = length [le16 v ! 0, le16 v' ! 0]"
      using L assms(3) by (simp add: c1(2) c2(2))
    fix j assume "j < length (take 2 (drop i (cache_view bd c2 ?s)))"
    then have "j = 0 \<or> j = 1" by auto
    then show "take 2 (drop i (cache_view bd c2 ?s)) ! j = [le16 v ! 0, le16 v' ! 0] ! j"
      using L assms(3) by (auto simp: c1(2) c2(2) nth_memcpy_at)
  qed
  then obtain c3 where rd: "cache_read bd ?s 2 (int i) [] c2 = Some ([le16 v ! 0, le16 v' ! 0], c3)"
    using cache_store.rd_spec [OF c2(1) s, of 2 "int i"] assms(3) by auto
  have "(96256 + 512 * int i) sdiv 512 = 188 + int i" by (simp add: c_arith)
  moreover have "int i sdiv 256 = 0" "int i smod 256 = int i" using assms(3) by (simp_all add: c_arith)
  ultimately show ?thesis using assms(2,4) rd by (simp add: byte_to_sector_disk_def Let_def)
qed

theorem indirect_entries_overlap_witness:
  "\<exists>c1 c2 c3. cache_write ram_disk 0 (le16 0x0102) 2 0 [] (cache_init blank_disk) = Some c1 \<and>
     cache_write ram_disk 0 (le16 0x0304) 2 1 [] c1 = Some c2 \<and>
     byte_to_sector_disk ram_disk (new_disk\<lparr>id_length := 100000\<rparr>) 96256 c2 = Some (0x0402, c3)"
proof -
  let ?d = "new_disk\<lparr>id_length := 100000\<rparr>"
  have s: "(0 :: sector) \<noteq> no_sector" by simp
  obtain c1 where c1: "cache_write ram_disk 0 (le16 0x0102) 2 0 [] (cache_init blank_disk) = Some c1" "cache_ok ram_disk c1"
    using cache_store.wr_spec [OF blank_cache_ok s, of 2 0 "le16 0x0102"] by auto
  obtain c2 where c2: "cache_write ram_disk 0 (le16 0x0304) 2 1 [] c1 = Some c2"
    using cache_store.wr_spec [OF c1(2) s, of 2 1 "le16 0x0304"] by auto
  have "ucast (of_le16 [le16 0x0102 ! 0, le16 0x0304 ! 0]) = (0x0402 :: sector)" by code_simp
  then show ?thesis
    using indirect_entries_overlap [OF blank_cache_ok, of ?d 0 "0x0102" c1 "0x0304" c2] c1(1) c2 by auto
qed

end
