(* ===== verification/Fixed_Point.thy ===== *)
theory Fixed_Point
  imports Kernel_Prelude
begin

text \<open>
  Fixed-point arithmetic, \<open>priority-scheduler/lib/kernel/fixed-point.c\<close>: a number \<open>x\<close> in
  format \<open>q\<close> stands for \<open>x / 2 ^ q\<close>. The C types are kept: an operation on \<open>int\<close> or
  \<open>int64_t\<close> that overflows, a shift by too much and a division by zero are undefined
  behaviour and \<open>None\<close>; an \<open>int64_t\<close> returned as an \<open>int\<close> keeps its low 32 bits.
\<close>

section \<open>C arithmetic\<close>

definition to_int :: "int \<Rightarrow> int" where
  "to_int x = signed_take_bit 31 x"

definition c_div :: "int \<Rightarrow> int \<Rightarrow> int option" where
  "c_div a b = (if b = 0 then None else c_int (a sdiv b))"

definition c_div64 :: "int \<Rightarrow> int \<Rightarrow> int option" where
  "c_div64 a b = (if b = 0 then None else c_int64 (a sdiv b))"

abbreviation is_int :: "int \<Rightarrow> bool" where
  "is_int x \<equiv> - (2 ^ 31) \<le> x \<and> x < 2 ^ 31"

definition fxp_f :: "int \<Rightarrow> int option" where
  "fxp_f q = (if 0 \<le> q \<and> q < 31 then Some (2 ^ nat q) else None)"

section \<open>Operations\<close>

definition fxp_of_int :: "int \<Rightarrow> int \<Rightarrow> int option" where
  "fxp_of_int q n = do { f \<leftarrow> fxp_f q; c_int (n * f) }"

definition fxp_trunc :: "int \<Rightarrow> int \<Rightarrow> int option" where
  "fxp_trunc q x = do { f \<leftarrow> fxp_f q; c_div x f }"

definition fxp_round :: "int \<Rightarrow> int \<Rightarrow> int option" where
  "fxp_round q x = do {
     let sgn = (if 0 \<le> x then 1 else - 1);
     f \<leftarrow> fxp_f q;
     h \<leftarrow> c_div (sgn * f) 2;
     y \<leftarrow> c_int (x + h);
     c_div y f
   }"

definition fxp_reformat :: "int \<Rightarrow> int \<Rightarrow> int \<Rightarrow> int option" where
  "fxp_reformat old_q new_q x = do {
     fn \<leftarrow> fxp_f new_q;
     fo \<leftarrow> fxp_f old_q;
     p \<leftarrow> c_int64 (x * fn);
     r \<leftarrow> c_div64 p fo;
     Some (to_int r)
   }"

definition fxp_add :: "int \<Rightarrow> int \<Rightarrow> int option" where
  "fxp_add x y = c_int (x + y)"

definition fxp_sub :: "int \<Rightarrow> int \<Rightarrow> int option" where
  "fxp_sub x y = c_int (x - y)"

definition fxp_neg :: "int \<Rightarrow> int option" where
  "fxp_neg x = c_int (- x)"

definition fxp_mul :: "int \<Rightarrow> int \<Rightarrow> int \<Rightarrow> int option" where
  "fxp_mul q x y = do {
     f \<leftarrow> fxp_f q;
     p \<leftarrow> c_int64 (x * y);
     r \<leftarrow> c_div64 p f;
     Some (to_int r)
   }"

definition fxp_div :: "int \<Rightarrow> int \<Rightarrow> int \<Rightarrow> int option" where
  "fxp_div q x y = do {
     f \<leftarrow> fxp_f q;
     p \<leftarrow> c_int64 (x * f);
     r \<leftarrow> c_div64 p y;
     Some (to_int r)
   }"

definition fxp_inv :: "int \<Rightarrow> int \<Rightarrow> int option" where
  "fxp_inv q x = do {
     f \<leftarrow> fxp_f q;
     p \<leftarrow> c_int64 (f * f);
     r \<leftarrow> c_div64 p x;
     Some (to_int r)
   }"

definition fxp_addi :: "int \<Rightarrow> int \<Rightarrow> int \<Rightarrow> int option" where
  "fxp_addi q x n = do { f \<leftarrow> fxp_f q; m \<leftarrow> c_int (n * f); c_int (x + m) }"

definition fxp_subi :: "int \<Rightarrow> int \<Rightarrow> int \<Rightarrow> int option" where
  "fxp_subi q x n = do { f \<leftarrow> fxp_f q; m \<leftarrow> c_int (n * f); c_int (x - m) }"

definition fxp_muli :: "int \<Rightarrow> int \<Rightarrow> int option" where
  "fxp_muli x n = c_int (x * n)"

definition fxp_divi :: "int \<Rightarrow> int \<Rightarrow> int option" where
  "fxp_divi x n = c_div x n"

definition fxp_invi :: "int \<Rightarrow> int \<Rightarrow> int option" where
  "fxp_invi q n = do { f \<leftarrow> fxp_f q; c_div f n }"

definition fxp_isub :: "int \<Rightarrow> int \<Rightarrow> int \<Rightarrow> int option" where
  "fxp_isub q n x = do { f \<leftarrow> fxp_f q; m \<leftarrow> c_int (n * f); c_int (m - x) }"

definition fxp_idiv :: "int \<Rightarrow> int \<Rightarrow> int \<Rightarrow> int option" where
  "fxp_idiv q n x = do {
     f \<leftarrow> fxp_f q;
     m \<leftarrow> c_int64 (n * f);
     p \<leftarrow> c_int64 (m * f);
     r \<leftarrow> c_div64 p x;
     Some (to_int r)
   }"

definition fxp_idivi :: "int \<Rightarrow> int \<Rightarrow> int \<Rightarrow> int option" where
  "fxp_idivi q n d = do {
     f \<leftarrow> fxp_f q;
     p \<leftarrow> c_int64 (n * f);
     r \<leftarrow> c_div64 p d;
     Some (to_int r)
   }"

section \<open>Truncated division\<close>

lemma to_int_id [simp]: "- (2 ^ 31) \<le> x \<Longrightarrow> x < 2 ^ 31 \<Longrightarrow> to_int x = x"
  unfolding to_int_def by (rule signed_take_bit_int_eq_self) simp_all

lemma to_int_range: "is_int (to_int x)"
  using signed_take_bit_int_greater_eq_minus_exp [of 31 x] signed_take_bit_int_less_exp [of 31 x]
  by (simp add: to_int_def)

lemma sdiv_nonpos: "(a::int) \<le> 0 \<Longrightarrow> 0 < b \<Longrightarrow> a sdiv b = - ((- a) div b)"
  by (cases "a = 0") (simp_all add: signed_divide_int_def)

text \<open>The quotient is closer to zero than the exact one, by less than one.\<close>

lemma sdiv_bounds:
  assumes "0 < (b::int)"
  shows "\<bar>a sdiv b * b - a\<bar> < b" "\<bar>a sdiv b\<bar> * b \<le> \<bar>a\<bar>" "0 \<le> a \<Longrightarrow> 0 \<le> a sdiv b" "a \<le> 0 \<Longrightarrow> a sdiv b \<le> 0"
proof -
  have d: "x div b * b = x - x mod b" "0 \<le> x mod b" "x mod b < b" for x using assms by (simp_all add: minus_mod_eq_div_mult)
  have p: "0 \<le> x \<Longrightarrow> 0 \<le> x div b" for x using assms by (simp add: pos_imp_zdiv_nonneg_iff)
  show "0 \<le> a \<Longrightarrow> 0 \<le> a sdiv b" using p assms by (simp add: sdiv_nonneg)
  show "a \<le> 0 \<Longrightarrow> a sdiv b \<le> 0" using p [of "- a"] assms by (simp add: sdiv_nonpos)
  have "\<bar>a sdiv b * b - a\<bar> < b \<and> \<bar>a sdiv b\<bar> * b \<le> \<bar>a\<bar>"
  proof (cases "0 \<le> a")
    case True
    then show ?thesis using d(2,3) [of a] p [of a] assms by (simp add: sdiv_nonneg d(1))
  next
    case False
    then have e: "a sdiv b = - ((- a) div b)" "0 \<le> (- a) div b" using assms p [of "- a"] by (simp_all add: sdiv_nonpos)
    show ?thesis unfolding e(1) using d(2,3) [of "- a"] e(2) False by (simp add: d(1))
  qed
  then show "\<bar>a sdiv b * b - a\<bar> < b" "\<bar>a sdiv b\<bar> * b \<le> \<bar>a\<bar>" by simp_all
qed

lemma sdiv_abs_le: "0 < (b::int) \<Longrightarrow> \<bar>a\<bar> \<le> c * b \<Longrightarrow> \<bar>a sdiv b\<bar> \<le> c"
  using sdiv_bounds(2) [of b a] by (meson mult_le_cancel_right_pos order_trans)

lemma sdiv_abs_le_self: "0 < (b::int) \<Longrightarrow> \<bar>a sdiv b\<bar> \<le> \<bar>a\<bar>"
  by (rule sdiv_abs_le) (simp_all add: mult_le_cancel_left1)

section \<open>Defined results\<close>

lemma fxp_f_pos: "fxp_f q = Some f \<Longrightarrow> 0 < f \<and> f \<le> 2 ^ 30"
proof -
  assume "fxp_f q = Some f"
  then have q: "0 \<le> q" "q < 31" and f: "f = 2 ^ nat q" by (auto simp: fxp_f_def split: if_splits)
  have "(2::int) ^ nat q \<le> 2 ^ 30" by (rule power_increasing) (use q in auto)
  with f show ?thesis by simp
qed

lemma int_product:
  assumes "\<bar>x\<bar> \<le> 2 ^ 31" "\<bar>y\<bar> \<le> (2 :: int) ^ 31"
  shows "\<bar>x * y\<bar> \<le> 2 ^ 62"
proof -
  have "\<bar>x\<bar> * \<bar>y\<bar> \<le> 2 ^ 31 * 2 ^ 31" using assms by (intro mult_mono) simp_all
  then show ?thesis by (simp add: abs_mult)
qed

lemma c_int64_small: "\<bar>x\<bar> \<le> 2 ^ 62 \<Longrightarrow> c_int64 x = Some x"
  by (auto simp: c_int64_def)

lemma c_div64_small: "0 < b \<Longrightarrow> \<bar>a\<bar> \<le> 2 ^ 62 \<Longrightarrow> c_div64 a b = Some (a sdiv b)"
  using sdiv_abs_le_self [of b a] by (auto simp: c_div64_def intro: c_int64_small)

lemma c_div_small: "0 < b \<Longrightarrow> \<bar>a\<bar> < 2 ^ 31 \<Longrightarrow> c_div a b = Some (a sdiv b)"
  using sdiv_abs_le_self [of b a] by (auto simp: c_div_def intro!: c_int_in)

lemma fxp_mul_defined:
  assumes "is_int x" "is_int y" "fxp_f q = Some f"
  shows "fxp_mul q x y = Some (to_int ((x * y) sdiv f))"
proof -
  have "\<bar>x * y\<bar> \<le> 2 ^ 62" by (rule int_product) (use assms in auto)
  then show ?thesis using assms fxp_f_pos [OF assms(3)] by (simp add: fxp_mul_def c_int64_small c_div64_small)
qed

lemma fxp_div_defined:
  assumes "is_int x" "0 < y" "fxp_f q = Some f"
  shows "fxp_div q x y = Some (to_int ((x * f) sdiv y))"
proof -
  have "\<bar>x * f\<bar> \<le> 2 ^ 62" by (rule int_product) (use assms fxp_f_pos [OF assms(3)] in auto)
  then show ?thesis using assms by (simp add: fxp_div_def c_int64_small c_div64_small)
qed

lemma sdiv_neg_divisor: "(a :: int) sdiv b = - (a sdiv (- b))"
  by simp

lemma c_div64_nonzero:
  assumes "b \<noteq> 0" "\<bar>a\<bar> \<le> 2 ^ 62"
  shows "c_div64 a b = Some (a sdiv b)"
proof (cases "0 < b")
  case False
  then have "c_int64 (a sdiv (- b)) = Some (a sdiv (- b))" "c_int64 (- (a sdiv (- b))) = Some (- (a sdiv (- b)))"
    using assms sdiv_abs_le_self [of "- b" a] by (auto intro!: c_int64_small)
  then show ?thesis using assms(1) unfolding c_div64_def sdiv_neg_divisor [of a b] by simp
qed (rule c_div64_small, use assms(2) in simp_all)

lemma sdiv_error:
  assumes "(b :: int) \<noteq> 0"
  shows "\<bar>a sdiv b * b - a\<bar> < \<bar>b\<bar>"
proof (cases "0 < b")
  case False
  then have "\<bar>a sdiv (- b) * (- b) - a\<bar> < - b" using assms by (intro sdiv_bounds(1)) simp
  then show ?thesis using False unfolding sdiv_neg_divisor [of a b] by simp
qed (use sdiv_bounds(1) [of b a] in simp)

lemma fxp_div_signed:
  assumes "is_int x" "y \<noteq> 0" "fxp_f q = Some f"
  shows "fxp_div q x y = Some (to_int ((x * f) sdiv y))"
proof -
  have "\<bar>x * f\<bar> \<le> 2 ^ 62" by (rule int_product) (use assms fxp_f_pos [OF assms(3)] in auto)
  then show ?thesis using assms by (simp add: fxp_div_def c_int64_small c_div64_nonzero)
qed

lemma fxp_idivi_defined:
  assumes "is_int n" "0 < d" "fxp_f q = Some f"
  shows "fxp_idivi q n d = Some (to_int ((n * f) sdiv d))"
  using fxp_div_defined [OF assms] by (simp add: fxp_idivi_def fxp_div_def)

section \<open>Properties\<close>

text \<open>
  C32 (bounds): multiplication of any two numbers and division by any number but 0, negative ones included, are defined, and
  lose less than one unit in the last place, whenever the quotient, rounded towards zero, fits the 32-bit format.
\<close>

theorem fxp_mul_div_accurate:
  assumes "is_int x" "is_int y" "fxp_f q = Some f"
  shows "(is_int ((x * y) sdiv f) \<longrightarrow> (\<exists>z. fxp_mul q x y = Some z \<and> \<bar>z * f - x * y\<bar> < f)) \<and>
         (y \<noteq> 0 \<and> is_int ((x * f) sdiv y) \<longrightarrow> (\<exists>z. fxp_div q x y = Some z \<and> \<bar>z * y - x * f\<bar> < \<bar>y\<bar>))"
proof -
  have f: "0 < f" using fxp_f_pos [OF assms(3)] by simp
  have "to_int z = z" if "is_int z" for z using that by simp
  then show ?thesis
    using fxp_mul_defined [OF assms] fxp_div_signed [OF assms(1) _ assms(3)] sdiv_bounds(1) [OF f] sdiv_error by simp
qed

theorem fxp_mul_div_accurate_witness:
  "(\<exists>z. fxp_mul 14 49152 (- 8192) = Some z \<and> \<bar>z * 16384 + 49152 * 8192\<bar> < 16384) \<and>
   (\<exists>z. fxp_div 14 49152 (- 8192) = Some z \<and> \<bar>z * (- 8192) - 49152 * 16384\<bar> < 8192)"
proof -
  have "(49152 * (- 8192)) sdiv 16384 = (- 24576 :: int)" "(49152 * 16384) sdiv (- 8192) = (- 98304 :: int)"
    using sdiv_nonneg [of "49152 * 8192" 16384] sdiv_nonneg [of "49152 * 16384" 8192] by simp_all
  then show ?thesis using fxp_mul_div_accurate [of 49152 "- 8192" 14 16384] by (simp add: fxp_f_def)
qed

text \<open>Rounding returns the nearest integer.\<close>

lemma fxp_round_nearest:
  assumes q: "fxp_f q = Some f" "1 \<le> q" and x: "\<bar>x\<bar> < 2 ^ 30"
  shows "\<exists>n. fxp_round q x = Some n \<and> 2 * \<bar>n * f - x\<bar> \<le> f"
proof -
  define h where "h = f div 2"
  have e: "f = 2 * h" and h: "0 < h" "h \<le> 2 ^ 29"
  proof -
    have "f = 2 ^ nat q" using q(1) by (auto simp: fxp_f_def split: if_splits)
    moreover obtain k where "nat q = Suc k" using q(2) by (cases "nat q") auto
    ultimately have "f = 2 * 2 ^ k" by simp
    then show "f = 2 * h" "0 < h" by (simp_all add: h_def)
    then show "h \<le> 2 ^ 29" using fxp_f_pos [OF q(1)] by simp
  qed
  define y where "y = (if 0 \<le> x then x + h else x - h)"
  have "c_div f 2 = Some h" "c_div (- f) 2 = Some (- h)"
    using h by (simp_all add: c_div_def e sdiv_nonneg sdiv_nonpos)
  moreover have y: "\<bar>y\<bar> < 2 ^ 31" using x h by (auto simp: y_def)
  moreover have "c_div y f = Some (y sdiv f)" by (rule c_div_small) (use e h y in simp_all)
  ultimately have "fxp_round q x = Some (y sdiv f)"
    using q(1) by (auto simp: fxp_round_def y_def Let_def)
  moreover have "2 * \<bar>y sdiv f * f - x\<bar> \<le> f"
  proof -
    have f: "0 < f" using e h by simp
    note b = sdiv_bounds(1) [OF f, of y] sdiv_bounds(2) [OF f, of y] sdiv_bounds(3,4) [OF f, of y]
    show ?thesis
    proof (cases "0 \<le> x")
      case True
      then have "0 \<le> y" "y = x + h" using h by (simp_all add: y_def)
      then show ?thesis using b e f by (simp add: abs_le_iff abs_less_iff)
    next
      case False
      then have "y \<le> 0" "y = x - h" using h by (simp_all add: y_def)
      then show ?thesis using b e f by (simp add: abs_le_iff abs_less_iff)
    qed
  qed
  ultimately show ?thesis by blast
qed

text \<open>
  An integer put into the format comes back by truncation and by rounding,
  and rounding a number returns the nearest integer.
\<close>

theorem fxp_int_roundtrip:
  assumes q: "fxp_f q = Some f" "1 \<le> q" and n: "\<bar>n * f\<bar> < 2 ^ 30" and y: "\<bar>y\<bar> < 2 ^ 30"
  shows "(\<exists>x. fxp_of_int q n = Some x \<and> fxp_trunc q x = Some n \<and> fxp_round q x = Some n) \<and>
         (\<exists>m. fxp_round q y = Some m \<and> 2 * \<bar>m * f - y\<bar> \<le> f)"
proof -
  have f: "0 < f" using fxp_f_pos [OF q(1)] by simp
  have "fxp_of_int q n = Some (n * f)" using q(1) n by (simp add: fxp_of_int_def c_int_in)
  moreover have "n * f sdiv f = n"
  proof -
    have "\<bar>(n * f sdiv f - n) * f\<bar> < 1 * f" using sdiv_bounds(1) [OF f, of "n * f"] by (simp add: left_diff_distrib)
    then show ?thesis using f by (simp add: abs_mult)
  qed
  then have "fxp_trunc q (n * f) = Some n" using q(1) n f by (simp add: fxp_trunc_def c_div_small)
  moreover obtain m where m: "fxp_round q (n * f) = Some m" "2 * \<bar>m * f - n * f\<bar> \<le> f"
    using fxp_round_nearest [OF q n] by blast
  moreover have "m = n"
  proof -
    have "2 * \<bar>m - n\<bar> * f \<le> 1 * f" using m(2) f by (simp add: abs_mult flip: left_diff_distrib)
    then have "2 * \<bar>m - n\<bar> \<le> 1" using f by (simp only: mult_le_cancel_right_pos)
    then show ?thesis by presburger
  qed
  ultimately show ?thesis using fxp_round_nearest [OF q y] by blast
qed

theorem fxp_int_roundtrip_witness:
  "(\<exists>x. fxp_of_int 14 (- 7) = Some x \<and> fxp_trunc 14 x = Some (- 7) \<and> fxp_round 14 x = Some (- 7)) \<and>
   (\<exists>m. fxp_round 14 (- 24577) = Some m \<and> 2 * \<bar>m * 16384 - - 24577\<bar> \<le> 16384)"
  using fxp_int_roundtrip [of 14 16384 "- 7" "- 24577"] by (simp add: fxp_f_def)

end
