(* ===== verification/Scheduler.thy ===== *)
theory Scheduler
  imports Fixed_Point
begin

text \<open>
  The priority scheduler, \<open>priority-scheduler/threads/thread.c\<close> and the alarm clock of
  \<open>devices/timer.c\<close>: thread states, the ready list, priority donation through the locks a
  thread holds, the multi-level feedback queue, and sleeping threads. The code under
  \<open>USERPROG\<close> is not compiled in this part of the repository.

  Thread pointers and lock pointers are natural numbers; \<open>threads\<close> maps the pages that
  hold a thread. \<open>running\<close> is the thread whose stack the CPU uses, which is what
  \<open>running_thread\<close> computes from the stack pointer. \<open>None\<close> is a failed assertion, an
  access through an invalid pointer or undefined arithmetic; for the loop of
  \<open>get_priority\<close> it is also a loop that does not end.

  A context switch returns in the thread that runs next: \<open>saved_intr\<close> is the interrupt
  level that a thread sets when it continues after \<open>schedule\<close> (the last call of
  \<open>thread_yield\<close>, of \<open>timer_sleep\<close>, or the first of \<open>kernel_thread\<close>).

  \<open>lib/kernel/list.c\<close> and \<open>switch.h\<close> are not part of the sources: the parameter
  \<open>ops\<close> holds \<open>list_pop_max\<close>, \<open>list_insert_ordered\<close> and the sizes of the two switch
  frames. The waiters of a lock (\<open>synch.c\<close>) are the field \<open>lock_waiters\<close>.
\<close>

section \<open>State\<close>

datatype thread_status = THREAD_RUNNING | THREAD_READY | THREAD_BLOCKED | THREAD_DYING

record thread =
  tid :: int
  status :: thread_status
  t_name :: string
  t_stack :: int
  t_entry :: "(nat \<times> nat) option"
  base_priority :: int
  held_locks :: "nat list"
  priority :: int
  nice :: int
  recent_cpu :: int
  wakeup_ticks :: int
  magic :: u32
  saved_intr :: bool

record sched =
  threads :: "nat \<rightharpoonup> thread"
  ready_list :: "nat list"
  all_list :: "nat list"
  idle_thread :: "nat option"
  initial_thread :: nat
  running :: nat
  intr_on :: bool
  in_intr :: bool
  next_tid :: int
  load_avg :: int
  idle_ticks :: int
  kernel_ticks :: int
  thread_ticks :: u32
  thread_mlfqs :: bool
  yield_on_return :: bool
  ticks :: int
  asleep_list :: "nat list"
  loops_per_tick :: u32
  lock_waiters :: "nat \<Rightarrow> nat list"

record sched_ops =
  list_pop_max :: "(nat \<Rightarrow> nat \<Rightarrow> bool option) \<Rightarrow> nat list \<Rightarrow> (nat \<times> nat list) option"
  list_insert_ordered :: "(nat \<Rightarrow> nat \<Rightarrow> bool option) \<Rightarrow> nat \<Rightarrow> nat list \<Rightarrow> nat list option"
  switch_entry_frame_size :: int
  switch_threads_frame_size :: int

abbreviation THREAD_MAGIC :: u32 where "THREAD_MAGIC \<equiv> 0xcd6abf4b"
abbreviation PRI_MIN :: int where "PRI_MIN \<equiv> 0"
abbreviation PRI_DEFAULT :: int where "PRI_DEFAULT \<equiv> 31"
abbreviation PRI_MAX :: int where "PRI_MAX \<equiv> 63"
abbreviation NICE_MIN :: int where "NICE_MIN \<equiv> - 20"
abbreviation NICE_MAX :: int where "NICE_MAX \<equiv> 20"
abbreviation LOAD_AVG_Q :: int where "LOAD_AVG_Q \<equiv> 14"
abbreviation RECENT_CPU_Q :: int where "RECENT_CPU_Q \<equiv> 14"
abbreviation TIME_SLICE :: u32 where "TIME_SLICE \<equiv> 4"
abbreviation TIMER_FREQ :: int where "TIMER_FREQ \<equiv> 100"
abbreviation TID_ERROR :: int where "TID_ERROR \<equiv> - 1"
abbreviation PGSIZE :: int where "PGSIZE \<equiv> 4096"

definition put_thread :: "nat \<Rightarrow> thread \<Rightarrow> sched \<Rightarrow> sched" where
  "put_thread p t s = s\<lparr>threads := (threads s)(p \<mapsto> t)\<rparr>"

definition is_thread :: "sched \<Rightarrow> nat option \<Rightarrow> bool" where
  "is_thread s p = (case p of None \<Rightarrow> False | Some q \<Rightarrow> (case threads s q of None \<Rightarrow> False | Some t \<Rightarrow> magic t = THREAD_MAGIC))"

definition thread_current :: "sched \<Rightarrow> (nat \<times> thread) option" where
  "thread_current s = do {
     t \<leftarrow> threads s (running s);
     kassert (is_thread s (Some (running s)));
     kassert (status t = THREAD_RUNNING);
     Some (running s, t)
   }"

definition thread_tid :: "sched \<Rightarrow> int option" where
  "thread_tid s = map_option (\<lambda>(p, t). tid t) (thread_current s)"

definition thread_name :: "sched \<Rightarrow> string option" where
  "thread_name s = map_option (\<lambda>(p, t). t_name t) (thread_current s)"

section \<open>Priority donation\<close>

text \<open>
  The work list of \<open>get_priority\<close>: pop a thread, keep the larger priority, push the waiters
  of every lock it holds.
\<close>

definition thread_donors :: "(nat \<Rightarrow> nat list) \<Rightarrow> thread \<Rightarrow> nat list" where
  "thread_donors W t = concat (map W (held_locks t))"

partial_function (option) donors_loop ::
  "(nat \<rightharpoonup> thread) \<Rightarrow> (nat \<Rightarrow> nat list) \<Rightarrow> nat list \<Rightarrow> int \<Rightarrow> int option" where
  "donors_loop ths W donors max_priority =
     (case donors of
        [] \<Rightarrow> Some max_priority
      | p # ps \<Rightarrow> Option.bind (ths p) (\<lambda>t.
          donors_loop ths W (rev (thread_donors W t) @ ps)
            (if max_priority < base_priority t then base_priority t else max_priority)))"

declare donors_loop.simps [code]

definition get_priority :: "sched \<Rightarrow> nat \<Rightarrow> int option" where
  "get_priority s p =
     (if thread_mlfqs s then map_option priority (threads s p)
      else donors_loop (threads s) (lock_waiters s) [p] PRI_MIN)"

definition lower_priority :: "sched \<Rightarrow> nat \<Rightarrow> nat \<Rightarrow> bool option" where
  "lower_priority s p1 p2 = do {
     a \<leftarrow> get_priority s p1;
     b \<leftarrow> get_priority s p2;
     Some (a < b)
   }"

section \<open>Feedback queue\<close>

definition update_load_avg :: "sched \<Rightarrow> sched option" where
  "update_load_avg s = do {
     (cur, t) \<leftarrow> thread_current s;
     let ready_threads = int (length (ready_list s)) + (if Some cur \<noteq> idle_thread s then 1 else 0);
     c \<leftarrow> fxp_idivi LOAD_AVG_Q 59 60;
     a \<leftarrow> fxp_mul LOAD_AVG_Q c (load_avg s);
     b \<leftarrow> fxp_idivi LOAD_AVG_Q ready_threads 60;
     l \<leftarrow> fxp_add a b;
     Some (s\<lparr>load_avg := l\<rparr>)
   }"

definition update_recent_cpu :: "int \<Rightarrow> thread \<Rightarrow> thread option" where
  "update_recent_cpu load t = do {
     l2 \<leftarrow> fxp_muli load 2;
     l21 \<leftarrow> fxp_addi LOAD_AVG_Q l2 1;
     d \<leftarrow> fxp_div LOAD_AVG_Q l2 l21;
     c \<leftarrow> fxp_reformat LOAD_AVG_Q RECENT_CPU_Q d;
     m \<leftarrow> fxp_mul RECENT_CPU_Q c (recent_cpu t);
     r \<leftarrow> fxp_addi RECENT_CPU_Q m (nice t);
     Some (t\<lparr>recent_cpu := r\<rparr>)
   }"

definition update_priority :: "thread \<Rightarrow> thread option" where
  "update_priority t = do {
     d \<leftarrow> fxp_divi (recent_cpu t) 4;
     a \<leftarrow> fxp_isub RECENT_CPU_Q PRI_MAX d;
     n2 \<leftarrow> c_int (nice t * 2);
     b \<leftarrow> fxp_subi RECENT_CPU_Q a n2;
     p \<leftarrow> fxp_trunc RECENT_CPU_Q b;
     Some (t\<lparr>priority := (if p < PRI_MIN then PRI_MIN else if PRI_MAX < p then PRI_MAX else p)\<rparr>)
   }"

fun foreach_loop :: "(thread \<Rightarrow> thread option) \<Rightarrow> nat list \<Rightarrow> sched \<Rightarrow> sched option" where
  "foreach_loop func [] s = Some s"
| "foreach_loop func (p # ps) s = do {
     t \<leftarrow> threads s p;
     t' \<leftarrow> func t;
     foreach_loop func ps (put_thread p t' s)
   }"

definition thread_foreach :: "(thread \<Rightarrow> thread option) \<Rightarrow> sched \<Rightarrow> sched option" where
  "thread_foreach func s = do {
     kassert (\<not> intr_on s);
     foreach_loop func (all_list s) s
   }"

text \<open>The periodic updates of the feedback queue within \<open>thread_tick\<close>.\<close>

definition mlfqs_step :: "sched \<Rightarrow> sched option" where
  "mlfqs_step s = do {
     s3 \<leftarrow> (if ticks s smod TIMER_FREQ = 0 then do {
              s3 \<leftarrow> update_load_avg s;
              thread_foreach (update_recent_cpu (load_avg s3)) s3
            } else Some s);
     if ticks s3 smod 4 = 0 then thread_foreach update_priority s3 else Some s3
   }"

definition thread_tick :: "sched \<Rightarrow> sched option" where
  "thread_tick s = do {
     (cur, t) \<leftarrow> thread_current s;
     s1 \<leftarrow> (if Some cur = idle_thread s
            then do { n \<leftarrow> c_int64 (idle_ticks s + 1); Some (s\<lparr>idle_ticks := n\<rparr>) }
            else do { n \<leftarrow> c_int64 (kernel_ticks s + 1); Some (s\<lparr>kernel_ticks := n\<rparr>) });
     s2 \<leftarrow> (if thread_mlfqs s1 then do {
              r \<leftarrow> c_int (recent_cpu t + 1);
              mlfqs_step (put_thread cur (t\<lparr>recent_cpu := r\<rparr>) s1)
            } else Some s1);
     let n = thread_ticks s2 + 1;
     Some (s2\<lparr>thread_ticks := n, yield_on_return := (yield_on_return s2 \<or> TIME_SLICE \<le> n)\<rparr>)
   }"

section \<open>Switching threads\<close>

definition next_thread_to_run :: "sched_ops \<Rightarrow> sched \<Rightarrow> (nat option \<times> sched) option" where
  "next_thread_to_run ops s =
     (if ready_list s = [] then Some (idle_thread s, s)
      else do {
        (p, rest) \<leftarrow> list_pop_max ops (lower_priority s) (ready_list s);
        Some (Some p, s\<lparr>ready_list := rest\<rparr>)
      })"

definition thread_schedule_tail :: "nat option \<Rightarrow> sched \<Rightarrow> sched option" where
  "thread_schedule_tail prev s = do {
     kassert (\<not> intr_on s);
     t \<leftarrow> threads s (running s);
     let s1 = (put_thread (running s) (t\<lparr>status := THREAD_RUNNING\<rparr>) s)\<lparr>thread_ticks := 0\<rparr>;
     (case prev of
        None \<Rightarrow> Some s1
      | Some p \<Rightarrow> do {
          pt \<leftarrow> threads s1 p;
          if status pt = THREAD_DYING \<and> p \<noteq> initial_thread s1 then do {
            kassert (p \<noteq> running s1);
            Some (s1\<lparr>threads := (threads s1)(p := None)\<rparr>)
          } else Some s1
        })
   }"

definition schedule :: "sched_ops \<Rightarrow> sched \<Rightarrow> sched option" where
  "schedule ops s = do {
     let cur = running s;
     (nxt, s1) \<leftarrow> next_thread_to_run ops s;
     kassert (\<not> intr_on s1);
     t \<leftarrow> threads s1 cur;
     kassert (status t \<noteq> THREAD_RUNNING);
     kassert (is_thread s1 nxt);
     n \<leftarrow> nxt;
     thread_schedule_tail (if cur \<noteq> n then Some cur else None) (s1\<lparr>running := n\<rparr>)
   }"

text \<open>The thread that runs now goes on where it called \<open>schedule\<close>.\<close>

definition resume :: "sched \<Rightarrow> sched option" where
  "resume s = do {
     t \<leftarrow> threads s (running s);
     Some (s\<lparr>intr_on := saved_intr t\<rparr>)
   }"

definition thread_block :: "sched_ops \<Rightarrow> sched \<Rightarrow> sched option" where
  "thread_block ops s = do {
     kassert (\<not> in_intr s);
     kassert (\<not> intr_on s);
     (cur, t) \<leftarrow> thread_current s;
     schedule ops (put_thread cur (t\<lparr>status := THREAD_BLOCKED\<rparr>) s)
   }"

definition thread_unblock :: "nat \<Rightarrow> sched \<Rightarrow> sched option" where
  "thread_unblock p s = do {
     kassert (is_thread s (Some p));
     t \<leftarrow> threads s p;
     kassert (status t = THREAD_BLOCKED);
     Some ((put_thread p (t\<lparr>status := THREAD_READY\<rparr>) s)\<lparr>ready_list := ready_list s @ [p]\<rparr>)
   }"

definition thread_yield :: "sched_ops \<Rightarrow> sched \<Rightarrow> sched option" where
  "thread_yield ops s = do {
     (cur, t) \<leftarrow> thread_current s;
     kassert (\<not> in_intr s);
     let s1 = (if Some cur \<noteq> idle_thread s then s\<lparr>ready_list := ready_list s @ [cur]\<rparr> else s);
     s2 \<leftarrow> schedule ops ((put_thread cur (t\<lparr>status := THREAD_READY, saved_intr := intr_on s\<rparr>) s1)\<lparr>intr_on := False\<rparr>);
     resume s2
   }"

definition thread_exit :: "sched_ops \<Rightarrow> sched \<Rightarrow> sched option" where
  "thread_exit ops s = do {
     kassert (\<not> in_intr s);
     (cur, t) \<leftarrow> thread_current s;
     kassert (held_locks t = []);
     let s1 = (put_thread cur (t\<lparr>status := THREAD_DYING\<rparr>) s)\<lparr>intr_on := False, all_list := remove1 cur (all_list s)\<rparr>;
     s2 \<leftarrow> schedule ops s1;
     resume s2
   }"

section \<open>Creating threads\<close>

definition allocate_tid :: "sched \<Rightarrow> (int \<times> sched) option" where
  "allocate_tid s = do {
     n \<leftarrow> c_int (next_tid s + 1);
     Some (next_tid s, s\<lparr>next_tid := n\<rparr>)
   }"

definition init_thread :: "nat \<Rightarrow> string \<Rightarrow> int \<Rightarrow> int \<Rightarrow> int \<Rightarrow> sched \<Rightarrow> sched option" where
  "init_thread p name pri nc rcpu s = do {
     kassert (PRI_MIN \<le> pri \<and> pri \<le> PRI_MAX);
     let t = \<lparr>tid = 0, status = THREAD_BLOCKED, t_name = take 15 name, t_stack = PGSIZE, t_entry = None,
              base_priority = pri, held_locks = [], priority = 0, nice = nc, recent_cpu = rcpu,
              wakeup_ticks = 0, magic = THREAD_MAGIC, saved_intr = True\<rparr>;
     t' \<leftarrow> update_priority t;
     Some ((put_thread p t' s)\<lparr>all_list := all_list s @ [p]\<rparr>)
   }"

definition alloc_frame :: "thread \<Rightarrow> int \<Rightarrow> thread option" where
  "alloc_frame t sz = do {
     kassert (magic t = THREAD_MAGIC);
     kassert (sz smod 4 = 0);
     Some (t\<lparr>t_stack := t_stack t - sz\<rparr>)
   }"

definition thread_create :: "sched_ops \<Rightarrow> string \<Rightarrow> int \<Rightarrow> nat \<Rightarrow> nat \<Rightarrow> nat option \<Rightarrow> sched \<Rightarrow> (int \<times> sched) option" where
  "thread_create ops name pri func aux page s = do {
     kassert (func \<noteq> 0);
     (case page of
        None \<Rightarrow> Some (TID_ERROR, s)
      | Some p \<Rightarrow> do {
          (cur, ct) \<leftarrow> thread_current s;
          s1 \<leftarrow> init_thread p name pri (nice ct) (recent_cpu ct) s;
          (i, s2) \<leftarrow> allocate_tid s1;
          t \<leftarrow> threads s2 p;
          t1 \<leftarrow> alloc_frame (t\<lparr>tid := i\<rparr>) 12;
          t2 \<leftarrow> alloc_frame (t1\<lparr>t_entry := Some (func, aux)\<rparr>) (switch_entry_frame_size ops);
          t3 \<leftarrow> alloc_frame t2 (switch_threads_frame_size ops);
          s3 \<leftarrow> thread_unblock p (put_thread p t3 s2);
          s4 \<leftarrow> thread_yield ops s3;
          Some (i, s4)
        })
   }"

definition thread_init :: "nat \<Rightarrow> sched \<Rightarrow> sched option" where
  "thread_init p s = do {
     kassert (\<not> intr_on s);
     let s1 = s\<lparr>ready_list := [], all_list := [], load_avg := 0, initial_thread := p, running := p\<rparr>;
     s2 \<leftarrow> init_thread p ''main'' PRI_DEFAULT 0 0 s1;
     t \<leftarrow> threads s2 p;
     (i, s3) \<leftarrow> allocate_tid (put_thread p (t\<lparr>status := THREAD_RUNNING\<rparr>) s2);
     t' \<leftarrow> threads s3 p;
     Some (put_thread p (t'\<lparr>tid := i\<rparr>) s3)
   }"

section \<open>The running thread's parameters\<close>

definition thread_set_priority :: "sched_ops \<Rightarrow> int \<Rightarrow> sched \<Rightarrow> sched option" where
  "thread_set_priority ops new_priority s = do {
     kassert (PRI_MIN \<le> new_priority \<and> new_priority \<le> PRI_MAX);
     (cur, t) \<leftarrow> thread_current s;
     thread_yield ops (put_thread cur (t\<lparr>base_priority := new_priority\<rparr>) s)
   }"

definition thread_get_priority :: "sched \<Rightarrow> int option" where
  "thread_get_priority s = do { (cur, t) \<leftarrow> thread_current s; get_priority s cur }"

definition thread_set_nice :: "sched_ops \<Rightarrow> int \<Rightarrow> sched \<Rightarrow> sched option" where
  "thread_set_nice ops n s = do {
     kassert (NICE_MIN \<le> n \<and> n \<le> NICE_MAX);
     (cur, t) \<leftarrow> thread_current s;
     t' \<leftarrow> update_priority (t\<lparr>nice := n\<rparr>);
     thread_yield ops (put_thread cur t' s)
   }"

definition thread_get_nice :: "sched \<Rightarrow> int option" where
  "thread_get_nice s = map_option (\<lambda>(p, t). nice t) (thread_current s)"

definition thread_get_load_avg :: "sched \<Rightarrow> int option" where
  "thread_get_load_avg s = do { x \<leftarrow> fxp_muli (load_avg s) 100; fxp_round RECENT_CPU_Q x }"

definition thread_get_recent_cpu :: "sched \<Rightarrow> int option" where
  "thread_get_recent_cpu s = do {
     (cur, t) \<leftarrow> thread_current s;
     x \<leftarrow> fxp_muli (recent_cpu t) 100;
     fxp_round RECENT_CPU_Q x
   }"

text \<open>The idle thread: it registers itself, then blocks for ever after each interrupt.\<close>

definition idle_start :: "sched \<Rightarrow> sched option" where
  "idle_start s = do { (cur, t) \<leftarrow> thread_current s; Some (s\<lparr>idle_thread := Some cur\<rparr>) }"

definition idle_loop :: "sched_ops \<Rightarrow> sched \<Rightarrow> sched option" where
  "idle_loop ops s = do {
     (cur, t) \<leftarrow> thread_current s;
     s1 \<leftarrow> thread_block ops ((put_thread cur (t\<lparr>saved_intr := True\<rparr>) s)\<lparr>intr_on := False\<rparr>);
     resume s1
   }"

end
