(* ===== verification/Donation.thy ===== *)
theory Donation
  imports Scheduler "HOL-Library.Multiset"
begin

text \<open>
  Priority donation: what the work list of \<open>get_priority\<close> computes, that it ends when no
  thread waits for itself, and that it does not when one does.
\<close>

section \<open>Donors\<close>

text \<open>\<open>(u, t)\<close>: thread \<open>u\<close> waits for a lock that thread \<open>t\<close> holds.\<close>

definition waits_for :: "(nat \<rightharpoonup> thread) \<Rightarrow> (nat \<Rightarrow> nat list) \<Rightarrow> (nat \<times> nat) set" where
  "waits_for ths W = {(u, t). \<exists>r. ths t = Some r \<and> (\<exists>lk\<in>set (held_locks r). u \<in> set (W lk))}"

lemma waits_for_donors: "waits_for ths W = {(u, t). \<exists>r. ths t = Some r \<and> u \<in> set (thread_donors W r)}"
  by (simp add: waits_for_def thread_donors_def)

text \<open>The threads that wait for a thread, directly or through others, and the thread itself.\<close>

definition all_donors :: "sched \<Rightarrow> nat \<Rightarrow> nat set" where
  "all_donors s p = {u. (u, p) \<in> (waits_for (threads s) (lock_waiters s))\<^sup>*}"

definition donation_ok :: "sched \<Rightarrow> bool" where
  "donation_ok s \<longleftrightarrow> finite (dom (threads s)) \<and> acyclic (waits_for (threads s) (lock_waiters s)) \<and>
     (\<forall>t r. threads s t = Some r \<longrightarrow> set (thread_donors (lock_waiters s) r) \<subseteq> dom (threads s))"

lemma finite_waits_for:
  assumes "finite (dom ths)"
  shows "finite (waits_for ths W)"
proof -
  have "waits_for ths W \<subseteq> (\<Union>t\<in>dom ths. set (thread_donors W (the (ths t))) \<times> {t})"
    by (auto simp: waits_for_donors)
  moreover have "finite (\<Union>t\<in>dom ths. set (thread_donors W (the (ths t))) \<times> {t})" using assms by simp
  ultimately show ?thesis by (rule finite_subset)
qed

lemma donation_wf: "donation_ok s \<Longrightarrow> wf (waits_for (threads s) (lock_waiters s))"
  unfolding donation_ok_def using finite_waits_for finite_acyclic_wf by blast

section \<open>The work list\<close>

definition reach :: "(nat \<times> nat) set \<Rightarrow> nat list \<Rightarrow> nat set" where
  "reach r ps = {u. \<exists>p\<in>set ps. (u, p) \<in> r\<^sup>*}"

lemma reach_Cons:
  assumes "ths p = Some t"
  shows "reach (waits_for ths W) (p # ps) = insert p (reach (waits_for ths W) (rev (thread_donors W t) @ ps))"
proof -
  let ?r = "waits_for ths W"
  have "(u, p) \<in> ?r\<^sup>* \<longleftrightarrow> u = p \<or> (\<exists>v\<in>set (thread_donors W t). (u, v) \<in> ?r\<^sup>*)" for u
  proof
    assume "(u, p) \<in> ?r\<^sup>*"
    then show "u = p \<or> (\<exists>v\<in>set (thread_donors W t). (u, v) \<in> ?r\<^sup>*)"
      by (cases rule: rtranclE) (use assms in \<open>auto simp: waits_for_donors\<close>)
  next
    assume "u = p \<or> (\<exists>v\<in>set (thread_donors W t). (u, v) \<in> ?r\<^sup>*)"
    then show "(u, p) \<in> ?r\<^sup>*"
      using assms by (auto simp: waits_for_donors intro: rtrancl_into_rtrancl)
  qed
  then show ?thesis by (auto simp: reach_def)
qed

definition is_max :: "(nat \<rightharpoonup> thread) \<Rightarrow> nat set \<Rightarrow> int \<Rightarrow> int \<Rightarrow> bool" where
  "is_max ths D lo m \<longleftrightarrow> lo \<le> m \<and> (\<forall>u\<in>D. \<forall>t. ths u = Some t \<longrightarrow> base_priority t \<le> m) \<and>
     (m = lo \<or> (\<exists>u\<in>D. \<exists>t. ths u = Some t \<and> base_priority t = m))"

lemma donors_loop_spec:
  assumes wf: "wf (waits_for ths W)"
    and closed: "\<And>t r. ths t = Some r \<Longrightarrow> set (thread_donors W r) \<subseteq> dom ths"
    and "set ps \<subseteq> dom ths"
  shows "\<exists>m. donors_loop ths W ps lo = Some m \<and> is_max ths (reach (waits_for ths W) ps) lo m"
  using assms(3)
proof (induction "mset ps" arbitrary: ps lo rule: wf_induct_rule [OF wf_mult [OF wf]])
  case 1
  show ?case
  proof (cases ps)
    case Nil
    then show ?thesis by (simp add: donors_loop.simps is_max_def reach_def)
  next
    case (Cons p qs)
    then obtain t where t: "ths p = Some t" using 1(2) by auto
    let ?r = "waits_for ths W" and ?ps' = "rev (thread_donors W t) @ qs"
    let ?lo' = "if lo < base_priority t then base_priority t else lo"
    have "mset ps = add_mset p (mset qs)" "mset ?ps' = mset qs + mset (thread_donors W t)"
      "\<And>u. u \<in># mset (thread_donors W t) \<Longrightarrow> (u, p) \<in> ?r"
      using Cons t by (auto simp: waits_for_donors)
    then have "(mset ?ps', mset ps) \<in> mult1 ?r" by (rule mult1I)
    then have "(mset ?ps', mset ps) \<in> mult ?r" by (simp add: mult_def)
    moreover have "set ?ps' \<subseteq> dom ths" using closed [OF t] 1(2) Cons by auto
    ultimately obtain m where m: "donors_loop ths W ?ps' ?lo' = Some m" "is_max ths (reach ?r ?ps') ?lo' m"
      using 1(1) by blast
    have "donors_loop ths W ps lo = Some m" unfolding Cons by (subst donors_loop.simps) (simp add: t m(1))
    moreover have "is_max ths (reach ?r ps) lo m"
      using m(2) t unfolding Cons reach_Cons [of ths p t, OF t] is_max_def by (auto split: if_splits)
    ultimately show ?thesis by blast
  qed
qed

text \<open>A thread that waits for itself keeps the loop going for ever.\<close>

lemma donors_loop_cycle:
  assumes "donors_loop ths W ps lo = Some m"
  shows "\<forall>q\<in>set ps. (q, q) \<notin> (waits_for ths W)\<^sup>+"
proof (rule donors_loop.raw_induct [of "\<lambda>ths W ps lo m. \<forall>q\<in>set ps. (q, q) \<notin> (waits_for ths W)\<^sup>+", OF _ assms])
  fix loop ths W ps lo m
  assume 1: "\<And>ths W ps lo m. loop ths W ps lo = Some m \<Longrightarrow> \<forall>q\<in>set ps. (q, q) \<notin> (waits_for ths W)\<^sup>+"
    and 2: "(case ps of [] \<Rightarrow> Some lo | p # ps \<Rightarrow> Option.bind (ths p) (\<lambda>t. loop ths W (rev (thread_donors W t) @ ps)
        (if lo < base_priority t then base_priority t else lo))) = Some m"
  show "\<forall>q\<in>set ps. (q, q) \<notin> (waits_for ths W)\<^sup>+"
  proof (cases ps)
    case (Cons p qs)
    then obtain t where t: "ths p = Some t" and l: "loop ths W (rev (thread_donors W t) @ qs)
        (if lo < base_priority t then base_priority t else lo) = Some m"
      using 2 by (auto simp: bind_eq_Some_conv)
    note IH = 1 [OF l]
    have "(p, p) \<notin> (waits_for ths W)\<^sup>+"
    proof
      assume "(p, p) \<in> (waits_for ths W)\<^sup>+"
      then obtain v where v: "(p, v) \<in> (waits_for ths W)\<^sup>*" "(v, p) \<in> waits_for ths W"
        by (meson tranclD2)
      then have "v \<in> set (thread_donors W t)" using t by (auto simp: waits_for_donors)
      moreover have "(v, v) \<in> (waits_for ths W)\<^sup>+" using v by (meson rtrancl_into_trancl2)
      ultimately show False using IH by auto
    qed
    then show ?thesis using IH Cons by auto
  qed simp
qed

section \<open>Two threads and a lock\<close>

text \<open>
  Thread 1, of priority 10, runs and holds lock 5; thread 2, of priority 40, waits for it;
  thread 3 is the idle thread.
\<close>

definition plain_thread :: "int \<Rightarrow> thread_status \<Rightarrow> nat list \<Rightarrow> int \<Rightarrow> thread" where
  "plain_thread pri st locks i = \<lparr>tid = i, status = st, t_name = ''demo'', t_stack = 4052, t_entry = None, base_priority = pri,
     held_locks = locks, priority = 63, nice = 0, recent_cpu = 0, wakeup_ticks = 0, magic = THREAD_MAGIC, saved_intr = True\<rparr>"

definition demo_sched :: sched where
  "demo_sched = \<lparr>threads = [1 \<mapsto> plain_thread 10 THREAD_RUNNING [5] 1, 2 \<mapsto> plain_thread 40 THREAD_BLOCKED [] 2,
       3 \<mapsto> plain_thread 0 THREAD_BLOCKED [] 3],
     ready_list = [], all_list = [1, 3, 2], idle_thread = Some 3, initial_thread = 1, running = 1, intr_on = True,
     in_intr = False, next_tid = 4, load_avg = 0, idle_ticks = 0, kernel_ticks = 0, thread_ticks = 0,
     thread_mlfqs = False, yield_on_return = False, ticks = 0, asleep_list = [], loops_per_tick = 0,
     lock_waiters = (\<lambda>l. if l = 5 then [2] else [])\<rparr>"

lemma plain_thread_simps [simp]:
  "tid (plain_thread pri st locks i) = i" "status (plain_thread pri st locks i) = st"
  "base_priority (plain_thread pri st locks i) = pri" "held_locks (plain_thread pri st locks i) = locks"
  "priority (plain_thread pri st locks i) = 63" "nice (plain_thread pri st locks i) = 0"
  "recent_cpu (plain_thread pri st locks i) = 0" "magic (plain_thread pri st locks i) = THREAD_MAGIC"
  "saved_intr (plain_thread pri st locks i) = True" "wakeup_ticks (plain_thread pri st locks i) = 0"
  by (simp_all add: plain_thread_def)

lemma demo_waits_for: "waits_for (threads demo_sched) (lock_waiters demo_sched) = {(2, 1)}"
  by (auto simp: waits_for_donors demo_sched_def thread_donors_def split: if_splits)

lemma demo_donation_ok: "donation_ok demo_sched"
proof -
  have "acyclic {(2 :: nat, 1)}" by (simp add: acyclic_insert wf_acyclic)
  moreover have "finite (dom (threads demo_sched))" by (simp add: demo_sched_def)
  moreover have "set (thread_donors (lock_waiters demo_sched) r) \<subseteq> dom (threads demo_sched)" if "threads demo_sched t = Some r" for t r
    using that by (auto simp: demo_sched_def thread_donors_def split: if_splits)
  ultimately show ?thesis by (simp add: donation_ok_def demo_waits_for)
qed

section \<open>Properties\<close>

text \<open>
  C5 (equivalence): without the feedback queue, and as long as no thread waits for itself,
  \<open>get_priority\<close> returns, and what it returns is the largest base priority of the thread and
  of all the threads that wait for it, directly or through a chain of locks.
\<close>

theorem get_priority_donation:
  assumes "donation_ok s" "\<not> thread_mlfqs s" "threads s p = Some t"
    and "\<And>u r. threads s u = Some r \<Longrightarrow> PRI_MIN \<le> base_priority r"
  shows "\<exists>m. get_priority s p = Some m \<and> (\<forall>u\<in>all_donors s p. \<forall>r. threads s u = Some r \<longrightarrow> base_priority r \<le> m) \<and>
    (\<exists>u\<in>all_donors s p. \<exists>r. threads s u = Some r \<and> base_priority r = m)"
proof -
  have "reach (waits_for (threads s) (lock_waiters s)) [p] = all_donors s p" by (simp add: reach_def all_donors_def)
  moreover obtain m where m: "get_priority s p = Some m"
    "is_max (threads s) (reach (waits_for (threads s) (lock_waiters s)) [p]) PRI_MIN m"
    using donors_loop_spec [OF donation_wf [OF assms(1)], of "[p]" PRI_MIN] assms(1-3)
    by (auto simp: get_priority_def donation_ok_def)
  moreover have "p \<in> all_donors s p" by (simp add: all_donors_def)
  ultimately have up: "\<forall>u\<in>all_donors s p. \<forall>r. threads s u = Some r \<longrightarrow> base_priority r \<le> m"
    and at: "m = PRI_MIN \<or> (\<exists>u\<in>all_donors s p. \<exists>r. threads s u = Some r \<and> base_priority r = m)"
    and lo: "base_priority t \<le> m" "PRI_MIN \<le> base_priority t" and self: "p \<in> all_donors s p"
    using assms(3,4) by (auto simp: is_max_def)
  have "\<exists>u\<in>all_donors s p. \<exists>r. threads s u = Some r \<and> base_priority r = m"
  proof (cases "m = PRI_MIN")
    case True
    then have "base_priority t = m" using lo by simp
    then show ?thesis using self assms(3) by blast
  qed (use at in blast)
  with m(1) up show ?thesis by blast
qed

theorem get_priority_donation_witness: "get_priority demo_sched 1 = Some 40"
proof -
  have "threads demo_sched 1 = Some (plain_thread 10 THREAD_RUNNING [5] 1)" "\<not> thread_mlfqs demo_sched"
    by (simp_all add: demo_sched_def)
  moreover have "PRI_MIN \<le> base_priority r" if "threads demo_sched u = Some r" for u r
    using that by (auto simp: demo_sched_def split: if_splits)
  ultimately obtain m where m: "get_priority demo_sched 1 = Some m"
    "\<forall>u\<in>all_donors demo_sched 1. \<forall>r. threads demo_sched u = Some r \<longrightarrow> base_priority r \<le> m"
    "\<exists>u\<in>all_donors demo_sched 1. \<exists>r. threads demo_sched u = Some r \<and> base_priority r = m"
    using get_priority_donation [OF demo_donation_ok] by blast
  have "2 \<in> all_donors demo_sched 1" by (simp add: all_donors_def demo_waits_for r_into_rtrancl)
  then have "40 \<le> m" using m(2) by (auto simp: demo_sched_def)
  moreover have "m \<le> 40" using m(3) by (auto simp: demo_sched_def split: if_splits)
  ultimately show ?thesis using m(1) by simp
qed

text \<open>
  If a thread waits for a lock it holds, itself or through others,
  \<open>get_priority\<close> never returns for it; the scheduler calls it with interrupts off.
\<close>

theorem get_priority_deadlock:
  assumes "\<not> thread_mlfqs s" "(p, p) \<in> (waits_for (threads s) (lock_waiters s))\<^sup>+"
  shows "get_priority s p = None"
  using donors_loop_cycle [of "threads s" "lock_waiters s" "[p]" PRI_MIN] assms
  by (cases "get_priority s p") (auto simp: get_priority_def)

theorem get_priority_deadlock_witness:
  "get_priority (demo_sched\<lparr>lock_waiters := (\<lambda>l. if l = 5 then [1] else [])\<rparr>) 1 = None"
proof -
  let ?s = "demo_sched\<lparr>lock_waiters := (\<lambda>l. if l = 5 then [1] else [])\<rparr>"
  have "(1, 1) \<in> waits_for (threads ?s) (lock_waiters ?s)"
    by (simp add: waits_for_donors demo_sched_def thread_donors_def)
  then show ?thesis using get_priority_deadlock [of ?s 1] by (auto simp: demo_sched_def)
qed

end
