(* ===== verification/Sched_Inv.thy ===== *)
theory Sched_Inv
  imports Donation
begin

text \<open>
  The invariant of the scheduler and that every operation of \<open>thread.c\<close> keeps it: one
  running thread, a ready list that holds exactly the ready threads, an idle thread that is
  never on it, thread identifiers that are never reused.
\<close>

section \<open>The invariant\<close>

text \<open>Priorities and nice values in their ranges; \<open>recent_cpu\<close> is an \<open>int\<close>.\<close>

definition params_ok :: "thread \<Rightarrow> bool" where
  "params_ok t \<longleftrightarrow> PRI_MIN \<le> base_priority t \<and> base_priority t \<le> PRI_MAX \<and>
     PRI_MIN \<le> priority t \<and> priority t \<le> PRI_MAX \<and> NICE_MIN \<le> nice t \<and> nice t \<le> NICE_MAX \<and> is_int (recent_cpu t)"

lemma params_ok_status [simp]:
  "params_ok (t\<lparr>status := st\<rparr>) = params_ok t" "params_ok (t\<lparr>saved_intr := b\<rparr>) = params_ok t"
  "params_ok (t\<lparr>wakeup_ticks := w\<rparr>) = params_ok t" "params_ok (t\<lparr>tid := i\<rparr>) = params_ok t"
  "params_ok (t\<lparr>t_entry := e\<rparr>) = params_ok t" "params_ok (t\<lparr>t_stack := k\<rparr>) = params_ok t"
  by (simp_all add: params_ok_def)

definition thread_wf :: "nat set \<Rightarrow> sched \<Rightarrow> nat \<Rightarrow> thread \<Rightarrow> bool" where
  "thread_wf R s p t \<longleftrightarrow> magic t = THREAD_MAGIC \<and>
     (status t = THREAD_RUNNING \<longleftrightarrow> p \<in> R) \<and>
     (p \<in> set (ready_list s) \<longrightarrow> status t = THREAD_READY) \<and>
     (status t = THREAD_READY \<longrightarrow> p \<in> set (ready_list s) \<or> idle_thread s = Some p) \<and>
     (status t = THREAD_DYING \<longrightarrow> p = initial_thread s \<or> p = running s) \<and>
     (p \<in> set (all_list s) \<longleftrightarrow> status t \<noteq> THREAD_DYING) \<and>
     0 < tid t \<and> tid t < next_tid s \<and> params_ok t"

definition sched_wf :: "nat set \<Rightarrow> sched \<Rightarrow> bool" where
  "sched_wf R s \<longleftrightarrow> (\<forall>p t. threads s p = Some t \<longrightarrow> thread_wf R s p t) \<and>
     set (ready_list s) \<subseteq> dom (threads s) \<and> set (all_list s) \<subseteq> dom (threads s) \<and>
     distinct (ready_list s) \<and> distinct (all_list s) \<and> finite (dom (threads s)) \<and>
     running s \<in> dom (threads s) \<and>
     (\<exists>i t. idle_thread s = Some i \<and> threads s i = Some t \<and> status t \<noteq> THREAD_DYING \<and> i \<notin> set (ready_list s)) \<and>
     (\<forall>p q t u. threads s p = Some t \<longrightarrow> threads s q = Some u \<longrightarrow> tid t = tid u \<longrightarrow> p = q)"

definition sched_inv :: "sched \<Rightarrow> bool" where
  "sched_inv s \<longleftrightarrow> sched_wf {running s} s"

lemma sched_wfI:
  assumes "\<And>p t. threads s p = Some t \<Longrightarrow> thread_wf R s p t"
    and "set (ready_list s) \<subseteq> dom (threads s)" "set (all_list s) \<subseteq> dom (threads s)"
    and "distinct (ready_list s)" "distinct (all_list s)" "finite (dom (threads s))" "running s \<in> dom (threads s)"
    and "idle_thread s = Some i" "threads s i = Some ti" "status ti \<noteq> THREAD_DYING" "i \<notin> set (ready_list s)"
    and "\<And>p q t u. threads s p = Some t \<Longrightarrow> threads s q = Some u \<Longrightarrow> tid t = tid u \<Longrightarrow> p = q"
  shows "sched_wf R s"
  using assms unfolding sched_wf_def by blast

lemma sched_wfD:
  assumes "sched_wf R s"
  shows "threads s p = Some t \<Longrightarrow> thread_wf R s p t"
    "set (ready_list s) \<subseteq> dom (threads s)" "set (all_list s) \<subseteq> dom (threads s)"
    "distinct (ready_list s)" "distinct (all_list s)" "finite (dom (threads s))" "running s \<in> dom (threads s)"
    "\<exists>i ti. idle_thread s = Some i \<and> threads s i = Some ti \<and> status ti \<noteq> THREAD_DYING \<and> i \<notin> set (ready_list s)"
    "threads s p = Some t \<Longrightarrow> threads s q = Some u \<Longrightarrow> tid t = tid u \<Longrightarrow> p = q"
  using assms unfolding sched_wf_def by blast+

text \<open>What is documented of \<open>list_pop_max\<close>: it removes and returns a greatest element.\<close>

definition pop_max_ok :: "sched_ops \<Rightarrow> bool" where
  "pop_max_ok ops \<longleftrightarrow> (\<forall>less key xs. xs \<noteq> [] \<longrightarrow> (\<forall>a\<in>set xs. \<forall>b\<in>set xs. less a b = Some (key a < (key b :: int))) \<longrightarrow>
     (\<exists>e. list_pop_max ops less xs = Some (e, remove1 e xs) \<and> e \<in> set xs \<and> (\<forall>x\<in>set xs. key x \<le> key e)))"

text \<open>Every priority can be computed.\<close>

definition priorities_ok :: "sched \<Rightarrow> bool" where
  "priorities_ok s \<longleftrightarrow> (\<forall>p\<in>dom (threads s). \<exists>m. get_priority s p = Some m)"

lemma priorities_okI:
  assumes "thread_mlfqs s \<or> donation_ok s"
  shows "priorities_ok s"
  unfolding priorities_ok_def
proof
  fix p assume p: "p \<in> dom (threads s)"
  show "\<exists>m. get_priority s p = Some m"
  proof (cases "thread_mlfqs s")
    case True
    then show ?thesis using p by (auto simp: get_priority_def)
  next
    case False
    then have d: "donation_ok s" using assms by simp
    have "\<exists>m. donors_loop (threads s) (lock_waiters s) [p] PRI_MIN = Some m"
      using donors_loop_spec [OF donation_wf [OF d], of "[p]" PRI_MIN] p d by (auto simp: donation_ok_def)
    then show ?thesis using False by (simp add: get_priority_def)
  qed
qed

text \<open>The priorities depend on the base priorities, the locks and the feedback priority only.\<close>

definition same_pri :: "thread \<Rightarrow> thread \<Rightarrow> bool" where
  "same_pri t u \<longleftrightarrow> base_priority t = base_priority u \<and> held_locks t = held_locks u \<and> priority t = priority u"

lemma donors_loop_mono:
  assumes "donors_loop a W ps lo = Some m" "\<forall>q u. a q = Some u \<longrightarrow> (\<exists>v. b q = Some v \<and> same_pri u v)"
  shows "donors_loop b W ps lo = Some m"
proof -
  have "(\<forall>q u. a q = Some u \<longrightarrow> (\<exists>v. b q = Some v \<and> same_pri u v)) \<longrightarrow> donors_loop b W ps lo = Some m"
  proof (rule donors_loop.raw_induct [of "\<lambda>a W ps lo m. (\<forall>q u. a q = Some u \<longrightarrow> (\<exists>v. b q = Some v \<and> same_pri u v)) \<longrightarrow>
      donors_loop b W ps lo = Some m", OF _ assms(1)])
    fix loop a W ps lo m
    assume 1: "\<And>a W ps lo m. loop a W ps lo = Some m \<Longrightarrow> (\<forall>q u. a q = Some u \<longrightarrow> (\<exists>v. b q = Some v \<and> same_pri u v)) \<longrightarrow>
        donors_loop b W ps lo = Some m"
      and 2: "(case ps of [] \<Rightarrow> Some lo | p # ps \<Rightarrow> Option.bind (a p) (\<lambda>t. loop a W (rev (thread_donors W t) @ ps)
        (if lo < base_priority t then base_priority t else lo))) = Some m"
    show "(\<forall>q u. a q = Some u \<longrightarrow> (\<exists>v. b q = Some v \<and> same_pri u v)) \<longrightarrow> donors_loop b W ps lo = Some m"
    proof
      assume 3: "\<forall>q u. a q = Some u \<longrightarrow> (\<exists>v. b q = Some v \<and> same_pri u v)"
      show "donors_loop b W ps lo = Some m"
      proof (cases ps)
        case Nil
        then show ?thesis using 2 by (simp add: donors_loop.simps)
      next
        case (Cons q qs)
        then obtain u where u: "a q = Some u" and l: "loop a W (rev (thread_donors W u) @ qs)
          (if lo < base_priority u then base_priority u else lo) = Some m"
          using 2 by (auto simp: bind_eq_Some_conv)
        obtain v where v: "b q = Some v" "same_pri u v" using 3 u by blast
        have "thread_donors W v = thread_donors W u" "base_priority v = base_priority u"
          using v(2) by (simp_all add: thread_donors_def same_pri_def)
        then show ?thesis using 1 [OF l] 3 v(1) unfolding Cons by (subst donors_loop.simps) (simp split: if_splits)
      qed
    qed
  qed
  then show ?thesis using assms(2) by blast
qed

lemma same_pri_refl [simp]: "same_pri t t"
  by (simp add: same_pri_def)

lemma same_pri_sym: "same_pri t u \<Longrightarrow> same_pri u t"
  by (simp add: same_pri_def)

lemma donors_loop_put:
  assumes "ths p = Some t" "same_pri t t'"
  shows "donors_loop (ths(p \<mapsto> t')) W ps lo = donors_loop ths W ps lo"
proof -
  have "donors_loop (ths(p \<mapsto> t')) W ps lo = Some m \<longleftrightarrow> donors_loop ths W ps lo = Some m" for m
    using assms same_pri_sym [OF assms(2)] by (auto elim!: donors_loop_mono split: if_splits)
  then show ?thesis by (metis not_Some_eq)
qed

lemma get_priority_put:
  assumes "threads s p = Some t" "same_pri t t'"
    and "threads s' = (threads s)(p \<mapsto> t')" "lock_waiters s' = lock_waiters s" "thread_mlfqs s' = thread_mlfqs s"
  shows "get_priority s' q = get_priority s q"
  using donors_loop_put [of "threads s" p t t'] assms by (auto simp: get_priority_def same_pri_def)

section \<open>Switching\<close>

lemma put_thread_simps [simp]:
  "threads (put_thread p t s) = (threads s)(p \<mapsto> t)" "ready_list (put_thread p t s) = ready_list s"
  "all_list (put_thread p t s) = all_list s" "idle_thread (put_thread p t s) = idle_thread s"
  "initial_thread (put_thread p t s) = initial_thread s" "running (put_thread p t s) = running s"
  "intr_on (put_thread p t s) = intr_on s" "in_intr (put_thread p t s) = in_intr s"
  "next_tid (put_thread p t s) = next_tid s" "lock_waiters (put_thread p t s) = lock_waiters s"
  "thread_mlfqs (put_thread p t s) = thread_mlfqs s" "ticks (put_thread p t s) = ticks s"
  "asleep_list (put_thread p t s) = asleep_list s" "load_avg (put_thread p t s) = load_avg s"
  "thread_ticks (put_thread p t s) = thread_ticks s" "yield_on_return (put_thread p t s) = yield_on_return s"
  by (simp_all add: put_thread_def)

lemma sched_invD:
  assumes "sched_inv s"
  obtains t where "threads s (running s) = Some t" "status t = THREAD_RUNNING" "magic t = THREAD_MAGIC"
    "thread_current s = Some (running s, t)"
proof -
  obtain t where t: "threads s (running s) = Some t" using sched_wfD(7) assms by (force simp: sched_inv_def)
  have "thread_wf {running s} s (running s) t" using sched_wfD(1) assms t by (simp add: sched_inv_def)
  then have "status t = THREAD_RUNNING" "magic t = THREAD_MAGIC" by (simp_all add: thread_wf_def)
  with t that show ?thesis by (simp add: thread_current_def is_thread_def)
qed

text \<open>
  The state in which \<open>schedule\<close> is called: the current thread is not running any more.
  What it leaves: a thread of greatest priority runs; a dead thread is freed.
\<close>

lemma next_thread_spec:
  assumes wf: "sched_wf {} s" and pm: "pop_max_ok ops" and pr: "priorities_ok s"
  shows "\<exists>n tn. next_thread_to_run ops s = Some (Some n, s\<lparr>ready_list := remove1 n (ready_list s)\<rparr>) \<and>
    threads s n = Some tn \<and> status tn \<noteq> THREAD_DYING \<and>
    (n \<in> set (ready_list s) \<or> ready_list s = [] \<and> idle_thread s = Some n) \<and>
    (\<forall>q\<in>set (ready_list s). \<forall>a b. get_priority s q = Some a \<longrightarrow> get_priority s n = Some b \<longrightarrow> a \<le> b)"
proof (cases "ready_list s = []")
  case True
  then show ?thesis using sched_wfD(8) [OF wf] by (auto simp: next_thread_to_run_def)
next
  case False
  define key where "key q = the (get_priority s q)" for q
  have k: "get_priority s q = Some (key q)" if "q \<in> set (ready_list s)" for q
    using that sched_wfD(2) [OF wf] pr by (force simp: priorities_ok_def key_def)
  then have "\<forall>a\<in>set (ready_list s). \<forall>b\<in>set (ready_list s). lower_priority s a b = Some (key a < key b)"
    by (simp add: lower_priority_def)
  then obtain e where e: "list_pop_max ops (lower_priority s) (ready_list s) = Some (e, remove1 e (ready_list s))"
    "e \<in> set (ready_list s)" "\<forall>x\<in>set (ready_list s). key x \<le> key e"
    using pm False unfolding pop_max_ok_def by blast
  obtain te where te: "threads s e = Some te" using e(2) sched_wfD(2) [OF wf] by auto
  then have "status te = THREAD_READY" using sched_wfD(1) [OF wf te] e(2) by (simp add: thread_wf_def)
  then show ?thesis using e te k False by (auto simp: next_thread_to_run_def)
qed

definition switched :: "nat \<Rightarrow> thread \<Rightarrow> sched \<Rightarrow> sched" where
  "switched n tn s = s\<lparr>ready_list := remove1 n (ready_list s), running := n, thread_ticks := 0,
     threads := (\<lambda>p. if p = n then Some (tn\<lparr>status := THREAD_RUNNING\<rparr>)
       else if p = running s \<and> p \<noteq> initial_thread s \<and> map_option status (threads s p) = Some THREAD_DYING then None
       else threads s p)\<rparr>"

lemma switched_simps [simp]:
  "ready_list (switched n tn s) = remove1 n (ready_list s)" "all_list (switched n tn s) = all_list s"
  "idle_thread (switched n tn s) = idle_thread s" "initial_thread (switched n tn s) = initial_thread s"
  "running (switched n tn s) = n" "intr_on (switched n tn s) = intr_on s" "in_intr (switched n tn s) = in_intr s"
  "next_tid (switched n tn s) = next_tid s" "lock_waiters (switched n tn s) = lock_waiters s"
  "thread_mlfqs (switched n tn s) = thread_mlfqs s" "asleep_list (switched n tn s) = asleep_list s"
  "ticks (switched n tn s) = ticks s"
  by (simp_all add: switched_def)

lemma switched_threads:
  "threads (switched n tn s) n = Some (tn\<lparr>status := THREAD_RUNNING\<rparr>)"
  "threads (switched n tn s) p = Some t \<Longrightarrow> p \<noteq> n \<Longrightarrow> threads s p = Some t \<and>
     (p = running s \<longrightarrow> p \<noteq> initial_thread s \<longrightarrow> status t \<noteq> THREAD_DYING)"
  "threads s p = Some t \<Longrightarrow> status t \<noteq> THREAD_DYING \<Longrightarrow> p \<noteq> n \<Longrightarrow> threads (switched n tn s) p = Some t"
  by (auto simp: switched_def split: if_splits)

lemma switched_inv:
  assumes wf: "sched_wf {} s" and n: "threads s n = Some tn" "status tn \<noteq> THREAD_DYING"
    and r: "n \<in> set (ready_list s) \<or> ready_list s = [] \<and> idle_thread s = Some n"
  shows "sched_inv (switched n tn s)"
  unfolding sched_inv_def switched_simps
proof -
  let ?s = "switched n tn s"
  obtain i ti where i: "idle_thread s = Some i" "threads s i = Some ti" "status ti \<noteq> THREAD_DYING" "i \<notin> set (ready_list s)"
    using sched_wfD(8) [OF wf] by blast
  have tw: "thread_wf {} s p t" if "threads s p = Some t" for p t by (rule sched_wfD(1) [OF wf that])
  have keep: "p \<in> dom (threads ?s)" if "threads s p = Some t" "status t \<noteq> THREAD_DYING" for p t
    using switched_threads(1,3) that by (cases "p = n") auto
  have mem: "p \<in> set (remove1 n (ready_list s)) \<longleftrightarrow> p \<in> set (ready_list s) \<and> p \<noteq> n" for p
    using sched_wfD(4) [OF wf] by auto
  obtain ti' where i': "threads ?s i = Some ti'" "status ti' \<noteq> THREAD_DYING"
    using i switched_threads(1,3) by (cases "i = n") auto
  show "sched_wf {n} ?s"
  proof (rule sched_wfI [where i = i and ti = ti'])
    show "thread_wf {n} ?s p t" if "threads ?s p = Some t" for p t
    proof (cases "p = n")
      case True
      then show ?thesis using that switched_threads(1) tw [OF n(1)] n(2) mem by (auto simp: thread_wf_def)
    next
      case False
      then show ?thesis using switched_threads(2) [OF that False] tw [of p t] mem r by (auto simp: thread_wf_def)
    qed
    show "set (ready_list ?s) \<subseteq> dom (threads ?s)"
    proof
      fix p assume "p \<in> set (ready_list ?s)"
      then have p: "p \<in> set (ready_list s)" using mem by simp
      then obtain t where t: "threads s p = Some t" using sched_wfD(2) [OF wf] by blast
      then show "p \<in> dom (threads ?s)" using tw [OF t] p by (intro keep) (auto simp: thread_wf_def)
    qed
    show "set (all_list ?s) \<subseteq> dom (threads ?s)"
    proof
      fix p assume "p \<in> set (all_list ?s)"
      then have p: "p \<in> set (all_list s)" by simp
      then obtain t where t: "threads s p = Some t" using sched_wfD(3) [OF wf] by blast
      then show "p \<in> dom (threads ?s)" using tw [OF t] p by (intro keep) (auto simp: thread_wf_def)
    qed
    show "distinct (ready_list ?s)" "distinct (all_list ?s)"
      using sched_wfD(4,5) [OF wf] by (simp_all add: distinct_remove1)
    have "dom (threads ?s) \<subseteq> dom (threads s)" using n(1) by (auto simp: switched_def split: if_splits)
    then show "finite (dom (threads ?s))" using sched_wfD(6) [OF wf] finite_subset by blast
    show "running ?s \<in> dom (threads ?s)" using switched_threads(1) by auto
    show "idle_thread ?s = Some i" "threads ?s i = Some ti'" "status ti' \<noteq> THREAD_DYING" using i(1) i' by simp_all
    show "i \<notin> set (ready_list ?s)" using i(4) mem by simp
    show "p = q" if pq: "threads ?s p = Some t" "threads ?s q = Some u" "tid t = tid u" for p q t u
    proof -
      have old: "\<exists>t'. threads s p = Some t' \<and> tid t' = tid t" if "threads ?s p = Some t" for p t
        using that switched_threads(1) switched_threads(2) [OF that] n(1) by (cases "p = n") auto
      obtain t' u' where "threads s p = Some t'" "threads s q = Some u'" "tid t' = tid u'"
        using old [OF pq(1)] old [OF pq(2)] pq(3) by auto
      then show ?thesis by (rule sched_wfD(9) [OF wf])
    qed
  qed
qed

lemma schedule_spec:
  assumes wf: "sched_wf {} s" and pm: "pop_max_ok ops" and pr: "priorities_ok s" and off: "\<not> intr_on s"
  shows "\<exists>n tn. schedule ops s = Some (switched n tn s) \<and> threads s n = Some tn \<and> sched_inv (switched n tn s) \<and>
    (n \<in> set (ready_list s) \<or> ready_list s = [] \<and> idle_thread s = Some n) \<and>
    (\<forall>q\<in>set (ready_list s). \<forall>a b. get_priority s q = Some a \<longrightarrow> get_priority s n = Some b \<longrightarrow> a \<le> b)"
proof -
  obtain n tn where n: "next_thread_to_run ops s = Some (Some n, s\<lparr>ready_list := remove1 n (ready_list s)\<rparr>)"
    "threads s n = Some tn" "status tn \<noteq> THREAD_DYING"
    "n \<in> set (ready_list s) \<or> ready_list s = [] \<and> idle_thread s = Some n"
    "\<forall>q\<in>set (ready_list s). \<forall>a b. get_priority s q = Some a \<longrightarrow> get_priority s n = Some b \<longrightarrow> a \<le> b"
    using next_thread_spec [OF wf pm pr] by blast
  obtain tc where tc: "threads s (running s) = Some tc" using sched_wfD(7) [OF wf] by blast
  have st: "status tc \<noteq> THREAD_RUNNING" "magic tn = THREAD_MAGIC"
    using sched_wfD(1) [OF wf tc] sched_wfD(1) [OF wf n(2)] by (simp_all add: thread_wf_def)
  have "schedule ops s = Some (switched n tn s)"
  proof (cases "running s = n")
    case True
    then show ?thesis using n(1-3) tc st off
      by (simp add: schedule_def thread_schedule_tail_def is_thread_def Let_def put_thread_def switched_def fun_eq_iff)
  next
    case False
    then show ?thesis using n(1-3) tc st off
      by (auto simp: schedule_def thread_schedule_tail_def is_thread_def Let_def put_thread_def switched_def fun_eq_iff)
  qed
  then show ?thesis using n switched_inv [OF wf n(2-4)] by blast
qed

section \<open>Leaving the CPU\<close>

lemma leave_cpu:
  assumes inv: "sched_inv s" and t: "threads s (running s) = Some t"
    and st: "st \<noteq> THREAD_RUNNING" "st = THREAD_DYING \<Longrightarrow> idle_thread s \<noteq> Some (running s)"
    and t': "status t' = st" "magic t' = magic t" "tid t' = tid t" "params_ok t'"
    and s1: "threads s1 = (threads s)(running s \<mapsto> t')"
      "ready_list s1 = (if st = THREAD_READY \<and> idle_thread s \<noteq> Some (running s) then ready_list s @ [running s] else ready_list s)"
      "all_list s1 = (if st = THREAD_DYING then remove1 (running s) (all_list s) else all_list s)"
      "idle_thread s1 = idle_thread s" "initial_thread s1 = initial_thread s" "running s1 = running s" "next_tid s1 = next_tid s"
  shows "sched_wf {} s1"
proof -
  let ?c = "running s"
  have wf: "sched_wf {?c} s" using inv by (simp add: sched_inv_def)
  have tw: "thread_wf {?c} s p u" if "threads s p = Some u" for p u by (rule sched_wfD(1) [OF wf that])
  note tc = tw [OF t, unfolded thread_wf_def]
  have c: "?c \<notin> set (ready_list s)" using tc by auto
  obtain i ti where i: "idle_thread s = Some i" "threads s i = Some ti" "status ti \<noteq> THREAD_DYING" "i \<notin> set (ready_list s)"
    using sched_wfD(8) [OF wf] by blast
  have ra: "set (ready_list s1) = set (ready_list s) \<union> (if st = THREAD_READY \<and> idle_thread s \<noteq> Some ?c then {?c} else {})"
    "set (all_list s1) = set (all_list s) - (if st = THREAD_DYING then {?c} else {})"
    using sched_wfD(5) [OF wf] by (auto simp: s1(2,3))
  show ?thesis
  proof (rule sched_wfI [where i = i and ti = "if i = ?c then t' else ti"])
    show "thread_wf {} s1 p u" if "threads s1 p = Some u" for p u
    proof (cases "p = ?c")
      case True
      then show ?thesis using that tc st t' s1 ra by (auto simp: thread_wf_def)
    next
      case False
      then have "threads s p = Some u" using that s1(1) by simp
      from tw [OF this] show ?thesis using False s1 ra by (auto simp: thread_wf_def)
    qed
    show "set (ready_list s1) \<subseteq> dom (threads s1)" "set (all_list s1) \<subseteq> dom (threads s1)"
      using sched_wfD(2,3) [OF wf] unfolding ra by (auto simp: s1(1))
    show "distinct (ready_list s1)" "distinct (all_list s1)"
      using sched_wfD(4,5) [OF wf] c by (simp_all add: s1(2,3) distinct_remove1)
    show "finite (dom (threads s1))" "running s1 \<in> dom (threads s1)" using sched_wfD(6) [OF wf] by (simp_all add: s1)
    show "idle_thread s1 = Some i" "threads s1 i = Some (if i = ?c then t' else ti)" using i by (simp_all add: s1)
    show "status (if i = ?c then t' else ti) \<noteq> THREAD_DYING" using i st t' by auto
    show "i \<notin> set (ready_list s1)" using i ra by auto
    show "p = q" if pq: "threads s1 p = Some a" "threads s1 q = Some b" "tid a = tid b" for p q a b
    proof -
      have old: "\<exists>a'. threads s p = Some a' \<and> tid a' = tid a" if "threads s1 p = Some a" for p a
        using that t t'(3) by (cases "p = ?c") (auto simp: s1(1))
      obtain a' b' where "threads s p = Some a'" "threads s q = Some b'" "tid a' = tid b'"
        using old [OF pq(1)] old [OF pq(2)] pq(3) by auto
      then show ?thesis by (rule sched_wfD(9) [OF wf])
    qed
  qed
qed

lemma resume_inv: "sched_inv s \<Longrightarrow> \<exists>t. threads s (running s) = Some t \<and> resume s = Some (s\<lparr>intr_on := saved_intr t\<rparr>) \<and>
    sched_inv (s\<lparr>intr_on := saved_intr t\<rparr>)"
  using sched_invD [of s] by (fastforce simp: resume_def sched_inv_def sched_wf_def thread_wf_def)

lemma current_pri:
  assumes "sched_inv s" "threads s p = Some t"
  shows "params_ok t"
  using sched_wfD(1) [of "{running s}" s p t] assms by (simp add: sched_inv_def thread_wf_def)

lemma priorities_put:
  assumes "threads s p = Some t" "same_pri t t'"
    and "threads s' = (threads s)(p \<mapsto> t')" "lock_waiters s' = lock_waiters s" "thread_mlfqs s' = thread_mlfqs s"
  shows "priorities_ok s' = priorities_ok s"
  using get_priority_put [OF assms] assms(1,3) unfolding priorities_ok_def by auto

lemma switched_alive:
  assumes "threads s (running s) = Some t" "status t \<noteq> THREAD_DYING"
  shows "threads (switched n tn s) = (threads s)(n \<mapsto> tn\<lparr>status := THREAD_RUNNING\<rparr>)"
  using assms by (auto simp: switched_def fun_eq_iff)

lemma thread_yield_spec:
  assumes inv: "sched_inv s" and pm: "pop_max_ok ops" and pr: "priorities_ok s" and ctx: "\<not> in_intr s"
  shows "\<exists>s'. thread_yield ops s = Some s' \<and> sched_inv s' \<and> running s' \<in> insert (running s) (set (ready_list s)) \<and>
    ready_list s' = remove1 (running s') (if idle_thread s = Some (running s) then ready_list s else ready_list s @ [running s]) \<and>
    (\<forall>q. get_priority s' q = get_priority s q) \<and> \<not> in_intr s' \<and> next_tid s' = next_tid s \<and>
    idle_thread s' = idle_thread s \<and> asleep_list s' = asleep_list s \<and> thread_mlfqs s' = thread_mlfqs s \<and>
    (\<forall>q. q \<noteq> running s \<longrightarrow> q \<noteq> running s' \<longrightarrow> threads s' q = threads s q) \<and>
    (\<forall>q\<in>set (ready_list s'). \<forall>a b. get_priority s' q = Some a \<longrightarrow> get_priority s' (running s') = Some b \<longrightarrow> a \<le> b)"
proof -
  let ?c = "running s"
  obtain t where t: "threads s ?c = Some t" "thread_current s = Some (?c, t)" using sched_invD [OF inv] by blast
  define t' where "t' = t\<lparr>status := THREAD_READY, saved_intr := intr_on s\<rparr>"
  define rl where "rl = (if idle_thread s = Some ?c then ready_list s else ready_list s @ [?c])"
  define s1 where "s1 = (put_thread ?c t' s)\<lparr>ready_list := rl, intr_on := False\<rparr>"
  have e: "(put_thread ?c t' (if Some ?c \<noteq> idle_thread s then s\<lparr>ready_list := ready_list s @ [?c]\<rparr> else s))\<lparr>intr_on := False\<rparr> = s1"
    by (auto simp: s1_def rl_def put_thread_def)
  have sp: "same_pri t t'" by (simp add: same_pri_def t'_def)
  have wf: "sched_wf {} s1"
    by (rule leave_cpu [OF inv t(1), of THREAD_READY t']) (use current_pri [OF inv t(1)] in \<open>simp_all add: s1_def rl_def t'_def\<close>)
  have g1: "get_priority s1 q = get_priority s q" for q
    by (rule get_priority_put [OF t(1) sp]) (simp_all add: s1_def)
  have pr1: "priorities_ok s1" using priorities_put [OF t(1) sp, of s1] pr by (simp add: s1_def)
  have off: "\<not> intr_on s1" by (simp add: s1_def)
  obtain n tn where n: "schedule ops s1 = Some (switched n tn s1)" "threads s1 n = Some tn" "sched_inv (switched n tn s1)"
    "n \<in> set (ready_list s1) \<or> ready_list s1 = [] \<and> idle_thread s1 = Some n"
    "\<forall>q\<in>set (ready_list s1). \<forall>a b. get_priority s1 q = Some a \<longrightarrow> get_priority s1 n = Some b \<longrightarrow> a \<le> b"
    using schedule_spec [OF wf pm pr1 off] by blast
  obtain tr :: thread where r: "resume (switched n tn s1) = Some ((switched n tn s1)\<lparr>intr_on := saved_intr tr\<rparr>)"
    "sched_inv ((switched n tn s1)\<lparr>intr_on := saved_intr tr\<rparr>)" using resume_inv [OF n(3)] by blast
  define s' where "s' = (switched n tn s1)\<lparr>intr_on := saved_intr tr\<rparr>"
  have y: "thread_yield ops s = Some s'"
    using e n(1) r(1) ctx t(2) by (simp add: thread_yield_def t'_def s'_def Let_def)
  have "threads (switched n tn s1) = (threads s1)(n \<mapsto> tn\<lparr>status := THREAD_RUNNING\<rparr>)"
    by (rule switched_alive [of _ t']) (simp_all add: s1_def t'_def)
  then have g': "get_priority s' q = get_priority s1 q" for q
    by (intro get_priority_put [OF n(2)]) (simp_all add: same_pri_def s'_def)
  have rs: "ready_list s' = remove1 n rl" "running s' = n" "ready_list s1 = rl" "idle_thread s1 = idle_thread s"
    by (simp_all add: s'_def s1_def)
  have "n \<in> insert ?c (set (ready_list s))" using n(4) by (auto simp: rs rl_def split: if_splits)
  moreover have "\<not> in_intr s'" "next_tid s' = next_tid s" "idle_thread s' = idle_thread s" "asleep_list s' = asleep_list s"
    "thread_mlfqs s' = thread_mlfqs s"
    using ctx by (simp_all add: s'_def s1_def)
  moreover have "\<forall>q. q \<noteq> ?c \<longrightarrow> q \<noteq> n \<longrightarrow> threads s' q = threads s q"
    by (simp add: s'_def switched_def s1_def)
  moreover have "\<forall>q\<in>set (ready_list s'). \<forall>a b. get_priority s' q = Some a \<longrightarrow> get_priority s' n = Some b \<longrightarrow> a \<le> b"
    using n(5) set_remove1_subset [of n rl] by (auto simp: rs g')
  ultimately show ?thesis using y r(2) rs(1,2) g' g1 unfolding s'_def [symmetric] rl_def by auto
qed

lemma thread_block_spec:
  assumes inv: "sched_inv s" and pm: "pop_max_ok ops" and pr: "priorities_ok s" and ctx: "\<not> in_intr s" "\<not> intr_on s"
  shows "\<exists>s'. thread_block ops s = Some s' \<and> sched_inv s' \<and> \<not> in_intr s' \<and>
    map_option status (threads s' (running s)) = Some (if running s' = running s then THREAD_RUNNING else THREAD_BLOCKED) \<and>
    (running s' \<in> set (ready_list s) \<or> ready_list s = [] \<and> idle_thread s = Some (running s')) \<and>
    ready_list s' = remove1 (running s') (ready_list s) \<and> asleep_list s' = asleep_list s \<and> ticks s' = ticks s \<and>
    idle_thread s' = idle_thread s \<and>
    (\<forall>q. q \<noteq> running s' \<longrightarrow> threads s' q = (if q = running s then map_option (\<lambda>u. u\<lparr>status := THREAD_BLOCKED\<rparr>) (threads s q) else threads s q))"
proof -
  let ?c = "running s"
  obtain t where t: "threads s ?c = Some t" "thread_current s = Some (?c, t)" using sched_invD [OF inv] by blast
  define t' where "t' = t\<lparr>status := THREAD_BLOCKED\<rparr>"
  let ?s1 = "put_thread ?c t' s"
  have sp: "same_pri t t'" by (simp add: same_pri_def t'_def)
  have wf: "sched_wf {} ?s1"
    by (rule leave_cpu [OF inv t(1), of THREAD_BLOCKED t']) (use current_pri [OF inv t(1)] in \<open>simp_all add: t'_def\<close>)
  have pr1: "priorities_ok ?s1" using priorities_put [OF t(1) sp, of ?s1] pr by simp
  obtain n tn where n: "schedule ops ?s1 = Some (switched n tn ?s1)" "sched_inv (switched n tn ?s1)"
    "n \<in> set (ready_list s) \<or> ready_list s = [] \<and> idle_thread s = Some n"
    using schedule_spec [OF wf pm pr1] ctx by auto
  have "thread_block ops s = Some (switched n tn ?s1)" using ctx t(2) n(1) by (simp add: thread_block_def t'_def)
  moreover have "threads (switched n tn ?s1) = (threads ?s1)(n \<mapsto> tn\<lparr>status := THREAD_RUNNING\<rparr>)"
    by (rule switched_alive [of _ t']) (simp_all add: t'_def)
  ultimately show ?thesis using n ctx t(1) by (auto simp: t'_def)
qed

section \<open>Exit, unblock, create\<close>

lemma thread_exit_spec:
  assumes inv: "sched_inv s" and pm: "pop_max_ok ops" and pr: "priorities_ok s" and ctx: "\<not> in_intr s"
    and t: "threads s (running s) = Some t" "held_locks t = []" "idle_thread s \<noteq> Some (running s)"
  shows "\<exists>s'. thread_exit ops s = Some s' \<and> sched_inv s' \<and> running s' \<noteq> running s \<and> running s \<notin> set (all_list s') \<and>
    (running s \<noteq> initial_thread s \<longrightarrow> threads s' (running s) = None) \<and>
    (running s' \<in> set (ready_list s) \<or> idle_thread s = Some (running s')) \<and> \<not> in_intr s' \<and>
    idle_thread s' = idle_thread s \<and> asleep_list s' = asleep_list s \<and> thread_mlfqs s' = thread_mlfqs s \<and>
    (\<forall>q. q \<noteq> running s \<longrightarrow> q \<noteq> running s' \<longrightarrow> threads s' q = threads s q)"
proof -
  let ?c = "running s"
  have cur: "thread_current s = Some (?c, t)" using sched_invD [OF inv] t(1) by (metis option.inject)
  define t' where "t' = t\<lparr>status := THREAD_DYING\<rparr>"
  define s1 where "s1 = (put_thread ?c t' s)\<lparr>intr_on := False, all_list := remove1 ?c (all_list s)\<rparr>"
  have sp: "same_pri t t'" by (simp add: same_pri_def t'_def)
  have wf: "sched_wf {} s1"
    by (rule leave_cpu [OF inv t(1), of THREAD_DYING t']) (use current_pri [OF inv t(1)] t(3) in \<open>simp_all add: s1_def t'_def\<close>)
  have pr1: "priorities_ok s1" using priorities_put [OF t(1) sp, of s1] pr by (simp add: s1_def)
  have off: "\<not> intr_on s1" by (simp add: s1_def)
  obtain n tn where n: "schedule ops s1 = Some (switched n tn s1)" "sched_inv (switched n tn s1)"
    "n \<in> set (ready_list s1) \<or> ready_list s1 = [] \<and> idle_thread s1 = Some n"
    using schedule_spec [OF wf pm pr1 off] by blast
  obtain tr :: thread where r: "resume (switched n tn s1) = Some ((switched n tn s1)\<lparr>intr_on := saved_intr tr\<rparr>)"
    "sched_inv ((switched n tn s1)\<lparr>intr_on := saved_intr tr\<rparr>)" using resume_inv [OF n(2)] by blast
  have "thread_exit ops s = Some ((switched n tn s1)\<lparr>intr_on := saved_intr tr\<rparr>)"
    using n(1) r(1) ctx cur t(2) by (simp add: thread_exit_def t'_def [symmetric] s1_def [symmetric] Let_def)
  moreover have "?c \<notin> set (ready_list s)"
  proof -
    have "thread_wf {?c} s ?c t" using sched_wfD(1) inv t(1) by (simp add: sched_inv_def)
    then show ?thesis by (auto simp: thread_wf_def)
  qed
  then have "n \<noteq> ?c" using n(3) t(3) by (auto simp: s1_def)
  moreover have "?c \<notin> set (remove1 ?c (all_list s))" using sched_wfD(5) inv by (auto simp: sched_inv_def)
  moreover have "?c \<noteq> initial_thread s \<longrightarrow> threads (switched n tn s1) ?c = None"
    using \<open>n \<noteq> ?c\<close> by (auto simp: switched_def s1_def t'_def)
  moreover have "\<forall>q. q \<noteq> ?c \<longrightarrow> q \<noteq> n \<longrightarrow> threads (switched n tn s1) q = threads s q"
    by (simp add: switched_def s1_def)
  moreover have "n \<in> set (ready_list s) \<or> idle_thread s = Some n" using n(3) by (auto simp: s1_def)
  ultimately show ?thesis using r(2) ctx by (auto simp: s1_def)
qed

text \<open>Changing or adding a thread that stays off the CPU.\<close>

lemma put_other:
  assumes inv: "sched_inv s" and p: "p \<noteq> running s"
    and t': "magic t' = THREAD_MAGIC" "0 < tid t'" "tid t' < next_tid s'" "params_ok t'" "status t' = THREAD_READY" "idle_thread s \<noteq> Some p"
      "\<And>q u. threads s q = Some u \<Longrightarrow> q \<noteq> p \<Longrightarrow> tid u \<noteq> tid t'"
    and old: "p \<notin> set (ready_list s)" "p \<in> set al"
    and s': "threads s' = (threads s)(p \<mapsto> t')" "ready_list s' = ready_list s @ [p]" "all_list s' = al" "distinct al"
      "set al = insert p (set (all_list s))"
      "idle_thread s' = idle_thread s" "initial_thread s' = initial_thread s" "running s' = running s" "next_tid s \<le> next_tid s'"
  shows "sched_inv s'"
proof -
  let ?c = "running s"
  have wf: "sched_wf {?c} s" using inv by (simp add: sched_inv_def)
  obtain i ti where i: "idle_thread s = Some i" "threads s i = Some ti" "status ti \<noteq> THREAD_DYING" "i \<notin> set (ready_list s)"
    using sched_wfD(8) [OF wf] by blast
  have "sched_wf {?c} s'"
  proof (rule sched_wfI [where i = i and ti = ti])
    show "thread_wf {?c} s' q u" if "threads s' q = Some u" for q u
    proof (cases "q = p")
      case True
      then show ?thesis using that p t' s' by (auto simp: thread_wf_def)
    next
      case False
      then have "threads s q = Some u" using that s'(1) by simp
      then have "thread_wf {?c} s q u" by (rule sched_wfD(1) [OF wf])
      then show ?thesis using False s' by (auto simp: thread_wf_def)
    qed
    show "set (ready_list s') \<subseteq> dom (threads s')" "set (all_list s') \<subseteq> dom (threads s')"
      using sched_wfD(2,3) [OF wf] by (auto simp: s')
    show "distinct (ready_list s')" "distinct (all_list s')"
      using sched_wfD(4) [OF wf] old s'(4) by (simp_all add: s')
    show "finite (dom (threads s'))" "running s' \<in> dom (threads s')" using sched_wfD(6,7) [OF wf] by (simp_all add: s')
    show "idle_thread s' = Some i" "threads s' i = Some ti" "status ti \<noteq> THREAD_DYING" using i t'(6) by (auto simp: s')
    show "i \<notin> set (ready_list s')" using i t'(6) by (auto simp: s')
    show "q = r" if qr: "threads s' q = Some a" "threads s' r = Some b" "tid a = tid b" for q r a b
      using qr sched_wfD(9) [OF wf, of q a r b] t'(7) [of q a] t'(7) [of r b] by (auto simp: s'(1) split: if_splits)
  qed
  then show ?thesis by (simp add: sched_inv_def s')
qed

lemma thread_unblock_spec:
  assumes inv: "sched_inv s" and p: "threads s p = Some t" "status t = THREAD_BLOCKED" "idle_thread s \<noteq> Some p"
  shows "\<exists>s'. thread_unblock p s = Some s' \<and> sched_inv s' \<and> ready_list s' = ready_list s @ [p] \<and> running s' = running s \<and>
    threads s' = (threads s)(p \<mapsto> t\<lparr>status := THREAD_READY\<rparr>) \<and> intr_on s' = intr_on s \<and> in_intr s' = in_intr s \<and>
    idle_thread s' = idle_thread s \<and> ticks s' = ticks s \<and> asleep_list s' = asleep_list s \<and>
    lock_waiters s' = lock_waiters s \<and> thread_mlfqs s' = thread_mlfqs s"
proof -
  have wf: "sched_wf {running s} s" using inv by (simp add: sched_inv_def)
  note w = sched_wfD(1) [OF wf p(1), unfolded thread_wf_def]
  let ?s' = "(put_thread p (t\<lparr>status := THREAD_READY\<rparr>) s)\<lparr>ready_list := ready_list s @ [p]\<rparr>"
  have "thread_unblock p s = Some ?s'" using p w by (simp add: thread_unblock_def is_thread_def)
  moreover have "sched_inv ?s'"
  proof (rule put_other [OF inv, where p = p and t' = "t\<lparr>status := THREAD_READY\<rparr>" and al = "all_list s"])
    show "tid u \<noteq> tid (t\<lparr>status := THREAD_READY\<rparr>)" if "threads s q = Some u" "q \<noteq> p" for q u
      using sched_wfD(9) [OF wf that(1) p(1)] that(2) by auto
  qed (use w p sched_wfD(5) [OF wf] in auto)
  ultimately show ?thesis by auto
qed

section \<open>The priority of the feedback queue\<close>

definition clamp :: "int \<Rightarrow> int" where
  "clamp p = (if p < PRI_MIN then PRI_MIN else if PRI_MAX < p then PRI_MAX else p)"

lemma clamp_range: "PRI_MIN \<le> clamp p \<and> clamp p \<le> PRI_MAX"
  by (simp add: clamp_def)

lemma update_priority_value:
  assumes "is_int (recent_cpu t)" "NICE_MIN \<le> nice t" "nice t \<le> NICE_MAX"
  shows "update_priority t =
    Some (t\<lparr>priority := clamp ((63 * 16384 - recent_cpu t sdiv 4 - nice t * 2 * 16384) sdiv 16384)\<rparr>)"
proof -
  let ?d = "recent_cpu t sdiv 4"
  have d: "\<bar>?d\<bar> \<le> 2 ^ 29" by (rule sdiv_abs_le) (use assms(1) in auto)
  have n: "\<bar>nice t * 2\<bar> \<le> 40" using assms(2,3) by auto
  let ?a = "63 * 16384 - ?d" and ?b = "63 * 16384 - ?d - nice t * 2 * 16384"
  have "c_div (recent_cpu t) 4 = Some ?d" using d by (simp add: c_div_def)
  moreover have "c_int ?a = Some ?a" "c_int (nice t * 2) = Some (nice t * 2)" "c_int (nice t * 2 * 16384) = Some (nice t * 2 * 16384)"
    "c_int ?b = Some ?b" using d n by (auto intro!: c_int_in)
  moreover have "c_div ?b 16384 = Some (?b sdiv 16384)" by (rule c_div_small) (use d n in auto)
  moreover have "c_int 1032192 = Some 1032192" by simp
  ultimately show ?thesis
    by (simp add: update_priority_def fxp_divi_def fxp_isub_def fxp_subi_def fxp_trunc_def fxp_f_def clamp_def)
qed

lemma update_priority_ok:
  assumes "is_int (recent_cpu t)" "NICE_MIN \<le> nice t" "nice t \<le> NICE_MAX"
  shows "\<exists>p. update_priority t = Some (t\<lparr>priority := p\<rparr>) \<and> PRI_MIN \<le> p \<and> p \<le> PRI_MAX"
  using update_priority_value [OF assms] clamp_range by blast

section \<open>Creating a thread\<close>

definition frames_ok :: "sched_ops \<Rightarrow> bool" where
  "frames_ok ops \<longleftrightarrow> switch_entry_frame_size ops smod 4 = 0 \<and> switch_threads_frame_size ops smod 4 = 0"

text \<open>Priorities can be computed and the lists work as documented.\<close>

definition pri_ok :: "sched_ops \<Rightarrow> sched \<Rightarrow> bool" where
  "pri_ok ops s \<longleftrightarrow> pop_max_ok ops \<and> frames_ok ops \<and> (thread_mlfqs s \<or> donation_ok s)"

lemma pri_okD: "pri_ok ops s \<Longrightarrow> pop_max_ok ops" "pri_ok ops s \<Longrightarrow> frames_ok ops" "pri_ok ops s \<Longrightarrow> priorities_ok s"
  using priorities_okI by (auto simp: pri_ok_def)

lemma waits_for_new:
  assumes "ths p = None" "held_locks t = []"
  shows "waits_for (ths(p \<mapsto> t)) W = waits_for ths W"
  using assms by (auto simp: waits_for_def thread_donors_def split: if_splits)

lemma donation_new:
  assumes "donation_ok s" "threads s p = None" "held_locks t = []"
    and "threads s' = (threads s)(p \<mapsto> t)" "lock_waiters s' = lock_waiters s"
  shows "donation_ok s'"
proof -
  have "set (thread_donors (lock_waiters s) r) \<subseteq> insert p (dom (threads s))" if "((threads s)(p \<mapsto> t)) q = Some r" for q r
  proof (cases "q = p")
    case True
    then show ?thesis using that assms(3) by (simp add: thread_donors_def)
  next
    case False
    then have "threads s q = Some r" using that by simp
    then have "set (thread_donors (lock_waiters s) r) \<subseteq> dom (threads s)" using assms(1) unfolding donation_ok_def by blast
    then show ?thesis by blast
  qed
  then show ?thesis using assms(1) waits_for_new [of "threads s" p t, OF assms(2,3)] assms(4,5) by (simp add: donation_ok_def)
qed

lemma thread_create_spec:
  assumes inv: "sched_inv s" and ok: "pri_ok ops s" and ctx: "\<not> in_intr s"
    and f: "func \<noteq> 0" and p: "threads s p = None" and pri: "PRI_MIN \<le> pri" "pri \<le> PRI_MAX" and tids: "next_tid s < 2 ^ 31 - 1" "0 < next_tid s"
  shows "\<exists>s'. thread_create ops name pri func aux (Some p) s = Some (next_tid s, s') \<and> sched_inv s' \<and>
    next_tid s' = next_tid s + 1 \<and> running s' \<in> insert p (insert (running s) (set (ready_list s))) \<and>
    \<not> in_intr s' \<and> idle_thread s' = idle_thread s \<and> asleep_list s' = asleep_list s \<and> thread_mlfqs s' = thread_mlfqs s \<and>
    (\<forall>q. q \<noteq> p \<longrightarrow> q \<noteq> running s \<longrightarrow> q \<noteq> running s' \<longrightarrow> threads s' q = threads s q) \<and>
    (\<forall>q\<in>set (ready_list s'). \<forall>a b. get_priority s' q = Some a \<longrightarrow> get_priority s' (running s') = Some b \<longrightarrow> a \<le> b)"
proof -
  obtain ct where ct: "threads s (running s) = Some ct" "thread_current s = Some (running s, ct)" using sched_invD [OF inv] by blast
  have po: "params_ok ct" by (rule current_pri [OF inv ct(1)])
  define t0 where "t0 = \<lparr>tid = 0, status = THREAD_BLOCKED, t_name = take 15 name, t_stack = PGSIZE, t_entry = None,
      base_priority = pri, held_locks = [], priority = 0, nice = nice ct, recent_cpu = recent_cpu ct,
      wakeup_ticks = 0, magic = THREAD_MAGIC, saved_intr = True\<rparr>"
  obtain q where q: "update_priority t0 = Some (t0\<lparr>priority := q\<rparr>)" "PRI_MIN \<le> q" "q \<le> PRI_MAX"
    using update_priority_ok [of t0] po by (auto simp: t0_def params_ok_def)
  let ?i = "next_tid s"
  define tf where "tf = t0\<lparr>priority := q, tid := ?i, t_entry := Some (func, aux),
      t_stack := PGSIZE - 12 - switch_entry_frame_size ops - switch_threads_frame_size ops\<rparr>"
  define s3 where "s3 = (put_thread p (tf\<lparr>status := THREAD_READY\<rparr>) s)\<lparr>all_list := all_list s @ [p], next_tid := ?i + 1,
      ready_list := ready_list s @ [p]\<rparr>"
  have pc: "p \<noteq> running s" using p ct(1) by auto
  have wf: "sched_wf {running s} s" using inv by (simp add: sched_inv_def)
  have pn: "p \<notin> set (ready_list s)" "p \<notin> set (all_list s)" using sched_wfD(2,3) [OF wf] p by auto
  have pi: "idle_thread s \<noteq> Some p" using sched_wfD(8) [OF wf] p by auto
  have inv3: "sched_inv s3"
  proof (rule put_other [OF inv pc, where t' = "tf\<lparr>status := THREAD_READY\<rparr>" and al = "all_list s @ [p]"])
    show "params_ok (tf\<lparr>status := THREAD_READY\<rparr>)" using q(2,3) pri po by (simp add: tf_def t0_def params_ok_def)
    show "tid u \<noteq> tid (tf\<lparr>status := THREAD_READY\<rparr>)" if "threads s r = Some u" for r u
      using sched_wfD(1) [OF wf that] by (simp add: thread_wf_def tf_def)
  qed (use tids pn pi sched_wfD(5) [OF wf] in \<open>auto simp: tf_def t0_def s3_def\<close>)
  have pr3: "priorities_ok s3"
  proof (rule priorities_okI)
    show "thread_mlfqs s3 \<or> donation_ok s3"
      using ok donation_new [of s p "tf\<lparr>status := THREAD_READY\<rparr>" s3] p by (auto simp: pri_ok_def s3_def tf_def t0_def)
  qed
  have ctx3: "\<not> in_intr s3" using ctx by (simp add: s3_def)
  obtain s' where y: "thread_yield ops s3 = Some s'" "sched_inv s'" "running s' \<in> insert (running s3) (set (ready_list s3))" "next_tid s' = next_tid s3"
    "\<not> in_intr s'" "idle_thread s' = idle_thread s3" "asleep_list s' = asleep_list s3" "thread_mlfqs s' = thread_mlfqs s3"
    "\<forall>q. q \<noteq> running s3 \<longrightarrow> q \<noteq> running s' \<longrightarrow> threads s' q = threads s3 q"
    "\<forall>q\<in>set (ready_list s'). \<forall>a b. get_priority s' q = Some a \<longrightarrow> get_priority s' (running s') = Some b \<longrightarrow> a \<le> b"
    using thread_yield_spec [OF inv3 pri_okD(1) [OF ok] pr3 ctx3] by blast
  have fr: "switch_entry_frame_size ops smod 4 = 0" "switch_threads_frame_size ops smod 4 = 0" "(12 :: int) smod 4 = 0"
    using pri_okD(2) [OF ok] by (simp_all add: frames_ok_def smod_nonneg)
  have it: "init_thread p name pri (nice ct) (recent_cpu ct) s = Some ((put_thread p (t0\<lparr>priority := q\<rparr>) s)\<lparr>all_list := all_list s @ [p]\<rparr>)"
    using q(1) pri unfolding t0_def by (simp add: init_thread_def Let_def)
  have "thread_create ops name pri func aux (Some p) s = Some (?i, s')"
  proof -
    have m: "magic t0 = THREAD_MAGIC" "t_stack t0 = PGSIZE" "status t0 = THREAD_BLOCKED" by (simp_all add: t0_def)
    have "thread_unblock p (put_thread p tf ((put_thread p (t0\<lparr>priority := q\<rparr>) s)\<lparr>all_list := all_list s @ [p], next_tid := ?i + 1\<rparr>)) = Some s3"
      using m by (simp add: thread_unblock_def is_thread_def tf_def s3_def) (simp add: put_thread_def)
    moreover have "t0\<lparr>priority := q, tid := ?i, t_stack := PGSIZE - 12, t_entry := Some (func, aux),
        t_stack := PGSIZE - 12 - switch_entry_frame_size ops - switch_threads_frame_size ops\<rparr> = tf" by (simp add: tf_def t0_def)
    ultimately show ?thesis
      using f ct(2) it fr tids y(1) m by (simp add: thread_create_def allocate_tid_def alloc_frame_def)
  qed
  moreover have "running s' \<in> insert p (insert (running s) (set (ready_list s)))" using y(3) by (auto simp: s3_def)
  moreover have "\<forall>q. q \<noteq> p \<longrightarrow> q \<noteq> running s \<longrightarrow> q \<noteq> running s' \<longrightarrow> threads s' q = threads s q" using y(9) by (simp add: s3_def)
  ultimately show ?thesis using y(2,4-8,10) by (intro exI [of _ s']) (simp add: s3_def)
qed

section \<open>Changing the parameters of a thread\<close>

lemma sched_inv_put:
  assumes inv: "sched_inv s" and t: "threads s p = Some t"
    and t': "status t' = status t" "magic t' = magic t" "tid t' = tid t" "params_ok t'"
    and s': "threads s' = (threads s)(p \<mapsto> t')" "ready_list s' = ready_list s" "all_list s' = all_list s"
      "idle_thread s' = idle_thread s" "initial_thread s' = initial_thread s" "running s' = running s" "next_tid s' = next_tid s"
  shows "sched_inv s'"
proof -
  let ?c = "running s"
  have wf: "sched_wf {?c} s" using inv by (simp add: sched_inv_def)
  obtain i ti where i: "idle_thread s = Some i" "threads s i = Some ti" "status ti \<noteq> THREAD_DYING" "i \<notin> set (ready_list s)"
    using sched_wfD(8) [OF wf] by blast
  have "sched_wf {?c} s'"
  proof (rule sched_wfI [where i = i and ti = "if i = p then t' else ti"])
    show "thread_wf {?c} s' q u" if "threads s' q = Some u" for q u
    proof (cases "q = p")
      case True
      then show ?thesis using that sched_wfD(1) [OF wf t] t' s' by (auto simp: thread_wf_def)
    next
      case False
      then have "threads s q = Some u" using that s'(1) by simp
      then have "thread_wf {?c} s q u" by (rule sched_wfD(1) [OF wf])
      then show ?thesis using s' by (simp add: thread_wf_def)
    qed
    show "set (ready_list s') \<subseteq> dom (threads s')" "set (all_list s') \<subseteq> dom (threads s')"
      using sched_wfD(2,3) [OF wf] by (auto simp: s')
    show "distinct (ready_list s')" "distinct (all_list s')" "finite (dom (threads s'))" "running s' \<in> dom (threads s')"
      using sched_wfD(4-7) [OF wf] by (simp_all add: s')
    show "idle_thread s' = Some i" "threads s' i = Some (if i = p then t' else ti)" "i \<notin> set (ready_list s')"
      using i by (simp_all add: s')
    show "status (if i = p then t' else ti) \<noteq> THREAD_DYING" using i t t'(1) by auto
    show "q = r" if qr: "threads s' q = Some a" "threads s' r = Some b" "tid a = tid b" for q r a b
    proof -
      have old: "\<exists>a'. threads s q = Some a' \<and> tid a' = tid a" if "threads s' q = Some a" for q a
        using that t t'(3) by (cases "q = p") (auto simp: s'(1))
      obtain a' b' where "threads s q = Some a'" "threads s r = Some b'" "tid a' = tid b'"
        using old [OF qr(1)] old [OF qr(2)] qr(3) by auto
      then show ?thesis by (rule sched_wfD(9) [OF wf])
    qed
  qed
  then show ?thesis by (simp add: sched_inv_def s')
qed

lemma donation_put:
  assumes "donation_ok s" "threads s p = Some t" "held_locks t' = held_locks t"
    and "threads s' = (threads s)(p \<mapsto> t')" "lock_waiters s' = lock_waiters s"
  shows "donation_ok s'"
proof -
  have "waits_for ((threads s)(p \<mapsto> t')) (lock_waiters s) = waits_for (threads s) (lock_waiters s)"
    using assms(2,3) by (auto simp: waits_for_def thread_donors_def split: if_splits)
  moreover have "set (thread_donors (lock_waiters s) r) \<subseteq> insert p (dom (threads s))" if qr: "((threads s)(p \<mapsto> t')) q = Some r" for q r
  proof -
    obtain u where u: "threads s q = Some u" "thread_donors (lock_waiters s) r = thread_donors (lock_waiters s) u"
      using qr assms(2,3) by (cases "q = p") (auto simp: thread_donors_def)
    have "set (thread_donors (lock_waiters s) u) \<subseteq> dom (threads s)" using assms(1) u(1) unfolding donation_ok_def by blast
    then show ?thesis unfolding u(2) by blast
  qed
  ultimately show ?thesis using assms(1,4,5) by (simp add: donation_ok_def)
qed

lemma pri_ok_put:
  assumes "pri_ok ops s" "threads s p = Some t" "held_locks t' = held_locks t"
  shows "pri_ok ops (put_thread p t' s)"
  using donation_put [of s p t t' "put_thread p t' s"] assms by (auto simp: pri_ok_def)

lemma thread_set_priority_spec:
  assumes inv: "sched_inv s" and ok: "pri_ok ops s" and ctx: "\<not> in_intr s" and r: "PRI_MIN \<le> new" "new \<le> PRI_MAX"
  shows "\<exists>s1 s'. thread_set_priority ops new s = Some s' \<and> sched_inv s' \<and>
    s1 = put_thread (running s) ((the (threads s (running s)))\<lparr>base_priority := new\<rparr>) s \<and>
    (\<forall>q. get_priority s' q = get_priority s1 q) \<and> running s' \<in> insert (running s) (set (ready_list s)) \<and>
    (\<forall>q\<in>set (ready_list s'). \<forall>a b. get_priority s' q = Some a \<longrightarrow> get_priority s' (running s') = Some b \<longrightarrow> a \<le> b)"
proof -
  let ?c = "running s"
  obtain t where t: "threads s ?c = Some t" "thread_current s = Some (?c, t)" using sched_invD [OF inv] by blast
  let ?t = "t\<lparr>base_priority := new\<rparr>"
  let ?s1 = "put_thread ?c ?t s"
  have po: "params_ok ?t" using current_pri [OF inv t(1)] r by (simp add: params_ok_def)
  have inv1: "sched_inv ?s1" by (rule sched_inv_put [OF inv t(1), of ?t]) (use po in simp_all)
  have ok1: "pri_ok ops ?s1" by (rule pri_ok_put [OF ok t(1)]) simp
  from thread_yield_spec [OF inv1 pri_okD(1,3) [OF ok1]] ctx
  show ?thesis using t r by (auto simp: thread_set_priority_def)
qed

lemma thread_set_nice_spec:
  assumes inv: "sched_inv s" and ok: "pri_ok ops s" and ctx: "\<not> in_intr s" and r: "NICE_MIN \<le> n" "n \<le> NICE_MAX"
  shows "\<exists>s'. thread_set_nice ops n s = Some s' \<and> sched_inv s' \<and>
    (\<forall>q\<in>set (ready_list s'). \<forall>a b. get_priority s' q = Some a \<longrightarrow> get_priority s' (running s') = Some b \<longrightarrow> a \<le> b)"
proof -
  let ?c = "running s"
  obtain t where t: "threads s ?c = Some t" "thread_current s = Some (?c, t)" using sched_invD [OF inv] by blast
  have po: "params_ok t" by (rule current_pri [OF inv t(1)])
  obtain p where p: "update_priority (t\<lparr>nice := n\<rparr>) = Some (t\<lparr>nice := n, priority := p\<rparr>)" "PRI_MIN \<le> p" "p \<le> PRI_MAX"
    using update_priority_ok [of "t\<lparr>nice := n\<rparr>"] po r by (auto simp: params_ok_def)
  let ?t = "t\<lparr>nice := n, priority := p\<rparr>"
  let ?s1 = "put_thread ?c ?t s"
  have po': "params_ok ?t" using po p r by (simp add: params_ok_def)
  have inv1: "sched_inv ?s1" by (rule sched_inv_put [OF inv t(1), of ?t]) (use po' in simp_all)
  have ok1: "pri_ok ops ?s1" by (rule pri_ok_put [OF ok t(1)]) simp
  from thread_yield_spec [OF inv1 pri_okD(1,3) [OF ok1]] ctx
  show ?thesis using t r p(1) by (auto simp: thread_set_nice_def)
qed

end
