(* ===== verification/Timer.thy ===== *)
theory Timer
  imports Sched_Inv
begin

text \<open>
  The alarm clock, \<open>priority-scheduler/devices/timer.c\<close>. Sleeping threads are on a list
  sorted by the tick at which they wake up; the timer interrupt wakes those whose tick has
  come. \<open>too_many_loops\<close> measures real time: what it answers is an argument of
  \<open>timer_calibrate\<close>. Busy waiting changes no state; its model is the number of rounds.
\<close>

section \<open>Sleeping\<close>

definition timer_init :: "sched \<Rightarrow> sched" where
  "timer_init s = s\<lparr>asleep_list := []\<rparr>"

definition timer_ticks :: "sched \<Rightarrow> int" where
  "timer_ticks s = ticks s"

definition timer_elapsed :: "int \<Rightarrow> sched \<Rightarrow> int option" where
  "timer_elapsed since s = c_int64 (timer_ticks s - since)"

definition wakes_up_before :: "sched \<Rightarrow> nat \<Rightarrow> nat \<Rightarrow> bool option" where
  "wakes_up_before s p1 p2 = do {
     t1 \<leftarrow> threads s p1;
     t2 \<leftarrow> threads s p2;
     Some (wakeup_ticks t1 < wakeup_ticks t2)
   }"

definition timer_sleep :: "sched_ops \<Rightarrow> int \<Rightarrow> sched \<Rightarrow> sched option" where
  "timer_sleep ops n s = do {
     let start = timer_ticks s;
     kassert (intr_on s);
     (cur, t) \<leftarrow> thread_current s;
     w \<leftarrow> c_int64 (start + n);
     let s1 = (put_thread cur (t\<lparr>wakeup_ticks := w, saved_intr := True\<rparr>) s)\<lparr>intr_on := False\<rparr>;
     al \<leftarrow> list_insert_ordered ops (wakes_up_before s1) cur (asleep_list s1);
     s2 \<leftarrow> thread_block ops (s1\<lparr>asleep_list := al\<rparr>);
     resume s2
   }"

fun wake_loop :: "nat list \<Rightarrow> sched \<Rightarrow> sched option" where
  "wake_loop [] s = Some (s\<lparr>asleep_list := []\<rparr>)"
| "wake_loop (p # ps) s = do {
     t \<leftarrow> threads s p;
     if ticks s < wakeup_ticks t then Some (s\<lparr>asleep_list := p # ps\<rparr>)
     else do {
       s1 \<leftarrow> thread_unblock p s;
       wake_loop ps s1
     }
   }"

definition timer_interrupt :: "sched \<Rightarrow> sched option" where
  "timer_interrupt s = do {
     n \<leftarrow> c_int64 (ticks s + 1);
     s1 \<leftarrow> thread_tick (s\<lparr>ticks := n\<rparr>);
     wake_loop (asleep_list s1) s1
   }"

section \<open>Busy waiting\<close>

function busy_wait :: "int \<Rightarrow> nat" where
  "busy_wait loops = (if 0 < loops then Suc (busy_wait (loops - 1)) else 0)"
  by pat_completeness auto
termination
  by (relation "measure nat") auto

declare busy_wait.simps [simp del]

definition real_time_delay :: "int \<Rightarrow> int \<Rightarrow> sched \<Rightarrow> nat option" where
  "real_time_delay num denom s = do {
     kassert (denom smod 1000 = 0);
     a \<leftarrow> c_int64 (uint (loops_per_tick s) * num);
     b \<leftarrow> c_int64 (a sdiv 1000 * TIMER_FREQ);
     c \<leftarrow> c_div64 b (denom sdiv 1000);
     Some (busy_wait c)
   }"

datatype slept = Slept sched | Waited nat

definition real_time_sleep :: "sched_ops \<Rightarrow> int \<Rightarrow> int \<Rightarrow> sched \<Rightarrow> slept option" where
  "real_time_sleep ops num denom s = do {
     m \<leftarrow> c_int64 (num * TIMER_FREQ);
     n \<leftarrow> c_div64 m denom;
     kassert (intr_on s);
     if 0 < n then map_option Slept (timer_sleep ops n s)
     else map_option Waited (real_time_delay num denom s)
   }"

definition timer_msleep :: "sched_ops \<Rightarrow> int \<Rightarrow> sched \<Rightarrow> slept option" where
  "timer_msleep ops ms = real_time_sleep ops ms 1000"

definition timer_usleep :: "sched_ops \<Rightarrow> int \<Rightarrow> sched \<Rightarrow> slept option" where
  "timer_usleep ops us = real_time_sleep ops us (1000 * 1000)"

definition timer_nsleep :: "sched_ops \<Rightarrow> int \<Rightarrow> sched \<Rightarrow> slept option" where
  "timer_nsleep ops ns = real_time_sleep ops ns (1000 * 1000 * 1000)"

definition timer_mdelay :: "int \<Rightarrow> sched \<Rightarrow> nat option" where
  "timer_mdelay ms = real_time_delay ms 1000"

definition timer_udelay :: "int \<Rightarrow> sched \<Rightarrow> nat option" where
  "timer_udelay us = real_time_delay us (1000 * 1000)"

definition timer_ndelay :: "int \<Rightarrow> sched \<Rightarrow> nat option" where
  "timer_ndelay ns = real_time_delay ns (1000 * 1000 * 1000)"

section \<open>Calibration\<close>

text \<open>
  The two loops of \<open>timer_calibrate\<close>. The first shifts a bit out of a 32-bit word after 22
  rounds at most, the second shifts nine times, so 32 rounds are enough for both; running
  out of rounds is \<open>None\<close>.
\<close>

fun calibrate_up :: "(u32 \<Rightarrow> bool) \<Rightarrow> nat \<Rightarrow> u32 \<Rightarrow> u32 option" where
  "calibrate_up too_many 0 lpt = None"
| "calibrate_up too_many (Suc n) lpt =
     (if \<not> too_many (push_bit 1 lpt) then do {
        kassert (push_bit 1 lpt \<noteq> 0);
        calibrate_up too_many n (push_bit 1 lpt)
      } else Some lpt)"

fun calibrate_refine :: "(u32 \<Rightarrow> bool) \<Rightarrow> u32 \<Rightarrow> nat \<Rightarrow> u32 \<Rightarrow> u32 \<Rightarrow> u32 option" where
  "calibrate_refine too_many high_bit 0 test_bit lpt = None"
| "calibrate_refine too_many high_bit (Suc n) test_bit lpt =
     (if test_bit \<noteq> drop_bit 10 high_bit then
        calibrate_refine too_many high_bit n (drop_bit 1 test_bit)
          (if \<not> too_many (or lpt test_bit) then or lpt test_bit else lpt)
      else Some lpt)"

definition timer_calibrate :: "(u32 \<Rightarrow> bool) \<Rightarrow> sched \<Rightarrow> sched option" where
  "timer_calibrate too_many s = do {
     kassert (intr_on s);
     high_bit \<leftarrow> calibrate_up too_many 32 (push_bit 10 1);
     lpt \<leftarrow> calibrate_refine too_many high_bit 32 (drop_bit 1 high_bit) high_bit;
     Some (s\<lparr>loops_per_tick := lpt\<rparr>)
   }"

section \<open>The sleeping threads\<close>

definition wake_at :: "sched \<Rightarrow> nat \<Rightarrow> int" where
  "wake_at s p = (case threads s p of None \<Rightarrow> 0 | Some t \<Rightarrow> wakeup_ticks t)"

definition asleep_ok :: "sched \<Rightarrow> bool" where
  "asleep_ok s \<longleftrightarrow> distinct (asleep_list s) \<and> sorted (map (wake_at s) (asleep_list s)) \<and>
     (\<forall>p\<in>set (asleep_list s). idle_thread s \<noteq> Some p \<and> map_option status (threads s p) = Some THREAD_BLOCKED)"

text \<open>What is documented of \<open>list_insert_ordered\<close>: a sorted list stays sorted.\<close>

definition insert_ordered_ok :: "sched_ops \<Rightarrow> bool" where
  "insert_ordered_ok ops \<longleftrightarrow> (\<forall>less key e xs. (\<forall>a\<in>set (e # xs). \<forall>b\<in>set (e # xs). less a b = Some (key a < (key b :: int))) \<longrightarrow>
     sorted (map key xs) \<longrightarrow>
     (\<exists>ys. list_insert_ordered ops less e xs = Some ys \<and> mset ys = add_mset e (mset xs) \<and> sorted (map key ys)))"

lemma thread_tick_plain:
  assumes "sched_inv s" "\<not> thread_mlfqs s" "\<bar>idle_ticks s\<bar> < 2 ^ 62" "\<bar>kernel_ticks s\<bar> < 2 ^ 62"
  shows "thread_tick s = Some (s\<lparr>idle_ticks := (if idle_thread s = Some (running s) then idle_ticks s + 1 else idle_ticks s),
    kernel_ticks := (if idle_thread s = Some (running s) then kernel_ticks s else kernel_ticks s + 1),
    thread_ticks := thread_ticks s + 1, yield_on_return := (yield_on_return s \<or> TIME_SLICE \<le> thread_ticks s + 1)\<rparr>)"
proof -
  obtain t where "thread_current s = Some (running s, t)" using sched_invD [OF assms(1)] by blast
  moreover have "c_int64 (idle_ticks s + 1) = Some (idle_ticks s + 1)" "c_int64 (kernel_ticks s + 1) = Some (kernel_ticks s + 1)"
    using assms(3,4) by (auto simp: c_int64_def)
  ultimately show ?thesis using assms(2)
    by (cases "Some (running s) = idle_thread s") (auto simp: thread_tick_def Let_def)
qed

lemma wake_loop_spec:
  assumes "sched_inv s" "distinct ps"
    and "\<And>p. p \<in> set ps \<Longrightarrow> idle_thread s \<noteq> Some p \<and> map_option status (threads s p) = Some THREAD_BLOCKED"
  shows "\<exists>s'. wake_loop ps s = Some s' \<and> sched_inv s' \<and> ticks s' = ticks s \<and> running s' = running s \<and>
    asleep_list s' = dropWhile (\<lambda>p. wake_at s p \<le> ticks s) ps \<and>
    ready_list s' = ready_list s @ takeWhile (\<lambda>p. wake_at s p \<le> ticks s) ps \<and>
    (\<forall>p. wake_at s' p = wake_at s p) \<and> idle_thread s' = idle_thread s \<and>
    (\<forall>p. p \<notin> set (takeWhile (\<lambda>p. wake_at s p \<le> ticks s) ps) \<longrightarrow> threads s' p = threads s p) \<and>
    (donation_ok s \<longrightarrow> donation_ok s') \<and> thread_mlfqs s' = thread_mlfqs s"
  using assms
proof (induction ps arbitrary: s)
  case Nil
  then show ?case by (auto simp: sched_inv_def sched_wf_def thread_wf_def wake_at_def donation_ok_def)
next
  case (Cons p ps)
  obtain t where t: "threads s p = Some t" "status t = THREAD_BLOCKED" using Cons.prems(3) [of p] by auto
  have w: "wake_at s p = wakeup_ticks t" using t by (simp add: wake_at_def)
  show ?case
  proof (cases "ticks s < wakeup_ticks t")
    case True
    then show ?thesis using t w Cons.prems(1)
      by (auto simp: sched_inv_def sched_wf_def thread_wf_def wake_at_def donation_ok_def)
  next
    case False
    obtain s1 where u: "thread_unblock p s = Some s1" "sched_inv s1" "ready_list s1 = ready_list s @ [p]" "running s1 = running s"
      "threads s1 = (threads s)(p \<mapsto> t\<lparr>status := THREAD_READY\<rparr>)" "idle_thread s1 = idle_thread s" "ticks s1 = ticks s"
      "lock_waiters s1 = lock_waiters s" "thread_mlfqs s1 = thread_mlfqs s"
      using thread_unblock_spec [OF Cons.prems(1) t] Cons.prems(3) [of p] by auto
    have wk: "wake_at s1 q = wake_at s q" for q using u(5) t by (simp add: wake_at_def)
    have pre: "idle_thread s1 \<noteq> Some q \<and> map_option status (threads s1 q) = Some THREAD_BLOCKED" if "q \<in> set ps" for q
      using Cons.prems(2) Cons.prems(3) [of q] that u(5,6) by auto
    have "distinct ps" using Cons.prems(2) by simp
    from Cons.IH [OF u(2) this pre] obtain s' where s': "wake_loop ps s1 = Some s'" "sched_inv s'" "ticks s' = ticks s1" "running s' = running s1"
      "asleep_list s' = dropWhile (\<lambda>p. wake_at s1 p \<le> ticks s1) ps"
      "ready_list s' = ready_list s1 @ takeWhile (\<lambda>p. wake_at s1 p \<le> ticks s1) ps"
      "\<forall>p. wake_at s' p = wake_at s1 p" "idle_thread s' = idle_thread s1"
      "\<forall>p. p \<notin> set (takeWhile (\<lambda>p. wake_at s1 p \<le> ticks s1) ps) \<longrightarrow> threads s' p = threads s1 p"
      "donation_ok s1 \<longrightarrow> donation_ok s'" "thread_mlfqs s' = thread_mlfqs s1" by blast
    have "donation_ok s \<longrightarrow> donation_ok s1" using donation_put [OF _ t(1) _ u(5,8)] by simp
    then have don: "donation_ok s \<longrightarrow> donation_ok s'" using s'(10) by blast
    have "wake_loop (p # ps) s = Some s'" using False t u(1) s'(1) by simp
    then show ?thesis using s'(2-9,11) don u wk w False unfolding wk u(7) by (intro exI [of _ s']) simp
  qed
qed

lemma sorted_takeWhile_filter:
  "sorted (map key ps) \<Longrightarrow> takeWhile (\<lambda>p. key p \<le> (n :: int)) ps = filter (\<lambda>p. key p \<le> n) ps \<and>
   dropWhile (\<lambda>p. key p \<le> n) ps = filter (\<lambda>p. \<not> key p \<le> n) ps"
proof (induction ps)
  case (Cons p ps)
  show ?case
  proof (cases "key p \<le> n")
    case False
    then have "\<forall>q\<in>set ps. \<not> key q \<le> n" using Cons.prems by auto
    then show ?thesis using False by (simp add: filter_empty_conv filter_id_conv)
  qed (use Cons in simp)
qed simp

lemma asleep_okD:
  assumes "asleep_ok s"
  shows "distinct (asleep_list s)" "sorted (map (wake_at s) (asleep_list s))"
    "p \<in> set (asleep_list s) \<Longrightarrow> idle_thread s \<noteq> Some p"
    "p \<in> set (asleep_list s) \<Longrightarrow> map_option status (threads s p) = Some THREAD_BLOCKED"
  using assms unfolding asleep_ok_def by blast+

lemma timer_interrupt_spec:
  assumes inv: "sched_inv s" "asleep_ok s" "\<not> thread_mlfqs s"
    and b: "\<bar>idle_ticks s\<bar> < 2 ^ 62" "\<bar>kernel_ticks s\<bar> < 2 ^ 62" "\<bar>ticks s\<bar> < 2 ^ 62"
  shows "\<exists>s'. timer_interrupt s = Some s' \<and> sched_inv s' \<and> asleep_ok s' \<and> ticks s' = ticks s + 1 \<and> running s' = running s \<and>
    asleep_list s' = filter (\<lambda>p. \<not> wake_at s p \<le> ticks s') (asleep_list s) \<and>
    ready_list s' = ready_list s @ filter (\<lambda>p. wake_at s p \<le> ticks s') (asleep_list s) \<and>
    (donation_ok s \<longrightarrow> donation_ok s') \<and> \<not> thread_mlfqs s' \<and> (\<forall>p. wake_at s' p = wake_at s p)"
proof -
  define s0 where "s0 = s\<lparr>ticks := ticks s + 1\<rparr>"
  have inv0: "sched_inv s0" using inv(1) by (simp add: s0_def sched_inv_def sched_wf_def thread_wf_def)
  have "\<not> thread_mlfqs s0" "\<bar>idle_ticks s0\<bar> < 2 ^ 62" "\<bar>kernel_ticks s0\<bar> < 2 ^ 62" using inv(3) b by (simp_all add: s0_def)
  from thread_tick_plain [OF inv0 this] obtain s1 where tk: "thread_tick s0 = Some s1"
    and f1: "threads s1 = threads s" "asleep_list s1 = asleep_list s" "ticks s1 = ticks s + 1" "ready_list s1 = ready_list s"
    "running s1 = running s" "idle_thread s1 = idle_thread s" "all_list s1 = all_list s" "initial_thread s1 = initial_thread s" "next_tid s1 = next_tid s"
    "lock_waiters s1 = lock_waiters s" "thread_mlfqs s1 = thread_mlfqs s"
    by (auto simp: s0_def)
  have inv1: "sched_inv s1" using inv(1) f1 by (simp add: sched_inv_def sched_wf_def thread_wf_def)
  have w1: "wake_at s1 = wake_at s" using f1(1) by (simp add: wake_at_def fun_eq_iff)
  note ao = asleep_okD [OF inv(2)]
  obtain s' where s': "wake_loop (asleep_list s) s1 = Some s'" "sched_inv s'" "ticks s' = ticks s + 1" "running s' = running s"
    "asleep_list s' = dropWhile (\<lambda>p. wake_at s p \<le> ticks s + 1) (asleep_list s)"
    "ready_list s' = ready_list s @ takeWhile (\<lambda>p. wake_at s p \<le> ticks s + 1) (asleep_list s)"
    "\<forall>p. wake_at s' p = wake_at s p" "idle_thread s' = idle_thread s"
    "\<forall>p. p \<notin> set (takeWhile (\<lambda>p. wake_at s p \<le> ticks s + 1) (asleep_list s)) \<longrightarrow> threads s' p = threads s p"
    "donation_ok s1 \<longrightarrow> donation_ok s'" "thread_mlfqs s' = thread_mlfqs s"
    using wake_loop_spec [OF inv1 ao(1)] ao(3,4) unfolding f1 w1 by blast
  have "donation_ok s1 = donation_ok s" by (simp add: donation_ok_def f1)
  then have don: "donation_ok s \<longrightarrow> donation_ok s'" using s'(10) by simp
  note tf = sorted_takeWhile_filter [OF ao(2), of "ticks s + 1"]
  have "timer_interrupt s = Some s'"
    using tk s'(1) f1(2) b(3) by (auto simp: timer_interrupt_def s0_def c_int64_def)
  moreover have "asleep_ok s'"
  proof -
    have "sorted (map (wake_at s') (asleep_list s'))"
    proof -
      have "wake_at s' = wake_at s" using s'(7) by (simp add: fun_eq_iff)
      then show ?thesis using sorted_filter [OF ao(2)] s'(5) tf by simp
    qed
    moreover have "threads s' p = threads s p" if "p \<in> set (asleep_list s')" for p
      using that s'(9) s'(5) tf by simp
    ultimately show ?thesis using ao s'(5,8) tf by (simp add: asleep_ok_def)
  qed
  ultimately show ?thesis using s'(2-9,11) tf don inv(3) by (intro exI [of _ s']) simp
qed

lemma timer_sleep_spec:
  assumes inv: "sched_inv s" "asleep_ok s" and ops: "pop_max_ok ops" "insert_ordered_ok ops" and pr: "priorities_ok s"
    and ctx: "intr_on s" "\<not> in_intr s" "idle_thread s \<noteq> Some (running s)" and b: "\<bar>ticks s\<bar> < 2 ^ 62" "\<bar>n\<bar> < 2 ^ 62"
  shows "\<exists>s'. timer_sleep ops n s = Some s' \<and> sched_inv s' \<and> asleep_ok s' \<and> running s' \<noteq> running s \<and>
    mset (asleep_list s') = add_mset (running s) (mset (asleep_list s)) \<and> wake_at s' (running s) = ticks s + n \<and>
    map_option status (threads s' (running s)) = Some THREAD_BLOCKED \<and> ticks s' = ticks s \<and> \<not> in_intr s'"
proof -
  let ?c = "running s"
  obtain t where t: "threads s ?c = Some t" "status t = THREAD_RUNNING" "thread_current s = Some (?c, t)"
    using sched_invD [OF inv(1)] by blast
  define t' where "t' = t\<lparr>wakeup_ticks := ticks s + n, saved_intr := True\<rparr>"
  define s1 where "s1 = (put_thread ?c t' s)\<lparr>intr_on := False\<rparr>"
  note ao = asleep_okD [OF inv(2)]
  have nc: "?c \<notin> set (asleep_list s)" using ao(4) [of ?c] t(1,2) by auto
  define key where "key = wake_at s1"
  have k: "key ?c = ticks s + n" "\<And>p. p \<noteq> ?c \<Longrightarrow> key p = wake_at s p"
    by (simp_all add: key_def wake_at_def s1_def t'_def)
  have "threads s1 p \<noteq> None" if "p \<in> set (?c # asleep_list s)" for p
    using that ao(4) [of p] t(1) by (auto simp: s1_def)
  then have "\<forall>a\<in>set (?c # asleep_list s). \<forall>b\<in>set (?c # asleep_list s). wakes_up_before s1 a b = Some (key a < key b)"
  proof (intro ballI)
    fix a b assume "a \<in> set (?c # asleep_list s)" "b \<in> set (?c # asleep_list s)"
    then obtain ta tb where "threads s1 a = Some ta" "threads s1 b = Some tb"
      using \<open>\<And>p. p \<in> set (?c # asleep_list s) \<Longrightarrow> threads s1 p \<noteq> None\<close> by blast
    then show "wakes_up_before s1 a b = Some (key a < key b)"
      by (simp add: wakes_up_before_def key_def wake_at_def)
  qed
  moreover have "sorted (map key (asleep_list s))"
  proof -
    have "map key (asleep_list s) = map (wake_at s) (asleep_list s)" using k(2) nc by (metis map_eq_conv)
    then show ?thesis using ao(2) by (simp only:)
  qed
  ultimately obtain al where al: "list_insert_ordered ops (wakes_up_before s1) ?c (asleep_list s) = Some al"
    "mset al = add_mset ?c (mset (asleep_list s))" "sorted (map key al)"
    using ops(2) unfolding insert_ordered_ok_def by metis
  define s2 where "s2 = s1\<lparr>asleep_list := al\<rparr>"
  have th2: "threads s2 = (threads s)(?c \<mapsto> t')" by (simp add: s2_def s1_def)
  have inv2: "sched_inv s2"
    by (rule sched_inv_put [OF inv(1) t(1), of t'])
       (use current_pri [OF inv(1) t(1)] in \<open>simp_all add: t'_def s2_def s1_def\<close>)
  have sp: "same_pri t t'" by (simp add: same_pri_def t'_def)
  have pr2: "priorities_ok s2" using priorities_put [OF t(1) sp th2] pr by (simp add: s2_def s1_def)
  have c2: "\<not> in_intr s2" "\<not> intr_on s2" "running s2 = ?c" "ready_list s2 = ready_list s" "idle_thread s2 = idle_thread s"
    using ctx by (simp_all add: s2_def s1_def)
  obtain s3 where bl: "thread_block ops s2 = Some s3" "sched_inv s3" "\<not> in_intr s3"
    "running s3 \<in> set (ready_list s) \<or> ready_list s = [] \<and> idle_thread s = Some (running s3)"
    "asleep_list s3 = al" "ticks s3 = ticks s" "idle_thread s3 = idle_thread s"
    "\<And>q. q \<noteq> running s3 \<Longrightarrow> threads s3 q = (if q = ?c then map_option (\<lambda>u. u\<lparr>status := THREAD_BLOCKED\<rparr>) (threads s2 q) else threads s2 q)"
    using thread_block_spec [OF inv2 ops(1) pr2 c2(1,2)] unfolding c2 by (auto simp: s2_def s1_def)
  have ready: "map_option status (threads s p) = Some THREAD_READY" if pr: "p \<in> set (ready_list s)" for p
  proof -
    have wf: "sched_wf {?c} s" using inv(1) by (simp add: sched_inv_def)
    then obtain u where u: "threads s p = Some u" using sched_wfD(2) pr by blast
    show ?thesis using sched_wfD(1) [OF wf u] pr u by (simp add: thread_wf_def)
  qed
  have rc: "running s3 \<noteq> ?c" using bl(4) ctx(3) ready [of ?c] t(1,2) by auto
  have ra: "running s3 \<notin> set (asleep_list s)" using bl(4) ao(3,4) ready by force
  have th3: "threads s3 ?c = Some (t'\<lparr>status := THREAD_BLOCKED\<rparr>)" "\<And>p. p \<in> set (asleep_list s) \<Longrightarrow> threads s3 p = threads s p"
  proof -
    show "threads s3 ?c = Some (t'\<lparr>status := THREAD_BLOCKED\<rparr>)" using bl(8) [of ?c] rc th2 by auto
    show "threads s3 p = threads s p" if "p \<in> set (asleep_list s)" for p
    proof -
      have "p \<noteq> running s3" "p \<noteq> ?c" using that ra nc by auto
      then show ?thesis using bl(8) [of p] th2 by simp
    qed
  qed
  have set_al: "set al = insert ?c (set (asleep_list s))" "distinct al"
    using al(2) ao(1) nc by (metis set_mset_add_mset_insert set_mset_mset, metis distinct.simps(2) mset.simps(2) mset_eq_imp_distinct_iff)
  have wk: "wake_at s3 p = key p" if "p \<in> set al" for p
  proof (cases "p = ?c")
    case True
    then show ?thesis using th3(1) k(1) by (simp add: wake_at_def t'_def)
  next
    case False
    then have "threads s3 p = threads s p" using that set_al(1) th3(2) by simp
    then show ?thesis using k(2) [OF False] by (simp add: wake_at_def)
  qed
  have "sorted (map (wake_at s3) al)" using al(3) wk by (metis map_eq_conv)
  then have ao3: "asleep_ok s3"
    using set_al th3 ao(3,4) ctx(3) bl(5,7) by (auto simp: asleep_ok_def t'_def)
  obtain tr :: thread where r: "resume s3 = Some (s3\<lparr>intr_on := saved_intr tr\<rparr>)" "sched_inv (s3\<lparr>intr_on := saved_intr tr\<rparr>)"
    using resume_inv [OF bl(2)] by blast
  have "c_int64 (ticks s + n) = Some (ticks s + n)" using b by (auto simp: c_int64_def)
  then have "timer_sleep ops n s = Some (s3\<lparr>intr_on := saved_intr tr\<rparr>)"
    using ctx(1) t(3) al(1) bl(1) r(1)
    by (simp add: timer_sleep_def timer_ticks_def Let_def t'_def [symmetric] s1_def [symmetric] s2_def [symmetric])
  moreover have "asleep_ok (s3\<lparr>intr_on := b\<rparr>) = asleep_ok s3" "wake_at (s3\<lparr>intr_on := b\<rparr>) p = wake_at s3 p" for b p
    by (simp_all add: asleep_ok_def wake_at_def cong: map_cong)
  ultimately show ?thesis
    using r(2) ao3 rc al(2) bl(3,5,6) th3(1) wk [of ?c] set_al(1) k(1) by (intro exI [of _ "s3\<lparr>intr_on := saved_intr tr\<rparr>"]) simp
qed

section \<open>Calibration finds the number of loops\<close>

lemma unat_power2: "k < 32 \<Longrightarrow> unat (2 ^ k :: u32) = 2 ^ k"
proof -
  assume k: "k < 32"
  then have "unat (of_nat (2 ^ k) :: u32) = 2 ^ k" unfolding unsigned_of_nat by (simp add: take_bit_nat_eq_self)
  then show ?thesis by simp
qed

lemma calibrate_up_spec:
  assumes tm: "\<And>l. tm l \<longleftrightarrow> L < unat l" and L: "L < 2 ^ 31"
  shows "2 ^ k \<le> L \<Longrightarrow> 31 \<le> k + n \<Longrightarrow> k < 31 \<Longrightarrow>
    \<exists>j. calibrate_up tm n (2 ^ k) = Some (2 ^ j) \<and> k \<le> j \<and> j < 31 \<and> 2 ^ j \<le> L \<and> L < 2 ^ Suc j"
proof (induction n arbitrary: k)
  case (Suc n)
  have p: "push_bit 1 (2 ^ k) = (2 ^ Suc k :: u32)" by (simp add: push_bit_eq_mult)
  have u: "unat (2 ^ Suc k :: u32) = 2 ^ Suc k" by (rule unat_power2) (use Suc.prems in simp)
  show ?case
  proof (cases "L < 2 ^ Suc k")
    case True
    then have "calibrate_up tm (Suc n) (2 ^ k) = Some (2 ^ k)" unfolding calibrate_up.simps p tm u by simp
    then show ?thesis using True Suc.prems by blast
  next
    case False
    then have k: "Suc k < 31" using L Suc.prems(3) by (cases "k = 30") auto
    have "(2 ^ Suc k :: u32) \<noteq> 0" using u by (metis unat_0 power_not_zero zero_neq_numeral)
    then have "calibrate_up tm (Suc n) (2 ^ k) = calibrate_up tm n (2 ^ Suc k)"
      unfolding calibrate_up.simps p tm u using False by simp
    moreover have "2 ^ Suc k \<le> L" "31 \<le> Suc k + n" using False Suc.prems by simp_all
    ultimately show ?thesis using Suc.IH [OF _ _ k] Suc_leD by metis
  qed
qed simp

lemma or_next_bit: "or (2 ^ Suc j * m) (2 ^ j) = 2 ^ Suc j * m + 2 ^ j" for m :: nat
proof -
  have "and (push_bit (Suc j) m) (push_bit j 1) = 0"
  proof (rule bit_eqI)
    fix n
    show "bit (and (push_bit (Suc j) m) (push_bit j 1)) n \<longleftrightarrow> bit 0 n"
      unfolding bit_and_iff bit_push_bit_iff bit_1_iff by auto
  qed
  from disjunctive_add_eq_or [OF this] show ?thesis by (simp add: push_bit_eq_mult mult.commute)
qed

lemma calibrate_refine_spec:
  assumes tm: "\<And>l. tm l \<longleftrightarrow> L < unat l" and L: "L < 2 ^ 31" and h: "unat h = 2 ^ k" "10 \<le> k" "k < 31"
  shows "k - 10 \<le> j \<Longrightarrow> j < k \<Longrightarrow> j < k - 10 + n \<Longrightarrow> unat tb = 2 ^ j \<Longrightarrow> unat lpt = 2 ^ Suc j * m \<Longrightarrow>
    unat lpt \<le> L \<Longrightarrow> L < unat lpt + 2 ^ Suc j \<Longrightarrow>
    \<exists>l. calibrate_refine tm h n tb lpt = Some l \<and> unat l \<le> L \<and> L < unat l + 2 ^ (k - 9)"
proof (induction n arbitrary: j tb lpt m)
  case (Suc n)
  have d: "unat (drop_bit 10 h) = 2 ^ (k - 10)"
    unfolding unat_drop_bit_eq h(1) using h(2) by (simp add: drop_bit_eq_div power_diff)
  show ?case
  proof (cases "j = k - 10")
    case True
    then have "tb = drop_bit 10 h" using d Suc.prems(4) by (simp add: word_unat_eq_iff)
    moreover have "Suc j = k - 9" using True h by simp
    ultimately show ?thesis using Suc.prems by auto
  next
    case False
    then have j: "k - 10 < j" using Suc.prems(1) by simp
    then have "(2 :: nat) ^ j \<noteq> 2 ^ (k - 10)" using False by simp
    then have ne: "tb \<noteq> drop_bit 10 h" using d Suc.prems(4) by metis
    obtain i where i: "j = Suc i" using j by (cases j) auto
    define l' where "l' = (if \<not> tm (or lpt tb) then or lpt tb else lpt)"
    have o: "unat (or lpt tb) = 2 ^ Suc j * m + 2 ^ j" using Suc.prems(4,5) or_next_bit by (simp add: unsigned_or_eq)
    have tb': "unat (drop_bit 1 tb) = 2 ^ i" unfolding unat_drop_bit_eq Suc.prems(4) i by (simp add: drop_bit_eq_div)
    have l': "\<exists>m'. unat l' = 2 ^ Suc i * m'" "unat l' \<le> L" "L < unat l' + 2 ^ Suc i"
    proof -
      have "unat l' = 2 ^ j * (2 * m + (if unat (or lpt tb) \<le> L then 1 else 0))"
        using o Suc.prems(5) by (simp add: l'_def tm algebra_simps)
      then show "\<exists>m'. unat l' = 2 ^ Suc i * m'" unfolding i by blast
      show "unat l' \<le> L" "L < unat l' + 2 ^ Suc i"
        using o Suc.prems(5-7) i by (auto simp: l'_def tm)
    qed
    then obtain m' where "unat l' = 2 ^ Suc i * m'" by blast
    from Suc.IH [OF _ _ _ tb' this l'(2,3)] have
      "\<exists>l. calibrate_refine tm h n (drop_bit 1 tb) l' = Some l \<and> unat l \<le> L \<and> L < unat l + 2 ^ (k - 9)"
      using j i Suc.prems(2,3) by simp
    then show ?thesis using ne by (simp add: l'_def)
  qed
qed simp

text \<open>
  If one tick is worth \<open>L\<close> rounds of the delay loop, with \<open>1024 \<le> L < 2 ^ 31\<close>,
  the calibration returns, its result never exceeds \<open>L\<close>, and it is short of \<open>L\<close> by less
  than one part in 512.
\<close>

theorem timer_calibrate_accurate:
  assumes tm: "\<And>l. too_many l \<longleftrightarrow> L < unat l" and L: "1024 \<le> L" "L < 2 ^ 31" and on: "intr_on s"
  shows "\<exists>l. timer_calibrate too_many s = Some (s\<lparr>loops_per_tick := l\<rparr>) \<and> unat l \<le> L \<and> 512 * (L - unat l) < L"
proof -
  have one: "push_bit 10 1 = (2 ^ 10 :: u32)" by simp
  obtain k where up: "calibrate_up too_many 32 (2 ^ 10) = Some (2 ^ k)" and k: "10 \<le> k" "k < 31" "2 ^ k \<le> L" "L < 2 ^ Suc k"
    using calibrate_up_spec [OF tm L(2), of 10 32] L(1) by auto
  have h: "unat (2 ^ k :: u32) = 2 ^ k" by (rule unat_power2) (use k in simp)
  obtain j where j: "k = Suc j" using k(1) by (cases k) auto
  have tb: "unat (drop_bit 1 (2 ^ k :: u32)) = 2 ^ j"
    unfolding unat_drop_bit_eq h unfolding j by (simp add: drop_bit_eq_div)
  have "\<exists>l. calibrate_refine too_many (2 ^ k) 32 (drop_bit 1 (2 ^ k)) (2 ^ k) = Some l \<and> unat l \<le> L \<and> L < unat l + 2 ^ (k - 9)"
    using calibrate_refine_spec [of too_many L "2 ^ k" k j 32 "drop_bit 1 (2 ^ k)" "2 ^ k" 1, OF tm L(2) h k(1,2) _ _ _ tb] h j k
    by simp
  then obtain l where l: "calibrate_refine too_many (2 ^ k) 32 (drop_bit 1 (2 ^ k)) (2 ^ k) = Some l" "unat l \<le> L" "L < unat l + 2 ^ (k - 9)"
    by blast
  have "512 * (2 :: nat) ^ (k - 9) = 2 ^ 9 * 2 ^ (k - 9)" by simp
  also have "\<dots> = 2 ^ k" using k(1) by (simp only: flip: power_add) simp
  finally have "512 * (L - unat l) < L" using l(2,3) k(3) by linarith
  moreover have "timer_calibrate too_many s = Some (s\<lparr>loops_per_tick := l\<rparr>)"
    using on up l(1) unfolding timer_calibrate_def one by simp
  ultimately show ?thesis using l(2) by blast
qed

definition calibration_demo :: sched where
  "calibration_demo = \<lparr>threads = Map.empty, ready_list = [], all_list = [], idle_thread = None, initial_thread = 0, running = 0,
     intr_on = True, in_intr = False, next_tid = 1, load_avg = 0, idle_ticks = 0, kernel_ticks = 0, thread_ticks = 0,
     thread_mlfqs = False, yield_on_return = False, ticks = 0, asleep_list = [], loops_per_tick = 0, lock_waiters = (\<lambda>_. [])\<rparr>"

theorem timer_calibrate_accurate_witness:
  "\<exists>l. timer_calibrate (\<lambda>l. 1500000 < unat l) calibration_demo = Some (calibration_demo\<lparr>loops_per_tick := l\<rparr>) \<and>
     unat l \<le> 1500000 \<and> 512 * (1500000 - unat l) < 1500000"
  using timer_calibrate_accurate [of "\<lambda>l. 1500000 < unat l" 1500000 calibration_demo] by (simp add: calibration_demo_def)

end
