(* ===== verification/Mlfqs.thy ===== *)
theory Mlfqs
  imports Timer
begin

text \<open>
  The multi-level feedback queue: with a bounded number of ready threads the arithmetic of
  \<open>update_load_avg\<close>, \<open>update_recent_cpu\<close> and \<open>update_priority\<close> never overflows, however many
  ticks pass.
\<close>

section \<open>Load average\<close>

lemma fxp_f_14 [simp]: "fxp_f 14 = Some 16384"
  by (simp add: fxp_f_def)

lemma update_load_avg_bound:
  assumes inv: "sched_inv s" and l: "0 \<le> load_avg s" "load_avg s \<le> N * 16384"
    and r: "int (length (ready_list s)) + 1 \<le> N" and N: "N \<le> 1000"
  shows "\<exists>l'. update_load_avg s = Some (s\<lparr>load_avg := l'\<rparr>) \<and> 0 \<le> l' \<and> l' \<le> N * 16384"
proof -
  obtain t where t: "thread_current s = Some (running s, t)" using sched_invD [OF inv] by blast
  define k where "k = int (length (ready_list s)) + (if Some (running s) \<noteq> idle_thread s then 1 else 0)"
  have k: "0 \<le> k" "k \<le> N" using r by (simp_all add: k_def)
  have c: "fxp_idivi 14 59 60 = Some 16110"
    by (subst fxp_idivi_defined [where f = 16384]) (simp_all add: sdiv_nonneg)
  define a where "a = (16110 * load_avg s) sdiv 16384"
  have a: "0 \<le> a" "a \<le> N * 16110"
    using sdiv_bounds(3) [of 16384 "16110 * load_avg s"] sdiv_abs_le [of 16384 "16110 * load_avg s" "N * 16110"] l
    by (simp_all add: a_def)
  have am: "fxp_mul 14 16110 (load_avg s) = Some a"
    using fxp_mul_defined [of 16110 "load_avg s" 14 16384] l N a by (auto simp: a_def [symmetric])
  define b where "b = (k * 16384) sdiv 60"
  have "k * 16384 \<le> N * 274 * 60" using k by simp
  then have "k * 16384 div 60 \<le> N * 274 * 60 div 60" by (rule zdiv_mono1) simp
  moreover have "k * 16384 \<le> N * 16384" using k by simp
  then have "k * 16384 div 60 \<le> N * 16384 div 60" by (rule zdiv_mono1) simp
  ultimately have b: "0 \<le> b" "b \<le> N * 274" using k by (simp_all add: b_def sdiv_nonneg pos_imp_zdiv_nonneg_iff)
  have bm: "fxp_idivi 14 k 60 = Some b"
    using fxp_idivi_defined [of k 60 14 16384] k N b by (auto simp: b_def [symmetric])
  have "a + b \<le> N * 16384" using a b by linarith
  moreover have "0 \<le> a + b" using a b by simp
  moreover have "N * 16384 < 2 ^ 31" using N by simp
  ultimately have "update_load_avg s = Some (s\<lparr>load_avg := a + b\<rparr>)"
    using t c am bm by (simp add: update_load_avg_def k_def [symmetric] Let_def fxp_add_def)
  then show ?thesis using \<open>a + b \<le> N * 16384\<close> \<open>0 \<le> a + b\<close> by blast
qed

section \<open>Recent CPU time\<close>

abbreviation cpu_unit :: int where "cpu_unit \<equiv> 20 * 16384 + 100"

definition cpu_bound :: "int \<Rightarrow> int" where
  "cpu_bound N = cpu_unit * (2 * N + 1)"

lemma decay_le:
  assumes "0 \<le> l" "l \<le> 2 * N * 16384" "d * (l + 16384) \<le> l * 16384" "0 \<le> N"
  shows "d * (2 * N + 1) \<le> 2 * N * (16384 :: int)"
proof -
  have "d \<le> 16384"
  proof (rule ccontr)
    assume "\<not> d \<le> 16384"
    then have "16384 * (l + 16384) < d * (l + 16384)" using assms(1) by (intro mult_strict_right_mono) auto
    then show False using assms(1,3) by simp
  qed
  then have "(16384 - d) * l \<le> (16384 - d) * (2 * N * 16384)" using assms(2) by (intro mult_left_mono) auto
  moreover have "d * 16384 \<le> (16384 - d) * l" using assms(3) by (simp add: algebra_simps)
  ultimately have "16384 * d \<le> 16384 * ((16384 - d) * (2 * N))" by (simp add: algebra_simps)
  then have "d \<le> (16384 - d) * (2 * N)" by (simp only: mult_le_cancel_left_pos)
  then show ?thesis by (simp add: algebra_simps)
qed

lemma update_recent_cpu_bound:
  assumes l: "0 \<le> load" "load \<le> N * 16384" and N: "1 \<le> N" "N \<le> 1000"
    and n: "NICE_MIN \<le> nice t" "nice t \<le> NICE_MAX" and rc: "\<bar>recent_cpu t\<bar> \<le> cpu_bound N + 100"
  shows "\<exists>r. update_recent_cpu load t = Some (t\<lparr>recent_cpu := r\<rparr>) \<and> \<bar>r\<bar> \<le> cpu_bound N"
proof -
  let ?M = "2 * N + 1"
  have K: "cpu_bound N \<le> 655887780" using N by (simp add: cpu_bound_def)
  define l2 where "l2 = load * 2"
  have l2: "0 \<le> l2" "l2 \<le> 2 * N * 16384" using l by (simp_all add: l2_def)
  have l2': "l2 \<le> 32768000" using l2 N by simp
  define d where "d = (l2 * 16384) sdiv (l2 + 16384)"
  have d0: "0 \<le> d" using l2 by (simp add: d_def sdiv_nonneg pos_imp_zdiv_nonneg_iff)
  have "\<bar>d\<bar> * (l2 + 16384) \<le> \<bar>l2 * 16384\<bar>" unfolding d_def by (rule sdiv_bounds(2)) (use l2 in simp)
  then have d1: "d * (l2 + 16384) \<le> l2 * 16384" using d0 l2 by simp
  have dM: "d * ?M \<le> 2 * N * 16384" by (rule decay_le [OF l2 d1]) (use N in simp)
  have d2: "d \<le> 16384"
  proof -
    have "d * ?M \<le> 16384 * ?M" using dM by simp
    then show ?thesis using N by (simp only: mult_le_cancel_right_pos) 
  qed
  define m where "m = (d * recent_cpu t) sdiv 16384"
  have "\<bar>m\<bar> * 16384 \<le> d * \<bar>recent_cpu t\<bar>" using sdiv_bounds(2) [of 16384 "d * recent_cpu t"] d0 by (simp add: m_def abs_mult)
  then have "\<bar>m\<bar> * 16384 * ?M \<le> d * \<bar>recent_cpu t\<bar> * ?M" using N by (intro mult_right_mono) auto
  moreover have "d * \<bar>recent_cpu t\<bar> * ?M \<le> 2 * N * 16384 * \<bar>recent_cpu t\<bar>"
    using mult_right_mono [OF dM, of "\<bar>recent_cpu t\<bar>"] by (simp add: algebra_simps)
  ultimately have "\<bar>m\<bar> * ?M \<le> 2 * N * \<bar>recent_cpu t\<bar>" by simp
  moreover have "2 * N * \<bar>recent_cpu t\<bar> \<le> 2 * N * (cpu_bound N + 100)" using rc N by (intro mult_left_mono) auto
  moreover have "2 * N * (cpu_bound N + 100) < (2 * N * cpu_unit + 100) * ?M" using N by (simp add: cpu_bound_def algebra_simps)
  ultimately have "\<bar>m\<bar> * ?M < (2 * N * cpu_unit + 100) * ?M" by linarith
  then have m: "\<bar>m\<bar> < 2 * N * cpu_unit + 100" using N by (simp only: mult_less_cancel_right_pos)
  have nb: "\<bar>nice t * 16384\<bar> \<le> 20 * 16384" using n by auto
  have r: "\<bar>m + nice t * 16384\<bar> \<le> cpu_bound N" using m nb by (simp add: cpu_bound_def algebra_simps)
  have "fxp_muli load 2 = Some l2" "fxp_addi 14 l2 1 = Some (l2 + 16384)"
    using l2 l2' by (simp_all add: fxp_muli_def fxp_addi_def l2_def [symmetric])
  moreover have "fxp_div 14 l2 (l2 + 16384) = Some d"
    using fxp_div_defined [of l2 "l2 + 16384" 14 16384] l2 l2' d0 d2 by (simp add: d_def [symmetric])
  moreover have "fxp_reformat 14 14 d = Some d"
  proof -
    have "\<bar>d * 16384\<bar> \<le> 2 ^ 62" using d0 d2 by simp
    moreover have "(d * 16384) sdiv 16384 = d" using d0 by (simp add: sdiv_nonneg)
    ultimately show ?thesis using d0 d2 by (simp add: fxp_reformat_def c_int64_small c_div64_small)
  qed
  moreover have "fxp_mul 14 d (recent_cpu t) = Some m"
  proof -
    have "\<bar>recent_cpu t\<bar> < 2 ^ 31" using rc K by simp
    then have "is_int (recent_cpu t)" by (simp add: abs_less_iff)
    moreover have "is_int m" using m N by auto
    ultimately show ?thesis using fxp_mul_defined [of d "recent_cpu t" 14 16384] d0 d2 by (simp add: m_def [symmetric])
  qed
  moreover have "fxp_addi 14 m (nice t) = Some (m + nice t * 16384)"
    using nb r K by (auto simp: fxp_addi_def)
  ultimately show ?thesis using r by (intro exI [of _ "m + nice t * 16384"]) (simp add: update_recent_cpu_def l2_def)
qed

section \<open>All threads\<close>

text \<open>What a function applied to every thread may change.\<close>

definition keeps :: "(thread \<Rightarrow> bool) \<Rightarrow> (thread \<Rightarrow> bool) \<Rightarrow> (thread \<Rightarrow> thread option) \<Rightarrow> bool" where
  "keeps P Q func \<longleftrightarrow> (\<forall>t. params_ok t \<longrightarrow> P t \<longrightarrow> (\<exists>t'. func t = Some t' \<and> status t' = status t \<and> magic t' = magic t \<and>
     tid t' = tid t \<and> params_ok t' \<and> Q t'))"

lemma foreach_loop_keeps:
  assumes "keeps P Q func" "sched_inv s" "distinct ps" "set ps \<subseteq> dom (threads s)"
    and "\<And>p t. p \<in> set ps \<Longrightarrow> threads s p = Some t \<Longrightarrow> P t"
  shows "\<exists>ths. foreach_loop func ps s = Some (s\<lparr>threads := ths\<rparr>) \<and> sched_inv (s\<lparr>threads := ths\<rparr>) \<and>
    (\<forall>p\<in>set ps. \<exists>t. ths p = Some t \<and> Q t) \<and> (\<forall>p. p \<notin> set ps \<longrightarrow> ths p = threads s p)"
  using assms(2-5)
proof (induction ps arbitrary: s)
  case Nil
  then show ?case by (intro exI [of _ "threads s"]) simp
next
  case (Cons p ps)
  obtain t where t: "threads s p = Some t" using Cons.prems(3) by auto
  then obtain t' where t': "func t = Some t'" "status t' = status t" "magic t' = magic t" "tid t' = tid t" "params_ok t'" "Q t'"
    using assms(1) Cons.prems(4) [of p t] current_pri [OF Cons.prems(1) t] unfolding keeps_def by force
  let ?s1 = "put_thread p t' s"
  have inv1: "sched_inv ?s1" by (rule sched_inv_put [OF Cons.prems(1) t t'(2-5)]) simp_all
  have dps: "distinct ps" "set ps \<subseteq> dom (threads ?s1)" using Cons.prems(2,3) by auto
  have pre: "P u" if "q \<in> set ps" "threads ?s1 q = Some u" for q u
    using that Cons.prems(2) Cons.prems(4) [of q u] by (auto split: if_splits)
  obtain ths where ths: "foreach_loop func ps ?s1 = Some (?s1\<lparr>threads := ths\<rparr>)" "sched_inv (?s1\<lparr>threads := ths\<rparr>)"
    "\<forall>p\<in>set ps. \<exists>t. ths p = Some t \<and> Q t" "\<forall>q. q \<notin> set ps \<longrightarrow> ths q = threads ?s1 q"
    using Cons.IH [OF inv1 dps] pre by blast
  have e: "?s1\<lparr>threads := ths\<rparr> = s\<lparr>threads := ths\<rparr>" by (simp add: put_thread_def)
  have "ths p = Some t'" using ths(4) Cons.prems(2) by simp
  then have "\<forall>q\<in>set (p # ps). \<exists>t. ths q = Some t \<and> Q t" using ths(3) t'(6) by auto
  moreover have "\<forall>q. q \<notin> set (p # ps) \<longrightarrow> ths q = threads s q" using ths(4) by auto
  ultimately show ?case using ths(1,2) t t'(1) unfolding e by (intro exI [of _ ths]) simp
qed

lemma thread_foreach_keeps:
  assumes "keeps P Q func" "sched_inv s" "\<not> intr_on s" and "\<And>p t. p \<in> set (all_list s) \<Longrightarrow> threads s p = Some t \<Longrightarrow> P t"
  shows "\<exists>ths. thread_foreach func s = Some (s\<lparr>threads := ths\<rparr>) \<and> sched_inv (s\<lparr>threads := ths\<rparr>) \<and>
    (\<forall>p\<in>set (all_list s). \<exists>t. ths p = Some t \<and> Q t)"
proof -
  have wf: "sched_wf {running s} s" using assms(2) by (simp add: sched_inv_def)
  obtain ths where "foreach_loop func (all_list s) s = Some (s\<lparr>threads := ths\<rparr>)" "sched_inv (s\<lparr>threads := ths\<rparr>)"
    "\<forall>p\<in>set (all_list s). \<exists>t. ths p = Some t \<and> Q t"
    using foreach_loop_keeps [OF assms(1,2) sched_wfD(5,3) [OF wf]] assms(4) by blast
  then show ?thesis using assms(3) by (auto simp: thread_foreach_def)
qed

section \<open>One tick\<close>

text \<open>
  \<open>N\<close> bounds the number of threads that are ready or running, \<open>k\<close> the ticks since the last
  full second.
\<close>

definition cpu_ok :: "int \<Rightarrow> int \<Rightarrow> thread \<Rightarrow> bool" where
  "cpu_ok N k t \<longleftrightarrow> \<bar>recent_cpu t\<bar> \<le> cpu_bound N + k"

definition mlfqs_ok :: "int \<Rightarrow> sched \<Rightarrow> bool" where
  "mlfqs_ok N s \<longleftrightarrow> thread_mlfqs s \<and> 1 \<le> N \<and> N \<le> 1000 \<and> int (length (ready_list s)) + 1 \<le> N \<and>
     0 \<le> load_avg s \<and> load_avg s \<le> N * 16384 \<and> 0 \<le> ticks s \<and>
     (\<forall>p\<in>set (all_list s). \<forall>t. threads s p = Some t \<longrightarrow> cpu_ok N (ticks s mod 100) t)"

lemma cpu_ok_mono: "cpu_ok N k t \<Longrightarrow> k \<le> k' \<Longrightarrow> cpu_ok N k' t"
  by (simp add: cpu_ok_def)

lemma cpu_ok_int: "cpu_ok N k t \<Longrightarrow> k \<le> 100 \<Longrightarrow> 1 \<le> N \<Longrightarrow> N \<le> 1000 \<Longrightarrow> is_int (recent_cpu t)"
  by (auto simp: cpu_ok_def cpu_bound_def)

lemma keeps_recent_cpu:
  assumes "0 \<le> load" "load \<le> N * 16384" "1 \<le> N" "N \<le> 1000"
  shows "keeps (cpu_ok N 100) (cpu_ok N 0) (update_recent_cpu load)"
  unfolding keeps_def
proof (intro allI impI)
  fix t assume p: "params_ok t" "cpu_ok N 100 t"
  then obtain r where r: "update_recent_cpu load t = Some (t\<lparr>recent_cpu := r\<rparr>)" "\<bar>r\<bar> \<le> cpu_bound N"
    using update_recent_cpu_bound [OF assms, of t] by (auto simp: params_ok_def cpu_ok_def)
  then have c: "cpu_ok N 0 (t\<lparr>recent_cpu := r\<rparr>)" by (simp add: cpu_ok_def)
  have "params_ok (t\<lparr>recent_cpu := r\<rparr>)" using p(1) cpu_ok_int [OF c] assms(3,4) by (simp add: params_ok_def)
  with r(1) c show "\<exists>t'. update_recent_cpu load t = Some t' \<and> status t' = status t \<and> magic t' = magic t \<and>
     tid t' = tid t \<and> params_ok t' \<and> cpu_ok N 0 t'" by (intro exI [of _ "t\<lparr>recent_cpu := r\<rparr>"]) simp
qed

lemma keeps_priority: "keeps (cpu_ok N k) (cpu_ok N k) update_priority"
  unfolding keeps_def
proof (intro allI impI)
  fix t assume p: "params_ok t" "cpu_ok N k t"
  then obtain q where q: "update_priority t = Some (t\<lparr>priority := q\<rparr>)" "PRI_MIN \<le> q" "q \<le> PRI_MAX"
    using update_priority_ok [of t] by (auto simp: params_ok_def)
  then show "\<exists>t'. update_priority t = Some t' \<and> status t' = status t \<and> magic t' = magic t \<and>
     tid t' = tid t \<and> params_ok t' \<and> cpu_ok N k t'"
    using p by (intro exI [of _ "t\<lparr>priority := q\<rparr>"]) (simp add: params_ok_def cpu_ok_def)
qed

lemma mlfqs_second:
  assumes inv: "sched_inv s" "\<not> intr_on s" and N: "1 \<le> N" "N \<le> 1000" "int (length (ready_list s)) + 1 \<le> N"
    and l: "0 \<le> load_avg s" "load_avg s \<le> N * 16384"
    and c: "\<And>p t. p \<in> set (all_list s) \<Longrightarrow> threads s p = Some t \<Longrightarrow> cpu_ok N 100 t"
  shows "\<exists>l ths. do { s1 \<leftarrow> update_load_avg s; thread_foreach (update_recent_cpu (load_avg s1)) s1 } =
      Some (s\<lparr>load_avg := l, threads := ths\<rparr>) \<and> sched_inv (s\<lparr>load_avg := l, threads := ths\<rparr>) \<and>
    0 \<le> l \<and> l \<le> N * 16384 \<and> (\<forall>p\<in>set (all_list s). \<exists>t. ths p = Some t \<and> cpu_ok N 0 t)"
proof -
  obtain l where l': "update_load_avg s = Some (s\<lparr>load_avg := l\<rparr>)" "0 \<le> l" "l \<le> N * 16384"
    using update_load_avg_bound [OF inv(1) l N(3,2)] by blast
  let ?s1 = "s\<lparr>load_avg := l\<rparr>"
  have inv1: "sched_inv ?s1" using inv(1) by (simp add: sched_inv_def sched_wf_def thread_wf_def)
  have "\<not> intr_on ?s1" using inv(2) by simp
  then obtain ths where "thread_foreach (update_recent_cpu l) ?s1 = Some (?s1\<lparr>threads := ths\<rparr>)" "sched_inv (?s1\<lparr>threads := ths\<rparr>)"
    "\<forall>p\<in>set (all_list s). \<exists>t. ths p = Some t \<and> cpu_ok N 0 t"
    using thread_foreach_keeps [OF keeps_recent_cpu [OF l'(2,3) N(1,2)] inv1] c by auto
  then show ?thesis using l' by (intro exI [of _ l] exI [of _ ths]) simp
qed

lemma next_second:
  assumes "0 \<le> (k :: int)"
  shows "(k + 1) smod 100 = 0 \<Longrightarrow> k mod 100 + 1 = 100 \<and> (k + 1) mod 100 = 0"
    "(k + 1) smod 100 \<noteq> 0 \<Longrightarrow> (k + 1) mod 100 = k mod 100 + 1"
proof -
  have r: "0 \<le> k mod 100" "k mod 100 < 100" by simp_all
  have "(k + 1) mod 100 = (k mod 100 + 1) mod 100" by (simp add: mod_add_left_eq)
  moreover have "(k mod 100 + 1) mod 100 = (if k mod 100 + 1 = 100 then 0 else k mod 100 + 1)"
    using r by (auto simp: mod_pos_pos_trivial)
  ultimately have e: "(k + 1) mod 100 = (if k mod 100 + 1 = 100 then 0 else k mod 100 + 1)" by simp
  have "(k + 1) smod 100 = (k + 1) mod 100" using assms by (simp add: smod_nonneg)
  then show "(k + 1) smod 100 = 0 \<Longrightarrow> k mod 100 + 1 = 100 \<and> (k + 1) mod 100 = 0"
    "(k + 1) smod 100 \<noteq> 0 \<Longrightarrow> (k + 1) mod 100 = k mod 100 + 1"
    using e r by (auto split: if_splits)
qed

lemma mlfqs_step_spec:
  assumes inv: "sched_inv s" "\<not> intr_on s" and N: "1 \<le> N" "N \<le> 1000" "int (length (ready_list s)) + 1 \<le> N"
    and l: "0 \<le> load_avg s" "load_avg s \<le> N * 16384" and tk: "1 \<le> ticks s"
    and c: "\<And>p t. p \<in> set (all_list s) \<Longrightarrow> threads s p = Some t \<Longrightarrow> cpu_ok N ((ticks s - 1) mod 100 + 1) t"
  shows "\<exists>l ths. mlfqs_step s = Some (s\<lparr>load_avg := l, threads := ths\<rparr>) \<and> sched_inv (s\<lparr>load_avg := l, threads := ths\<rparr>) \<and>
    0 \<le> l \<and> l \<le> N * 16384 \<and> (\<forall>p\<in>set (all_list s). \<exists>t. ths p = Some t \<and> cpu_ok N (ticks s mod 100) t)"
proof -
  note sec = next_second [of "ticks s - 1", simplified]
  have al: "set (all_list s) \<subseteq> dom (threads s)" using sched_wfD(3) inv(1) by (simp add: sched_inv_def)
  have "\<exists>l ths. (if ticks s smod TIMER_FREQ = 0 then do {
              s3 \<leftarrow> update_load_avg s;
              thread_foreach (update_recent_cpu (load_avg s3)) s3
            } else Some s) = Some (s\<lparr>load_avg := l, threads := ths\<rparr>) \<and> sched_inv (s\<lparr>load_avg := l, threads := ths\<rparr>) \<and>
    0 \<le> l \<and> l \<le> N * 16384 \<and> (\<forall>p\<in>set (all_list s). \<exists>t. ths p = Some t \<and> cpu_ok N (ticks s mod 100) t)"
  proof (cases "ticks s smod TIMER_FREQ = 0")
    case True
    then have k: "(ticks s - 1) mod 100 + 1 = 100" "ticks s mod 100 = 0" using sec(1) tk by auto
    show ?thesis using mlfqs_second [OF inv N l] c True unfolding k by auto
  next
    case False
    then have k: "(ticks s - 1) mod 100 + 1 = ticks s mod 100" using sec(2) tk by auto
    have "s\<lparr>load_avg := load_avg s, threads := threads s\<rparr> = s" by simp
    moreover have "\<forall>p\<in>set (all_list s). \<exists>t. threads s p = Some t \<and> cpu_ok N (ticks s mod 100) t"
      using c al unfolding k by blast
    ultimately show ?thesis using False inv(1) l by (intro exI [of _ "load_avg s"] exI [of _ "threads s"]) simp
  qed
  then obtain l1 ths1 where 1: "(if ticks s smod TIMER_FREQ = 0 then do {
              s3 \<leftarrow> update_load_avg s;
              thread_foreach (update_recent_cpu (load_avg s3)) s3
            } else Some s) = Some (s\<lparr>load_avg := l1, threads := ths1\<rparr>)" "sched_inv (s\<lparr>load_avg := l1, threads := ths1\<rparr>)"
    "0 \<le> l1" "l1 \<le> N * 16384" "\<forall>p\<in>set (all_list s). \<exists>t. ths1 p = Some t \<and> cpu_ok N (ticks s mod 100) t" by blast
  let ?s1 = "s\<lparr>load_avg := l1, threads := ths1\<rparr>"
  show ?thesis
  proof (cases "ticks s smod 4 = 0")
    case False
    then show ?thesis using 1 by (intro exI [of _ l1] exI [of _ ths1]) (simp add: mlfqs_step_def)
  next
    case True
    have off: "\<not> intr_on ?s1" using inv(2) by simp
    have "cpu_ok N (ticks s mod 100) t" if "p \<in> set (all_list ?s1)" "threads ?s1 p = Some t" for p t
      using that 1(5) by force
    then obtain ths where "thread_foreach update_priority ?s1 = Some (?s1\<lparr>threads := ths\<rparr>)" "sched_inv (?s1\<lparr>threads := ths\<rparr>)"
      "\<forall>p\<in>set (all_list ?s1). \<exists>t. ths p = Some t \<and> cpu_ok N (ticks s mod 100) t"
      using thread_foreach_keeps [OF keeps_priority 1(2) off] by blast
    then show ?thesis using 1 True by (intro exI [of _ l1] exI [of _ ths]) (simp add: mlfqs_step_def)
  qed
qed

lemma thread_tick_mlfqs:
  assumes inv: "sched_inv s" "\<not> intr_on s" and m: "mlfqs_ok N (s\<lparr>ticks := ticks s - 1\<rparr>)" and t1: "1 \<le> ticks s"
    and b: "\<bar>idle_ticks s\<bar> < 2 ^ 62" "\<bar>kernel_ticks s\<bar> < 2 ^ 62"
  shows "\<exists>s'. thread_tick s = Some s' \<and> sched_inv s' \<and> mlfqs_ok N s' \<and> ticks s' = ticks s \<and> ready_list s' = ready_list s \<and>
    asleep_list s' = asleep_list s"
proof -
  let ?c = "running s"
  obtain t where t: "threads s ?c = Some t" "status t = THREAD_RUNNING" "thread_current s = Some (?c, t)"
    using sched_invD [OF inv(1)] by blast
  have ml: "thread_mlfqs s" "1 \<le> N" "N \<le> 1000" "int (length (ready_list s)) + 1 \<le> N" "0 \<le> load_avg s" "load_avg s \<le> N * 16384"
    and co: "\<And>p u. p \<in> set (all_list s) \<Longrightarrow> threads s p = Some u \<Longrightarrow> cpu_ok N ((ticks s - 1) mod 100) u"
    using m by (simp_all add: mlfqs_ok_def)
  have "thread_wf {?c} s ?c t" using sched_wfD(1) inv(1) t(1) by (simp add: sched_inv_def)
  then have "?c \<in> set (all_list s)" using t(2) by (simp add: thread_wf_def)
  then have ct: "cpu_ok N ((ticks s - 1) mod 100) t" using co t(1) by blast
  have k: "(ticks s - 1) mod 100 \<le> 99" using pos_mod_bound [of 100 "ticks s - 1"] by linarith
  let ?t = "t\<lparr>recent_cpu := recent_cpu t + 1\<rparr>"
  have ct': "cpu_ok N ((ticks s - 1) mod 100 + 1) ?t" using ct by (auto simp: cpu_ok_def)
  have rc: "is_int (recent_cpu ?t)" by (rule cpu_ok_int [OF ct']) (use k ml in simp_all)
  define s1 where "s1 = s\<lparr>idle_ticks := (if Some ?c = idle_thread s then idle_ticks s + 1 else idle_ticks s),
    kernel_ticks := (if Some ?c = idle_thread s then kernel_ticks s else kernel_ticks s + 1)\<rparr>"
  define s2 where "s2 = put_thread ?c ?t s1"
  have f2: "threads s2 = (threads s)(?c \<mapsto> ?t)" "ready_list s2 = ready_list s" "all_list s2 = all_list s" "idle_thread s2 = idle_thread s"
    "initial_thread s2 = initial_thread s" "running s2 = running s" "next_tid s2 = next_tid s" "load_avg s2 = load_avg s"
    "ticks s2 = ticks s" "intr_on s2 = intr_on s" "thread_mlfqs s1 = thread_mlfqs s" "thread_mlfqs s2 = thread_mlfqs s" "asleep_list s2 = asleep_list s"
    by (simp_all add: s2_def s1_def)
  have inv2: "sched_inv s2"
    by (rule sched_inv_put [OF inv(1) t(1), of ?t]) (use current_pri [OF inv(1) t(1)] rc in \<open>simp_all add: f2 params_ok_def\<close>)
  have pre: "cpu_ok N ((ticks s2 - 1) mod 100 + 1) u" if "p \<in> set (all_list s2)" "threads s2 p = Some u" for p u
    using that ct' co [of p u] cpu_ok_mono [of N "(ticks s - 1) mod 100" u "(ticks s - 1) mod 100 + 1"]
    by (auto simp: f2 split: if_splits)
  have off2: "\<not> intr_on s2" and rl2: "int (length (ready_list s2)) + 1 \<le> N" and l2: "0 \<le> load_avg s2" "load_avg s2 \<le> N * 16384" "1 \<le> ticks s2"
    using inv(2) ml t1 by (simp_all add: f2)
  obtain l ths where st: "mlfqs_step s2 = Some (s2\<lparr>load_avg := l, threads := ths\<rparr>)" "sched_inv (s2\<lparr>load_avg := l, threads := ths\<rparr>)"
    "0 \<le> l" "l \<le> N * 16384" "\<forall>p\<in>set (all_list s2). \<exists>u. ths p = Some u \<and> cpu_ok N (ticks s2 mod 100) u"
    using mlfqs_step_spec [OF inv2 off2 ml(2,3) rl2 l2] pre by blast
  let ?s3 = "s2\<lparr>load_avg := l, threads := ths\<rparr>"
  define s' where "s' = ?s3\<lparr>thread_ticks := thread_ticks ?s3 + 1,
     yield_on_return := (yield_on_return ?s3 \<or> TIME_SLICE \<le> thread_ticks ?s3 + 1)\<rparr>"
  have stat: "(if Some ?c = idle_thread s
            then do { n \<leftarrow> c_int64 (idle_ticks s + 1); Some (s\<lparr>idle_ticks := n\<rparr>) }
            else do { n \<leftarrow> c_int64 (kernel_ticks s + 1); Some (s\<lparr>kernel_ticks := n\<rparr>) }) = Some s1"
    using b by (auto simp: s1_def c_int64_def)
  have "thread_tick s = Some s'"
    using t(3) stat ml(1) rc st(1)
    by (simp add: thread_tick_def f2(11) s2_def [symmetric] Let_def s'_def)
  moreover have "sched_inv s'" using st(2) by (simp add: s'_def sched_inv_def sched_wf_def thread_wf_def)
  moreover have "mlfqs_ok N s'" using ml st(3-5) t1 by (force simp: mlfqs_ok_def s'_def f2)
  ultimately show ?thesis by (intro exI [of _ s']) (simp add: s'_def f2)
qed

end
