(* ===== verification/Sched_Props.thy ===== *)
theory Sched_Props
  imports Mlfqs
begin

text \<open>
  The properties of the scheduler and of the alarm clock, over every sequence of operations:
  threads yield, block, wake, start, exit, change their priorities and sleep, and the timer
  interrupts them, in any order.
\<close>

section \<open>Steps of the kernel\<close>

definition kernel_ok :: "sched \<Rightarrow> bool" where
  "kernel_ok s \<longleftrightarrow> sched_inv s \<and> asleep_ok s \<and> \<not> in_intr s"

text \<open>
  The synchronization primitives, which are not part of the sources, change which locks
  threads hold and who waits for them, and nothing else that matters here.
\<close>

definition only_locks :: "sched \<Rightarrow> sched \<Rightarrow> bool" where
  "only_locks s s' \<longleftrightarrow> (\<exists>held W. s' = s\<lparr>threads := (\<lambda>p. map_option (\<lambda>t. t\<lparr>held_locks := held p\<rparr>) (threads s p)), lock_waiters := W\<rparr>)"

definition timer_irq :: "sched_ops \<Rightarrow> sched \<Rightarrow> sched option" where
  "timer_irq ops s = do {
     s1 \<leftarrow> timer_interrupt (s\<lparr>intr_on := False, in_intr := True, yield_on_return := False\<rparr>);
     let s2 = s1\<lparr>in_intr := False\<rparr>;
     if yield_on_return s1 then thread_yield ops s2 else Some s2
   }"

inductive sched_step :: "sched_ops \<Rightarrow> sched \<Rightarrow> sched \<Rightarrow> bool" for ops where
  step_yield: "thread_yield ops s = Some s' \<Longrightarrow> sched_step ops s s'"
| step_block: "\<not> intr_on s \<Longrightarrow> idle_thread s \<noteq> Some (running s) \<Longrightarrow> thread_block ops s = Some s' \<Longrightarrow> sched_step ops s s'"
| step_idle: "idle_thread s = Some (running s) \<Longrightarrow> idle_loop ops s = Some s' \<Longrightarrow> sched_step ops s s'"
| step_unblock: "p \<notin> set (asleep_list s) \<Longrightarrow> idle_thread s \<noteq> Some p \<Longrightarrow> thread_unblock p s = Some s' \<Longrightarrow> sched_step ops s s'"
| step_create: "threads s p = None \<Longrightarrow> thread_create ops name pri func aux (Some p) s = Some (i, s') \<Longrightarrow> sched_step ops s s'"
| step_exit: "idle_thread s \<noteq> Some (running s) \<Longrightarrow> thread_exit ops s = Some s' \<Longrightarrow> sched_step ops s s'"
| step_priority: "thread_set_priority ops n s = Some s' \<Longrightarrow> sched_step ops s s'"
| step_nice: "thread_set_nice ops n s = Some s' \<Longrightarrow> sched_step ops s s'"
| step_sleep: "idle_thread s \<noteq> Some (running s) \<Longrightarrow> \<bar>n\<bar> < 2 ^ 62 \<Longrightarrow> timer_sleep ops n s = Some s' \<Longrightarrow> sched_step ops s s'"
| step_tick: "timer_irq ops s = Some s' \<Longrightarrow> sched_step ops s s'"
| step_synch: "only_locks s s' \<Longrightarrow> sched_step ops s s'"
| step_intr: "sched_step ops s (s\<lparr>intr_on := b\<rparr>)"

text \<open>
  The conditions of a step: the lists work as documented, no thread waits for itself, the
  64-bit counters are not about to overflow, thread identifiers are left.
\<close>

definition step_ok :: "sched_ops \<Rightarrow> sched \<Rightarrow> bool" where
  "step_ok ops s \<longleftrightarrow> pri_ok ops s \<and> insert_ordered_ok ops \<and> \<not> thread_mlfqs s \<and> 0 < next_tid s \<and> next_tid s < 2 ^ 31 - 1 \<and>
     \<bar>idle_ticks s\<bar> < 2 ^ 62 \<and> \<bar>kernel_ticks s\<bar> < 2 ^ 62 \<and> \<bar>ticks s\<bar> < 2 ^ 62"

lemma asleep_frame:
  assumes inv: "sched_inv s" "asleep_ok s" and r: "running s' \<in> insert (running s) (set (ready_list s)) \<or> idle_thread s = Some (running s')"
    and s': "idle_thread s' = idle_thread s" "asleep_list s' = asleep_list s"
      "\<And>q. q \<noteq> running s \<Longrightarrow> q \<noteq> running s' \<Longrightarrow> threads s' q = threads s q"
  shows "asleep_ok s'"
proof -
  note ao = asleep_okD [OF inv(2)]
  have wf: "sched_wf {running s} s" using inv(1) by (simp add: sched_inv_def)
  have same: "threads s' p = threads s p" if p: "p \<in> set (asleep_list s)" for p
  proof -
    obtain t where t: "threads s p = Some t" "status t = THREAD_BLOCKED" using ao(4) [OF p] by auto
    have "p \<noteq> running s" "p \<notin> set (ready_list s)" using sched_wfD(1) [OF wf t(1)] t(2) by (auto simp: thread_wf_def)
    moreover have "idle_thread s \<noteq> Some p" by (rule ao(3) [OF p])
    ultimately show ?thesis using r s'(3) by auto
  qed
  have "map (wake_at s') (asleep_list s) = map (wake_at s) (asleep_list s)" using same by (simp add: wake_at_def)
  then have "sorted (map (wake_at s') (asleep_list s))" using ao(2) by (simp only:)
  then show ?thesis using ao(1,3,4) same s'(1,2) by (simp add: asleep_ok_def)
qed

lemma yield_kernel_ok:
  assumes "kernel_ok s" "pri_ok ops s"
  shows "\<exists>s'. thread_yield ops s = Some s' \<and> kernel_ok s'"
proof -
  have inv: "sched_inv s" "asleep_ok s" "\<not> in_intr s" using assms(1) by (simp_all add: kernel_ok_def)
  obtain s' where s': "thread_yield ops s = Some s'" "sched_inv s'" "running s' \<in> insert (running s) (set (ready_list s))" "\<not> in_intr s'"
    "idle_thread s' = idle_thread s" "asleep_list s' = asleep_list s" "\<And>q. q \<noteq> running s \<Longrightarrow> q \<noteq> running s' \<Longrightarrow> threads s' q = threads s q"
    using thread_yield_spec [OF inv(1) pri_okD(1,3) [OF assms(2)] inv(3)] by blast
  have "asleep_ok s'" by (rule asleep_frame [OF inv(1,2) _ s'(5,6)]) (use s' in auto)
  then show ?thesis using s' by (auto simp: kernel_ok_def)
qed

lemma put_running_kernel_ok:
  assumes ok: "kernel_ok s" and t: "threads s (running s) = Some t"
    and t': "status t' = status t" "magic t' = magic t" "tid t' = tid t" "params_ok t'"
  shows "kernel_ok (put_thread (running s) t' s)"
proof -
  have inv: "sched_inv s" "asleep_ok s" "\<not> in_intr s" using ok by (simp_all add: kernel_ok_def)
  have "sched_inv (put_thread (running s) t' s)" by (rule sched_inv_put [OF inv(1) t t']) simp_all
  moreover have "asleep_ok (put_thread (running s) t' s)" by (rule asleep_frame [OF inv(1,2)]) simp_all
  ultimately show ?thesis using inv(3) by (simp add: kernel_ok_def)
qed

lemma kernel_okD: "kernel_ok s \<Longrightarrow> sched_inv s" "kernel_ok s \<Longrightarrow> asleep_ok s" "kernel_ok s \<Longrightarrow> \<not> in_intr s"
  by (simp_all add: kernel_ok_def)

lemma block_kernel_ok:
  assumes ok: "kernel_ok s" "pri_ok ops s" and off: "\<not> intr_on s"
  shows "\<exists>s'. thread_block ops s = Some s' \<and> kernel_ok s'"
proof -
  note inv = kernel_okD [OF ok(1)]
  obtain s' where s': "thread_block ops s = Some s'" "sched_inv s'" "\<not> in_intr s'"
    "running s' \<in> set (ready_list s) \<or> ready_list s = [] \<and> idle_thread s = Some (running s')"
    "asleep_list s' = asleep_list s" "idle_thread s' = idle_thread s"
    "\<forall>q. q \<noteq> running s' \<longrightarrow> threads s' q = (if q = running s then map_option (\<lambda>u. u\<lparr>status := THREAD_BLOCKED\<rparr>) (threads s q) else threads s q)"
    using thread_block_spec [OF inv(1) pri_okD(1,3) [OF ok(2)] inv(3) off] by blast
  have "asleep_ok s'" by (rule asleep_frame [OF inv(1,2) _ s'(6,5)]) (use s'(4,7) in auto)
  then show ?thesis using s' by (auto simp: kernel_ok_def)
qed

lemma step_intr_ok: "kernel_ok s \<Longrightarrow> kernel_ok (s\<lparr>intr_on := b\<rparr>)"
  by (simp add: kernel_ok_def sched_inv_def sched_wf_def thread_wf_def asleep_ok_def wake_at_def cong: map_cong)

lemma resume_kernel_ok: "kernel_ok s \<Longrightarrow> \<exists>s'. resume s = Some s' \<and> kernel_ok s'"
proof -
  assume ok: "kernel_ok s"
  obtain t where "threads s (running s) = Some t" using sched_invD [OF kernel_okD(1) [OF ok]] by blast
  then show ?thesis using step_intr_ok [OF ok] by (simp add: resume_def)
qed

lemma pri_ok_intr: "pri_ok ops (s\<lparr>intr_on := b\<rparr>) = pri_ok ops s"
  by (simp add: pri_ok_def donation_ok_def)

lemma idle_kernel_ok:
  assumes ok: "kernel_ok s" "pri_ok ops s"
  shows "\<exists>s'. idle_loop ops s = Some s' \<and> kernel_ok s'"
proof -
  obtain t where t: "threads s (running s) = Some t" "thread_current s = Some (running s, t)"
    using sched_invD [OF kernel_okD(1) [OF ok(1)]] by blast
  let ?t = "t\<lparr>saved_intr := True\<rparr>"
  let ?s1 = "(put_thread (running s) ?t s)\<lparr>intr_on := False\<rparr>"
  have "params_ok ?t" using current_pri [OF kernel_okD(1) [OF ok(1)] t(1)] by simp
  then have "kernel_ok (put_thread (running s) ?t s)" by (intro put_running_kernel_ok [OF ok(1) t(1)]) simp_all
  then have 1: "kernel_ok ?s1" by (rule step_intr_ok)
  have 2: "pri_ok ops ?s1" using pri_ok_put [OF ok(2) t(1), of ?t] by (simp add: pri_ok_intr)
  obtain s2 where "thread_block ops ?s1 = Some s2" "kernel_ok s2" using block_kernel_ok [OF 1 2] by auto
  moreover obtain s3 where "resume s2 = Some s3" "kernel_ok s3" using resume_kernel_ok [OF calculation(2)] by blast
  ultimately show ?thesis using t(2) by (simp add: idle_loop_def)
qed

lemma unblock_kernel_ok:
  assumes ok: "kernel_ok s" and p: "p \<notin> set (asleep_list s)" "idle_thread s \<noteq> Some p" and u: "thread_unblock p s = Some s'"
  shows "kernel_ok s'"
proof -
  obtain t where t: "threads s p = Some t" "status t = THREAD_BLOCKED"
    using u by (auto simp: thread_unblock_def bind_eq_Some_conv kernel_simps)
  have f: "sched_inv s'" "in_intr s' = in_intr s" "idle_thread s' = idle_thread s" "asleep_list s' = asleep_list s"
    "threads s' = (threads s)(p \<mapsto> t\<lparr>status := THREAD_READY\<rparr>)"
    using thread_unblock_spec [OF kernel_okD(1) [OF ok] t p(2)] u by auto
  note ao = asleep_okD [OF kernel_okD(2) [OF ok]]
  have same: "threads s' q = threads s q" if "q \<in> set (asleep_list s)" for q using that p(1) f(5) by auto
  then have "map (wake_at s') (asleep_list s) = map (wake_at s) (asleep_list s)" by (simp add: wake_at_def)
  then have "sorted (map (wake_at s') (asleep_list s))" using ao(2) by (simp only:)
  then have "asleep_ok s'" using ao(1,3,4) same f(3,4) by (simp add: asleep_ok_def)
  then show ?thesis using f(1,2) kernel_okD(3) [OF ok] by (simp add: kernel_ok_def)
qed

lemma create_kernel_ok:
  assumes ok: "kernel_ok s" "step_ok ops s" and p: "threads s p = None"
    and c: "thread_create ops name pri func aux (Some p) s = Some (i, s')"
  shows "kernel_ok s'"
proof -
  note inv = kernel_okD [OF ok(1)]
  have st: "pri_ok ops s" "next_tid s < 2 ^ 31 - 1" "0 < next_tid s" using ok(2) by (simp_all add: step_ok_def)
  have f: "func \<noteq> 0" "PRI_MIN \<le> pri" "pri \<le> PRI_MAX"
    using c by (auto simp: thread_create_def init_thread_def bind_eq_Some_conv kernel_simps)
  obtain s1 where s1: "thread_create ops name pri func aux (Some p) s = Some (next_tid s, s1)" "sched_inv s1"
    "running s1 \<in> insert p (insert (running s) (set (ready_list s)))"
    "\<not> in_intr s1" "idle_thread s1 = idle_thread s" "asleep_list s1 = asleep_list s"
    "\<forall>q. q \<noteq> p \<longrightarrow> q \<noteq> running s \<longrightarrow> q \<noteq> running s1 \<longrightarrow> threads s1 q = threads s q"
    using thread_create_spec [OF inv(1) st(1) inv(3) f(1) p f(2,3) st(2,3)] by blast
  have e: "s1 = s'" using c s1(1) by simp
  note ao = asleep_okD [OF inv(2)]
  have wf: "sched_wf {running s} s" using inv(1) by (simp add: sched_inv_def)
  have same: "threads s1 q = threads s q" if q: "q \<in> set (asleep_list s)" for q
  proof -
    obtain t where t: "threads s q = Some t" "status t = THREAD_BLOCKED" using ao(4) [OF q] by auto
    then have "q \<noteq> p" "q \<noteq> running s" "q \<notin> set (ready_list s)"
      using p sched_wfD(1) [OF wf t(1)] by (auto simp: thread_wf_def)
    then show ?thesis using s1(3,7) by auto
  qed
  then have "map (wake_at s1) (asleep_list s) = map (wake_at s) (asleep_list s)" by (simp add: wake_at_def)
  then have "sorted (map (wake_at s1) (asleep_list s))" using ao(2) by (simp only:)
  then have "asleep_ok s1" using ao(1,3,4) same s1(5,6) by (simp add: asleep_ok_def)
  then show ?thesis using s1(2,4) e by (simp add: kernel_ok_def)
qed

lemma exit_kernel_ok:
  assumes ok: "kernel_ok s" "pri_ok ops s" and i: "idle_thread s \<noteq> Some (running s)" and x: "thread_exit ops s = Some s'"
  shows "kernel_ok s'"
proof -
  note inv = kernel_okD [OF ok(1)]
  obtain t where t: "threads s (running s) = Some t" "thread_current s = Some (running s, t)" using sched_invD [OF inv(1)] by blast
  have h: "held_locks t = []" using x t(2) by (auto simp: thread_exit_def bind_eq_Some_conv kernel_simps)
  obtain s1 where s1: "thread_exit ops s = Some s1" "sched_inv s1" "running s1 \<in> set (ready_list s) \<or> idle_thread s = Some (running s1)"
    "\<not> in_intr s1" "idle_thread s1 = idle_thread s" "asleep_list s1 = asleep_list s"
    "\<forall>q. q \<noteq> running s \<longrightarrow> q \<noteq> running s1 \<longrightarrow> threads s1 q = threads s q"
    using thread_exit_spec [OF inv(1) pri_okD(1,3) [OF ok(2)] inv(3) t(1) h i] by blast
  have "asleep_ok s1" by (rule asleep_frame [OF inv(1,2) _ s1(5,6)]) (use s1(3,7) in auto)
  then show ?thesis using s1 x by (simp add: kernel_ok_def)
qed

lemma priority_kernel_ok:
  assumes ok: "kernel_ok s" "pri_ok ops s" and r: "PRI_MIN \<le> n" "n \<le> PRI_MAX"
  shows "\<exists>s'. thread_set_priority ops n s = Some s' \<and> kernel_ok s'"
proof -
  obtain t where t: "threads s (running s) = Some t" "thread_current s = Some (running s, t)"
    using sched_invD [OF kernel_okD(1) [OF ok(1)]] by blast
  let ?t = "t\<lparr>base_priority := n\<rparr>"
  have "params_ok ?t" using current_pri [OF kernel_okD(1) [OF ok(1)] t(1)] r by (simp add: params_ok_def)
  then have "kernel_ok (put_thread (running s) ?t s)" by (intro put_running_kernel_ok [OF ok(1) t(1)]) simp_all
  moreover have "pri_ok ops (put_thread (running s) ?t s)" by (rule pri_ok_put [OF ok(2) t(1)]) simp
  ultimately show ?thesis using yield_kernel_ok [of "put_thread (running s) ?t s" ops] t(2) r
    by (simp add: thread_set_priority_def)
qed

lemma nice_kernel_ok:
  assumes ok: "kernel_ok s" "pri_ok ops s" and r: "NICE_MIN \<le> n" "n \<le> NICE_MAX"
  shows "\<exists>s'. thread_set_nice ops n s = Some s' \<and> kernel_ok s'"
proof -
  obtain t where t: "threads s (running s) = Some t" "thread_current s = Some (running s, t)"
    using sched_invD [OF kernel_okD(1) [OF ok(1)]] by blast
  have po: "params_ok t" by (rule current_pri [OF kernel_okD(1) [OF ok(1)] t(1)])
  obtain p where p: "update_priority (t\<lparr>nice := n\<rparr>) = Some (t\<lparr>nice := n, priority := p\<rparr>)" "PRI_MIN \<le> p" "p \<le> PRI_MAX"
    using update_priority_ok [of "t\<lparr>nice := n\<rparr>"] po r by (auto simp: params_ok_def)
  let ?t = "t\<lparr>nice := n, priority := p\<rparr>"
  have "params_ok ?t" using po r p by (simp add: params_ok_def)
  then have "kernel_ok (put_thread (running s) ?t s)" by (intro put_running_kernel_ok [OF ok(1) t(1)]) simp_all
  moreover have "pri_ok ops (put_thread (running s) ?t s)" by (rule pri_ok_put [OF ok(2) t(1)]) simp
  ultimately show ?thesis using yield_kernel_ok [of "put_thread (running s) ?t s" ops] t(2) r p(1)
    by (simp add: thread_set_nice_def)
qed

lemma sleep_kernel_ok:
  assumes ok: "kernel_ok s" "step_ok ops s" and i: "idle_thread s \<noteq> Some (running s)" and n: "\<bar>n\<bar> < 2 ^ 62" and x: "timer_sleep ops n s = Some s'"
  shows "kernel_ok s'"
proof -
  note inv = kernel_okD [OF ok(1)]
  have st: "pri_ok ops s" "insert_ordered_ok ops" "\<bar>ticks s\<bar> < 2 ^ 62" using ok(2) by (simp_all add: step_ok_def)
  have on: "intr_on s" using x by (auto simp: timer_sleep_def bind_eq_Some_conv kernel_simps)
  have "\<not> in_intr s'" "sched_inv s'" "asleep_ok s'"
    using timer_sleep_spec [OF inv(1,2) pri_okD(1) [OF st(1)] st(2) pri_okD(3) [OF st(1)] on inv(3) i st(3) n] x by auto
  then show ?thesis by (simp add: kernel_ok_def)
qed

lemma tick_kernel_ok:
  assumes ok: "kernel_ok s" "step_ok ops s"
  shows "\<exists>s'. timer_irq ops s = Some s' \<and> kernel_ok s'"
proof -
  note inv = kernel_okD [OF ok(1)]
  let ?s = "s\<lparr>intr_on := False, in_intr := True, yield_on_return := False\<rparr>"
  have 0: "sched_inv ?s" "asleep_ok ?s" "\<not> thread_mlfqs ?s" "\<bar>idle_ticks ?s\<bar> < 2 ^ 62" "\<bar>kernel_ticks ?s\<bar> < 2 ^ 62" "\<bar>ticks ?s\<bar> < 2 ^ 62"
    using inv(1,2) ok(2) by (simp_all add: step_ok_def sched_inv_def sched_wf_def thread_wf_def asleep_ok_def wake_at_def cong: map_cong)
  obtain s1 where s1: "timer_interrupt ?s = Some s1" "sched_inv s1" "asleep_ok s1" "donation_ok ?s \<longrightarrow> donation_ok s1" "\<not> thread_mlfqs s1"
    using timer_interrupt_spec [OF 0] by blast
  let ?s2 = "s1\<lparr>in_intr := False\<rparr>"
  have k2: "kernel_ok ?s2"
    using s1 by (simp add: kernel_ok_def sched_inv_def sched_wf_def thread_wf_def asleep_ok_def wake_at_def cong: map_cong)
  have "donation_ok s" using ok(2) by (auto simp: step_ok_def pri_ok_def)
  then have "donation_ok ?s" by (simp add: donation_ok_def)
  then have "donation_ok ?s2" using s1(4) by (simp add: donation_ok_def)
  then have "pri_ok ops ?s2" using ok(2) by (simp add: step_ok_def pri_ok_def)
  from yield_kernel_ok [OF k2 this] show ?thesis using s1(1) k2 by (simp add: timer_irq_def Let_def)
qed

lemma synch_kernel_ok:
  assumes ok: "kernel_ok s" and x: "only_locks s s'"
  shows "kernel_ok s'"
proof -
  obtain held W where s': "s' = s\<lparr>threads := (\<lambda>p. map_option (\<lambda>t. t\<lparr>held_locks := held p\<rparr>) (threads s p)), lock_waiters := W\<rparr>"
    using x by (auto simp: only_locks_def)
  note inv = kernel_okD [OF ok]
  have wf: "sched_wf {running s} s" using inv(1) by (simp add: sched_inv_def)
  have prev: "\<exists>u. threads s p = Some u \<and> t = u\<lparr>held_locks := held p\<rparr>" if "threads s' p = Some t" for p t
    using that by (auto simp: s')
  have dm: "dom (threads s') = dom (threads s)" by (auto simp: s' dom_def)
  obtain i ti where i: "idle_thread s = Some i" "threads s i = Some ti" "status ti \<noteq> THREAD_DYING" "i \<notin> set (ready_list s)"
    using sched_wfD(8) [OF wf] by blast
  have same: "ready_list s' = ready_list s" "all_list s' = all_list s" "running s' = running s" "idle_thread s' = idle_thread s"
    "initial_thread s' = initial_thread s" "next_tid s' = next_tid s" "asleep_list s' = asleep_list s" "in_intr s' = in_intr s"
    by (simp_all add: s')
  have "sched_wf {running s} s'"
  proof (rule sched_wfI [where i = i and ti = "ti\<lparr>held_locks := held i\<rparr>"])
    show "thread_wf {running s} s' p t" if pt: "threads s' p = Some t" for p t
    proof -
      obtain u where u: "threads s p = Some u" "t = u\<lparr>held_locks := held p\<rparr>" using prev [OF pt] by blast
      show ?thesis using sched_wfD(1) [OF wf u(1)] by (simp add: u(2) thread_wf_def params_ok_def same)
    qed
    show "p = q" if pq: "threads s' p = Some t" "threads s' q = Some u" "tid t = tid u" for p q t u
    proof -
      obtain t' u' where "threads s p = Some t'" "threads s q = Some u'" "tid t' = tid u'"
        using prev [OF pq(1)] prev [OF pq(2)] pq(3) by auto
      then show ?thesis by (rule sched_wfD(9) [OF wf])
    qed
  qed (use sched_wfD(2-7) [OF wf] i in \<open>simp_all add: dm same\<close>, simp add: s')
  moreover have "wake_at s' p = wake_at s p" "map_option status (threads s' p) = map_option status (threads s p)" for p
    by (simp_all add: s' wake_at_def option.map_comp comp_def split: option.splits)
  then have "asleep_ok s'" using asleep_okD [OF inv(2)] by (simp add: asleep_ok_def same cong: map_cong)
  ultimately show ?thesis using inv(3) by (simp add: kernel_ok_def sched_inv_def same)
qed

lemma step_kernel_ok:
  assumes "sched_step ops s s'" "kernel_ok s" "step_ok ops s"
  shows "kernel_ok s'"
proof -
  have pri: "pri_ok ops s" using assms(3) by (simp add: step_ok_def)
  from assms(1) show ?thesis
  proof cases
    case step_yield then show ?thesis using yield_kernel_ok [OF assms(2) pri] by auto
  next
    case step_block then show ?thesis using block_kernel_ok [OF assms(2) pri] by auto
  next
    case step_idle then show ?thesis using idle_kernel_ok [OF assms(2) pri] by simp
  next
    case step_unblock then show ?thesis using unblock_kernel_ok [OF assms(2)] by blast
  next
    case step_create then show ?thesis using create_kernel_ok [OF assms(2,3)] by blast
  next
    case step_exit then show ?thesis using exit_kernel_ok [OF assms(2) pri] by blast
  next
    case (step_priority n)
    then have "PRI_MIN \<le> n" "n \<le> PRI_MAX" by (auto simp: thread_set_priority_def kassert_bind_Some)
    then show ?thesis using priority_kernel_ok [OF assms(2) pri, of n] step_priority by simp
  next
    case (step_nice n)
    then have "NICE_MIN \<le> n" "n \<le> NICE_MAX" by (auto simp: thread_set_nice_def kassert_bind_Some)
    then show ?thesis using nice_kernel_ok [OF assms(2) pri, of n] step_nice by simp
  next
    case step_sleep then show ?thesis using sleep_kernel_ok [OF assms(2,3)] by blast
  next
    case step_tick then show ?thesis using tick_kernel_ok [OF assms(2,3)] by simp
  next
    case step_synch then show ?thesis using synch_kernel_ok [OF assms(2)] by blast
  next
    case step_intr then show ?thesis using step_intr_ok [OF assms(2)] by blast
  qed
qed

text \<open>Sequences of steps, each taken in a state that meets the conditions.\<close>

inductive sched_run :: "sched_ops \<Rightarrow> sched \<Rightarrow> sched \<Rightarrow> bool" for ops where
  run_refl: "sched_run ops s s"
| run_step: "sched_run ops s s1 \<Longrightarrow> step_ok ops s1 \<Longrightarrow> sched_step ops s1 s2 \<Longrightarrow> sched_run ops s s2"

inductive_cases sched_run_cases: "sched_run ops s s'"

lemma run_kernel_ok: "sched_run ops s s' \<Longrightarrow> kernel_ok s \<Longrightarrow> kernel_ok s'"
  by (induction rule: sched_run.induct) (auto intro: step_kernel_ok)

section \<open>Sleeping threads stay asleep\<close>

text \<open>
  An operation leaves the sleeping threads alone if it neither advances the clock nor takes a thread off the list of
  sleeping threads nor sets the wake-up tick of a thread outside \<open>D\<close>.
\<close>

definition undisturbed :: "nat set \<Rightarrow> sched \<Rightarrow> sched \<Rightarrow> bool" where
  "undisturbed D s s' \<longleftrightarrow> ticks s' = ticks s \<and> set (asleep_list s) \<subseteq> set (asleep_list s') \<and>
     (\<forall>q. q \<notin> D \<longrightarrow> threads s' q \<noteq> None \<longrightarrow> map_option wakeup_ticks (threads s' q) = map_option wakeup_ticks (threads s q))"

lemma undisturbed_trans: "undisturbed D s s1 \<Longrightarrow> undisturbed E s1 s2 \<Longrightarrow> undisturbed (D \<union> E) s s2"
  unfolding undisturbed_def by (metis (no_types, lifting) UnCI map_option_is_None order_trans)

lemma undisturbed_trans0: "undisturbed D s s1 \<Longrightarrow> undisturbed {} s1 s2 \<Longrightarrow> undisturbed D s s2"
  using undisturbed_trans [of D s s1 "{}" s2] by simp

lemma undisturbedI:
  assumes "ticks s' = ticks s" "asleep_list s' = asleep_list s"
    and "\<And>q. q \<notin> D \<Longrightarrow> threads s' q = None \<or> map_option wakeup_ticks (threads s' q) = map_option wakeup_ticks (threads s q)"
  shows "undisturbed D s s'"
  unfolding undisturbed_def using assms by (metis order_refl)

lemma schedule_undisturbed:
  assumes "schedule ops s = Some s'"
  shows "undisturbed {} s s'"
proof -
  obtain nxt s1 n where n: "next_thread_to_run ops s = Some (nxt, s1)"
    and tl: "thread_schedule_tail (if running s \<noteq> n then Some (running s) else None) (s1\<lparr>running := n\<rparr>) = Some s'"
    using assms by (auto simp: schedule_def Let_def bind_eq_Some_conv kernel_simps)
  have 1: "ticks s1 = ticks s" "asleep_list s1 = asleep_list s" "threads s1 = threads s"
    using n by (auto simp: next_thread_to_run_def bind_eq_Some_conv split: if_splits)
  have "undisturbed {} (s1\<lparr>running := n\<rparr>) s'"
    using tl by (intro undisturbedI)
      (auto simp: thread_schedule_tail_def Let_def bind_eq_Some_conv kernel_simps split: option.splits if_splits)
  then show ?thesis using 1 by (simp add: undisturbed_def)
qed

lemma resume_undisturbed: "resume s = Some s' \<Longrightarrow> undisturbed {} s s'"
  by (intro undisturbedI) (auto simp: resume_def bind_eq_Some_conv)

lemma put_undisturbed:
  assumes "threads s p = Some t" "wakeup_ticks t' = wakeup_ticks t"
    and "threads s' = (threads s)(p \<mapsto> t')" "ticks s' = ticks s" "asleep_list s' = asleep_list s"
  shows "undisturbed {} s s'"
  using assms by (intro undisturbedI) auto

lemma thread_currentD: "thread_current s = Some (c, t) \<Longrightarrow> c = running s \<and> threads s c = Some t"
  by (auto simp: thread_current_def bind_eq_Some_conv kernel_simps)

lemma yield_undisturbed:
  assumes "thread_yield ops s = Some s'"
  shows "undisturbed {} s s'"
proof -
  obtain c t where c: "thread_current s = Some (c, t)" using assms by (auto simp: thread_yield_def bind_eq_Some_conv)
  define s1 where "s1 = (if Some c \<noteq> idle_thread s then s\<lparr>ready_list := ready_list s @ [c]\<rparr> else s)"
  have s1: "ticks s1 = ticks s" "asleep_list s1 = asleep_list s" "threads s1 = threads s" by (simp_all add: s1_def)
  obtain s2 where sc: "schedule ops ((put_thread c (t\<lparr>status := THREAD_READY, saved_intr := intr_on s\<rparr>) s1)\<lparr>intr_on := False\<rparr>) = Some s2"
    and r: "resume s2 = Some s'"
    using assms c by (auto simp: thread_yield_def Let_def bind_eq_Some_conv kernel_simps s1_def [symmetric])
  let ?s = "(put_thread c (t\<lparr>status := THREAD_READY, saved_intr := intr_on s\<rparr>) s1)\<lparr>intr_on := False\<rparr>"
  have "undisturbed {} s ?s" by (rule put_undisturbed) (use thread_currentD [OF c] s1 in auto)
  then show ?thesis using undisturbed_trans0 schedule_undisturbed [OF sc] resume_undisturbed [OF r] by blast
qed

lemma block_undisturbed:
  assumes "thread_block ops s = Some s'"
  shows "undisturbed {} s s'"
proof -
  obtain c t where c: "thread_current s = Some (c, t)" and sc: "schedule ops (put_thread c (t\<lparr>status := THREAD_BLOCKED\<rparr>) s) = Some s'"
    using assms by (auto simp: thread_block_def bind_eq_Some_conv kernel_simps)
  have "undisturbed {} s (put_thread c (t\<lparr>status := THREAD_BLOCKED\<rparr>) s)"
    by (rule put_undisturbed) (use thread_currentD [OF c] in auto)
  then show ?thesis using undisturbed_trans0 schedule_undisturbed [OF sc] by blast
qed

lemma exit_undisturbed:
  assumes "thread_exit ops s = Some s'"
  shows "undisturbed {} s s'"
proof -
  obtain c t s2 where c: "thread_current s = Some (c, t)"
    and sc: "schedule ops ((put_thread c (t\<lparr>status := THREAD_DYING\<rparr>) s)\<lparr>intr_on := False, all_list := remove1 c (all_list s)\<rparr>) = Some s2"
    and r: "resume s2 = Some s'"
    using assms by (auto simp: thread_exit_def Let_def bind_eq_Some_conv kernel_simps)
  let ?s = "(put_thread c (t\<lparr>status := THREAD_DYING\<rparr>) s)\<lparr>intr_on := False, all_list := remove1 c (all_list s)\<rparr>"
  have "undisturbed {} s ?s" by (rule put_undisturbed) (use thread_currentD [OF c] in auto)
  then show ?thesis using undisturbed_trans0 schedule_undisturbed [OF sc] resume_undisturbed [OF r] by blast
qed

lemma unblock_undisturbed: "thread_unblock p s = Some s' \<Longrightarrow> undisturbed {} s s'"
  by (intro undisturbedI) (auto simp: thread_unblock_def bind_eq_Some_conv kernel_simps)

lemma create_undisturbed:
  assumes "thread_create ops name pri func aux (Some p) s = Some (i, s')"
  shows "undisturbed {p} s s'"
proof -
  obtain s3 s4 where u: "thread_unblock p s3 = Some s4" and y: "thread_yield ops s4 = Some s'"
    and s3: "ticks s3 = ticks s" "asleep_list s3 = asleep_list s" "\<And>q. q \<noteq> p \<Longrightarrow> threads s3 q = threads s q"
    using assms by (auto simp: thread_create_def init_thread_def allocate_tid_def alloc_frame_def Let_def bind_eq_Some_conv kernel_simps)
  have "undisturbed {p} s s3" by (rule undisturbedI) (use s3 in auto)
  then show ?thesis using undisturbed_trans0 unblock_undisturbed [OF u] yield_undisturbed [OF y] by blast
qed

lemma priority_undisturbed:
  assumes "thread_set_priority ops n s = Some s'"
  shows "undisturbed {} s s'"
proof -
  obtain c t where c: "thread_current s = Some (c, t)" and y: "thread_yield ops (put_thread c (t\<lparr>base_priority := n\<rparr>) s) = Some s'"
    using assms by (auto simp: thread_set_priority_def bind_eq_Some_conv kernel_simps)
  have "undisturbed {} s (put_thread c (t\<lparr>base_priority := n\<rparr>) s)" by (rule put_undisturbed) (use thread_currentD [OF c] in auto)
  then show ?thesis using undisturbed_trans0 yield_undisturbed [OF y] by blast
qed

lemma update_priority_wakeup: "update_priority t = Some t' \<Longrightarrow> wakeup_ticks t' = wakeup_ticks t"
  by (auto simp: update_priority_def bind_eq_Some_conv)

lemma nice_undisturbed:
  assumes "thread_set_nice ops n s = Some s'"
  shows "undisturbed {} s s'"
proof -
  obtain c t t' where c: "thread_current s = Some (c, t)" and t': "update_priority (t\<lparr>nice := n\<rparr>) = Some t'"
    and y: "thread_yield ops (put_thread c t' s) = Some s'"
    using assms by (auto simp: thread_set_nice_def bind_eq_Some_conv kernel_simps)
  have "undisturbed {} s (put_thread c t' s)"
    by (rule put_undisturbed) (use thread_currentD [OF c] update_priority_wakeup [OF t'] in auto)
  then show ?thesis using undisturbed_trans0 yield_undisturbed [OF y] by blast
qed

lemma idle_undisturbed:
  assumes "idle_loop ops s = Some s'"
  shows "undisturbed {} s s'"
proof -
  obtain c t s1 where c: "thread_current s = Some (c, t)"
    and b: "thread_block ops ((put_thread c (t\<lparr>saved_intr := True\<rparr>) s)\<lparr>intr_on := False\<rparr>) = Some s1" and r: "resume s1 = Some s'"
    using assms by (auto simp: idle_loop_def bind_eq_Some_conv)
  have "undisturbed {} s ((put_thread c (t\<lparr>saved_intr := True\<rparr>) s)\<lparr>intr_on := False\<rparr>)"
    by (rule put_undisturbed) (use thread_currentD [OF c] in auto)
  then show ?thesis using undisturbed_trans0 block_undisturbed [OF b] resume_undisturbed [OF r] by blast
qed

lemma sleep_undisturbed:
  assumes "timer_sleep ops n s = Some s'" "set (asleep_list s) \<subseteq> set (asleep_list s')"
  shows "undisturbed {running s} s s'"
proof -
  obtain c t w al s2 where c: "thread_current s = Some (c, t)"
    and b: "thread_block ops ((put_thread c (t\<lparr>wakeup_ticks := w, saved_intr := True\<rparr>) s)\<lparr>intr_on := False, asleep_list := al\<rparr>) = Some s2"
    and r: "resume s2 = Some s'"
    using assms(1) by (auto simp: timer_sleep_def Let_def bind_eq_Some_conv kernel_simps)
  let ?s = "(put_thread c (t\<lparr>wakeup_ticks := w, saved_intr := True\<rparr>) s)\<lparr>intr_on := False, asleep_list := al\<rparr>"
  have "undisturbed {} ?s s'" using undisturbed_trans0 block_undisturbed [OF b] resume_undisturbed [OF r] by blast
  then show ?thesis using assms(2) thread_currentD [OF c] by (auto simp: undisturbed_def)
qed

text \<open>What a thread asleep until tick \<open>w\<close> looks like.\<close>

definition asleep_until :: "nat \<Rightarrow> int \<Rightarrow> sched \<Rightarrow> bool" where
  "asleep_until p w s \<longleftrightarrow> p \<in> set (asleep_list s) \<and> wake_at s p = w \<and> map_option status (threads s p) = Some THREAD_BLOCKED"

lemma undisturbed_asleep:
  assumes "undisturbed D s s'" "kernel_ok s'" "p \<notin> D" "asleep_until p w s"
  shows "asleep_until p w s'"
proof -
  have p: "p \<in> set (asleep_list s')" using assms(1,4) by (auto simp: undisturbed_def asleep_until_def)
  moreover have st: "map_option status (threads s' p) = Some THREAD_BLOCKED"
    by (rule asleep_okD(4) [OF kernel_okD(2) [OF assms(2)] p])
  ultimately show ?thesis using assms(1,3,4)
    by (auto simp: undisturbed_def asleep_until_def wake_at_def split: option.splits)
qed

lemma tick_asleep:
  assumes ok: "kernel_ok s" "step_ok ops s" and t: "timer_irq ops s = Some s'"
  shows "ticks s' = ticks s + 1 \<and> (ticks s' < w \<longrightarrow> asleep_until p w s \<longrightarrow> asleep_until p w s')"
proof -
  note inv = kernel_okD [OF ok(1)]
  let ?s = "s\<lparr>intr_on := False, in_intr := True, yield_on_return := False\<rparr>"
  have 0: "sched_inv ?s" "asleep_ok ?s" "\<not> thread_mlfqs ?s" "\<bar>idle_ticks ?s\<bar> < 2 ^ 62" "\<bar>kernel_ticks ?s\<bar> < 2 ^ 62" "\<bar>ticks ?s\<bar> < 2 ^ 62"
    using inv(1,2) ok(2) by (simp_all add: step_ok_def sched_inv_def sched_wf_def thread_wf_def asleep_ok_def wake_at_def cong: map_cong)
  obtain s1 where s1: "timer_interrupt ?s = Some s1" "ticks s1 = ticks s + 1"
    "asleep_list s1 = filter (\<lambda>p. \<not> wake_at ?s p \<le> ticks s1) (asleep_list s)" "\<forall>p. wake_at s1 p = wake_at ?s p"
    using timer_interrupt_spec [OF 0] by auto
  have w: "wake_at ?s p = wake_at s p" for p by (simp add: wake_at_def)
  have "undisturbed {} (s1\<lparr>in_intr := False\<rparr>) s'"
    using t s1(1) yield_undisturbed [of ops "s1\<lparr>in_intr := False\<rparr>" s']
    by (auto simp: timer_irq_def Let_def undisturbed_def split: if_splits)
  then have u: "undisturbed {} s1 s'" by (simp add: undisturbed_def)
  then have tk: "ticks s' = ticks s + 1" using s1(2) by (simp add: undisturbed_def)
  have "asleep_until p w s'" if "ticks s' < w" "asleep_until p w s"
  proof -
    have p1: "p \<in> set (asleep_list s1)" "wake_at s1 p = w"
      using that s1(2-4) tk by (auto simp: asleep_until_def w)
    then have p2: "p \<in> set (asleep_list s')" using u by (auto simp: undisturbed_def)
    have k: "kernel_ok s'" using tick_kernel_ok [OF ok] t by auto
    have st: "map_option status (threads s' p) = Some THREAD_BLOCKED" by (rule asleep_okD(4) [OF kernel_okD(2) [OF k] p2])
    then have "wake_at s' p = wake_at s1 p" using u by (auto simp: undisturbed_def wake_at_def split: option.splits)
    then show ?thesis using p1(2) p2 st by (simp add: asleep_until_def)
  qed
  then show ?thesis using tk by blast
qed

text \<open>No step wakes a sleeping thread before its tick, and no step but the tick moves the clock.\<close>

lemma step_asleep:
  assumes st: "sched_step ops s s'" and ok: "kernel_ok s" "step_ok ops s"
  shows "ticks s \<le> ticks s' \<and> (ticks s' < w \<longrightarrow> asleep_until p w s \<longrightarrow> asleep_until p w s')"
proof -
  have k: "kernel_ok s'" by (rule step_kernel_ok [OF assms])
  have by_frame: "?thesis" if "undisturbed D s s'" "asleep_until p w s \<longrightarrow> p \<notin> D" for D
    using undisturbed_asleep [OF that(1) k] that by (auto simp: undisturbed_def)
  obtain t where t: "threads s (running s) = Some t" "status t = THREAD_RUNNING" using sched_invD [OF kernel_okD(1) [OF ok(1)]] by blast
  from st show ?thesis
  proof cases
    case step_yield then show ?thesis using by_frame [OF yield_undisturbed] by blast
  next
    case step_block then show ?thesis using by_frame [OF block_undisturbed] by blast
  next
    case step_idle then show ?thesis using by_frame [OF idle_undisturbed] by blast
  next
    case step_unblock then show ?thesis using by_frame [OF unblock_undisturbed] by blast
  next
    case (step_create pn name pri func aux i)
    have "asleep_until p w s \<longrightarrow> p \<notin> {pn}" using step_create(1) by (auto simp: asleep_until_def)
    then show ?thesis by (rule by_frame [OF create_undisturbed [OF step_create(2)]])
  next
    case step_exit then show ?thesis using by_frame [OF exit_undisturbed] by blast
  next
    case step_priority then show ?thesis using by_frame [OF priority_undisturbed] by blast
  next
    case step_nice then show ?thesis using by_frame [OF nice_undisturbed] by blast
  next
    case (step_sleep n)
    note inv = kernel_okD [OF ok(1)]
    have c: "pri_ok ops s" "insert_ordered_ok ops" "\<bar>ticks s\<bar> < 2 ^ 62" using ok(2) by (simp_all add: step_ok_def)
    have on: "intr_on s" using step_sleep by (auto simp: timer_sleep_def bind_eq_Some_conv kernel_simps)
    have "mset (asleep_list s') = add_mset (running s) (mset (asleep_list s))"
      using timer_sleep_spec [OF inv(1,2) pri_okD(1) [OF c(1)] c(2) pri_okD(3) [OF c(1)] on inv(3) step_sleep(1) c(3) step_sleep(2)]
        step_sleep(3) by auto
    then have "set (asleep_list s) \<subseteq> set (asleep_list s')" by (metis set_mset_add_mset_insert set_mset_mset subset_insertI)
    moreover have "asleep_until p w s \<longrightarrow> p \<notin> {running s}" using t by (auto simp: asleep_until_def)
    ultimately show ?thesis using by_frame sleep_undisturbed [OF step_sleep(3)] by blast
  next
    case step_tick then show ?thesis using tick_asleep [OF ok step_tick] by simp
  next
    case step_synch
    then have "undisturbed {} s s'"
      by (intro undisturbedI) (auto simp: only_locks_def option.map_comp comp_def)
    then show ?thesis using by_frame by blast
  next
    case (step_intr b)
    then have "undisturbed {} s s'" by (intro undisturbedI) simp_all
    then show ?thesis using by_frame by blast
  qed
qed

lemma run_asleep:
  assumes "sched_run ops s s'" "kernel_ok s" "asleep_until p w s"
  shows "ticks s \<le> ticks s' \<and> (ticks s' < w \<longrightarrow> asleep_until p w s')"
  using assms
proof (induction rule: sched_run.induct)
  case (run_step s s1 s2)
  have "kernel_ok s1" using run_step by (blast intro: run_kernel_ok)
  from step_asleep [OF run_step(3) this run_step(2), of w p] show ?case using run_step by auto
qed simp

section \<open>Lists that work as documented\<close>

fun max_elem :: "(nat \<Rightarrow> nat \<Rightarrow> bool option) \<Rightarrow> nat \<Rightarrow> nat list \<Rightarrow> nat option" where
  "max_elem lt e [] = Some e"
| "max_elem lt e (x # xs) = do { b \<leftarrow> lt e x; max_elem lt (if b then x else e) xs }"

fun insert_elem :: "(nat \<Rightarrow> nat \<Rightarrow> bool option) \<Rightarrow> nat \<Rightarrow> nat list \<Rightarrow> nat list option" where
  "insert_elem lt e [] = Some [e]"
| "insert_elem lt e (x # xs) = do {
     b \<leftarrow> lt e x;
     if b then Some (e # x # xs) else map_option (Cons x) (insert_elem lt e xs)
   }"

definition demo_ops :: sched_ops where
  "demo_ops = \<lparr>list_pop_max = (\<lambda>lt xs. case xs of [] \<Rightarrow> None
       | x # ys \<Rightarrow> map_option (\<lambda>e. (e, remove1 e xs)) (max_elem lt x ys)),
     list_insert_ordered = insert_elem, switch_entry_frame_size = 4, switch_threads_frame_size = 28\<rparr>"

lemma max_elem_spec:
  assumes "\<forall>a\<in>set (e # xs). \<forall>b\<in>set (e # xs). lt a b = Some (key a < (key b :: int))"
  shows "\<exists>m. max_elem lt e xs = Some m \<and> m \<in> set (e # xs) \<and> (\<forall>x\<in>set (e # xs). key x \<le> key m)"
  using assms
proof (induction xs arbitrary: e)
  case (Cons x xs)
  let ?e = "if key e < key x then x else e"
  have "\<forall>a\<in>set (?e # xs). \<forall>b\<in>set (?e # xs). lt a b = Some (key a < key b)" using Cons.prems by auto
  from Cons.IH [OF this] obtain m where m: "max_elem lt ?e xs = Some m" "m \<in> set (?e # xs)" "\<forall>y\<in>set (?e # xs). key y \<le> key m"
    by blast
  have "max_elem lt e (x # xs) = Some m" using Cons.prems m(1) by (simp split: if_splits)
  then show ?case using m(2,3) by (intro exI [of _ m]) (auto split: if_splits)
qed simp

lemma insert_elem_spec:
  assumes "\<forall>a\<in>set (e # xs). \<forall>b\<in>set (e # xs). lt a b = Some (key a < (key b :: int))" "sorted (map key xs)"
  shows "\<exists>ys. insert_elem lt e xs = Some ys \<and> mset ys = add_mset e (mset xs) \<and> sorted (map key ys)"
  using assms
proof (induction xs)
  case (Cons x xs)
  show ?case
  proof (cases "key e < key x")
    case True
    then show ?thesis using Cons.prems by (intro exI [of _ "e # x # xs"]) auto
  next
    case False
    obtain ys where ys: "insert_elem lt e xs = Some ys" "mset ys = add_mset e (mset xs)" "sorted (map key ys)"
      using Cons by auto
    have "set ys = insert e (set xs)" using ys(2) by (metis set_mset_add_mset_insert set_mset_mset)
    then have "sorted (map key (x # ys))" using ys(3) Cons.prems(2) False by auto
    then show ?thesis using ys Cons.prems(1) False by (intro exI [of _ "x # ys"]) auto
  qed
qed simp

lemma demo_ops_ok: "pop_max_ok demo_ops" "insert_ordered_ok demo_ops" "frames_ok demo_ops"
proof -
  show "pop_max_ok demo_ops"
    unfolding pop_max_ok_def
  proof (intro allI impI)
    fix lt key and xs :: "nat list"
    assume "xs \<noteq> []" and l: "\<forall>a\<in>set xs. \<forall>b\<in>set xs. lt a b = Some (key a < (key b :: int))"
    then obtain x ys where xs: "xs = x # ys" by (cases xs) auto
    obtain m where "max_elem lt x ys = Some m" "m \<in> set xs" "\<forall>x\<in>set xs. key x \<le> key m"
      using max_elem_spec [of x ys lt key] l unfolding xs by blast
    then show "\<exists>e. list_pop_max demo_ops lt xs = Some (e, remove1 e xs) \<and> e \<in> set xs \<and> (\<forall>x\<in>set xs. key x \<le> key e)"
      unfolding xs by (intro exI [of _ m]) (simp add: demo_ops_def)
  qed
  show "insert_ordered_ok demo_ops"
    unfolding insert_ordered_ok_def using insert_elem_spec by (simp add: demo_ops_def)
  show "frames_ok demo_ops" by (simp add: frames_ok_def demo_ops_def smod_nonneg)
qed

lemma demo_inv: "sched_inv demo_sched"
proof -
  have "sched_wf {1} demo_sched"
  proof (rule sched_wfI [where i = 3 and ti = "plain_thread 0 THREAD_BLOCKED [] 3"])
    show "thread_wf {1} demo_sched p t" if "threads demo_sched p = Some t" for p t
      using that by (auto simp: demo_sched_def thread_wf_def params_ok_def split: if_splits)
  qed (auto simp: demo_sched_def split: if_splits)
  then show ?thesis by (simp add: sched_inv_def demo_sched_def)
qed

lemma demo_kernel_ok: "kernel_ok demo_sched" "pri_ok demo_ops demo_sched" "step_ok demo_ops demo_sched" "priorities_ok demo_sched"
proof -
  show "kernel_ok demo_sched" using demo_inv by (simp add: kernel_ok_def asleep_ok_def demo_sched_def)
  show p: "pri_ok demo_ops demo_sched" using demo_ops_ok demo_donation_ok by (simp add: pri_ok_def)
  show "step_ok demo_ops demo_sched" using p demo_ops_ok by (simp add: step_ok_def demo_sched_def)
  show "priorities_ok demo_sched" by (rule pri_okD(3) [OF p])
qed

section \<open>Properties\<close>

text \<open>
  Every operation that a thread may start returns: the arguments are those that the code asserts, a thread that blocks has turned
  interrupts off, a thread that exits holds no lock, a thread that is unblocked is blocked and does not sleep.
\<close>

definition operations_return :: "sched_ops \<Rightarrow> sched \<Rightarrow> bool" where
  "operations_return ops s \<longleftrightarrow>
     thread_yield ops s \<noteq> None \<and>
     (\<not> intr_on s \<longrightarrow> thread_block ops s \<noteq> None) \<and>
     (idle_thread s = Some (running s) \<longrightarrow> idle_loop ops s \<noteq> None) \<and>
     (\<forall>p t. threads s p = Some t \<longrightarrow> status t = THREAD_BLOCKED \<longrightarrow> idle_thread s \<noteq> Some p \<longrightarrow> thread_unblock p s \<noteq> None) \<and>
     (\<forall>name pri func aux p. threads s p = None \<longrightarrow> func \<noteq> 0 \<longrightarrow> PRI_MIN \<le> pri \<longrightarrow> pri \<le> PRI_MAX \<longrightarrow>
        thread_create ops name pri func aux (Some p) s \<noteq> None) \<and>
     (\<forall>t. threads s (running s) = Some t \<longrightarrow> held_locks t = [] \<longrightarrow> idle_thread s \<noteq> Some (running s) \<longrightarrow> thread_exit ops s \<noteq> None) \<and>
     (\<forall>n. PRI_MIN \<le> n \<longrightarrow> n \<le> PRI_MAX \<longrightarrow> thread_set_priority ops n s \<noteq> None) \<and>
     (\<forall>n. NICE_MIN \<le> n \<longrightarrow> n \<le> NICE_MAX \<longrightarrow> thread_set_nice ops n s \<noteq> None) \<and>
     (\<forall>n. intr_on s \<longrightarrow> idle_thread s \<noteq> Some (running s) \<longrightarrow> \<bar>n\<bar> < 2 ^ 62 \<longrightarrow> timer_sleep ops n s \<noteq> None) \<and>
     timer_irq ops s \<noteq> None"

lemma kernel_returns:
  assumes ok: "kernel_ok s" "step_ok ops s"
  shows "operations_return ops s"
  unfolding operations_return_def
proof (intro conjI allI impI)
  note inv = kernel_okD [OF ok(1)]
  have st: "pri_ok ops s" "insert_ordered_ok ops" "\<bar>ticks s\<bar> < 2 ^ 62" "next_tid s < 2 ^ 31 - 1" "0 < next_tid s"
    using ok(2) by (simp_all add: step_ok_def)
  show "thread_yield ops s \<noteq> None" using yield_kernel_ok [OF ok(1) st(1)] by auto
  show "thread_block ops s \<noteq> None" if "\<not> intr_on s" using block_kernel_ok [OF ok(1) st(1) that] by auto
  show "idle_loop ops s \<noteq> None" using idle_kernel_ok [OF ok(1) st(1)] by auto
  show "thread_unblock p s \<noteq> None" if "threads s p = Some t" "status t = THREAD_BLOCKED" "idle_thread s \<noteq> Some p" for p t
    using thread_unblock_spec [OF inv(1) that] by auto
  show "thread_create ops name pri func aux (Some p) s \<noteq> None" if "threads s p = None" "func \<noteq> 0" "PRI_MIN \<le> pri" "pri \<le> PRI_MAX" for name pri func aux p
    using thread_create_spec [OF inv(1) st(1) inv(3) that(2,1,3,4) st(4,5), of name aux] by auto
  show "thread_exit ops s \<noteq> None" if "threads s (running s) = Some t" "held_locks t = []" "idle_thread s \<noteq> Some (running s)" for t
    using thread_exit_spec [OF inv(1) pri_okD(1,3) [OF st(1)] inv(3) that] by auto
  show "thread_set_priority ops n s \<noteq> None" if "PRI_MIN \<le> n" "n \<le> PRI_MAX" for n using priority_kernel_ok [OF ok(1) st(1) that] by auto
  show "thread_set_nice ops n s \<noteq> None" if "NICE_MIN \<le> n" "n \<le> NICE_MAX" for n using nice_kernel_ok [OF ok(1) st(1) that] by auto
  show "timer_sleep ops n s \<noteq> None" if "intr_on s" "idle_thread s \<noteq> Some (running s)" "\<bar>n\<bar> < 2 ^ 62" for n
    using timer_sleep_spec [OF inv(1,2) pri_okD(1) [OF st(1)] st(2) pri_okD(3) [OF st(1)] that(1) inv(3) that(2) st(3) that(3)] by auto
  show "timer_irq ops s \<noteq> None" using tick_kernel_ok [OF ok] by auto
qed

text \<open>
  C4 (invariant): whatever sequence of operations, interrupts and lock operations has run, exactly one thread is running, the ready list
  holds exactly the ready threads other than the idle thread, once each, and no two threads have the same identifier; and as long as
  no thread waits for itself, counters are not about to overflow and the feedback queue is off (\<open>step_ok\<close>), every operation that may come next
  returns: no assertion of it fails.
\<close>

theorem sched_run_invariant:
  assumes "sched_run ops s s'" "kernel_ok s"
  shows "kernel_ok s' \<and> (step_ok ops s' \<longrightarrow> operations_return ops s') \<and> (\<forall>p t. threads s' p = Some t \<longrightarrow>
      (status t = THREAD_RUNNING \<longleftrightarrow> p = running s') \<and>
      (p \<in> set (ready_list s') \<longleftrightarrow> status t = THREAD_READY \<and> idle_thread s' \<noteq> Some p)) \<and>
    distinct (ready_list s') \<and> set (ready_list s') \<subseteq> dom (threads s') \<and> running s' \<in> dom (threads s') \<and>
    (\<forall>p q t u. threads s' p = Some t \<longrightarrow> threads s' q = Some u \<longrightarrow> tid t = tid u \<longrightarrow> p = q)"
proof -
  have ok: "kernel_ok s'" by (rule run_kernel_ok [OF assms])
  then have wf: "sched_wf {running s'} s'" by (simp add: kernel_ok_def sched_inv_def)
  have "(status t = THREAD_RUNNING \<longleftrightarrow> p = running s') \<and>
      (p \<in> set (ready_list s') \<longleftrightarrow> status t = THREAD_READY \<and> idle_thread s' \<noteq> Some p)" if "threads s' p = Some t" for p t
    using sched_wfD(1) [OF wf that] sched_wfD(8) [OF wf] by (auto simp: thread_wf_def)
  then show ?thesis using ok kernel_returns [OF ok] sched_wfD(2,4,7,9) [OF wf] by blast
qed

theorem sched_run_invariant_witness:
  "\<exists>s'. sched_run demo_ops demo_sched s' \<and> thread_yield demo_ops demo_sched = Some s' \<and> distinct (ready_list s') \<and> running s' \<in> dom (threads s')"
proof -
  obtain s' where y: "thread_yield demo_ops demo_sched = Some s'" using yield_kernel_ok [OF demo_kernel_ok(1,2)] by blast
  have "sched_run demo_ops demo_sched s'"
    by (rule run_step [OF run_refl demo_kernel_ok(3) step_yield [OF y]])
  then show ?thesis using sched_run_invariant [OF _ demo_kernel_ok(1)] y by blast
qed

text \<open>
  C6 (safety): when a thread yields, the call returns in a thread whose priority, donations
  included, is not below that of any thread left on the ready list; the thread that yields
  is on the list (unless it is the idle thread or goes on running), and no priority changes.
\<close>

theorem thread_yield_highest:
  assumes "sched_inv s" "pop_max_ok ops" "priorities_ok s" "\<not> in_intr s"
  shows "\<exists>s'. thread_yield ops s = Some s' \<and> sched_inv s' \<and>
    (\<forall>q\<in>set (ready_list s'). \<exists>a b. get_priority s' q = Some a \<and> get_priority s' (running s') = Some b \<and> a \<le> b) \<and>
    ready_list s' = remove1 (running s') (if idle_thread s = Some (running s) then ready_list s else ready_list s @ [running s]) \<and>
    (\<forall>q. get_priority s' q = get_priority s q)"
proof -
  obtain s' where s': "thread_yield ops s = Some s'" "sched_inv s'" "running s' \<in> insert (running s) (set (ready_list s))"
    "ready_list s' = remove1 (running s') (if idle_thread s = Some (running s) then ready_list s else ready_list s @ [running s])"
    "\<forall>q. get_priority s' q = get_priority s q"
    "\<forall>q\<in>set (ready_list s'). \<forall>a b. get_priority s' q = Some a \<longrightarrow> get_priority s' (running s') = Some b \<longrightarrow> a \<le> b"
    using thread_yield_spec [OF assms] by blast
  have wf: "sched_wf {running s} s" using assms(1) by (simp add: sched_inv_def)
  have d: "q \<in> dom (threads s)" if "q \<in> insert (running s) (set (ready_list s))" for q
    using that sched_wfD(2,7) [OF wf] by auto
  have "set (ready_list s') \<subseteq> insert (running s) (set (ready_list s))"
    using set_remove1_subset s'(4) by (force split: if_splits)
  then have "\<exists>a b. get_priority s' q = Some a \<and> get_priority s' (running s') = Some b \<and> a \<le> b" if q: "q \<in> set (ready_list s')" for q
  proof -
    have "q \<in> dom (threads s)" "running s' \<in> dom (threads s)" using q d s'(3) \<open>set (ready_list s') \<subseteq> _\<close> by blast+
    then obtain a b where ab: "get_priority s q = Some a" "get_priority s (running s') = Some b"
      using assms(3) unfolding priorities_ok_def by blast
    then have "a \<le> b" using s'(5,6) q by simp
    then show ?thesis using ab s'(5) by simp
  qed
  then show ?thesis using s' by blast
qed

theorem thread_yield_highest_witness:
  "\<exists>s'. thread_yield demo_ops demo_sched = Some s' \<and> sched_inv s'"
  using thread_yield_highest [OF demo_inv demo_ops_ok(1) demo_kernel_ok(4)] kernel_okD(3) [OF demo_kernel_ok(1)] by blast

text \<open>
  Creating a thread returns an identifier that no thread has, keeps the
  scheduler in order, and returns in a thread of greatest priority among the ready ones.
\<close>

theorem thread_create_fresh:
  assumes "sched_inv s" "pri_ok ops s" "\<not> in_intr s" "func \<noteq> 0" "threads s p = None"
    and "PRI_MIN \<le> pri" "pri \<le> PRI_MAX" "next_tid s < 2 ^ 31 - 1" "0 < next_tid s"
  shows "\<exists>i s'. thread_create ops name pri func aux (Some p) s = Some (i, s') \<and> sched_inv s' \<and>
    (\<forall>q t. threads s q = Some t \<longrightarrow> tid t \<noteq> i) \<and> next_tid s' = i + 1 \<and>
    (\<forall>q\<in>set (ready_list s'). \<forall>a b. get_priority s' q = Some a \<longrightarrow> get_priority s' (running s') = Some b \<longrightarrow> a \<le> b)"
proof -
  have "tid t \<noteq> next_tid s" if "threads s q = Some t" for q t
    using sched_wfD(1) [of "{running s}" s q t] assms(1) that by (simp add: sched_inv_def thread_wf_def)
  then show ?thesis using thread_create_spec [OF assms, of name aux] by blast
qed

theorem thread_create_fresh_witness:
  "\<exists>i s'. thread_create demo_ops ''child'' 31 1 0 (Some 9) demo_sched = Some (i, s') \<and> sched_inv s'"
proof -
  have "\<not> in_intr demo_sched" "threads demo_sched 9 = None" "next_tid demo_sched < 2 ^ 31 - 1" "0 < next_tid demo_sched"
    by (simp_all add: demo_sched_def)
  then show ?thesis
    using thread_create_fresh [OF demo_inv demo_kernel_ok(2), of 1 9 31 "''child''" 0] by auto
qed

text \<open>
  A thread that exits is never scheduled again: it leaves the list of all
  threads, another thread runs, and its page is freed unless it is the initial thread.
\<close>

theorem thread_exit_frees:
  assumes "sched_inv s" "pop_max_ok ops" "priorities_ok s" "\<not> in_intr s"
    and "threads s (running s) = Some t" "held_locks t = []" "idle_thread s \<noteq> Some (running s)"
  shows "\<exists>s'. thread_exit ops s = Some s' \<and> sched_inv s' \<and> running s' \<noteq> running s \<and> running s \<notin> set (all_list s') \<and>
    (running s \<noteq> initial_thread s \<longrightarrow> threads s' (running s) = None)"
  using thread_exit_spec [OF assms] by blast

theorem thread_exit_frees_witness:
  "\<exists>s'. thread_exit demo_ops (put_thread 1 (plain_thread 10 THREAD_RUNNING [] 1) demo_sched) = Some s' \<and> running s' \<noteq> 1"
proof -
  let ?t = "plain_thread 10 THREAD_RUNNING [] 1" and ?s = "put_thread 1 (plain_thread 10 THREAD_RUNNING [] 1) demo_sched"
  have 1: "sched_inv ?s"
    by (rule sched_inv_put [OF demo_inv, of 1 "plain_thread 10 THREAD_RUNNING [5] 1" ?t]) (simp_all add: demo_sched_def params_ok_def)
  have "waits_for (threads ?s) (lock_waiters ?s) = {}"
    by (auto simp: waits_for_def demo_sched_def thread_donors_def split: if_splits)
  moreover have "set (thread_donors (lock_waiters ?s) r) \<subseteq> dom (threads ?s)" if "threads ?s q = Some r" for q r
    using that by (auto simp: demo_sched_def thread_donors_def split: if_splits)
  moreover have "finite (dom (threads ?s))" by (simp add: demo_sched_def)
  moreover have "acyclic ({} :: (nat \<times> nat) set)" by (simp add: wf_acyclic)
  ultimately have "donation_ok ?s" unfolding donation_ok_def by (simp only:) blast
  then have 2: "priorities_ok ?s" by (intro priorities_okI) simp
  have "\<not> in_intr ?s" "threads ?s (running ?s) = Some ?t" "held_locks ?t = []" "idle_thread ?s \<noteq> Some (running ?s)" "running ?s = 1"
    by (simp_all add: demo_sched_def)
  then show ?thesis using thread_exit_frees [OF 1 demo_ops_ok(1) 2] by metis
qed

text \<open>
  C7 (functional): the timer interrupt wakes exactly the sleeping threads whose tick has
  come, in the order of their ticks, and leaves the others asleep; the running thread keeps
  running.
\<close>

theorem timer_interrupt_wakes:
  assumes "sched_inv s" "asleep_ok s" "\<not> thread_mlfqs s"
    and "\<bar>idle_ticks s\<bar> < 2 ^ 62" "\<bar>kernel_ticks s\<bar> < 2 ^ 62" "\<bar>ticks s\<bar> < 2 ^ 62"
  shows "\<exists>s'. timer_interrupt s = Some s' \<and> sched_inv s' \<and> asleep_ok s' \<and> ticks s' = ticks s + 1 \<and> running s' = running s \<and>
    asleep_list s' = filter (\<lambda>p. ticks s' < wake_at s p) (asleep_list s) \<and>
    ready_list s' = ready_list s @ filter (\<lambda>p. wake_at s p \<le> ticks s') (asleep_list s)"
  using timer_interrupt_spec [OF assms] by (simp add: not_le) blast

theorem timer_interrupt_wakes_witness:
  "\<exists>s'. timer_interrupt (demo_sched\<lparr>asleep_list := [2]\<rparr>) = Some s' \<and> asleep_list s' = [] \<and> ready_list s' = [2]"
proof -
  let ?s = "demo_sched\<lparr>asleep_list := [2]\<rparr>"
  have 1: "sched_inv ?s" using demo_inv by (simp add: sched_inv_def sched_wf_def thread_wf_def)
  have 2: "asleep_ok ?s" by (simp add: asleep_ok_def demo_sched_def)
  have "\<not> thread_mlfqs ?s" "\<bar>idle_ticks ?s\<bar> < 2 ^ 62" "\<bar>kernel_ticks ?s\<bar> < 2 ^ 62" "\<bar>ticks ?s\<bar> < 2 ^ 62" by (simp_all add: demo_sched_def)
  moreover have "wake_at ?s 2 = 0" by (simp add: wake_at_def demo_sched_def)
  moreover have "ticks ?s = 0" "asleep_list ?s = [2]" "ready_list ?s = []" by (simp_all add: demo_sched_def)
  ultimately show ?thesis using timer_interrupt_wakes [OF 1 2] by auto
qed

text \<open>
  C8 (functional): \<open>timer_sleep\<close> blocks the caller and puts it on the sorted list of
  sleeping threads with its wake-up tick; and whatever steps of the kernel follow, timer interrupts among them, it stays
  asleep and blocked until \<open>n\<close> ticks have passed. Only the interrupt wakes sleeping threads: the other uses of
  \<open>thread_unblock\<close> (by the synchronization primitives) are of threads that wait for something else.
\<close>

theorem timer_sleep_sorted:
  assumes "sched_inv s" "asleep_ok s" "pop_max_ok ops" "insert_ordered_ok ops" "priorities_ok s"
    and "intr_on s" "\<not> in_intr s" "idle_thread s \<noteq> Some (running s)" "\<bar>ticks s\<bar> < 2 ^ 62" "\<bar>n\<bar> < 2 ^ 62"
  shows "\<exists>s'. timer_sleep ops n s = Some s' \<and> sched_inv s' \<and> asleep_ok s' \<and> running s' \<noteq> running s \<and>
    mset (asleep_list s') = add_mset (running s) (mset (asleep_list s)) \<and> wake_at s' (running s) = ticks s + n \<and>
    map_option status (threads s' (running s)) = Some THREAD_BLOCKED \<and>
    (\<forall>s2. sched_run ops s' s2 \<longrightarrow> ticks s2 < ticks s + n \<longrightarrow> running s \<in> set (asleep_list s2) \<and>
       wake_at s2 (running s) = ticks s + n \<and> map_option status (threads s2 (running s)) = Some THREAD_BLOCKED)"
proof -
  obtain s' where s': "timer_sleep ops n s = Some s'" "sched_inv s'" "asleep_ok s'" "running s' \<noteq> running s"
    "mset (asleep_list s') = add_mset (running s) (mset (asleep_list s))" "wake_at s' (running s) = ticks s + n"
    "map_option status (threads s' (running s)) = Some THREAD_BLOCKED" "\<not> in_intr s'"
    using timer_sleep_spec [OF assms] by blast
  have k: "kernel_ok s'" using s' by (simp add: kernel_ok_def)
  have "running s \<in> set (asleep_list s')" using s'(5) by (metis set_mset_mset union_single_eq_member)
  then have a: "asleep_until (running s) (ticks s + n) s'" using s' by (simp add: asleep_until_def)
  have "asleep_until (running s) (ticks s + n) s2" if "sched_run ops s' s2" "ticks s2 < ticks s + n" for s2
    using run_asleep [OF that(1) k a] that(2) by blast
  then show ?thesis using s' unfolding asleep_until_def by blast
qed

theorem timer_sleep_sorted_witness:
  "\<exists>s'. timer_sleep demo_ops 10 demo_sched = Some s' \<and> wake_at s' 1 = 10 \<and> running s' \<noteq> 1"
proof -
  have "intr_on demo_sched" "\<not> in_intr demo_sched" "idle_thread demo_sched \<noteq> Some (running demo_sched)" "\<bar>ticks demo_sched\<bar> < 2 ^ 62"
    "running demo_sched = 1" "ticks demo_sched = 0"
    by (simp_all add: demo_sched_def)
  then show ?thesis
    using timer_sleep_sorted [OF demo_inv kernel_okD(2) [OF demo_kernel_ok(1)] demo_ops_ok(1,2) demo_kernel_ok(4), of 10] by auto
qed

text \<open>
  C31 (bounds): under the feedback queue, with at most \<open>N \<le> 1000\<close> threads ready or running, a
  tick never overflows and keeps the load average between 0 and \<open>N\<close> and every
  \<open>recent_cpu\<close> within a fixed bound that depends on \<open>N\<close> only.
\<close>

theorem thread_tick_bounded:
  assumes "sched_inv s" "\<not> intr_on s" "mlfqs_ok N (s\<lparr>ticks := ticks s - 1\<rparr>)" "1 \<le> ticks s"
    and "\<bar>idle_ticks s\<bar> < 2 ^ 62" "\<bar>kernel_ticks s\<bar> < 2 ^ 62"
  shows "\<exists>s'. thread_tick s = Some s' \<and> sched_inv s' \<and> mlfqs_ok N s'"
  using thread_tick_mlfqs [OF assms] by blast

theorem thread_tick_bounded_witness:
  "\<exists>s'. thread_tick (demo_sched\<lparr>thread_mlfqs := True, intr_on := False, ticks := 100\<rparr>) = Some s' \<and> 0 \<le> load_avg s' \<and> load_avg s' \<le> 5 * 16384"
proof -
  let ?s = "demo_sched\<lparr>thread_mlfqs := True, intr_on := False, ticks := 100\<rparr>"
  have 1: "sched_inv ?s" using demo_inv by (simp add: sched_inv_def sched_wf_def thread_wf_def)
  have 2: "mlfqs_ok 5 (?s\<lparr>ticks := ticks ?s - 1\<rparr>)"
    by (auto simp: mlfqs_ok_def demo_sched_def cpu_ok_def cpu_bound_def split: if_splits)
  have "\<not> intr_on ?s" "1 \<le> ticks ?s" "\<bar>idle_ticks ?s\<bar> < 2 ^ 62" "\<bar>kernel_ticks ?s\<bar> < 2 ^ 62" by (simp_all add: demo_sched_def)
  from thread_tick_bounded [OF 1 this(1) 2 this(2-4)] show ?thesis by (auto simp: mlfqs_ok_def)
qed

text \<open>
  A tick adds one to \<open>recent_cpu\<close>, which is \<open>1 / 16384\<close> in its fixed-point
  format and not a tick. The priority of a thread that starts at 0 and runs for any number
  of ticks from 4 to 65535 is therefore 62, where the formula with whole ticks,
  \<open>63 - n / 4\<close>, would have it fall to 0.
\<close>

theorem recent_cpu_unit:
  assumes "nice t = 0" "recent_cpu t = n" "4 \<le> n" "n < 65536"
  shows "update_priority t = Some (t\<lparr>priority := 62\<rparr>)"
proof -
  have d: "1 \<le> n sdiv 4" "n sdiv 4 < 16384" using assms(3,4) by (simp_all add: sdiv_nonneg)
  have "(1032192 - n sdiv 4) sdiv 16384 = (1032192 - n sdiv 4) div 16384" using d by (simp add: sdiv_nonneg)
  also have "\<dots> = 62" by (rule int_div_pos_eq [where r = "16384 - n sdiv 4"]) (use d in simp_all)
  finally show ?thesis using update_priority_value [of t] assms by (simp add: clamp_def)
qed

theorem recent_cpu_unit_witness:
  "update_priority ((plain_thread 31 THREAD_RUNNING [] 1)\<lparr>recent_cpu := 400\<rparr>) =
     Some ((plain_thread 31 THREAD_RUNNING [] 1)\<lparr>recent_cpu := 400, priority := 62\<rparr>)"
  using recent_cpu_unit [of "(plain_thread 31 THREAD_RUNNING [] 1)\<lparr>recent_cpu := 400\<rparr>" 400] by simp

end
