(* ===== verification/Interrupts.thy ===== *)
theory Interrupts
  imports Kernel_Prelude
begin

text \<open>
  Interrupts, \<open>virtual-memory/threads/interrupt.c\<close>: the interrupt descriptor table, the
  registration of handlers, the entry point of all interrupts and the two interrupt
  controllers.

  The tables have one element for each \<open>uint8_t\<close>. A handler is a value of type \<open>'h\<close>; what
  it does to the state is the argument \<open>run\<close> of \<open>intr_handler\<close>, and \<open>yield\<close> is
  \<open>thread_yield\<close>. \<open>eflags\<close> is the flags register, \<open>outs\<close> the bytes written to ports, in
  order, \<open>printed\<close> the vectors reported on the console. The addresses of the interrupt stubs, the selector
  of the kernel's code segment and the bit of the interrupt flag (\<open>intr-stubs.S\<close>,
  \<open>loader.h\<close>, \<open>flags.h\<close>, not part of the sources) are the record \<open>cpu\<close>.
\<close>

section \<open>State\<close>

datatype intr_level = INTR_OFF | INTR_ON

record intr_frame =
  fr_edi :: u32
  fr_esi :: u32
  fr_ebp :: u32
  fr_esp_dummy :: u32
  fr_ebx :: u32
  fr_edx :: u32
  fr_ecx :: u32
  fr_eax :: u32
  fr_gs :: u16
  fr_fs :: u16
  fr_es :: u16
  fr_ds :: u16
  vec_no :: u32
  error_code :: u32
  frame_pointer :: u32
  fr_eip :: u32
  fr_cs :: u16
  fr_eflags :: u32
  fr_esp :: u32
  fr_ss :: u16

record ('h, 'w) intr =
  idt :: "8 word \<Rightarrow> 64 word"
  intr_handlers :: "8 word \<Rightarrow> 'h option"
  intr_names :: "8 word \<Rightarrow> string"
  unexpected_cnt :: "8 word \<Rightarrow> u32"
  in_external_intr :: bool
  i_yield_on_return :: bool
  eflags :: u32
  idtr :: "64 word"
  outs :: "(u16 \<times> byte) list"
  printed :: "8 word list"
  world :: 'w

record cpu =
  intr_stubs :: "8 word \<Rightarrow> u32"
  SEL_KCSEG :: u16
  SEL_UCSEG :: u16
  FLAG_IF :: u32
  idt_base :: u32

section \<open>The interrupt flag\<close>

definition intr_get_level :: "cpu \<Rightarrow> ('h, 'w) intr \<Rightarrow> intr_level" where
  "intr_get_level c s = (if eflags s AND FLAG_IF c \<noteq> 0 then INTR_ON else INTR_OFF)"

definition intr_context :: "('h, 'w) intr \<Rightarrow> bool" where
  "intr_context s = in_external_intr s"

definition intr_enable :: "cpu \<Rightarrow> ('h, 'w) intr \<Rightarrow> (intr_level \<times> ('h, 'w) intr) option" where
  "intr_enable c s = do {
     let old_level = intr_get_level c s;
     kassert (\<not> intr_context s);
     Some (old_level, s\<lparr>eflags := eflags s OR FLAG_IF c\<rparr>)
   }"

definition intr_disable :: "cpu \<Rightarrow> ('h, 'w) intr \<Rightarrow> intr_level \<times> ('h, 'w) intr" where
  "intr_disable c s = (intr_get_level c s, s\<lparr>eflags := eflags s AND NOT (FLAG_IF c)\<rparr>)"

definition intr_set_level :: "cpu \<Rightarrow> intr_level \<Rightarrow> ('h, 'w) intr \<Rightarrow> (intr_level \<times> ('h, 'w) intr) option" where
  "intr_set_level c level s = (if level = INTR_ON then intr_enable c s else Some (intr_disable c s))"

section \<open>Gates\<close>

definition make_gate :: "cpu \<Rightarrow> u32 \<Rightarrow> int \<Rightarrow> int \<Rightarrow> 64 word option" where
  "make_gate c func dpl type = do {
     kassert (func \<noteq> 0);
     kassert (0 \<le> dpl \<and> dpl \<le> 3);
     kassert (0 \<le> type \<and> type \<le> 15);
     let e0 = (func AND 0xffff) OR push_bit 16 (ucast (SEL_KCSEG c) :: u32);
     let e1 = (func AND 0xffff0000) OR push_bit 15 1 OR push_bit 13 (word_of_int dpl) OR push_bit 12 0
              OR push_bit 8 (word_of_int type :: u32);
     Some (ucast e0 OR push_bit 32 (ucast e1))
   }"

definition make_intr_gate :: "cpu \<Rightarrow> u32 \<Rightarrow> int \<Rightarrow> 64 word option" where
  "make_intr_gate c func dpl = make_gate c func dpl 14"

definition make_trap_gate :: "cpu \<Rightarrow> u32 \<Rightarrow> int \<Rightarrow> 64 word option" where
  "make_trap_gate c func dpl = make_gate c func dpl 15"

definition make_idtr_operand :: "u16 \<Rightarrow> u32 \<Rightarrow> 64 word" where
  "make_idtr_operand limit base = ucast limit OR push_bit 16 (ucast base)"

section \<open>The interrupt controllers\<close>

abbreviation PIC0_CTRL :: u16 where "PIC0_CTRL \<equiv> 0x20"
abbreviation PIC0_DATA :: u16 where "PIC0_DATA \<equiv> 0x21"
abbreviation PIC1_CTRL :: u16 where "PIC1_CTRL \<equiv> 0xa0"
abbreviation PIC1_DATA :: u16 where "PIC1_DATA \<equiv> 0xa1"

definition outb :: "u16 \<Rightarrow> byte \<Rightarrow> ('h, 'w) intr \<Rightarrow> ('h, 'w) intr" where
  "outb port b s = s\<lparr>outs := outs s @ [(port, b)]\<rparr>"

definition pic_init :: "('h, 'w) intr \<Rightarrow> ('h, 'w) intr" where
  "pic_init s = fold (\<lambda>(p, b). outb p b)
     [(PIC0_DATA, 0xff), (PIC1_DATA, 0xff),
      (PIC0_CTRL, 0x11), (PIC0_DATA, 0x20), (PIC0_DATA, 0x04), (PIC0_DATA, 0x01),
      (PIC1_CTRL, 0x11), (PIC1_DATA, 0x28), (PIC1_DATA, 0x02), (PIC1_DATA, 0x01),
      (PIC0_DATA, 0x00), (PIC1_DATA, 0x00)] s"

definition pic_end_of_interrupt :: "u32 \<Rightarrow> ('h, 'w) intr \<Rightarrow> ('h, 'w) intr option" where
  "pic_end_of_interrupt irq s = do {
     kassert (0x20 \<le> irq \<and> irq < 0x30);
     let s1 = outb 0x20 0x20 s;
     Some (if 0x28 \<le> irq then outb 0xa0 0x20 s1 else s1)
   }"

section \<open>Registration\<close>

fun init_gates :: "cpu \<Rightarrow> 8 word list \<Rightarrow> ('h, 'w) intr \<Rightarrow> ('h, 'w) intr option" where
  "init_gates c [] s = Some s"
| "init_gates c (v # vs) s = do {
     g \<leftarrow> make_intr_gate c (intr_stubs c v) 0;
     init_gates c vs (s\<lparr>idt := (idt s)(v := g)\<rparr>)
   }"

definition init_names :: "8 word \<Rightarrow> string" where
  "init_names = (\<lambda>v. ''unknown'')
     (0 := ''#DE Divide Error'', 1 := ''#DB Debug Exception'', 2 := ''NMI Interrupt'', 3 := ''#BP Breakpoint Exception'',
      4 := ''#OF Overflow Exception'', 5 := ''#BR BOUND Range Exceeded Exception'', 6 := ''#UD Invalid Opcode Exception'',
      7 := ''#NM Device Not Available Exception'', 8 := ''#DF Double Fault Exception'', 9 := ''Coprocessor Segment Overrun'',
      10 := ''#TS Invalid TSS Exception'', 11 := ''#NP Segment Not Present'', 12 := ''#SS Stack Fault Exception'',
      13 := ''#GP General Protection Exception'', 14 := ''#PF Page-Fault Exception'', 16 := ''#MF x87 FPU Floating-Point Error'',
      17 := ''#AC Alignment Check Exception'', 18 := ''#MC Machine-Check Exception'', 19 := ''#XF SIMD Floating-Point Exception'')"

definition intr_init :: "cpu \<Rightarrow> ('h, 'w) intr \<Rightarrow> ('h, 'w) intr option" where
  "intr_init c s = do {
     s1 \<leftarrow> init_gates c (map of_nat [0..<256]) (pic_init s);
     Some (s1\<lparr>idtr := make_idtr_operand (256 * 8 - 1) (idt_base c), intr_names := init_names\<rparr>)
   }"

definition register_handler :: "cpu \<Rightarrow> 8 word \<Rightarrow> int \<Rightarrow> intr_level \<Rightarrow> 'h \<Rightarrow> string \<Rightarrow> ('h, 'w) intr \<Rightarrow> ('h, 'w) intr option" where
  "register_handler c v dpl level handler name s = do {
     kassert (intr_handlers s v = None);
     g \<leftarrow> (if level = INTR_ON then make_trap_gate c (intr_stubs c v) dpl else make_intr_gate c (intr_stubs c v) dpl);
     Some (s\<lparr>idt := (idt s)(v := g), intr_handlers := (intr_handlers s)(v := Some handler), intr_names := (intr_names s)(v := name)\<rparr>)
   }"

definition intr_register_ext :: "cpu \<Rightarrow> 8 word \<Rightarrow> 'h \<Rightarrow> string \<Rightarrow> ('h, 'w) intr \<Rightarrow> ('h, 'w) intr option" where
  "intr_register_ext c v handler name s = do {
     kassert (0x20 \<le> v \<and> v \<le> 0x2f);
     register_handler c v 0 INTR_OFF handler name s
   }"

definition intr_register_int :: "cpu \<Rightarrow> 8 word \<Rightarrow> int \<Rightarrow> intr_level \<Rightarrow> 'h \<Rightarrow> string \<Rightarrow> ('h, 'w) intr \<Rightarrow> ('h, 'w) intr option" where
  "intr_register_int c v dpl level handler name s = do {
     kassert (v < 0x20 \<or> 0x2f < v);
     register_handler c v dpl level handler name s
   }"

definition intr_yield_on_return :: "('h, 'w) intr \<Rightarrow> ('h, 'w) intr option" where
  "intr_yield_on_return s = do {
     kassert (intr_context s);
     Some (s\<lparr>i_yield_on_return := True\<rparr>)
   }"

definition intr_name :: "8 word \<Rightarrow> ('h, 'w) intr \<Rightarrow> string" where
  "intr_name v s = intr_names s v"

section \<open>The entry point\<close>

definition unexpected_interrupt :: "8 word \<Rightarrow> ('h, 'w) intr \<Rightarrow> ('h, 'w) intr" where
  "unexpected_interrupt v s =
     (let n = unexpected_cnt s v + 1;
          s1 = s\<lparr>unexpected_cnt := (unexpected_cnt s)(v := n)\<rparr>
      in if n AND (n - 1) = 0 then s1\<lparr>printed := printed s1 @ [v]\<rparr> else s1)"

text \<open>A vector number outside the tables is an access out of bounds.\<close>

definition intr_handler :: "cpu \<Rightarrow> ('h \<Rightarrow> intr_frame \<Rightarrow> ('h, 'w) intr \<Rightarrow> ('h, 'w) intr option) \<Rightarrow>
    (('h, 'w) intr \<Rightarrow> ('h, 'w) intr option) \<Rightarrow> intr_frame \<Rightarrow> ('h, 'w) intr \<Rightarrow> ('h, 'w) intr option" where
  "intr_handler c run yield frame s = do {
     let external = (0x20 \<le> vec_no frame \<and> vec_no frame < 0x30);
     s1 \<leftarrow> (if external then do {
              kassert (intr_get_level c s = INTR_OFF);
              kassert (\<not> intr_context s);
              Some (s\<lparr>in_external_intr := True, i_yield_on_return := False\<rparr>)
            } else Some s);
     kassert (vec_no frame < 256);
     s2 \<leftarrow> (case intr_handlers s1 (ucast (vec_no frame)) of
              Some handler \<Rightarrow> run handler frame s1
            | None \<Rightarrow>
                if vec_no frame = 0x27 \<or> vec_no frame = 0x2f then Some s1
                else Some (unexpected_interrupt (ucast (vec_no frame)) s1));
     if external then do {
       kassert (intr_get_level c s2 = INTR_OFF);
       kassert (intr_context s2);
       s3 \<leftarrow> pic_end_of_interrupt (vec_no frame) (s2\<lparr>in_external_intr := False\<rparr>);
       if i_yield_on_return s3 then yield s3 else Some s3
     } else Some s2
   }"

section \<open>Properties\<close>

text \<open>The fields of a gate as the processor reads them.\<close>

definition gate_offset :: "64 word \<Rightarrow> u32" where
  "gate_offset g = (ucast g AND 0xffff) OR (ucast (drop_bit 32 g) AND 0xffff0000)"

definition gate_selector :: "64 word \<Rightarrow> u16" where
  "gate_selector g = ucast (drop_bit 16 g)"

definition gate_dpl :: "64 word \<Rightarrow> u32" where
  "gate_dpl g = ucast (take_bit 2 (drop_bit 45 g))"

definition gate_type :: "64 word \<Rightarrow> u32" where
  "gate_type g = ucast (take_bit 5 (drop_bit 40 g))"

definition gate_present :: "64 word \<Rightarrow> bool" where
  "gate_present g = bit g 47"

lemma mask16: "(0xffff :: u32) = mask 16" "(0xffff0000 :: u32) = push_bit 16 (mask 16)"
  by (simp_all add: mask_eq_exp_minus_1)

lemma bit_8000: "bit (0x8000 :: int) n \<longleftrightarrow> n = 15" "bit (0x8000 :: nat) n \<longleftrightarrow> n = 15"
proof -
  have e: "(0x8000 :: int) = push_bit 15 1" "(0x8000 :: nat) = push_bit 15 1" by simp_all
  show "bit (0x8000 :: int) n \<longleftrightarrow> n = 15" "bit (0x8000 :: nat) n \<longleftrightarrow> n = 15"
    unfolding e bit_push_bit_iff bit_1_iff by auto
qed

text \<open>
  A gate carries its target. Whatever stub address, privilege level and gate
  type \<open>make_gate\<close> is given, the processor reads back that offset, the kernel's code segment,
  that level and that type from the 64-bit descriptor, and finds it present.
\<close>

lemma make_gate_decodes:
  assumes "func \<noteq> 0" "0 \<le> dpl" "dpl \<le> 3" "0 \<le> type" "type \<le> 15"
  shows "\<exists>g. make_gate c func dpl type = Some g \<and> gate_offset g = func \<and> gate_selector g = SEL_KCSEG c \<and>
    gate_dpl g = word_of_int dpl \<and> gate_type g = word_of_int type \<and> gate_present g"
proof -
  define d t where "d = (word_of_int dpl :: u32)" and "t = (word_of_int type :: u32)"
  have d: "bit d n \<Longrightarrow> n < 2" for n
  proof -
    have "take_bit 2 dpl = dpl" using assms(2,3) by (intro take_bit_int_eq_self) simp_all
    then show "bit d n \<Longrightarrow> n < 2" unfolding d_def by (metis bit_take_bit_iff bit_word_of_int_iff)
  qed
  have t: "bit t n \<Longrightarrow> n < 4" for n
  proof -
    have "take_bit 4 type = type" using assms(4,5) by (intro take_bit_int_eq_self) simp_all
    then show "bit t n \<Longrightarrow> n < 4" unfolding t_def by (metis bit_take_bit_iff bit_word_of_int_iff)
  qed
  define g where "g = (ucast ((func AND 0xffff) OR push_bit 16 (ucast (SEL_KCSEG c) :: u32)) OR
    push_bit 32 (ucast ((func AND 0xffff0000) OR push_bit 15 1 OR push_bit 13 d OR push_bit 12 0 OR push_bit 8 t)) :: 64 word)"
  have "make_gate c func dpl type = Some g" using assms by (simp add: make_gate_def g_def d_def t_def)
  moreover have lo: "bit g n \<longleftrightarrow> (if n < 16 then bit func n else bit (SEL_KCSEG c) (n - 16))" if "n < 32" for n
    using that by (auto simp: g_def bit_simps mask16)
  moreover have hi: "bit g (32 + n) \<longleftrightarrow> (if n < 16 then n = 15 \<or> n \<ge> 13 \<and> bit d (n - 13) \<or> n \<ge> 8 \<and> bit t (n - 8) else bit func n)"
    if "n < 32" for n
    using that by (auto simp: g_def bit_simps mask16 bit_8000 dest: d t)
  ultimately have *: "make_gate c func dpl type = Some g" by simp
  have "gate_offset g = func"
  proof (rule bit_word_eqI)
    fix n assume "n < LENGTH(32)"
    then show "bit (gate_offset g) n = bit func n"
      using lo [of n] hi [of n] by (auto simp: gate_offset_def bit_simps mask16)
  qed
  moreover have "gate_selector g = SEL_KCSEG c"
  proof (rule bit_word_eqI)
    fix n assume "n < LENGTH(16)"
    then show "bit (gate_selector g) n = bit (SEL_KCSEG c) n"
      using lo [of "16 + n"] by (auto simp: gate_selector_def bit_simps add.commute)
  qed
  moreover have "gate_dpl g = d"
  proof (rule bit_word_eqI)
    fix n assume "n < LENGTH(32)"
    then show "bit (gate_dpl g) n = bit d n"
      using hi [of "13 + n"] t [of "5 + n"] d [of n] by (auto simp: gate_dpl_def bit_simps add.commute)
  qed
  moreover have "gate_type g = t"
  proof (rule bit_word_eqI)
    fix n assume "n < LENGTH(32)"
    then show "bit (gate_type g) n = bit t n"
      using hi [of "8 + n"] t [of n] by (auto simp: gate_type_def bit_simps add.commute)
  qed
  moreover have "gate_present g" using hi [of 15] by (simp add: gate_present_def)
  ultimately show ?thesis using * by (simp add: d_def t_def)
qed

lemma intr_gate_fields:
  "func \<noteq> 0 \<Longrightarrow> \<exists>g. make_intr_gate c func 0 = Some g \<and> gate_dpl g = 0 \<and> gate_type g = 14 \<and> gate_offset g = func"
  using make_gate_decodes [of func 0 14 c] by (auto simp: make_intr_gate_def)

lemma init_gates_spec:
  assumes stubs: "\<And>v. intr_stubs c v \<noteq> 0"
  shows "\<exists>T. init_gates c vs s = Some (s\<lparr>idt := T\<rparr>) \<and>
    (\<forall>v\<in>set vs. gate_dpl (T v) = 0 \<and> gate_type (T v) = 14 \<and> gate_offset (T v) = intr_stubs c v) \<and> (\<forall>v. v \<notin> set vs \<longrightarrow> T v = idt s v)"
proof (induction vs arbitrary: s)
  case (Cons v vs)
  obtain g where g: "make_intr_gate c (intr_stubs c v) 0 = Some g" "gate_dpl g = 0" "gate_type g = 14" "gate_offset g = intr_stubs c v"
    using intr_gate_fields [OF stubs] by blast
  from Cons.IH [of "s\<lparr>idt := (idt s)(v := g)\<rparr>"] obtain T where T: "init_gates c vs (s\<lparr>idt := (idt s)(v := g)\<rparr>) = Some (s\<lparr>idt := T\<rparr>)"
    "\<forall>v\<in>set vs. gate_dpl (T v) = 0 \<and> gate_type (T v) = 14 \<and> gate_offset (T v) = intr_stubs c v"
    "\<forall>w. w \<notin> set vs \<longrightarrow> T w = ((idt s)(v := g)) w" by auto
  show ?case using T g by (intro exI [of _ T]) (auto split: if_splits)
next
  case Nil
  show ?case by (rule exI [of _ "idt s"]) simp
qed

lemma all_vectors: "(v :: 8 word) \<in> set (map of_nat [0..<256])"
proof -
  have "unat v < 2 ^ LENGTH(8)" by (rule unsigned_less)
  then show ?thesis by (auto intro!: image_eqI [of _ _ "unat v"])
qed

lemma intr_init_spec:
  assumes stubs: "\<And>v. intr_stubs c v \<noteq> 0"
  shows "\<exists>s'. intr_init c s = Some s' \<and> intr_handlers s' = intr_handlers s \<and> in_external_intr s' = in_external_intr s \<and>
    (\<forall>v. gate_dpl (idt s' v) = 0 \<and> gate_type (idt s' v) = 14 \<and> gate_offset (idt s' v) = intr_stubs c v)"
proof -
  obtain T where T: "init_gates c (map of_nat [0..<256]) (pic_init s) = Some ((pic_init s)\<lparr>idt := T\<rparr>)"
    "\<And>v. gate_dpl (T v) = 0 \<and> gate_type (T v) = 14 \<and> gate_offset (T v) = intr_stubs c v"
    using init_gates_spec [OF stubs, of "map of_nat [0..<256]" "pic_init s"] all_vectors by blast
  have "intr_handlers (pic_init s) = intr_handlers s" "in_external_intr (pic_init s) = in_external_intr s"
    by (simp_all add: pic_init_def outb_def)
  then show ?thesis using T by (simp add: intr_init_def)
qed

lemma register_int_spec:
  assumes "intr_stubs c v \<noteq> 0" "0 \<le> dpl" "dpl \<le> 3" "intr_handlers s v = None" "v < 0x20 \<or> 0x2f < v"
  shows "\<exists>g. intr_register_int c v dpl level handler name s = Some (s\<lparr>idt := (idt s)(v := g),
      intr_handlers := (intr_handlers s)(v := Some handler), intr_names := (intr_names s)(v := name)\<rparr>) \<and>
    gate_dpl g = word_of_int dpl \<and> gate_type g = (if level = INTR_ON then 15 else 14)"
  using make_gate_decodes [OF assms(1-3), of 14 c] make_gate_decodes [OF assms(1-3), of 15 c] assms(4,5)
  by (auto simp: intr_register_int_def register_handler_def make_intr_gate_def make_trap_gate_def)

text \<open>
  C20 (safety): an external interrupt is handled once. Its handler runs with interrupts off and
  marked as external, so that a second external interrupt during it stops the kernel; after it
  the controllers get their acknowledgement, the slave exactly for its own lines, and only then, and
  only if the handler asked for it, the thread yields.
\<close>

theorem external_interrupt_acknowledged:
  assumes v: "0x20 \<le> vec_no frame" "vec_no frame < 0x30" and s: "intr_get_level c s = INTR_OFF" "\<not> intr_context s"
    and h: "intr_handlers s (ucast (vec_no frame)) = Some h"
    and r: "run h frame (s\<lparr>in_external_intr := True, i_yield_on_return := False\<rparr>) = Some s2"
      "intr_get_level c s2 = INTR_OFF" "intr_context s2"
  defines "s3 \<equiv> s2\<lparr>in_external_intr := False, outs := outs s2 @ (0x20, 0x20) # (if 0x28 \<le> vec_no frame then [(0xa0, 0x20)] else [])\<rparr>"
  shows "intr_handler c run yield frame s = (if i_yield_on_return s2 then yield s3 else Some s3) \<and>
    (\<forall>frame'. 0x20 \<le> vec_no frame' \<and> vec_no frame' < 0x30 \<longrightarrow> intr_handler c run yield frame' s2 = None)"
proof
  have "vec_no frame < 256" using v(2) by (simp add: word_less_nat_alt)
  moreover have "pic_end_of_interrupt (vec_no frame) (s2\<lparr>in_external_intr := False\<rparr>) = Some s3"
    using v by (simp add: pic_end_of_interrupt_def outb_def s3_def)
  moreover have "i_yield_on_return s3 = i_yield_on_return s2" by (simp add: s3_def)
  ultimately show "intr_handler c run yield frame s = (if i_yield_on_return s2 then yield s3 else Some s3)"
    using v s h r by (simp add: intr_handler_def)
  show "\<forall>frame'. 0x20 \<le> vec_no frame' \<and> vec_no frame' < 0x30 \<longrightarrow> intr_handler c run yield frame' s2 = None"
    using r(3) by (simp add: intr_handler_def)
qed

definition empty_frame :: intr_frame where
  "empty_frame = \<lparr>fr_edi = 0, fr_esi = 0, fr_ebp = 0, fr_esp_dummy = 0, fr_ebx = 0, fr_edx = 0, fr_ecx = 0, fr_eax = 0,
     fr_gs = 0, fr_fs = 0, fr_es = 0, fr_ds = 0, vec_no = 0, error_code = 0, frame_pointer = 0, fr_eip = 0, fr_cs = 0,
     fr_eflags = 0, fr_esp = 0, fr_ss = 0\<rparr>"

definition demo_cpu :: cpu where
  "demo_cpu = \<lparr>intr_stubs = (\<lambda>v. 0xc0020000 + push_bit 4 (ucast v)), SEL_KCSEG = 0x08, SEL_UCSEG = 0x1b, FLAG_IF = 0x200, idt_base = 0xc0030000\<rparr>"

definition demo_intr :: "(nat, nat) intr" where
  "demo_intr = \<lparr>idt = (\<lambda>_. 0), intr_handlers = [0x2e \<mapsto> 5], intr_names = (\<lambda>_. []), unexpected_cnt = (\<lambda>_. 0), in_external_intr = False,
     i_yield_on_return = False, eflags = 0, idtr = 0, outs = [], printed = [], world = 0\<rparr>"

theorem external_interrupt_acknowledged_witness:
  "\<exists>s. intr_handler demo_cpu (\<lambda>h f s. intr_yield_on_return (s\<lparr>world := h\<rparr>)) Some (empty_frame\<lparr>vec_no := 0x2e\<rparr>) demo_intr = Some s \<and>
     outs s = [(0x20, 0x20), (0xa0, 0x20)] \<and> world s = 5"
  using external_interrupt_acknowledged [of "empty_frame\<lparr>vec_no := 0x2e\<rparr>" demo_cpu demo_intr 5
      "\<lambda>h f s. intr_yield_on_return (s\<lparr>world := h\<rparr>)" "demo_intr\<lparr>in_external_intr := True, i_yield_on_return := True, world := 5\<rparr>" Some]
  by (simp add: demo_intr_def demo_cpu_def intr_get_level_def intr_context_def intr_yield_on_return_def)

end
