(* ===== verification/Pagedir.thy ===== *)
theory Pagedir
  imports Kernel_Prelude
begin

text \<open>
  Page directories, \<open>virtual-memory/userprog/pagedir.c\<close>: the two-level page tables of the
  x86, the operations that enter, look up and remove the mapping of a user page, the dirty
  and accessed bits, and the translation lookaside buffer that has to follow them.

  \<open>threads/pte.h\<close>, \<open>threads/vaddr.h\<close> and \<open>threads/palloc.c\<close> are not part of the sources.
  The record \<open>mmu\<close> holds what is used of them: the flag bits, the fields of a virtual
  address, the encoding of directory and table entries, and the page allocator, which
  chooses a page given the pages in use. \<open>mmu_ok\<close> states what is documented of them.

  Kernel pages that hold a directory or a table are arrays of 1024 words in \<open>pages\<close>. A
  pointer to a table entry is the page of its table and the index in it. \<open>cr3\<close> is the
  active directory, \<open>tlb\<close> holds the entries the CPU has cached; loading \<open>cr3\<close> empties it.
\<close>

section \<open>State and parameters\<close>

record mmu =
  PTE_P :: u32
  PTE_W :: u32
  PTE_A :: u32
  PTE_D :: u32
  pd_no :: "u32 \<Rightarrow> nat"
  pt_no :: "u32 \<Rightarrow> nat"
  pg_ofs :: "u32 \<Rightarrow> u32"
  is_user_vaddr :: "u32 \<Rightarrow> bool"
  PHYS_BASE :: u32
  vtop :: "u32 \<Rightarrow> u32"
  PTSHIFT :: nat
  init_ram_pages :: u32
  pde_create :: "u32 \<Rightarrow> u32"
  pde_get_pt :: "u32 \<Rightarrow> u32"
  pte_create_user :: "u32 \<Rightarrow> bool \<Rightarrow> u32"
  pte_get_page :: "u32 \<Rightarrow> u32"
  palloc_get_page :: "(u32 \<rightharpoonup> u32 list) \<Rightarrow> u32 option"

record vm =
  pages :: "u32 \<rightharpoonup> u32 list"
  init_page_dir :: u32
  cr3 :: u32
  tlb :: "u32 \<rightharpoonup> u32"

abbreviation is_set :: "u32 \<Rightarrow> u32 \<Rightarrow> bool" where
  "is_set e flag \<equiv> e AND flag \<noteq> 0"

text \<open>What \<open>pte.h\<close>, \<open>vaddr.h\<close> and \<open>palloc.c\<close> document.\<close>

definition addr_ok :: "'m mmu_scheme \<Rightarrow> bool" where
  "addr_ok M \<longleftrightarrow>
     (\<forall>v. pd_no M v < 1024 \<and> pt_no M v < 1024) \<and>
     (\<forall>v w. pd_no M v = pd_no M w \<longrightarrow> pt_no M v = pt_no M w \<longrightarrow> pg_ofs M v = pg_ofs M w \<longrightarrow> v = w) \<and>
     (\<forall>v. is_user_vaddr M v \<longrightarrow> pd_no M v < pd_no M (PHYS_BASE M))"

definition flags_ok :: "'m mmu_scheme \<Rightarrow> bool" where
  "flags_ok M \<longleftrightarrow>
     PTE_P M \<noteq> 0 \<and> PTE_W M \<noteq> 0 \<and> PTE_A M \<noteq> 0 \<and> PTE_D M \<noteq> 0 \<and>
     PTE_P M AND PTE_W M = 0 \<and> PTE_P M AND PTE_A M = 0 \<and> PTE_P M AND PTE_D M = 0 \<and>
     PTE_W M AND PTE_A M = 0 \<and> PTE_W M AND PTE_D M = 0 \<and> PTE_A M AND PTE_D M = 0 \<and>
     (\<forall>e. pte_get_page M (e AND NOT (PTE_P M)) = pte_get_page M e) \<and>
     (\<forall>e. pte_get_page M (e AND NOT (PTE_A M)) = pte_get_page M e \<and> pte_get_page M (e OR PTE_A M) = pte_get_page M e) \<and>
     (\<forall>e. pte_get_page M (e AND NOT (PTE_D M)) = pte_get_page M e \<and> pte_get_page M (e OR PTE_D M) = pte_get_page M e)"

definition entries_ok :: "'m mmu_scheme \<Rightarrow> bool" where
  "entries_ok M \<longleftrightarrow>
     (\<forall>p. pg_ofs M p = 0 \<longrightarrow> pde_get_pt M (pde_create M p) = p \<and> pde_create M p \<noteq> 0 \<and> is_set (pde_create M p) (PTE_P M)) \<and>
     (\<forall>p w. pg_ofs M p = 0 \<longrightarrow>
        pte_get_page M (pte_create_user M p w) = p \<and> is_set (pte_create_user M p w) (PTE_P M) \<and>
        (is_set (pte_create_user M p w) (PTE_W M) \<longleftrightarrow> w) \<and>
        \<not> is_set (pte_create_user M p w) (PTE_A M) \<and> \<not> is_set (pte_create_user M p w) (PTE_D M))"

definition palloc_ok :: "'m mmu_scheme \<Rightarrow> bool" where
  "palloc_ok M \<longleftrightarrow> (\<forall>m p. palloc_get_page M m = Some p \<longrightarrow> m p = None \<and> p \<noteq> 0 \<and> pg_ofs M p = 0)"

definition mmu_ok :: "'m mmu_scheme \<Rightarrow> bool" where
  "mmu_ok M \<longleftrightarrow> addr_ok M \<and> flags_ok M \<and> entries_ok M \<and> palloc_ok M"

section \<open>Operations\<close>

definition get_pte :: "u32 \<times> nat \<Rightarrow> 'v vm_scheme \<Rightarrow> u32 option" where
  "get_pte l vm = do { pt \<leftarrow> pages vm (fst l); c_nth pt (int (snd l)) }"

definition put_pte :: "u32 \<times> nat \<Rightarrow> u32 \<Rightarrow> 'v vm_scheme \<Rightarrow> 'v vm_scheme option" where
  "put_pte l e vm = do {
     pt \<leftarrow> pages vm (fst l);
     pt' \<leftarrow> c_update pt (int (snd l)) e;
     Some (vm\<lparr>pages := (pages vm)(fst l \<mapsto> pt')\<rparr>)
   }"

definition palloc_free_page :: "u32 \<Rightarrow> 'v vm_scheme \<Rightarrow> 'v vm_scheme option" where
  "palloc_free_page p vm = do {
     x \<leftarrow> pages vm p;
     Some (vm\<lparr>pages := (pages vm)(p := None)\<rparr>)
   }"

definition pagedir_create :: "'m mmu_scheme \<Rightarrow> 'v vm_scheme \<Rightarrow> (u32 option \<times> 'v vm_scheme) option" where
  "pagedir_create M vm =
     (case palloc_get_page M (pages vm) of
        None \<Rightarrow> Some (None, vm)
      | Some pd \<Rightarrow> do {
          ipd \<leftarrow> pages vm (init_page_dir vm);
          Some (Some pd, vm\<lparr>pages := (pages vm)(pd \<mapsto> ipd)\<rparr>)
        })"

fun destroy_tables :: "'m mmu_scheme \<Rightarrow> u32 list \<Rightarrow> 'v vm_scheme \<Rightarrow> 'v vm_scheme option" where
  "destroy_tables M [] vm = Some vm"
| "destroy_tables M (pde # pdes) vm =
     (if is_set pde (PTE_P M) then do {
        vm' \<leftarrow> palloc_free_page (pde_get_pt M pde) vm;
        destroy_tables M pdes vm'
      } else destroy_tables M pdes vm)"

definition pagedir_destroy :: "'m mmu_scheme \<Rightarrow> u32 \<Rightarrow> 'v vm_scheme \<Rightarrow> 'v vm_scheme option" where
  "pagedir_destroy M pd vm =
     (if pd = 0 then Some vm
      else do {
        kassert (pd \<noteq> init_page_dir vm);
        dir \<leftarrow> pages vm pd;
        vm' \<leftarrow> destroy_tables M (take (pd_no M (PHYS_BASE M)) dir) vm;
        palloc_free_page pd vm'
      })"

definition lookup_page :: "'m mmu_scheme \<Rightarrow> u32 \<Rightarrow> u32 \<Rightarrow> bool \<Rightarrow> 'v vm_scheme \<Rightarrow> ((u32 \<times> nat) option \<times> 'v vm_scheme) option" where
  "lookup_page M pd vaddr create vm = do {
     kassert (pd \<noteq> 0);
     kassert (\<not> create \<or> is_user_vaddr M vaddr);
     pde \<leftarrow> get_pte (pd, pd_no M vaddr) vm;
     if pde = 0 then
       if create then
         (case palloc_get_page M (pages vm) of
            None \<Rightarrow> Some (None, vm)
          | Some pt \<Rightarrow> do {
              vm' \<leftarrow> put_pte (pd, pd_no M vaddr) (pde_create M pt) (vm\<lparr>pages := (pages vm)(pt \<mapsto> replicate 1024 0)\<rparr>);
              pde' \<leftarrow> get_pte (pd, pd_no M vaddr) vm';
              Some (Some (pde_get_pt M pde', pt_no M vaddr), vm')
            })
       else Some (None, vm)
     else Some (Some (pde_get_pt M pde, pt_no M vaddr), vm)
   }"

definition pagedir_set_page :: "'m mmu_scheme \<Rightarrow> u32 \<Rightarrow> u32 \<Rightarrow> u32 \<Rightarrow> bool \<Rightarrow> 'v vm_scheme \<Rightarrow> (bool \<times> 'v vm_scheme) option" where
  "pagedir_set_page M pd upage kpage writable vm = do {
     kassert (pg_ofs M upage = 0);
     kassert (pg_ofs M kpage = 0);
     kassert (is_user_vaddr M upage);
     kassert (drop_bit (PTSHIFT M) (vtop M kpage) < init_ram_pages M);
     kassert (pd \<noteq> init_page_dir vm);
     (l, vm1) \<leftarrow> lookup_page M pd upage True vm;
     kassert (l \<noteq> None);
     pte \<leftarrow> l;
     e \<leftarrow> get_pte pte vm1;
     kassert (\<not> is_set e (PTE_P M));
     vm2 \<leftarrow> put_pte pte (pte_create_user M kpage writable) vm1;
     Some (True, vm2)
   }"

definition pagedir_get_page :: "'m mmu_scheme \<Rightarrow> u32 \<Rightarrow> u32 \<Rightarrow> 'v vm_scheme \<Rightarrow> u32 option option" where
  "pagedir_get_page M pd uaddr vm = do {
     kassert (is_user_vaddr M uaddr);
     (l, vm') \<leftarrow> lookup_page M pd uaddr False vm;
     (case l of
        None \<Rightarrow> Some None
      | Some pte \<Rightarrow> do {
          e \<leftarrow> get_pte pte vm';
          Some (if is_set e (PTE_P M) then Some (pte_get_page M e + pg_ofs M uaddr) else None)
        })
   }"

definition pagedir_activate :: "u32 \<Rightarrow> 'v vm_scheme \<Rightarrow> 'v vm_scheme" where
  "pagedir_activate pd vm = vm\<lparr>cr3 := (if pd = 0 then init_page_dir vm else pd), tlb := Map.empty\<rparr>"

definition active_pd :: "'v vm_scheme \<Rightarrow> u32" where
  "active_pd vm = cr3 vm"

definition invalidate_pagedir :: "u32 \<Rightarrow> 'v vm_scheme \<Rightarrow> 'v vm_scheme" where
  "invalidate_pagedir pd vm = (if active_pd vm = pd then pagedir_activate pd vm else vm)"

definition pagedir_clear_page :: "'m mmu_scheme \<Rightarrow> u32 \<Rightarrow> u32 \<Rightarrow> 'v vm_scheme \<Rightarrow> 'v vm_scheme option" where
  "pagedir_clear_page M pd upage vm = do {
     kassert (pg_ofs M upage = 0);
     kassert (is_user_vaddr M upage);
     (l, vm1) \<leftarrow> lookup_page M pd upage False vm;
     (case l of
        None \<Rightarrow> Some vm1
      | Some pte \<Rightarrow> do {
          e \<leftarrow> get_pte pte vm1;
          if is_set e (PTE_P M) then do {
            vm2 \<leftarrow> put_pte pte (e AND NOT (PTE_P M)) vm1;
            Some (invalidate_pagedir pd vm2)
          } else Some vm1
        })
   }"

text \<open>Testing and setting a flag of an entry, as the next four functions do.\<close>

definition pagedir_test :: "'m mmu_scheme \<Rightarrow> u32 \<Rightarrow> u32 \<Rightarrow> u32 \<Rightarrow> 'v vm_scheme \<Rightarrow> bool option" where
  "pagedir_test M flag pd vpage vm = do {
     (l, vm1) \<leftarrow> lookup_page M pd vpage False vm;
     (case l of None \<Rightarrow> Some False | Some pte \<Rightarrow> do { e \<leftarrow> get_pte pte vm1; Some (is_set e flag) })
   }"

definition pagedir_flag :: "'m mmu_scheme \<Rightarrow> u32 \<Rightarrow> u32 \<Rightarrow> u32 \<Rightarrow> bool \<Rightarrow> 'v vm_scheme \<Rightarrow> 'v vm_scheme option" where
  "pagedir_flag M flag pd vpage on vm = do {
     (l, vm1) \<leftarrow> lookup_page M pd vpage False vm;
     (case l of
        None \<Rightarrow> Some vm1
      | Some pte \<Rightarrow> do {
          e \<leftarrow> get_pte pte vm1;
          if on then put_pte pte (e OR flag) vm1
          else do {
            vm2 \<leftarrow> put_pte pte (e AND NOT flag) vm1;
            Some (invalidate_pagedir pd vm2)
          }
        })
   }"

definition pagedir_is_dirty :: "'m mmu_scheme \<Rightarrow> u32 \<Rightarrow> u32 \<Rightarrow> 'v vm_scheme \<Rightarrow> bool option" where
  "pagedir_is_dirty M pd vpage vm = pagedir_test M (PTE_D M) pd vpage vm"

definition pagedir_set_dirty :: "'m mmu_scheme \<Rightarrow> u32 \<Rightarrow> u32 \<Rightarrow> bool \<Rightarrow> 'v vm_scheme \<Rightarrow> 'v vm_scheme option" where
  "pagedir_set_dirty M pd vpage dirty vm = pagedir_flag M (PTE_D M) pd vpage dirty vm"

definition pagedir_is_accessed :: "'m mmu_scheme \<Rightarrow> u32 \<Rightarrow> u32 \<Rightarrow> 'v vm_scheme \<Rightarrow> bool option" where
  "pagedir_is_accessed M pd vpage vm = pagedir_test M (PTE_A M) pd vpage vm"

definition pagedir_set_accessed :: "'m mmu_scheme \<Rightarrow> u32 \<Rightarrow> u32 \<Rightarrow> bool \<Rightarrow> 'v vm_scheme \<Rightarrow> 'v vm_scheme option" where
  "pagedir_set_accessed M pd vpage accessed vm = pagedir_flag M (PTE_A M) pd vpage accessed vm"

section \<open>Well-formed tables\<close>

text \<open>The table of directory slot \<open>i\<close>, and the entry of a user address.\<close>

definition user_table :: "'m mmu_scheme \<Rightarrow> 'v vm_scheme \<Rightarrow> u32 \<Rightarrow> nat \<Rightarrow> u32 option" where
  "user_table M vm pd i = do {
     dir \<leftarrow> pages vm pd;
     if dir ! i = 0 then None else Some (pde_get_pt M (dir ! i))
   }"

definition pte_at :: "'m mmu_scheme \<Rightarrow> 'v vm_scheme \<Rightarrow> u32 \<Rightarrow> u32 \<Rightarrow> u32 option" where
  "pte_at M vm pd va = do {
     pt \<leftarrow> user_table M vm pd (pd_no M va);
     l \<leftarrow> pages vm pt;
     Some (l ! pt_no M va)
   }"

abbreviation user_slots :: "'m mmu_scheme \<Rightarrow> nat" where
  "user_slots M \<equiv> pd_no M (PHYS_BASE M)"

definition dir_ok :: "'m mmu_scheme \<Rightarrow> u32 set \<Rightarrow> 'v vm_scheme \<Rightarrow> u32 \<Rightarrow> bool" where
  "dir_ok M D vm pd \<longleftrightarrow> pd \<noteq> 0 \<and> (\<exists>dir. pages vm pd = Some dir \<and> length dir = 1024 \<and>
     (\<forall>i<user_slots M. dir ! i \<noteq> 0 \<longrightarrow>
        (\<exists>pt l. dir ! i = pde_create M pt \<and> pg_ofs M pt = 0 \<and> pt \<notin> D \<and> pages vm pt = Some l \<and> length l = 1024)))"

text \<open>The directories \<open>D\<close> are in order, and no two of their user slots share a table.\<close>

definition vm_wf :: "'m mmu_scheme \<Rightarrow> u32 set \<Rightarrow> 'v vm_scheme \<Rightarrow> bool" where
  "vm_wf M D vm \<longleftrightarrow> (\<forall>pd\<in>D. dir_ok M D vm pd) \<and>
     (\<forall>pd\<in>D. \<forall>pd'\<in>D. \<forall>i<user_slots M. \<forall>j<user_slots M. \<forall>pt.
        user_table M vm pd i = Some pt \<longrightarrow> user_table M vm pd' j = Some pt \<longrightarrow> pd = pd' \<and> i = j)"

lemma mmu_okD:
  assumes "mmu_ok M"
  shows "pd_no M v < 1024" "pt_no M v < 1024" "is_user_vaddr M v \<Longrightarrow> pd_no M v < user_slots M"
    "pg_ofs M p = 0 \<Longrightarrow> pde_get_pt M (pde_create M p) = p" "pg_ofs M p = 0 \<Longrightarrow> pde_create M p \<noteq> 0"
    "palloc_get_page M m = Some p \<Longrightarrow> m p = None \<and> p \<noteq> 0 \<and> pg_ofs M p = 0"
  using assms by (auto simp: mmu_ok_def addr_ok_def entries_ok_def palloc_ok_def)

lemma vm_wf_dir_ok: "vm_wf M D vm \<Longrightarrow> pd \<in> D \<Longrightarrow> dir_ok M D vm pd"
  unfolding vm_wf_def by blast

lemma vm_wf_dir:
  assumes "vm_wf M D vm" "pd \<in> D"
  obtains dir where "pages vm pd = Some dir" "length dir = 1024" "pd \<noteq> 0"
proof -
  have "dir_ok M D vm pd" by (rule vm_wf_dir_ok [OF assms])
  then show thesis unfolding dir_ok_def by (elim conjE exE) (rule that)
qed

lemma vm_wf_table:
  assumes "mmu_ok M" "vm_wf M D vm" "pd \<in> D" "i < user_slots M" "user_table M vm pd i = Some pt"
  obtains l where "pages vm pt = Some l" "length l = 1024" "pt \<notin> D" "pg_ofs M pt = 0"
proof -
  from vm_wf_dir_ok [OF assms(2,3)] obtain dir where d: "pages vm pd = Some dir"
    "\<forall>i<user_slots M. dir ! i \<noteq> 0 \<longrightarrow>
        (\<exists>pt l. dir ! i = pde_create M pt \<and> pg_ofs M pt = 0 \<and> pt \<notin> D \<and> pages vm pt = Some l \<and> length l = 1024)"
    unfolding dir_ok_def by blast
  have n: "dir ! i \<noteq> 0" "pt = pde_get_pt M (dir ! i)" using assms(5) d(1) by (auto simp: user_table_def split: if_splits)
  from d(2) assms(4) n(1) obtain p l where p: "dir ! i = pde_create M p" "pg_ofs M p = 0" "p \<notin> D" "pages vm p = Some l" "length l = 1024"
    by blast
  then have "pt = p" using n(2) mmu_okD(4) [OF assms(1)] by simp
  with p that show thesis by blast
qed

lemma vm_wf_unique:
  "vm_wf M D vm \<Longrightarrow> pd \<in> D \<Longrightarrow> pd' \<in> D \<Longrightarrow> i < user_slots M \<Longrightarrow> j < user_slots M \<Longrightarrow>
   user_table M vm pd i = Some pt \<Longrightarrow> user_table M vm pd' j = Some pt \<Longrightarrow> pd = pd' \<and> i = j"
  unfolding vm_wf_def by blast

lemma get_pte_in: "pages vm pt = Some l \<Longrightarrow> i < length l \<Longrightarrow> get_pte (pt, i) vm = Some (l ! i)"
  by (simp add: get_pte_def)

lemma put_pte_in:
  "pages vm pt = Some l \<Longrightarrow> i < length l \<Longrightarrow> put_pte (pt, i) e vm = Some (vm\<lparr>pages := (pages vm)(pt \<mapsto> l[i := e])\<rparr>)"
  by (simp add: put_pte_def)

text \<open>Finding the entry of a user address without creating a table changes nothing.\<close>

lemma lookup_page_find:
  assumes M: "mmu_ok M" and wf: "vm_wf M D vm" "pd \<in> D"
  shows "lookup_page M pd va False vm = Some (map_option (\<lambda>pt. (pt, pt_no M va)) (user_table M vm pd (pd_no M va)), vm)"
proof -
  obtain dir where d: "pages vm pd = Some dir" "length dir = 1024" "pd \<noteq> 0" using vm_wf_dir [OF wf] .
  then have "get_pte (pd, pd_no M va) vm = Some (dir ! pd_no M va)" using mmu_okD(1) [OF M] by (simp add: get_pte_in)
  then show ?thesis using d by (simp add: lookup_page_def user_table_def)
qed

lemma get_pte_at:
  assumes "mmu_ok M" "vm_wf M D vm" "pd \<in> D" "is_user_vaddr M va" "user_table M vm pd (pd_no M va) = Some pt"
  shows "\<exists>e. get_pte (pt, pt_no M va) vm = Some e \<and> pte_at M vm pd va = Some e"
proof -
  obtain l where "pages vm pt = Some l" "length l = 1024"
    using vm_wf_table [OF assms(1-3) mmu_okD(3) [OF assms(1,4)] assms(5)] .
  then show ?thesis using assms(5) mmu_okD(2) [OF assms(1), of va] by (simp add: pte_at_def get_pte_in)
qed

lemma pte_at_None:
  assumes "mmu_ok M" "vm_wf M D vm" "pd \<in> D" "is_user_vaddr M va"
  shows "pte_at M vm pd va = None \<longleftrightarrow> user_table M vm pd (pd_no M va) = None"
  using get_pte_at [OF assms] by (cases "user_table M vm pd (pd_no M va)") (auto simp: pte_at_def)

text \<open>Storing an entry changes that entry and no other.\<close>

lemma put_pte_at:
  assumes M: "mmu_ok M" and wf: "vm_wf M D vm" and pd: "pd \<in> D" "is_user_vaddr M va"
    and t: "user_table M vm pd (pd_no M va) = Some pt"
  obtains ps where "put_pte (pt, pt_no M va) e vm = Some (vm\<lparr>pages := ps\<rparr>)" "vm_wf M D (vm\<lparr>pages := ps\<rparr>)"
    "\<And>pd' va'. pd' \<in> D \<Longrightarrow> is_user_vaddr M va' \<Longrightarrow> pte_at M (vm\<lparr>pages := ps\<rparr>) pd' va' =
       (if pd' = pd \<and> pd_no M va' = pd_no M va \<and> pt_no M va' = pt_no M va then Some e else pte_at M vm pd' va')"
    "\<And>q. pages vm q = None \<longleftrightarrow> ps q = None"
proof -
  have i: "pd_no M va < user_slots M" by (rule mmu_okD(3) [OF M pd(2)])
  obtain l where l: "pages vm pt = Some l" "length l = 1024" "pt \<notin> D" using vm_wf_table [OF M wf pd(1) i t] .
  define ps where "ps = (pages vm)(pt \<mapsto> l[pt_no M va := e])"
  let ?vm = "vm\<lparr>pages := ps\<rparr>"
  have ut: "user_table M ?vm p j = user_table M vm p j" if "p \<in> D" for p j
    using that l(3) by (auto simp: user_table_def ps_def)
  have dirs: "pages ?vm p = pages vm p" if "p \<in> D" for p using that l(3) by (auto simp: ps_def)
  have len: "\<exists>x. pages ?vm q = Some x \<and> length x = 1024" if "pages vm q = Some y" "length y = 1024" for q y
    using that l by (auto simp: ps_def)
  have "dir_ok M D ?vm p" if "p \<in> D" for p
  proof -
    have "dir_ok M D vm p" by (rule vm_wf_dir_ok [OF wf that])
    then show ?thesis unfolding dir_ok_def dirs [OF that] using len by meson
  qed
  then have "vm_wf M D ?vm" using wf by (simp add: vm_wf_def ut)
  moreover have "pte_at M ?vm p v = (if p = pd \<and> pd_no M v = pd_no M va \<and> pt_no M v = pt_no M va then Some e else pte_at M vm p v)"
    if p: "p \<in> D" "is_user_vaddr M v" for p v
  proof (cases "user_table M vm p (pd_no M v) = Some pt")
    case True
    then have "p = pd \<and> pd_no M v = pd_no M va"
      using vm_wf_unique [OF wf p(1) pd(1) mmu_okD(3) [OF M p(2)] i True t] by simp
    then show ?thesis using True l mmu_okD(2) [OF M, of v] unfolding pte_at_def ut [OF p(1)] by (auto simp: ps_def)
  next
    case False
    then have "\<not> (p = pd \<and> pd_no M v = pd_no M va)" using t by auto
    then show ?thesis using False unfolding pte_at_def ut [OF p(1)]
      by (cases "user_table M vm p (pd_no M v)") (auto simp: ps_def)
  qed
  moreover have "put_pte (pt, pt_no M va) e vm = Some ?vm"
    using put_pte_in [OF l(1), of "pt_no M va" e] l(2) mmu_okD(2) [OF M, of va] by (simp add: ps_def)
  moreover have "pages vm q = None \<longleftrightarrow> ps q = None" for q using l(1) by (auto simp: ps_def)
  ultimately show thesis using that by blast
qed

lemma lookup_page_create:
  assumes M: "mmu_ok M" and wf: "vm_wf M D vm" and pd: "pd \<in> D" "is_user_vaddr M va"
    and fresh: "user_table M vm pd (pd_no M va) = None"
  shows "lookup_page M pd va True vm = (case palloc_get_page M (pages vm) of
           None \<Rightarrow> Some (None, vm)
         | Some pt \<Rightarrow> Some (Some (pt, pt_no M va), vm\<lparr>pages := (pages vm)(pt \<mapsto> replicate 1024 0,
             pd \<mapsto> (the (pages vm pd))[pd_no M va := pde_create M pt])\<rparr>))"
proof -
  obtain dir where d: "pages vm pd = Some dir" "length dir = 1024" "pd \<noteq> 0" using vm_wf_dir [OF wf pd(1)] .
  then have g: "get_pte (pd, pd_no M va) vm = Some (dir ! pd_no M va)" using mmu_okD(1) [OF M] by (simp add: get_pte_in)
  have z: "dir ! pd_no M va = 0" using fresh d(1) by (simp add: user_table_def split: if_splits)
  show ?thesis
  proof (cases "palloc_get_page M (pages vm)")
    case None
    then show ?thesis using d g z pd(2) by (simp add: lookup_page_def)
  next
    case (Some pt)
    have pt: "pages vm pt = None" "pg_ofs M pt = 0" using mmu_okD(6) [OF M Some] by simp_all
    then have ne: "pt \<noteq> pd" using d(1) by auto
    define vm1 where "vm1 = vm\<lparr>pages := (pages vm)(pt \<mapsto> replicate 1024 0)\<rparr>"
    define vm2 where "vm2 = vm\<lparr>pages := (pages vm)(pt \<mapsto> replicate 1024 0, pd \<mapsto> dir[pd_no M va := pde_create M pt])\<rparr>"
    have "put_pte (pd, pd_no M va) (pde_create M pt) vm1 = Some vm2"
      using put_pte_in [of vm1 pd dir "pd_no M va"] d ne mmu_okD(1) [OF M, of va] by (simp add: vm1_def vm2_def fun_upd_twist)
    moreover have "get_pte (pd, pd_no M va) vm2 = Some (pde_create M pt)"
      using d mmu_okD(1) [OF M, of va] by (simp add: get_pte_def vm2_def)
    ultimately show ?thesis using d g z pd(2) Some mmu_okD(4) [OF M pt(2)]
      by (simp add: lookup_page_def vm1_def) (simp add: vm2_def)
  qed
qed

text \<open>A new table enters an empty entry for each of its addresses and keeps the rest.\<close>

lemma new_table_wf:
  assumes M: "mmu_ok M" and wf: "vm_wf M D vm" and pd: "pd \<in> D" "is_user_vaddr M va"
    and fresh: "user_table M vm pd (pd_no M va) = None" and al: "palloc_get_page M (pages vm) = Some pt"
  defines "vm' \<equiv> vm\<lparr>pages := (pages vm)(pt \<mapsto> replicate 1024 0, pd \<mapsto> (the (pages vm pd))[pd_no M va := pde_create M pt])\<rparr>"
  shows "vm_wf M D vm'" "user_table M vm' pd (pd_no M va) = Some pt"
    "\<And>pd' va'. pd' \<in> D \<Longrightarrow> is_user_vaddr M va' \<Longrightarrow> pte_at M vm' pd' va' =
       (if pd' = pd \<and> pd_no M va' = pd_no M va then Some 0 else pte_at M vm pd' va')"
proof -
  obtain dir where d: "pages vm pd = Some dir" "length dir = 1024" "pd \<noteq> 0" using vm_wf_dir [OF wf pd(1)] .
  have i: "pd_no M va < user_slots M" "pd_no M va < 1024" using mmu_okD(1,3) [OF M] pd(2) by simp_all
  have pt: "pages vm pt = None" "pg_ofs M pt = 0" using mmu_okD(6) [OF M al] by simp_all
  have ptD: "pt \<notin> D" using vm_wf_dir [OF wf] pt(1) by (metis option.distinct(1))
  have pg: "pages vm' q = (if q = pd then Some (dir[pd_no M va := pde_create M pt]) else if q = pt then Some (replicate 1024 0) else pages vm q)" for q
    using d(1) by (simp add: vm'_def)
  have ut: "user_table M vm' p j = (if p = pd \<and> j = pd_no M va then Some pt else user_table M vm p j)" if "p \<in> D" for p j
    using that ptD d i mmu_okD(4,5) [OF M pt(2)] unfolding user_table_def pg by (auto simp: nth_list_update)
  have old: "pt \<noteq> q" if "p \<in> D" "j < user_slots M" "user_table M vm p j = Some q" for p j q
    using vm_wf_table [OF M wf that] pt(1) by (metis option.distinct(1))
  show "user_table M vm' pd (pd_no M va) = Some pt" by (simp add: ut pd(1))
  have "dir_ok M D vm' p" if pD: "p \<in> D" for p
  proof -
    obtain dr where dr: "p \<noteq> 0" "pages vm p = Some dr" "length dr = 1024"
      "\<And>i. i < user_slots M \<Longrightarrow> dr ! i \<noteq> 0 \<Longrightarrow>
        \<exists>pt l. dr ! i = pde_create M pt \<and> pg_ofs M pt = 0 \<and> pt \<notin> D \<and> pages vm pt = Some l \<and> length l = 1024"
      using vm_wf_dir_ok [OF wf pD] unfolding dir_ok_def by blast
    define dr' where "dr' = (if p = pd then dr[pd_no M va := pde_create M pt] else dr)"
    have "pages vm' p = Some dr'" using dr(2) d(1) ptD pD by (auto simp: pg dr'_def)
    moreover have "\<exists>q l. dr' ! j = pde_create M q \<and> pg_ofs M q = 0 \<and> q \<notin> D \<and> pages vm' q = Some l \<and> length l = 1024"
      if j: "j < user_slots M" "dr' ! j \<noteq> 0" for j
    proof (cases "p = pd \<and> j = pd_no M va")
      case True
      then have "dr' ! j = pde_create M pt" "pages vm' pt = Some (replicate 1024 0)"
        using dr(3) i ptD pd(1) by (auto simp: dr'_def pg)
      then show ?thesis using pt(2) ptD by auto
    next
      case False
      then have "dr' ! j = dr ! j" by (auto simp: dr'_def)
      then obtain q l where q: "dr ! j = pde_create M q" "pg_ofs M q = 0" "q \<notin> D" "pages vm q = Some l" "length l = 1024"
        using dr(4) j by metis
      then have "pages vm' q = Some l" using pt(1) pd(1) by (auto simp: pg)
      then show ?thesis using q \<open>dr' ! j = dr ! j\<close> by metis
    qed
    ultimately show ?thesis using dr(1,3) unfolding dir_ok_def by (intro conjI exI [of _ dr']) (auto simp: dr'_def)
  qed
  moreover have "p = p' \<and> j = j'" if "p \<in> D" "p' \<in> D" "j < user_slots M" "j' < user_slots M"
    "user_table M vm' p j = Some q" "user_table M vm' p' j' = Some q" for p p' j j' q
    using that(5,6) old [OF that(1,3)] old [OF that(2,4)] vm_wf_unique [OF wf that(1-4)]
    unfolding ut [OF that(1)] ut [OF that(2)] by (auto split: if_splits)
  ultimately show "vm_wf M D vm'" unfolding vm_wf_def by blast
  show "pte_at M vm' p v = (if p = pd \<and> pd_no M v = pd_no M va then Some 0 else pte_at M vm p v)"
    if "p \<in> D" "is_user_vaddr M v" for p v
  proof (cases "p = pd \<and> pd_no M v = pd_no M va")
    case True
    then show ?thesis using ptD pd(1) mmu_okD(2) [OF M, of v] unfolding pte_at_def ut [OF that(1)] by (auto simp: pg)
  next
    case False
    have "pages vm' q = pages vm q" if "user_table M vm p (pd_no M v) = Some q" for q
      using vm_wf_table [OF M wf \<open>p \<in> D\<close> mmu_okD(3) [OF M \<open>is_user_vaddr M v\<close>] that] pt(1) pd(1) pg by (metis option.distinct(1))
    then show ?thesis using False unfolding pte_at_def ut [OF that(1)] by (cases "user_table M vm p (pd_no M v)") auto
  qed
qed

section \<open>What the operations do to the entries\<close>

text \<open>The value of an entry; a missing table reads as an entry that is zero.\<close>

definition pte_val :: "'m mmu_scheme \<Rightarrow> 'v vm_scheme \<Rightarrow> u32 \<Rightarrow> u32 \<Rightarrow> u32" where
  "pte_val M vm pd va = (case pte_at M vm pd va of None \<Rightarrow> 0 | Some e \<Rightarrow> e)"

abbreviation same_slot :: "'m mmu_scheme \<Rightarrow> u32 \<Rightarrow> u32 \<Rightarrow> bool" where
  "same_slot M va va' \<equiv> pd_no M va' = pd_no M va \<and> pt_no M va' = pt_no M va"

text \<open>\<open>vm'\<close> is \<open>vm\<close> with the entry of \<open>va\<close> in \<open>pd\<close> replaced by \<open>e\<close>, up to the contents of the TLB.\<close>

definition vm_upd :: "'m mmu_scheme \<Rightarrow> u32 set \<Rightarrow> 'v vm_scheme \<Rightarrow> u32 \<Rightarrow> u32 \<Rightarrow> u32 \<Rightarrow> 'v vm_scheme \<Rightarrow> bool" where
  "vm_upd M D vm pd va e vm' \<longleftrightarrow> vm_wf M D vm' \<and>
     (\<forall>pd'\<in>D. \<forall>va'. is_user_vaddr M va' \<longrightarrow>
        pte_val M vm' pd' va' = (if pd' = pd \<and> same_slot M va va' then e else pte_val M vm pd' va')) \<and>
     init_page_dir vm' = init_page_dir vm \<and> cr3 vm' = cr3 vm \<and> vm.more vm' = vm.more vm"

lemma pte_at_slot: "same_slot M va va' \<Longrightarrow> pte_at M vm pd va' = pte_at M vm pd va"
  by (simp add: pte_at_def)

lemma pte_val_slot: "same_slot M va va' \<Longrightarrow> pte_val M vm pd va' = pte_val M vm pd va"
  using pte_at_slot [of M va va' vm pd] by (simp add: pte_val_def)

lemma wf_tlb [simp]: "vm_wf M D (vm\<lparr>cr3 := c, tlb := t\<rparr>) = vm_wf M D vm"
  "pte_at M (vm\<lparr>cr3 := c, tlb := t\<rparr>) pd va = pte_at M vm pd va"
  by (simp_all add: vm_wf_def dir_ok_def user_table_def pte_at_def)

lemma pte_val_tlb [simp]: "pte_val M (vm\<lparr>cr3 := c, tlb := t\<rparr>) pd va = pte_val M vm pd va"
  by (simp add: pte_val_def)

lemma vm_updI:
  assumes "vm_wf M D vm'" "init_page_dir vm' = init_page_dir vm" "cr3 vm' = cr3 vm" "vm.more vm' = vm.more vm"
    "\<And>pd' va'. pd' \<in> D \<Longrightarrow> is_user_vaddr M va' \<Longrightarrow>
       pte_val M vm' pd' va' = (if pd' = pd \<and> same_slot M va va' then e else pte_val M vm pd' va')"
  shows "vm_upd M D vm pd va e vm'"
  using assms unfolding vm_upd_def by blast

lemma vm_updD:
  assumes "vm_upd M D vm pd va e vm'"
  shows "vm_wf M D vm'" "init_page_dir vm' = init_page_dir vm" "cr3 vm' = cr3 vm" "vm.more vm' = vm.more vm"
    "pd' \<in> D \<Longrightarrow> is_user_vaddr M va' \<Longrightarrow>
       pte_val M vm' pd' va' = (if pd' = pd \<and> same_slot M va va' then e else pte_val M vm pd' va')"
  using assms unfolding vm_upd_def by blast+

lemma vm_upd_refl: "vm_wf M D vm \<Longrightarrow> pte_val M vm pd va = e \<Longrightarrow> vm_upd M D vm pd va e vm"
  using pte_val_slot [of M va _ vm pd] by (intro vm_updI) metis+

lemma vm_upd_activate:
  assumes "vm_upd M D vm pd va e vm'" "pd \<noteq> 0" "cr3 vm = pd"
  shows "vm_upd M D vm pd va e (pagedir_activate pd vm')"
  unfolding pagedir_activate_def using vm_updD [OF assms(1)] assms(2,3) by (intro vm_updI) simp_all

lemma vm_upd_invalidate:
  assumes "vm_upd M D vm pd va e vm'" "pd \<noteq> 0"
  shows "vm_upd M D vm pd va e (invalidate_pagedir pd vm')"
    "tlb (invalidate_pagedir pd vm') = (if cr3 vm = pd then Map.empty else tlb vm')"
  using vm_upd_activate [OF assms] assms(1) vm_updD(3) [OF assms(1)]
  by (simp_all add: invalidate_pagedir_def active_pd_def) (simp add: pagedir_activate_def)

lemma put_pte_upd:
  assumes M: "mmu_ok M" and wf: "vm_wf M D vm" "pd \<in> D" "is_user_vaddr M va"
    and t: "user_table M vm pd (pd_no M va) = Some pt"
  shows "\<exists>vm'. put_pte (pt, pt_no M va) e vm = Some vm' \<and> vm_upd M D vm pd va e vm' \<and> tlb vm' = tlb vm"
proof -
  obtain ps where ps: "put_pte (pt, pt_no M va) e vm = Some (vm\<lparr>pages := ps\<rparr>)" "vm_wf M D (vm\<lparr>pages := ps\<rparr>)"
    "\<And>pd' va'. pd' \<in> D \<Longrightarrow> is_user_vaddr M va' \<Longrightarrow> pte_at M (vm\<lparr>pages := ps\<rparr>) pd' va' =
       (if pd' = pd \<and> same_slot M va va' then Some e else pte_at M vm pd' va')"
    "\<And>q. pages vm q = None \<longleftrightarrow> ps q = None"
    by (rule put_pte_at [OF M wf t, of e]) (rule that)
  have "vm_upd M D vm pd va e (vm\<lparr>pages := ps\<rparr>)" by (rule vm_updI) (simp_all only: pte_val_def ps(2,3), simp_all)
  then show ?thesis using ps(1) by simp
qed

lemma pagedir_test_spec:
  assumes M: "mmu_ok M" and wf: "vm_wf M D vm" "pd \<in> D" "is_user_vaddr M va"
  shows "pagedir_test M flag pd va vm = Some (is_set (pte_val M vm pd va) flag)"
proof (cases "user_table M vm pd (pd_no M va)")
  case None
  then show ?thesis using lookup_page_find [OF M wf(1,2), of va] by (simp add: pagedir_test_def pte_val_def pte_at_def)
next
  case (Some pt)
  then show ?thesis using lookup_page_find [OF M wf(1,2), of va] get_pte_at [OF M wf Some]
    by (auto simp: pagedir_test_def pte_val_def)
qed

lemma pagedir_get_page_spec:
  assumes M: "mmu_ok M" and wf: "vm_wf M D vm" "pd \<in> D" "is_user_vaddr M va"
  shows "pagedir_get_page M pd va vm =
    Some (if is_set (pte_val M vm pd va) (PTE_P M) then Some (pte_get_page M (pte_val M vm pd va) + pg_ofs M va) else None)"
proof (cases "user_table M vm pd (pd_no M va)")
  case None
  then show ?thesis using lookup_page_find [OF M wf(1,2), of va] wf(3) by (simp add: pagedir_get_page_def pte_val_def pte_at_def)
next
  case (Some pt)
  then show ?thesis using lookup_page_find [OF M wf(1,2), of va] get_pte_at [OF M wf Some] wf(3)
    by (auto simp: pagedir_get_page_def pte_val_def)
qed

lemma pagedir_flag_spec:
  assumes M: "mmu_ok M" and wf: "vm_wf M D vm" "pd \<in> D" "is_user_vaddr M va"
  shows "\<exists>vm'. pagedir_flag M flag pd va on vm = Some vm' \<and>
    vm_upd M D vm pd va (if pte_at M vm pd va = None then 0 else if on then pte_val M vm pd va OR flag else pte_val M vm pd va AND NOT flag) vm' \<and>
    tlb vm' = (if \<not> on \<and> cr3 vm = pd \<and> pte_at M vm pd va \<noteq> None then Map.empty else tlb vm)"
proof (cases "user_table M vm pd (pd_no M va)")
  case None
  then show ?thesis using lookup_page_find [OF M wf(1,2), of va] vm_upd_refl [OF wf(1), of pd va 0]
    by (simp add: pagedir_flag_def pte_val_def pte_at_def)
next
  case (Some pt)
  obtain e where e: "get_pte (pt, pt_no M va) vm = Some e" "pte_at M vm pd va = Some e" using get_pte_at [OF M wf Some] by blast
  have pd: "pd \<noteq> 0" using vm_wf_dir [OF wf(1,2)] by blast
  note l = lookup_page_find [OF M wf(1,2), of va, unfolded Some]
  show ?thesis
  proof (cases on)
    case True
    obtain vm' where "put_pte (pt, pt_no M va) (e OR flag) vm = Some vm'" "vm_upd M D vm pd va (e OR flag) vm'" "tlb vm' = tlb vm"
      using put_pte_upd [OF M wf Some] by blast
    then show ?thesis using l e True by (simp add: pagedir_flag_def pte_val_def)
  next
    case False
    obtain vm' where u: "put_pte (pt, pt_no M va) (e AND NOT flag) vm = Some vm'" "vm_upd M D vm pd va (e AND NOT flag) vm'" "tlb vm' = tlb vm"
      using put_pte_upd [OF M wf Some] by blast
    then show ?thesis using l e False vm_upd_invalidate [OF u(2) pd] by (simp add: pagedir_flag_def pte_val_def)
  qed
qed

lemma pagedir_clear_page_spec:
  assumes M: "mmu_ok M" and wf: "vm_wf M D vm" "pd \<in> D" "is_user_vaddr M va" and al: "pg_ofs M va = 0"
  shows "\<exists>vm'. pagedir_clear_page M pd va vm = Some vm' \<and>
    vm_upd M D vm pd va (if is_set (pte_val M vm pd va) (PTE_P M) then pte_val M vm pd va AND NOT (PTE_P M) else pte_val M vm pd va) vm' \<and>
    tlb vm' = (if cr3 vm = pd \<and> is_set (pte_val M vm pd va) (PTE_P M) then Map.empty else tlb vm)"
proof (cases "user_table M vm pd (pd_no M va)")
  case None
  then show ?thesis using lookup_page_find [OF M wf(1,2), of va] vm_upd_refl [OF wf(1), of pd va 0] wf(3) al
    by (simp add: pagedir_clear_page_def pte_val_def pte_at_def)
next
  case (Some pt)
  obtain e where e: "get_pte (pt, pt_no M va) vm = Some e" "pte_at M vm pd va = Some e" using get_pte_at [OF M wf Some] by blast
  have pd: "pd \<noteq> 0" using vm_wf_dir [OF wf(1,2)] by blast
  note l = lookup_page_find [OF M wf(1,2), of va, unfolded Some]
  show ?thesis
  proof (cases "is_set e (PTE_P M)")
    case False
    then show ?thesis using l e vm_upd_refl [OF wf(1), of pd va e] wf(3) al by (simp add: pagedir_clear_page_def pte_val_def)
  next
    case True
    obtain vm' where u: "put_pte (pt, pt_no M va) (e AND NOT (PTE_P M)) vm = Some vm'" "vm_upd M D vm pd va (e AND NOT (PTE_P M)) vm'"
      "tlb vm' = tlb vm"
      using put_pte_upd [OF M wf Some] by blast
    then show ?thesis using l e True vm_upd_invalidate [OF u(2) pd] wf(3) al by (simp add: pagedir_clear_page_def pte_val_def)
  qed
qed

text \<open>What \<open>pagedir_set_page\<close> asserts, and that a table is there or can be allocated.\<close>

definition set_page_pre :: "'m mmu_scheme \<Rightarrow> 'v vm_scheme \<Rightarrow> u32 \<Rightarrow> u32 \<Rightarrow> u32 \<Rightarrow> bool" where
  "set_page_pre M vm pd upage kpage \<longleftrightarrow>
     pg_ofs M upage = 0 \<and> pg_ofs M kpage = 0 \<and> is_user_vaddr M upage \<and>
     drop_bit (PTSHIFT M) (vtop M kpage) < init_ram_pages M \<and> pd \<noteq> init_page_dir vm \<and>
     (pte_at M vm pd upage = None \<longrightarrow> palloc_get_page M (pages vm) \<noteq> None)"

lemma pagedir_set_page_spec:
  assumes M: "mmu_ok M" and wf: "vm_wf M D vm" "pd \<in> D" and pre: "set_page_pre M vm pd va kpage"
    and unmapped: "\<not> is_set (pte_val M vm pd va) (PTE_P M)"
  shows "\<exists>vm'. pagedir_set_page M pd va kpage w vm = Some (True, vm') \<and>
    vm_upd M D vm pd va (pte_create_user M kpage w) vm' \<and> tlb vm' = tlb vm"
proof (cases "user_table M vm pd (pd_no M va)")
  case (Some pt)
  have u: "is_user_vaddr M va" using pre by (simp add: set_page_pre_def)
  obtain e where e: "get_pte (pt, pt_no M va) vm = Some e" "pte_at M vm pd va = Some e" using get_pte_at [OF M wf u Some] by blast
  obtain dir where d: "pages vm pd = Some dir" "length dir = 1024" "pd \<noteq> 0" using vm_wf_dir [OF wf] .
  have "lookup_page M pd va True vm = Some (Some (pt, pt_no M va), vm)"
    using Some d u mmu_okD(1) [OF M, of va] by (auto simp: lookup_page_def get_pte_in user_table_def split: if_splits)
  then show ?thesis using put_pte_upd [OF M wf u Some, of "pte_create_user M kpage w"] e pre unmapped
    by (auto simp: pagedir_set_page_def set_page_pre_def pte_val_def)
next
  case None
  have u: "is_user_vaddr M va" using pre by (simp add: set_page_pre_def)
  have at: "pte_at M vm pd va = None" using None by (simp add: pte_at_def)
  then obtain pt where al: "palloc_get_page M (pages vm) = Some pt" using pre by (auto simp: set_page_pre_def)
  define vm1 where "vm1 = vm\<lparr>pages := (pages vm)(pt \<mapsto> replicate 1024 0, pd \<mapsto> (the (pages vm pd))[pd_no M va := pde_create M pt])\<rparr>"
  have l: "lookup_page M pd va True vm = Some (Some (pt, pt_no M va), vm1)"
    using lookup_page_create [OF M wf u None] al by (simp add: vm1_def)
  note n = new_table_wf [OF M wf u None al, folded vm1_def]
  have v1: "pte_val M vm1 p v = pte_val M vm p v" if "p \<in> D" "is_user_vaddr M v" for p v
    using n(3) [OF that] None by (auto simp: pte_val_def pte_at_def)
  obtain e where e: "get_pte (pt, pt_no M va) vm1 = Some e" "pte_at M vm1 pd va = Some e" using get_pte_at [OF M n(1) wf(2) u n(2)] by blast
  have "e = 0" using n(3) [OF wf(2) u] e(2) by simp
  moreover obtain vm2 where "put_pte (pt, pt_no M va) (pte_create_user M kpage w) vm1 = Some vm2"
    "vm_upd M D vm1 pd va (pte_create_user M kpage w) vm2" "tlb vm2 = tlb vm1"
    using put_pte_upd [OF M n(1) wf(2) u n(2)] by blast
  moreover from this(2) have "vm_upd M D vm pd va (pte_create_user M kpage w) vm2"
    by (intro vm_updI) (simp_all add: vm_updD [of M D vm1] v1, simp_all add: vm1_def)
  ultimately show ?thesis using l e pre by (simp add: pagedir_set_page_def set_page_pre_def) (simp add: vm1_def)
qed

section \<open>The interface of a page map\<close>

text \<open>
  What the users of a page directory rely on: an unmapped key can be mapped, any key can be
  unmapped, and nothing else changes. \<open>map_all\<close> maps a list of pages, as the program loader does.
\<close>

fun map_all :: "('k \<Rightarrow> 'v \<Rightarrow> 's \<Rightarrow> 's option) \<Rightarrow> ('k \<times> 'v) list \<Rightarrow> 's \<Rightarrow> 's option" where
  "map_all set_page [] s = Some s"
| "map_all set_page ((k, v) # kvs) s = Option.bind (set_page k v s) (map_all set_page kvs)"

locale page_map =
  fixes inv :: "'s \<Rightarrow> bool" and abs :: "'s \<Rightarrow> 'k \<rightharpoonup> 'v" and ok :: "'k \<Rightarrow> bool"
    and set_page :: "'k \<Rightarrow> 'v \<Rightarrow> 's \<Rightarrow> 's option" and clear_page :: "'k \<Rightarrow> 's \<Rightarrow> 's option"
  assumes set_page: "inv s \<Longrightarrow> set_page k v s = Some s' \<Longrightarrow> inv s' \<and> abs s k = None \<and> abs s' = (abs s)(k \<mapsto> v)"
    and clear_page: "inv s \<Longrightarrow> ok k \<Longrightarrow> \<exists>s'. clear_page k s = Some s' \<and> inv s' \<and> abs s' = (abs s)(k := None)"
begin

lemma set_clear:
  assumes "inv s" "ok k" "set_page k v s = Some s'"
  shows "\<exists>s''. clear_page k s' = Some s'' \<and> inv s'' \<and> abs s'' = abs s"
  using set_page [OF assms(1,3)] clear_page [OF _ assms(2), of s'] by (auto simp: fun_upd_idem)

lemma map_all_abs:
  "inv s \<Longrightarrow> map_all set_page kvs s = Some s' \<Longrightarrow>
   inv s' \<and> distinct (map fst kvs) \<and> (\<forall>k\<in>set (map fst kvs). abs s k = None) \<and> abs s' = abs s ++ map_of kvs"
proof (induction kvs arbitrary: s)
  case (Cons kv kvs)
  obtain k v where kv: "kv = (k, v)" by force
  from Cons.prems(2) obtain s1 where s1: "set_page k v s = Some s1" "map_all set_page kvs s1 = Some s'"
    by (auto simp: kv split: Option.bind_splits)
  note a = set_page [OF Cons.prems(1) s1(1)]
  from Cons.IH [OF _ s1(2)] a have b: "inv s'" "distinct (map fst kvs)" "\<forall>k\<in>set (map fst kvs). abs s1 k = None" "abs s' = abs s1 ++ map_of kvs"
    by blast+
  have "k \<notin> fst ` set kvs" using a b(3) by auto
  then have "abs s' = abs s ++ map_of (kv # kvs)"
    using a b(4) by (auto simp: kv map_add_def fun_eq_iff map_of_eq_None_iff split: option.splits)
  moreover have "\<forall>k'\<in>set (map fst (kv # kvs)). abs s k' = None" using a b(3) by (auto simp: kv split: if_splits)
  moreover have "distinct (map fst (kv # kvs))" using b(2) \<open>k \<notin> fst ` set kvs\<close> by (simp add: kv)
  ultimately show ?case using b(1) by blast
qed simp

end

section \<open>Page directories as page maps\<close>

definition pd_map :: "'m mmu_scheme \<Rightarrow> u32 set \<Rightarrow> 'v vm_scheme \<Rightarrow> u32 \<times> u32 \<rightharpoonup> u32 \<times> bool" where
  "pd_map M D vm k = (case k of (pd, va) \<Rightarrow>
     if pd \<in> D \<and> is_user_vaddr M va \<and> pg_ofs M va = 0 \<and> is_set (pte_val M vm pd va) (PTE_P M)
     then Some (pte_get_page M (pte_val M vm pd va), is_set (pte_val M vm pd va) (PTE_W M)) else None)"

definition pd_key_ok :: "'m mmu_scheme \<Rightarrow> u32 set \<Rightarrow> u32 \<times> u32 \<Rightarrow> bool" where
  "pd_key_ok M D k \<longleftrightarrow> fst k \<in> D \<and> is_user_vaddr M (snd k) \<and> pg_ofs M (snd k) = 0"

definition pd_set :: "'m mmu_scheme \<Rightarrow> u32 set \<Rightarrow> u32 \<times> u32 \<Rightarrow> u32 \<times> bool \<Rightarrow> 'v vm_scheme \<Rightarrow> 'v vm_scheme option" where
  "pd_set M D k v vm = (if fst k \<in> D then map_option snd (pagedir_set_page M (fst k) (snd k) (fst v) (snd v) vm) else None)"

definition pd_clear :: "'m mmu_scheme \<Rightarrow> u32 \<times> u32 \<Rightarrow> 'v vm_scheme \<Rightarrow> 'v vm_scheme option" where
  "pd_clear M k vm = pagedir_clear_page M (fst k) (snd k) vm"

lemma same_page:
  "mmu_ok M \<Longrightarrow> same_slot M va va' \<Longrightarrow> pg_ofs M va = 0 \<Longrightarrow> pg_ofs M va' = 0 \<Longrightarrow> va' = va"
  by (auto simp: mmu_ok_def addr_ok_def)

lemma pd_map_upd:
  assumes M: "mmu_ok M" and u: "vm_upd M D vm pd va e vm'" and k: "pd \<in> D" "is_user_vaddr M va" "pg_ofs M va = 0"
  shows "pd_map M D vm' = (pd_map M D vm)((pd, va) := (if is_set e (PTE_P M) then Some (pte_get_page M e, is_set e (PTE_W M)) else None))"
proof
  fix x :: "u32 \<times> u32"
  obtain p v where x: "x = (p, v)" by force
  show "pd_map M D vm' x = ((pd_map M D vm)((pd, va) := (if is_set e (PTE_P M) then Some (pte_get_page M e, is_set e (PTE_W M)) else None))) x"
  proof (cases "p \<in> D \<and> is_user_vaddr M v \<and> pg_ofs M v = 0")
    case True
    then have "pte_val M vm' p v = (if p = pd \<and> v = va then e else pte_val M vm p v)"
      using vm_updD(5) [OF u, of p v] same_page [OF M _ k(3), of v] by auto
    then show ?thesis using True by (auto simp: pd_map_def x)
  qed (use k in \<open>auto simp: pd_map_def x\<close>)
qed

lemma set_page_pre_holds:
  assumes M: "mmu_ok M" and wf: "vm_wf M D vm" "pd \<in> D" and r: "pagedir_set_page M pd va kpage w vm = Some r"
  shows "set_page_pre M vm pd va kpage \<and> \<not> is_set (pte_val M vm pd va) (PTE_P M)"
proof -
  from r have a: "pg_ofs M va = 0" "pg_ofs M kpage = 0" "is_user_vaddr M va"
    "drop_bit (PTSHIFT M) (vtop M kpage) < init_ram_pages M" "pd \<noteq> init_page_dir vm"
    by (auto simp: pagedir_set_page_def kernel_simps)
  show ?thesis
  proof (cases "user_table M vm pd (pd_no M va)")
    case None
    have "palloc_get_page M (pages vm) \<noteq> None"
    proof
      assume "palloc_get_page M (pages vm) = None"
      then have "lookup_page M pd va True vm = Some (None, vm)"
        using lookup_page_create [OF M wf a(3) None] by simp
      then show False using r by (simp add: pagedir_set_page_def kernel_simps)
    qed
    then show ?thesis using a None by (simp add: set_page_pre_def pte_val_def pte_at_def)
  next
    case (Some pt)
    obtain e where e: "get_pte (pt, pt_no M va) vm = Some e" "pte_at M vm pd va = Some e" using get_pte_at [OF M wf a(3) Some] by blast
    obtain dir where d: "pages vm pd = Some dir" "length dir = 1024" "pd \<noteq> 0" using vm_wf_dir [OF wf] .
    have "lookup_page M pd va True vm = Some (Some (pt, pt_no M va), vm)"
      using Some d a(3) mmu_okD(1) [OF M, of va] by (auto simp: lookup_page_def get_pte_in user_table_def split: if_splits)
    then have "\<not> is_set e (PTE_P M)" using r e by (auto simp: pagedir_set_page_def kernel_simps)
    then show ?thesis using a e by (simp add: set_page_pre_def pte_val_def)
  qed
qed

lemma created_entry:
  "mmu_ok M \<Longrightarrow> pg_ofs M p = 0 \<Longrightarrow> is_set (pte_create_user M p w) (PTE_P M) \<and> pte_get_page M (pte_create_user M p w) = p \<and>
   (is_set (pte_create_user M p w) (PTE_W M) \<longleftrightarrow> w)"
  by (simp add: mmu_ok_def entries_ok_def)

lemma pd_set_law:
  assumes M: "mmu_ok M" and wf: "vm_wf M D vm" and s: "pd_set M D k v vm = Some vm'"
  shows "vm_wf M D vm' \<and> pd_map M D vm k = None \<and> pd_map M D vm' = (pd_map M D vm)(k \<mapsto> v)"
proof -
  obtain pd va kp w where kv: "k = (pd, va)" "v = (kp, w)" by (metis surj_pair)
  obtain r where pd: "pd \<in> D" and r: "pagedir_set_page M pd va kp w vm = Some r" "vm' = snd r"
    using s by (auto simp: pd_set_def kv split: if_splits)
  note pre = set_page_pre_holds [OF M wf pd r(1)]
  have u: "vm_upd M D vm pd va (pte_create_user M kp w) vm'"
    using pagedir_set_page_spec [OF M wf pd, of va kp w] pre r by auto
  have a: "is_user_vaddr M va" "pg_ofs M va = 0" "pg_ofs M kp = 0" using pre by (simp_all add: set_page_pre_def)
  show ?thesis using vm_updD(1) [OF u] pd_map_upd [OF M u pd a(1,2)] created_entry [OF M a(3), of w] pre
    by (simp add: kv) (simp add: pd_map_def)
qed

lemma clear_P: "(e AND NOT f) AND f = 0" for e f :: u32
  by (rule bit_word_eqI) (auto simp: bit_simps)

lemma pd_clear_law:
  assumes M: "mmu_ok M" and wf: "vm_wf M D vm" and k: "pd_key_ok M D k"
  shows "\<exists>vm'. pd_clear M k vm = Some vm' \<and> vm_wf M D vm' \<and> pd_map M D vm' = (pd_map M D vm)(k := None)"
proof -
  obtain pd va where kv: "k = (pd, va)" by force
  have a: "pd \<in> D" "is_user_vaddr M va" "pg_ofs M va = 0" using k by (simp_all add: pd_key_ok_def kv)
  obtain vm' where c: "pagedir_clear_page M pd va vm = Some vm'"
    "vm_upd M D vm pd va (if is_set (pte_val M vm pd va) (PTE_P M) then pte_val M vm pd va AND NOT (PTE_P M) else pte_val M vm pd va) vm'"
    using pagedir_clear_page_spec [OF M wf a] by blast
  have "pd_map M D vm' = (pd_map M D vm)(k := None)"
    using pd_map_upd [OF M c(2) a] by (auto simp: kv clear_P)
  then show ?thesis using c(1) vm_updD(1) [OF c(2)] by (simp add: pd_clear_def kv)
qed

interpretation pdm: page_map "\<lambda>vm. mmu_ok M \<and> vm_wf M D vm" "pd_map M D" "pd_key_ok M D" "pd_set M D" "pd_clear M"
  for M D
  using pd_set_law pd_clear_law by unfold_locales (blast, blast)

end
