(* ===== verification/Swap.thy ===== *)
theory Swap
  imports Free_Map
begin

text \<open>
  Swap space, \<open>virtual-memory/vm/swap.c\<close>: slots of eight sectors on the swap device, handed
  out in order and reused once they are read back.

  The device, its size and \<open>malloc\<close> are not part of the sources: the device operations are
  those of the block layer, and \<open>slot_malloc\<close> chooses a pointer given the slots allocated so
  far. A \<open>struct swap_slot\<close> is its pointer; \<open>slots\<close> holds its first sector. The swap lock
  is held for whole updates of the lists and never waited for with other locks held.
\<close>

section \<open>State\<close>

record 'd swap =
  slots :: "nat \<rightharpoonup> sector"
  next_sector :: sector
  swap_occupied :: "nat list"
  swap_unoccupied :: "nat list"
  swap_dev :: 'd

record 'd swap_ops =
  swap_bd :: "'d blockdev"
  swap_size :: sector
  slot_malloc :: "(nat \<rightharpoonup> sector) \<Rightarrow> nat option"

abbreviation SWAP_SLOT_NUM_SECTORS :: nat where
  "SWAP_SLOT_NUM_SECTORS \<equiv> 8"

section \<open>Operations\<close>

definition get_slot :: "'d swap_ops \<Rightarrow> 'd swap \<Rightarrow> (nat option \<times> 'd swap) option" where
  "get_slot ops s =
     (case swap_unoccupied s of
        [] \<Rightarrow>
          if swap_size ops \<le> next_sector s then Some (None, s)
          else do {
            ss \<leftarrow> slot_malloc ops (slots s);
            Some (Some ss, s\<lparr>slots := (slots s)(ss \<mapsto> next_sector s), next_sector := next_sector s + of_nat SWAP_SLOT_NUM_SECTORS,
                             swap_occupied := swap_occupied s @ [ss]\<rparr>)
          }
      | ss # rest \<Rightarrow> Some (Some ss, s\<lparr>swap_unoccupied := rest, swap_occupied := swap_occupied s @ [ss]\<rparr>))"

definition swap_init :: "'d \<Rightarrow> 'd swap \<Rightarrow> 'd swap" where
  "swap_init d s = s\<lparr>swap_occupied := [], swap_unoccupied := [], next_sector := 0, swap_dev := d\<rparr>"

text \<open>\<open>list_remove\<close> takes the slot off the list it is on.\<close>

definition put_slot :: "nat \<Rightarrow> 'd swap \<Rightarrow> 'd swap option" where
  "put_slot ss s = do {
     first \<leftarrow> slots s ss;
     Some (s\<lparr>swap_occupied := remove1 ss (swap_occupied s), swap_unoccupied := remove1 ss (swap_unoccupied s) @ [ss]\<rparr>)
   }"

definition read_slot :: "'d blockdev \<Rightarrow> 'd \<Rightarrow> sector \<Rightarrow> byte list \<Rightarrow> byte list" where
  "read_slot bd d first kpage =
     fold (\<lambda>i pg. memcpy_at (i * 512) (block_read bd d (first + of_nat i)) pg) [0..<SWAP_SLOT_NUM_SECTORS] kpage"

definition swap_in :: "'d swap_ops \<Rightarrow> nat \<Rightarrow> byte list \<Rightarrow> 'd swap \<Rightarrow> (bool \<times> byte list \<times> 'd swap) option" where
  "swap_in ops ss kpage s = do {
     first \<leftarrow> slots s ss;
     let kpage' = read_slot (swap_bd ops) (swap_dev s) first kpage;
     s' \<leftarrow> put_slot ss s;
     Some (True, kpage', s')
   }"

definition write_slot :: "'d blockdev \<Rightarrow> sector \<Rightarrow> byte list \<Rightarrow> 'd \<Rightarrow> 'd" where
  "write_slot bd first kpage d =
     fold (\<lambda>i d. block_write bd d (first + of_nat i) (take 512 (drop (i * 512) kpage))) [0..<SWAP_SLOT_NUM_SECTORS] d"

text \<open>A null pointer returned by \<open>get_slot\<close> is dereferenced.\<close>

definition swap_out :: "'d swap_ops \<Rightarrow> byte list \<Rightarrow> 'd swap \<Rightarrow> (nat \<times> 'd swap) option" where
  "swap_out ops kpage s = do {
     (slot, s1) \<leftarrow> get_slot ops s;
     ss \<leftarrow> slot;
     first \<leftarrow> slots s1 ss;
     Some (ss, s1\<lparr>swap_dev := write_slot (swap_bd ops) first kpage (swap_dev s1)\<rparr>)
   }"

section \<open>Slots\<close>

text \<open>
  The slots are consecutive, start at multiples of eight sectors, and each of them is on one
  of the two lists. The size leaves room for one slot below \<open>2 ^ 32\<close>.
\<close>

definition swap_inv :: "'d swap_ops \<Rightarrow> 'd swap \<Rightarrow> bool" where
  "swap_inv ops s \<longleftrightarrow> blockdev_ok (swap_bd ops) \<and> device_ok (swap_bd ops) (swap_dev s) \<and>
     (\<forall>m p. slot_malloc ops m = Some p \<longrightarrow> m p = None) \<and> unat (swap_size ops) + 8 \<le> 2 ^ 32 \<and>
     distinct (swap_occupied s @ swap_unoccupied s) \<and> set (swap_occupied s @ swap_unoccupied s) = dom (slots s) \<and>
     (\<exists>K. next_sector s = of_nat (8 * K) \<and> 8 * K < unat (swap_size ops) + 8 \<and>
        (\<forall>p f. slots s p = Some f \<longrightarrow> (\<exists>k<K. f = of_nat (8 * k)))) \<and>
     (\<forall>p q f. slots s p = Some f \<longrightarrow> slots s q = Some f \<longrightarrow> p = q)"

lemma swap_invD:
  assumes "swap_inv ops s"
  shows "blockdev_ok (swap_bd ops)" "device_ok (swap_bd ops) (swap_dev s)" "slot_malloc ops m = Some p \<Longrightarrow> m p = None"
    "unat (swap_size ops) + 8 \<le> 2 ^ 32" "distinct (swap_occupied s)" "distinct (swap_unoccupied s)"
    "set (swap_occupied s) \<inter> set (swap_unoccupied s) = {}" "set (swap_occupied s) \<union> set (swap_unoccupied s) = dom (slots s)"
    "slots s p' = Some f \<Longrightarrow> slots s q = Some f \<Longrightarrow> p' = q"
  using assms by (simp_all add: swap_inv_def)

lemma swap_inv_next:
  assumes "swap_inv ops s"
  obtains K where "next_sector s = of_nat (8 * K)" "8 * K < unat (swap_size ops) + 8"
    "\<And>p f. slots s p = Some f \<Longrightarrow> \<exists>k<K. f = of_nat (8 * k)"
  using assms unfolding swap_inv_def by blast

lemma unat_sector: "n < 2 ^ 32 \<Longrightarrow> unat (of_nat n :: sector) = n"
  unfolding unsigned_of_nat by (simp add: take_bit_nat_eq_self)

lemma slot_sector:
  assumes "8 * k + 8 \<le> 2 ^ 32" "i < 8"
  shows "unat ((of_nat (8 * k) :: sector) + of_nat i) = 8 * k + i"
proof -
  have "(of_nat (8 * k) :: sector) + of_nat i = of_nat (8 * k + i)" by simp
  then show ?thesis using unat_sector [of "8 * k + i"] assms by simp
qed

text \<open>Taking a new slot, an old one, and giving one back.\<close>

lemma get_slot_inv:
  assumes inv: "swap_inv ops s" and g: "get_slot ops s = Some (r, s')"
  shows "swap_inv ops s' \<and> (case r of
      None \<Rightarrow> s' = s
    | Some ss \<Rightarrow> ss \<notin> set (swap_occupied s) \<and> swap_occupied s' = swap_occupied s @ [ss] \<and> slots s \<subseteq>\<^sub>m slots s' \<and>
        ss \<in> dom (slots s') \<and> swap_dev s' = swap_dev s)"
proof (cases "swap_unoccupied s")
  case (Cons x rest)
  then have s': "r = Some x" "s' = s\<lparr>swap_unoccupied := rest, swap_occupied := swap_occupied s @ [x]\<rparr>"
    using g by (simp_all add: get_slot_def)
  have "distinct ((swap_occupied s @ [x]) @ rest)" "set ((swap_occupied s @ [x]) @ rest) = dom (slots s)"
    using swap_invD(5-8) [OF inv] by (auto simp: Cons)
  then have "swap_inv ops s'" using inv unfolding swap_inv_def s'(2) by simp
  then show ?thesis using s' swap_invD(7,8) [OF inv] by (auto simp: Cons)
next
  case Nil
  show ?thesis
  proof (cases "swap_size ops \<le> next_sector s")
    case True
    then show ?thesis using Nil g inv by (simp add: get_slot_def)
  next
    case False
    then obtain p where p: "slot_malloc ops (slots s) = Some p" "r = Some p"
      "s' = s\<lparr>slots := (slots s)(p \<mapsto> next_sector s), next_sector := next_sector s + 8, swap_occupied := swap_occupied s @ [p]\<rparr>"
      using Nil g by (auto simp: get_slot_def split: Option.bind_splits)
    have n: "slots s p = None" using swap_invD(3) [OF inv p(1)] .
    obtain K where K: "next_sector s = of_nat (8 * K)" "8 * K < unat (swap_size ops) + 8"
      "\<And>p f. slots s p = Some f \<Longrightarrow> \<exists>k<K. f = of_nat (8 * k)" using swap_inv_next [OF inv] by blast
    have b: "8 * K < 2 ^ 32" using K(2) swap_invD(4) [OF inv] by linarith
    have lt: "8 * K < unat (swap_size ops)" using False K(1) unat_sector [OF b] by (simp add: word_le_nat_alt)
    have old: "f \<noteq> next_sector s" if f: "slots s q = Some f" for q f
    proof -
      obtain k where k: "k < K" "f = of_nat (8 * k)" using K(3) [OF f] by blast
      have "unat f = 8 * k" unfolding k(2) by (rule unat_sector) (use k(1) b in linarith)
      moreover have "unat (next_sector s) = 8 * K" unfolding K(1) by (rule unat_sector [OF b])
      ultimately show ?thesis using k(1) by auto
    qed
    have "next_sector s' = of_nat (8 * Suc K)" "8 * Suc K < unat (swap_size ops) + 8" using K(1) lt by (simp_all add: p(3))
    moreover have "\<exists>k<Suc K. f = of_nat (8 * k)" if "slots s' q = Some f" for q f
      using that K(1,3) by (auto simp: p(3) less_Suc_eq split: if_splits)
    ultimately have 1: "\<exists>K. next_sector s' = of_nat (8 * K) \<and> 8 * K < unat (swap_size ops) + 8 \<and>
        (\<forall>p f. slots s' p = Some f \<longrightarrow> (\<exists>k<K. f = of_nat (8 * k)))" by blast
    have 2: "\<forall>a b f. slots s' a = Some f \<longrightarrow> slots s' b = Some f \<longrightarrow> a = b"
      using swap_invD(9) [OF inv] old by (simp add: p(3)) blast
    have 3: "distinct (swap_occupied s' @ swap_unoccupied s')" "set (swap_occupied s' @ swap_unoccupied s') = dom (slots s')"
      using swap_invD(5,8) [OF inv] n Nil by (auto simp: p(3))
    have "swap_dev s' = swap_dev s" by (simp add: p(3))
    then have "swap_inv ops s'" unfolding swap_inv_def using inv 1 2 3 unfolding swap_inv_def by presburger
    then show ?thesis using p n swap_invD(8) [OF inv] Nil by (auto simp: map_le_def)
  qed
qed

lemma swap_inv_lists:
  "swap_inv ops s \<Longrightarrow> distinct (os @ us) \<Longrightarrow> set (os @ us) = dom (slots s) \<Longrightarrow>
   swap_inv ops (s\<lparr>swap_occupied := os, swap_unoccupied := us\<rparr>)"
  by (simp add: swap_inv_def)

lemma put_slot_inv:
  assumes inv: "swap_inv ops s" and ss: "ss \<in> dom (slots s)"
  shows "\<exists>s'. put_slot ss s = Some s' \<and> swap_inv ops s' \<and> set (swap_occupied s') = set (swap_occupied s) - {ss} \<and>
    slots s' = slots s \<and> swap_dev s' = swap_dev s"
proof -
  note d = swap_invD(5-8) [OF inv]
  let ?s = "s\<lparr>swap_occupied := remove1 ss (swap_occupied s), swap_unoccupied := remove1 ss (swap_unoccupied s) @ [ss]\<rparr>"
  have "swap_inv ops ?s" by (rule swap_inv_lists [OF inv]) (use d ss in auto)
  moreover have "put_slot ss s = Some ?s" using ss by (auto simp: put_slot_def)
  ultimately show ?thesis using d(1) by simp
qed

definition swap_alloc :: "'d swap_ops \<Rightarrow> 'd swap \<Rightarrow> nat option \<times> 'd swap" where
  "swap_alloc ops s = (case get_slot ops s of None \<Rightarrow> (None, s) | Some r \<Rightarrow> r)"

interpretation sw: allocator "swap_inv ops" "\<lambda>s. set (swap_occupied s)" "swap_alloc ops" put_slot
  for ops :: "'d swap_ops"
proof
  fix s s' :: "'d swap" and x
  assume inv: "swap_inv ops s"
  show "swap_inv ops s' \<and> x \<notin> set (swap_occupied s) \<and> set (swap_occupied s') = insert x (set (swap_occupied s))"
    if "swap_alloc ops s = (Some x, s')"
    using get_slot_inv [OF inv, of "Some x" s'] that by (auto simp: swap_alloc_def split: option.splits)
  show "swap_inv ops s' \<and> set (swap_occupied s') = set (swap_occupied s)" if "swap_alloc ops s = (None, s')"
    using get_slot_inv [OF inv, of None s'] that inv by (auto simp: swap_alloc_def split: option.splits)
  show "\<exists>s'. put_slot x s = Some s' \<and> swap_inv ops s' \<and> set (swap_occupied s') = set (swap_occupied s) - {x}"
    if "x \<in> set (swap_occupied s)" using put_slot_inv [OF inv, of x] that swap_invD(8) [OF inv] by blast
qed

section \<open>Contents\<close>

definition slot_data :: "'d blockdev \<Rightarrow> 'd \<Rightarrow> sector \<Rightarrow> byte list" where
  "slot_data bd d first = concat (map (\<lambda>i. block_read bd d (first + of_nat i)) [0..<8])"

lemma sectors_distinct: "i < 8 \<Longrightarrow> j < 8 \<Longrightarrow> (f :: sector) + of_nat i = f + of_nat j \<Longrightarrow> i = j"
  using slot_sector [of 0 i] slot_sector [of 0 j] by simp

lemma write_sectors:
  fixes f :: sector
  assumes bd: "blockdev_ok bd" and d: "device_ok bd d" and n: "n \<le> 8" and len: "length kpage = 4096"
  defines "D k \<equiv> fold (\<lambda>i d. block_write bd d (f + of_nat i) (take 512 (drop (i * 512) kpage))) [0..<k] d"
  shows "device_ok bd (D n) \<and> (\<forall>i<n. block_read bd (D n) (f + of_nat i) = take 512 (drop (i * 512) kpage)) \<and>
    (\<forall>t. (\<forall>i<n. t \<noteq> f + of_nat i) \<longrightarrow> block_read bd (D n) t = block_read bd d t)"
  using n
proof (induction n)
  case (Suc n)
  let ?c = "take 512 (drop (n * 512) kpage)"
  have l: "length ?c = 512" using Suc.prems len by simp
  have ih: "device_ok bd (D n)" "\<And>i. i < n \<Longrightarrow> block_read bd (D n) (f + of_nat i) = take 512 (drop (i * 512) kpage)"
    "\<And>t. (\<forall>i<n. t \<noteq> f + of_nat i) \<Longrightarrow> block_read bd (D n) t = block_read bd d t" using Suc by simp_all
  have e: "D (Suc n) = block_write bd (D n) (f + of_nat n) ?c" by (simp add: D_def)
  have w: "device_ok bd (D (Suc n))" "block_read bd (D (Suc n)) (f + of_nat n) = ?c"
    "\<And>t. t \<noteq> f + of_nat n \<Longrightarrow> block_read bd (D (Suc n)) t = block_read bd (D n) t"
    using bd ih(1) l unfolding e blockdev_ok_def by blast+
  have "block_read bd (D (Suc n)) (f + of_nat i) = take 512 (drop (i * 512) kpage)" if "i < Suc n" for i
  proof (cases "i = n")
    case False
    then have "i < n" "f + of_nat i \<noteq> f + of_nat n" using that sectors_distinct [of i n f] Suc.prems by auto
    then show ?thesis using w(3) ih(2) by simp
  qed (simp add: w(2))
  moreover have "block_read bd (D (Suc n)) t = block_read bd d t" if "\<forall>i<Suc n. t \<noteq> f + of_nat i" for t
    using w(3) [of t] ih(3) [of t] that by simp
  ultimately show ?case using w(1) by blast
qed (use d in \<open>simp add: D_def\<close>)

lemma write_slot_read:
  assumes bd: "blockdev_ok bd" "device_ok bd d" and len: "length kpage = 4096"
  shows "device_ok bd (write_slot bd f kpage d)"
    "i < 8 \<Longrightarrow> block_read bd (write_slot bd f kpage d) (f + of_nat i) = take 512 (drop (i * 512) kpage)"
    "\<forall>i<8. t \<noteq> f + of_nat i \<Longrightarrow> block_read bd (write_slot bd f kpage d) t = block_read bd d t"
  using write_sectors [OF bd _ len, of 8 f, folded write_slot_def] by blast+

lemma chunks: "n * 512 \<le> length xs \<Longrightarrow> concat (map (\<lambda>i. take 512 (drop (i * 512) xs)) [0..<n]) = take (n * 512) xs"
proof (induction n)
  case (Suc n)
  have "take (Suc n * 512) xs = take (n * 512) xs @ take 512 (drop (n * 512) xs)"
    using take_add [of "n * 512" 512 xs] by (simp add: add.commute)
  then show ?case using Suc by simp
qed simp

lemma write_slot_data:
  assumes "blockdev_ok bd" "device_ok bd d" "length kpage = 4096"
  shows "slot_data bd (write_slot bd f kpage d) f = kpage"
proof -
  have "slot_data bd (write_slot bd f kpage d) f = concat (map (\<lambda>i. take 512 (drop (i * 512) kpage)) [0..<8])"
    unfolding slot_data_def using write_slot_read(2) [OF assms] by (intro arg_cong [of _ _ concat] map_cong) simp_all
  then show ?thesis using chunks [of 8 kpage] assms(3) by simp
qed

lemma write_slot_other:
  assumes "blockdev_ok bd" "device_ok bd d" "length kpage = 4096" "\<And>i j. i < 8 \<Longrightarrow> j < 8 \<Longrightarrow> g + of_nat j \<noteq> f + of_nat i"
  shows "slot_data bd (write_slot bd f kpage d) g = slot_data bd d g"
  unfolding slot_data_def using write_slot_read(3) [OF assms(1-3)] assms(4) by (intro arg_cong [of _ _ concat] map_cong) auto

lemma read_sectors:
  assumes bd: "blockdev_ok bd" "device_ok bd d" and len: "length kpage = 4096"
  shows "n \<le> 8 \<Longrightarrow> fold (\<lambda>i pg. memcpy_at (i * 512) (block_read bd d (f + of_nat i)) pg) [0..<n] kpage =
    concat (map (\<lambda>i. block_read bd d (f + of_nat i)) [0..<n]) @ drop (n * 512) kpage"
proof (induction n)
  case (Suc n)
  let ?c = "concat (map (\<lambda>i. block_read bd d (f + of_nat i)) [0..<n])"
  have l: "length (block_read bd d s) = 512" for s using bd by (simp add: blockdev_ok_def)
  have lc: "length ?c = n * 512" by (induction n) (simp_all add: l)
  have "drop (n * 512 + 512 - length ?c) (drop (n * 512) kpage) = drop (Suc n * 512) kpage" using lc by (simp add: add.commute)
  then show ?case using Suc lc by (simp add: memcpy_at_def l)
qed simp

lemma read_slot_data:
  assumes "blockdev_ok bd" "device_ok bd d" "length kpage = 4096"
  shows "read_slot bd d f kpage = slot_data bd d f"
  using read_sectors [OF assms, of 8 f] assms(3) by (simp add: read_slot_def slot_data_def)

section \<open>Swap space as a map from slots to pages\<close>

definition swap_map :: "'d swap_ops \<Rightarrow> 'd swap \<Rightarrow> nat \<rightharpoonup> byte list" where
  "swap_map ops s ss = (if ss \<in> set (swap_occupied s) then map_option (slot_data (swap_bd ops) (swap_dev s)) (slots s ss) else None)"

definition swap_full :: "'d swap_ops \<Rightarrow> 'd swap \<Rightarrow> bool" where
  "swap_full ops s \<longleftrightarrow> swap_unoccupied s = [] \<and> swap_size ops \<le> next_sector s"

lemma slots_apart:
  assumes inv: "swap_inv ops s" and f: "slots s p = Some f" "slots s q = Some g" "p \<noteq> q" and ij: "i < 8" "j < 8"
  shows "g + of_nat j \<noteq> f + of_nat i"
proof -
  obtain K where K: "8 * K < unat (swap_size ops) + 8" "\<And>p f. slots s p = Some f \<Longrightarrow> \<exists>k<K. f = of_nat (8 * k)"
    using swap_inv_next [OF inv] by blast
  obtain k l where kl: "k < K" "f = of_nat (8 * k)" "l < K" "g = of_nat (8 * l)" using K(2) f(1,2) by metis
  have b: "8 * k + 8 \<le> 2 ^ 32" "8 * l + 8 \<le> 2 ^ 32" using kl(1,3) K(1) swap_invD(4) [OF inv] by linarith+
  have "k \<noteq> l" using swap_invD(9) [OF inv f(1)] f(2,3) kl(2,4) by blast
  then have "8 * k + i \<noteq> 8 * l + j" using ij by linarith
  then show ?thesis unfolding kl(2,4) using slot_sector [OF b(1) ij(1)] slot_sector [OF b(2) ij(2)] by metis
qed

lemma swap_out_map:
  assumes inv: "swap_inv ops s" and len: "length kpage = 4096" and o: "swap_out ops kpage s = Some (ss, s')"
  shows "swap_inv ops s' \<and> swap_map ops s ss = None \<and> swap_map ops s' = (swap_map ops s)(ss \<mapsto> kpage)"
proof -
  obtain s1 f where g: "get_slot ops s = Some (Some ss, s1)" "slots s1 ss = Some f"
    "s' = s1\<lparr>swap_dev := write_slot (swap_bd ops) f kpage (swap_dev s1)\<rparr>"
    using o by (auto simp: swap_out_def split: Option.bind_splits prod.splits)
  have i: "swap_inv ops s1" "ss \<notin> set (swap_occupied s)" "swap_occupied s1 = swap_occupied s @ [ss]" "slots s \<subseteq>\<^sub>m slots s1"
    "swap_dev s1 = swap_dev s" using get_slot_inv [OF inv g(1)] by simp_all
  note bd = swap_invD(1,2) [OF i(1)]
  have "swap_inv ops s'" using i(1) write_slot_read(1) [OF bd len] unfolding g(3) swap_inv_def by simp
  moreover have "swap_map ops s' p = ((swap_map ops s)(ss \<mapsto> kpage)) p" for p
  proof (cases "p = ss")
    case True
    then show ?thesis using g(2,3) i(3) write_slot_data [OF bd len] by (simp add: swap_map_def)
  next
    case False
    show ?thesis
    proof (cases "p \<in> set (swap_occupied s)")
      case True
      then obtain h where h: "slots s p = Some h" using swap_invD(8) [OF inv] by blast
      then have h1: "slots s1 p = Some h" using i(4) by (auto simp: map_le_def dom_def)
      have "slot_data (swap_bd ops) (write_slot (swap_bd ops) f kpage (swap_dev s)) h = slot_data (swap_bd ops) (swap_dev s) h"
        using write_slot_other [OF bd len] slots_apart [OF i(1) g(2) h1] False i(5) by auto
      then show ?thesis using True False h h1 i(3,5) by (simp add: swap_map_def g(3))
    qed (use False i(3) in \<open>simp add: swap_map_def g(3)\<close>)
  qed
  ultimately show ?thesis using i(2) by (simp add: swap_map_def fun_eq_iff)
qed

lemma swap_in_map:
  assumes inv: "swap_inv ops s" and len: "length kpage = 4096" and ss: "slots s ss = Some f"
  shows "\<exists>s'. swap_in ops ss kpage s = Some (True, slot_data (swap_bd ops) (swap_dev s) f, s') \<and>
    swap_inv ops s' \<and> swap_map ops s' = (swap_map ops s)(ss := None)"
proof -
  obtain s' where s': "put_slot ss s = Some s'" "swap_inv ops s'" "set (swap_occupied s') = set (swap_occupied s) - {ss}"
    "slots s' = slots s" "swap_dev s' = swap_dev s" using put_slot_inv [OF inv, of ss] ss by blast
  have "swap_in ops ss kpage s = Some (True, slot_data (swap_bd ops) (swap_dev s) f, s')"
    using ss s'(1) read_slot_data [OF swap_invD(1,2) [OF inv] len] by (simp add: swap_in_def)
  moreover have "swap_map ops s' = (swap_map ops s)(ss := None)" using s'(3-5) by (auto simp: swap_map_def fun_eq_iff)
  ultimately show ?thesis using s'(2) by blast
qed

lemma swap_mapD: "swap_map ops s ss = Some data \<Longrightarrow> \<exists>f. slots s ss = Some f \<and> data = slot_data (swap_bd ops) (swap_dev s) f"
  by (auto simp: swap_map_def split: if_splits)

lemma swap_out_returns:
  assumes inv: "swap_inv ops s" and nf: "\<not> swap_full ops s" "slot_malloc ops (slots s) \<noteq> None"
  shows "\<exists>ss s'. swap_out ops kpage s = Some (ss, s')"
proof -
  obtain ss s1 where g: "get_slot ops s = Some (Some ss, s1)"
    using nf by (cases "swap_unoccupied s") (auto simp: get_slot_def swap_full_def)
  then show ?thesis using get_slot_inv [OF inv g] by (auto simp: swap_out_def)
qed

lemma swap_out_full: "swap_full ops s \<Longrightarrow> swap_out ops kpage s = None"
  by (simp add: swap_out_def get_slot_def swap_full_def)

section \<open>Properties\<close>

text \<open>A sequence of evictions and of pages brought back.\<close>

datatype swap_op = Out "byte list" | In nat

fun swap_run :: "'d swap_ops \<Rightarrow> swap_op list \<Rightarrow> 'd swap \<Rightarrow> 'd swap option" where
  "swap_run ops [] s = Some s"
| "swap_run ops (Out kpage # xs) s = Option.bind (swap_out ops kpage s) (\<lambda>(ss, s'). swap_run ops xs s')"
| "swap_run ops (In ss # xs) s = Option.bind (swap_in ops ss (replicate 4096 0) s) (\<lambda>(ok, kpage, s'). swap_run ops xs s')"

definition page_sized :: "swap_op list \<Rightarrow> bool" where
  "page_sized xs = list_all (\<lambda>x. case x of Out kpage \<Rightarrow> length kpage = 4096 | In ss \<Rightarrow> True) xs"

lemma swap_run_keeps:
  "swap_inv ops s \<Longrightarrow> page_sized xs \<Longrightarrow> swap_run ops xs s = Some s' \<Longrightarrow>
   swap_inv ops s' \<and> (\<forall>ss data. In ss \<notin> set xs \<longrightarrow> swap_map ops s ss = Some data \<longrightarrow> swap_map ops s' ss = Some data)"
proof (induction ops xs s rule: swap_run.induct)
  case (2 ops kpage xs s)
  obtain ss s1 where o: "swap_out ops kpage s = Some (ss, s1)" "swap_run ops xs s1 = Some s'"
    using 2(4) by (auto split: Option.bind_splits)
  have l: "length kpage = 4096" "page_sized xs" using 2(3) by (simp_all add: page_sized_def)
  note m = swap_out_map [OF 2(2) l(1) o(1)]
  from 2(1) [OF o(1) refl _ l(2) o(2)] m
  have "swap_inv ops s'" "\<forall>q data. In q \<notin> set xs \<longrightarrow> swap_map ops s1 q = Some data \<longrightarrow> swap_map ops s' q = Some data" by blast+
  moreover have "swap_map ops s1 q = Some data" if "swap_map ops s q = Some data" for q data using m that by auto
  ultimately show ?case by simp
next
  case (3 ops q xs s)
  obtain r pg s1 where o: "swap_in ops q (replicate 4096 0) s = Some (r, pg, s1)" "swap_run ops xs s1 = Some s'"
    using 3(4) by (auto split: Option.bind_splits)
  obtain f where "slots s q = Some f" using o(1) by (auto simp: swap_in_def split: Option.bind_splits)
  from swap_in_map [OF 3(2) _ this, of "replicate 4096 0"] o(1)
  have m: "swap_inv ops s1" "swap_map ops s1 = (swap_map ops s)(q := None)" by auto
  have l: "page_sized xs" using 3(3) by (simp add: page_sized_def)
  from 3(1) [OF o(1) refl refl m(1) l o(2)]
  have "swap_inv ops s'" "\<forall>q data. In q \<notin> set xs \<longrightarrow> swap_map ops s1 q = Some data \<longrightarrow> swap_map ops s' q = Some data" by blast+
  then show ?case using m(2) by simp
qed simp

text \<open>
  C17 (refinement): swap space is a map from slots in use to pages. Unless the swap device is
  full, writing a page out returns a slot that was not in use and enters the page there; reading
  a slot back returns its page and frees the slot; no other slot changes. When it is full,
  \<open>swap_out\<close> stops the kernel: it uses the null pointer that \<open>get_slot\<close> returns.
\<close>

theorem swap_refines_map:
  assumes inv: "swap_inv ops s" and len: "length kpage = 4096" "length buf = 4096" and mal: "slot_malloc ops (slots s) \<noteq> None"
  shows "(if swap_full ops s then swap_out ops kpage s = None
      else \<exists>ss s'. swap_out ops kpage s = Some (ss, s') \<and> swap_inv ops s' \<and> swap_map ops s ss = None \<and>
        swap_map ops s' = (swap_map ops s)(ss \<mapsto> kpage)) \<and>
    (\<forall>ss data. swap_map ops s ss = Some data \<longrightarrow> (\<exists>s'. swap_in ops ss buf s = Some (True, data, s') \<and> swap_inv ops s' \<and>
        swap_map ops s' = (swap_map ops s)(ss := None)))"
proof -
  have "\<exists>ss s'. swap_out ops kpage s = Some (ss, s') \<and> swap_inv ops s' \<and> swap_map ops s ss = None \<and>
        swap_map ops s' = (swap_map ops s)(ss \<mapsto> kpage)" if "\<not> swap_full ops s"
    using swap_out_returns [OF inv that mal, of kpage] swap_out_map [OF inv len(1)] by blast
  moreover have "\<exists>s'. swap_in ops ss buf s = Some (True, data, s') \<and> swap_inv ops s' \<and> swap_map ops s' = (swap_map ops s)(ss := None)"
    if "swap_map ops s ss = Some data" for ss data
    using swap_mapD [OF that] swap_in_map [OF inv len(2)] by blast
  ultimately show ?thesis using swap_out_full by auto
qed

definition demo_swap_ops :: "(sector \<Rightarrow> byte list) swap_ops" where
  "demo_swap_ops = \<lparr>swap_bd = ram_disk, swap_size = 64, slot_malloc = (\<lambda>m. if m 0 = None then Some 0 else if m 1 = None then Some 1 else None)\<rparr>"

definition demo_swap :: "(sector \<Rightarrow> byte list) swap" where
  "demo_swap = swap_init blank_disk \<lparr>slots = Map.empty, next_sector = 0, swap_occupied = [], swap_unoccupied = [], swap_dev = blank_disk\<rparr>"

lemma swap_init_inv:
  assumes "blockdev_ok (swap_bd ops)" "device_ok (swap_bd ops) d" "\<And>m p. slot_malloc ops m = Some p \<Longrightarrow> m p = None"
    "unat (swap_size ops) + 8 \<le> 2 ^ 32" "slots s = Map.empty"
  shows "swap_inv ops (swap_init d s)"
proof -
  have "\<exists>K. (0 :: sector) = of_nat (8 * K) \<and> 8 * K < unat (swap_size ops) + 8" by (rule exI [of _ 0]) simp
  then show ?thesis using assms by (simp add: swap_inv_def swap_init_def)
qed

lemma demo_swap_inv: "swap_inv demo_swap_ops demo_swap"
  unfolding demo_swap_def
  by (rule swap_init_inv) (auto simp: demo_swap_ops_def ram_disk_ok split: if_splits)

theorem swap_refines_map_witness:
  "\<exists>ss s'. swap_out demo_swap_ops (replicate 4096 7) demo_swap = Some (ss, s') \<and>
     swap_map demo_swap_ops s' = (swap_map demo_swap_ops demo_swap)(ss \<mapsto> replicate 4096 7)"
  using swap_refines_map [OF demo_swap_inv, of "replicate 4096 7" "replicate 4096 0"]
  by (auto simp: swap_full_def demo_swap_def demo_swap_ops_def swap_init_def)

text \<open>
  C16 (roundtrip): a page that was written out is what is read back, whatever other pages are
  written out and brought back in between.
\<close>

theorem swap_roundtrip:
  assumes "swap_inv ops s" "length kpage = 4096" "length buf = 4096" "swap_out ops kpage s = Some (ss, s1)"
    and "page_sized xs" "In ss \<notin> set xs" "swap_run ops xs s1 = Some s2"
  shows "\<exists>s3. swap_in ops ss buf s2 = Some (True, kpage, s3)"
proof -
  note o = swap_out_map [OF assms(1,2,4)]
  then have "swap_inv ops s2" "swap_map ops s2 ss = Some kpage" using swap_run_keeps [OF _ assms(5,7)] assms(6) by auto
  then show ?thesis using swap_mapD swap_in_map [OF _ assms(3)] by blast
qed

lemma demo_swap_out: "\<exists>s1. swap_out demo_swap_ops (replicate 4096 7) demo_swap = Some (0, s1) \<and> swap_run demo_swap_ops [Out (replicate 4096 9), In 1] s1 \<noteq> None"
  by (simp add: swap_out_def get_slot_def demo_swap_def demo_swap_ops_def swap_init_def swap_in_def put_slot_def)

theorem swap_roundtrip_witness:
  "\<exists>s1 s2 s3. swap_out demo_swap_ops (replicate 4096 7) demo_swap = Some (0, s1) \<and>
     swap_run demo_swap_ops [Out (replicate 4096 9), In 1] s1 = Some s2 \<and>
     swap_in demo_swap_ops 0 (replicate 4096 0) s2 = Some (True, replicate 4096 7, s3)"
proof -
  obtain s1 s2 where s: "swap_out demo_swap_ops (replicate 4096 7) demo_swap = Some (0, s1)"
    "swap_run demo_swap_ops [Out (replicate 4096 9), In 1] s1 = Some s2" using demo_swap_out by blast
  moreover have "\<exists>s3. swap_in demo_swap_ops 0 (replicate 4096 0) s2 = Some (True, replicate 4096 7, s3)"
    using swap_roundtrip [OF demo_swap_inv _ _ s(1) _ _ s(2), of "replicate 4096 0"] by (simp add: page_sized_def)
  ultimately show ?thesis by blast
qed

text \<open>
  From the initial state on, the sectors of different slots never overlap, and
  when the size of the device is a multiple of eight every sector of a slot is on the device.
\<close>

theorem swap_slots_in_bounds:
  assumes "blockdev_ok (swap_bd ops)" "device_ok (swap_bd ops) d" "\<And>m p. slot_malloc ops m = Some p \<Longrightarrow> m p = None"
    and size: "unat (swap_size ops) + 8 \<le> 2 ^ 32" "8 dvd unat (swap_size ops)" and s0: "slots s0 = Map.empty"
    and run: "page_sized xs" "swap_run ops xs (swap_init d s0) = Some s"
    and p: "slots s p = Some f" "i < 8"
  shows "unat (f + of_nat i) < unat (swap_size ops) \<and>
    (\<forall>q g j. slots s q = Some g \<longrightarrow> j < 8 \<longrightarrow> f + of_nat i = g + of_nat j \<longrightarrow> q = p \<and> j = i)"
proof -
  have "swap_inv ops (swap_init d s0)" by (rule swap_init_inv) (fact assms)+
  then have inv: "swap_inv ops s" using swap_run_keeps [OF _ run] by simp
  obtain K where K: "8 * K < unat (swap_size ops) + 8" "\<And>p f. slots s p = Some f \<Longrightarrow> \<exists>k<K. f = of_nat (8 * k)"
    using swap_inv_next [OF inv] by blast
  obtain k where k: "k < K" "f = of_nat (8 * k)" using K(2) p(1) by blast
  obtain n where n: "unat (swap_size ops) = 8 * n" using size(2) by blast
  have "unat (f + of_nat i) = 8 * k + i" unfolding k(2) by (rule slot_sector) (use k(1) K(1) size(1) p(2) in linarith)+
  moreover have "8 * k + i < 8 * n" using k(1) K(1) n p(2) by presburger
  moreover have "q = p \<and> j = i" if "slots s q = Some g" "j < 8" "f + of_nat i = g + of_nat j" for q g j
  proof -
    have "q = p" using slots_apart [OF inv p(1) that(1) _ p(2) that(2)] that(3) by metis
    then have "g = f" using p(1) that(1) by simp
    then show ?thesis using sectors_distinct [OF p(2) that(2)] that(3) \<open>q = p\<close> by simp
  qed
  ultimately show ?thesis using n by auto
qed

theorem swap_slots_in_bounds_witness:
  "\<exists>s f. swap_run demo_swap_ops [Out (replicate 4096 9)] demo_swap = Some s \<and> slots s 0 = Some f \<and> unat (f + of_nat 7) < 64"
proof -
  obtain s f where s: "swap_run demo_swap_ops [Out (replicate 4096 9)] demo_swap = Some s" "slots s 0 = Some f"
    by (simp add: swap_out_def get_slot_def demo_swap_def demo_swap_ops_def swap_init_def)
  have "unat (f + of_nat 7) < unat (swap_size demo_swap_ops)"
  proof (rule swap_slots_in_bounds [THEN conjunct1])
    show "swap_run demo_swap_ops [Out (replicate 4096 9)]
        (swap_init blank_disk \<lparr>slots = Map.empty, next_sector = 0, swap_occupied = [], swap_unoccupied = [], swap_dev = blank_disk\<rparr>) = Some s"
      using s(1) unfolding demo_swap_def .
  qed (use s(2) in \<open>simp_all add: demo_swap_ops_def ram_disk_ok page_sized_def split: if_splits\<close>)
  then show ?thesis using s by (simp add: demo_swap_ops_def)
qed

end
