(* ===== verification/Vm.thy ===== *)
theory Vm
  imports Pagedir Swap
begin

text \<open>
  Demand paging, \<open>virtual-memory/vm/frame.c\<close> and \<open>virtual-memory/vm/page.c\<close>: the table of
  user frames with its clock, and the supplemental page table of each thread, which says
  where the contents of a page are (a frame, a file, a swap slot).

  The state extends that of the page directories. \<open>ram\<close> holds the contents of the user
  frames, \<open>sup_page_table\<close> and \<open>thread_pagedir\<close> belong to each thread. A \<open>struct page\<close> is its
  position in the table of the current thread, a \<open>struct frame\<close> its position in
  \<open>frame_table\<close>; null pointers to directories, files and slots are \<open>0\<close> and \<open>None\<close>.

  The file operations (\<open>filesys/file.c\<close>), \<open>pg_round_down\<close> and \<open>malloc\<close> are not part of the
  sources: they are fields of \<open>vm_ops\<close>. The kernel reads and writes the contents of a user
  page through its user address in the active directory; the CPU sets the accessed bit, and
  the dirty bit for a write.
\<close>

section \<open>State\<close>

record frame =
  f_kpage :: u32
  f_pd :: u32
  f_upage :: u32

record page =
  p_pd :: u32
  p_frame :: u32
  p_upage :: u32
  p_active :: bool
  p_file :: nat
  p_off :: int
  p_writable :: bool
  p_ss :: "nat option"

record ('d, 'f) vmm = vm +
  frame_table :: "frame list"
  next_frame :: nat
  fail_on_next :: bool
  ram :: "u32 \<rightharpoonup> byte list"
  swap_space :: "'d swap"
  cur_thread :: nat
  thread_pagedir :: "nat \<Rightarrow> u32"
  sup_page_table :: "nat \<Rightarrow> page list"
  files :: 'f

record ('d, 'f) vm_ops =
  hw :: mmu
  swap_part :: "'d swap_ops"
  pg_round_down :: "u32 \<Rightarrow> u32"
  page_malloc :: "page list \<Rightarrow> bool"
  file_length :: "nat \<Rightarrow> 'f \<Rightarrow> int"
  file_read_at :: "nat \<Rightarrow> int \<Rightarrow> int \<Rightarrow> 'f \<Rightarrow> byte list"
  file_write_at :: "nat \<Rightarrow> byte list \<Rightarrow> int \<Rightarrow> 'f \<Rightarrow> 'f"

definition cur_pages :: "('d, 'f) vmm \<Rightarrow> page list" where
  "cur_pages s = sup_page_table s (cur_thread s)"

definition set_cur_pages :: "page list \<Rightarrow> ('d, 'f) vmm \<Rightarrow> ('d, 'f) vmm" where
  "set_cur_pages ps s = s\<lparr>sup_page_table := (sup_page_table s)(cur_thread s := ps)\<rparr>"

definition cur_pagedir :: "('d, 'f) vmm \<Rightarrow> u32" where
  "cur_pagedir s = thread_pagedir s (cur_thread s)"

section \<open>User memory\<close>

definition user_frame :: "('d, 'f) vm_ops \<Rightarrow> u32 \<Rightarrow> ('d, 'f) vmm \<Rightarrow> (u32 \<times> byte list) option" where
  "user_frame ops upage s = do {
     k \<leftarrow> pagedir_get_page (hw ops) (cr3 s) upage s;
     kpage \<leftarrow> k;
     pg \<leftarrow> ram s kpage;
     Some (kpage, pg)
   }"

definition user_write :: "('d, 'f) vm_ops \<Rightarrow> u32 \<Rightarrow> byte list \<Rightarrow> ('d, 'f) vmm \<Rightarrow> ('d, 'f) vmm option" where
  "user_write ops upage bytes s =
     (if bytes = [] then Some s
      else do {
        (kpage, pg) \<leftarrow> user_frame ops upage s;
        s1 \<leftarrow> pagedir_set_accessed (hw ops) (cr3 s) upage True s;
        s2 \<leftarrow> pagedir_set_dirty (hw ops) (cr3 s) upage True s1;
        Some (s2\<lparr>ram := (ram s2)(kpage \<mapsto> memcpy_at 0 bytes pg)\<rparr>)
      })"

definition user_read :: "('d, 'f) vm_ops \<Rightarrow> u32 \<Rightarrow> int \<Rightarrow> ('d, 'f) vmm \<Rightarrow> (byte list \<times> ('d, 'f) vmm) option" where
  "user_read ops upage n s =
     (if n \<le> 0 then Some ([], s)
      else do {
        (kpage, pg) \<leftarrow> user_frame ops upage s;
        s1 \<leftarrow> pagedir_set_accessed (hw ops) (cr3 s) upage True s;
        Some (take (nat n) pg, s1)
      })"

section \<open>The supplemental page table\<close>

definition find_page :: "(page \<Rightarrow> bool) \<Rightarrow> ('d, 'f) vmm \<Rightarrow> nat option" where
  "find_page match s = first_index match (cur_pages s)"

definition match_upage :: "u32 \<Rightarrow> page \<Rightarrow> bool" where
  "match_upage upage p \<longleftrightarrow> p_upage p = upage"

definition find_upage :: "u32 \<Rightarrow> ('d, 'f) vmm \<Rightarrow> nat option" where
  "find_upage upage s = find_page (match_upage upage) s"

definition match_file :: "nat \<Rightarrow> page \<Rightarrow> bool" where
  "match_file f p \<longleftrightarrow> p_file p = f"

definition find_file :: "nat \<Rightarrow> ('d, 'f) vmm \<Rightarrow> nat option" where
  "find_file f s = find_page (match_file f) s"

definition page_in_table :: "u32 \<Rightarrow> ('d, 'f) vmm \<Rightarrow> bool" where
  "page_in_table vaddr s \<longleftrightarrow> vaddr \<noteq> 0 \<and> find_upage vaddr s \<noteq> None"

definition update_page :: "nat \<Rightarrow> (page \<Rightarrow> page) \<Rightarrow> ('d, 'f) vmm \<Rightarrow> ('d, 'f) vmm" where
  "update_page i g s = set_cur_pages ((cur_pages s)[i := g (cur_pages s ! i)]) s"

text \<open>The field \<open>frame\<close> of a new page is not initialised; it is set before it is used.\<close>

definition page_alloc :: "('d, 'f) vm_ops \<Rightarrow> u32 \<Rightarrow> u32 \<Rightarrow> bool \<Rightarrow> ('d, 'f) vmm \<Rightarrow> nat option \<times> ('d, 'f) vmm" where
  "page_alloc ops pd upage writable s =
     (if page_in_table upage s then (None, s)
      else if \<not> page_malloc ops (cur_pages s) then (None, s)
      else (Some (length (cur_pages s)),
            set_cur_pages (cur_pages s @ [\<lparr>p_pd = pd, p_frame = 0, p_upage = upage, p_active = False, p_file = 0, p_off = 0,
                                           p_writable = writable, p_ss = None\<rparr>]) s))"

definition page_set_frame :: "('d, 'f) vm_ops \<Rightarrow> u32 \<Rightarrow> u32 \<Rightarrow> bool \<Rightarrow> ('d, 'f) vmm \<Rightarrow> ('d, 'f) vmm option" where
  "page_set_frame ops upage kpage writable s = do {
     let (page_s, s1) = (case find_upage upage s of
                           None \<Rightarrow> page_alloc ops (cur_pagedir s) upage writable s
                         | Some i \<Rightarrow> (Some i, s));
     i \<leftarrow> page_s;
     kassert (p_writable (cur_pages s1 ! i) = writable);
     Some (update_page i (\<lambda>p. p\<lparr>p_active := True, p_frame := kpage\<rparr>) s1)
   }"

definition page_set_file :: "('d, 'f) vm_ops \<Rightarrow> u32 \<Rightarrow> nat \<Rightarrow> int \<Rightarrow> ('d, 'f) vmm \<Rightarrow> bool \<times> ('d, 'f) vmm" where
  "page_set_file ops upage f off s =
     (case page_alloc ops (cur_pagedir s) upage True s of
        (None, s1) \<Rightarrow> (False, s1)
      | (Some i, s1) \<Rightarrow> (True, update_page i (\<lambda>p. p\<lparr>p_file := f, p_off := off\<rparr>) s1))"

definition remove_nth :: "nat \<Rightarrow> 'a list \<Rightarrow> 'a list" where
  "remove_nth i xs = take i xs @ drop (Suc i) xs"

definition page_remove :: "('d, 'f) vm_ops \<Rightarrow> u32 \<Rightarrow> ('d, 'f) vmm \<Rightarrow> ('d, 'f) vmm option" where
  "page_remove ops upage s = do {
     i \<leftarrow> find_upage upage s;
     pagedir_clear_page (hw ops) (p_pd (cur_pages s ! i)) upage (set_cur_pages (remove_nth i (cur_pages s)) s)
   }"

definition file_size_in_page :: "('d, 'f) vm_ops \<Rightarrow> page \<Rightarrow> ('d, 'f) vmm \<Rightarrow> int option" where
  "file_size_in_page ops p s = do {
     kassert (p_file p \<noteq> 0);
     let left = file_length ops (p_file p) (files s) - p_off p;
     Some (if left < 4096 then left else 4096)
   }"

text \<open>Every round of \<open>page_unmap\<close> removes a page, so there are no more rounds than pages.\<close>

fun unmap_loop :: "('d, 'f) vm_ops \<Rightarrow> nat \<Rightarrow> nat \<Rightarrow> ('d, 'f) vmm \<Rightarrow> ('d, 'f) vmm option" where
  "unmap_loop ops f 0 s = (if find_file f s = None then Some s else None)"
| "unmap_loop ops f (Suc n) s =
     (case find_file f s of
        None \<Rightarrow> Some s
      | Some i \<Rightarrow> do {
          let p = cur_pages s ! i;
          dirty \<leftarrow> pagedir_is_dirty (hw ops) (p_pd p) (p_upage p) s;
          s1 \<leftarrow> (if dirty then do {
                   sz \<leftarrow> file_size_in_page ops p s;
                   (bytes, s') \<leftarrow> user_read ops (p_upage p) sz s;
                   Some (s'\<lparr>files := file_write_at ops f bytes (p_off p) (files s')\<rparr>)
                 } else Some s);
          s2 \<leftarrow> page_remove ops (p_upage p) s1;
          unmap_loop ops f n s2
        })"

definition page_unmap :: "('d, 'f) vm_ops \<Rightarrow> nat \<Rightarrow> ('d, 'f) vmm \<Rightarrow> ('d, 'f) vmm option" where
  "page_unmap ops f s = unmap_loop ops f (length (cur_pages s)) s"

definition page_write_data :: "('d, 'f) vm_ops \<Rightarrow> u32 \<Rightarrow> ('d, 'f) vmm \<Rightarrow> (bool \<times> ('d, 'f) vmm) option" where
  "page_write_data ops upage s =
     (case find_upage upage s of
        None \<Rightarrow> Some (False, s)
      | Some i \<Rightarrow>
          let p = cur_pages s ! i in
          if p_file p \<noteq> 0 then do {
            sz \<leftarrow> file_size_in_page ops p s;
            let bytes = file_read_at ops (p_file p) sz (p_off p) (files s);
            s1 \<leftarrow> user_write ops upage bytes s;
            s2 \<leftarrow> pagedir_set_dirty (hw ops) (p_pd p) upage False s1;
            Some (int (length bytes) = sz, s2)
          }
          else (case p_ss p of
              None \<Rightarrow> Some (False, s)
            | Some ss \<Rightarrow> do {
                buf \<leftarrow> ram s (p_frame p);
                (success, data, sw) \<leftarrow> swap_in (swap_part ops) ss buf (swap_space s);
                s2 \<leftarrow> pagedir_set_dirty (hw ops) (p_pd p) upage False
                       (s\<lparr>ram := (ram s)(p_frame p \<mapsto> data), swap_space := sw\<rparr>);
                Some (success, s2)
              }))"

definition page_is_writable :: "u32 \<Rightarrow> ('d, 'f) vmm \<Rightarrow> bool option" where
  "page_is_writable upage s = do {
     i \<leftarrow> find_upage upage s;
     Some (p_writable (cur_pages s ! i))
   }"

definition page_set_swap :: "u32 \<Rightarrow> nat \<Rightarrow> ('d, 'f) vmm \<Rightarrow> ('d, 'f) vmm option" where
  "page_set_swap upage ss s = do {
     i \<leftarrow> find_upage upage s;
     Some (update_page i (\<lambda>p. p\<lparr>p_ss := Some ss, p_active := False\<rparr>) s)
   }"

definition stack_growth :: "u32 \<Rightarrow> u32 \<Rightarrow> bool" where
  "stack_growth uaddr esp \<longleftrightarrow> uaddr = esp - 4 \<or> uaddr = esp - 32 \<or> esp \<le> uaddr"

section \<open>Frames\<close>

fun clock_loop :: "mmu \<Rightarrow> frame list \<Rightarrow> nat \<Rightarrow> ('d, 'f) vmm \<Rightarrow> (nat option \<times> ('d, 'f) vmm) option" where
  "clock_loop M [] i s = Some (if i = 0 then None else Some (i - 1), s)"
| "clock_loop M (f # fs) i s = do {
     a \<leftarrow> pagedir_is_accessed M (f_pd f) (f_upage f) s;
     if a then do {
       s1 \<leftarrow> pagedir_set_accessed M (f_pd f) (f_upage f) False s;
       clock_loop M fs (Suc i) s1
     } else Some (Some i, s)
   }"

definition frame_clock :: "('d, 'f) vm_ops \<Rightarrow> ('d, 'f) vmm \<Rightarrow> (nat option \<times> ('d, 'f) vmm) option" where
  "frame_clock ops s = clock_loop (hw ops) (frame_table s) 0 s"

definition evict_frame :: "('d, 'f) vm_ops \<Rightarrow> frame \<Rightarrow> ('d, 'f) vmm \<Rightarrow> ('d, 'f) vmm option" where
  "evict_frame ops f s = do {
     data \<leftarrow> ram s (f_kpage f);
     (ss, sw) \<leftarrow> swap_out (swap_part ops) data (swap_space s);
     page_set_swap (f_upage f) ss (s\<lparr>swap_space := sw\<rparr>)
   }"

definition get_next_frame :: "('d, 'f) vm_ops \<Rightarrow> ('d, 'f) vmm \<Rightarrow> (nat \<times> ('d, 'f) vmm) option" where
  "get_next_frame ops s =
     (if fail_on_next s then do {
        (r, s1) \<leftarrow> frame_clock ops s;
        i \<leftarrow> r;
        s2 \<leftarrow> evict_frame ops (frame_table s1 ! i) s1;
        Some (i, s2)
      } else
        let i = next_frame s in
        Some (i, if Suc i = length (frame_table s) then s\<lparr>next_frame := 0, fail_on_next := True\<rparr>
                 else s\<lparr>next_frame := Suc i\<rparr>))"

text \<open>\<open>kpages\<close> are the pages the user pool hands out, one after the other.\<close>

definition frame_init :: "u32 list \<Rightarrow> ('d, 'f) vmm \<Rightarrow> ('d, 'f) vmm option" where
  "frame_init kpages s = do {
     let fs = map (\<lambda>k. \<lparr>f_kpage = k, f_pd = 0, f_upage = 0\<rparr>) kpages;
     kassert (fs \<noteq> []);
     Some (s\<lparr>frame_table := fs, next_frame := 0\<rparr>)
   }"

definition frame_alloc :: "('d, 'f) vm_ops \<Rightarrow> u32 \<Rightarrow> bool \<Rightarrow> ('d, 'f) vmm \<Rightarrow> (u32 \<times> ('d, 'f) vmm) option" where
  "frame_alloc ops upage writable s = do {
     let pd = cur_pagedir s;
     (i, s1) \<leftarrow> get_next_frame ops s;
     let kpage = f_kpage (frame_table s1 ! i);
     k \<leftarrow> pagedir_get_page (hw ops) pd upage s1;
     kassert (k = None);
     (ok, s2) \<leftarrow> pagedir_set_page (hw ops) pd upage kpage writable s1;
     kassert ok;
     Some (kpage, s2\<lparr>frame_table := (frame_table s2)[i := (frame_table s2 ! i)\<lparr>f_upage := upage, f_pd := pd\<rparr>]\<rparr>)
   }"

definition frame_free :: "u32 \<Rightarrow> ('d, 'f) vmm \<Rightarrow> ('d, 'f) vmm" where
  "frame_free pd s = s\<lparr>frame_table := map (\<lambda>f. if f_pd f = pd then f\<lparr>f_pd := 0, f_upage := 0\<rparr> else f) (frame_table s)\<rparr>"

section \<open>Page faults\<close>

definition page_fetch :: "('d, 'f) vm_ops \<Rightarrow> u32 \<Rightarrow> u32 \<Rightarrow> bool \<Rightarrow> ('d, 'f) vmm \<Rightarrow> (bool \<times> ('d, 'f) vmm) option" where
  "page_fetch ops uaddr esp write s =
     (if \<not> is_user_vaddr (hw ops) uaddr then Some (False, s)
      else
        let page = pg_round_down ops uaddr in
        if \<not> page_in_table page s then
          if esp = 0 then Some (False, s)
          else if stack_growth uaddr esp then do {
            (kpage, s1) \<leftarrow> frame_alloc ops page True s;
            s2 \<leftarrow> page_set_frame ops page kpage True s1;
            Some (True, s2)
          }
          else Some (False, s)
        else do {
          w \<leftarrow> page_is_writable page s;
          if write \<and> \<not> w then Some (False, s)
          else do {
            (kpage, s1) \<leftarrow> frame_alloc ops page True s;
            s2 \<leftarrow> page_set_frame ops page kpage True s1;
            (b, s3) \<leftarrow> page_write_data ops page s2;
            Some (True, s3)
          }
        })"

end
