(* ===== verification/Pagedir_Props.thy ===== *)
theory Pagedir_Props
  imports Pagedir
begin

text \<open>
  The properties of page directories: they implement a partial map from user pages to
  frames, the translation lookaside buffer never holds a translation the tables have taken
  back, and destroying a directory frees its tables. \<open>x86\<close> is the layout of the Intel
  architecture that the comments of \<open>pagedir.c\<close> refer to, an instance of the parameters.
\<close>

section \<open>Flag bits\<close>

lemma flag_disjoint:
  fixes e f g :: u32
  assumes "f AND g = 0"
  shows "(e AND NOT g) AND f = e AND f" "(e OR g) AND f = e AND f"
    "(e AND NOT f) AND g = e AND g" "(e OR f) AND g = e AND g"
proof -
  have "\<not> (bit f n \<and> bit g n)" for n using assms by (metis bit_0_eq bit_and_iff bot_apply bot_bool_def)
  then show "(e AND NOT g) AND f = e AND f" "(e OR g) AND f = e AND f"
    "(e AND NOT f) AND g = e AND g" "(e OR f) AND g = e AND g"
    by (auto intro!: bit_word_eqI simp: bit_simps)
qed

definition with_flag :: "u32 \<Rightarrow> bool \<Rightarrow> u32 \<Rightarrow> u32" where
  "with_flag flag on e = (if on then e OR flag else e AND NOT flag)"

lemma with_flag_keeps:
  assumes "mmu_ok M" "flag = PTE_A M \<or> flag = PTE_D M"
  shows "is_set (with_flag flag on e) (PTE_P M) \<longleftrightarrow> is_set e (PTE_P M)" "is_set (with_flag flag on e) (PTE_W M) \<longleftrightarrow> is_set e (PTE_W M)"
    "pte_get_page M (with_flag flag on e) = pte_get_page M e"
proof -
  have f: "flags_ok M" using assms(1) by (simp add: mmu_ok_def)
  then have "PTE_P M AND flag = 0" "PTE_W M AND flag = 0" using assms(2) by (auto simp: flags_ok_def)
  then show "is_set (with_flag flag on e) (PTE_P M) \<longleftrightarrow> is_set e (PTE_P M)" "is_set (with_flag flag on e) (PTE_W M) \<longleftrightarrow> is_set e (PTE_W M)"
    by (auto simp: with_flag_def flag_disjoint)
  show "pte_get_page M (with_flag flag on e) = pte_get_page M e"
    using f assms(2) by (auto simp: with_flag_def flags_ok_def)
qed

lemma with_flag_set: "f \<noteq> 0 \<Longrightarrow> is_set (with_flag f on e) f \<longleftrightarrow> on" for f :: u32
proof -
  assume "f \<noteq> 0"
  moreover have "(e OR f) AND f = f" by (rule bit_word_eqI) (auto simp: bit_simps)
  ultimately show ?thesis by (simp add: with_flag_def clear_P)
qed

lemma with_flag_mono: "is_set e g \<Longrightarrow> is_set (with_flag f True e) g" for e f g :: u32
proof -
  assume a: "is_set e g"
  have "((e OR f) AND g) AND (e AND g) = e AND g" by (rule bit_word_eqI) (auto simp: bit_simps)
  with a show ?thesis by (auto simp: with_flag_def)
qed

lemma pagedir_flag_upd:
  assumes M: "mmu_ok M" "flag = PTE_A M \<or> flag = PTE_D M" and wf: "vm_wf M D vm" and k: "pd_key_ok M D (pd, va)"
  obtains vm' e where "pagedir_flag M flag pd va on vm = Some vm'" "vm_upd M D vm pd va e vm'"
    "e = 0 \<and> pte_at M vm pd va = None \<or> e = with_flag flag on (pte_val M vm pd va) \<and> pte_at M vm pd va \<noteq> None"
    "tlb vm' = (if \<not> on \<and> cr3 vm = pd \<and> pte_at M vm pd va \<noteq> None then Map.empty else tlb vm)"
proof -
  have a: "pd \<in> D" "is_user_vaddr M va" using k by (simp_all add: pd_key_ok_def)
  define e where "e = (if pte_at M vm pd va = None then 0 else with_flag flag on (pte_val M vm pd va))"
  have "\<exists>vm'. pagedir_flag M flag pd va on vm = Some vm' \<and> vm_upd M D vm pd va e vm' \<and>
    tlb vm' = (if \<not> on \<and> cr3 vm = pd \<and> pte_at M vm pd va \<noteq> None then Map.empty else tlb vm)"
    using pagedir_flag_spec [OF M(1) wf a, of flag on] unfolding e_def with_flag_def .
  moreover have "e = 0 \<and> pte_at M vm pd va = None \<or> e = with_flag flag on (pte_val M vm pd va) \<and> pte_at M vm pd va \<noteq> None"
    by (simp add: e_def)
  ultimately show thesis using that by blast
qed

lemma pagedir_flag_map:
  assumes M: "mmu_ok M" "flag = PTE_A M \<or> flag = PTE_D M" and wf: "vm_wf M D vm" and k: "pd_key_ok M D (pd, va)"
  shows "\<exists>vm'. pagedir_flag M flag pd va on vm = Some vm' \<and> vm_wf M D vm' \<and> pd_map M D vm' = pd_map M D vm"
proof -
  have a: "pd \<in> D" "is_user_vaddr M va" "pg_ofs M va = 0" using k by (simp_all add: pd_key_ok_def)
  obtain vm' e where v: "pagedir_flag M flag pd va on vm = Some vm'" "vm_upd M D vm pd va e vm'"
    "e = 0 \<and> pte_at M vm pd va = None \<or> e = with_flag flag on (pte_val M vm pd va) \<and> pte_at M vm pd va \<noteq> None"
    using pagedir_flag_upd [OF M wf k] by metis
  have "(if is_set e (PTE_P M) then Some (pte_get_page M e, is_set e (PTE_W M)) else None) = pd_map M D vm (pd, va)"
    using v(3) a with_flag_keeps [OF M, of on "pte_val M vm pd va"] by (auto simp: pd_map_def pte_val_def)
  then show ?thesis using v(1) vm_updD(1) [OF v(2)] pd_map_upd [OF M(1) v(2) a] by simp
qed

section \<open>Operations as steps\<close>

datatype pd_op =
    Set_Page u32 u32 u32 bool
  | Clear_Page u32 u32
  | Set_Dirty u32 u32 bool
  | Set_Accessed u32 u32 bool
  | Activate u32

fun pd_step :: "'m mmu_scheme \<Rightarrow> pd_op \<Rightarrow> 'v vm_scheme \<Rightarrow> 'v vm_scheme option" where
  "pd_step M (Set_Page pd upage kpage w) vm = map_option snd (pagedir_set_page M pd upage kpage w vm)"
| "pd_step M (Clear_Page pd upage) vm = pagedir_clear_page M pd upage vm"
| "pd_step M (Set_Dirty pd upage on) vm = pagedir_set_dirty M pd upage on vm"
| "pd_step M (Set_Accessed pd upage on) vm = pagedir_set_accessed M pd upage on vm"
| "pd_step M (Activate pd) vm = Some (pagedir_activate pd vm)"

fun pd_effect :: "pd_op \<Rightarrow> (u32 \<times> u32 \<rightharpoonup> u32 \<times> bool) \<Rightarrow> u32 \<times> u32 \<rightharpoonup> u32 \<times> bool" where
  "pd_effect (Set_Page pd upage kpage w) m = m((pd, upage) \<mapsto> (kpage, w))"
| "pd_effect (Clear_Page pd upage) m = m((pd, upage) := None)"
| "pd_effect _ m = m"

text \<open>What the callers guarantee: known directories, user pages, and a page is mapped only once.\<close>

fun pd_op_ok :: "'m mmu_scheme \<Rightarrow> u32 set \<Rightarrow> 'v vm_scheme \<Rightarrow> pd_op \<Rightarrow> bool" where
  "pd_op_ok M D vm (Set_Page pd upage kpage w) \<longleftrightarrow>
     pd \<in> D \<and> set_page_pre M vm pd upage kpage \<and> pd_map M D vm (pd, upage) = None"
| "pd_op_ok M D vm (Clear_Page pd upage) \<longleftrightarrow> pd_key_ok M D (pd, upage)"
| "pd_op_ok M D vm (Set_Dirty pd upage on) \<longleftrightarrow> pd_key_ok M D (pd, upage)"
| "pd_op_ok M D vm (Set_Accessed pd upage on) \<longleftrightarrow> pd_key_ok M D (pd, upage)"
| "pd_op_ok M D vm (Activate pd) \<longleftrightarrow> (if pd = 0 then init_page_dir vm else pd) \<in> D"

lemma pd_map_None:
  "pd_key_ok M D (pd, va) \<Longrightarrow> pd_map M D vm (pd, va) = None \<longleftrightarrow> \<not> is_set (pte_val M vm pd va) (PTE_P M)"
  by (simp add: pd_map_def pd_key_ok_def)

lemma pagedir_set_page_step:
  assumes M: "mmu_ok M" and wf: "vm_wf M D vm" and ok: "pd_op_ok M D vm (Set_Page pd upage kpage w)"
  obtains vm' where "pagedir_set_page M pd upage kpage w vm = Some (True, vm')"
    "vm_upd M D vm pd upage (pte_create_user M kpage w) vm'" "tlb vm' = tlb vm"
    "\<not> is_set (pte_val M vm pd upage) (PTE_P M)" "pd_key_ok M D (pd, upage)" "pg_ofs M kpage = 0"
proof -
  have p: "pd \<in> D" "set_page_pre M vm pd upage kpage" using ok by simp_all
  then have k: "pd_key_ok M D (pd, upage)" "pg_ofs M kpage = 0" by (simp_all add: pd_key_ok_def set_page_pre_def)
  moreover have n: "\<not> is_set (pte_val M vm pd upage) (PTE_P M)" using ok pd_map_None [OF k(1), of vm] by simp
  ultimately show thesis using pagedir_set_page_spec [OF M wf p n, of w] that by blast
qed

section \<open>The layout of the Intel architecture\<close>

definition x86 :: mmu where
  "x86 = \<lparr>PTE_P = 0x1, PTE_W = 0x2, PTE_A = 0x20, PTE_D = 0x40,
     pd_no = (\<lambda>v. unat (drop_bit 22 v)), pt_no = (\<lambda>v. unat (drop_bit 12 v AND 0x3ff)), pg_ofs = (\<lambda>v. v AND 0xfff),
     is_user_vaddr = (\<lambda>v. v < 0xc0000000), PHYS_BASE = 0xc0000000, vtop = (\<lambda>v. v - 0xc0000000),
     PTSHIFT = 12, init_ram_pages = 0x400,
     pde_create = (\<lambda>p. (p - 0xc0000000) OR 0x7), pde_get_pt = (\<lambda>e. (e AND NOT 0xfff) + 0xc0000000),
     pte_create_user = (\<lambda>p w. (p - 0xc0000000) OR (if w then 0x7 else 0x5)), pte_get_page = (\<lambda>e. (e AND NOT 0xfff) + 0xc0000000),
     palloc_get_page = (\<lambda>m. if m 0xc0100000 = None then Some 0xc0100000 else if m 0xc0101000 = None then Some 0xc0101000 else None)\<rparr>"

lemma mask12: "(0xfff :: u32) = mask 12" "(0x3ff :: u32) = mask 10"
  by (simp_all add: mask_eq_exp_minus_1)

lemma x86_addr: "addr_ok x86"
proof -
  have "v = w" if u: "unat (drop_bit 22 v) = unat (drop_bit 22 w)" "unat (drop_bit 12 v AND 0x3ff) = unat (drop_bit 12 w AND 0x3ff)"
    "v AND 0xfff = w AND 0xfff" for v w :: u32
  proof (rule bit_word_eqI)
    note e = u [folded word_unat_eq_iff]
    fix n assume "n < LENGTH(32)"
    consider "n < 12" | "12 \<le> n" "n < 22" | "22 \<le> n" by linarith
    then show "bit v n = bit w n"
    proof cases
      case 1 then show ?thesis using arg_cong [OF e(3), of "\<lambda>x. bit x n"] by (simp add: mask12 bit_simps)
    next
      case 2
      then have "n - 12 < 32" "n - 12 < 10" by simp_all
      with 2 show ?thesis using arg_cong [OF e(2), of "\<lambda>x. bit x (n - 12)"] by (simp add: mask12 bit_simps)
    next
      case 3 then show ?thesis using arg_cong [OF e(1), of "\<lambda>x. bit x (n - 22)"] by (simp add: bit_simps)
    qed
  qed
  moreover have "unat (drop_bit 22 v) < 1024" for v :: u32
  proof -
    have "unat v < 2 ^ LENGTH(32)" by (rule unsigned_less)
    then have "unat v div 4194304 < 1024" by (simp add: less_mult_imp_div_less)
    then show ?thesis unfolding unat_drop_bit_eq by (simp add: drop_bit_eq_div)
  qed
  moreover have "unat (drop_bit 12 v AND 0x3ff) < 1024" for v :: u32
  proof -
    have "unat (drop_bit 12 v AND 0x3ff) = take_bit 10 (unat (drop_bit 12 v))"
      unfolding mask12 take_bit_eq_mask [symmetric] unsigned_take_bit_eq ..
    then show ?thesis using take_bit_nat_less_exp [of 10 "unat (drop_bit 12 v)"] by simp
  qed
  moreover have "unat (drop_bit 22 v) < unat (drop_bit 22 (0xc0000000 :: u32))" if "v < 0xc0000000" for v :: u32
  proof -
    have "unat v < 768 * 4194304" using that by (simp add: word_less_nat_alt)
    then have "unat v div 4194304 < 768" by (simp add: less_mult_imp_div_less)
    moreover have "unat (drop_bit 22 (0xc0000000 :: u32)) = 768" by simp
    ultimately show ?thesis unfolding unat_drop_bit_eq by (simp add: drop_bit_eq_div)
  qed
  ultimately show ?thesis by (auto simp: addr_ok_def x86_def)
qed

lemma low_bits:
  fixes e f m :: u32
  assumes "f AND NOT m = 0"
  shows "(e AND NOT f) AND NOT m = e AND NOT m" "(e OR f) AND NOT m = e AND NOT m"
proof -
  have "bit f n \<Longrightarrow> bit m n" if "n < 32" for n using arg_cong [OF assms, of "\<lambda>x. bit x n"] that by (auto simp: bit_simps)
  then show "(e AND NOT f) AND NOT m = e AND NOT m" "(e OR f) AND NOT m = e AND NOT m"
    by (auto intro!: bit_word_eqI simp: bit_simps)
qed

lemma x86_flags: "flags_ok x86"
  using low_bits [where f = "1" and m = "0xfff"] low_bits [where f = "0x20" and m = "0xfff"] low_bits [where f = "0x40" and m = "0xfff"] by (simp add: flags_ok_def x86_def)

lemma aligned_unat: "(x :: u32) AND 0xfff = 0 \<longleftrightarrow> unat x mod 4096 = 0"
proof -
  have "unat (x AND 0xfff) = unat x mod 4096"
    unfolding mask12 take_bit_eq_mask [symmetric] unsigned_take_bit_eq by (simp add: take_bit_eq_mod)
  then show ?thesis by (metis unat_eq_zero)
qed

lemma aligned_phys: "(p :: u32) AND 0xfff = 0 \<Longrightarrow> (p - 0xc0000000) AND 0xfff = 0"
proof -
  assume "p AND 0xfff = 0"
  then have p: "unat p mod 4096 = 0" by (simp only: aligned_unat)
  have e: "p - 0xc0000000 = p + 0x40000000" by simp
  have "unat (p - 0xc0000000) = (unat p + 0x40000000) mod 2 ^ 32" unfolding e unat_word_ariths by simp
  also have "\<dots> mod 4096 = (unat p + 0x40000000) mod 4096" by (rule mod_mod_cancel) simp
  also have "\<dots> = 0" using p by (simp add: mod_eq_0_iff_dvd dvd_add_left_iff)
  finally show ?thesis by (simp only: aligned_unat)
qed

lemma aligned_parts:
  fixes x :: u32
  assumes "x AND 0xfff = 0"
  shows "x AND NOT 0xfff = x" "g AND 0xfff = g \<Longrightarrow> x AND g = 0"
proof -
  have "\<not> (bit x n \<and> bit (0xfff :: u32) n)" for n using assms by (metis bit_0_eq bit_and_iff bot_apply bot_bool_def)
  then show "x AND NOT 0xfff = x" by (auto intro!: bit_word_eqI simp: bit_simps)
  show "x AND g = 0" if "g AND 0xfff = g"
  proof -
    have "x AND g = (x AND 0xfff) AND g" by (metis that and.assoc and.commute)
    then show ?thesis using assms by simp
  qed
qed

lemma x86_entries: "entries_ok x86"
proof -
  have *: "((p - 0xc0000000) OR f) AND NOT 0xfff = p - 0xc0000000" "((p - 0xc0000000) OR f) AND g = f AND g"
    if "p AND 0xfff = 0" "f AND NOT 0xfff = 0" "g AND 0xfff = g" for p f g :: u32
    using aligned_parts [OF aligned_phys [OF that(1)]] that(2,3) by (simp_all add: bit.conj_disj_distrib2)
  have "(p - 0xc0000000) OR 0x7 \<noteq> 0" if "p AND 0xfff = 0" for p :: u32
    using *(2) [OF that, of 7 1] by force
  then show ?thesis using *(1) [of _ 7 0] *(1) [of _ 5 0] *(2) [of _ 7] *(2) [of _ 5] by (simp add: entries_ok_def x86_def)
qed

lemma x86_ok: "mmu_ok x86"
  using x86_addr x86_flags x86_entries by (simp add: mmu_ok_def palloc_ok_def) (simp add: x86_def)

definition demo_vm :: vm where
  "demo_vm = \<lparr>pages = [0xc0200000 \<mapsto> replicate 1024 0, 0xc0201000 \<mapsto> replicate 1024 0], init_page_dir = 0xc0201000,
     cr3 = 0xc0200000, tlb = Map.empty\<rparr>"

lemma demo_vm_user_table: "pd \<in> {0xc0200000} \<Longrightarrow> i < 1024 \<Longrightarrow> user_table x86 demo_vm pd i = None"
  by (simp add: user_table_def demo_vm_def)

lemma demo_vm_wf: "vm_wf x86 {0xc0200000} demo_vm"
proof -
  have i: "i < 1024" if "i < user_slots x86" for i using that by (simp add: x86_def)
  have "dir_ok x86 {0xc0200000} demo_vm 0xc0200000" using i by (auto simp: dir_ok_def demo_vm_def)
  then show ?thesis using demo_vm_user_table i unfolding vm_wf_def by simp
qed

lemma demo_vm_pte: "pte_at x86 demo_vm 0xc0200000 va = None"
  using demo_vm_user_table [of "0xc0200000" "pd_no x86 va"] mmu_okD(1) [OF x86_ok] by (simp add: pte_at_def)

lemma demo_vm_op_ok: "pd_op_ok x86 {0xc0200000} demo_vm (Set_Page 0xc0200000 0x08048000 0xc0300000 True)"
  by (simp add: set_page_pre_def pd_map_def pte_val_def demo_vm_pte) (simp add: x86_def demo_vm_def)

section \<open>Page directories implement page maps\<close>

text \<open>
  C13 (refinement): page directories implement a partial map from the user pages of each
  address space to frames with their write permission. Every operation returns, and it
  changes the map as its name says: the new mapping, the removed one, or nothing for the
  flag bits and for switching the address space. Looking up an address reads the map.
\<close>

theorem pagedir_refines_map:
  assumes "mmu_ok M" "vm_wf M D vm" "pd_op_ok M D vm op"
  shows "(\<exists>vm'. pd_step M op vm = Some vm' \<and> vm_wf M D vm' \<and> pd_map M D vm' = pd_effect op (pd_map M D vm)) \<and>
    (\<forall>pd va. pd_key_ok M D (pd, va) \<longrightarrow> pagedir_get_page M pd va vm = Some (map_option fst (pd_map M D vm (pd, va))))"
proof
  show "\<exists>vm'. pd_step M op vm = Some vm' \<and> vm_wf M D vm' \<and> pd_map M D vm' = pd_effect op (pd_map M D vm)"
  proof (cases op)
    case (Set_Page pd upage kpage w)
    obtain vm' where v: "pagedir_set_page M pd upage kpage w vm = Some (True, vm')" "pd_key_ok M D (pd, upage)"
      using pagedir_set_page_step [OF assms(1,2)] assms(3) unfolding Set_Page by metis
    then have "pd_set M D (pd, upage) (kpage, w) vm = Some vm'" by (simp add: pd_set_def pd_key_ok_def)
    with pd_set_law [OF assms(1,2) this] v(1) show ?thesis by (simp add: Set_Page)
  next
    case (Clear_Page pd upage)
    then show ?thesis using pd_clear_law [OF assms(1,2), of "(pd, upage)"] assms(3) by (simp add: pd_clear_def)
  next
    case (Set_Dirty pd upage on)
    then show ?thesis using pagedir_flag_map [OF assms(1) _ assms(2)] assms(3) by (simp add: pagedir_set_dirty_def)
  next
    case (Set_Accessed pd upage on)
    then show ?thesis using pagedir_flag_map [OF assms(1) _ assms(2)] assms(3) by (simp add: pagedir_set_accessed_def)
  next
    case (Activate pd)
    then show ?thesis using assms(2) by (auto simp: pagedir_activate_def pd_map_def fun_eq_iff)
  qed
  show "\<forall>pd va. pd_key_ok M D (pd, va) \<longrightarrow> pagedir_get_page M pd va vm = Some (map_option fst (pd_map M D vm (pd, va)))"
    using pagedir_get_page_spec [OF assms(1,2)] by (auto simp: pd_key_ok_def pd_map_def)
qed

theorem pagedir_refines_map_witness:
  "\<exists>vm'. pd_step x86 (Set_Page 0xc0200000 0x08048000 0xc0300000 True) demo_vm = Some vm' \<and> vm_wf x86 {0xc0200000} vm' \<and>
     pd_map x86 {0xc0200000} vm' = (pd_map x86 {0xc0200000} demo_vm)((0xc0200000, 0x08048000) \<mapsto> (0xc0300000, True))"
  using pagedir_refines_map [OF x86_ok demo_vm_wf demo_vm_op_ok] unfolding pd_effect.simps by blast

section \<open>The translation lookaside buffer\<close>

text \<open>
  A cached entry is usable as long as the table entry is present and maps the same frame with
  the same permission, and the table entry carries every dirty or accessed bit that the
  cached one has: a CPU that has cached a set bit does not set it again.
\<close>

definition tlb_entry_ok :: "'m mmu_scheme \<Rightarrow> u32 \<Rightarrow> u32 \<Rightarrow> bool" where
  "tlb_entry_ok M e e' \<longleftrightarrow> is_set e' (PTE_P M) \<and> pte_get_page M e' = pte_get_page M e \<and>
     (is_set e' (PTE_W M) \<longleftrightarrow> is_set e (PTE_W M)) \<and>
     (is_set e (PTE_A M) \<longrightarrow> is_set e' (PTE_A M)) \<and> (is_set e (PTE_D M) \<longrightarrow> is_set e' (PTE_D M))"

definition tlb_ok :: "'m mmu_scheme \<Rightarrow> u32 set \<Rightarrow> 'v vm_scheme \<Rightarrow> bool" where
  "tlb_ok M D vm \<longleftrightarrow> cr3 vm \<in> D \<and>
     (\<forall>va e. tlb vm va = Some e \<longrightarrow> pd_key_ok M D (cr3 vm, va) \<and> tlb_entry_ok M e (pte_val M vm (cr3 vm) va))"

lemma tlb_ok_empty: "cr3 vm \<in> D \<Longrightarrow> tlb vm = Map.empty \<Longrightarrow> tlb_ok M D vm"
  by (simp add: tlb_ok_def)

lemma tlb_ok_upd:
  assumes M: "mmu_ok M" and t: "tlb_ok M D vm" and u: "vm_upd M D vm pd va e vm'" "tlb vm' = tlb vm" and k: "pd_key_ok M D (pd, va)"
    and e: "\<And>c. cr3 vm = pd \<Longrightarrow> tlb vm va = Some c \<Longrightarrow> tlb_entry_ok M c (pte_val M vm pd va) \<Longrightarrow> tlb_entry_ok M c e"
  shows "tlb_ok M D vm'"
proof -
  have "pd_key_ok M D (cr3 vm, v) \<and> tlb_entry_ok M c (pte_val M vm' (cr3 vm) v)" if c: "tlb vm v = Some c" for v c
  proof -
    have o: "pd_key_ok M D (cr3 vm, v)" "tlb_entry_ok M c (pte_val M vm (cr3 vm) v)" using t c by (simp_all add: tlb_ok_def)
    then have "pte_val M vm' (cr3 vm) v = (if cr3 vm = pd \<and> v = va then e else pte_val M vm (cr3 vm) v)"
      using vm_updD(5) [OF u(1), of "cr3 vm" v] same_page [OF M, of va v] k by (auto simp: pd_key_ok_def)
    then show ?thesis using o e c by auto
  qed
  then show ?thesis using t u(2) vm_updD(3) [OF u(1)] by (simp add: tlb_ok_def)
qed

lemma tlb_ok_flag:
  assumes M: "mmu_ok M" "flag = PTE_A M \<or> flag = PTE_D M" and wf: "vm_wf M D vm" "tlb_ok M D vm" and k: "pd_key_ok M D (pd, va)"
    and r: "pagedir_flag M flag pd va on vm = Some vm'"
  shows "tlb_ok M D vm'"
proof -
  obtain e where u: "vm_upd M D vm pd va e vm'"
    "e = 0 \<and> pte_at M vm pd va = None \<or> e = with_flag flag on (pte_val M vm pd va) \<and> pte_at M vm pd va \<noteq> None"
    "tlb vm' = (if \<not> on \<and> cr3 vm = pd \<and> pte_at M vm pd va \<noteq> None then Map.empty else tlb vm)"
    using pagedir_flag_upd [OF M wf(1) k, of on] r by (metis option.inject)
  show ?thesis
  proof (cases "\<not> on \<and> cr3 vm = pd \<and> pte_at M vm pd va \<noteq> None")
    case True
    then show ?thesis using u(3) vm_updD(3) [OF u(1)] wf(2) by (intro tlb_ok_empty) (simp_all add: tlb_ok_def)
  next
    case False
    have "tlb_entry_ok M c e" if "cr3 vm = pd" "tlb_entry_ok M c (pte_val M vm pd va)" for c
      using False that u(2) with_flag_keeps [OF M, of True "pte_val M vm pd va"] with_flag_mono [of "pte_val M vm pd va" _ flag]
      by (auto simp: tlb_entry_ok_def pte_val_def)
    then show ?thesis using tlb_ok_upd [OF M(1) wf(2) u(1) _ k] u(3) False by auto
  qed
qed

text \<open>
  C14 (safety): the translation lookaside buffer is never stale. Whatever operation changes the
  page tables, every translation the CPU still has cached is one the active directory has,
  with the same frame and permission, and no cached dirty or accessed bit hides one that was
  cleared.
\<close>

theorem tlb_never_stale:
  assumes M: "mmu_ok M" and wf: "vm_wf M D vm" "tlb_ok M D vm" and ok: "pd_op_ok M D vm op" and r: "pd_step M op vm = Some vm'"
  shows "tlb_ok M D vm'"
proof (cases op)
  case (Set_Page pd upage kpage w)
  obtain v where v: "pagedir_set_page M pd upage kpage w vm = Some (True, v)" "vm_upd M D vm pd upage (pte_create_user M kpage w) v"
    "tlb v = tlb vm" "\<not> is_set (pte_val M vm pd upage) (PTE_P M)" "pd_key_ok M D (pd, upage)"
    using pagedir_set_page_step [OF M wf(1)] ok unfolding Set_Page by metis
  then have "vm' = v" using r by (simp add: Set_Page)
  then show ?thesis using tlb_ok_upd [OF M wf(2) v(2,3,5)] v(4) by (auto simp: tlb_entry_ok_def)
next
  case (Clear_Page pd upage)
  have a: "pd \<in> D" "is_user_vaddr M upage" "pg_ofs M upage = 0" "pd_key_ok M D (pd, upage)" using ok by (simp_all add: Clear_Page pd_key_ok_def)
  from pagedir_clear_page_spec [OF M wf(1) a(1-3)] r obtain e where v: "vm_upd M D vm pd upage e vm'"
    "tlb vm' = (if cr3 vm = pd \<and> is_set (pte_val M vm pd upage) (PTE_P M) then Map.empty else tlb vm)"
    "\<not> is_set (pte_val M vm pd upage) (PTE_P M) \<Longrightarrow> e = pte_val M vm pd upage"
    unfolding Clear_Page pd_step.simps by fastforce
  show ?thesis
  proof (cases "cr3 vm = pd \<and> is_set (pte_val M vm pd upage) (PTE_P M)")
    case True
    then show ?thesis using v(2) vm_updD(3) [OF v(1)] wf(2) by (intro tlb_ok_empty) (simp_all add: tlb_ok_def)
  next
    case False
    then show ?thesis using tlb_ok_upd [OF M wf(2) v(1) _ a(4)] v(2,3) by auto
  qed
next
  case (Set_Dirty pd upage on)
  then show ?thesis using tlb_ok_flag [OF M _ wf, of "PTE_D M"] ok r by (simp add: pagedir_set_dirty_def)
next
  case (Set_Accessed pd upage on)
  then show ?thesis using tlb_ok_flag [OF M _ wf, of "PTE_A M"] ok r by (simp add: pagedir_set_accessed_def)
next
  case (Activate pd)
  then show ?thesis using ok r by (intro tlb_ok_empty) (auto simp: pagedir_activate_def)
qed

lemma demo_vm_step: "\<exists>vm'. pd_step x86 (Set_Page 0xc0200000 0x08048000 0xc0300000 True) demo_vm = Some vm'"
  using pagedir_set_page_step [OF x86_ok demo_vm_wf demo_vm_op_ok] by (metis option.simps(9) pd_step.simps(1))

lemma demo_vm_tlb: "tlb_ok x86 {0xc0200000} demo_vm"
  by (rule tlb_ok_empty) (simp_all add: demo_vm_def)

theorem tlb_never_stale_witness:
  "\<exists>vm'. pd_step x86 (Set_Page 0xc0200000 0x08048000 0xc0300000 True) demo_vm = Some vm' \<and> tlb_ok x86 {0xc0200000} vm'"
  using demo_vm_step tlb_never_stale [OF x86_ok demo_vm_wf demo_vm_tlb demo_vm_op_ok] by blast

section \<open>Destroying a directory\<close>

definition dir_tables :: "'m mmu_scheme \<Rightarrow> 'v vm_scheme \<Rightarrow> u32 \<Rightarrow> u32 set" where
  "dir_tables M vm pd = {pt. \<exists>i<user_slots M. user_table M vm pd i = Some pt}"

lemma destroy_tables_spec:
  "(\<And>e. e \<in> set pdes \<Longrightarrow> is_set e (PTE_P M) \<Longrightarrow> pages vm (pde_get_pt M e) \<noteq> None) \<Longrightarrow>
   distinct (map (pde_get_pt M) (filter (\<lambda>e. is_set e (PTE_P M)) pdes)) \<Longrightarrow>
   destroy_tables M pdes vm = Some (vm\<lparr>pages := (pages vm) |` (- (pde_get_pt M ` {e \<in> set pdes. is_set e (PTE_P M)}))\<rparr>)"
proof (induction pdes arbitrary: vm)
  case (Cons e es)
  show ?case
  proof (cases "is_set e (PTE_P M)")
    case False
    then have "{x \<in> set (e # es). is_set x (PTE_P M)} = {x \<in> set es. is_set x (PTE_P M)}" by auto
    then show ?thesis using Cons False by simp
  next
    case True
    define vm1 where "vm1 = vm\<lparr>pages := (pages vm)(pde_get_pt M e := None)\<rparr>"
    have f: "palloc_free_page (pde_get_pt M e) vm = Some vm1"
      using Cons.prems(1) [of e] True by (auto simp: palloc_free_page_def vm1_def)
    have "pages vm1 (pde_get_pt M x) \<noteq> None" if "x \<in> set es" "is_set x (PTE_P M)" for x
    proof -
      have "pde_get_pt M x \<noteq> pde_get_pt M e" using Cons.prems(2) that True by (auto simp: image_iff)
      then show ?thesis using Cons.prems(1) [of x] that by (simp add: vm1_def)
    qed
    from Cons.IH [OF this] Cons.prems(2) True
    have "destroy_tables M es vm1 = Some (vm1\<lparr>pages := (pages vm1) |` (- (pde_get_pt M ` {e \<in> set es. is_set e (PTE_P M)}))\<rparr>)" by simp
    moreover have "(pages vm1) |` (- (pde_get_pt M ` {e \<in> set es. is_set e (PTE_P M)})) =
        (pages vm) |` (- (pde_get_pt M ` {x \<in> set (e # es). is_set x (PTE_P M)}))"
      using True by (auto simp: vm1_def restrict_map_def fun_eq_iff)
    ultimately show ?thesis using f True by (simp add: vm1_def)
  qed
qed (simp add: restrict_map_def)

lemma distinct_map_filter:
  "(\<And>i j. i < j \<Longrightarrow> j < length xs \<Longrightarrow> P (xs ! i) \<Longrightarrow> P (xs ! j) \<Longrightarrow> f (xs ! i) \<noteq> f (xs ! j)) \<Longrightarrow> distinct (map f (filter P xs))"
proof (induction xs)
  case (Cons x xs)
  have "distinct (map f (filter P xs))" using Cons.IH Cons.prems [of "Suc _" "Suc _"] by simp
  moreover have "f x \<noteq> f y" if "P x" "P y" "y \<in> set xs" for y
    using Cons.prems [of 0 "Suc _"] that by (auto simp: in_set_conv_nth)
  ultimately show ?case by auto
qed simp

lemma user_entry:
  assumes M: "mmu_ok M" and wf: "vm_wf M D vm" "pd \<in> D" and d: "pages vm pd = Some dir" and i: "i < user_slots M"
  shows "is_set (dir ! i) (PTE_P M) \<longleftrightarrow> dir ! i \<noteq> 0"
    "user_table M vm pd i = (if is_set (dir ! i) (PTE_P M) then Some (pde_get_pt M (dir ! i)) else None)"
proof -
  have "is_set (dir ! i) (PTE_P M)" if "dir ! i \<noteq> 0"
    using vm_wf_dir_ok [OF wf] d i that M unfolding dir_ok_def by (auto simp: mmu_ok_def entries_ok_def)
  then show "is_set (dir ! i) (PTE_P M) \<longleftrightarrow> dir ! i \<noteq> 0" by auto
  then show "user_table M vm pd i = (if is_set (dir ! i) (PTE_P M) then Some (pde_get_pt M (dir ! i)) else None)"
    using d by (simp add: user_table_def)
qed

lemma pagedir_destroy_spec:
  assumes M: "mmu_ok M" and wf: "vm_wf M D vm" "pd \<in> D" and pd: "pd \<noteq> init_page_dir vm"
  shows "\<exists>vm'. pagedir_destroy M pd vm = Some vm' \<and> vm_wf M (D - {pd}) vm' \<and>
    vm' = vm\<lparr>pages := \<lambda>p. if p = pd \<or> p \<in> dir_tables M vm pd then None else pages vm p\<rparr> \<and>
    pd_map M (D - {pd}) vm' = (\<lambda>k. if fst k = pd then None else pd_map M D vm k)"
proof -
  obtain dir where d: "pages vm pd = Some dir" "length dir = 1024" "pd \<noteq> 0" using vm_wf_dir [OF wf] .
  let ?es = "take (user_slots M) dir"
  have n: "length ?es = user_slots M" using d(2) mmu_okD(1) [OF M, of "PHYS_BASE M"] by simp
  note ue = user_entry [OF M wf d(1)]
  have tabs: "pde_get_pt M ` {e \<in> set ?es. is_set e (PTE_P M)} = dir_tables M vm pd"
    using ue n by (fastforce simp: dir_tables_def in_set_conv_nth image_iff split: if_splits)
  have 1: "pages vm (pde_get_pt M e) \<noteq> None" if "e \<in> set ?es" "is_set e (PTE_P M)" for e
  proof -
    from that(1) obtain i where "i < length ?es" "?es ! i = e" by (auto simp only: in_set_conv_nth)
    then have i: "i < user_slots M" "e = dir ! i" using n by simp_all
    then have "user_table M vm pd i = Some (pde_get_pt M e)" using ue(2) that(2) by simp
    from vm_wf_table [OF M wf i(1) this] show ?thesis by auto
  qed
  have 2: "distinct (map (pde_get_pt M) (filter (\<lambda>e. is_set e (PTE_P M)) ?es))"
  proof (rule distinct_map_filter)
    fix i j assume a: "i < j" "j < length ?es" "is_set (?es ! i) (PTE_P M)" "is_set (?es ! j) (PTE_P M)"
    then have ij: "i < user_slots M" "j < user_slots M" using n by simp_all
    then show "pde_get_pt M (?es ! i) \<noteq> pde_get_pt M (?es ! j)"
      using vm_wf_unique [OF wf(1) wf(2) wf(2) ij] ue(2) a by auto
  qed
  have pdt: "pd \<notin> dir_tables M vm pd" using vm_wf_table [OF M wf] wf(2) by (auto simp: dir_tables_def)
  define vm' where "vm' = vm\<lparr>pages := \<lambda>p. if p = pd \<or> p \<in> dir_tables M vm pd then None else pages vm p\<rparr>"
  have "pagedir_destroy M pd vm = Some vm'"
    using d pd pdt destroy_tables_spec [OF 1 2] unfolding tabs
    by (auto simp: pagedir_destroy_def palloc_free_page_def vm'_def restrict_map_def fun_eq_iff intro!: arg_cong [of _ _ "\<lambda>x. vm\<lparr>pages := x\<rparr>"])
  moreover have keep: "pages vm' p = pages vm p" if "p \<in> D - {pd}" for p
    using that vm_wf_table [OF M wf] by (auto simp: vm'_def dir_tables_def)
  have ut: "user_table M vm' p i = user_table M vm p i" if "p \<in> D - {pd}" for p i using keep [OF that] by (simp add: user_table_def)
  have keept: "pages vm' q = pages vm q" if "p \<in> D - {pd}" "i < user_slots M" "user_table M vm p i = Some q" for p i q
  proof -
    have "q \<notin> dir_tables M vm pd" using vm_wf_unique [OF wf(1) _ wf(2) that(2)] that by (auto simp: dir_tables_def)
    moreover have "q \<noteq> pd" using vm_wf_table [OF M wf(1) _ that(2,3)] that(1) wf(2) by auto
    ultimately show ?thesis by (simp add: vm'_def)
  qed
  have "dir_ok M (D - {pd}) vm' p" if p: "p \<in> D - {pd}" for p
  proof -
    obtain dr where dr: "p \<noteq> 0" "pages vm p = Some dr" "length dr = 1024" "\<forall>i<user_slots M. dr ! i \<noteq> 0 \<longrightarrow>
        (\<exists>pt l. dr ! i = pde_create M pt \<and> pg_ofs M pt = 0 \<and> pt \<notin> D \<and> pages vm pt = Some l \<and> length l = 1024)"
      using vm_wf_dir_ok [OF wf(1)] p unfolding dir_ok_def by blast
    have "\<exists>pt l. dr ! i = pde_create M pt \<and> pg_ofs M pt = 0 \<and> pt \<notin> D - {pd} \<and> pages vm' pt = Some l \<and> length l = 1024"
      if i: "i < user_slots M" "dr ! i \<noteq> 0" for i
    proof -
      obtain pt l where t: "dr ! i = pde_create M pt" "pg_ofs M pt = 0" "pt \<notin> D" "pages vm pt = Some l" "length l = 1024"
        using dr(4) i by blast
      then have "user_table M vm p i = Some pt" using dr(2) i(2) mmu_okD(4) [OF M] by (simp add: user_table_def)
      then show ?thesis using t keept [OF p i(1)] by auto
    qed
    then show ?thesis using dr(1-3) keep [OF p] unfolding dir_ok_def by auto
  qed
  then have "vm_wf M (D - {pd}) vm'" using wf(1) ut unfolding vm_wf_def by (metis DiffD1)
  moreover have "pte_val M vm' p va = pte_val M vm p va" if "p \<in> D - {pd}" "is_user_vaddr M va" for p va
    using keept [OF that(1) mmu_okD(3) [OF M that(2)]] unfolding pte_val_def pte_at_def ut [OF that(1)]
    by (cases "user_table M vm p (pd_no M va)") auto
  then have "pd_map M (D - {pd}) vm' = (\<lambda>k. if fst k = pd then None else pd_map M D vm k)"
    by (auto simp: pd_map_def fun_eq_iff)
  ultimately show ?thesis by (intro exI [of _ vm']) (simp add: vm'_def)
qed

text \<open>
  Destroying a page directory frees its own page and the pages of its user
  tables, exactly these, and leaves the mappings of every other address space as they are.
  The frames it maps are not freed.
\<close>

theorem pagedir_destroy_frees:
  assumes M: "mmu_ok M" and wf: "vm_wf M D vm" "pd \<in> D" and pd: "pd \<noteq> init_page_dir vm"
  shows "\<exists>vm'. pagedir_destroy M pd vm = Some vm' \<and> vm_wf M (D - {pd}) vm' \<and>
    (\<forall>p. pages vm' p = (if p = pd \<or> p \<in> dir_tables M vm pd then None else pages vm p)) \<and>
    pd_map M (D - {pd}) vm' = (\<lambda>k. if fst k = pd then None else pd_map M D vm k)"
proof -
  let ?ps = "\<lambda>p. if p = pd \<or> p \<in> dir_tables M vm pd then None else pages vm p"
  obtain vm' where "pagedir_destroy M pd vm = Some vm'" "vm_wf M (D - {pd}) vm'" "vm' = vm\<lparr>pages := ?ps\<rparr>"
    "pd_map M (D - {pd}) vm' = (\<lambda>k. if fst k = pd then None else pd_map M D vm k)"
    using pagedir_destroy_spec [OF assms] by blast
  moreover from this(3) have "pages vm' p = ?ps p" for p by simp
  ultimately show ?thesis by blast
qed

theorem pagedir_destroy_frees_witness:
  "\<exists>vm'. pagedir_destroy x86 0xc0200000 demo_vm = Some vm' \<and> pages vm' 0xc0200000 = None \<and> pages vm' 0xc0201000 = Some (replicate 1024 0)"
proof -
  have "0xc0201000 \<notin> dir_tables x86 demo_vm 0xc0200000"
    using demo_vm_user_table mmu_okD(1) [OF x86_ok, of "PHYS_BASE x86"] by (auto simp: dir_tables_def)
  moreover have "pages demo_vm 0xc0201000 = Some (replicate 1024 0)" by (simp add: demo_vm_def)
  ultimately show ?thesis
    using pagedir_destroy_frees [OF x86_ok demo_vm_wf, of "0xc0200000"] by (auto simp: demo_vm_def)
qed

end
