(* ===== verification/Vm_Props.thy ===== *)
theory Vm_Props
  imports Vm Pagedir_Props
begin

text \<open>
  Properties of demand paging: the clock, what a page fault brings into memory, and what
  goes wrong when frames are reused.
\<close>

section \<open>What the page directory operations keep\<close>

lemma vmm_more:
  fixes s s' :: "('d, 'f) vmm"
  assumes "vm.more s' = vm.more s"
  shows "frame_table s' = frame_table s" "next_frame s' = next_frame s" "fail_on_next s' = fail_on_next s" "ram s' = ram s"
    "swap_space s' = swap_space s" "cur_thread s' = cur_thread s" "thread_pagedir s' = thread_pagedir s"
    "sup_page_table s' = sup_page_table s" "files s' = files s"
  using assms by (cases s; cases s'; simp)+

lemma cur_pages_more:
  fixes s s' :: "('d, 'f) vmm"
  assumes "vm.more s' = vm.more s"
  shows "cur_pages s' = cur_pages s" "cur_pagedir s' = cur_pagedir s" "find_page m s' = find_page m s" "find_upage u s' = find_upage u s"
  using vmm_more [OF assms] by (simp_all add: cur_pages_def cur_pagedir_def find_page_def find_upage_def)

text \<open>Changes of the other fields do not touch the page tables.\<close>

lemma wf_vmm [simp]:
  fixes s :: "('d, 'f) vmm"
  shows "vm_wf M D (frame_table_update a s) = vm_wf M D s" "vm_wf M D (next_frame_update b s) = vm_wf M D s"
    "vm_wf M D (fail_on_next_update c s) = vm_wf M D s" "vm_wf M D (ram_update d s) = vm_wf M D s"
    "vm_wf M D (swap_space_update e s) = vm_wf M D s" "vm_wf M D (sup_page_table_update g s) = vm_wf M D s"
    "vm_wf M D (files_update h s) = vm_wf M D s"
  by (simp_all add: vm_wf_def dir_ok_def user_table_def)

lemma pte_vmm [simp]:
  fixes s :: "('d, 'f) vmm"
  shows "pte_at M (frame_table_update a s) pd va = pte_at M s pd va" "pte_at M (next_frame_update b s) pd va = pte_at M s pd va"
    "pte_at M (fail_on_next_update c s) pd va = pte_at M s pd va" "pte_at M (ram_update d s) pd va = pte_at M s pd va"
    "pte_at M (swap_space_update e s) pd va = pte_at M s pd va" "pte_at M (sup_page_table_update g s) pd va = pte_at M s pd va"
    "pte_at M (files_update h s) pd va = pte_at M s pd va"
  by (simp_all add: pte_at_def user_table_def)

lemma pd_map_cong: "(\<And>pd va. pte_at M s' pd va = pte_at M s pd va) \<Longrightarrow> pd_map M D s' = pd_map M D s"
  by (simp add: pd_map_def pte_val_def fun_eq_iff)

lemma pd_map_vmm [simp]:
  fixes s :: "('d, 'f) vmm"
  shows "pd_map M D (frame_table_update a s) = pd_map M D s" "pd_map M D (next_frame_update b s) = pd_map M D s"
    "pd_map M D (fail_on_next_update c s) = pd_map M D s" "pd_map M D (ram_update d s) = pd_map M D s"
    "pd_map M D (swap_space_update e s) = pd_map M D s" "pd_map M D (sup_page_table_update g s) = pd_map M D s"
    "pd_map M D (files_update h s) = pd_map M D s"
  by (rule pd_map_cong, simp)+

section \<open>The clock\<close>

lemma takeWhile_prefix: "j < length (takeWhile P xs) \<Longrightarrow> P (xs ! j)"
  by (metis nth_mem set_takeWhileD takeWhile_nth)

abbreviation frame_key :: "frame \<Rightarrow> u32 \<times> u32" where
  "frame_key f \<equiv> (f_pd f, f_upage f)"

abbreviation accessed :: "mmu \<Rightarrow> ('d, 'f) vmm \<Rightarrow> frame \<Rightarrow> bool" where
  "accessed M s f \<equiv> is_set (pte_val M s (f_pd f) (f_upage f)) (PTE_A M)"

definition frames_ok :: "mmu \<Rightarrow> u32 set \<Rightarrow> frame list \<Rightarrow> bool" where
  "frames_ok M D fs \<longleftrightarrow> (\<forall>f\<in>set fs. pd_key_ok M D (frame_key f)) \<and> distinct (map frame_key fs)"

lemma clock_loop_spec:
  assumes M: "mmu_ok M"
  shows "vm_wf M D s \<Longrightarrow> frames_ok M D fs \<Longrightarrow>
    \<exists>s'. clock_loop M fs i s = Some (let n = length (takeWhile (accessed M s) fs) in
        if n < length fs then Some (i + n) else if i + n = 0 then None else Some (i + n - 1), s') \<and>
      vm_wf M D s' \<and> vm.more s' = vm.more s \<and> pd_map M D s' = pd_map M D s \<and> cr3 s' = cr3 s \<and> init_page_dir s' = init_page_dir s \<and>
      (\<forall>g. pd_key_ok M D (frame_key g) \<longrightarrow>
         (accessed M s' g \<longleftrightarrow> accessed M s g \<and> frame_key g \<notin> frame_key ` set (takeWhile (accessed M s) fs)))"
proof (induction fs arbitrary: i s)
  case (Cons f fs)
  have k: "pd_key_ok M D (f_pd f, f_upage f)" and fs: "frames_ok M D fs" using Cons.prems(2) by (auto simp: frames_ok_def)
  then have pd: "f_pd f \<in> D" "is_user_vaddr M (f_upage f)" by (simp_all add: pd_key_ok_def)
  have t: "pagedir_is_accessed M (f_pd f) (f_upage f) s = Some (accessed M s f)"
    using pagedir_test_spec [OF M Cons.prems(1) pd] by (simp add: pagedir_is_accessed_def)
  show ?case
  proof (cases "accessed M s f")
    case False
    then show ?thesis using t Cons.prems by (intro exI [of _ s]) auto
  next
    case True
    have at: "pte_at M s (f_pd f) (f_upage f) \<noteq> None" using True by (auto simp: pte_val_def split: option.splits)
    obtain s1 e where s1: "pagedir_set_accessed M (f_pd f) (f_upage f) False s = Some s1" "vm_upd M D s (f_pd f) (f_upage f) e s1"
      "e = with_flag (PTE_A M) False (pte_val M s (f_pd f) (f_upage f))"
      using pagedir_flag_upd [OF M _ Cons.prems(1) k, of "PTE_A M" False] at unfolding pagedir_set_accessed_def by metis
    have m1: "pd_map M D s1 = pd_map M D s"
      using pagedir_flag_map [OF M _ Cons.prems(1) k, of "PTE_A M" False] s1(1) unfolding pagedir_set_accessed_def by auto
    have e: "\<not> is_set e (PTE_A M)" unfolding s1(3) using with_flag_set [of "PTE_A M" False] M by (simp add: mmu_ok_def flags_ok_def)
    have acc: "accessed M s1 g \<longleftrightarrow> accessed M s g \<and> (f_pd g, f_upage g) \<noteq> (f_pd f, f_upage f)" if "pd_key_ok M D (f_pd g, f_upage g)" for g
      using vm_updD(5) [OF s1(2), of "f_pd g" "f_upage g"] that k same_page [OF M, of "f_upage f" "f_upage g"] e
      by (auto simp: pd_key_ok_def)
    have in1: "accessed M s1 g \<longleftrightarrow> accessed M s g" if "g \<in> set fs" for g
    proof -
      have "pd_key_ok M D (frame_key g)" "frame_key g \<noteq> frame_key f"
        using Cons.prems(2) that unfolding frames_ok_def by (auto simp: image_iff)
      then show ?thesis using acc by blast
    qed
    then have tw: "takeWhile (accessed M s1) fs = takeWhile (accessed M s) fs" by (intro takeWhile_cong) simp_all
    obtain s' where s': "clock_loop M fs (Suc i) s1 = Some (let n = length (takeWhile (accessed M s1) fs) in
        if n < length fs then Some (Suc i + n) else if Suc i + n = 0 then None else Some (Suc i + n - 1), s')"
      "vm_wf M D s'" "vm.more s' = vm.more s1" "pd_map M D s' = pd_map M D s1" "cr3 s' = cr3 s1" "init_page_dir s' = init_page_dir s1"
      "\<forall>g. pd_key_ok M D (frame_key g) \<longrightarrow>
         (accessed M s' g \<longleftrightarrow> accessed M s1 g \<and> frame_key g \<notin> frame_key ` set (takeWhile (accessed M s1) fs))"
      using Cons.IH [OF vm_updD(1) [OF s1(2)] fs, of "Suc i"] by blast
    have n: "length (takeWhile (accessed M s) (f # fs)) = Suc (length (takeWhile (accessed M s) fs))" using True by simp
    have "clock_loop M (f # fs) i s = clock_loop M fs (Suc i) s1" using t True s1(1) by simp
    also have "\<dots> = Some (let n = length (takeWhile (accessed M s) (f # fs)) in
        if n < length (f # fs) then Some (i + n) else if i + n = 0 then None else Some (i + n - 1), s')"
      unfolding s'(1) tw n Let_def by simp
    finally have loop: "clock_loop M (f # fs) i s = \<dots>" .
    have "accessed M s' g \<longleftrightarrow> accessed M s g \<and> frame_key g \<notin> frame_key ` set (takeWhile (accessed M s) (f # fs))"
      if "pd_key_ok M D (frame_key g)" for g
      using s'(7) acc [OF that] that True unfolding tw by auto
    then show ?thesis using loop s'(2-6) m1 vm_updD(2-4) [OF s1(2)] by auto
  qed
qed auto

section \<open>Choosing and reusing frames\<close>

text \<open>
  The clock gives every frame used since the last sweep a second chance. It
  always finds a frame: the first in the table whose accessed bit is not set, or the last one
  when all are set; the frames before it lose their accessed bit, the others keep theirs, and
  no mapping changes.
\<close>

theorem frame_clock_second_chance:
  assumes "mmu_ok (hw ops)" "vm_wf (hw ops) D s" "frames_ok (hw ops) D (frame_table s)" "frame_table s \<noteq> []"
  shows "\<exists>i s'. frame_clock ops s = Some (Some i, s') \<and> i < length (frame_table s) \<and> frame_table s' = frame_table s \<and>
    pd_map (hw ops) D s' = pd_map (hw ops) D s \<and>
    (\<forall>j<i. accessed (hw ops) s (frame_table s ! j)) \<and>
    (accessed (hw ops) s (frame_table s ! i) \<longrightarrow> Suc i = length (frame_table s)) \<and>
    (\<forall>j<length (frame_table s). accessed (hw ops) s' (frame_table s ! j) \<longleftrightarrow> i < j \<and> accessed (hw ops) s (frame_table s ! j))"
proof -
  let ?M = "hw ops" and ?fs = "frame_table s"
  define n where "n = length (takeWhile (accessed ?M s) ?fs)"
  define i where "i = (if n < length ?fs then n else n - 1)"
  have n: "n \<le> length ?fs" by (simp add: n_def length_takeWhile_le)
  obtain s' where s': "clock_loop ?M ?fs 0 s = Some (let n = length (takeWhile (accessed ?M s) ?fs) in
        if n < length ?fs then Some (0 + n) else if 0 + n = 0 then None else Some (0 + n - 1), s')"
      "vm.more s' = vm.more s" "pd_map ?M D s' = pd_map ?M D s"
      "\<forall>g. pd_key_ok ?M D (frame_key g) \<longrightarrow>
         (accessed ?M s' g \<longleftrightarrow> accessed ?M s g \<and> frame_key g \<notin> frame_key ` set (takeWhile (accessed ?M s) ?fs))"
    using clock_loop_spec [OF assms(1-3), of 0] by blast
  have r: "frame_clock ops s = Some (Some i, s')"
    using s'(1) assms(4) n unfolding frame_clock_def n_def [symmetric] Let_def i_def by auto
  have i: "i < length ?fs" using assms(4) n by (cases "n < length ?fs") (auto simp: i_def)
  have acc: "accessed ?M s (?fs ! j)" if "j < n" for j
    using that unfolding n_def by (rule takeWhile_prefix)
  have last: "\<not> accessed ?M s (?fs ! n)" if "n < length ?fs"
    using that nth_length_takeWhile [of "accessed ?M s" ?fs] by (simp only: n_def not_False_eq_True)
  have tw: "set (takeWhile (accessed ?M s) ?fs) = (\<lambda>j. ?fs ! j) ` {..<n}"
  proof -
    have "takeWhile (accessed ?M s) ?fs = take n ?fs" unfolding n_def by (rule takeWhile_eq_take)
    then show ?thesis using nth_image [OF n] by (simp add: lessThan_atLeast0)
  qed
  have eq: "frame_key (?fs ! j) = frame_key (?fs ! k) \<longleftrightarrow> j = k" if "j < length ?fs" "k < length ?fs" for j k
    using assms(3) that nth_eq_iff_index_eq [of "map frame_key ?fs" j k] by (simp add: frames_ok_def)
  have "accessed ?M s' (?fs ! j) \<longleftrightarrow> i < j \<and> accessed ?M s (?fs ! j)" if j: "j < length ?fs" for j
  proof -
    have "pd_key_ok ?M D (frame_key (?fs ! j))" using assms(3) j by (simp add: frames_ok_def)
    then have "accessed ?M s' (?fs ! j) \<longleftrightarrow> accessed ?M s (?fs ! j) \<and> frame_key (?fs ! j) \<notin> (\<lambda>k. frame_key (?fs ! k)) ` {..<n}"
      using s'(4) unfolding tw image_image by blast
    moreover have "frame_key (?fs ! j) \<in> (\<lambda>k. frame_key (?fs ! k)) ` {..<n} \<longleftrightarrow> j < n"
      using eq [OF j] n by (auto simp: image_iff)
    ultimately show ?thesis using last n i by (cases "n < length ?fs") (auto simp: i_def not_less le_less)
  qed
  moreover have "\<forall>j<i. accessed ?M s (?fs ! j)" using acc by (auto simp: i_def split: if_splits)
  moreover have "accessed ?M s (?fs ! i) \<longrightarrow> Suc i = length ?fs" using last n i by (auto simp: i_def)
  ultimately show ?thesis using r i vmm_more(1) [OF s'(2)] s'(3) by blast
qed

text \<open>
  Freed frames stop the clock. When the process that owns the first frame of the
  table exits, its frames keep a null directory, and once every frame has been handed out
  before, the next page fault of any process stops the kernel: the clock reads the accessed
  bit through that null pointer.
\<close>

theorem freed_frame_stops_clock:
  assumes "frame_table s = f # fs" "f_pd f = pd" "fail_on_next s"
  shows "frame_clock ops (frame_free pd s) = None \<and> frame_alloc ops upage w (frame_free pd s) = None"
proof -
  have "frame_clock ops (frame_free pd s) = None"
    using assms(1,2) by (simp add: frame_clock_def frame_free_def pagedir_is_accessed_def pagedir_test_def lookup_page_def)
  moreover have "fail_on_next (frame_free pd s)" using assms(3) by (simp add: frame_free_def)
  ultimately show ?thesis by (simp add: frame_alloc_def get_next_frame_def Let_def)
qed

lemma get_next_frame_keeps:
  assumes M: "mmu_ok (hw ops)" and wf: "vm_wf (hw ops) D s" "frames_ok (hw ops) D (frame_table s)" "fail_on_next s"
    and g: "get_next_frame ops s = Some (i, s1)"
  shows "vm_wf (hw ops) D s1" "pd_map (hw ops) D s1 = pd_map (hw ops) D s" "frame_table s1 = frame_table s" "i < length (frame_table s)"
    "cur_pagedir s1 = cur_pagedir s" "fail_on_next s1"
proof -
  let ?M = "hw ops"
  obtain s' where s': "vm_wf ?M D s'" "vm.more s' = vm.more s" "pd_map ?M D s' = pd_map ?M D s"
    "frame_clock ops s = Some (let n = length (takeWhile (accessed ?M s) (frame_table s)) in
        if n < length (frame_table s) then Some (0 + n) else if 0 + n = 0 then None else Some (0 + n - 1), s')"
    using clock_loop_spec [OF M wf(1,2), of 0] unfolding frame_clock_def by blast
  then have i: "i < length (frame_table s)" and e: "evict_frame ops (frame_table s' ! i) s' = Some s1"
    using g wf(3) length_takeWhile_le [of "accessed ?M s" "frame_table s"]
    by (auto simp: get_next_frame_def Let_def split: if_splits Option.bind_splits)
  then obtain sw ps where s1: "s1 = s'\<lparr>swap_space := sw, sup_page_table := ps\<rparr>"
    by (auto simp: evict_frame_def page_set_swap_def update_page_def set_cur_pages_def split: Option.bind_splits)
  note m = vmm_more [OF s'(2)]
  show "vm_wf ?M D s1" "pd_map ?M D s1 = pd_map ?M D s" "frame_table s1 = frame_table s" "i < length (frame_table s)"
    "cur_pagedir s1 = cur_pagedir s" "fail_on_next s1"
    using s' m i wf(3) by (simp_all add: s1 cur_pagedir_def)
qed

lemma frame_alloc_mapped:
  assumes M: "mmu_ok (hw ops)" and wf: "vm_wf (hw ops) D s" "frames_ok (hw ops) D (frame_table s)" "fail_on_next s"
    and m: "pd_map (hw ops) D s (cur_pagedir s, upage) \<noteq> None"
  shows "frame_alloc ops upage w s = None"
proof (cases "get_next_frame ops s")
  case None
  then show ?thesis by (simp add: frame_alloc_def)
next
  case (Some r)
  obtain i s1 where r: "r = (i, s1)" by force
  note k = get_next_frame_keeps [OF M wf Some [unfolded r]]
  have "pd_map (hw ops) D s1 (cur_pagedir s, upage) \<noteq> None" using m k(2) by simp
  then have "cur_pagedir s \<in> D" "is_user_vaddr (hw ops) upage" "is_set (pte_val (hw ops) s1 (cur_pagedir s) upage) (PTE_P (hw ops))"
    by (auto simp: pd_map_def split: if_splits)
  then show ?thesis using Some r pagedir_get_page_spec [OF M k(1)] by (simp add: frame_alloc_def Let_def)
qed

lemma frames_ok_update:
  assumes "frames_ok M D fs" "pd_key_ok M D (frame_key g)" "\<And>h. h \<in> set fs \<Longrightarrow> frame_key h \<noteq> frame_key g"
  shows "frames_ok M D (fs[i := g])"
proof -
  have "frame_key g \<notin> set (map frame_key fs)"
  proof
    assume "frame_key g \<in> set (map frame_key fs)"
    then have "frame_key g \<in> frame_key ` set fs" by (simp only: set_map)
    then obtain h where "frame_key g = frame_key h" "h \<in> set fs" by (rule imageE)
    then show False using assms(3) [of h] by simp
  qed
  then have "distinct ((map frame_key fs)[i := frame_key g])" using assms(1) by (intro distinct_list_update) (auto simp: frames_ok_def)
  then show ?thesis using assms(1,2) set_update_subset_insert [of fs i g] unfolding frames_ok_def map_update by blast
qed

text \<open>
  C30 (safety): an evicted page stays mapped. When a frame is reused, the page that was in it
  keeps its entry in the page tables, so that afterwards two different user pages are mapped
  to the same frame; the process that lost the page reads and writes the other's memory without a
  fault. If the page of the current process is to be brought back, the kernel stops.
\<close>

theorem evicted_page_aliased:
  assumes M: "mmu_ok (hw ops)" and wf: "vm_wf (hw ops) D s" "frames_ok (hw ops) D (frame_table s)" "fail_on_next s"
    and cons: "\<And>f. f \<in> set (frame_table s) \<Longrightarrow> map_option fst (pd_map (hw ops) D s (frame_key f)) = Some (f_kpage f)"
    and pd: "cur_pagedir s \<in> D" and a: "frame_alloc ops upage w s = Some (kpage, s')"
  shows "\<exists>f\<in>set (frame_table s). frame_key f \<noteq> (cur_pagedir s, upage) \<and>
    map_option fst (pd_map (hw ops) D s' (frame_key f)) = Some kpage \<and> pd_map (hw ops) D s' (cur_pagedir s, upage) = Some (kpage, w) \<and>
    (f_pd f = cur_pagedir s \<longrightarrow> frame_alloc ops (f_upage f) w' s' = None)"
proof -
  let ?M = "hw ops" and ?k = "(cur_pagedir s, upage)"
  obtain i s1 s2 where g: "get_next_frame ops s = Some (i, s1)" and kp: "kpage = f_kpage (frame_table s1 ! i)"
    and sp: "pagedir_set_page ?M (cur_pagedir s) upage kpage w s1 = Some (True, s2)"
    and s': "s' = s2\<lparr>frame_table := (frame_table s2)[i := (frame_table s2 ! i)\<lparr>f_upage := upage, f_pd := cur_pagedir s\<rparr>]\<rparr>"
    using a by (auto simp: frame_alloc_def Let_def kernel_simps split: Option.bind_splits)
  note k = get_next_frame_keeps [OF M wf g]
  have st: "pd_set ?M D ?k (kpage, w) s1 = Some s2" using sp pd by (simp add: pd_set_def)
  note l = pd_set_law [OF M k(1) st]
  have pre: "set_page_pre ?M s1 (cur_pagedir s) upage kpage" "\<not> is_set (pte_val ?M s1 (cur_pagedir s) upage) (PTE_P ?M)"
    using set_page_pre_holds [OF M k(1) pd sp] by simp_all
  obtain s2' where "pagedir_set_page ?M (cur_pagedir s) upage kpage w s1 = Some (True, s2')" "vm.more s2' = vm.more s1"
    using pagedir_set_page_spec [OF M k(1) pd pre, of w] vm_updD(4) by blast
  then have more: "vm.more s2 = vm.more s1" using sp by simp
  note m2 = vmm_more [OF more] cur_pages_more [OF more]
  define f where "f = frame_table s ! i"
  have f: "f \<in> set (frame_table s)" "f_kpage f = kpage" using k(3,4) kp by (simp_all add: f_def)
  have key: "frame_key g \<noteq> ?k" if "g \<in> set (frame_table s)" for g using cons [OF that] l k(2) by auto
  have m': "pd_map ?M D s' = (pd_map ?M D s)(?k \<mapsto> (kpage, w))" using l k(2) by (simp add: s')
  have "pd_key_ok ?M D ?k" using pre(1) pd by (simp add: pd_key_ok_def set_page_pre_def)
  moreover have "frame_table s' = (frame_table s)[i := f\<lparr>f_upage := upage, f_pd := cur_pagedir s\<rparr>]"
    using m2(1) k(3) by (simp add: s' f_def)
  ultimately have fo: "frames_ok ?M D (frame_table s')"
    using frames_ok_update [OF wf(2)] key by simp
  have "frame_alloc ops (f_upage f) w' s' = None" if "f_pd f = cur_pagedir s"
  proof (rule frame_alloc_mapped [OF M])
    have c: "cur_pagedir s' = cur_pagedir s" using m2(6,7) k(5) by (simp add: s' cur_pagedir_def)
    show "vm_wf ?M D s'" "fail_on_next s'" using l m2(3) k(6) by (simp_all add: s')
    show "frames_ok ?M D (frame_table s')" by (rule fo)
    show "pd_map ?M D s' (cur_pagedir s', f_upage f) \<noteq> None"
      using cons [OF f(1)] key [OF f(1)] that unfolding m' c by auto
  qed
  then show ?thesis using f key [OF f(1)] cons [OF f(1)] unfolding m' by (intro bexI [of _ f]) auto
qed

section \<open>Bringing pages in\<close>

lemma flag_keeps:
  fixes s :: "('d, 'f) vmm"
  assumes M: "mmu_ok M" "flag = PTE_A M \<or> flag = PTE_D M" and wf: "vm_wf M D s" and k: "pd_key_ok M D (pd, va)"
  obtains s' where "pagedir_flag M flag pd va on s = Some s'" "vm_wf M D s'" "pd_map M D s' = pd_map M D s"
    "vm.more s' = vm.more s" "cr3 s' = cr3 s"
proof -
  obtain s' e where u: "pagedir_flag M flag pd va on s = Some s'" "vm_upd M D s pd va e s'"
    using pagedir_flag_upd [OF M wf k] by metis
  then show thesis using that pagedir_flag_map [OF M wf k, of on] vm_updD(1,3,4) [OF u(2)] by auto
qed

lemma user_write_spec:
  fixes s :: "('d, 'f) vmm"
  assumes M: "mmu_ok (hw ops)" and wf: "vm_wf (hw ops) D s" and k: "pd_key_ok (hw ops) D (cr3 s, va)"
    and m: "pd_map (hw ops) D s (cr3 s, va) = Some (kpage, w)" "ram s kpage = Some pg"
  obtains s' where "user_write ops va bytes s = Some (s'\<lparr>ram := (ram s)(kpage \<mapsto> memcpy_at 0 bytes pg)\<rparr>)" "vm_wf (hw ops) D s'"
    "pd_map (hw ops) D s' = pd_map (hw ops) D s" "vm.more s' = vm.more s" "cr3 s' = cr3 s"
proof (cases "bytes = []")
  case True
  have "(ram s)(kpage \<mapsto> pg) = ram s" using m(2) by (simp add: fun_upd_idem)
  then show thesis using that [of s] True wf by (simp add: user_write_def memcpy_at_def)
next
  case False
  have "user_frame ops va s = Some (kpage, pg)"
    using pagedir_get_page_spec [OF M wf, of "cr3 s" va] k m by (auto simp: user_frame_def pd_map_def pd_key_ok_def split: if_splits)
  moreover obtain s1 where s1: "pagedir_flag (hw ops) (PTE_A (hw ops)) (cr3 s) va True s = Some s1" "vm_wf (hw ops) D s1"
    "pd_map (hw ops) D s1 = pd_map (hw ops) D s" "vm.more s1 = vm.more s" "cr3 s1 = cr3 s"
    using flag_keeps [OF M _ wf k, of "PTE_A (hw ops)" True] by auto
  moreover obtain s2 where s2: "pagedir_flag (hw ops) (PTE_D (hw ops)) (cr3 s) va True s1 = Some s2" "vm_wf (hw ops) D s2"
    "pd_map (hw ops) D s2 = pd_map (hw ops) D s1" "vm.more s2 = vm.more s1" "cr3 s2 = cr3 s1"
    using flag_keeps [OF M _ s1(2) k, of "PTE_D (hw ops)" True] by auto
  moreover have "ram s2 = ram s" using vmm_more(4) [of s2 s] s1(4) s2(4) by simp
  ultimately show thesis using that [of s2] False
    by (simp add: user_write_def pagedir_set_accessed_def pagedir_set_dirty_def)
qed

text \<open>Where the contents of a page come from; a new stack page keeps what is in the frame.\<close>

definition page_source :: "('d, 'f) vm_ops \<Rightarrow> ('d, 'f) vmm \<Rightarrow> page \<Rightarrow> byte list \<Rightarrow> byte list option" where
  "page_source ops s p old =
     (if p_file p \<noteq> 0 then
        let left = file_length ops (p_file p) (files s) - p_off p in
        Some (memcpy_at 0 (file_read_at ops (p_file p) (if left < 4096 then left else 4096) (p_off p) (files s)) old)
      else case p_ss p of None \<Rightarrow> Some old | Some ss \<Rightarrow> swap_map (swap_part ops) (swap_space s) ss)"

lemma page_write_data_spec:
  fixes s :: "('d, 'f) vmm"
  assumes M: "mmu_ok (hw ops)" and wf: "vm_wf (hw ops) D s" and i: "find_upage va s = Some i" "cur_pages s ! i = p"
    and k: "pd_key_ok (hw ops) D (cr3 s, va)" "p_pd p = cr3 s" "pd_map (hw ops) D s (cr3 s, va) = Some (p_frame p, w)"
    and r: "ram s (p_frame p) = Some old" "length old = 4096" "swap_inv (swap_part ops) (swap_space s)"
    and src: "page_source ops s p old = Some new"
  shows "\<exists>b s'. page_write_data ops va s = Some (b, s') \<and> ram s' = (ram s)(p_frame p \<mapsto> new) \<and>
    vm_wf (hw ops) D s' \<and> pd_map (hw ops) D s' = pd_map (hw ops) D s"
proof -
  let ?M = "hw ops"
  have dirty: "\<exists>s'. pagedir_set_dirty ?M (p_pd p) va False t = Some s' \<and> vm_wf ?M D s' \<and> pd_map ?M D s' = pd_map ?M D t \<and> ram s' = ram t"
    if "vm_wf ?M D t" for t :: "('d, 'f) vmm"
    using flag_keeps [OF M _ that, of "PTE_D ?M" "p_pd p" va False] k(1,2) vmm_more(4) unfolding pagedir_set_dirty_def by metis
  show ?thesis
  proof (cases "p_file p = 0")
    case False
    define sz where "sz = (let left = file_length ops (p_file p) (files s) - p_off p in if left < 4096 then left else 4096)"
    define bytes where "bytes = file_read_at ops (p_file p) sz (p_off p) (files s)"
    have new: "new = memcpy_at 0 bytes old" using src False by (simp add: page_source_def bytes_def sz_def Let_def)
    obtain s1 where s1: "user_write ops va bytes s = Some (s1\<lparr>ram := (ram s)(p_frame p \<mapsto> memcpy_at 0 bytes old)\<rparr>)" "vm_wf ?M D s1"
      "pd_map ?M D s1 = pd_map ?M D s" "vm.more s1 = vm.more s" "cr3 s1 = cr3 s"
      by (rule user_write_spec [OF M wf k(1,3) r(1)])
    obtain s2 where "pagedir_set_dirty ?M (p_pd p) va False (s1\<lparr>ram := (ram s)(p_frame p \<mapsto> memcpy_at 0 bytes old)\<rparr>) = Some s2"
      "vm_wf ?M D s2" "pd_map ?M D s2 = pd_map ?M D s" "ram s2 = (ram s)(p_frame p \<mapsto> new)"
      using dirty [of "s1\<lparr>ram := (ram s)(p_frame p \<mapsto> memcpy_at 0 bytes old)\<rparr>"] s1(2,3) new by auto
    moreover have "file_size_in_page ops p s = Some sz" using False by (simp add: file_size_in_page_def sz_def Let_def)
    ultimately show ?thesis using False i s1(1) by (simp add: page_write_data_def bytes_def)
  next
    case True
    show ?thesis
    proof (cases "p_ss p")
      case None
      then have "new = old" using src True by (simp add: page_source_def)
      then show ?thesis using True None i wf r(1) by (intro exI [of _ False]) (simp add: page_write_data_def fun_upd_idem)
    next
      case (Some ss)
      then have "swap_map (swap_part ops) (swap_space s) ss = Some new" using src True by (simp add: page_source_def)
      then obtain sw where sw: "swap_in (swap_part ops) ss old (swap_space s) = Some (True, new, sw)"
        using swap_mapD swap_in_map [OF r(3,2)] by blast
      obtain s2 where "pagedir_set_dirty ?M (p_pd p) va False (s\<lparr>ram := (ram s)(p_frame p \<mapsto> new), swap_space := sw\<rparr>) = Some s2"
        "vm_wf ?M D s2" "pd_map ?M D s2 = pd_map ?M D s" "ram s2 = (ram s)(p_frame p \<mapsto> new)"
        using dirty [of "s\<lparr>ram := (ram s)(p_frame p \<mapsto> new), swap_space := sw\<rparr>"] wf by auto
      then show ?thesis using True Some i r(1) sw by (intro exI [of _ True]) (simp add: page_write_data_def)
    qed
  qed
qed

lemma frame_alloc_fresh:
  fixes s :: "('d, 'f) vmm"
  assumes M: "mmu_ok (hw ops)" and wf: "vm_wf (hw ops) D s" and n: "\<not> fail_on_next s"
    and kp: "kpage = f_kpage (frame_table s ! next_frame s)"
    and pd: "cur_pagedir s \<in> D" "set_page_pre (hw ops) s (cur_pagedir s) upage kpage" "pd_map (hw ops) D s (cur_pagedir s, upage) = None"
  obtains s' where "frame_alloc ops upage w s = Some (kpage, s')" "vm_wf (hw ops) D s'"
    "pd_map (hw ops) D s' = (pd_map (hw ops) D s)((cur_pagedir s, upage) \<mapsto> (kpage, w))"
    "ram s' = ram s" "swap_space s' = swap_space s" "files s' = files s" "cur_pages s' = cur_pages s" "cr3 s' = cr3 s"
    "cur_pagedir s' = cur_pagedir s"
proof -
  let ?M = "hw ops" and ?pd = "cur_pagedir s"
  obtain nf fo where s1: "get_next_frame ops s = Some (next_frame s, s\<lparr>next_frame := nf, fail_on_next := fo\<rparr>)"
  proof (cases "Suc (next_frame s) = length (frame_table s)")
    case True
    then show thesis using that [of True 0] n by (simp add: get_next_frame_def)
  next
    case False
    then show thesis using that [of False "Suc (next_frame s)"] n by (cases s) (simp add: get_next_frame_def)
  qed
  define s1 where "s1 = s\<lparr>next_frame := nf, fail_on_next := fo\<rparr>"
  have u: "is_user_vaddr ?M upage" "pg_ofs ?M upage = 0" using pd(2) by (simp_all add: set_page_pre_def)
  have wf1: "vm_wf ?M D s1" "pd_map ?M D s1 = pd_map ?M D s" "set_page_pre ?M s1 ?pd upage kpage"
    using wf pd(2) by (simp_all add: s1_def set_page_pre_def)
  have np: "\<not> is_set (pte_val ?M s1 ?pd upage) (PTE_P ?M)"
    using pd_map_None [of ?M D ?pd upage s1] pd(1,3) u wf1(2) by (simp add: pd_key_ok_def)
  obtain s2 where s2: "pagedir_set_page ?M ?pd upage kpage w s1 = Some (True, s2)" "vm_upd ?M D s1 ?pd upage (pte_create_user ?M kpage w) s2"
    using pagedir_set_page_spec [OF M wf1(1) pd(1) wf1(3) np, of w] by blast
  have "pd_set ?M D (?pd, upage) (kpage, w) s1 = Some s2" using s2(1) pd(1) by (simp add: pd_set_def)
  note l = pd_set_law [OF M wf1(1) this]
  have g: "pagedir_get_page ?M ?pd upage s1 = Some None" using pagedir_get_page_spec [OF M wf1(1) pd(1) u(1)] np by simp
  note m = vmm_more [OF vm_updD(4) [OF s2(2)]]
  define s' where "s' = s2\<lparr>frame_table := (frame_table s2)[next_frame s := (frame_table s2 ! next_frame s)\<lparr>f_upage := upage, f_pd := ?pd\<rparr>]\<rparr>"
  have "frame_alloc ops upage w s = Some (kpage, s')"
    using s1 g s2(1) kp by (simp add: frame_alloc_def Let_def s'_def flip: s1_def) (simp add: s1_def)
  moreover have "ram s' = ram s" "swap_space s' = swap_space s" "files s' = files s" "cur_pages s' = cur_pages s" "cr3 s' = cr3 s"
    "cur_pagedir s' = cur_pagedir s"
    using m vm_updD(3) [OF s2(2)] by (simp_all add: s'_def s1_def cur_pages_def cur_pagedir_def)
  ultimately show thesis using that [of s'] l wf1(2) by (simp add: s'_def)
qed

lemma page_set_frame_known:
  assumes "find_upage va s = Some i" "p_writable (cur_pages s ! i) = w"
  shows "page_set_frame ops va kpage w s = Some (update_page i (\<lambda>p. p\<lparr>p_active := True, p_frame := kpage\<rparr>) s)"
  using assms by (simp add: page_set_frame_def)

lemma update_page_find:
  assumes "find_upage va s = Some i" "\<And>p. p_upage (g p) = p_upage p"
  shows "find_upage va (update_page i g s) = Some i" "cur_pages (update_page i g s) ! i = g (cur_pages s ! i)"
proof -
  have i: "i < length (cur_pages s)" "match_upage va (cur_pages s ! i)" "\<forall>j<i. \<not> match_upage va (cur_pages s ! j)"
    using first_index_Some assms(1) unfolding find_upage_def find_page_def by blast+
  have c: "cur_pages (update_page i g s) = (cur_pages s)[i := g (cur_pages s ! i)]"
    by (simp add: update_page_def set_cur_pages_def cur_pages_def)
  show "cur_pages (update_page i g s) ! i = g (cur_pages s ! i)" using i(1) by (simp add: c)
  have "map (match_upage va) ((cur_pages s)[i := g (cur_pages s ! i)]) = map (match_upage va) (cur_pages s)"
    using i(1) by (intro nth_equalityI) (auto simp: nth_list_update match_upage_def assms(2))
  moreover have "first_index P xs = first_index id (map P xs)" for P and xs :: "page list" by (induction xs) auto
  ultimately show "find_upage va (update_page i g s) = Some i"
    using assms(1) unfolding find_upage_def find_page_def c by metis
qed

text \<open>
  A fault on a writable page that is not mapped, while unused frames are left. (Pages get their swap slots when they are
  evicted, and evicted pages stay mapped, so that this is about pages of files and pages with no contents.)
\<close>

lemma page_fetch_fresh:
  fixes s :: "('d, 'f) vmm"
  assumes M: "mmu_ok (hw ops)" and wf: "vm_wf (hw ops) D s" and n: "\<not> fail_on_next s"
    and kp: "kpage = f_kpage (frame_table s ! next_frame s)" "ram s kpage = Some old" "length old = 4096"
    and pd: "cur_pagedir s \<in> D" "cr3 s = cur_pagedir s" "set_page_pre (hw ops) s (cur_pagedir s) (pg_round_down ops uaddr) kpage"
      "pd_map (hw ops) D s (cur_pagedir s, pg_round_down ops uaddr) = None"
    and u: "is_user_vaddr (hw ops) uaddr" "pg_round_down ops uaddr \<noteq> 0"
    and p: "find_upage (pg_round_down ops uaddr) s = Some i" "cur_pages s ! i = p" "p_writable p" "p_pd p = cur_pagedir s"
    and src: "swap_inv (swap_part ops) (swap_space s)" "page_source ops s p old = Some new"
  shows "\<exists>s'. page_fetch ops uaddr esp write s = Some (True, s') \<and> vm_wf (hw ops) D s' \<and>
    pd_map (hw ops) D s' = (pd_map (hw ops) D s)((cur_pagedir s, pg_round_down ops uaddr) \<mapsto> (kpage, True)) \<and>
    ram s' = (ram s)(kpage \<mapsto> new)"
proof -
  let ?M = "hw ops" and ?pd = "cur_pagedir s" and ?pg = "pg_round_down ops uaddr"
  obtain s1 where s1: "frame_alloc ops ?pg True s = Some (kpage, s1)" "vm_wf ?M D s1" "pd_map ?M D s1 = (pd_map ?M D s)((?pd, ?pg) \<mapsto> (kpage, True))"
    "ram s1 = ram s" "swap_space s1 = swap_space s" "files s1 = files s" "cur_pages s1 = cur_pages s" "cr3 s1 = cr3 s" "cur_pagedir s1 = ?pd"
    by (rule frame_alloc_fresh [OF M wf n kp(1) pd(1,3,4)])
  have f1: "find_upage ?pg s1 = Some i" using p(1) s1(7) by (simp add: find_upage_def find_page_def)
  define g :: "page \<Rightarrow> page" where "g = (\<lambda>p. p\<lparr>p_active := True, p_frame := kpage\<rparr>)"
  define s2 where "s2 = update_page i g s1"
  have sf: "page_set_frame ops ?pg kpage True s1 = Some s2"
    using page_set_frame_known [OF f1, of True ops kpage] p(2,3) s1(7) by (simp add: s2_def g_def)
  have f2: "find_upage ?pg s2 = Some i" "cur_pages s2 ! i = g p"
    using update_page_find [OF f1, of g] p(2) s1(7) by (simp_all add: s2_def g_def)
  have k2: "vm_wf ?M D s2" "pd_map ?M D s2 = pd_map ?M D s1" "ram s2 = ram s" "swap_space s2 = swap_space s" "files s2 = files s" "cr3 s2 = ?pd"
    using s1 pd(2) by (simp_all add: s2_def update_page_def set_cur_pages_def)
  have key: "pd_key_ok ?M D (?pd, ?pg)" using pd(1,3) by (simp add: pd_key_ok_def set_page_pre_def)
  have "page_source ops s2 (g p) old = page_source ops s p old" unfolding page_source_def k2(4,5) by (simp add: g_def)
  then have "page_source ops s2 (g p) old = Some new" using src(2) by simp
  then obtain b s3 where "page_write_data ops ?pg s2 = Some (b, s3)" "ram s3 = (ram s)(kpage \<mapsto> new)" "vm_wf ?M D s3" "pd_map ?M D s3 = pd_map ?M D s1"
    using page_write_data_spec [OF M k2(1) f2, of True old new] key p(4) s1(3) kp k2 src(1) by (auto simp: g_def)
  then show ?thesis using s1(1,3) sf u p by (simp add: page_fetch_def page_in_table_def page_is_writable_def)
qed

text \<open>
  C15 (functional): a fault on a writable page of a file (as the pages of mapped files are) that is not in memory
  brings it in, while unused frames and memory for its page table are left: \<open>page_fetch\<close> returns true; afterwards the page,
  and nothing else, is newly mapped, to the next frame and writable; the frame holds the bytes
  of the file from the offset of the page on. What the file does not cover keeps the bytes of the previous use of the frame.
\<close>

theorem page_fetch_loads:
  fixes s :: "('d, 'f) vmm"
  assumes "mmu_ok (hw ops)" "vm_wf (hw ops) D s" "\<not> fail_on_next s" "swap_inv (swap_part ops) (swap_space s)"
    and "kpage = f_kpage (frame_table s ! next_frame s)" "ram s kpage = Some old" "length old = 4096"
    and "cur_pagedir s \<in> D" "cr3 s = cur_pagedir s" "set_page_pre (hw ops) s (cur_pagedir s) (pg_round_down ops uaddr) kpage"
      "pd_map (hw ops) D s (cur_pagedir s, pg_round_down ops uaddr) = None"
    and "is_user_vaddr (hw ops) uaddr" "pg_round_down ops uaddr \<noteq> 0"
    and "find_upage (pg_round_down ops uaddr) s = Some i" "cur_pages s ! i = p" "p_writable p" "p_pd p = cur_pagedir s" "p_file p \<noteq> 0"
  shows "\<exists>s'. page_fetch ops uaddr esp write s = Some (True, s') \<and> vm_wf (hw ops) D s' \<and>
    pd_map (hw ops) D s' = (pd_map (hw ops) D s)((cur_pagedir s, pg_round_down ops uaddr) \<mapsto> (kpage, True)) \<and>
    ram s' = (ram s)(kpage \<mapsto> memcpy_at 0 (file_read_at ops (p_file p) (min (file_length ops (p_file p) (files s) - p_off p) 4096)
      (p_off p) (files s)) old)"
  by (rule page_fetch_fresh [OF assms(1-3,5-17,4)]) (use assms(18) in \<open>simp add: page_source_def min_def Let_def, linarith?\<close>)

text \<open>The faults that nothing can be done about.\<close>

definition bad_access :: "('d, 'f) vm_ops \<Rightarrow> u32 \<Rightarrow> u32 \<Rightarrow> bool \<Rightarrow> ('d, 'f) vmm \<Rightarrow> bool" where
  "bad_access ops uaddr esp write s \<longleftrightarrow>
     \<not> is_user_vaddr (hw ops) uaddr \<or>
     \<not> page_in_table (pg_round_down ops uaddr) s \<and> (esp = 0 \<or> uaddr \<noteq> esp - 4 \<and> uaddr \<noteq> esp - 32 \<and> uaddr < esp) \<or>
     page_in_table (pg_round_down ops uaddr) s \<and> write \<and> page_is_writable (pg_round_down ops uaddr) s = Some False"

text \<open>
  \<open>page_fetch\<close> reports failure, and then changes nothing, for exactly these
  faults: a kernel address; a page that is not in the supplemental table when the stack pointer is not
  given or the address is not where a stack may grow (at or above the stack pointer, or 4 or
  32 bytes below it); a write to a read-only page.
\<close>

lemma page_fetch_rejects:
  "page_fetch ops uaddr esp write s = Some (False, s') \<longleftrightarrow> s' = s \<and> bad_access ops uaddr esp write s"
proof -
  let ?pg = "pg_round_down ops uaddr"
  have 1: "Option.bind (frame_alloc ops ?pg True s) (\<lambda>(kpage, s1). Option.bind (page_set_frame ops ?pg kpage True s1) (\<lambda>s2. Some (True, s2)))
    \<noteq> Some (False, s')" by (auto split: Option.bind_splits)
  have 2: "Option.bind (frame_alloc ops ?pg True s) (\<lambda>(kpage, s1). Option.bind (page_set_frame ops ?pg kpage True s1)
      (\<lambda>s2. Option.bind (page_write_data ops ?pg s2) (\<lambda>(b, s3). Some (True, s3)))) \<noteq> Some (False, s')"
    by (auto split: Option.bind_splits)
  have g: "\<not> stack_growth uaddr esp \<longleftrightarrow> uaddr \<noteq> esp - 4 \<and> uaddr \<noteq> esp - 32 \<and> uaddr < esp"
    by (auto simp: stack_growth_def not_le)
  show ?thesis
  proof (cases "page_in_table ?pg s")
    case False
    then show ?thesis unfolding page_fetch_def Let_def bad_access_def g [symmetric] using 1 by auto
  next
    case True
    then obtain w where "page_is_writable ?pg s = Some w" by (auto simp: page_in_table_def page_is_writable_def)
    then show ?thesis unfolding page_fetch_def Let_def bad_access_def using 2 True by auto
  qed
qed

section \<open>An instance\<close>

text \<open>One frame, in use for the page at \<open>0x08048000\<close> of the only process.\<close>

definition demo_ops :: "(sector \<Rightarrow> byte list, byte list) vm_ops" where
  "demo_ops = \<lparr>hw = x86, swap_part = demo_swap_ops, pg_round_down = (\<lambda>v. v AND NOT 0xfff), page_malloc = (\<lambda>_. True),
     file_length = (\<lambda>f fs. int (length fs)), file_read_at = (\<lambda>f n off fs. take (nat n) (drop (nat off) fs)),
     file_write_at = (\<lambda>f bs off fs. memcpy_at (nat off) bs fs)\<rparr>"

definition demo_page :: page where
  "demo_page = \<lparr>p_pd = 0xc0200000, p_frame = 0xc0300000, p_upage = 0x08048000, p_active = True, p_file = 7, p_off = 0,
     p_writable = True, p_ss = None\<rparr>"

definition demo_full :: "(sector \<Rightarrow> byte list, byte list) vmm" where
  "demo_full = \<lparr>pages = [0xc0200000 \<mapsto> (replicate 1024 0)[32 := 0x00100007], 0xc0100000 \<mapsto> (replicate 1024 0)[72 := 0x00300007],
       0xc0201000 \<mapsto> replicate 1024 0], init_page_dir = 0xc0201000, cr3 = 0xc0200000, tlb = Map.empty,
     frame_table = [\<lparr>f_kpage = 0xc0300000, f_pd = 0xc0200000, f_upage = 0x08048000\<rparr>], next_frame = 0, fail_on_next = True,
     ram = [0xc0300000 \<mapsto> replicate 4096 3], swap_space = demo_swap, cur_thread = 1, thread_pagedir = (\<lambda>_. 0xc0200000),
     sup_page_table = (\<lambda>_. [demo_page]), files = replicate 100 5\<rparr>"

lemma demo_full_table:
  "user_table x86 demo_full 0xc0200000 i = (if i < 1024 \<and> i = 32 then Some 0xc0100000 else if i < 1024 then None else user_table x86 demo_full 0xc0200000 i)"
  by (auto simp: user_table_def demo_full_def x86_def nth_list_update)

lemma demo_full_wf: "vm_wf x86 {0xc0200000} demo_full"
proof -
  have i: "i < 1024" if "i < user_slots x86" for i using that by (simp add: x86_def)
  have "\<exists>pt l. (replicate 1024 0)[32 := 0x00100007] ! i = pde_create x86 pt \<and> pg_ofs x86 pt = 0 \<and> pt \<notin> {0xc0200000} \<and>
      pages demo_full pt = Some l \<and> length l = 1024"
    if "i < user_slots x86" "(replicate 1024 0)[32 := 0x00100007] ! i \<noteq> (0 :: u32)" for i
  proof -
    have "i = 32" using that(2) i [OF that(1)] by (cases "i = 32") simp_all
    then show ?thesis by (intro exI [of _ "0xc0100000"]) (simp add: x86_def demo_full_def)
  qed
  then have "dir_ok x86 {0xc0200000} demo_full 0xc0200000" unfolding dir_ok_def by (simp add: demo_full_def)
  moreover have "i = j" if "i < user_slots x86" "j < user_slots x86"
    "user_table x86 demo_full 0xc0200000 i = Some pt" "user_table x86 demo_full 0xc0200000 j = Some pt" for i j pt
    using that(3,4) i [OF that(1)] i [OF that(2)] demo_full_table [of i] demo_full_table [of j] by (auto split: if_splits)
  ultimately show ?thesis unfolding vm_wf_def by blast
qed

lemma demo_full_entry: "pte_val x86 demo_full 0xc0200000 0x08048000 = 0x00300007"
proof -
  have "pd_no x86 0x08048000 = 32" "pt_no x86 0x08048000 = 72" by (simp_all add: x86_def)
  then show ?thesis using demo_full_table [of 32] by (simp add: pte_val_def pte_at_def) (simp add: demo_full_def)
qed

lemma demo_full_frames: "frames_ok x86 {0xc0200000} (frame_table demo_full)"
  by (simp add: frames_ok_def demo_full_def pd_key_ok_def) (simp add: x86_def)

lemma demo_hw [simp]: "hw demo_ops = x86"
  by (simp add: demo_ops_def)

lemma demo_full_map: "pd_map x86 {0xc0200000} demo_full (0xc0200000, 0x08048000) = Some (0xc0300000, True)"
  by (simp add: pd_map_def demo_full_entry) (simp add: x86_def)

lemma demo_full_next:
  "\<exists>s1. get_next_frame demo_ops demo_full = Some (0, s1) \<and> vm_wf x86 {0xc0200000} s1 \<and> pte_at x86 s1 0xc0200000 0x08049000 = Some 0 \<and>
     frame_table s1 = frame_table demo_full \<and> init_page_dir s1 = init_page_dir demo_full"
proof -
  have "pagedir_is_accessed x86 0xc0200000 0x08048000 demo_full = Some False"
    using pagedir_test_spec [OF x86_ok demo_full_wf, of "0xc0200000" "0x08048000" "PTE_A x86"]
    by (simp add: pagedir_is_accessed_def demo_full_entry) (simp add: x86_def)
  then have c: "frame_clock demo_ops demo_full = Some (Some 0, demo_full)" by (simp add: frame_clock_def) (simp add: demo_full_def)
  obtain sw where sw: "swap_out demo_swap_ops (replicate 4096 3) demo_swap = Some (0, sw)"
    by (simp add: swap_out_def get_slot_def demo_swap_def demo_swap_ops_def swap_init_def)
  define s1 where "s1 = page_set_swap 0x08048000 0 (demo_full\<lparr>swap_space := sw\<rparr>)"
  obtain ps where ps: "s1 = Some (demo_full\<lparr>swap_space := sw, sup_page_table := ps\<rparr>)"
    unfolding s1_def page_set_swap_def update_page_def set_cur_pages_def
    by (simp add: find_upage_def find_page_def cur_pages_def match_upage_def demo_page_def demo_full_def)
  have "get_next_frame demo_ops demo_full = Option.bind s1 (\<lambda>s. Some (0, s))"
    using c sw unfolding s1_def get_next_frame_def evict_frame_def by (simp add: demo_full_def demo_ops_def)
  moreover have "pte_at x86 demo_full 0xc0200000 0x08049000 = Some 0"
  proof -
    have "pd_no x86 0x08049000 = 32" "pt_no x86 0x08049000 = 73" by (simp_all add: x86_def)
    then show ?thesis using demo_full_table [of 32] by (simp add: pte_at_def) (simp add: demo_full_def)
  qed
  ultimately show ?thesis using ps demo_full_wf by simp
qed

lemma demo_full_alloc: "\<exists>s'. frame_alloc demo_ops 0x08049000 True demo_full = Some (0xc0300000, s')"
proof -
  obtain s1 where s1: "get_next_frame demo_ops demo_full = Some (0, s1)" "vm_wf x86 {0xc0200000} s1" "pte_at x86 s1 0xc0200000 0x08049000 = Some 0"
    "frame_table s1 = frame_table demo_full" "init_page_dir s1 = init_page_dir demo_full" using demo_full_next by blast
  have u: "is_user_vaddr x86 0x08049000" by (simp add: x86_def)
  have v: "pte_val x86 s1 0xc0200000 0x08049000 = 0" using s1(3) by (simp add: pte_val_def)
  have pre: "set_page_pre x86 s1 0xc0200000 0x08049000 0xc0300000"
    using s1(3,5) by (simp add: set_page_pre_def) (simp add: x86_def demo_full_def)
  have g: "pagedir_get_page x86 0xc0200000 0x08049000 s1 = Some None" using pagedir_get_page_spec [OF x86_ok s1(2) _ u] v by simp
  obtain s2 where "pagedir_set_page x86 0xc0200000 0x08049000 0xc0300000 True s1 = Some (True, s2)"
    using pagedir_set_page_spec [OF x86_ok s1(2) _ pre] v by auto
  then show ?thesis using s1(1,4) g by (simp add: frame_alloc_def cur_pagedir_def Let_def) (simp add: demo_full_def)
qed

theorem frame_clock_second_chance_witness:
  "\<exists>s'. frame_clock demo_ops demo_full = Some (Some 0, s') \<and> pd_map x86 {0xc0200000} s' = pd_map x86 {0xc0200000} demo_full"
proof -
  have "mmu_ok (hw demo_ops)" "vm_wf (hw demo_ops) {0xc0200000} demo_full" "frames_ok (hw demo_ops) {0xc0200000} (frame_table demo_full)"
    using x86_ok demo_full_wf demo_full_frames by simp_all
  from frame_clock_second_chance [OF this] show ?thesis by (auto simp: demo_full_def)
qed

theorem freed_frame_stops_clock_witness:
  "frame_alloc demo_ops 0x08049000 True (frame_free 0xc0200000 demo_full) = None"
  using freed_frame_stops_clock [of demo_full "\<lparr>f_kpage = 0xc0300000, f_pd = 0xc0200000, f_upage = 0x08048000\<rparr>" "[]" "0xc0200000" demo_ops]
  by (simp add: demo_full_def)

theorem evicted_page_aliased_witness:
  "\<exists>s'. frame_alloc demo_ops 0x08049000 True demo_full = Some (0xc0300000, s') \<and>
     map_option fst (pd_map x86 {0xc0200000} s' (0xc0200000, 0x08048000)) = Some 0xc0300000 \<and>
     pd_map x86 {0xc0200000} s' (0xc0200000, 0x08049000) = Some (0xc0300000, True) \<and>
     frame_alloc demo_ops 0x08048000 True s' = None"
proof -
  obtain s' where a: "frame_alloc demo_ops 0x08049000 True demo_full = Some (0xc0300000, s')" using demo_full_alloc by blast
  have h: "mmu_ok (hw demo_ops)" "vm_wf (hw demo_ops) {0xc0200000} demo_full" "frames_ok (hw demo_ops) {0xc0200000} (frame_table demo_full)"
    "fail_on_next demo_full" "cur_pagedir demo_full = 0xc0200000"
    using x86_ok demo_full_wf demo_full_frames by (simp_all add: cur_pagedir_def) (simp_all add: demo_full_def)
  have ft: "frame_table demo_full = [\<lparr>f_kpage = 0xc0300000, f_pd = 0xc0200000, f_upage = 0x08048000\<rparr>]" by (simp add: demo_full_def)
  have "map_option fst (pd_map (hw demo_ops) {0xc0200000} demo_full (frame_key f)) = Some (f_kpage f)" if "f \<in> set (frame_table demo_full)" for f
    using that demo_full_map by (simp add: ft)
  from evicted_page_aliased [OF h(1-4) this _ a, where w' = True] a show ?thesis by (simp add: ft h(5))
qed

text \<open>A fresh frame for a page of a file of 100 bytes.\<close>

definition demo_fresh :: "(sector \<Rightarrow> byte list, byte list) vmm" where
  "demo_fresh = demo_full\<lparr>pages := [0xc0200000 \<mapsto> replicate 1024 0, 0xc0201000 \<mapsto> replicate 1024 0], fail_on_next := False\<rparr>"

lemma demo_fresh_vm: "pages demo_fresh = pages demo_vm" "pd \<in> {0xc0200000} \<Longrightarrow> i < 1024 \<Longrightarrow> user_table x86 demo_fresh pd i = None"
  by (simp_all add: demo_fresh_def demo_vm_def user_table_def)

lemma demo_fresh_wf: "vm_wf x86 {0xc0200000} demo_fresh"
  using demo_vm_wf demo_fresh_vm(1) by (simp add: vm_wf_def dir_ok_def user_table_def)

lemma demo_fresh_pte: "pte_at x86 demo_fresh 0xc0200000 va = None"
  using demo_fresh_vm(2) [of "0xc0200000" "pd_no x86 va"] mmu_okD(1) [OF x86_ok] by (simp add: pte_at_def)

theorem page_fetch_loads_witness:
  "\<exists>s'. page_fetch demo_ops 0x08048123 0 True demo_fresh = Some (True, s') \<and>
     ram s' 0xc0300000 = Some (replicate 100 5 @ replicate 3996 3)"
proof -
  have rd: "pg_round_down demo_ops 0x08048123 = 0x08048000" by (simp add: demo_ops_def)
  have f: "frame_table demo_fresh ! next_frame demo_fresh = \<lparr>f_kpage = 0xc0300000, f_pd = 0xc0200000, f_upage = 0x08048000\<rparr>"
    "ram demo_fresh = [0xc0300000 \<mapsto> replicate 4096 3]" "cur_pagedir demo_fresh = 0xc0200000" "cr3 demo_fresh = 0xc0200000"
    "cur_pages demo_fresh = [demo_page]" "\<not> fail_on_next demo_fresh" "swap_space demo_fresh = demo_swap"
    by (simp_all add: demo_fresh_def demo_full_def cur_pagedir_def cur_pages_def)
  have pre: "set_page_pre x86 demo_fresh 0xc0200000 0x08048000 0xc0300000"
    by (simp add: set_page_pre_def demo_fresh_pte) (simp add: x86_def demo_fresh_def demo_full_def)
  have pm: "pd_map x86 {0xc0200000} demo_fresh (0xc0200000, 0x08048000) = None" by (simp add: pd_map_def pte_val_def demo_fresh_pte)
  have fu: "find_upage 0x08048000 demo_fresh = Some 0" using f(5) by (simp add: find_upage_def find_page_def match_upage_def demo_page_def)
  have src: "memcpy_at 0 (file_read_at demo_ops (p_file demo_page)
      (min (file_length demo_ops (p_file demo_page) (files demo_fresh) - p_off demo_page) 4096) (p_off demo_page) (files demo_fresh))
      (replicate 4096 3) = replicate 100 5 @ replicate 3996 3"
    by (simp add: demo_page_def demo_ops_def demo_fresh_def demo_full_def memcpy_at_def)
  have u: "is_user_vaddr x86 0x08048123" by (simp add: x86_def)
  have sw: "swap_inv (swap_part demo_ops) (swap_space demo_fresh)" using demo_swap_inv f(7) by (simp add: demo_ops_def)
  have "\<exists>s'. page_fetch demo_ops 0x08048123 0 True demo_fresh = Some (True, s') \<and> vm_wf (hw demo_ops) {0xc0200000} s' \<and>
    pd_map (hw demo_ops) {0xc0200000} s' = (pd_map (hw demo_ops) {0xc0200000} demo_fresh)((cur_pagedir demo_fresh, pg_round_down demo_ops 0x08048123) \<mapsto> (0xc0300000, True)) \<and>
    ram s' = (ram demo_fresh)(0xc0300000 \<mapsto> replicate 100 5 @ replicate 3996 3)"
    unfolding src [symmetric]
    by (rule page_fetch_loads [where i = 0])
      (use x86_ok demo_fresh_wf f pre pm fu u sw in \<open>simp_all add: rd\<close>, simp_all add: demo_page_def)
  then show ?thesis by auto
qed

end
