(* ===== verification/Exceptions.thy ===== *)
theory Exceptions
  imports Interrupts Vm_Props
begin

text \<open>
  Exceptions, \<open>virtual-memory/userprog/exception.c\<close>: which processor exceptions user programs
  may raise, and the page fault handler, which asks the supplemental page table to bring the
  page in and otherwise ends the process.

  The rest of the state, behind the interrupt tables, is the virtual memory and the number of
  page faults. \<open>thread_exit\<close> does not return: its result is \<open>Exits\<close>.
\<close>

section \<open>Operations\<close>

datatype handler = Kill | Page_Fault | System_Call

record ('d, 'f) exc =
  exc_vm :: "('d, 'f) vmm"
  page_fault_cnt :: int

datatype outcome = Resumes | Exits

abbreviation PF_P :: u32 where "PF_P \<equiv> 0x1"
abbreviation PF_W :: u32 where "PF_W \<equiv> 0x2"
abbreviation PF_U :: u32 where "PF_U \<equiv> 0x4"

fun register_all :: "cpu \<Rightarrow> (8 word \<times> int \<times> intr_level \<times> 'h \<times> string) list \<Rightarrow> ('h, 'w) intr \<Rightarrow> ('h, 'w) intr option" where
  "register_all c [] s = Some s"
| "register_all c ((v, dpl, level, h, name) # rs) s = Option.bind (intr_register_int c v dpl level h name s) (register_all c rs)"

definition exception_table :: "(8 word \<times> int \<times> intr_level \<times> handler \<times> string) list" where
  "exception_table =
     [(3, 3, INTR_ON, Kill, ''#BP Breakpoint Exception''),
      (4, 3, INTR_ON, Kill, ''#OF Overflow Exception''),
      (5, 3, INTR_ON, Kill, ''#BR BOUND Range Exceeded Exception''),
      (0, 0, INTR_ON, Kill, ''#DE Divide Error''),
      (1, 0, INTR_ON, Kill, ''#DB Debug Exception''),
      (6, 0, INTR_ON, Kill, ''#UD Invalid Opcode Exception''),
      (7, 0, INTR_ON, Kill, ''#NM Device Not Available Exception''),
      (11, 0, INTR_ON, Kill, ''#NP Segment Not Present''),
      (12, 0, INTR_ON, Kill, ''#SS Stack Fault Exception''),
      (13, 0, INTR_ON, Kill, ''#GP General Protection Exception''),
      (16, 0, INTR_ON, Kill, ''#MF x87 FPU Floating-Point Error''),
      (19, 0, INTR_ON, Kill, ''#XF SIMD Floating-Point Exception''),
      (14, 0, INTR_OFF, Page_Fault, ''#PF Page-Fault Exception'')]"

definition exception_init :: "cpu \<Rightarrow> (handler, 'w) intr \<Rightarrow> (handler, 'w) intr option" where
  "exception_init c s = register_all c exception_table s"

definition kill :: "cpu \<Rightarrow> intr_frame \<Rightarrow> ('h, 'w) intr \<Rightarrow> (outcome \<times> ('h, 'w) intr) option" where
  "kill c f s =
     (if fr_cs f = SEL_UCSEG c then Some (Exits, s)
      else if fr_cs f = SEL_KCSEG c then None
      else Some (Exits, s))"

text \<open>\<open>cr2\<close> is the address that faulted.\<close>

definition page_fault :: "cpu \<Rightarrow> ('d, 'f) vm_ops \<Rightarrow> u32 \<Rightarrow> intr_frame \<Rightarrow> ('h, ('d, 'f) exc) intr \<Rightarrow>
    (outcome \<times> ('h, ('d, 'f) exc) intr) option" where
  "page_fault c ops cr2 f s = do {
     (old_level, s1) \<leftarrow> intr_enable c s;
     kassert (page_fault_cnt (world s1) + 1 < 2 ^ 63);
     let w = (world s1)\<lparr>page_fault_cnt := page_fault_cnt (world s1) + 1\<rparr>;
     let not_present = (error_code f AND PF_P = 0);
     let write = (error_code f AND PF_W \<noteq> 0);
     let user = (error_code f AND PF_U \<noteq> 0);
     (ok, vm') \<leftarrow> page_fetch ops cr2 (fr_esp f) write (exc_vm w);
     let s2 = s1\<lparr>world := w\<lparr>exc_vm := vm'\<rparr>\<rparr>;
     if \<not> ok then kill c f s2 else Some (Resumes, s2)
   }"

section \<open>Properties\<close>

lemma register_all_spec:
  assumes stubs: "\<And>v. intr_stubs c v \<noteq> 0"
  shows "list_all (\<lambda>(v, dpl, _). 0 \<le> dpl \<and> dpl \<le> 3 \<and> v < 0x20 \<and> intr_handlers s v = None) rs \<Longrightarrow> distinct (map fst rs) \<Longrightarrow>
    \<exists>s'. register_all c rs s = Some s' \<and>
      (\<forall>v. case map_of rs v of
         None \<Rightarrow> intr_handlers s' v = intr_handlers s v \<and> idt s' v = idt s v
       | Some (dpl, level, h, name) \<Rightarrow> intr_handlers s' v = Some h \<and> gate_dpl (idt s' v) = word_of_int dpl \<and>
           gate_type (idt s' v) = (if level = INTR_ON then 15 else 14))"
proof (induction rs arbitrary: s)
  case (Cons r rs)
  obtain v dpl level h name where r: "r = (v, dpl, level, h, name)" by (cases r) auto
  have a: "0 \<le> dpl" "dpl \<le> 3" "intr_handlers s v = None" "v < 0x20" using Cons.prems(1) by (simp_all add: r)
  obtain g where g: "intr_register_int c v dpl level h name s = Some (s\<lparr>idt := (idt s)(v := g),
      intr_handlers := (intr_handlers s)(v := Some h), intr_names := (intr_names s)(v := name)\<rparr>)"
    "gate_dpl g = word_of_int dpl" "gate_type g = (if level = INTR_ON then 15 else 14)"
    using register_int_spec [of c v dpl s level h name] stubs a by auto
  define s1 where "s1 = s\<lparr>idt := (idt s)(v := g), intr_handlers := (intr_handlers s)(v := Some h), intr_names := (intr_names s)(v := name)\<rparr>"
  have "list_all (\<lambda>(v, dpl, _). 0 \<le> dpl \<and> dpl \<le> 3 \<and> v < 0x20 \<and> intr_handlers s1 v = None) rs"
    using Cons.prems unfolding list_all_iff by (force simp: r s1_def)
  moreover have "distinct (map fst rs)" "v \<notin> fst ` set rs" using Cons.prems(2) by (simp_all add: r)
  ultimately obtain s' where s': "register_all c rs s1 = Some s'"
    "\<forall>v. case map_of rs v of
         None \<Rightarrow> intr_handlers s' v = intr_handlers s1 v \<and> idt s' v = idt s1 v
       | Some (dpl, level, h, name) \<Rightarrow> intr_handlers s' v = Some h \<and> gate_dpl (idt s' v) = word_of_int dpl \<and>
           gate_type (idt s' v) = (if level = INTR_ON then 15 else 14)"
    using Cons.IH [of s1] by blast
  have "map_of rs v = None" using \<open>v \<notin> fst ` set rs\<close> by (simp add: map_of_eq_None_iff)
  then have v: "intr_handlers s' v = Some h" "idt s' v = g" using s'(2) [rule_format, of v] by (simp_all add: s1_def)
  have "register_all c (r # rs) s = Some s'" using g(1) s'(1) by (simp add: r s1_def)
  moreover have "case map_of (r # rs) w of
         None \<Rightarrow> intr_handlers s' w = intr_handlers s w \<and> idt s' w = idt s w
       | Some (dpl, level, h, name) \<Rightarrow> intr_handlers s' w = Some h \<and> gate_dpl (idt s' w) = word_of_int dpl \<and>
           gate_type (idt s' w) = (if level = INTR_ON then 15 else 14)" for w
    proof (cases "w = v")
    case True
    then show ?thesis using v g(2,3) by (simp add: r)
  next
    case False
    then have eq: "map_of (r # rs) w = map_of rs w" "intr_handlers s1 w = intr_handlers s w" "idt s1 w = idt s w"
      by (simp_all add: r s1_def)
    show ?thesis using s'(2) [rule_format, of w] unfolding eq by assumption
  qed
  ultimately show ?case by blast
qed simp

text \<open>The table after \<open>intr_init\<close> and \<open>exception_init\<close>.\<close>

lemma exceptions_registered:
  assumes stubs: "\<And>v. intr_stubs c v \<noteq> 0" and e: "\<And>v. intr_handlers s v = None"
  shows "\<exists>s1 s2. intr_init c s = Some s1 \<and> exception_init c s1 = Some s2 \<and>
    (\<forall>v. gate_dpl (idt s2 v) = 3 \<longleftrightarrow> v \<in> {3, 4, 5}) \<and>
    (\<forall>v. intr_handlers s2 v \<noteq> None \<longrightarrow> v \<noteq> 0x30 \<and> (gate_type (idt s2 v) = 14 \<longleftrightarrow> v = 14) \<and>
       (intr_handlers s2 v = Some Page_Fault \<longleftrightarrow> v = 14) \<and> intr_handlers s2 v \<noteq> Some System_Call)"
proof -
  obtain s1 where s1: "intr_init c s = Some s1" "intr_handlers s1 = intr_handlers s"
    "\<And>v. gate_dpl (idt s1 v) = 0" using intr_init_spec [OF stubs, of s] by blast
  have ok: "list_all (\<lambda>(v, dpl, _). 0 \<le> dpl \<and> dpl \<le> 3 \<and> v < 0x20 \<and> intr_handlers s1 v = None) exception_table"
    "distinct (map fst exception_table)"
    using e by (simp_all add: exception_table_def s1(2))
  obtain s2 where s2: "exception_init c s1 = Some s2"
    "\<And>v. case map_of exception_table v of
         None \<Rightarrow> intr_handlers s2 v = None \<and> idt s2 v = idt s1 v
       | Some (dpl, level, h, name) \<Rightarrow> intr_handlers s2 v = Some h \<and> gate_dpl (idt s2 v) = word_of_int dpl \<and>
           gate_type (idt s2 v) = (if level = INTR_ON then 15 else 14)"
    using register_all_spec [OF stubs ok] e unfolding exception_init_def s1(2) e by blast
  have "(gate_dpl (idt s2 v) = 3 \<longleftrightarrow> v \<in> {3, 4, 5}) \<and>
    (intr_handlers s2 v \<noteq> None \<longrightarrow> v \<noteq> 0x30 \<and> (gate_type (idt s2 v) = 14 \<longleftrightarrow> v = 14) \<and> (intr_handlers s2 v = Some Page_Fault \<longleftrightarrow> v = 14) \<and> intr_handlers s2 v \<noteq> Some System_Call)" for v
  proof (cases "map_of exception_table v")
    case None
    then have "v \<notin> {3, 4, 5, 14}" by (auto simp: exception_table_def split: if_splits)
    then show ?thesis using s2(2) [of v] None s1(3) [of v] by auto
  next
    case (Some x)
    obtain dpl level h name where x: "x = (dpl, level, h, name)" by (cases x) auto
    have i: "intr_handlers s2 v = Some h" "gate_dpl (idt s2 v) = word_of_int dpl" "gate_type (idt s2 v) = (if level = INTR_ON then 15 else 14)"
      using s2(2) [of v] Some x by simp_all
    have "(dpl = 3 \<longleftrightarrow> v \<in> {3, 4, 5}) \<and> (dpl = 3 \<or> dpl = 0) \<and> (level = INTR_OFF \<longleftrightarrow> v = 14) \<and> (h = Page_Fault \<longleftrightarrow> v = 14) \<and> h \<noteq> System_Call \<and> v \<noteq> 0x30"
      using Some [unfolded x] by (auto simp: exception_table_def split: if_splits)
    then show ?thesis using i by (cases level) auto
  qed
  then show ?thesis using s1(1) s2(1) by blast
qed

definition demo_boot :: "(handler, (sector \<Rightarrow> byte list, byte list) exc) intr" where
  "demo_boot = \<lparr>idt = (\<lambda>_. 0), intr_handlers = (\<lambda>_. None), intr_names = (\<lambda>_. []), unexpected_cnt = (\<lambda>_. 0), in_external_intr = False,
     i_yield_on_return = False, eflags = 0, idtr = 0, outs = [], printed = [], world = \<lparr>exc_vm = demo_fresh, page_fault_cnt = 0\<rparr>\<rparr>"

lemma demo_stubs: "intr_stubs demo_cpu v \<noteq> 0"
proof -
  have v: "uint v < 256" "0 \<le> uint v" using uint_lt2p [of v] by simp_all
  have "intr_stubs demo_cpu v = word_of_int (0xc0020000 + 16 * uint v)"
    by (simp add: demo_cpu_def push_bit_eq_mult)
  then have "uint (intr_stubs demo_cpu v) = (0xc0020000 + 16 * uint v) mod 2 ^ 32"
    by (simp only: uint_word_of_int) simp
  also have "\<dots> = 0xc0020000 + 16 * uint v" using v by simp
  finally have "uint (intr_stubs demo_cpu v) = 0xc0020000 + 16 * uint v" .
  then show ?thesis using v by fastforce
qed

text \<open>
  C18 (functional): the ends of a page fault. If it is a bad access, the virtual memory stays as it
  is and the process exits, or the kernel stops when its own code caused the fault. Otherwise \<open>page_fetch\<close> decides: if it
  returns, its answer is true, the state is the one it leaves, and the access is repeated; and if it stops (swap is full, or the page
  is read-only or was evicted), the kernel stops, for faults of user programs too. Every fault is counted and handled with
  interrupts on.
\<close>

theorem page_fault_outcome:
  fixes c :: cpu and f :: intr_frame and s :: "('h, ('d, 'f) exc) intr"
  assumes s: "\<not> intr_context s" "page_fault_cnt (world s) + 1 < 2 ^ 63"
  defines "s1 \<equiv> s\<lparr>eflags := eflags s OR FLAG_IF c, world := (world s)\<lparr>page_fault_cnt := page_fault_cnt (world s) + 1\<rparr>\<rparr>"
    and "write \<equiv> error_code f AND PF_W \<noteq> 0"
  shows "page_fault c ops cr2 f s =
    (if bad_access ops cr2 (fr_esp f) write (exc_vm (world s)) then
       if fr_cs f = SEL_KCSEG c \<and> SEL_KCSEG c \<noteq> SEL_UCSEG c then None else Some (Exits, s1)
     else case page_fetch ops cr2 (fr_esp f) write (exc_vm (world s)) of
         None \<Rightarrow> None
       | Some (ok, vm') \<Rightarrow> Some (Resumes, s1\<lparr>world := (world s1)\<lparr>exc_vm := vm'\<rparr>\<rparr>)) \<and>
    (\<not> bad_access ops cr2 (fr_esp f) write (exc_vm (world s)) \<longrightarrow>
       (\<forall>vm2. page_fetch ops cr2 (fr_esp f) write (exc_vm (world s)) \<noteq> Some (False, vm2)))"
proof (rule conjI [OF _ impI])
  show "\<forall>vm2. page_fetch ops cr2 (fr_esp f) write (exc_vm (world s)) \<noteq> Some (False, vm2)"
    if "\<not> bad_access ops cr2 (fr_esp f) write (exc_vm (world s))"
    using that by (simp add: page_fetch_rejects)
  define r where "r = page_fetch ops cr2 (fr_esp f) write (exc_vm (world s))"
  have pf: "page_fault c ops cr2 f s = Option.bind r (\<lambda>(ok, vm'). if \<not> ok then kill c f (s1\<lparr>world := (world s1)\<lparr>exc_vm := vm'\<rparr>\<rparr>)
      else Some (Resumes, s1\<lparr>world := (world s1)\<lparr>exc_vm := vm'\<rparr>\<rparr>))"
    using s by (cases r) (simp_all add: page_fault_def intr_enable_def Let_def r_def [unfolded write_def, symmetric] s1_def split_beta')
  have id: "s1\<lparr>world := (world s1)\<lparr>exc_vm := exc_vm (world s)\<rparr>\<rparr> = s1" by (simp add: s1_def)
  show "page_fault c ops cr2 f s =
    (if bad_access ops cr2 (fr_esp f) write (exc_vm (world s)) then
       if fr_cs f = SEL_KCSEG c \<and> SEL_KCSEG c \<noteq> SEL_UCSEG c then None else Some (Exits, s1)
     else case page_fetch ops cr2 (fr_esp f) write (exc_vm (world s)) of
         None \<Rightarrow> None
       | Some (ok, vm') \<Rightarrow> Some (Resumes, s1\<lparr>world := (world s1)\<lparr>exc_vm := vm'\<rparr>\<rparr>))"
  proof (cases "bad_access ops cr2 (fr_esp f) write (exc_vm (world s))")
    case True
    then have "r = Some (False, exc_vm (world s))" unfolding r_def page_fetch_rejects by simp
    then show ?thesis using True unfolding pf by (auto simp: id kill_def)
  next
    case False
    then have n: "r \<noteq> Some (False, vm')" for vm' unfolding r_def page_fetch_rejects by simp
    then have "fst x" if "r = Some x" for x using that n [of "snd x"] by (cases x) auto
    then show ?thesis using False unfolding pf r_def [symmetric] by (cases r) (auto simp: split_beta')
  qed
qed

theorem page_fault_outcome_witness:
  "\<exists>s'. page_fault demo_cpu demo_ops 0xc0000000 (empty_frame\<lparr>vec_no := 14, error_code := 5, fr_cs := 0x1b\<rparr>) demo_boot = Some (Exits, s') \<and>
     page_fault_cnt (world s') = 1 \<and> exc_vm (world s') = demo_fresh"
proof -
  have "bad_access demo_ops 0xc0000000 0 w demo_fresh" for w by (simp add: bad_access_def) (simp add: x86_def)
  then show ?thesis
    using page_fault_outcome [of demo_boot demo_cpu demo_ops "0xc0000000" "empty_frame\<lparr>vec_no := 14, error_code := 5, fr_cs := 0x1b\<rparr>"]
    by (simp add: demo_boot_def intr_context_def) (simp add: demo_cpu_def empty_frame_def)
qed

end
