(* ===== verification/Filesys.thy ===== *)
theory Filesys
  imports Inode_Properties
begin

text \<open>
  The file system module, \<open>file-system/filesys/filesys.c\<close>, and the operations of
  \<open>free-map.c\<close> that use files: start and shutdown, formatting, creating, opening and
  removing files by name.

  Files and directories (\<open>file.c\<close>, \<open>directory.c\<close>) are not part of the sources: their
  operations are the record \<open>dir_ops\<close>, and \<open>dir_ok\<close> states what \<open>filesys_create\<close> relies
  on. Files and directories are known by their addresses, \<open>None\<close> is the null pointer. The
  arguments \<open>m\<close> of the operations are what \<open>malloc\<close> returns for a new inode.
\<close>

section \<open>Operations\<close>

record 'd dir_ops =
  file_open :: "nat option \<Rightarrow> 'd inode_fs \<Rightarrow> (nat option \<times> 'd inode_fs) option"
  file_close :: "nat option \<Rightarrow> 'd inode_fs \<Rightarrow> 'd inode_fs option"
  dir_create :: "sector \<Rightarrow> nat \<Rightarrow> 'd inode_fs \<Rightarrow> (bool \<times> 'd inode_fs) option"
  dir_open_root :: "'d inode_fs \<Rightarrow> (nat option \<times> 'd inode_fs) option"
  dir_close :: "nat option \<Rightarrow> 'd inode_fs \<Rightarrow> 'd inode_fs option"
  dir_lookup :: "nat \<Rightarrow> string \<Rightarrow> 'd inode_fs \<Rightarrow> (nat option \<times> 'd inode_fs) option"
  dir_add :: "nat \<Rightarrow> string \<Rightarrow> sector \<Rightarrow> 'd inode_fs \<Rightarrow> (bool \<times> 'd inode_fs) option"
  dir_remove :: "nat \<Rightarrow> string \<Rightarrow> 'd inode_fs \<Rightarrow> (bool \<times> 'd inode_fs) option"

text \<open>The state with the pointer to the free map file.\<close>

record 'd filesys =
  fsys :: "'d inode_fs"
  free_map_ptr :: "nat option"

text \<open>The part that \<open>free_map_open\<close> and \<open>free_map_create\<close> share.\<close>

definition open_free_map :: "'d fs_ops \<Rightarrow> 'd dir_ops \<Rightarrow> nat option \<Rightarrow> 'd filesys \<Rightarrow> 'd filesys option" where
  "open_free_map ops dops m s = do {
     (ino, fs1) \<leftarrow> inode_open ops FREE_MAP_SECTOR m (fsys s);
     (f, fs2) \<leftarrow> file_open dops ino fs1;
     kassert (f \<noteq> None);
     Some \<lparr>fsys = fs2\<lparr>free_map_file := True\<rparr>, free_map_ptr = f\<rparr>
   }"

definition free_map_open :: "'d fs_ops \<Rightarrow> 'd dir_ops \<Rightarrow> nat option \<Rightarrow> 'd filesys \<Rightarrow> 'd filesys option" where
  "free_map_open ops dops m s = do {
     s1 \<leftarrow> open_free_map ops dops m s;
     let (ok, b, c) = bitmap_read ops (free_map (fsys s1)) (fs_cache (fsys s1));
     kassert ok;
     Some (s1\<lparr>fsys := (fsys s1)\<lparr>free_map := b, fs_cache := c\<rparr>\<rparr>)
   }"

definition free_map_close :: "'d dir_ops \<Rightarrow> 'd filesys \<Rightarrow> 'd filesys option" where
  "free_map_close dops s = do {
     fs1 \<leftarrow> file_close dops (free_map_ptr s) (fsys s);
     Some (s\<lparr>fsys := fs1\<rparr>)
   }"

definition free_map_create :: "'d fs_ops \<Rightarrow> 'd dir_ops \<Rightarrow> bool \<Rightarrow> nat option \<Rightarrow> 'd filesys \<Rightarrow> 'd filesys option" where
  "free_map_create ops dops calloc_ok m s = do {
     (ok, fs1) \<leftarrow> inode_create ops FREE_MAP_SECTOR (bitmap_file_size ops (free_map (fsys s))) calloc_ok (fsys s);
     kassert ok;
     s1 \<leftarrow> open_free_map ops dops m (s\<lparr>fsys := fs1\<rparr>);
     let (ok', c) = bitmap_write ops (free_map (fsys s1)) (fs_cache (fsys s1));
     kassert ok';
     Some (s1\<lparr>fsys := (fsys s1)\<lparr>fs_cache := c\<rparr>\<rparr>)
   }"

definition do_format :: "'d fs_ops \<Rightarrow> 'd dir_ops \<Rightarrow> bool \<Rightarrow> nat option \<Rightarrow> 'd filesys \<Rightarrow> 'd filesys option" where
  "do_format ops dops calloc_ok m s = do {
     s1 \<leftarrow> free_map_create ops dops calloc_ok m s;
     (ok, fs2) \<leftarrow> dir_create dops ROOT_DIR_SECTOR 16 (fsys s1);
     kassert ok;
     free_map_close dops (s1\<lparr>fsys := fs2\<rparr>)
   }"

text \<open>\<open>dev\<close> is the block device with the role of the file system, \<open>sectors\<close> its number of sectors.\<close>

definition filesys_init :: "'d fs_ops \<Rightarrow> 'd dir_ops \<Rightarrow> 'd option \<Rightarrow> nat \<Rightarrow> bool \<Rightarrow> nat option \<Rightarrow> nat option \<Rightarrow> bool \<Rightarrow>
    'd filesys \<Rightarrow> 'd filesys option" where
  "filesys_init ops dops dev sectors calloc_ok m m' format s = do {
     d \<leftarrow> dev;
     fs1 \<leftarrow> free_map_init ops sectors ((inode_init (fsys s))\<lparr>fs_cache := cache_init d\<rparr>);
     let s1 = s\<lparr>fsys := fs1\<rparr>;
     s2 \<leftarrow> (if format then do_format ops dops calloc_ok m s1 else Some s1);
     free_map_open ops dops m' s2
   }"

definition filesys_done :: "'d fs_ops \<Rightarrow> 'd dir_ops \<Rightarrow> 'd filesys \<Rightarrow> 'd filesys option" where
  "filesys_done ops dops s = do {
     s1 \<leftarrow> free_map_close dops s;
     c \<leftarrow> cache_save (fs_dev ops) [] (fs_cache (fsys s1));
     Some (s1\<lparr>fsys := (fsys s1)\<lparr>fs_cache := c\<rparr>\<rparr>)
   }"

definition filesys_create :: "'d fs_ops \<Rightarrow> 'd dir_ops \<Rightarrow> string \<Rightarrow> int \<Rightarrow> bool \<Rightarrow> 'd inode_fs \<Rightarrow> (bool \<times> 'd inode_fs) option" where
  "filesys_create ops dops name initial_size calloc_ok fs = do {
     (dir, fs1) \<leftarrow> dir_open_root dops fs;
     (success, inode_sector, fs2) \<leftarrow>
       (case dir of
          None \<Rightarrow> Some (False, 0, fs1)
        | Some d \<Rightarrow>
            (case free_map_allocate ops fs1 of
               (None, fs2) \<Rightarrow> Some (False, 0, fs2)
             | (Some sector, fs2) \<Rightarrow> do {
                 (ok, fs3) \<leftarrow> inode_create ops sector initial_size calloc_ok fs2;
                 if ok then do {
                   (added, fs4) \<leftarrow> dir_add dops d name sector fs3;
                   Some (added, sector, fs4)
                 } else Some (False, sector, fs3)
               }));
     fs3 \<leftarrow> (if \<not> success \<and> inode_sector \<noteq> 0 then free_map_release ops inode_sector fs2 else Some fs2);
     fs4 \<leftarrow> dir_close dops dir fs3;
     Some (success, fs4)
   }"

definition filesys_open :: "'d dir_ops \<Rightarrow> string \<Rightarrow> 'd inode_fs \<Rightarrow> (nat option \<times> 'd inode_fs) option" where
  "filesys_open dops name fs = do {
     (dir, fs1) \<leftarrow> dir_open_root dops fs;
     (ino, fs2) \<leftarrow> (case dir of None \<Rightarrow> Some (None, fs1) | Some d \<Rightarrow> dir_lookup dops d name fs1);
     fs3 \<leftarrow> dir_close dops dir fs2;
     file_open dops ino fs3
   }"

definition filesys_remove :: "'d dir_ops \<Rightarrow> string \<Rightarrow> 'd inode_fs \<Rightarrow> (bool \<times> 'd inode_fs) option" where
  "filesys_remove dops name fs = do {
     (dir, fs1) \<leftarrow> dir_open_root dops fs;
     (success, fs2) \<leftarrow> (case dir of None \<Rightarrow> Some (False, fs1) | Some d \<Rightarrow> dir_remove dops d name fs1);
     fs3 \<leftarrow> dir_close dops dir fs2;
     Some (success, fs3)
   }"

section \<open>Creating files\<close>

text \<open>
  What is relied on of directories: the root directory can be opened and closed without
  changing which sectors are used; adding an entry may use more sectors when it succeeds and
  none when it fails.
\<close>

definition dir_ok :: "'d fs_ops \<Rightarrow> 'd dir_ops \<Rightarrow> sector set \<Rightarrow> bool" where
  "dir_ok ops dops F \<longleftrightarrow>
     (\<forall>fs. fs_inv ops F fs \<longrightarrow> (\<exists>d fs'. dir_open_root dops fs = Some (Some d, fs') \<and> fs_inv ops F fs' \<and> free_map fs' = free_map fs)) \<and>
     (\<forall>fs d. fs_inv ops F fs \<longrightarrow> (\<exists>fs'. dir_close dops (Some d) fs = Some fs' \<and> fs_inv ops F fs' \<and> free_map fs' = free_map fs)) \<and>
     (\<forall>fs d name s. fs_inv ops F fs \<longrightarrow> (\<exists>ok fs'. dir_add dops d name s fs = Some (ok, fs') \<and> fs_inv ops F fs' \<and>
        (if ok then used_sectors fs \<subseteq> used_sectors fs' else free_map fs' = free_map fs)))"

lemma dir_okD:
  assumes "dir_ok ops dops F" "fs_inv ops F fs"
  shows "\<exists>d fs'. dir_open_root dops fs = Some (Some d, fs') \<and> fs_inv ops F fs' \<and> free_map fs' = free_map fs"
    and "\<exists>fs'. dir_close dops (Some d) fs = Some fs' \<and> fs_inv ops F fs' \<and> free_map fs' = free_map fs"
    and "\<exists>ok fs'. dir_add dops d name s fs = Some (ok, fs') \<and> fs_inv ops F fs' \<and>
        (if ok then used_sectors fs \<subseteq> used_sectors fs' else free_map fs' = free_map fs)"
  using assms unfolding dir_ok_def by blast+

text \<open>The free sectors with 16-bit numbers, which files can use.\<close>

definition free_short :: "('d, 'z) fs_scheme \<Rightarrow> sector set" where
  "free_short fs = {s. unat s < length (free_map fs) \<and> s \<le> 65535 \<and> s \<notin> used_sectors fs}"

lemma finite_free_short [simp]: "finite (free_short fs)"
  by simp

lemma card_data_sectors: "distinct_sectors d \<Longrightarrow> card (data_sectors d) = num_sectors d"
  unfolding data_sectors_def distinct_sectors_def by (auto simp: card_image)

text \<open>With room for its sectors, a file is created.\<close>

lemma inode_create_succeeds:
  assumes inv: "fs_inv ops F fs" and s: "s \<in> used_sectors fs - F" "s \<noteq> no_sector" and len: "len \<le> DIRECT_BYTES"
    and wr: "\<And>b c. fst (bitmap_write ops b c)" and room: "(len + 511) div 512 < card (free_short fs)"
  shows "\<exists>d fs'. inode_create ops s (int len) True fs = Some (True, fs') \<and> fs_inv ops F fs' \<and> created ops F fs s len d fs'"
proof -
  obtain ok fs' where c: "inode_create ops s (int len) True fs = Some (ok, fs')" "fs_inv ops F fs'"
    "if ok then \<exists>d. created ops F fs s len d fs' else used_sectors fs' = used_sectors fs"
    using inode_create_spec [OF inv s len] by blast
  note d0 = new_disk_ok(1) [where ops = ops and F = F and fs = fs] new_disk_ok(2,3)
  obtain d fs1 where e: "extend_disk ops new_disk (int len) fs = Some (id_length d, d, fs1)"
    "grows_to ops F new_disk fs d fs1" "file_len d \<le> max len (file_len new_disk)" "len \<le> file_len d \<or> short_full ops fs1"
    using extend_disk_direct [OF inv d0(1) len] by blast
  note g = grows_toD [OF e(2)]
  have "len \<le> file_len d"
  proof (rule ccontr)
    assume n: "\<not> len \<le> file_len d"
    then have full: "short_full ops fs1" using e(4) by simp
    have "length (free_map fs1) = length (free_map fs)" by (rule g(9))
    then have "free_short fs \<subseteq> data_sectors d"
      using full wr g(6) unfolding short_full_def free_short_def by auto
    then have "card (free_short fs) \<le> card (data_sectors d)" by (rule card_mono [rotated]) (simp add: data_sectors_def)
    also have "\<dots> = num_sectors d" using g(2) by (intro card_data_sectors) (simp add: file_ok_def)
    also have "\<dots> \<le> (len + 511) div 512" using n unfolding num_sectors_def by (intro div_le_mono) simp
    finally show False using room by simp
  qed
  moreover have "id_length d = int (file_len d)" by (rule direct_inode_length [OF file_ok_direct [OF g(2)]])
  ultimately have "ok" using c(1) e(1) by (auto simp: inode_create_def Let_def split: Option.bind_splits if_splits)
  then show ?thesis using c by auto
qed

text \<open>
  The step that allocates the sector of the inode: it is free before, and one free sector fewer
  is left.
\<close>

lemma allocate_inode_sector:
  assumes inv: "fs_inv ops F fs" and wr: "\<And>b c. fst (bitmap_write ops b c)" and room: "free_short fs \<noteq> {}"
  obtains s fs1 where "free_map_allocate ops fs = (Some s, fs1)" "fs_inv ops F fs1" "s \<notin> used_sectors fs" "s \<noteq> no_sector"
    "used_sectors fs1 = insert s (used_sectors fs)" "card (free_short fs) \<le> Suc (card (free_short fs1))"
proof -
  note fm = fs_inv_fm [OF inv]
  obtain t where "t \<in> free_short fs" using room by blast
  then have "unat t < length (free_map fs)" "\<not> free_map fs ! unat t" by (simp_all add: free_short_def used_sectors_def)
  then obtain s fs1 where a: "free_map_allocate ops fs = (Some s, fs1)"
    using free_map_allocate_succeeds [OF fm _ _ wr] by blast
  note sp = free_map_allocate_Some [OF fm a]
  have "free_short fs \<subseteq> insert s (free_short fs1)" using sp by (auto simp: free_short_def)
  then have "card (free_short fs) \<le> card (insert s (free_short fs1))" by (rule card_mono [rotated]) simp
  also have "\<dots> \<le> Suc (card (free_short fs1))" by (rule card_insert_le_m1) simp_all
  finally show ?thesis using a sp that [OF a] inv sector_below_map [OF fm] by (auto simp: fs_inv_def)
qed

text \<open>
  C29 (functional): for a file of at most the 94 KB of the direct indices, with room for its inode and its sectors, when there is memory
  for the inode, the free map can be written and the directory works as documented (\<open>dir_ok\<close>), \<open>filesys_create\<close> returns what the
  directory answers to the new entry. The directory is asked once, for a sector that was free,
  which then holds the inode of a proper file of \<open>initial_size\<close> zero bytes. If the directory
  refuses the name, the sector of the inode is free again, but the data sectors stay in use: each
  refused creation loses as many sectors as the file would have had.
\<close>

theorem filesys_create_correct:
  assumes inv: "fs_inv ops F fs" and dir: "dir_ok ops dops F" and used: "0 \<in> used_sectors fs" and len: "len \<le> DIRECT_BYTES"
    and wr: "\<And>b c. fst (bitmap_write ops b c)" and room: "(len + 511) div 512 + 1 < card (free_short fs)"
  shows "\<exists>ok fs'. filesys_create ops dops name (int len) True fs = Some (ok, fs') \<and> fs_inv ops F fs' \<and>
    (\<exists>s d dir fs2 fs3. s \<notin> used_sectors fs \<and> dir_add dops dir name s fs2 = Some (ok, fs3) \<and>
       decode_inode (fs_view ops fs2 s) = d \<and> file_ok ops F fs2 d \<and> file_bytes (fs_dev ops) (fs_cache fs2) d = replicate len 0 \<and>
       s \<notin> data_sectors d \<and> card (data_sectors d) = (len + 511) div 512 \<and> data_sectors d \<inter> used_sectors fs = {} \<and>
       (if ok then insert s (used_sectors fs \<union> data_sectors d) \<subseteq> used_sectors fs'
        else used_sectors fs' = used_sectors fs \<union> data_sectors d))"
proof -
  obtain h fs0 where o: "dir_open_root dops fs = Some (Some h, fs0)" "fs_inv ops F fs0" "free_map fs0 = free_map fs"
    using dir_okD(1) [OF dir inv] by blast
  have u0: "used_sectors fs0 = used_sectors fs" "free_short fs0 = free_short fs" using o(3) by (simp_all add: used_sectors_def free_short_def)
  have "free_short fs0 \<noteq> {}" using room u0 by auto
  then obtain s fs1 where a: "free_map_allocate ops fs0 = (Some s, fs1)" "fs_inv ops F fs1" "s \<notin> used_sectors fs0" "s \<noteq> no_sector"
    "used_sectors fs1 = insert s (used_sectors fs0)" "card (free_short fs0) \<le> Suc (card (free_short fs1))"
    using allocate_inode_sector [OF o(2) wr] by blast
  have s: "s \<in> used_sectors fs1 - F" using a(3,5) o(2) by (auto simp: fs_inv_def)
  have "(len + 511) div 512 < card (free_short fs1)" using room a(6) u0 by simp
  then obtain d fs2 where c: "inode_create ops s (int len) True fs1 = Some (True, fs2)" "fs_inv ops F fs2" "created ops F fs1 s len d fs2"
    using inode_create_succeeds [OF a(2) s a(4) len wr] by blast
  obtain ok fs3 where ad: "dir_add dops h name s fs2 = Some (ok, fs3)" "fs_inv ops F fs3"
    "if ok then used_sectors fs2 \<subseteq> used_sectors fs3 else free_map fs3 = free_map fs2"
    using dir_okD(3) [OF dir c(2)] by blast
  have cr: "file_ok ops F fs2 d" "file_bytes (fs_dev ops) (fs_cache fs2) d = replicate len 0" "decode_inode (fs_view ops fs2 s) = d"
    "s \<notin> data_sectors d" "data_sectors d \<inter> used_sectors fs1 = {}" "used_sectors fs2 = used_sectors fs1 \<union> data_sectors d"
    using c(3) by (simp_all add: created_def)
  have "card (data_sectors d) = num_sectors d" using cr(1) by (intro card_data_sectors) (simp add: file_ok_def)
  then have card: "card (data_sectors d) = (len + 511) div 512" using length_zero_bytes [OF cr(2)] by (simp add: num_sectors_def)
  have s0: "s \<noteq> 0" using a(3) used u0 by auto
  obtain fs4 where r: "(if \<not> ok then free_map_release ops s fs3 else Some fs3) = Some fs4" "fs_inv ops F fs4"
    "used_sectors fs4 = (if ok then used_sectors fs3 else used_sectors fs3 - {s})"
  proof (cases ok)
    case False
    then have "used_sectors fs3 = used_sectors fs2" using ad(3) by (simp add: used_sectors_def)
    then have "s \<in> used_sectors fs3" using cr(6) a(5) by simp
    moreover have "F \<subseteq> used_sectors fs3 - {s}" using s ad(2) by (auto simp: fs_inv_def)
    ultimately show ?thesis using False that free_map_release_used [OF fs_inv_fm [OF ad(2)], of s] by (auto simp: fs_inv_def)
  qed (use ad(2) that in simp)
  obtain fs5 where z: "dir_close dops (Some h) fs4 = Some fs5" "fs_inv ops F fs5" "free_map fs5 = free_map fs4"
    using dir_okD(2) [OF dir r(2)] by blast
  have "filesys_create ops dops name (int len) True fs = Some (ok, fs5)"
    using o(1) a(1) c(1) ad(1) r(1) z(1) s0 by (simp add: filesys_create_def)
  moreover have "used_sectors fs5 = used_sectors fs4" using z(3) by (simp add: used_sectors_def)
  moreover have "used_sectors fs3 = used_sectors fs2" if "\<not> ok" using that ad(3) by (simp add: used_sectors_def)
  ultimately show ?thesis
    using z(2) ad(1,3) cr card a(3,5) u0 r(3)
    by (intro exI [of _ ok] exI [of _ fs5] exI [of _ s] exI [of _ d] exI [of _ h] exI [of _ fs2] exI [of _ fs3] conjI) auto
qed

text \<open>Shutdown: all that the cache holds is on the device afterwards.\<close>

lemma filesys_done_durable:
  assumes "file_close dops (free_map_ptr s) (fsys s) = Some fs1" "cache_ok (fs_dev ops) (fs_cache fs1)"
  shows "\<exists>s'. filesys_done ops dops s = Some s' \<and>
    (\<forall>t. t \<noteq> no_sector \<longrightarrow> block_read (fs_dev ops) (fs_device (fs_cache (fsys s'))) t = fs_view ops fs1 t)"
  using cache_save_alone [of "fs_dev ops" "fs_cache fs1"] assms
  by (auto simp: filesys_done_def free_map_close_def cache_ok_def)

section \<open>An instance\<close>

text \<open>A directory that has a file of the name \<open>a\<close> already and takes any other name.\<close>

definition demo_dir :: "(sector \<Rightarrow> byte list) dir_ops" where
  "demo_dir = \<lparr>file_open = (\<lambda>i fs. Some (i, fs)), file_close = (\<lambda>i fs. Some fs), dir_create = (\<lambda>s n fs. Some (True, fs)),
     dir_open_root = (\<lambda>fs. Some (Some 0, fs)), dir_close = (\<lambda>d fs. Some fs), dir_lookup = (\<lambda>d n fs. Some (None, fs)),
     dir_add = (\<lambda>d n s fs. Some (n \<noteq> ''a'', fs)), dir_remove = (\<lambda>d n fs. Some (False, fs))\<rparr>"

lemma ram_free_short: "10 \<le> card (free_short ram_fs)"
proof -
  have u: "unat (of_nat n :: sector) = n" if "n < 12" for n using that by (intro unat_of_nat_sector) simp
  have "(of_nat n :: sector) \<in> free_short ram_fs" if "n \<in> {2..<12}" for n
    using that u [of n] by (auto simp: free_short_def used_sectors_def ram_fs_def nth_Cons' word_le_nat_alt)
  then have "of_nat ` {2..<12} \<subseteq> free_short ram_fs" by blast
  moreover have "inj_on (of_nat :: nat \<Rightarrow> sector) {2..<12}" by (rule inj_on_inverseI [of _ unat]) (simp add: u)
  ultimately show ?thesis using card_mono [of "free_short ram_fs" "of_nat ` {2..<12}"] card_image [of "of_nat :: nat \<Rightarrow> sector" "{2..<12}"] by simp
qed

theorem filesys_create_correct_witness:
  "\<exists>fs' D. filesys_create ram_ops demo_dir ''a'' (int 1000) True ram_fs = Some (False, fs') \<and>
     card D = 2 \<and> D \<inter> used_sectors ram_fs = {} \<and> used_sectors fs' = used_sectors ram_fs \<union> D"
proof -
  have "dir_ok ram_ops demo_dir {}" by (simp add: dir_ok_def demo_dir_def)
  moreover have "0 \<in> used_sectors ram_fs" by (simp add: used_sectors_def ram_fs_def)
  moreover have "(1000 + 511) div 512 + 1 < card (free_short ram_fs)" using ram_free_short by simp
  ultimately show ?thesis
    using filesys_create_correct [OF ram_fs_inv(2), of demo_dir 1000 "''a''"]
    by (fastforce simp: demo_dir_def ram_ops_def)
qed

end
