(* ===== verification/Syscall.thy ===== *)
theory Syscall
  imports Interrupts
begin

text \<open>
  System calls, \<open>user-programs/userprog/syscall.c\<close>: the handler of interrupt 0x30, the
  checks of user pointers, the table of file descriptors and the calls on files.

  The state has the memory of the current process: \<open>umem a\<close> is the byte at the user address
  \<open>a\<close>, or \<open>None\<close> where \<open>pagedir_get_page\<close> finds no page. \<open>files_open\<close> is the list of
  \<open>file_store\<close> structures, front first, files known by their addresses; \<open>console\<close> is what \<open>putbuf\<close> has
  printed. \<open>sys_exit\<close> and \<open>thread_exit\<close> do not return, nor does a call that is
  \<open>Stopped\<close>: an access of the kernel to an address that is not mapped, or a wait without end.

  The record \<open>sys_env\<close> has what the file uses from code outside the sources: the base of
  kernel memory (\<open>vaddr.h\<close>), the numbers of the calls (\<open>syscall-nr.h\<close>), processes, the file
  system, files, and keyboard. Operations that read a name from user memory get the memory and
  the address. \<open>junk\<close> is the value in the return register of the functions with an empty
  body.
\<close>

section \<open>State and results\<close>

datatype syscall_no = SYS_HALT | SYS_EXIT | SYS_EXEC | SYS_WAIT | SYS_CREATE | SYS_REMOVE | SYS_OPEN | SYS_FILESIZE
  | SYS_READ | SYS_WRITE | SYS_SEEK | SYS_TELL | SYS_CLOSE | SYS_CHDIR | SYS_MKDIR | SYS_READDIR | SYS_ISDIR | SYS_INUMBER

record file_store =
  fs_fd :: int
  fs_file :: nat

record 'w sys =
  umem :: "u32 \<rightharpoonup> byte"
  files_open :: "file_store list"
  self_status :: int
  console :: "byte list"
  sys_world :: 'w

datatype ('a, 'w) sysres = Returned 'a "'w sys" | Exited "'w sys" | Halted "'w sys" | Stopped

record 'w sys_env =
  PHYS_BASE :: u32
  sysno :: "u32 \<Rightarrow> syscall_no option"
  fd_malloc :: "file_store list \<Rightarrow> bool"
  u_execute :: "byte list \<Rightarrow> 'w \<Rightarrow> int \<times> 'w"
  u_wait :: "int \<Rightarrow> 'w \<Rightarrow> (int \<times> 'w) option"
  u_create :: "(u32 \<rightharpoonup> byte) \<Rightarrow> u32 \<Rightarrow> int \<Rightarrow> 'w \<Rightarrow> (bool \<times> 'w) option"
  u_remove :: "(u32 \<rightharpoonup> byte) \<Rightarrow> u32 \<Rightarrow> 'w \<Rightarrow> (bool \<times> 'w) option"
  u_open :: "(u32 \<rightharpoonup> byte) \<Rightarrow> u32 \<Rightarrow> 'w \<Rightarrow> (nat option \<times> 'w) option"
  u_length :: "nat \<Rightarrow> 'w \<Rightarrow> int"
  u_read :: "nat \<Rightarrow> int \<Rightarrow> 'w \<Rightarrow> byte list \<times> 'w"
  u_write :: "nat \<Rightarrow> byte list \<Rightarrow> int \<Rightarrow> 'w \<Rightarrow> int \<times> 'w"
  u_seek :: "nat \<Rightarrow> int \<Rightarrow> 'w \<Rightarrow> 'w"
  u_tell :: "nat \<Rightarrow> 'w \<Rightarrow> int"
  u_getc :: "'w \<Rightarrow> byte \<times> 'w"
  junk :: u32

text \<open>Sequencing: the rest runs only if the first part returns.\<close>

fun sbind :: "('a, 'w) sysres \<Rightarrow> ('a \<Rightarrow> 'w sys \<Rightarrow> ('b, 'w) sysres) \<Rightarrow> ('b, 'w) sysres" where
  "sbind (Returned a s) k = k a s"
| "sbind (Exited s) k = Exited s"
| "sbind (Halted s) k = Halted s"
| "sbind Stopped k = Stopped"

definition of_option :: "('a \<times> 'w) option \<Rightarrow> 'w sys \<Rightarrow> ('a, 'w) sysres" where
  "of_option r s = (case r of None \<Rightarrow> Stopped | Some (a, w) \<Rightarrow> Returned a (s\<lparr>sys_world := w\<rparr>))"

abbreviation STD_IN :: int where "STD_IN \<equiv> 0"
abbreviation STD_OUT :: int where "STD_OUT \<equiv> 1"
abbreviation MIN_USER_FD :: int where "MIN_USER_FD \<equiv> 2"
abbreviation MAX_PUTBUF_LEN :: nat where "MAX_PUTBUF_LEN \<equiv> 300"

section \<open>User memory\<close>

definition is_valid_uaddr :: "'w sys_env \<Rightarrow> u32 \<Rightarrow> 'w sys \<Rightarrow> bool" where
  "is_valid_uaddr env uaddr s = (if \<not> uaddr < PHYS_BASE env then False else umem s uaddr \<noteq> None)"

definition sys_exit :: "int \<Rightarrow> 'w sys \<Rightarrow> ('a, 'w) sysres" where
  "sys_exit status s = Exited (s\<lparr>self_status := status\<rparr>)"

text \<open>Reading memory in the kernel.\<close>

definition load_byte :: "u32 \<Rightarrow> 'w sys \<Rightarrow> (byte, 'w) sysres" where
  "load_byte a s = (case umem s a of None \<Rightarrow> Stopped | Some b \<Rightarrow> Returned b s)"

fun load_bytes :: "u32 \<Rightarrow> nat \<Rightarrow> 'w sys \<Rightarrow> (byte list, 'w) sysres" where
  "load_bytes a 0 s = Returned [] s"
| "load_bytes a (Suc n) s = sbind (load_byte a s) (\<lambda>b s. sbind (load_bytes (a + 1) n s) (\<lambda>bs s. Returned (b # bs) s))"

fun store_bytes :: "u32 \<Rightarrow> byte list \<Rightarrow> 'w sys \<Rightarrow> (unit, 'w) sysres" where
  "store_bytes a [] s = Returned () s"
| "store_bytes a (b # bs) s =
     (if umem s a = None then Stopped else store_bytes (a + 1) bs (s\<lparr>umem := (umem s)(a \<mapsto> b)\<rparr>))"

text \<open>The checks of \<open>n\<close> bytes from \<open>a\<close> on, as the loops of \<open>grab_arg\<close> and \<open>sys_write\<close> make them.\<close>

fun check_range :: "'w sys_env \<Rightarrow> u32 \<Rightarrow> nat \<Rightarrow> 'w sys \<Rightarrow> (unit, 'w) sysres" where
  "check_range env a 0 s = Returned () s"
| "check_range env a (Suc n) s = (if \<not> is_valid_uaddr env a s then sys_exit (- 1) s else check_range env (a + 1) n s)"

definition grab_arg :: "'w sys_env \<Rightarrow> u32 \<Rightarrow> 'w sys \<Rightarrow> (u32 \<times> u32, 'w) sysres" where
  "grab_arg env esp s =
     sbind (check_range env esp 4 s) (\<lambda>_ s.
     sbind (load_bytes esp 4 s) (\<lambda>bs s. Returned (of_le32 bs, esp + 4) s))"

section \<open>File descriptors\<close>

definition create_fd :: "'w sys_env \<Rightarrow> nat option \<Rightarrow> 'w sys \<Rightarrow> (int, 'w) sysres" where
  "create_fd env f s =
     (case f of
        None \<Rightarrow> Returned (- 1) s
      | Some file \<Rightarrow>
          if \<not> fd_malloc env (files_open s) then Returned (- 1) s
          else
            (case c_int (if files_open s = [] then MIN_USER_FD else fs_fd (hd (files_open s)) + 1) of
               None \<Rightarrow> Stopped
             | Some fd \<Rightarrow> Returned fd (s\<lparr>files_open := \<lparr>fs_fd = fd, fs_file = file\<rparr> # files_open s\<rparr>)))"

text \<open>
  The loop over the list: \<open>file_s\<close> is the entry looked at last. An entry is given by its
  position.
\<close>

fun store_loop :: "int \<Rightarrow> file_store list \<Rightarrow> nat \<Rightarrow> nat option \<Rightarrow> nat option" where
  "store_loop fd [] i file_s = file_s"
| "store_loop fd (e # es) i file_s = (if fs_fd e = fd then Some i else store_loop fd es (Suc i) (Some i))"

definition fd_to_file_store :: "int \<Rightarrow> 'w sys \<Rightarrow> nat option" where
  "fd_to_file_store fd s = (if fd < MIN_USER_FD then None else store_loop fd (files_open s) 0 None)"

definition fd_to_file :: "int \<Rightarrow> 'w sys \<Rightarrow> nat option" where
  "fd_to_file fd s = (case fd_to_file_store fd s of None \<Rightarrow> None | Some i \<Rightarrow> Some (fs_file (files_open s ! i)))"

definition remove_fd :: "int \<Rightarrow> 'w sys \<Rightarrow> nat option \<times> 'w sys" where
  "remove_fd fd s =
     (case fd_to_file_store fd s of
        None \<Rightarrow> (None, s)
      | Some i \<Rightarrow> (Some (fs_file (files_open s ! i)), s\<lparr>files_open := take i (files_open s) @ drop (Suc i) (files_open s)\<rparr>))"

section \<open>The calls\<close>

definition sys_halt :: "'w sys \<Rightarrow> ('a, 'w) sysres" where
  "sys_halt s = Halted s"

text \<open>
  The loop over the characters of the command line; \<open>c\<close> is a user address. It returns the
  characters it has seen.
\<close>

function check_string :: "'w sys_env \<Rightarrow> u32 \<Rightarrow> 'w sys \<Rightarrow> (byte list, 'w) sysres" where
  "check_string env c s =
     (if \<not> c < PHYS_BASE env then Stopped
      else case umem s c of
        None \<Rightarrow> Stopped
      | Some b \<Rightarrow>
          if b = 0 then Returned [] s
          else if \<not> is_valid_uaddr env (c + 1) s then sys_exit (- 1) s
          else sbind (check_string env (c + 1) s) (\<lambda>bs s. Returned (b # bs) s))"
  by pat_completeness auto
termination
proof (relation "measure (\<lambda>(env, c, s). unat (PHYS_BASE env) - unat c)")
  fix env :: "'w sys_env" and c :: u32 and s :: "'w sys"
  assume "\<not> \<not> c < PHYS_BASE env"
  then have l: "unat c < unat (PHYS_BASE env)" by (simp add: word_less_nat_alt)
  moreover have "unat (PHYS_BASE env) < 2 ^ LENGTH(32)" by (rule unsigned_less)
  ultimately have "unat c + 1 < 2 ^ LENGTH(32)" by linarith
  then have "unat (c + 1) = unat c + 1" by (simp add: unat_word_ariths)
  then show "((env, c + 1, s), env, c, s) \<in> measure (\<lambda>(env, c, s). unat (PHYS_BASE env) - unat c)" using l by simp
qed simp

declare check_string.simps [simp del]

definition sys_exec :: "'w sys_env \<Rightarrow> u32 \<Rightarrow> 'w sys \<Rightarrow> (int, 'w) sysres" where
  "sys_exec env cmd_line s =
     (if \<not> is_valid_uaddr env cmd_line s then sys_exit (- 1) s
      else sbind (check_string env cmd_line s) (\<lambda>str s.
        of_option (Some (u_execute env str (sys_world s))) s))"

definition sys_wait :: "'w sys_env \<Rightarrow> int \<Rightarrow> 'w sys \<Rightarrow> (int, 'w) sysres" where
  "sys_wait env pid s = of_option (u_wait env pid (sys_world s)) s"

definition sys_create :: "'w sys_env \<Rightarrow> u32 \<Rightarrow> u32 \<Rightarrow> 'w sys \<Rightarrow> (bool, 'w) sysres" where
  "sys_create env file initial_size s =
     (if \<not> is_valid_uaddr env file s then sys_exit (- 1) s
      else of_option (u_create env (umem s) file (sint initial_size) (sys_world s)) s)"

definition sys_remove :: "'w sys_env \<Rightarrow> u32 \<Rightarrow> 'w sys \<Rightarrow> (bool, 'w) sysres" where
  "sys_remove env file s =
     (if \<not> is_valid_uaddr env file s then sys_exit (- 1) s
      else of_option (u_remove env (umem s) file (sys_world s)) s)"

definition sys_open :: "'w sys_env \<Rightarrow> u32 \<Rightarrow> 'w sys \<Rightarrow> (int, 'w) sysres" where
  "sys_open env file s =
     (if \<not> is_valid_uaddr env file s then sys_exit (- 1) s
      else sbind (of_option (u_open env (umem s) file (sys_world s)) s) (\<lambda>f s. create_fd env f s))"

definition sys_filesize :: "'w sys_env \<Rightarrow> int \<Rightarrow> 'w sys \<Rightarrow> (int, 'w) sysres" where
  "sys_filesize env fd s =
     (case fd_to_file fd s of
        None \<Rightarrow> sys_exit (- 1) s
      | Some f \<Rightarrow> Returned (u_length env f (sys_world s)) s)"

definition sys_read :: "'w sys_env \<Rightarrow> int \<Rightarrow> u32 \<Rightarrow> u32 \<Rightarrow> 'w sys \<Rightarrow> (int, 'w) sysres" where
  "sys_read env fd buffer sz s =
     (if \<not> is_valid_uaddr env buffer s \<or> fd = STD_OUT then sys_exit (- 1) s
      else if fd = STD_IN then
        (let (c, w) = u_getc env (sys_world s) in Returned (uint c) (s\<lparr>sys_world := w\<rparr>))
      else
        (case fd_to_file fd s of
           None \<Rightarrow> Returned (- 1) s
         | Some f \<Rightarrow>
             (let (bs, w) = u_read env f (sint sz) (sys_world s)
              in sbind (store_bytes buffer bs (s\<lparr>sys_world := w\<rparr>)) (\<lambda>_ s. Returned (int (length bs)) s))))"

text \<open>The output loop: every round prints from the start of the buffer.\<close>

function putbuf_loop :: "byte list \<Rightarrow> nat \<Rightarrow> 'w sys \<Rightarrow> 'w sys" where
  "putbuf_loop buffer remaining s =
     (if MAX_PUTBUF_LEN < remaining
      then putbuf_loop buffer (remaining - MAX_PUTBUF_LEN) (s\<lparr>console := console s @ take MAX_PUTBUF_LEN buffer\<rparr>)
      else s\<lparr>console := console s @ take remaining buffer\<rparr>)"
  by pat_completeness auto
termination
  by (relation "measure (\<lambda>(buffer, remaining, s). remaining)") auto

declare putbuf_loop.simps [simp del]

definition sys_write :: "'w sys_env \<Rightarrow> int \<Rightarrow> u32 \<Rightarrow> u32 \<Rightarrow> 'w sys \<Rightarrow> (int, 'w) sysres" where
  "sys_write env fd buffer sz s =
     (if \<not> is_valid_uaddr env buffer s \<or> fd = STD_IN then sys_exit (- 1) s
      else sbind (check_range env buffer (unat sz) s) (\<lambda>_ s.
        if fd = STD_OUT then
          sbind (load_bytes buffer (unat sz) s) (\<lambda>bs s. Returned (sint sz) (putbuf_loop bs (unat sz) s))
        else
          (case fd_to_file fd s of
             None \<Rightarrow> Returned (- 1) s
           | Some f \<Rightarrow> sbind (load_bytes buffer (unat sz) s) (\<lambda>bs s.
               of_option (Some (u_write env f bs (sint sz) (sys_world s))) s))))"

definition sys_seek :: "'w sys_env \<Rightarrow> int \<Rightarrow> u32 \<Rightarrow> 'w sys \<Rightarrow> (unit, 'w) sysres" where
  "sys_seek env fd position s =
     (case fd_to_file fd s of
        None \<Rightarrow> Returned () s
      | Some f \<Rightarrow> Returned () (s\<lparr>sys_world := u_seek env f (sint position) (sys_world s)\<rparr>))"

definition sys_tell :: "'w sys_env \<Rightarrow> int \<Rightarrow> 'w sys \<Rightarrow> (u32, 'w) sysres" where
  "sys_tell env fd s =
     (case fd_to_file fd s of
        None \<Rightarrow> Returned (- 1) s
      | Some f \<Rightarrow> Returned (word_of_int (u_tell env f (sys_world s))) s)"

definition sys_close :: "int \<Rightarrow> 'w sys \<Rightarrow> (unit, 'w) sysres" where
  "sys_close fd s =
     (case remove_fd fd s of
        (None, s1) \<Rightarrow> sys_exit (- 1) s1
      | (Some f, s1) \<Rightarrow> Returned () s1)"

section \<open>The handler\<close>

definition set_eax :: "intr_frame \<Rightarrow> ('a \<Rightarrow> u32) \<Rightarrow> ('a, 'w) sysres \<Rightarrow> (intr_frame, 'w) sysres" where
  "set_eax f conv r = sbind r (\<lambda>a s. Returned (f\<lparr>fr_eax := conv a\<rparr>) s)"

definition no_result :: "intr_frame \<Rightarrow> (unit, 'w) sysres \<Rightarrow> (intr_frame, 'w) sysres" where
  "no_result f r = sbind r (\<lambda>_ s. Returned f s)"

text \<open>One, two and three arguments from the user stack.\<close>

definition args1 :: "'w sys_env \<Rightarrow> u32 \<Rightarrow> 'w sys \<Rightarrow> (u32 \<Rightarrow> 'w sys \<Rightarrow> ('a, 'w) sysres) \<Rightarrow> ('a, 'w) sysres" where
  "args1 env esp s k = sbind (grab_arg env esp s) (\<lambda>(a, esp) s. k a s)"

definition args2 :: "'w sys_env \<Rightarrow> u32 \<Rightarrow> 'w sys \<Rightarrow> (u32 \<Rightarrow> u32 \<Rightarrow> 'w sys \<Rightarrow> ('a, 'w) sysres) \<Rightarrow> ('a, 'w) sysres" where
  "args2 env esp s k = sbind (grab_arg env esp s) (\<lambda>(a, esp) s. args1 env esp s (k a))"

definition args3 :: "'w sys_env \<Rightarrow> u32 \<Rightarrow> 'w sys \<Rightarrow> (u32 \<Rightarrow> u32 \<Rightarrow> u32 \<Rightarrow> 'w sys \<Rightarrow> ('a, 'w) sysres) \<Rightarrow> ('a, 'w) sysres" where
  "args3 env esp s k = sbind (grab_arg env esp s) (\<lambda>(a, esp) s. args2 env esp s (k a))"

definition syscall_handler :: "'w sys_env \<Rightarrow> intr_frame \<Rightarrow> 'w sys \<Rightarrow> (intr_frame, 'w) sysres" where
  "syscall_handler env f s =
     sbind (grab_arg env (fr_esp f) s) (\<lambda>(number, esp) s.
       case sysno env number of
         None \<Rightarrow> Exited s
       | Some SYS_HALT \<Rightarrow> sys_halt s
       | Some SYS_EXIT \<Rightarrow> args1 env esp s (\<lambda>status s. sys_exit (sint status) s)
       | Some SYS_EXEC \<Rightarrow> args1 env esp s (\<lambda>cmd_line s. set_eax f word_of_int (sys_exec env cmd_line s))
       | Some SYS_WAIT \<Rightarrow> args1 env esp s (\<lambda>pid s. set_eax f word_of_int (sys_wait env (sint pid) s))
       | Some SYS_CREATE \<Rightarrow> args2 env esp s (\<lambda>file initial_size s. set_eax f of_bool (sys_create env file initial_size s))
       | Some SYS_REMOVE \<Rightarrow> args1 env esp s (\<lambda>file s. set_eax f of_bool (sys_remove env file s))
       | Some SYS_OPEN \<Rightarrow> args1 env esp s (\<lambda>file s. set_eax f word_of_int (sys_open env file s))
       | Some SYS_FILESIZE \<Rightarrow> args1 env esp s (\<lambda>fd s. set_eax f word_of_int (sys_filesize env (sint fd) s))
       | Some SYS_READ \<Rightarrow> args3 env esp s (\<lambda>fd buffer sz s. set_eax f word_of_int (sys_read env (sint fd) buffer sz s))
       | Some SYS_WRITE \<Rightarrow> args3 env esp s (\<lambda>fd buffer sz s. set_eax f word_of_int (sys_write env (sint fd) buffer sz s))
       | Some SYS_SEEK \<Rightarrow> args2 env esp s (\<lambda>fd position s. no_result f (sys_seek env (sint fd) position s))
       | Some SYS_TELL \<Rightarrow> args1 env esp s (\<lambda>fd s. set_eax f id (sys_tell env (sint fd) s))
       | Some SYS_CLOSE \<Rightarrow> args1 env esp s (\<lambda>fd s. no_result f (sys_close (sint fd) s))
       | Some SYS_READDIR \<Rightarrow> args2 env esp s (\<lambda>fd name s. Returned (f\<lparr>fr_eax := junk env\<rparr>) s)
       | Some _ \<Rightarrow> args1 env esp s (\<lambda>x s. Returned (f\<lparr>fr_eax := junk env\<rparr>) s))"

definition syscall_init :: "cpu \<Rightarrow> 'h \<Rightarrow> ('h, 'w) intr \<Rightarrow> ('h, 'w) intr option" where
  "syscall_init c handler s = intr_register_int c 0x30 3 INTR_ON handler ''syscall'' s"

end
