(* ===== verification/Syscall_Props.thy ===== *)
theory Syscall_Props
  imports Syscall
begin

text \<open>
  Properties of system calls: no argument of a user program makes the kernel access memory that
  is not mapped, except through the buffer of \<open>sys_read\<close>; descriptors form a partial map; what is
  printed on the console.
\<close>

section \<open>User memory\<close>

lemma add_of_nat_Suc: "a + 1 + of_nat i = a + (of_nat (Suc i) :: u32)"
  by simp

lemma all_less_Suc0: "(\<forall>i<Suc n. P i) \<longleftrightarrow> P 0 \<and> (\<forall>i<n. P (Suc i))"
  by (metis less_Suc_eq_0_disj)

lemma check_range_spec:
  "check_range env a n s = (if \<forall>i<n. is_valid_uaddr env (a + of_nat i) s then Returned () s else Exited (s\<lparr>self_status := - 1\<rparr>))"
proof (induction n arbitrary: a)
  case (Suc n)
  show ?case unfolding all_less_Suc0 check_range.simps Suc.IH add_of_nat_Suc by (simp add: sys_exit_def)
qed simp

definition bytes_at :: "u32 \<Rightarrow> nat \<Rightarrow> 'w sys \<Rightarrow> byte list" where
  "bytes_at a n s = map (\<lambda>i. the (umem s (a + of_nat i))) [0..<n]"

lemma length_bytes_at [simp]: "length (bytes_at a n s) = n"
  by (simp add: bytes_at_def)

lemma bytes_at_Suc: "bytes_at a (Suc n) s = the (umem s a) # bytes_at (a + 1) n s"
  unfolding bytes_at_def upt_conv_Cons [OF zero_less_Suc] map_Suc_upt [symmetric] by (simp add: add_of_nat_Suc del: of_nat_Suc)

lemma load_bytes_spec:
  "\<forall>i<n. umem s (a + of_nat i) \<noteq> None \<Longrightarrow> load_bytes a n s = Returned (bytes_at a n s) s"
proof (induction n arbitrary: a)
  case (Suc n)
  then have "umem s a \<noteq> None" "\<forall>i<n. umem s (a + 1 + of_nat i) \<noteq> None" unfolding all_less_Suc0 add_of_nat_Suc by simp_all
  then show ?case using Suc.IH by (auto simp: load_byte_def bytes_at_Suc)
qed (simp add: bytes_at_def)

definition valid_range :: "'w sys_env \<Rightarrow> u32 \<Rightarrow> nat \<Rightarrow> 'w sys \<Rightarrow> bool" where
  "valid_range env a n s \<longleftrightarrow> (\<forall>i<n. is_valid_uaddr env (a + of_nat i) s)"

lemma valid_range_mapped: "valid_range env a n s \<Longrightarrow> \<forall>i<n. umem s (a + of_nat i) \<noteq> None"
  by (auto simp: valid_range_def is_valid_uaddr_def split: if_splits)

lemma check_load:
  "sbind (check_range env a n s) (\<lambda>_ s. sbind (load_bytes a n s) k) =
     (if valid_range env a n s then k (bytes_at a n s) s else Exited (s\<lparr>self_status := - 1\<rparr>))"
  unfolding check_range_spec valid_range_def [symmetric]
  using load_bytes_spec [OF valid_range_mapped, of env a n s] by simp

lemma grab_arg_spec:
  "grab_arg env esp s = (if valid_range env esp 4 s then Returned (of_le32 (bytes_at esp 4 s), esp + 4) s
     else Exited (s\<lparr>self_status := - 1\<rparr>))"
  unfolding grab_arg_def check_load by simp

text \<open>Results that are not \<open>Stopped\<close>.\<close>

named_theorems goes_on

lemma sbind_stopped: "sbind r k = Stopped \<longleftrightarrow> r = Stopped \<or> (\<exists>a s. r = Returned a s \<and> k a s = Stopped)"
  by (cases r) auto

lemma sbind_goes_on [goes_on]: "r \<noteq> Stopped \<Longrightarrow> (\<And>a s. r = Returned a s \<Longrightarrow> k a s \<noteq> Stopped) \<Longrightarrow> sbind r k \<noteq> Stopped"
  by (cases r) simp_all

lemma simple_goes_on [goes_on]: "Returned a s \<noteq> Stopped" "Exited s \<noteq> Stopped" "sys_exit n s \<noteq> Stopped" "sys_halt s \<noteq> Stopped"
  by (simp_all add: sys_exit_def sys_halt_def)

lemma grab_arg_goes_on [goes_on]: "grab_arg env esp s \<noteq> Stopped"
  by (simp add: grab_arg_spec)

lemma grab_arg_state: "grab_arg env esp s = Returned a s' \<Longrightarrow> s' = s"
  by (simp add: grab_arg_spec split: if_splits)

lemma args_goes_on [goes_on]:
  "(\<And>a. k1 a s \<noteq> Stopped) \<Longrightarrow> args1 env esp s k1 \<noteq> Stopped"
  "(\<And>a b. k2 a b s \<noteq> Stopped) \<Longrightarrow> args2 env esp s k2 \<noteq> Stopped"
  "(\<And>a b c. k3 a b c s \<noteq> Stopped) \<Longrightarrow> args3 env esp s k3 \<noteq> Stopped"
  unfolding args1_def args2_def args3_def grab_arg_spec by simp_all

lemma frame_goes_on [goes_on]: "r \<noteq> Stopped \<Longrightarrow> set_eax f conv r \<noteq> Stopped" "u \<noteq> Stopped \<Longrightarrow> no_result f u \<noteq> Stopped"
  unfolding set_eax_def no_result_def by (intro goes_on; assumption)+

lemma of_option_goes_on [goes_on]: "r \<noteq> None \<Longrightarrow> of_option r s \<noteq> Stopped"
  by (auto simp: of_option_def)

lemma check_string_goes_on [goes_on]: "is_valid_uaddr env c s \<Longrightarrow> check_string env c s \<noteq> Stopped"
proof (induction env c s rule: check_string.induct)
  case (1 env c s)
  then show ?case
    by (subst check_string.simps) (auto simp: is_valid_uaddr_def sbind_stopped sys_exit_def split: option.splits if_splits)
qed

text \<open>A name that is mapped up to its terminating zero.\<close>

definition name_mapped :: "(u32 \<rightharpoonup> byte) \<Rightarrow> u32 \<Rightarrow> bool" where
  "name_mapped m a \<longleftrightarrow> (\<exists>n. m (a + of_nat n) = Some 0 \<and> (\<forall>i\<le>n. m (a + of_nat i) \<noteq> None))"

text \<open>
  What is relied on of the outside: waiting ends, and the operations of the file system return if the name they read
  is mapped.
\<close>

definition env_returns :: "'w sys_env \<Rightarrow> bool" where
  "env_returns env \<longleftrightarrow> (\<forall>pid w. u_wait env pid w \<noteq> None) \<and>
     (\<forall>m a. name_mapped m a \<longrightarrow> (\<forall>n w. u_create env m a n w \<noteq> None) \<and> (\<forall>w. u_remove env m a w \<noteq> None) \<and> (\<forall>w. u_open env m a w \<noteq> None))"

lemma env_returnsD:
  assumes "env_returns env"
  shows "u_wait env pid w \<noteq> None" "name_mapped m a \<Longrightarrow> u_create env m a n w \<noteq> None"
    "name_mapped m a \<Longrightarrow> u_remove env m a w \<noteq> None" "name_mapped m a \<Longrightarrow> u_open env m a w \<noteq> None"
  using assms unfolding env_returns_def by blast+

lemma create_fd_goes_on:
  "\<forall>e\<in>set (files_open s). 0 \<le> fs_fd e \<and> fs_fd e < 2 ^ 31 - 1 \<Longrightarrow> create_fd env f s \<noteq> Stopped"
  by (auto simp: create_fd_def c_int_def split: option.splits dest!: bspec [OF _ hd_in_set])

lemma sys_exec_goes_on [goes_on]: "sys_exec env c s \<noteq> Stopped"
  unfolding sys_exec_def by (simp add: goes_on)

lemma sys_write_goes_on [goes_on]: "sys_write env fd buffer n s \<noteq> Stopped"
proof -
  have 1: "load_bytes buffer (unat n) s = Returned (bytes_at buffer (unat n) s) s" if "valid_range env buffer (unat n) s"
    by (rule load_bytes_spec [OF valid_range_mapped [OF that]])
  show ?thesis
    unfolding sys_write_def check_range_spec valid_range_def [symmetric]
    using 1 by (auto simp: sys_exit_def of_option_def split: option.splits prod.splits)
qed

lemma sys_calls_go_on [goes_on]:
  "sys_filesize env fd s \<noteq> Stopped" "sys_seek env fd n s \<noteq> Stopped" "sys_tell env fd s \<noteq> Stopped" "sys_close fd s \<noteq> Stopped"
  "env_returns env \<Longrightarrow> (is_valid_uaddr env file s \<Longrightarrow> name_mapped (umem s) file) \<Longrightarrow> sys_create env file n s \<noteq> Stopped"
  "env_returns env \<Longrightarrow> (is_valid_uaddr env file s \<Longrightarrow> name_mapped (umem s) file) \<Longrightarrow> sys_remove env file s \<noteq> Stopped"
  by (auto simp: sys_filesize_def sys_seek_def sys_tell_def sys_close_def sys_create_def sys_remove_def
      sys_exit_def of_option_def split: option.splits prod.splits dest: env_returnsD)

lemma sys_wait_goes_on [goes_on]: "env_returns env \<Longrightarrow> sys_wait env pid s \<noteq> Stopped"
  unfolding sys_wait_def by (intro of_option_goes_on env_returnsD)

lemma sys_open_goes_on:
  assumes "env_returns env" "\<forall>e\<in>set (files_open s). 0 \<le> fs_fd e \<and> fs_fd e < 2 ^ 31 - 1"
    and "is_valid_uaddr env file s \<Longrightarrow> name_mapped (umem s) file"
  shows "sys_open env file s \<noteq> Stopped"
proof (cases "is_valid_uaddr env file s")
  case True
  obtain f w where "u_open env (umem s) file (sys_world s) = Some (f, w)" using env_returnsD(4) [OF assms(1) assms(3) [OF True]] by fastforce
  moreover have "create_fd env f (s\<lparr>sys_world := w\<rparr>) \<noteq> Stopped" by (rule create_fd_goes_on) (use assms(2) in simp)
  ultimately show ?thesis by (simp add: sys_open_def of_option_def sys_exit_def)
qed (simp add: sys_open_def sys_exit_def)

text \<open>Calls whose first argument matters.\<close>

lemma args_first:
  "k1 (of_le32 (bytes_at esp 4 s)) s \<noteq> Stopped \<Longrightarrow> args1 env esp s k1 \<noteq> Stopped"
  "(\<And>b. k2 (of_le32 (bytes_at esp 4 s)) b s \<noteq> Stopped) \<Longrightarrow> args2 env esp s k2 \<noteq> Stopped"
  unfolding args1_def args2_def grab_arg_spec by simp_all

text \<open>
  C21 (safety): whatever stack pointer and arguments a user program passes, a system call other than \<open>read\<close>
  never makes the kernel touch an address that is not mapped: it returns, or ends the process,
  or halts the machine. The calls \<open>create\<close>, \<open>remove\<close> and \<open>open\<close> check the first byte of the name only; of them
  this holds if a name whose first byte is accessible is mapped up to its end. If any byte of the call number is not accessible,
  the process ends with status -1 and nothing else has changed.
\<close>

theorem syscall_pointers_checked:
  assumes env: "env_returns env" and fds: "\<forall>e\<in>set (files_open s). 0 \<le> fs_fd e \<and> fs_fd e < 2 ^ 31 - 1"
    and nr: "sysno env (of_le32 (bytes_at (fr_esp f) 4 s)) \<noteq> Some SYS_READ"
    and name: "sysno env (of_le32 (bytes_at (fr_esp f) 4 s)) \<in> {Some SYS_CREATE, Some SYS_REMOVE, Some SYS_OPEN} \<Longrightarrow>
      is_valid_uaddr env (of_le32 (bytes_at (fr_esp f + 4) 4 s)) s \<Longrightarrow> name_mapped (umem s) (of_le32 (bytes_at (fr_esp f + 4) 4 s))"
  shows "syscall_handler env f s \<noteq> Stopped \<and>
    ((\<exists>i<4. \<not> is_valid_uaddr env (fr_esp f + of_nat i) s) \<longrightarrow> syscall_handler env f s = Exited (s\<lparr>self_status := - 1\<rparr>))"
proof
  show "(\<exists>i<4. \<not> is_valid_uaddr env (fr_esp f + of_nat i) s) \<longrightarrow> syscall_handler env f s = Exited (s\<lparr>self_status := - 1\<rparr>)"
    by (auto simp: syscall_handler_def grab_arg_spec valid_range_def)
  show "syscall_handler env f s \<noteq> Stopped"
  proof (cases "valid_range env (fr_esp f) 4 s")
    case True
    then have g: "grab_arg env (fr_esp f) s = Returned (of_le32 (bytes_at (fr_esp f) 4 s), fr_esp f + 4) s" by (simp add: grab_arg_spec)
    show ?thesis
    proof (cases "sysno env (of_le32 (bytes_at (fr_esp f) 4 s))")
      case (Some n)
      show ?thesis
      proof (cases "n \<in> {SYS_CREATE, SYS_REMOVE, SYS_OPEN}")
        case True
        let ?a = "of_le32 (bytes_at (fr_esp f + 4) 4 s)"
        have nm: "is_valid_uaddr env ?a s \<Longrightarrow> name_mapped (umem s) ?a" using name True Some by auto
        have "args2 env (fr_esp f + 4) s (\<lambda>file sz s. set_eax f of_bool (sys_create env file sz s)) \<noteq> Stopped"
          "args1 env (fr_esp f + 4) s (\<lambda>file s. set_eax f of_bool (sys_remove env file s)) \<noteq> Stopped"
          "args1 env (fr_esp f + 4) s (\<lambda>file s. set_eax f word_of_int (sys_open env file s)) \<noteq> Stopped"
          by (intro args_first frame_goes_on sys_calls_go_on sys_open_goes_on env fds nm; assumption)+
        then show ?thesis using True Some by (auto simp: syscall_handler_def g)
      next
        case False
        then show ?thesis using nr Some
          by (cases n) (simp_all add: syscall_handler_def g goes_on env)
      qed
    qed (simp add: syscall_handler_def g)
  qed (simp add: syscall_handler_def grab_arg_spec)
qed

text \<open>
  \<open>sys_read\<close> checks the first byte of the buffer only. If the next byte is not mapped and the file
  gives at least two bytes, the kernel stores to an address that is not mapped.
\<close>

theorem sys_read_overruns_buffer:
  assumes "is_valid_uaddr env buffer s" "umem s (buffer + 1) = None" "fd \<noteq> STD_OUT" "fd \<noteq> STD_IN" "fd_to_file fd s = Some f"
    and "u_read env f (sint n) (sys_world s) = (b # b' # bs, w)"
  shows "sys_read env fd buffer n s = Stopped"
  using assms by (simp add: sys_read_def is_valid_uaddr_def split: if_splits)

section \<open>The console\<close>

lemma putbuf_loop_console:
  "putbuf_loop buf n s = s\<lparr>console := console s @ concat (replicate ((n - 1) div 300) (take 300 buf)) @ take (n - 300 * ((n - 1) div 300)) buf\<rparr>"
proof (induction buf n s rule: putbuf_loop.induct)
  case (1 buf n s)
  show ?case
  proof (cases "300 < n")
    case True
    then have "(n - 1) div 300 = Suc ((n - 300 - 1) div 300)" using True le_div_geq [of 300 "n - 1"] by simp
    then show ?thesis using 1 [OF True] True by (subst putbuf_loop.simps) simp
  qed (simp add: putbuf_loop.simps)
qed

text \<open>
  Writing \<open>n\<close> accessible bytes to the console returns \<open>n\<close>. Up to 300 bytes are printed as they
  are; of more, every chunk printed is the start of the buffer again, and what lies
  beyond its first 300 bytes is never printed.
\<close>

theorem sys_write_console:
  assumes v: "valid_range env buffer (unat n) s" and n: "0 < n"
  defines "data \<equiv> bytes_at buffer (unat n) s" and "k \<equiv> (unat n - 1) div 300"
  shows "sys_write env STD_OUT buffer n s =
    Returned (sint n) (s\<lparr>console := console s @ (if n \<le> 300 then data else concat (replicate k (take 300 data)) @ take (unat n - 300 * k) data)\<rparr>)"
proof -
  have "0 < unat n" using n by (simp add: word_less_nat_alt)
  then have "is_valid_uaddr env buffer s" using v by (auto simp: valid_range_def dest: spec [of _ 0])
  then have w: "sys_write env STD_OUT buffer n s = Returned (sint n) (putbuf_loop data (unat n) s)"
    using v load_bytes_spec [OF valid_range_mapped [OF v]]
    by (simp add: sys_write_def check_range_spec valid_range_def [symmetric] data_def)
  have "k = 0" if "n \<le> 300" using that by (simp add: k_def word_le_nat_alt)
  then show ?thesis unfolding w putbuf_loop_console by (auto simp: data_def k_def)
qed

section \<open>Descriptors\<close>

text \<open>
  The interface of a table of handles: opening gives a fresh handle, and finding and closing
  act on a partial map.
\<close>

locale handle_table =
  fixes inv :: "'s \<Rightarrow> bool" and view :: "'s \<Rightarrow> 'k \<rightharpoonup> 'v"
    and add :: "'v \<Rightarrow> 's \<Rightarrow> ('k \<times> 's) option" and find :: "'k \<Rightarrow> 's \<Rightarrow> 'v option"
    and remove :: "'k \<Rightarrow> 's \<Rightarrow> 'v option \<times> 's"
  assumes add_fresh: "inv s \<Longrightarrow> add v s = Some (k, s') \<Longrightarrow> inv s' \<and> view s k = None \<and> view s' = (view s)(k \<mapsto> v)"
    and find_view: "inv s \<Longrightarrow> view s k = Some v \<Longrightarrow> find k s = Some v"
    and remove_view: "inv s \<Longrightarrow> view s k = Some v \<Longrightarrow> \<exists>s'. remove k s = (Some v, s') \<and> inv s' \<and> view s' = (view s)(k := None)"
begin

lemma add_find: "inv s \<Longrightarrow> add v s = Some (k, s') \<Longrightarrow> find k s' = Some v"
  using add_fresh find_view [of s' k v] by fastforce

lemma add_find_other: "inv s \<Longrightarrow> add v s = Some (k, s') \<Longrightarrow> view s k' = Some v' \<Longrightarrow> k' \<noteq> k \<and> find k' s' = Some v'"
  using add_fresh [of s v k s'] find_view [of s' k' v'] by (cases "k' = k") auto

lemma add_remove: "inv s \<Longrightarrow> add v s = Some (k, s') \<Longrightarrow> \<exists>s''. remove k s' = (Some v, s'') \<and> inv s'' \<and> view s'' = view s"
  using add_fresh [of s v k s'] remove_view [of s' k v] by fastforce

lemma remove_find_other:
  "inv s \<Longrightarrow> view s k = Some v \<Longrightarrow> view s k' = Some v' \<Longrightarrow> k' \<noteq> k \<Longrightarrow> \<exists>s'. remove k s = (Some v, s') \<and> find k' s' = Some v'"
  using remove_view [of s k v] find_view [of _ k' v'] by fastforce

end

text \<open>The descriptors in the list decrease, since a new one is one more than that at the front.\<close>

definition fds_ok :: "'w sys \<Rightarrow> bool" where
  "fds_ok s \<longleftrightarrow> sorted_wrt (>) (map fs_fd (files_open s)) \<and> (\<forall>e\<in>set (files_open s). MIN_USER_FD \<le> fs_fd e)"

definition fd_map :: "'w sys \<Rightarrow> int \<rightharpoonup> nat" where
  "fd_map s = map_of (map (\<lambda>e. (fs_fd e, fs_file e)) (files_open s))"

definition add_file :: "'w sys_env \<Rightarrow> nat \<Rightarrow> 'w sys \<Rightarrow> (int \<times> 'w sys) option" where
  "add_file env f s = (case create_fd env (Some f) s of Returned fd s' \<Rightarrow> if fd = - 1 then None else Some (fd, s') | _ \<Rightarrow> None)"

lemma store_loop_found:
  "i < length es \<Longrightarrow> fs_fd (es ! i) = fd \<Longrightarrow> (\<And>j. j < i \<Longrightarrow> fs_fd (es ! j) \<noteq> fd) \<Longrightarrow> store_loop fd es n r = Some (n + i)"
proof (induction es arbitrary: i n r)
  case (Cons e es)
  show ?case
  proof (cases i)
    case (Suc j)
    have "store_loop fd es (Suc n) (Some n) = Some (Suc n + j)"
      using Cons.prems Suc by (intro Cons.IH) force+
    then show ?thesis using Cons.prems(3) [of 0] Suc by simp
  qed (use Cons.prems in simp)
qed simp

lemma store_loop_missing:
  "\<forall>e\<in>set es. fs_fd e \<noteq> fd \<Longrightarrow> store_loop fd es n r = (if es = [] then r else Some (n + length es - 1))"
  by (induction es arbitrary: n r) auto

lemma fd_position:
  assumes "fds_ok s" "fd_map s fd = Some f"
  obtains i where "i < length (files_open s)" "files_open s ! i = \<lparr>fs_fd = fd, fs_file = f\<rparr>" "fd_to_file_store fd s = Some i"
    "\<And>j. j < length (files_open s) \<Longrightarrow> fs_fd (files_open s ! j) = fd \<Longrightarrow> j = i"
proof -
  have "(fd, f) \<in> set (map (\<lambda>e. (fs_fd e, fs_file e)) (files_open s))" using assms(2) unfolding fd_map_def by (rule map_of_SomeD)
  then obtain i where i: "i < length (files_open s)" "fs_fd (files_open s ! i) = fd" "fs_file (files_open s ! i) = f"
    by (auto simp: in_set_conv_nth)
  have d: "distinct (map fs_fd (files_open s))"
    using assms(1) by (auto simp: fds_ok_def sorted_wrt_iff_nth_less distinct_conv_nth) (metis linorder_neqE_nat order_less_irrefl)
  then have u: "j = i" if "j < length (files_open s)" "fs_fd (files_open s ! j) = fd" for j
    using that i nth_eq_iff_index_eq [OF d, of j i] by simp
  have "MIN_USER_FD \<le> fd" using assms(1) i by (auto simp: fds_ok_def)
  moreover have "fs_fd (files_open s ! j) \<noteq> fd" if "j < i" for j using that u [of j] i(1) by auto
  then have "store_loop fd (files_open s) 0 None = Some (0 + i)" using i by (intro store_loop_found) simp_all
  ultimately have "fd_to_file_store fd s = Some i" by (simp add: fd_to_file_store_def)
  moreover have "files_open s ! i = \<lparr>fs_fd = fd, fs_file = f\<rparr>" using i by (cases "files_open s ! i") simp
  ultimately show thesis by (intro that [OF i(1) _ _ u]) simp_all
qed

lemma map_of_without:
  "distinct (map fst (ys @ p # zs)) \<Longrightarrow> map_of (ys @ zs) = (map_of (ys @ p # zs))(fst p := None)"
proof (induction ys)
  case Nil
  then have "map_of zs (fst p) = None" by (simp add: map_of_eq_None_iff)
  then show ?case by (cases p) (auto simp: fun_eq_iff)
next
  case (Cons y ys)
  then show ?case by (auto simp: fun_upd_twist)
qed

lemma map_of_take_drop:
  "distinct (map fst xs) \<Longrightarrow> i < length xs \<Longrightarrow> map_of (take i xs @ drop (Suc i) xs) = (map_of xs)(fst (xs ! i) := None)"
  using map_of_without [of "take i xs" "xs ! i" "drop (Suc i) xs"] by (simp add: id_take_nth_drop [symmetric])

interpretation fd: handle_table fds_ok fd_map "add_file env" fd_to_file remove_fd
  for env :: "'w sys_env"
proof (unfold_locales, goal_cases)
  case (1 s v k s')
  then have k: "k = (if files_open s = [] then MIN_USER_FD else fs_fd (hd (files_open s)) + 1)"
    and s': "s' = s\<lparr>files_open := \<lparr>fs_fd = k, fs_file = v\<rparr> # files_open s\<rparr>"
    by (auto simp: add_file_def create_fd_def c_int_def split: if_splits)
  have less: "fs_fd e < k \<and> MIN_USER_FD \<le> fs_fd e" if "e \<in> set (files_open s)" for e
    using 1(1) that k by (cases "files_open s") (auto simp: fds_ok_def)
  have "MIN_USER_FD \<le> k" using 1(1) k by (cases "files_open s") (auto simp: fds_ok_def)
  moreover have "fd_map s k = None" using less by (force simp: fd_map_def map_of_eq_None_iff)
  ultimately show ?case using 1(1) less by (auto simp: s' fds_ok_def fd_map_def)
next
  case (2 s k v)
  obtain i where "fd_to_file_store k s = Some i" "files_open s ! i = \<lparr>fs_fd = k, fs_file = v\<rparr>" using fd_position [OF 2] by blast
  then show ?case by (simp add: fd_to_file_def)
next
  case (3 s k v)
  obtain i where i: "i < length (files_open s)" "fd_to_file_store k s = Some i" "files_open s ! i = \<lparr>fs_fd = k, fs_file = v\<rparr>"
    using fd_position [OF 3] by blast
  let ?es = "files_open s"
  let ?s = "s\<lparr>files_open := take i ?es @ drop (Suc i) ?es\<rparr>"
  have es: "?es = take i ?es @ (?es ! i) # drop (Suc i) ?es" using i(1) by (simp add: id_take_nth_drop)
  have "fds_ok (s\<lparr>files_open := take i ?es @ (?es ! i) # drop (Suc i) ?es\<rparr>)" using 3(1) es by simp
  then have "fds_ok ?s" by (auto simp: fds_ok_def sorted_wrt_append)
  moreover have "distinct (map fst (map (\<lambda>e. (fs_fd e, fs_file e)) ?es))"
    using 3(1) by (auto simp: fds_ok_def sorted_wrt_iff_nth_less distinct_conv_nth) (metis linorder_neqE_nat order_less_irrefl)
  then have "fd_map ?s = (fd_map s)(k := None)"
    using map_of_take_drop [of "map (\<lambda>e. (fs_fd e, fs_file e)) ?es" i] i by (simp add: fd_map_def take_map drop_map)
  ultimately show ?case using i by (simp add: remove_fd_def)
qed

text \<open>
  A descriptor that is not open is not refused. If any file is open, it is taken for the oldest one:
  \<open>sys_close\<close> of any number from 2 on closes that file and reports success.
\<close>

theorem unknown_descriptor_closes_oldest:
  assumes "MIN_USER_FD \<le> fd" "fd \<notin> fs_fd ` set (files_open s)" "files_open s \<noteq> []"
  shows "fd_to_file fd s = Some (fs_file (last (files_open s))) \<and>
    sys_close fd s = Returned () (s\<lparr>files_open := butlast (files_open s)\<rparr>)"
proof -
  have "\<forall>e\<in>set (files_open s). fs_fd e \<noteq> fd" using assms(2) by blast
  then have "fd_to_file_store fd s = Some (length (files_open s) - 1)"
    using assms store_loop_missing [of "files_open s" fd 0 None] by (simp add: fd_to_file_store_def)
  moreover have "Suc (length (files_open s) - 1) = length (files_open s)" using assms(3) by (cases "files_open s") simp_all
  ultimately show ?thesis using assms(3) by (simp add: fd_to_file_def remove_fd_def sys_close_def last_conv_nth butlast_conv_take)
qed

text \<open>
  C28 (refinement): for the descriptors of open files the table is a partial map to files. A new
  descriptor is one that no open file has; looking it up gives the file, the other open
  descriptors keep theirs, and closing it restores the table that was there before. A number that no open file has is
  not refused from 2 on: it finds, and \<open>sys_close\<close> closes, the oldest open file, the last of the list. Below 2
  nothing is found, and \<open>sys_close\<close> ends the process with status -1.
\<close>

theorem descriptors_refine_map:
  assumes ok: "fds_ok s" and c: "create_fd env (Some f) s = Returned fd s'" and fd: "fd \<noteq> - 1"
  shows "fds_ok s' \<and> fd_map s fd = None \<and> fd_map s' = (fd_map s)(fd \<mapsto> f) \<and> fd_to_file fd s' = Some f \<and>
    (\<forall>fd'\<in>dom (fd_map s). fd_to_file fd' s' = fd_map s fd') \<and>
    (\<exists>s''. sys_close fd s' = Returned () s'' \<and> fds_ok s'' \<and> fd_map s'' = fd_map s) \<and>
    (\<forall>fd'. fd' \<notin> dom (fd_map s') \<longrightarrow> MIN_USER_FD \<le> fd' \<longrightarrow> fd_to_file fd' s' = Some (fs_file (last (files_open s'))) \<and>
       sys_close fd' s' = Returned () (s'\<lparr>files_open := butlast (files_open s')\<rparr>)) \<and>
    (\<forall>fd'<MIN_USER_FD. fd_to_file fd' s' = None \<and> sys_close fd' s' = Exited (s'\<lparr>self_status := - 1\<rparr>))"
proof -
  have "fd_map s' fd = Some f" using fd.add_fresh [of s env f fd s'] ok c fd by (simp add: add_file_def)
  then have ne: "files_open s' \<noteq> []" by (auto simp: fd_map_def)
  have keys: "dom (fd_map s') = fs_fd ` set (files_open s')" by (simp add: fd_map_def dom_map_of_conv_image_fst image_image)
  have absent: "fd_to_file fd' s' = Some (fs_file (last (files_open s'))) \<and>
    sys_close fd' s' = Returned () (s'\<lparr>files_open := butlast (files_open s')\<rparr>)" if "fd' \<notin> dom (fd_map s')" "MIN_USER_FD \<le> fd'" for fd'
    using unknown_descriptor_closes_oldest [OF that(2) _ ne] that(1) keys by blast
  have low: "fd_to_file fd' s' = None \<and> sys_close fd' s' = Exited (s'\<lparr>self_status := - 1\<rparr>)" if "fd' < MIN_USER_FD" for fd'
    using that by (simp add: fd_to_file_def fd_to_file_store_def sys_close_def remove_fd_def sys_exit_def)
  have a: "add_file env f s = Some (fd, s')" using c fd by (simp add: add_file_def)
  show ?thesis
    using fd.add_fresh [OF ok a] fd.add_find [OF ok a] fd.add_find_other [OF ok a] fd.add_remove [OF ok a] absent low
    by (fastforce simp: sys_close_def)
qed

section \<open>An instance\<close>

text \<open>
  One page of user memory at \<open>0x08048000\<close>, two open files, and an outside that gives the bytes
  1 and 2 for every file. The call number on the stack is 9, \<open>SYS_WRITE\<close>.
\<close>

definition demo_env :: "nat sys_env" where
  "demo_env = \<lparr>PHYS_BASE = 0xc0000000, sysno = (\<lambda>n. if n = 9 then Some SYS_WRITE else None), fd_malloc = (\<lambda>_. True),
     u_execute = (\<lambda>_ w. (- 1, w)), u_wait = (\<lambda>_ w. Some (- 1, w)), u_create = (\<lambda>_ _ _ w. Some (False, w)),
     u_remove = (\<lambda>_ _ w. Some (False, w)), u_open = (\<lambda>_ _ w. Some (Some 5, w)), u_length = (\<lambda>_ _. 0),
     u_read = (\<lambda>_ _ w. ([1, 2], w)), u_write = (\<lambda>_ bs _ w. (int (length bs), w)), u_seek = (\<lambda>_ _ w. w), u_tell = (\<lambda>_ _. 0),
     u_getc = (\<lambda>w. (0, w)), junk = 0\<rparr>"

definition demo_user :: "nat sys" where
  "demo_user = \<lparr>umem = (\<lambda>a. if 0x08048000 \<le> a \<and> a < 0x08049000 then Some (ucast a) else None),
     files_open = [\<lparr>fs_fd = 3, fs_file = 30\<rparr>, \<lparr>fs_fd = 2, fs_file = 20\<rparr>], self_status = 0, console = [], sys_world = 0\<rparr>"

lemma demo_env_returns: "env_returns demo_env"
  by (simp add: env_returns_def demo_env_def)

lemma demo_fds: "fds_ok demo_user" "\<forall>e\<in>set (files_open demo_user). 0 \<le> fs_fd e \<and> fs_fd e < 2 ^ 31 - 1"
  by (simp_all add: fds_ok_def demo_user_def)

theorem syscall_pointers_checked_witness:
  "syscall_handler demo_env (empty_frame\<lparr>fr_esp := 0x08048ffe\<rparr>) demo_user = Exited (demo_user\<lparr>self_status := - 1\<rparr>)"
proof -
  have "\<not> is_valid_uaddr demo_env (0x08048ffe + of_nat 2) demo_user" by (simp add: is_valid_uaddr_def demo_user_def)
  then have "\<exists>i<4. \<not> is_valid_uaddr demo_env (0x08048ffe + of_nat i) demo_user" by (intro exI [of _ 2]) simp
  moreover have "sysno demo_env n \<notin> {Some SYS_READ, Some SYS_CREATE, Some SYS_REMOVE, Some SYS_OPEN}" for n by (simp add: demo_env_def)
  ultimately show ?thesis
    using syscall_pointers_checked [OF demo_env_returns demo_fds(2), of "empty_frame\<lparr>fr_esp := 0x08048ffe\<rparr>"] by simp
qed

theorem sys_read_overruns_buffer_witness: "sys_read demo_env 2 0x08048fff 10 demo_user = Stopped"
proof (rule sys_read_overruns_buffer [where f = 20 and b = 1 and b' = 2 and bs = "[]" and w = 0])
  show "fd_to_file 2 demo_user = Some 20" by (simp add: fd_to_file_def fd_to_file_store_def demo_user_def)
qed (simp_all add: is_valid_uaddr_def demo_user_def demo_env_def)

theorem sys_write_console_witness:
  "\<exists>s'. sys_write demo_env STD_OUT 0x08048000 601 demo_user = Returned 601 s' \<and>
     console s' = take 300 (bytes_at 0x08048000 601 demo_user) @ take 300 (bytes_at 0x08048000 601 demo_user) @ take 1 (bytes_at 0x08048000 601 demo_user)"
proof -
  have "is_valid_uaddr demo_env (0x08048000 + of_nat i) demo_user" if "i < 601" for i
  proof -
    have "unat (0x08048000 + of_nat i :: u32) = 0x08048000 + i" using that by (simp add: unat_word_ariths unat_of_nat take_bit_eq_mod)
    then show ?thesis using that by (simp add: is_valid_uaddr_def demo_user_def demo_env_def word_le_nat_alt word_less_nat_alt)
  qed
  then have "valid_range demo_env 0x08048000 (unat (601 :: u32)) demo_user" by (simp add: valid_range_def)
  moreover have "replicate 2 x = [x, x]" "console demo_user = []" for x :: "byte list" by (simp_all add: numeral_2_eq_2 demo_user_def)
  ultimately show ?thesis using sys_write_console [of demo_env "0x08048000" 601 demo_user] by simp
qed

theorem descriptors_refine_map_witness:
  "\<exists>s'. create_fd demo_env (Some 40) demo_user = Returned 4 s' \<and> fd_to_file 4 s' = Some 40 \<and> fd_to_file 3 s' = Some 30 \<and>
     fd_to_file 1 s' = None"
proof -
  obtain s' where s': "create_fd demo_env (Some 40) demo_user = Returned 4 s'" by (simp add: create_fd_def demo_env_def demo_user_def)
  have "fd_map demo_user 3 = Some 30" by (simp add: fd_map_def demo_user_def)
  then show ?thesis using descriptors_refine_map [OF demo_fds(1) s'] s' by (auto dest: bspec [of _ _ 3])
qed

theorem unknown_descriptor_closes_oldest_witness:
  "sys_close 77 demo_user = Returned () (demo_user\<lparr>files_open := [\<lparr>fs_fd = 3, fs_file = 30\<rparr>]\<rparr>)"
  using unknown_descriptor_closes_oldest [of 77 demo_user] by (simp add: demo_user_def)

end
