(* ===== verification/Loader.thy ===== *)
theory Loader
  imports Kernel_Prelude
begin

text \<open>
  Loading of executables, \<open>user-programs/userprog/process.c\<close> from \<open>load\<close> on: the command line, the ELF
  headers, the check and the loading of segments, the initial stack.

  \<open>upages\<close> has the pages of the new process with their contents and whether they may
  be written. The file and memory operations the code calls are not part of the sources: the
  record \<open>load_env\<close>. A file is a value of type \<open>'f\<close> with its position. An access outside the
  mapped pages and a failed assertion stop the kernel, \<open>None\<close>.
\<close>

section \<open>State\<close>

record elf_ehdr =
  e_ident :: "byte list"
  e_type :: u16
  e_machine :: u16
  e_version :: u32
  e_entry :: u32
  e_phoff :: u32
  e_shoff :: u32
  e_flags :: u32
  e_ehsize :: u16
  e_phentsize :: u16
  e_phnum :: u16
  e_shentsize :: u16
  e_shnum :: u16
  e_shstrndx :: u16

record elf_phdr =
  p_type :: u32
  p_offset :: u32
  p_vaddr :: u32
  p_paddr :: u32
  p_filesz :: u32
  p_memsz :: u32
  p_flags :: u32
  p_align :: u32

record uspace =
  upages :: "u32 \<rightharpoonup> byte list \<times> bool"
  free_pages :: nat

text \<open>
  \<open>set_page_ok\<close> says whether \<open>pagedir_set_page\<close> finds the memory it needs.
\<close>

record 'f load_env =
  load_base :: u32
  tokens_malloc :: bool
  pagedir_ok :: bool
  set_page_ok :: "uspace \<Rightarrow> u32 \<Rightarrow> bool"
  f_open :: "byte list option \<Rightarrow> 'f option"
  f_deny :: "'f \<Rightarrow> 'f"
  f_seek :: "int \<Rightarrow> 'f \<Rightarrow> 'f"
  f_read :: "nat \<Rightarrow> 'f \<Rightarrow> byte list \<times> 'f"
  f_length :: "'f \<Rightarrow> int"

abbreviation PGSIZE :: nat where "PGSIZE \<equiv> 4096"
abbreviation PGMASK :: u32 where "PGMASK \<equiv> 0xfff"
abbreviation INPUT_BUF_SIZE :: nat where "INPUT_BUF_SIZE \<equiv> 1025"

abbreviation PT_LOAD :: u32 where "PT_LOAD \<equiv> 1"
abbreviation PT_DYNAMIC :: u32 where "PT_DYNAMIC \<equiv> 2"
abbreviation PT_INTERP :: u32 where "PT_INTERP \<equiv> 3"
abbreviation PT_SHLIB :: u32 where "PT_SHLIB \<equiv> 5"
abbreviation PF_WRITE :: u32 where "PF_WRITE \<equiv> 2"

text \<open>The structures as they lie in the file.\<close>

definition half_at :: "byte list \<Rightarrow> nat \<Rightarrow> u16" where
  "half_at bs n = of_le16 (drop n bs)"

definition word_at :: "byte list \<Rightarrow> nat \<Rightarrow> u32" where
  "word_at bs n = of_le32 (drop n bs)"

definition decode_ehdr :: "byte list \<Rightarrow> elf_ehdr" where
  "decode_ehdr bs = \<lparr>e_ident = take 16 bs, e_type = half_at bs 16, e_machine = half_at bs 18, e_version = word_at bs 20,
     e_entry = word_at bs 24, e_phoff = word_at bs 28, e_shoff = word_at bs 32, e_flags = word_at bs 36,
     e_ehsize = half_at bs 40, e_phentsize = half_at bs 42, e_phnum = half_at bs 44, e_shentsize = half_at bs 46,
     e_shnum = half_at bs 48, e_shstrndx = half_at bs 50\<rparr>"

definition decode_phdr :: "byte list \<Rightarrow> elf_phdr" where
  "decode_phdr bs = \<lparr>p_type = word_at bs 0, p_offset = word_at bs 4, p_vaddr = word_at bs 8, p_paddr = word_at bs 12,
     p_filesz = word_at bs 16, p_memsz = word_at bs 20, p_flags = word_at bs 24, p_align = word_at bs 28\<rparr>"

section \<open>The command line\<close>

text \<open>\<open>strtok_r\<close> with a space as the delimiter, called again until it returns null.\<close>

function strtok_all :: "byte list \<Rightarrow> byte list list" where
  "strtok_all cs =
     (case dropWhile (\<lambda>c. c = 0x20) cs of
        [] \<Rightarrow> []
      | c # cs' \<Rightarrow> (c # takeWhile (\<lambda>c. c \<noteq> 0x20) cs') # strtok_all (dropWhile (\<lambda>c. c \<noteq> 0x20) cs'))"
  by pat_completeness auto
termination
proof (relation "measure length")
  fix cs c and cs' :: "byte list"
  assume "dropWhile (\<lambda>c. c = 0x20) cs = c # cs'"
  then have "length (c # cs') \<le> length cs" using length_dropWhile_le [of "\<lambda>c. c = 0x20" cs] by simp
  moreover have "length (dropWhile (\<lambda>c. c \<noteq> 0x20) cs') \<le> length cs'" by (rule length_dropWhile_le)
  ultimately show "(dropWhile (\<lambda>c. c \<noteq> 0x20) cs', cs) \<in> measure length" by simp
qed simp

declare strtok_all.simps [simp del]

definition load_tokens :: "byte list \<Rightarrow> byte list list" where
  "load_tokens file_name = take INPUT_BUF_SIZE (strtok_all file_name)"

section \<open>Segments\<close>

definition user_addr :: "'f load_env \<Rightarrow> u32 \<Rightarrow> bool" where
  "user_addr env a \<longleftrightarrow> a < load_base env"

definition validate_segment :: "'f load_env \<Rightarrow> elf_phdr \<Rightarrow> 'f \<Rightarrow> bool" where
  "validate_segment env phdr file =
     (if p_offset phdr AND PGMASK \<noteq> p_vaddr phdr AND PGMASK then False
      else if word_of_int (f_length env file) < p_offset phdr then False
      else if p_memsz phdr < p_filesz phdr then False
      else if p_memsz phdr = 0 then False
      else if \<not> user_addr env (p_vaddr phdr) then False
      else if \<not> user_addr env (p_vaddr phdr + p_memsz phdr) then False
      else if p_vaddr phdr + p_memsz phdr < p_vaddr phdr then False
      else if p_vaddr phdr < of_nat PGSIZE then False
      else True)"

text \<open>\<open>kpage\<close> is the content of the page that is mapped.\<close>

definition install_page :: "'f load_env \<Rightarrow> u32 \<Rightarrow> byte list \<Rightarrow> bool \<Rightarrow> uspace \<Rightarrow> bool \<times> uspace" where
  "install_page env upage kpage writable s =
     (if upages s upage = None \<and> set_page_ok env s upage
      then (True, s\<lparr>upages := (upages s)(upage \<mapsto> (kpage, writable))\<rparr>)
      else (False, s))"

text \<open>
  The loop of \<open>load_segment\<close>. The counts are natural numbers: by the first assertion of
  \<open>load_segment\<close> no subtraction of the loop wraps.
\<close>

function segment_loop :: "'f load_env \<Rightarrow> u32 \<Rightarrow> nat \<Rightarrow> nat \<Rightarrow> bool \<Rightarrow> 'f \<Rightarrow> uspace \<Rightarrow> bool \<times> 'f \<times> uspace" where
  "segment_loop env upage read_bytes zero_bytes writable file s =
     (if 0 < read_bytes \<or> 0 < zero_bytes then
        let page_read_bytes = (if read_bytes < PGSIZE then read_bytes else PGSIZE);
            page_zero_bytes = PGSIZE - page_read_bytes
        in if free_pages s = 0 then (False, file, s)
           else let (bs, file1) = f_read env page_read_bytes file
           in if length bs \<noteq> page_read_bytes then (False, file1, s)
              else let kpage = bs @ replicate page_zero_bytes 0;
                       (ok, s1) = install_page env upage kpage writable (s\<lparr>free_pages := free_pages s - 1\<rparr>)
              in if \<not> ok then (False, file1, s1\<lparr>free_pages := free_pages s1 + 1\<rparr>)
                 else segment_loop env (upage + of_nat PGSIZE) (read_bytes - page_read_bytes) (zero_bytes - page_zero_bytes) writable file1 s1
      else (True, file, s))"
  by pat_completeness auto
termination
  by (relation "measure (\<lambda>(env, upage, r, z, w, f, s). r + z)") (auto split: if_splits simp flip: length_greater_0_conv)

declare segment_loop.simps [simp del]

definition load_segment :: "'f load_env \<Rightarrow> int \<Rightarrow> u32 \<Rightarrow> u32 \<Rightarrow> u32 \<Rightarrow> bool \<Rightarrow> 'f \<Rightarrow> uspace \<Rightarrow> (bool \<times> 'f \<times> uspace) option" where
  "load_segment env ofs upage read_bytes zero_bytes writable file s = do {
     kassert ((read_bytes + zero_bytes) mod of_nat PGSIZE = 0);
     kassert (upage AND PGMASK = 0);
     kassert (ofs mod int PGSIZE = 0);
     Some (segment_loop env upage (unat read_bytes) (unat zero_bytes) writable (f_seek env ofs file) s)
   }"

section \<open>The initial stack\<close>

text \<open>
  The stack page while it is filled, by address. Addresses are integers here: each
  subtraction is followed by a store at the result, and a store below the page stops the kernel,
  so that no address wraps around.
\<close>

definition ustore :: "int \<Rightarrow> int \<Rightarrow> byte list \<Rightarrow> (int \<Rightarrow> byte) \<Rightarrow> (int \<Rightarrow> byte) option" where
  "ustore page a bs m =
     (if bs \<noteq> [] \<and> \<not> (page \<le> a \<and> a + int (length bs) \<le> page + int PGSIZE) then None
      else Some (\<lambda>x. if a \<le> x \<and> x < a + int (length bs) then bs ! nat (x - a) else m x))"

text \<open>The strings, from the last to the first; the array of tokens becomes an array of their addresses.\<close>

fun push_strings :: "int \<Rightarrow> byte list list \<Rightarrow> int \<Rightarrow> (int \<Rightarrow> byte) \<Rightarrow> (int list \<times> int \<times> (int \<Rightarrow> byte)) option" where
  "push_strings page [] esp m = Some ([], esp, m)"
| "push_strings page (t # ts) esp m = do {
     (ps, esp1, m1) \<leftarrow> push_strings page ts esp m;
     let esp2 = esp1 - (int (length t) + 1);
     m2 \<leftarrow> ustore page esp2 (t @ [0]) m1;
     Some (esp2 # ps, esp2, m2)
   }"

fun push_words :: "int \<Rightarrow> int list \<Rightarrow> int \<Rightarrow> (int \<Rightarrow> byte) \<Rightarrow> (int \<times> (int \<Rightarrow> byte)) option" where
  "push_words page [] esp m = Some (esp, m)"
| "push_words page (w # ws) esp m = do {
     (esp1, m1) \<leftarrow> push_words page ws esp m;
     let esp2 = esp1 - 4;
     m2 \<leftarrow> ustore page esp2 (le32 (word_of_int w)) m1;
     Some (esp2, m2)
   }"

definition build_stack :: "int \<Rightarrow> byte list list \<Rightarrow> (int \<Rightarrow> byte) \<Rightarrow> (int \<times> (int \<Rightarrow> byte)) option" where
  "build_stack page tokens m = do {
     (ps, esp, m) \<leftarrow> push_strings page tokens (page + int PGSIZE) m;
     let bytes_align = (esp - 4) mod 4;
     let esp = esp - bytes_align;
     m \<leftarrow> ustore page esp (replicate (nat bytes_align) 0) m;
     let esp = esp - 4;
     m \<leftarrow> ustore page esp (replicate 4 0) m;
     (esp, m) \<leftarrow> push_words page ps esp m;
     let esp_cpy = esp;
     let esp = esp - 4;
     m \<leftarrow> ustore page esp (le32 (word_of_int esp_cpy)) m;
     let esp = esp - 4;
     m \<leftarrow> ustore page esp (le32 (of_nat (length tokens))) m;
     let esp = esp - 4;
     m \<leftarrow> ustore page esp (replicate 4 0) m;
     Some (esp, m)
   }"

definition page_bytes :: "int \<Rightarrow> (int \<Rightarrow> byte) \<Rightarrow> byte list" where
  "page_bytes page m = map (\<lambda>i. m (page + int i)) [0..<PGSIZE]"

definition setup_stack :: "'f load_env \<Rightarrow> byte list list \<Rightarrow> uspace \<Rightarrow> (bool \<times> u32 \<times> uspace) option" where
  "setup_stack env tokens s =
     (if free_pages s = 0 then Some (False, 0, s)
      else
        let page = load_base env - of_nat PGSIZE;
            (success, s1) = install_page env page (replicate PGSIZE 0) True (s\<lparr>free_pages := free_pages s - 1\<rparr>)
        in if success then do {
             (esp, m) \<leftarrow> build_stack (uint page) tokens (\<lambda>_. 0);
             Some (True, word_of_int esp, s1\<lparr>upages := (upages s1)(page \<mapsto> (page_bytes (uint page) m, True))\<rparr>)
           } else Some (False, 0, s1\<lparr>free_pages := free_pages s1 + 1\<rparr>))"

section \<open>load\<close>

definition header_ok :: "elf_ehdr \<Rightarrow> bool" where
  "header_ok ehdr \<longleftrightarrow> take 7 (e_ident ehdr) = [0x7f, 0x45, 0x4c, 0x46, 1, 1, 1] \<and> e_type ehdr = 2 \<and> e_machine ehdr = 3 \<and>
     e_version ehdr = 1 \<and> e_phentsize ehdr = 32 \<and> e_phnum ehdr \<le> 1024"

text \<open>The segment of a program header: page in the file, page in memory, bytes to read and to zero.\<close>

definition segment_layout :: "elf_phdr \<Rightarrow> u32 \<times> u32 \<times> u32 \<times> u32" where
  "segment_layout phdr =
     (let file_page = p_offset phdr AND NOT PGMASK;
          mem_page = p_vaddr phdr AND NOT PGMASK;
          page_offset = p_vaddr phdr AND PGMASK;
          round_up = (\<lambda>x :: u32. ((x + of_nat PGSIZE - 1) div of_nat PGSIZE) * of_nat PGSIZE)
      in if 0 < p_filesz phdr then
           let read_bytes = page_offset + p_filesz phdr
           in (file_page, mem_page, read_bytes, round_up (page_offset + p_memsz phdr) - read_bytes)
         else (file_page, mem_page, 0, round_up (page_offset + p_memsz phdr)))"

fun load_phdrs :: "'f load_env \<Rightarrow> nat \<Rightarrow> int \<Rightarrow> 'f \<Rightarrow> uspace \<Rightarrow> (bool \<times> 'f \<times> uspace) option" where
  "load_phdrs env 0 file_ofs file s = Some (True, file, s)"
| "load_phdrs env (Suc n) file_ofs file s =
     (if file_ofs < 0 \<or> f_length env file < file_ofs then Some (False, file, s)
      else let (bs, file1) = f_read env 32 (f_seek env file_ofs file)
      in if length bs \<noteq> 32 then Some (False, file1, s)
         else do {
           file_ofs' \<leftarrow> c_int (file_ofs + 32);
           let phdr = decode_phdr bs;
           if p_type phdr \<in> {PT_DYNAMIC, PT_INTERP, PT_SHLIB} then Some (False, file1, s)
           else if p_type phdr = PT_LOAD then
             (if validate_segment env phdr file1 then do {
                let (file_page, mem_page, read_bytes, zero_bytes) = segment_layout phdr;
                (ok, file2, s2) \<leftarrow> load_segment env (sint file_page) mem_page read_bytes zero_bytes (p_flags phdr AND PF_WRITE \<noteq> 0) file1 s;
                if \<not> ok then Some (False, file2, s2) else load_phdrs env n file_ofs' file2 s2
              } else Some (False, file1, s))
           else load_phdrs env n file_ofs' file1 s
         })"

text \<open>The result has the entry point and the stack pointer when loading has succeeded.\<close>

definition load :: "'f load_env \<Rightarrow> byte list \<Rightarrow> uspace \<Rightarrow> ((u32 \<times> u32) option \<times> uspace) option" where
  "load env file_name s = do {
     let file_name_token = (case strtok_all file_name of [] \<Rightarrow> None | t # _ \<Rightarrow> Some t);
     kassert (tokens_malloc env \<or> file_name_token = None);
     let tokens = load_tokens file_name;
     if \<not> pagedir_ok env then Some (None, s)
     else
       (let s1 = s\<lparr>upages := Map.empty\<rparr>
        in case f_open env file_name_token of
          None \<Rightarrow> Some (None, s1)
        | Some file0 \<Rightarrow>
            let (bs, file1) = f_read env 52 (f_deny env file0);
                ehdr = decode_ehdr bs
            in if length bs \<noteq> 52 \<or> \<not> header_ok ehdr then Some (None, s1)
               else do {
                 (ok, file2, s2) \<leftarrow> load_phdrs env (unat (e_phnum ehdr)) (sint (e_phoff ehdr)) file1 s1;
                 if \<not> ok then Some (None, s2)
                 else do {
                   (ok', esp, s3) \<leftarrow> setup_stack env tokens s2;
                   Some (if ok' then Some (e_entry ehdr, esp) else None, s3)
                 }
               })
   }"

end
