(* ===== verification/Loader_Props.thy ===== *)
theory Loader_Props
  imports Loader
begin

text \<open>
  Properties of loading: no executable makes the kernel map a page outside user memory or fail an
  assertion, segments get the bytes of the file, and the new program finds its arguments on the
  stack.
\<close>

section \<open>Addresses\<close>

lemma option_pair_None [simp]: "(\<forall>a b. x \<noteq> Some (a, b)) \<longleftrightarrow> x = None"
  by (cases x) auto

lemma unat_u32_less: "unat (x :: u32) < 4294967296"
  using unsigned_less [of x] by simp

lemma page_mask: "(0xfff :: u32) = mask 12"
  by (simp add: mask_eq_exp_minus_1)

lemma unat_page_offset: "unat (x AND PGMASK) = unat x mod 4096"
proof -
  have "x AND PGMASK = x mod 4096" unfolding page_mask by (simp flip: take_bit_eq_mask add: take_bit_eq_mod)
  then show ?thesis by (simp add: unat_mod)
qed

lemma unat_page_base: "unat (x AND NOT PGMASK) = unat x div 4096 * 4096"
proof -
  have "x AND NOT PGMASK = push_bit 12 (drop_bit 12 x)"
    unfolding page_mask by (rule bit_word_eqI) (auto simp: bit_simps)
  then have "x AND NOT PGMASK = x div 4096 * 4096" by (simp add: push_bit_eq_mult drop_bit_eq_div)
  moreover have "unat x div 4096 * 4096 < 4294967296" using unat_u32_less [of x] by (simp add: div_times_less_eq_dividend le_less_trans)
  ultimately show ?thesis by (simp add: unat_word_ariths unat_div)
qed

lemma unat_add_u32: "unat (x :: u32) + unat y < 4294967296 \<Longrightarrow> unat (x + y) = unat x + unat y"
  by (simp add: unat_word_ariths)

lemma page_aligned_iff: "x AND PGMASK = 0 \<longleftrightarrow> unat x mod 4096 = 0"
  using unat_page_offset [of x] by (metis unat_eq_zero)

section \<open>Segments lie in user memory\<close>

definition base_ok :: "'f load_env \<Rightarrow> bool" where
  "base_ok env \<longleftrightarrow> unat (load_base env) mod 4096 = 0 \<and> 8192 \<le> unat (load_base env)"

lemma validate_segmentD:
  assumes "validate_segment env p file"
  shows "unat (p_vaddr p) mod 4096 = unat (p_offset p) mod 4096" "p_offset p \<le> word_of_int (f_length env file)"
    "unat (p_filesz p) \<le> unat (p_memsz p)" "0 < unat (p_memsz p)" "unat (p_vaddr p) + unat (p_memsz p) < unat (load_base env)"
    "4096 \<le> unat (p_vaddr p)"
proof -
  note v = assms [unfolded validate_segment_def user_addr_def]
  have "p_offset p AND PGMASK = p_vaddr p AND PGMASK" using v by (auto split: if_splits)
  then show "unat (p_vaddr p) mod 4096 = unat (p_offset p) mod 4096" by (metis unat_page_offset)
  show "p_offset p \<le> word_of_int (f_length env file)" "unat (p_filesz p) \<le> unat (p_memsz p)"
    using v by (auto simp: not_less word_le_nat_alt split: if_splits)
  have "p_memsz p \<noteq> 0" using v by (auto split: if_splits)
  then show "0 < unat (p_memsz p)" by (simp add: unat_gt_0)
  have "p_vaddr p \<le> p_vaddr p + p_memsz p" using v by (auto simp: not_less split: if_splits)
  then have "unat (p_vaddr p + p_memsz p) = unat (p_vaddr p) + unat (p_memsz p)" by (intro unat_add_u32) (simp add: no_olen_add_nat)
  moreover have "p_vaddr p + p_memsz p < load_base env" using v by (auto split: if_splits)
  ultimately show "unat (p_vaddr p) + unat (p_memsz p) < unat (load_base env)" by (simp add: word_less_nat_alt)
  have "\<not> p_vaddr p < of_nat PGSIZE" using v by (auto split: if_splits)
  then show "4096 \<le> unat (p_vaddr p)" by (simp add: word_less_nat_alt)
qed

lemma round_up_pages:
  fixes v m b :: nat
  assumes "b mod 4096 = 0" "v + m < b"
  shows "v div 4096 * 4096 + (v mod 4096 + m + 4095) div 4096 * 4096 \<le> b"
proof -
  obtain k where k: "b = 4096 * k" using assms(1) by auto
  define q where "q = v div 4096"
  define r where "r = v mod 4096"
  have v: "v = 4096 * q + r" by (simp add: q_def r_def)
  then have "4096 * q < 4096 * k" using assms(2) k by linarith
  then obtain j where j: "k = q + j" by (metis less_imp_add_positive mult_less_cancel1)
  have "r + m + 4095 < (j + 1) * 4096" using assms(2) k j v by simp
  then have "(r + m + 4095) div 4096 < j + 1" by (rule less_mult_imp_div_less)
  then have "(r + m + 4095) div 4096 * 4096 \<le> j * 4096" by (intro mult_le_mono1) simp
  then show ?thesis unfolding k j q_def [symmetric] r_def [symmetric] by simp
qed

lemma segment_layout_bounds:
  assumes base: "base_ok env" and v: "validate_segment env p file" and l: "segment_layout p = (fp, mp, r, z)"
  shows "unat fp mod 4096 = 0" "unat mp mod 4096 = 0" "4096 \<le> unat mp" "(unat r + unat z) mod 4096 = 0"
    "unat mp + (unat r + unat z) \<le> unat (load_base env)" "fp \<le> p_offset p"
    "unat fp + unat r \<le> unat (p_offset p) + unat (p_filesz p)" "0 < unat r + unat z"
proof -
  note d = validate_segmentD [OF v]
  let ?v = "unat (p_vaddr p)" and ?m = "unat (p_memsz p)" and ?f = "unat (p_filesz p)" and ?o = "unat (p_vaddr p AND PGMASK)"
  have fp: "fp = p_offset p AND NOT PGMASK" and mp: "mp = p_vaddr p AND NOT PGMASK"
    using l by (auto simp: segment_layout_def Let_def split: if_splits)
  show "unat fp mod 4096 = 0" "unat mp mod 4096 = 0" unfolding fp mp unat_page_base by simp_all
  have "1 \<le> ?v div 4096" using d(6) by (simp add: Suc_le_eq div_greater_zero_iff)
  then show "4096 \<le> unat mp" unfolding mp unat_page_base by simp
  show "fp \<le> p_offset p" unfolding fp word_le_nat_alt unat_page_base by simp
  note o = unat_page_offset [of "p_vaddr p"]
  have b: "unat (load_base env) mod 4096 = 0" "unat (load_base env) < 4294967296" using base unat_u32_less by (auto simp: base_ok_def)
  define R where "R = (?v mod 4096 + ?m + 4095) div 4096 * 4096"
  have R: "?v div 4096 * 4096 + R \<le> unat (load_base env)" unfolding R_def by (rule round_up_pages [OF b(1) d(5)])
  have "(?v mod 4096 + ?m + 4095) div 4096 * 4096 \<le> ?v mod 4096 + ?m + 4095" "?v mod 4096 + ?m \<le> R"
    unfolding R_def by linarith+
  note Rb = this
  have om: "?v mod 4096 + ?m < unat (load_base env)" using d(5) mod_less_eq_dividend [of ?v 4096] by linarith
  have "unat (load_base env) \<le> 4294967296 - 4096" using b by auto
  then have lim: "?v mod 4096 + ?m + 4095 < 4294967296" using om by linarith
  have s1: "unat ((p_vaddr p AND PGMASK) + p_memsz p) = ?v mod 4096 + ?m" using lim o by (subst unat_add_u32) simp_all
  have "unat ((p_vaddr p AND PGMASK) + p_memsz p + 4095) = ?v mod 4096 + ?m + 4095"
    using lim s1 by (subst unat_add_u32) simp_all
  then have ru: "unat (((p_vaddr p AND PGMASK) + p_memsz p + 4095) div 4096 * 4096) = R"
    using Rb(1) lim by (simp add: unat_word_ariths unat_div R_def)
  have s2: "unat ((p_vaddr p AND PGMASK) + p_filesz p) = ?v mod 4096 + ?f" using lim o d(3) by (subst unat_add_u32) simp_all
  have rz: "unat r + unat z = R \<and> unat r \<le> ?v mod 4096 + ?f"
  proof (cases "0 < p_filesz p")
    case True
    then have e: "r = (p_vaddr p AND PGMASK) + p_filesz p" "z = ((p_vaddr p AND PGMASK) + p_memsz p + 4095) div 4096 * 4096 - r"
      using l by (auto simp: segment_layout_def Let_def algebra_simps)
    have "unat r \<le> R" unfolding e(1) s2 using Rb(2) d(3) by linarith
    then have "r \<le> ((p_vaddr p AND PGMASK) + p_memsz p + 4095) div 4096 * 4096" unfolding word_le_nat_alt ru .
    then have "unat z = R - unat r" unfolding e(2) by (simp only: unat_sub ru)
    then show ?thesis using \<open>unat r \<le> R\<close> s2 e(1) by simp
  next
    case False
    then have "r = 0" "z = ((p_vaddr p AND PGMASK) + p_memsz p + 4095) div 4096 * 4096"
      using l by (auto simp: segment_layout_def Let_def algebra_simps)
    then show ?thesis using ru by simp
  qed
  then show "(unat r + unat z) mod 4096 = 0" by (simp add: R_def)
  show "unat mp + (unat r + unat z) \<le> unat (load_base env)" using R rz unfolding mp unat_page_base by simp
  have "unat (p_offset p) div 4096 * 4096 + unat (p_offset p) mod 4096 = unat (p_offset p)" by simp
  then show "unat fp + unat r \<le> unat (p_offset p) + unat (p_filesz p)" unfolding fp unat_page_base using rz d(1) by linarith
  show "0 < unat r + unat z" using rz Rb(2) d(4) by linarith
qed

section \<open>The contents of segments\<close>

text \<open>
  What is documented of files: \<open>content\<close> are the bytes of a file and \<open>pos\<close> its position; reading gives the
  bytes from the position on, as many as there are.
\<close>

definition files_ok :: "'f load_env \<Rightarrow> ('f \<Rightarrow> byte list) \<Rightarrow> ('f \<Rightarrow> nat) \<Rightarrow> bool" where
  "files_ok env content pos \<longleftrightarrow>
     (\<forall>f. f_length env f = int (length (content f))) \<and>
     (\<forall>f n. 0 \<le> n \<longrightarrow> content (f_seek env n f) = content f \<and> pos (f_seek env n f) = nat n) \<and>
     (\<forall>f n. \<exists>f'. f_read env n f = (take n (drop (pos f) (content f)), f') \<and> content f' = content f \<and>
        pos f' = pos f + length (take n (drop (pos f) (content f)))) \<and>
     (\<forall>f. content (f_deny env f) = content f \<and> pos (f_deny env f) = pos f)"

lemma files_okD:
  assumes "files_ok env content pos"
  shows "f_length env f = int (length (content f))"
    and "0 \<le> n \<Longrightarrow> content (f_seek env n f) = content f" "0 \<le> n \<Longrightarrow> pos (f_seek env n f) = nat n"
    and "\<exists>f'. f_read env m f = (take m (drop (pos f) (content f)), f') \<and> content f' = content f \<and>
        pos f' = pos f + length (take m (drop (pos f) (content f)))"
    and "content (f_deny env f) = content f" "pos (f_deny env f) = pos f"
  using assms unfolding files_ok_def by blast+

text \<open>The page with number \<open>i\<close> of a segment with the bytes \<open>bs\<close>, and its address.\<close>

definition seg_page :: "byte list \<Rightarrow> nat \<Rightarrow> byte list" where
  "seg_page bs i = take 4096 (drop (4096 * i) bs) @ replicate (4096 - length (take 4096 (drop (4096 * i) bs))) 0"

abbreviation page_addr :: "u32 \<Rightarrow> nat \<Rightarrow> u32" where
  "page_addr upage i \<equiv> upage + of_nat (4096 * i)"

lemma page_addr_Suc: "page_addr (upage + of_nat PGSIZE) i = page_addr upage (Suc i)"
  by simp

lemma seg_page_Suc: "seg_page (drop 4096 bs) i = seg_page bs (Suc i)"
  by (simp add: seg_page_def add.commute)

definition segment_done :: "'f load_env \<Rightarrow> u32 \<Rightarrow> byte list \<Rightarrow> bool \<Rightarrow> nat \<Rightarrow> uspace \<Rightarrow> uspace \<Rightarrow> bool" where
  "segment_done env upage bs w k s s' \<longleftrightarrow>
     (\<forall>i<k. upages s (page_addr upage i) = None \<and> upages s' (page_addr upage i) = Some (seg_page bs i, w)) \<and>
     (\<forall>a. (\<forall>i<k. a \<noteq> page_addr upage i) \<longrightarrow> upages s' a = upages s a)"

lemma segment_done_Suc:
  assumes "upages s upage = None" "upages s1 = (upages s)(upage \<mapsto> (seg_page bs 0, w))"
    and d: "segment_done env (upage + of_nat PGSIZE) (drop 4096 bs) w k s1 s'"
  shows "segment_done env upage bs w (Suc k) s s'"
proof -
  note d = d [unfolded segment_done_def page_addr_Suc seg_page_Suc]
  have ne: "page_addr upage (Suc i) \<noteq> upage" if "i < k" for i
    using d that assms(2) by (metis fun_upd_same option.distinct(1))
  show ?thesis unfolding segment_done_def
  proof (intro conjI allI impI)
    fix i assume i: "i < Suc k"
    show "upages s (page_addr upage i) = None" "upages s' (page_addr upage i) = Some (seg_page bs i, w)"
    proof -
      show "upages s (page_addr upage i) = None"
      proof (cases i)
        case (Suc j)
        then have "upages s1 (page_addr upage (Suc j)) = None" using d i by blast
        then show ?thesis using ne [of j] i Suc assms(2) by simp
      qed (use assms(1) in simp)
      show "upages s' (page_addr upage i) = Some (seg_page bs i, w)"
      proof (cases i)
        case 0
        have "upages s' upage = upages s1 upage" using d ne by metis
        then show ?thesis using 0 assms(2) by simp
      next
        case (Suc j)
        then show ?thesis using d i by blast
      qed
    qed
  next
    fix a assume a: "\<forall>i<Suc k. a \<noteq> page_addr upage i"
    then have "a \<noteq> upage" "\<forall>i<k. a \<noteq> page_addr upage (Suc i)" by (auto dest: spec [of _ 0])
    then have "upages s' a = upages s1 a" using d by blast
    then show "upages s' a = upages s a" using \<open>a \<noteq> upage\<close> assms(2) by simp
  qed
qed

text \<open>What is enough for a segment of \<open>n\<close> pages.\<close>

definition room_for :: "'f load_env \<Rightarrow> u32 \<Rightarrow> nat \<Rightarrow> uspace \<Rightarrow> bool" where
  "room_for env upage n s \<longleftrightarrow> n \<le> free_pages s \<and> (\<forall>t a. set_page_ok env t a) \<and> (\<forall>i<n. upages s (page_addr upage i) = None)"

lemma segment_loop_step:
  assumes "0 < r \<or> 0 < z" and pr: "pr = (if r < PGSIZE then r else PGSIZE)" and rd: "f_read env pr f = (bs, f1)"
  shows "segment_loop env upage r z w f s =
    (if free_pages s = 0 then (False, f, s) else if length bs \<noteq> pr then (False, f1, s)
     else if upages s upage = None \<and> set_page_ok env (s\<lparr>free_pages := free_pages s - 1\<rparr>) upage
     then segment_loop env (upage + of_nat PGSIZE) (r - pr) (z - (PGSIZE - pr)) w f1
       (s\<lparr>free_pages := free_pages s - 1, upages := (upages s)(upage \<mapsto> (bs @ replicate (PGSIZE - pr) 0, w))\<rparr>)
     else (False, f1, s))"
proof -
  have "s\<lparr>free_pages := free_pages s - 1, free_pages := free_pages s - 1 + 1\<rparr> = s" if "free_pages s \<noteq> 0"
    using that by (cases s) simp
  then show ?thesis using assms(1) rd
    by (subst segment_loop.simps) (simp add: pr [symmetric] Let_def install_page_def)
qed

lemma segment_loop_spec:
  assumes files: "files_ok env content pos"
  shows "r + z = 4096 * n \<Longrightarrow> unat upage + 4096 * n \<le> 4294967296 \<Longrightarrow> bs = take r (drop (pos f) (content f)) \<Longrightarrow>
    \<exists>ok f' s' k. segment_loop env upage r z w f s = (ok, f', s') \<and> content f' = content f \<and>
      k \<le> n \<and> (ok \<longrightarrow> k = n) \<and> segment_done env upage bs w k s s' \<and> free_pages s' = free_pages s - k \<and> k \<le> free_pages s \<and>
      (length bs = r \<and> room_for env upage n s \<longrightarrow> ok)"
proof (induction n arbitrary: upage r z f s bs)
  case 0
  then show ?case by (auto simp: segment_loop.simps segment_done_def)
next
  case (Suc n)
  define pr where "pr = (if r < PGSIZE then r else PGSIZE)"
  have pr: "pr \<le> 4096" "pr \<le> r" "(r - pr) + (z - (PGSIZE - pr)) = 4096 * n" "0 < r \<or> 0 < z"
    using Suc.prems(1) by (auto simp: pr_def)
  obtain f1 where f1: "f_read env pr f = (take pr (drop (pos f) (content f)), f1)" "content f1 = content f"
    "pos f1 = pos f + length (take pr (drop (pos f) (content f)))" using files_okD(4) [OF files] by blast
  have fail: "segment_done env upage bs w 0 s s'" if "upages s' = upages s" for s' using that by (simp add: segment_done_def)
  show ?case
  proof (cases "free_pages s = 0 \<or> length (take pr (drop (pos f) (content f))) \<noteq> pr \<or> upages s upage \<noteq> None \<or> \<not> set_page_ok env (s\<lparr>free_pages := free_pages s - 1\<rparr>) upage")
    case True
    have "segment_loop env upage r z w f s = (False, f, s) \<or> segment_loop env upage r z w f s = (False, f1, s)"
      unfolding segment_loop_step [OF pr(4) pr_def f1(1)] using True by auto
    then obtain f' where l: "segment_loop env upage r z w f s = (False, f', s)" "content f' = content f"
      using f1(2) by metis
    have "\<not> (length bs = r \<and> room_for env upage (Suc n) s)"
    proof
      assume a: "length bs = r \<and> room_for env upage (Suc n) s"
      then have "length (take pr (drop (pos f) (content f))) = pr" using Suc.prems(3) pr(2) by auto
      then show False using True a by (auto simp: room_for_def dest: spec [of _ 0])
    qed
    then show ?thesis using l fail [of s] by (intro exI [of _ False] exI [of _ f'] exI [of _ s] exI [of _ 0]) simp
  next
    case False
    define kpage where "kpage = take pr (drop (pos f) (content f)) @ replicate (PGSIZE - pr) 0"
    define s1 where "s1 = s\<lparr>free_pages := free_pages s - 1, upages := (upages s)(upage \<mapsto> (kpage, w))\<rparr>"
    have l: "segment_loop env upage r z w f s = segment_loop env (upage + of_nat PGSIZE) (r - pr) (z - (PGSIZE - pr)) w f1 s1"
      using False segment_loop_step [OF pr(4) pr_def f1(1), of upage w s] by (simp add: kpage_def s1_def)
    have len: "length (take pr (drop (pos f) (content f))) = pr" using False by simp
    have bs': "drop 4096 bs = take (r - pr) (drop (pos f1) (content f1))"
      unfolding f1 len Suc.prems(3) by (auto simp: pr_def drop_take add.commute)
    have kp: "kpage = seg_page bs 0"
      using len unfolding kpage_def seg_page_def Suc.prems(3) by (auto simp: pr_def min_def)
    have up: "unat (upage + of_nat PGSIZE) = unat upage + 4096 \<or> n = 0"
      using Suc.prems(2) by (auto simp: unat_word_ariths)
    have ih: "\<exists>ok f' s' k. segment_loop env (upage + of_nat PGSIZE) (r - pr) (z - (PGSIZE - pr)) w f1 s1 = (ok, f', s') \<and> content f' = content f1 \<and>
      k \<le> n \<and> (ok \<longrightarrow> k = n) \<and> segment_done env (upage + of_nat PGSIZE) (drop 4096 bs) w k s1 s' \<and> free_pages s' = free_pages s1 - k \<and> k \<le> free_pages s1 \<and>
      (length (drop 4096 bs) = r - pr \<and> room_for env (upage + of_nat PGSIZE) n s1 \<longrightarrow> ok)"
      by (rule Suc.IH [OF pr(3) _ bs']) (use up Suc.prems(2) unat_u32_less [of "upage + of_nat PGSIZE"] in auto)
    then obtain ok f' s' k where i: "segment_loop env upage r z w f s = (ok, f', s')" "content f' = content f"
      "k \<le> n" "ok \<longrightarrow> k = n" "segment_done env (upage + of_nat PGSIZE) (drop 4096 bs) w k s1 s'" "free_pages s' = free_pages s1 - k" "k \<le> free_pages s1"
      "length (drop 4096 bs) = r - pr \<and> room_for env (upage + of_nat PGSIZE) n s1 \<longrightarrow> ok"
      unfolding l f1(2) by blast
    have new: "upages s upage = None" "free_pages s \<noteq> 0"
      using False unfolding de_Morgan_disj not_not by (iprover dest: conjunct1 conjunct2)+
    have d: "segment_done env upage bs w (Suc k) s s'"
      by (rule segment_done_Suc [OF new(1) _ i(5)]) (simp add: s1_def kp)
    have ok: ok if a: "length bs = r \<and> room_for env upage (Suc n) s"
    proof -
      have "page_addr upage (Suc j) \<noteq> upage" if "j < n" for j
      proof -
        have "4096 * Suc j \<le> 4096 * n" using that by (intro mult_le_mono2) simp
        then have "4096 * Suc j < 4294967296" using Suc.prems(2) by simp
        then have "unat (of_nat (4096 * Suc j) :: u32) = 4096 * Suc j" by (simp only: unat_of_nat take_bit_eq_mod) simp
        then have "(of_nat (4096 * Suc j) :: u32) \<noteq> 0" by (metis mult_is_0 nat.distinct(1) unat_0 zero_neq_numeral)
        then show ?thesis by simp
      qed
      then have "room_for env (upage + of_nat PGSIZE) n s1"
        using a unfolding room_for_def page_addr_Suc by (auto simp: s1_def)
      moreover have "length (drop 4096 bs) = r - pr" using a by (simp add: pr_def)
      ultimately show ok using i(8) by blast
    qed
    have "free_pages s' = free_pages s - Suc k" "Suc k \<le> free_pages s" using i(6,7) new(2) by (simp_all add: s1_def)
    note fp = this
    show ?thesis
    proof (intro exI conjI impI)
      show "segment_loop env upage r z w f s = (ok, f', s')" "content f' = content f" by (rule i)+
      show "Suc k \<le> Suc n" using i(3) by (rule Suc_le_mono [THEN iffD2])
      show "Suc k = Suc n" if "ok" using mp [OF i(4) that] by (rule arg_cong)
      show "segment_done env upage bs w (Suc k) s s'" by (rule d)
      show "free_pages s' = free_pages s - Suc k" "Suc k \<le> free_pages s" by (rule fp)+
      show ok if "length bs = r \<and> room_for env upage (Suc n) s" by (rule ok [OF that])
    qed
  qed
qed

lemma sint_small:
  assumes "unat (x :: u32) < 2147483648"
  shows "sint x = int (unat x)"
proof -
  have "int (unat x) < 2147483648" using assms by linarith
  then have "uint x < 2147483648" unfolding uint_nat .
  then have "signed_take_bit 31 (uint x) = uint x" by (intro signed_take_bit_int_eq_self) (simp_all add: order_trans [of _ 0])
  then show ?thesis by (simp add: sint_uint)
qed

lemma unat_of_nat_u32: "n < 4294967296 \<Longrightarrow> unat (of_nat n :: u32) = n"
  by (simp add: unat_of_nat take_bit_eq_mod)

lemma unat_page_addr: "unat upage + 4096 * i < 4294967296 \<Longrightarrow> unat (page_addr upage i) = unat upage + 4096 * i"
  using unat_add_u32 [of upage "of_nat (4096 * i)"] unat_of_nat_u32 [of "4096 * i"] by (simp del: of_nat_mult)

lemma offset_in_file:
  assumes "files_ok env content pos" "length (content file) < 2147483648" "x \<le> word_of_int (f_length env file)"
  shows "unat (x :: u32) \<le> length (content file)"
proof -
  have "unat (word_of_int (f_length env file) :: u32) = length (content file)"
    using assms(2) files_okD(1) [OF assms(1)] by (simp add: unat_of_nat take_bit_eq_mod)
  then show ?thesis using assms(3) by (simp add: word_le_nat_alt)
qed

text \<open>A segment that was accepted.\<close>

lemma load_segment_spec:
  assumes files: "files_ok env content pos" "length (content file) < 2147483648" and base: "base_ok env"
    and v: "validate_segment env p file" and l: "segment_layout p = (fp, mp, r, z)"
  defines "n \<equiv> (unat r + unat z) div 4096" and "bs \<equiv> take (unat r) (drop (unat fp) (content file))"
  shows "\<exists>ok file' s' k. load_segment env (sint fp) mp r z w file s = Some (ok, file', s') \<and> content file' = content file \<and>
    k \<le> n \<and> (ok \<longrightarrow> k = n) \<and> segment_done env mp bs w k s s' \<and>
    (\<forall>i<n. unat (page_addr mp i) = unat mp + 4096 * i \<and> 4096 \<le> unat (page_addr mp i) \<and> unat (page_addr mp i) + 4096 \<le> unat (load_base env)) \<and>
    (length bs = unat r \<and> room_for env mp n s \<longrightarrow> ok)"
proof -
  note b = segment_layout_bounds [OF base v l]
  have rz: "unat r + unat z = 4096 * n" using b(4) by (auto simp: n_def)
  have lim: "unat mp + 4096 * n \<le> unat (load_base env)" "unat (load_base env) < 4294967296" using b(5) rz unat_u32_less by auto
  have "unat (p_offset p) \<le> length (content file)" using offset_in_file [OF files validate_segmentD(2) [OF v]] .
  then have fp: "unat fp < 2147483648" using b(6) files(2) by (simp add: word_le_nat_alt)
  note sf = sint_small [OF fp]
  have sk: "content (f_seek env (sint fp) file) = content file" "pos (f_seek env (sint fp) file) = unat fp"
    using files_okD(2,3) [OF files(1)] sf by simp_all
  have "unat (r + z) = unat r + unat z" using lim rz by (intro unat_add_u32) simp
  then have "unat ((r + z) mod of_nat PGSIZE) = 0" using b(4) by (simp add: unat_mod)
  then have a1: "(r + z) mod of_nat PGSIZE = 0" by (metis unat_eq_zero)
  have a2: "mp AND PGMASK = 0" using b(2) by (simp add: page_aligned_iff)
  have a3: "sint fp mod int PGSIZE = 0" unfolding sf zmod_int [symmetric] using b(1) by simp
  obtain ok f' s' k where sl: "segment_loop env mp (unat r) (unat z) w (f_seek env (sint fp) file) s = (ok, f', s')"
    "content f' = content (f_seek env (sint fp) file)" "k \<le> n" "ok \<longrightarrow> k = n" "segment_done env mp bs w k s s'"
    "length bs = unat r \<and> room_for env mp n s \<longrightarrow> ok"
    using segment_loop_spec [OF files(1) rz _ refl, where upage = mp and f = "f_seek env (sint fp) file" and w = w and s = s] lim unfolding sk bs_def [symmetric] by auto
  have "unat (page_addr mp i) = unat mp + 4096 * i" if "i < n" for i
    by (rule unat_page_addr) (use that lim in linarith)
  then have pg: "\<forall>i<n. unat (page_addr mp i) = unat mp + 4096 * i \<and> 4096 \<le> unat (page_addr mp i) \<and> unat (page_addr mp i) + 4096 \<le> unat (load_base env)"
    using b(3) lim(1) by auto
  have "load_segment env (sint fp) mp r z w file s = Some (ok, f', s')" using a1 a2 a3 sl(1) by (simp add: load_segment_def)
  moreover have "content f' = content file" using sl(2) sk(1) by simp
  ultimately show ?thesis using sl(3-6) pg by blast
qed

section \<open>The initial stack\<close>

text \<open>\<open>bs\<close> lies at the address \<open>a\<close>.\<close>

definition lies_at :: "(int \<Rightarrow> byte) \<Rightarrow> int \<Rightarrow> byte list \<Rightarrow> bool" where
  "lies_at m a bs \<longleftrightarrow> (\<forall>i<length bs. m (a + int i) = bs ! i)"

definition same_from :: "int \<Rightarrow> (int \<Rightarrow> byte) \<Rightarrow> (int \<Rightarrow> byte) \<Rightarrow> bool" where
  "same_from a m m' \<longleftrightarrow> (\<forall>x\<ge>a. m' x = m x)"

lemma same_from_refl: "same_from a m m"
  by (simp add: same_from_def)

lemma same_from_trans: "same_from a m m1 \<Longrightarrow> same_from b m1 m2 \<Longrightarrow> b \<le> a \<Longrightarrow> same_from a m m2"
  by (simp add: same_from_def)

lemma lies_at_same: "lies_at m x bs \<Longrightarrow> same_from a m m' \<Longrightarrow> a \<le> x \<Longrightarrow> lies_at m' x bs"
  by (simp add: lies_at_def same_from_def)

text \<open>One push: \<open>bs\<close> goes right below \<open>esp\<close>.\<close>

lemma ustore_push:
  assumes "page \<le> esp - int (length bs)" "esp \<le> page + 4096"
  obtains m' where "ustore page (esp - int (length bs)) bs m = Some m'" "lies_at m' (esp - int (length bs)) bs" "same_from esp m m'"
proof -
  let ?a = "esp - int (length bs)"
  let ?m = "\<lambda>x. if ?a \<le> x \<and> x < ?a + int (length bs) then bs ! nat (x - ?a) else m x"
  have "ustore page ?a bs m = Some ?m" using assms by (simp add: ustore_def)
  moreover have "lies_at ?m ?a bs" by (simp add: lies_at_def)
  moreover have "same_from esp m ?m" by (simp add: same_from_def)
  ultimately show thesis by (rule that)
qed

definition strings_size :: "byte list list \<Rightarrow> int" where
  "strings_size ts = sum_list (map (\<lambda>t. int (length t) + 1) ts)"

lemma strings_size_simps [simp]:
  "strings_size [] = 0" "strings_size (t # ts) = int (length t) + 1 + strings_size ts"
  by (simp_all add: strings_size_def)

lemma strings_size_nonneg: "0 \<le> strings_size ts"
  by (induction ts) simp_all

lemma push_strings_spec:
  "page \<le> esp - strings_size ts \<Longrightarrow> esp \<le> page + 4096 \<Longrightarrow>
   \<exists>ps m'. push_strings page ts esp m = Some (ps, esp - strings_size ts, m') \<and> length ps = length ts \<and> same_from esp m m' \<and>
     (\<forall>i<length ts. lies_at m' (ps ! i) (ts ! i @ [0]) \<and> esp - strings_size ts \<le> ps ! i \<and> ps ! i + int (length (ts ! i)) < esp)"
proof (induction ts)
  case (Cons t ts)
  obtain ps m1 where i: "push_strings page ts esp m = Some (ps, esp - strings_size ts, m1)" "length ps = length ts" "same_from esp m m1"
    "\<forall>i<length ts. lies_at m1 (ps ! i) (ts ! i @ [0]) \<and> esp - strings_size ts \<le> ps ! i \<and> ps ! i + int (length (ts ! i)) < esp"
    using Cons by auto
  let ?e = "esp - strings_size ts" and ?b = "t @ [0]"
  have "page \<le> ?e - int (length ?b)" "?e \<le> page + 4096" using Cons.prems strings_size_nonneg [of ts] by simp_all
  then obtain m2 where s: "ustore page (?e - int (length ?b)) ?b m1 = Some m2" "lies_at m2 (?e - int (length ?b)) ?b" "same_from ?e m1 m2"
    by (rule ustore_push)
  let ?ps = "(?e - int (length ?b)) # ps"
  have "push_strings page (t # ts) esp m = Some (?ps, esp - strings_size (t # ts), m2)"
    using i(1) s(1) by (simp add: algebra_simps Let_def)
  moreover have "same_from esp m m2" using same_from_trans [OF i(3) s(3)] strings_size_nonneg [of ts] by simp
  moreover have "lies_at m2 (?ps ! j) ((t # ts) ! j @ [0]) \<and> esp - strings_size (t # ts) \<le> ?ps ! j \<and> ?ps ! j + int (length ((t # ts) ! j)) < esp"
    if "j < length (t # ts)" for j
  proof (cases j)
    case 0
    then show ?thesis using s(2) strings_size_nonneg [of ts] by simp
  next
    case (Suc k)
    then have k: "lies_at m1 (ps ! k) (ts ! k @ [0])" "?e \<le> ps ! k" "ps ! k + int (length (ts ! k)) < esp" using i(4) that by simp_all
    then show ?thesis using lies_at_same [OF k(1) s(3) k(2)] Suc by simp
  qed
  ultimately show ?case using i(2) by (intro exI [of _ ?ps] exI [of _ m2]) simp
qed (auto simp: same_from_refl)

lemma push_words_spec:
  "page \<le> esp - 4 * int (length ws) \<Longrightarrow> esp \<le> page + 4096 \<Longrightarrow>
   \<exists>m'. push_words page ws esp m = Some (esp - 4 * int (length ws), m') \<and> same_from esp m m' \<and>
     (\<forall>i<length ws. lies_at m' (esp - 4 * int (length ws) + 4 * int i) (le32 (word_of_int (ws ! i))))"
proof (induction ws)
  case (Cons w ws)
  obtain m1 where i: "push_words page ws esp m = Some (esp - 4 * int (length ws), m1)" "same_from esp m m1"
    "\<forall>i<length ws. lies_at m1 (esp - 4 * int (length ws) + 4 * int i) (le32 (word_of_int (ws ! i)))"
    using Cons by auto
  let ?e = "esp - 4 * int (length ws)" and ?b = "le32 (word_of_int w)"
  have "page \<le> ?e - int (length ?b)" "?e \<le> page + 4096" using Cons.prems by simp_all
  then obtain m2 where s: "ustore page (?e - int (length ?b)) ?b m1 = Some m2" "lies_at m2 (?e - int (length ?b)) ?b" "same_from ?e m1 m2"
    by (rule ustore_push)
  have "push_words page (w # ws) esp m = Some (esp - 4 * int (length (w # ws)), m2)"
    using i(1) s(1) by (simp add: algebra_simps)
  moreover have "same_from esp m m2" using same_from_trans [OF i(2) s(3)] by simp
  moreover have "lies_at m2 (esp - 4 * int (length (w # ws)) + 4 * int j) (le32 (word_of_int ((w # ws) ! j)))"
    if "j < length (w # ws)" for j
  proof (cases j)
    case 0
    then show ?thesis using s(2) by (simp add: algebra_simps)
  next
    case (Suc k)
    then have "lies_at m1 (?e + 4 * int k) (le32 (word_of_int (ws ! k)))" using i(3) that by simp
    from lies_at_same [OF this s(3)] show ?thesis using Suc by (simp add: algebra_simps)
  qed
  ultimately show ?case by blast
qed (auto simp: same_from_refl)

definition stack_pad :: "byte list list \<Rightarrow> int" where
  "stack_pad ts = (- strings_size ts) mod 4"

definition stack_size :: "byte list list \<Rightarrow> int" where
  "stack_size ts = strings_size ts + stack_pad ts + 4 * int (length ts) + 16"

lemma build_stack_spec:
  assumes page: "page mod 4096 = 0" and fit: "stack_size ts \<le> 4096"
  defines "esp \<equiv> page + 4096 - stack_size ts"
  shows "\<exists>m' ps. build_stack page ts m = Some (esp, m') \<and> length ps = length ts \<and>
    lies_at m' esp (le32 0) \<and> lies_at m' (esp + 4) (le32 (of_nat (length ts))) \<and> lies_at m' (esp + 8) (le32 (word_of_int (esp + 12))) \<and>
    (\<forall>i<length ts. lies_at m' (esp + 12 + 4 * int i) (le32 (word_of_int (ps ! i))) \<and> lies_at m' (ps ! i) (ts ! i @ [0]) \<and>
       esp \<le> ps ! i \<and> ps ! i + int (length (ts ! i)) < page + 4096) \<and>
    lies_at m' (esp + 12 + 4 * int (length ts)) (le32 0)"
proof -
  let ?S = "strings_size ts" and ?A = "stack_pad ts" and ?n = "int (length ts)"
  have A: "0 \<le> ?A" "?A < 4" by (simp_all add: stack_pad_def)
  note S = strings_size_nonneg [of ts]
  have z: "le32 0 = replicate 4 0" by (simp add: le32_def numeral_eq_Suc)
  let ?e1 = "page + 4096 - ?S"
  obtain ps m1 where p: "push_strings page ts (page + 4096) m = Some (ps, ?e1, m1)" "length ps = length ts"
    "\<forall>i<length ts. lies_at m1 (ps ! i) (ts ! i @ [0]) \<and> ?e1 \<le> ps ! i \<and> ps ! i + int (length (ts ! i)) < page + 4096"
    using push_strings_spec [of page "page + 4096" ts m] fit A by (auto simp: stack_size_def)
  have al: "(?e1 - 4) mod 4 = ?A"
  proof -
    obtain k where k: "page = 4096 * k" using page by auto
    have "?e1 - 4 = - ?S + (1024 * k + 1023) * 4" by (simp add: k)
    then show ?thesis unfolding stack_pad_def by (simp only: mod_mult_self1)
  qed
  have "int (length (replicate (nat ?A) (0 :: byte))) = ?A" using A by simp
  then obtain m2 where s2: "ustore page (?e1 - ?A) (replicate (nat ?A) 0) m1 = Some m2" "same_from ?e1 m1 m2"
    using ustore_push [of page ?e1 "replicate (nat ?A) 0" m1] fit S A by (auto simp: stack_size_def)
  let ?e2 = "?e1 - ?A"
  obtain m3 where s3: "ustore page (?e2 - 4) (replicate 4 0) m2 = Some m3" "lies_at m3 (?e2 - 4) (le32 0)" "same_from ?e2 m2 m3"
    using ustore_push [of page ?e2 "replicate 4 0" m2] fit S A unfolding z by (auto simp: stack_size_def)
  let ?e3 = "?e2 - 4"
  obtain m4 where s4: "push_words page ps ?e3 m3 = Some (?e3 - 4 * ?n, m4)" "same_from ?e3 m3 m4"
    "\<forall>i<length ts. lies_at m4 (?e3 - 4 * ?n + 4 * int i) (le32 (word_of_int (ps ! i)))"
    using push_words_spec [of page ?e3 ps m3] fit S A p(2) by (auto simp: stack_size_def)
  let ?e4 = "?e3 - 4 * ?n"
  obtain m5 where s5: "ustore page (?e4 - 4) (le32 (word_of_int ?e4)) m4 = Some m5" "lies_at m5 (?e4 - 4) (le32 (word_of_int ?e4))" "same_from ?e4 m4 m5"
    using ustore_push [of page ?e4 "le32 (word_of_int ?e4)" m4] fit S A by (auto simp: stack_size_def)
  let ?e5 = "?e4 - 4"
  obtain m6 where s6: "ustore page (?e5 - 4) (le32 (of_nat (length ts))) m5 = Some m6" "lies_at m6 (?e5 - 4) (le32 (of_nat (length ts)))" "same_from ?e5 m5 m6"
    using ustore_push [of page ?e5 "le32 (of_nat (length ts))" m5] fit S A by (auto simp: stack_size_def)
  let ?e6 = "?e5 - 4"
  obtain m7 where s7: "ustore page (?e6 - 4) (replicate 4 0) m6 = Some m7" "lies_at m7 (?e6 - 4) (le32 0)" "same_from ?e6 m6 m7"
    using ustore_push [of page ?e6 "replicate 4 0" m6] fit S A unfolding z by (auto simp: stack_size_def)
  have esp: "esp = ?e6 - 4" "esp + 4 = ?e6" "esp + 8 = ?e5" "esp + 12 = ?e4" "?e4 + 4 * ?n = ?e3" by (simp_all add: esp_def stack_size_def)
  have b: "build_stack page ts m = Some (esp, m7)"
    unfolding build_stack_def of_nat_numeral p(1) bind.bind_lunit prod.case Let_def al s2(1) s3(1) s4(1) s5(1) s6(1) s7(1) esp(1) ..
  note t57 = same_from_trans [OF same_from_trans [OF s5(3) s6(3)] s7(3)]
  have "same_from ?e3 m3 m7" using same_from_trans [OF s4(2) t57] by simp
  moreover have "same_from ?e1 m1 m7"
    using same_from_trans [OF same_from_trans [OF s2(2) s3(3)] same_from_trans [OF s4(2) t57]] A by simp
  ultimately have top: "same_from ?e3 m3 m7" "same_from ?e1 m1 m7" by blast+
  have "lies_at m7 (esp + 4) (le32 (of_nat (length ts)))" using lies_at_same [OF s6(2) s7(3)] esp by simp
  moreover have "lies_at m7 (esp + 8) (le32 (word_of_int (esp + 12)))"
    unfolding esp(3,4) by (rule lies_at_same [OF s5(2) same_from_trans [OF s6(3) s7(3)]]) simp_all
  moreover have "lies_at m7 (esp + 12 + 4 * int i) (le32 (word_of_int (ps ! i)))" if "i < length ts" for i
    unfolding esp(4) by (rule lies_at_same [OF _ t57]) (use s4(3) that in simp_all)
  moreover have "lies_at m7 (ps ! i) (ts ! i @ [0]) \<and> esp \<le> ps ! i \<and> ps ! i + int (length (ts ! i)) < page + 4096" if "i < length ts" for i
    using p(3) that lies_at_same [OF _ top(2)] A esp(1) by fastforce
  moreover have "lies_at m7 (esp + 12 + 4 * ?n) (le32 0)" using lies_at_same [OF s3(2) top(1)] esp(4,5) by simp
  moreover have "lies_at m7 esp (le32 0)" using s7(2) esp(1) by simp
  ultimately show ?thesis using b p(2) by blast
qed

text \<open>
  What a program sees: \<open>main_args\<close> reads the arguments of \<open>main\<close> as the C calling convention
  has them at the first instruction, from the page of the stack.
\<close>

definition peek :: "u32 \<Rightarrow> byte list \<Rightarrow> u32 \<Rightarrow> byte list" where
  "peek page bytes a = drop (unat (a - page)) bytes"

definition peek_word :: "u32 \<Rightarrow> byte list \<Rightarrow> u32 \<Rightarrow> u32" where
  "peek_word page bytes a = of_le32 (peek page bytes a)"

definition peek_string :: "u32 \<Rightarrow> byte list \<Rightarrow> u32 \<Rightarrow> byte list" where
  "peek_string page bytes a = takeWhile (\<lambda>c. c \<noteq> 0) (peek page bytes a)"

definition main_args :: "u32 \<Rightarrow> byte list \<Rightarrow> u32 \<Rightarrow> byte list list" where
  "main_args page bytes esp =
     (let argc = peek_word page bytes (esp + 4); argv = peek_word page bytes (esp + 8)
      in map (\<lambda>i. peek_string page bytes (peek_word page bytes (argv + of_nat (4 * i)))) [0..<unat argc])"

lemma peek_lies_at:
  assumes l: "lies_at m x bs" and x: "uint page \<le> x" "x + int (length bs) \<le> uint page + 4096"
  shows "\<exists>rest. peek page (page_bytes (uint page) m) (word_of_int x) = bs @ rest"
proof -
  define k where "k = nat (x - uint page)"
  have k: "x = uint page + int k" "k + length bs \<le> 4096" using x by (simp_all add: k_def)
  have "word_of_int x - page = (of_nat k :: u32)" unfolding k(1) by simp
  then have d: "unat (word_of_int x - page) = k" using k(2) by (simp add: unat_of_nat_u32)
  have "take (length bs) (peek page (page_bytes (uint page) m) (word_of_int x)) = bs"
    using l k unfolding peek_def d page_bytes_def lies_at_def by (intro nth_equalityI) (simp_all add: algebra_simps)
  then show ?thesis by (metis append_take_drop_id)
qed

lemma peek_word_lies_at:
  assumes "lies_at m x (le32 w)" "uint page \<le> x" "x + 4 \<le> uint page + 4096"
  shows "peek_word page (page_bytes (uint page) m) (word_of_int x) = w"
  using peek_lies_at [OF assms(1,2)] assms(3) by (auto simp: peek_word_def)

lemma peek_string_lies_at:
  assumes "lies_at m x (t @ [0])" "uint page \<le> x" "x + int (length t) < uint page + 4096" "0 \<notin> set t"
  shows "peek_string page (page_bytes (uint page) m) (word_of_int x) = t"
proof -
  obtain rest where "peek page (page_bytes (uint page) m) (word_of_int x) = (t @ [0]) @ rest"
    using peek_lies_at [OF assms(1,2)] assms(3) by auto
  moreover have "takeWhile (\<lambda>c. c \<noteq> 0) (t @ 0 # rest) = t" using assms(4) by (subst takeWhile_append2) auto
  ultimately show ?thesis by (simp add: peek_string_def)
qed

text \<open>
  The arguments that are pushed are the arguments that the program finds, whatever the page held before. If they fit into
  the page, the stack pointer is a multiple of four, the return address and the word after the last argument are zero, and reading
  \<open>argc\<close> and \<open>argv\<close> gives back the tokens of the command line.
\<close>

lemma build_stack_args:
  assumes pm: "uint page mod 4096 = 0" and up: "uint page + 4096 < 2 ^ 32"
    and ts: "stack_size ts \<le> 4096" "\<forall>t\<in>set ts. 0 \<notin> set t"
  defines "x \<equiv> uint page + 4096 - stack_size ts"
  shows "\<exists>m. build_stack (uint page) ts m0 = Some (x, m) \<and> unat (word_of_int x :: u32) mod 4 = 0 \<and>
    peek_word page (page_bytes (uint page) m) (word_of_int x) = 0 \<and>
    peek_word page (page_bytes (uint page) m) (word_of_int x + 4) = of_nat (length ts) \<and>
    main_args page (page_bytes (uint page) m) (word_of_int x) = ts \<and>
    peek_word page (page_bytes (uint page) m) (word_of_int x + 12 + of_nat (4 * length ts)) = 0"
proof -
  let ?n = "int (length ts)"
  have sz: "4 * ?n + 16 \<le> stack_size ts"
    using strings_size_nonneg [of ts] by (simp add: stack_size_def stack_pad_def)
  obtain m ps where m: "build_stack (uint page) ts m0 = Some (x, m)" "length ps = length ts"
    "lies_at m x (le32 0)" "lies_at m (x + 4) (le32 (of_nat (length ts)))" "lies_at m (x + 8) (le32 (word_of_int (x + 12)))"
    "\<forall>i<length ts. lies_at m (x + 12 + 4 * int i) (le32 (word_of_int (ps ! i))) \<and> lies_at m (ps ! i) (ts ! i @ [0]) \<and>
       x \<le> ps ! i \<and> ps ! i + int (length (ts ! i)) < uint page + 4096"
    "lies_at m (x + 12 + 4 * ?n) (le32 0)"
    using build_stack_spec [OF pm ts(1), of m0] unfolding x_def by blast
  let ?bytes = "page_bytes (uint page) m" and ?esp = "word_of_int x :: u32"
  have lo: "uint page \<le> x" using ts(1) by (simp add: x_def)
  have hi: "x + 16 + 4 * ?n \<le> uint page + 4096" using sz by (simp add: x_def)
  have esp: "?esp + 4 = word_of_int (x + 4)" "?esp + 8 = word_of_int (x + 8)" "?esp + 12 + of_nat (4 * i) = word_of_int (x + 12 + 4 * int i)" for i
    by simp_all
  have w0: "peek_word page ?bytes ?esp = 0" using peek_word_lies_at [OF m(3) lo] hi by simp
  have w4: "peek_word page ?bytes (?esp + 4) = of_nat (length ts)"
    unfolding esp by (rule peek_word_lies_at [OF m(4)]) (use lo hi in simp_all)
  have w8: "peek_word page ?bytes (?esp + 8) = ?esp + 12"
    unfolding esp(2) by (rule trans [OF peek_word_lies_at [OF m(5)]]) (use lo hi in simp_all)
  have wn: "peek_word page ?bytes (?esp + 12 + of_nat (4 * length ts)) = 0"
    unfolding esp by (rule peek_word_lies_at [OF m(7)]) (use lo hi in simp_all)
  have arg: "peek_string page ?bytes (peek_word page ?bytes (?esp + 12 + of_nat (4 * i))) = ts ! i" if i: "i < length ts" for i
  proof -
    have mi: "lies_at m (x + 12 + 4 * int i) (le32 (word_of_int (ps ! i)))" "lies_at m (ps ! i) (ts ! i @ [0])"
      "x \<le> ps ! i" "ps ! i + int (length (ts ! i)) < uint page + 4096" using m(6) i by simp_all
    have "peek_word page ?bytes (?esp + 12 + of_nat (4 * i)) = word_of_int (ps ! i)"
      unfolding esp by (rule peek_word_lies_at [OF mi(1)]) (use lo hi i in simp_all)
    moreover have "0 \<notin> set (ts ! i)" using ts(2) i by simp
    ultimately show ?thesis using peek_string_lies_at [OF mi(2) _ mi(4), of] lo mi(3) by simp
  qed
  have "length ts < 4294967296" using hi lo by simp
  then have "unat (of_nat (length ts) :: u32) = length ts" by (rule unat_of_nat_u32)
  then have args: "main_args page ?bytes ?esp = ts"
    unfolding main_args_def Let_def w4 w8 by (intro nth_equalityI) (simp_all only: length_map length_upt nth_map nth_upt arg add_0 diff_zero)
  have "stack_size ts mod 4 = 0"
  proof -
    have "(strings_size ts + stack_pad ts) mod 4 = 0" by (simp add: stack_pad_def mod_add_right_eq)
    then have "(strings_size ts + stack_pad ts + (?n + 4) * 4) mod 4 = 0" by (simp only: mod_mult_self1)
    then show ?thesis by (simp add: stack_size_def algebra_simps)
  qed
  then obtain q where q: "stack_size ts = 4 * q" by auto
  obtain k where "uint page = 4096 * k" using pm by auto
  then have x4: "x = 4 * (1024 * k + 1024 - q)" by (simp add: x_def q)
  have "unat ?esp = nat x"
  proof -
    have "0 \<le> x" using lo order_trans [OF uint_ge_0] by blast
    moreover have "x < 2 ^ 32" using hi up by simp
    ultimately show ?thesis by (simp add: unat_eq_nat_uint uint_word_of_int)
  qed
  moreover have "nat x = 4 * nat (1024 * k + 1024 - q)" unfolding x4 by (subst nat_mult_distrib) simp_all
  ultimately have al: "unat ?esp mod 4 = 0" by (simp only: mod_mult_self1_is_0)
  show ?thesis by (intro exI [of _ m] conjI m(1) al w0 w4 args wn)
qed

text \<open>On a page of zeros, as the kernel without virtual memory maps it below the base of kernel memory.\<close>

lemma setup_stack_spec:
  assumes base: "base_ok env" and mem: "0 < free_pages s" "\<And>s a. set_page_ok env s a"
    and new: "upages s (load_base env - 4096) = None"
    and ts: "stack_size ts \<le> 4096" "\<And>t. t \<in> set ts \<Longrightarrow> 0 \<notin> set t"
  defines "page \<equiv> load_base env - 4096"
  shows "\<exists>esp bytes s'. setup_stack env ts s = Some (True, esp, s') \<and> upages s' = (upages s)(page \<mapsto> (bytes, True)) \<and>
    length bytes = 4096 \<and> unat esp mod 4 = 0 \<and> peek_word page bytes esp = 0 \<and>
    peek_word page bytes (esp + 4) = of_nat (length ts) \<and> main_args page bytes esp = ts \<and>
    peek_word page bytes (esp + 12 + of_nat (4 * length ts)) = 0"
proof -
  have b: "unat (load_base env) mod 4096 = 0" "8192 \<le> unat (load_base env)" using base by (simp_all add: base_ok_def)
  have up: "uint page = int (unat (load_base env)) - 4096"
  proof -
    have "unat page = unat (load_base env) - 4096" unfolding page_def by (subst unat_sub) (use b in \<open>simp_all add: word_le_nat_alt\<close>)
    then have "int (unat page) = int (unat (load_base env)) - 4096" using b(2) by (simp add: of_nat_diff)
    then show ?thesis unfolding uint_nat .
  qed
  have pm: "uint page mod 4096 = 0"
  proof -
    obtain k where "unat (load_base env) = 4096 * k" using b(1) by auto
    then have "uint page = 4096 * (int k - 1)" using up by simp
    then show ?thesis by simp
  qed
  have up': "uint page + 4096 < 2 ^ 32" using up uint_lt2p [of "load_base env"] by simp
  have ts': "\<forall>t\<in>set ts. 0 \<notin> set t" using ts(2) by blast
  define x where "x = uint page + 4096 - stack_size ts"
  obtain m where m: "build_stack (uint page) ts (\<lambda>_. 0) = Some (x, m)"
    "unat (word_of_int x :: u32) mod 4 = 0" "peek_word page (page_bytes (uint page) m) (word_of_int x) = 0"
    "peek_word page (page_bytes (uint page) m) (word_of_int x + 4) = of_nat (length ts)"
    "main_args page (page_bytes (uint page) m) (word_of_int x) = ts"
    "peek_word page (page_bytes (uint page) m) (word_of_int x + 12 + of_nat (4 * length ts)) = 0"
    using build_stack_args [OF pm up' ts(1) ts', of "\<lambda>_. 0", folded x_def] by (elim exE conjE) (rule that)
  have "setup_stack env ts s = Some (True, word_of_int x, s\<lparr>free_pages := free_pages s - 1,
      upages := (upages s)(page \<mapsto> (page_bytes (uint page) m, True))\<rparr>)"
    using mem new m(1) by (simp add: setup_stack_def install_page_def page_def [symmetric] Let_def)
  then show ?thesis using m(2-6) by (intro exI conjI) (assumption | simp add: page_bytes_def)+
qed

section \<open>Loading\<close>

text \<open>
  C22 (safety): an accepted segment is loaded without failing an assertion, into pages of user
  memory only, never the first page and never the kernel's. The pages get the bytes of the file from the
  page of the segment's offset on, padded with zeros, and its permission; no other page changes. If the file has
  the bytes and there is memory for the pages, loading succeeds; if it does not succeed, only
  pages of the segment are left behind.
\<close>

theorem load_segment_correct:
  assumes files: "files_ok env content pos" "length (content file) < 2147483648" and base: "base_ok env"
    and v: "validate_segment env p file" and l: "segment_layout p = (fp, mp, r, z)"
  defines "n \<equiv> (unat r + unat z) div 4096" and "bs \<equiv> take (unat r) (drop (unat fp) (content file))"
  shows "\<exists>ok file' s' k. load_segment env (sint fp) mp r z w file s = Some (ok, file', s') \<and> content file' = content file \<and>
    k \<le> n \<and> (ok \<longrightarrow> k = n) \<and> segment_done env mp bs w k s s' \<and>
    (\<forall>i<n. unat (page_addr mp i) = unat mp + 4096 * i \<and> 4096 \<le> unat (page_addr mp i) \<and> unat (page_addr mp i) + 4096 \<le> unat (load_base env)) \<and>
    (length bs = unat r \<and> room_for env mp n s \<longrightarrow> ok)"
  unfolding n_def bs_def by (rule load_segment_spec [OF assms(1-5)])

text \<open>All pages lie in user memory, and none is the first page.\<close>

definition pages_ok :: "'f load_env \<Rightarrow> uspace \<Rightarrow> bool" where
  "pages_ok env s \<longleftrightarrow> (\<forall>a\<in>dom (upages s). unat a mod 4096 = 0 \<and> 4096 \<le> unat a \<and> unat a + 4096 \<le> unat (load_base env))"

lemma pages_ok_empty: "upages s = Map.empty \<Longrightarrow> pages_ok env s"
  by (simp add: pages_ok_def)

lemma pages_ok_segment:
  assumes "pages_ok env s" "segment_done env mp bs w k s s'" "k \<le> n" "unat mp mod 4096 = 0"
    and pg: "\<forall>i<n. unat (page_addr mp i) = unat mp + 4096 * i \<and> 4096 \<le> unat (page_addr mp i) \<and> unat (page_addr mp i) + 4096 \<le> unat (load_base env)"
  shows "pages_ok env s'"
  unfolding pages_ok_def
proof
  fix a assume a: "a \<in> dom (upages s')"
  show "unat a mod 4096 = 0 \<and> 4096 \<le> unat a \<and> unat a + 4096 \<le> unat (load_base env)"
  proof (cases "\<exists>i<k. a = page_addr mp i")
    case True
    then obtain i where k: "i < k" and a_eq: "a = page_addr mp i" by blast
    have i: "i < n" "a = page_addr mp i" using less_le_trans [OF k assms(3)] a_eq by simp_all
    have "unat (page_addr mp i) = unat mp + 4096 * i" "4096 \<le> unat (page_addr mp i)" "unat (page_addr mp i) + 4096 \<le> unat (load_base env)"
      using pg i(1) by blast+
    moreover have "(unat mp + 4096 * i) mod 4096 = 0" using assms(4) by simp
    ultimately show ?thesis unfolding i(2) by simp
  next
    case False
    then have "upages s' a = upages s a" using assms(2) by (auto simp: segment_done_def)
    then have "a \<in> dom (upages s)" using a by (simp add: dom_def)
    then show ?thesis by (rule bspec [OF assms(1) [unfolded pages_ok_def]])
  qed
qed

lemma load_phdrs_spec:
  assumes files: "files_ok env content pos" and base: "base_ok env"
  shows "length (content file) < 2147483616 \<Longrightarrow> pages_ok env s \<Longrightarrow>
    \<exists>ok file' s'. load_phdrs env n ofs file s = Some (ok, file', s') \<and> pages_ok env s'"
proof (induction n arbitrary: ofs "file" s)
  case (Suc n)
  let ?f = "f_seek env ofs file"
  show ?case
  proof (cases "ofs < 0 \<or> f_length env file < ofs")
    case False
    obtain f1 where f1: "f_read env 32 ?f = (take 32 (drop (pos ?f) (content ?f)), f1)" "content f1 = content ?f"
      using files_okD(4) [OF files] by blast
    have len: "f_length env file = int (length (content file))" by (rule files_okD(1) [OF files])
    have c1: "content f1 = content file" using f1(2) files_okD(2) [OF files] False by simp
    show ?thesis
    proof (cases "length (take 32 (drop (pos ?f) (content ?f))) = 32")
      case rd: True
      define p where "p = decode_phdr (take 32 (drop (pos ?f) (content ?f)))"
      have o: "c_int (ofs + 32) = Some (ofs + 32)" using False Suc.prems(1) len by simp
      note l = load_phdrs.simps(2) [of env n ofs "file" s]
      have e: "load_phdrs env (Suc n) ofs file s =
        (if p_type p \<in> {PT_DYNAMIC, PT_INTERP, PT_SHLIB} then Some (False, f1, s)
         else if p_type p = PT_LOAD then
           (if validate_segment env p f1 then do {
              let (file_page, mem_page, read_bytes, zero_bytes) = segment_layout p;
              (ok, file2, s2) \<leftarrow> load_segment env (sint file_page) mem_page read_bytes zero_bytes (p_flags p AND PF_WRITE \<noteq> 0) f1 s;
              if \<not> ok then Some (False, file2, s2) else load_phdrs env n (ofs + 32) file2 s2
            } else Some (False, f1, s))
         else load_phdrs env n (ofs + 32) f1 s)"
        unfolding l if_not_P [OF False] f1(1) Let_def prod.case rd o bind.bind_lunit p_def by simp
      show ?thesis
      proof (cases "p_type p = PT_LOAD \<and> validate_segment env p f1")
        case True
        obtain fp mp r z where sl: "segment_layout p = (fp, mp, r, z)" by (metis prod_cases4)
        have lc: "length (content f1) < 2147483648" using Suc.prems(1) c1 by simp
        obtain ok f2 s2 k where seg: "load_segment env (sint fp) mp r z (p_flags p AND PF_WRITE \<noteq> 0) f1 s = Some (ok, f2, s2)"
          "content f2 = content f1" "k \<le> (unat r + unat z) div 4096"
          "segment_done env mp (take (unat r) (drop (unat fp) (content f1))) (p_flags p AND PF_WRITE \<noteq> 0) k s s2"
          "\<forall>i<(unat r + unat z) div 4096. unat (page_addr mp i) = unat mp + 4096 * i \<and> 4096 \<le> unat (page_addr mp i) \<and> unat (page_addr mp i) + 4096 \<le> unat (load_base env)"
          using load_segment_spec [OF files lc base conjunct2 [OF True] sl] by blast
        have "unat mp mod 4096 = 0" by (rule segment_layout_bounds(2) [OF base conjunct2 [OF True] sl])
        from pages_ok_segment [OF Suc.prems(2) seg(4,3) this seg(5)] have pk: "pages_ok env s2" .
        have "load_phdrs env (Suc n) ofs file s = (if \<not> ok then Some (False, f2, s2) else load_phdrs env n (ofs + 32) f2 s2)"
          unfolding e using True by (simp add: sl seg(1))
        moreover have "length (content f2) < 2147483616" using seg(2) c1 Suc.prems(1) by simp
        ultimately show ?thesis using Suc.IH [OF _ pk] pk by (cases ok) (auto simp del: load_phdrs.simps)
      next
        case no: False
        have "length (content f1) < 2147483616" using c1 Suc.prems(1) by simp
        from Suc.IH [OF this Suc.prems(2)] show ?thesis unfolding e using no Suc.prems(2) by auto
      qed
    next
      case rd: False
      have "load_phdrs env (Suc n) ofs file s = Some (False, f1, s)"
        unfolding load_phdrs.simps(2) if_not_P [OF False] f1(1) Let_def prod.case
        by (simp only: rd not_False_eq_True if_True)
      then show ?thesis using Suc.prems(2) by blast
    qed
  qed (use Suc.prems(2) in \<open>simp add: ex_bool_eq\<close>)
qed (simp add: ex_bool_eq)

lemma base_page:
  assumes "base_ok env"
  shows "unat (load_base env - 4096) mod 4096 = 0" "4096 \<le> unat (load_base env - 4096)"
    "unat (load_base env - 4096) + 4096 \<le> unat (load_base env)"
proof -
  have b: "unat (load_base env) mod 4096 = 0" "8192 \<le> unat (load_base env)" using assms by (simp_all add: base_ok_def)
  then have "unat (load_base env - 4096) = unat (load_base env) - 4096" by (intro unat_sub [THEN trans]) (simp_all add: word_le_nat_alt)
  then show "unat (load_base env - 4096) mod 4096 = 0" "4096 \<le> unat (load_base env - 4096)"
    "unat (load_base env - 4096) + 4096 \<le> unat (load_base env)" using b by (auto simp: mod_0_imp_dvd dvd_diff_nat)
qed

lemma setup_stack_returns:
  assumes base: "base_ok env" and ok: "pages_ok env s" and ts: "stack_size ts \<le> 4096" "\<And>t. t \<in> set ts \<Longrightarrow> 0 \<notin> set t"
  defines "page \<equiv> load_base env - 4096"
  shows "\<exists>ok esp s'. setup_stack env ts s = Some (ok, esp, s') \<and> pages_ok env s' \<and>
    (ok \<longrightarrow> (\<exists>bytes. upages s' page = Some (bytes, True) \<and> length bytes = 4096 \<and> main_args page bytes esp = ts))"
proof (cases "free_pages s = 0 \<or> upages s page \<noteq> None \<or> \<not> set_page_ok env (s\<lparr>free_pages := free_pages s - 1\<rparr>) page")
  case True
  then have "\<exists>s'. setup_stack env ts s = Some (False, 0, s') \<and> upages s' = upages s"
    by (auto simp: setup_stack_def install_page_def page_def [symmetric] Let_def)
  then show ?thesis using ok by (auto simp: pages_ok_def)
next
  case False
  let ?env = "env\<lparr>set_page_ok := (\<lambda>_ _. True)\<rparr>"
  have r: "setup_stack env ts s = setup_stack ?env ts s"
    using False by (simp add: setup_stack_def install_page_def page_def Let_def)
  have pg: "load_base ?env - 4096 = page" by (simp add: page_def)
  have pre: "base_ok ?env" "0 < free_pages s" "upages s page = None" using base False by (simp_all add: base_ok_def)
  obtain esp bytes s' where e: "setup_stack ?env ts s = Some (True, esp, s')" "upages s' = (upages s)(page \<mapsto> (bytes, True))"
    "length bytes = 4096" "main_args page bytes esp = ts"
    using setup_stack_spec [OF pre(1,2), where ts = ts, unfolded pg, OF _ pre(3) ts] by auto
  have "pages_ok env s'"
    using ok base_page [OF base] unfolding pages_ok_def e(2) page_def [symmetric] dom_fun_upd by simp
  then show ?thesis using e unfolding r by auto
qed

lemma strtok_all_subset: "t \<in> set (strtok_all cs) \<Longrightarrow> set t \<subseteq> set cs"
proof (induction cs arbitrary: t rule: strtok_all.induct)
  case (1 cs)
  show ?case
  proof (cases "dropWhile (\<lambda>c. c = 0x20) cs")
    case Nil
    then have "strtok_all cs = []" by (subst strtok_all.simps) (simp only: list.case)
    then show ?thesis using 1(2) by simp
  next
    case (Cons c cs')
    have sub: "set (c # cs') \<subseteq> set cs" unfolding Cons [symmetric] by (auto dest: set_dropWhileD)
    have "t = c # takeWhile (\<lambda>c. c \<noteq> 0x20) cs' \<or> t \<in> set (strtok_all (dropWhile (\<lambda>c. c \<noteq> 0x20) cs'))"
      using 1(2) Cons by (subst (asm) strtok_all.simps) simp
    then show ?thesis
    proof
      assume "t = c # takeWhile (\<lambda>c. c \<noteq> 0x20) cs'"
      then show ?thesis using sub by (auto dest: set_takeWhileD)
    next
      assume "t \<in> set (strtok_all (dropWhile (\<lambda>c. c \<noteq> 0x20) cs'))"
      then have "set t \<subseteq> set (dropWhile (\<lambda>c. c \<noteq> 0x20) cs')" using 1(1) [OF Cons] by blast
      then show ?thesis using sub by (auto dest: set_dropWhileD)
    qed
  qed
qed

text \<open>
  C23 (safety): no executable file harms the kernel. Whatever bytes the file has, if the arguments fit into the stack
  page then \<open>load\<close> returns: no assertion fails and nothing outside a mapped page is accessed. All pages it maps lie in user
  memory, above the first page; and when it reports success, the new program finds the words of the
  command line as its arguments.
\<close>

theorem load_any_file:
  assumes files: "files_ok env content pos" "\<And>n f. f_open env n = Some f \<Longrightarrow> length (content f) < 2147483616"
    and env: "base_ok env" "tokens_malloc env" "pagedir_ok env"
    and name: "0 \<notin> set file_name" "stack_size (load_tokens file_name) \<le> 4096"
  shows "\<exists>r s'. load env file_name s = Some (r, s') \<and> pages_ok env s' \<and>
    (\<forall>entry esp. r = Some (entry, esp) \<longrightarrow> (\<exists>bytes. upages s' (load_base env - 4096) = Some (bytes, True) \<and>
       main_args (load_base env - 4096) bytes esp = load_tokens file_name))"
proof -
  define nm where "nm = (case strtok_all file_name of [] \<Rightarrow> None | t # _ \<Rightarrow> Some t)"
  let ?s = "s\<lparr>upages := Map.empty\<rparr>"
  have p0: "pages_ok env ?s" by (rule pages_ok_empty) simp
  have ld: "load env file_name s = (case f_open env nm of None \<Rightarrow> Some (None, ?s) | Some file0 \<Rightarrow>
      let (bs, file1) = f_read env 52 (f_deny env file0); ehdr = decode_ehdr bs
      in if length bs \<noteq> 52 \<or> \<not> header_ok ehdr then Some (None, ?s)
         else do {
           (ok, file2, s2) \<leftarrow> load_phdrs env (unat (e_phnum ehdr)) (sint (e_phoff ehdr)) file1 ?s;
           if \<not> ok then Some (None, s2)
           else do {
             (ok', esp, s3) \<leftarrow> setup_stack env (load_tokens file_name) s2;
             Some (if ok' then Some (e_entry ehdr, esp) else None, s3)
           }
         })"
    using env(2,3) by (simp add: load_def nm_def Let_def)
  show ?thesis
  proof (cases "f_open env nm")
    case None
    then show ?thesis unfolding ld using p0 by simp
  next
    case (Some f0)
    obtain bs f1 where f1: "f_read env 52 (f_deny env f0) = (bs, f1)" "content f1 = content f0"
      using files_okD(4) [OF files(1), of 52 "f_deny env f0"] files_okD(5) [OF files(1)] by auto
    show ?thesis
    proof (cases "length bs \<noteq> 52 \<or> \<not> header_ok (decode_ehdr bs)")
      case True
      then show ?thesis unfolding ld using Some f1(1) p0 by (simp add: Let_def)
    next
      case False
      let ?h = "decode_ehdr bs"
      have "length (content f1) < 2147483616" using files(2) [OF Some] f1(2) by simp
      then obtain ok f2 s2 where ph: "load_phdrs env (unat (e_phnum ?h)) (sint (e_phoff ?h)) f1 ?s = Some (ok, f2, s2)" "pages_ok env s2"
        using load_phdrs_spec [OF files(1) env(1) _ p0] by blast
      have "0 \<notin> set t" if "t \<in> set (load_tokens file_name)" for t
        using strtok_all_subset [of t file_name] that name(1) by (auto simp: load_tokens_def dest: in_set_takeD)
      then obtain ok' esp s3 where st: "setup_stack env (load_tokens file_name) s2 = Some (ok', esp, s3)" "pages_ok env s3"
        "ok' \<longrightarrow> (\<exists>bytes. upages s3 (load_base env - 4096) = Some (bytes, True) \<and> length bytes = 4096 \<and>
           main_args (load_base env - 4096) bytes esp = load_tokens file_name)"
        using setup_stack_returns [OF env(1) ph(2) name(2)] by blast
      have "load env file_name s = (if \<not> ok then Some (None, s2) else Some (if ok' then Some (e_entry ?h, esp) else None, s3))"
        unfolding ld using Some f1(1) False ph(1) st(1) by (simp add: Let_def)
      then show ?thesis using ph(2) st(2,3) by (cases ok) auto
    qed
  qed
qed

section \<open>Arguments that do not fit\<close>

lemma push_strings_esp: "push_strings page ts esp m = Some (ps, e, m') \<Longrightarrow> e = esp - strings_size ts \<and> length ps = length ts"
  by (induction ts arbitrary: ps e m') (auto simp: bind_eq_Some_conv Let_def)

lemma push_words_esp: "push_words page ws esp m = Some (e, m') \<Longrightarrow> e = esp - 4 * int (length ws)"
  by (induction ws arbitrary: e m') (auto simp: bind_eq_Some_conv Let_def)

lemma build_stack_fits:
  assumes "build_stack page ts m = Some (e, m')"
  shows "stack_size ts \<le> 4096 \<or> page mod 4096 \<noteq> 0"
proof (cases "page mod 4096 = 0")
  case True
  obtain ps e1 m1 m3 m4 m6 where p: "push_strings page ts (page + int PGSIZE) m = Some (ps, e1, m1)"
    "push_words page ps (e1 - (4 + e1 mod 4)) m3 = Some (e + 12, m4)" "ustore page e (replicate 4 0) m6 = Some m'"
    using assms by (auto simp: build_stack_def Let_def bind_eq_Some_conv algebra_simps)
  have "page \<le> e" using p(3) by (auto simp: ustore_def split: if_splits)
  moreover have "e + 12 = e1 - (4 + e1 mod 4) - 4 * int (length ts)" using push_words_esp [OF p(2)] push_strings_esp [OF p(1)] by simp
  moreover have e1: "e1 = page + 4096 - strings_size ts" using push_strings_esp [OF p(1)] by simp
  moreover have "e1 mod 4 = stack_pad ts"
  proof -
    obtain k where k: "page = 4096 * k" using True by auto
    have "e1 = - strings_size ts + (1024 * k + 1024) * 4" by (simp add: k e1)
    then show ?thesis unfolding stack_pad_def by (simp only: mod_mult_self1)
  qed
  ultimately show ?thesis by (simp add: stack_size_def)
qed simp

text \<open>
  The size of the arguments is not checked. A command line whose words, with their addresses, take more
  than a page makes the kernel store below the stack page, which is not mapped.
\<close>

theorem long_command_line_faults:
  assumes "base_ok env" "0 < free_pages s" "upages s (load_base env - 4096) = None" "\<And>s a. set_page_ok env s a"
    and "4096 < stack_size (load_tokens file_name)"
  shows "setup_stack env (load_tokens file_name) s = None"
proof -
  obtain k where "unat (load_base env - 4096) = 4096 * k" using base_page(1) [OF assms(1)] by auto
  then have "uint (load_base env - 4096) = 4096 * int k" unfolding uint_nat by (simp only: of_nat_mult of_nat_numeral)
  then have "build_stack (uint (load_base env - 4096)) (load_tokens file_name) m = None" for m
    using build_stack_fits [of "uint (load_base env - 4096)" "load_tokens file_name" m] assms(5)
    by (cases "build_stack (uint (load_base env - 4096)) (load_tokens file_name) m") auto
  then show ?thesis using assms(2-4) by (simp add: setup_stack_def install_page_def Let_def)
qed

section \<open>An instance\<close>

text \<open>
  Files in memory with their position. \<open>demo_elf\<close> is an executable of 100 bytes with one segment of two pages
  at \<open>0x08048000\<close>.
\<close>

definition demo_elf :: "byte list" where
  "demo_elf = [0x7f, 0x45, 0x4c, 0x46, 1, 1, 1] @ replicate 9 0 @ le16 2 @ le16 3 @ le32 1 @ le32 0x08048054 @ le32 52 @ le32 0 @ le32 0 @
     le16 52 @ le16 32 @ le16 1 @ le16 0 @ le16 0 @ le16 0 @
     le32 1 @ le32 0 @ le32 0x08048000 @ le32 0 @ le32 100 @ le32 5000 @ le32 6 @ le32 4096 @ replicate 16 7"

definition demo_load :: "(byte list \<times> nat) load_env" where
  "demo_load = \<lparr>load_base = 0xc0000000, tokens_malloc = True, pagedir_ok = True, set_page_ok = (\<lambda>_ _. True),
     f_open = (\<lambda>n. if n = Some [0x61] then Some (demo_elf, 0) else None), f_deny = (\<lambda>f. f), f_seek = (\<lambda>n (bs, p). (bs, nat n)),
     f_read = (\<lambda>n (bs, p). (take n (drop p bs), (bs, p + length (take n (drop p bs))))), f_length = (\<lambda>(bs, p). int (length bs))\<rparr>"

definition demo_space :: uspace where
  "demo_space = \<lparr>upages = Map.empty, free_pages = 100\<rparr>"

lemma demo_load_ok: "files_ok demo_load fst snd" "base_ok demo_load"
  by (auto simp: files_ok_def base_ok_def demo_load_def)

lemma length_demo_elf: "length demo_elf = 100"
  by (simp add: demo_elf_def)

definition demo_phdr :: elf_phdr where
  "demo_phdr = \<lparr>p_type = 1, p_offset = 0, p_vaddr = 0x08048000, p_paddr = 0, p_filesz = 100, p_memsz = 5000, p_flags = 6, p_align = 4096\<rparr>"

theorem load_segment_correct_witness:
  "\<exists>file' s'. load_segment demo_load 0 0x08048000 100 8092 True (demo_elf, 0) demo_space = Some (True, file', s') \<and>
     upages s' 0x08048000 = Some (demo_elf @ replicate 3996 0, True) \<and> upages s' 0x08049000 = Some (replicate 4096 0, True)"
proof -
  have v: "validate_segment demo_load demo_phdr (demo_elf, 0)"
    by (simp add: validate_segment_def demo_phdr_def demo_load_def user_addr_def length_demo_elf)
  have l: "segment_layout demo_phdr = (0, 0x08048000, 100, 8092)" by (simp add: segment_layout_def demo_phdr_def)
  have n: "(unat (100 :: u32) + unat (8092 :: u32)) div 4096 = 2" "(2 :: nat) = Suc (Suc 0)" by simp_all
  have bs: "take (unat (100 :: u32)) (drop (unat (0 :: u32)) (fst (demo_elf, 0 :: nat))) = demo_elf" by (simp add: length_demo_elf)
  have z: "sint (0 :: u32) = 0" by simp
  have f: "length (fst (demo_elf, 0 :: nat)) < 2147483648" by (simp add: length_demo_elf)
  obtain ok file' s' k where s: "load_segment demo_load 0 0x08048000 100 8092 True (demo_elf, 0) demo_space = Some (ok, file', s')"
    "k \<le> 2" "ok \<longrightarrow> k = 2" "segment_done demo_load 0x08048000 demo_elf True k demo_space s'"
    "length demo_elf = unat (100 :: u32) \<and> room_for demo_load 0x08048000 2 demo_space \<longrightarrow> ok"
    using load_segment_correct [OF demo_load_ok(1) f demo_load_ok(2) v l, of True demo_space] unfolding n(1) bs z by blast
  have "room_for demo_load 0x08048000 2 demo_space" by (simp add: room_for_def demo_load_def demo_space_def)
  then have ok: "ok" "k = 2" using s(3,5) by (simp_all add: length_demo_elf)
  have d: "upages s' (page_addr 0x08048000 i) = Some (seg_page demo_elf i, True)" if "i < 2" for i
    using s(4) that unfolding ok(2) segment_done_def by blast
  have "seg_page demo_elf 0 = demo_elf @ replicate 3996 0" "seg_page demo_elf 1 = replicate 4096 0"
    by (simp_all add: seg_page_def length_demo_elf)
  then show ?thesis using s(1) ok(1) d [of 0] d [of 1] by simp
qed

lemma demo_tokens: "load_tokens [0x61, 0x20, 0x20, 0x62] = [[0x61], [0x62]]"
proof -
  have "strtok_all [] = []" by (subst strtok_all.simps) simp
  then have "strtok_all [0x20, 0x20, 0x62] = [[0x62]]" by (subst strtok_all.simps) simp
  then have "strtok_all [0x61, 0x20, 0x20, 0x62] = [[0x61], [0x62]]" by (subst strtok_all.simps) simp
  then show ?thesis by (simp add: load_tokens_def)
qed

theorem load_any_file_witness:
  "\<exists>r s'. load demo_load [0x61, 0x20, 0x20, 0x62] demo_space = Some (r, s') \<and> pages_ok demo_load s'"
proof -
  have "length (fst f) < 2147483616" if "f_open demo_load n = Some f" for n f
    using that by (auto simp: demo_load_def length_demo_elf split: if_splits)
  moreover have "tokens_malloc demo_load" "pagedir_ok demo_load" by (simp_all add: demo_load_def)
  moreover have "stack_size (load_tokens [0x61, 0x20, 0x20, 0x62]) \<le> 4096" unfolding demo_tokens by (simp add: stack_size_def stack_pad_def)
  ultimately show ?thesis
    using load_any_file [OF demo_load_ok(1) _ demo_load_ok(2), of "[0x61, 0x20, 0x20, 0x62]" demo_space] by auto
qed

text \<open>820 words of one letter make a command line of 1640 characters, which fits into its own page.\<close>

lemma many_tokens: "strtok_all (concat (replicate n [0x61, 0x20])) = replicate n [0x61]"
proof (induction n)
  case 0
  show ?case by (subst strtok_all.simps) simp
next
  case (Suc n)
  have "strtok_all (0x20 # cs) = strtok_all cs" for cs by (subst (1 2) strtok_all.simps) simp
  then show ?case using Suc by (subst strtok_all.simps) simp
qed

theorem long_command_line_faults_witness:
  "setup_stack demo_load (load_tokens (concat (replicate 820 [0x61, 0x20]))) demo_space = None"
proof -
  have "strings_size (replicate n [x]) = 2 * int n" for n and x :: byte by (induction n) simp_all
  then have "4096 < stack_size (load_tokens (concat (replicate 820 [0x61, 0x20])))"
    by (simp add: load_tokens_def many_tokens stack_size_def stack_pad_def)
  then show ?thesis
    using long_command_line_faults [OF demo_load_ok(2), of demo_space] by (simp add: demo_space_def demo_load_def)
qed

end
