(* ===== verification/Process.thy ===== *)
theory Process
  imports Kernel_Prelude
begin

text \<open>
  Processes, \<open>user-programs/userprog/process.c\<close> up to \<open>process_activate\<close>, with the exit of a thread from
  \<open>user-programs/threads/thread.c\<close>: starting a process, waiting for it, its exit status and what
  its exit frees.

  A parent and its child share a page, \<open>struct child\<close>: \<open>childs\<close> has the pages that are allocated, by
  address, so that an access to a page that has been freed is \<open>None\<close>. \<open>struct leash\<close> lies on the stack of
  \<open>process_execute\<close>: \<open>leashes\<close> has one for every process that is inside of that call, and an access
  after it has returned is \<open>None\<close> too. \<open>uprocs\<close> are the threads that have not exited, by their identifiers.

  Calls are split where other processes can change what they share: \<open>process_execute\<close> before and after it waits for
  the report, \<open>start_process\<close> after its report. \<open>phase\<close> is how far a thread has come.
\<close>

section \<open>State\<close>

abbreviation TID_ERROR :: int where "TID_ERROR \<equiv> - 1"

record child =
  c_tid :: int
  c_status :: int
  terminated :: nat

text \<open>\<open>l_tid\<close> is the local variable \<open>tid\<close> of \<open>process_execute\<close>, which lies beside the leash.\<close>

record leash =
  success_set :: nat
  success :: bool
  l_file_name :: nat
  l_child :: nat
  l_tid :: int

datatype phase = Starting int | Reported int | Running

text \<open>\<open>children\<close> is \<open>None\<close> as long as \<open>children_init\<close> is not set; \<open>open_list\<close> are the files in \<open>files_open\<close>.\<close>

record uproc =
  children :: "nat list option"
  self :: "nat option"
  usr_thread :: bool
  open_list :: "nat list"
  executing :: "nat option"
  own_pagedir :: bool
  phase :: phase

record procs =
  uprocs :: "int \<rightharpoonup> uproc"
  childs :: "nat \<rightharpoonup> child"
  leashes :: "int \<rightharpoonup> leash"
  name_pages :: "nat set"
  files_closed :: "nat list"
  next_tid :: int

definition new_proc :: "int \<Rightarrow> uproc" where
  "new_proc parent = \<lparr>children = None, self = None, usr_thread = False, open_list = [], executing = None,
     own_pagedir = False, phase = Starting parent\<rparr>"

definition put_proc :: "int \<Rightarrow> uproc \<Rightarrow> procs \<Rightarrow> procs" where
  "put_proc t p s = s\<lparr>uprocs := (uprocs s)(t \<mapsto> p)\<rparr>"

definition put_leash :: "int \<Rightarrow> leash \<Rightarrow> procs \<Rightarrow> procs" where
  "put_leash t l s = s\<lparr>leashes := (leashes s)(t \<mapsto> l)\<rparr>"

definition set_child :: "nat \<Rightarrow> (child \<Rightarrow> child) \<Rightarrow> procs \<Rightarrow> procs option" where
  "set_child r f s = do {
     c \<leftarrow> childs s r;
     Some (s\<lparr>childs := (childs s)(r \<mapsto> f c)\<rparr>)
   }"

definition free_child :: "nat \<Rightarrow> procs \<Rightarrow> procs option" where
  "free_child r s = do {
     c \<leftarrow> childs s r;
     Some (s\<lparr>childs := (childs s)(r := None)\<rparr>)
   }"

section \<open>Starting a process\<close>

text \<open>
  \<open>process_execute\<close> up to \<open>sema_down\<close>. \<open>name\<close> and \<open>page\<close> are the two pages the allocator gives,
  \<open>junk\<close> what the \<open>tid\<close> of the second holds before it is set, \<open>created\<close> whether \<open>thread_create\<close> makes a thread. The
  result is \<open>Some TID_ERROR\<close> if the call returns without waiting.
\<close>

definition execute_begin :: "int \<Rightarrow> nat option \<Rightarrow> nat option \<Rightarrow> int \<Rightarrow> bool \<Rightarrow> procs \<Rightarrow> (int option \<times> procs) option" where
  "execute_begin cur name page junk created s =
     (case name of
        None \<Rightarrow> Some (Some TID_ERROR, s)
      | Some n \<Rightarrow> (let s = s\<lparr>name_pages := insert n (name_pages s)\<rparr> in
          (case page of
             None \<Rightarrow> Some (Some TID_ERROR, s)
           | Some r \<Rightarrow>
               (let s = s\<lparr>childs := (childs s)(r \<mapsto> \<lparr>c_tid = junk, c_status = - 1, terminated = 0\<rparr>)\<rparr>;
                    tid = (if created then next_tid s else TID_ERROR)
                in if tid \<noteq> TID_ERROR
                   then Some (None, put_leash cur \<lparr>success_set = 0, success = False, l_file_name = n, l_child = r, l_tid = tid\<rparr>
                                     (put_proc tid (new_proc cur) (s\<lparr>next_tid := next_tid s + 1\<rparr>)))
                   else do {
                     s \<leftarrow> free_child r s;
                     Some (Some tid, s)
                   }))))"

text \<open>
  \<open>start_process\<close> up to its report: \<open>loaded\<close> is the result of \<open>load\<close>, \<open>exe\<close> the file it keeps
  open and \<open>pd\<close> whether it made a page directory.
\<close>

definition start_report :: "int \<Rightarrow> bool \<Rightarrow> nat option \<Rightarrow> bool \<Rightarrow> procs \<Rightarrow> procs option" where
  "start_report tid loaded exe pd s = do {
     p \<leftarrow> uprocs s tid;
     (case phase p of
        Starting parent \<Rightarrow> do {
          l \<leftarrow> leashes s parent;
          let s1 = s\<lparr>name_pages := name_pages s - {l_file_name l}\<rparr>;
          let s2 = put_proc tid (p\<lparr>self := Some (l_child l), usr_thread := True, executing := exe, own_pagedir := pd,
                                   phase := Reported parent\<rparr>) s1;
          Some (put_leash parent (l\<lparr>success := loaded, success_set := success_set l + 1\<rparr>) s2)
        }
      | _ \<Rightarrow> None)
   }"

text \<open>\<open>process_execute\<close> after \<open>sema_down\<close>, which takes the report; then the call returns and its locals are gone.\<close>

definition execute_end :: "int \<Rightarrow> procs \<Rightarrow> (int \<times> procs) option" where
  "execute_end cur s = do {
     l \<leftarrow> leashes s cur;
     let tid = (if success l then l_tid l else TID_ERROR);
     s1 \<leftarrow> (if tid = TID_ERROR then free_child (l_child l) s
           else do {
             s1 \<leftarrow> set_child (l_child l) (\<lambda>c. c\<lparr>c_tid := tid\<rparr>) s;
             p \<leftarrow> uprocs s1 cur;
             let cs = (case children p of None \<Rightarrow> [] | Some cs \<Rightarrow> cs);
             Some (put_proc cur (p\<lparr>children := Some (cs @ [l_child l])\<rparr>) s1)
           });
     Some (tid, s1\<lparr>leashes := (leashes s1)(cur := None)\<rparr>)
   }"

section \<open>Waiting\<close>

text \<open>The search in the list of children; reading an entry that has been freed is \<open>None\<close>.\<close>

fun find_child :: "(nat \<rightharpoonup> child) \<Rightarrow> int \<Rightarrow> nat list \<Rightarrow> nat option option" where
  "find_child m t [] = Some None"
| "find_child m t (r # rs) = do {
     c \<leftarrow> m r;
     if c_tid c = t then Some (Some r) else find_child m t rs
   }"

datatype wait_result = Blocks | Result int procs

text \<open>\<open>Blocks\<close>: the semaphore of the child is zero, and the caller waits at \<open>sema_down\<close>.\<close>

definition process_wait :: "int \<Rightarrow> int \<Rightarrow> procs \<Rightarrow> wait_result option" where
  "process_wait cur child_tid s = do {
     p \<leftarrow> uprocs s cur;
     (case children p of
        None \<Rightarrow> Some (Result (- 1) s)
      | Some cs \<Rightarrow> do {
          q \<leftarrow> find_child (childs s) child_tid cs;
          (case q of
             None \<Rightarrow> Some (Result (- 1) s)
           | Some r \<Rightarrow> do {
               c \<leftarrow> childs s r;
               if terminated c = 0 then Some Blocks
               else do {
                 s1 \<leftarrow> set_child r (\<lambda>c. c\<lparr>terminated := terminated c - 1\<rparr>) s;
                 let s2 = put_proc cur (p\<lparr>children := Some (remove1 r cs)\<rparr>) s1;
                 s3 \<leftarrow> free_child r s2;
                 Some (Result (c_status c) s3)
               }
             })
        })
   }"

section \<open>Exit\<close>

fun free_children :: "nat list \<Rightarrow> procs \<Rightarrow> procs option" where
  "free_children [] s = Some s"
| "free_children (r # rs) s = Option.bind (free_child r s) (free_children rs)"

text \<open>\<open>process_exit\<close> first prints the status, so it reads the structure shared with the parent.\<close>

definition process_exit :: "int \<Rightarrow> procs \<Rightarrow> procs option" where
  "process_exit cur s = do {
     p \<leftarrow> uprocs s cur;
     r \<leftarrow> self p;
     c \<leftarrow> childs s r;
     s1 \<leftarrow> (case children p of None \<Rightarrow> Some s | Some cs \<Rightarrow> free_children cs s);
     Some (put_proc cur (p\<lparr>children := map_option (\<lambda>_. []) (children p), open_list := [], own_pagedir := False\<rparr>)
             (s1\<lparr>files_closed := files_closed s1 @ open_list p\<rparr>))
   }"

definition thread_exit :: "int \<Rightarrow> procs \<Rightarrow> procs option" where
  "thread_exit cur s = do {
     s1 \<leftarrow> process_exit cur s;
     p \<leftarrow> uprocs s1 cur;
     let s2 = s1\<lparr>files_closed := files_closed s1 @ (case executing p of None \<Rightarrow> [] | Some f \<Rightarrow> [f])\<rparr>;
     s3 \<leftarrow> (if usr_thread p then do {
              r \<leftarrow> self p;
              set_child r (\<lambda>c. c\<lparr>terminated := terminated c + 1\<rparr>) s2
            } else Some s2);
     Some (s3\<lparr>uprocs := (uprocs s3)(cur := None)\<rparr>)
   }"

text \<open>\<open>start_process\<close> after its report: it reads the leash again.\<close>

definition start_continue :: "int \<Rightarrow> procs \<Rightarrow> procs option" where
  "start_continue tid s = do {
     p \<leftarrow> uprocs s tid;
     (case phase p of
        Reported parent \<Rightarrow> do {
          l \<leftarrow> leashes s parent;
          if \<not> success l then thread_exit tid s
          else Some (put_proc tid (p\<lparr>open_list := [], phase := Running\<rparr>) s)
        }
      | _ \<Rightarrow> None)
   }"

definition sys_exit_process :: "int \<Rightarrow> int \<Rightarrow> procs \<Rightarrow> procs option" where
  "sys_exit_process cur status s = do {
     p \<leftarrow> uprocs s cur;
     r \<leftarrow> self p;
     s1 \<leftarrow> set_child r (\<lambda>c. c\<lparr>c_status := status\<rparr>) s;
     thread_exit cur s1
   }"

end
