(* ===== verification/Process_Props.thy ===== *)
theory Process_Props
  imports Process
begin

text \<open>
  What processes rely on: who may use the pages shared by parents and children, that no step of any process uses a
  freed one, that waiting gives each exit status once, and the two orders of events in which the kernel does use a freed page.
\<close>

section \<open>Events\<close>

text \<open>Any process may act when its last call is done; \<open>run_event\<close> is the whole effect of a step.\<close>

datatype event =
    Execute int "nat option" "nat option" int bool
  | Report int bool "nat option" bool
  | Continue int
  | Return int
  | Wait int int
  | Exit int int
  | Kill int

definition may_act :: "int \<Rightarrow> procs \<Rightarrow> bool" where
  "may_act cur s \<longleftrightarrow> (case uprocs s cur of None \<Rightarrow> False | Some p \<Rightarrow> phase p = Running) \<and> leashes s cur = None"

fun enabled :: "event \<Rightarrow> procs \<Rightarrow> bool" where
  "enabled (Execute cur name page junk created) s \<longleftrightarrow>
     may_act cur s \<and> (case page of None \<Rightarrow> True | Some r \<Rightarrow> childs s r = None)"
| "enabled (Report t loaded exe pd) s \<longleftrightarrow>
     (case uprocs s t of None \<Rightarrow> False | Some p \<Rightarrow> (case phase p of Starting _ \<Rightarrow> True | _ \<Rightarrow> False))"
| "enabled (Continue t) s \<longleftrightarrow>
     (case uprocs s t of None \<Rightarrow> False | Some p \<Rightarrow> (case phase p of Reported _ \<Rightarrow> True | _ \<Rightarrow> False))"
| "enabled (Return cur) s \<longleftrightarrow> (case leashes s cur of None \<Rightarrow> False | Some l \<Rightarrow> success_set l > 0)"
| "enabled (Wait cur t) s \<longleftrightarrow> may_act cur s"
| "enabled (Exit cur st) s \<longleftrightarrow> may_act cur s \<and> (case uprocs s cur of None \<Rightarrow> False | Some p \<Rightarrow> usr_thread p)"
| "enabled (Kill cur) s \<longleftrightarrow> may_act cur s \<and> (case uprocs s cur of None \<Rightarrow> False | Some p \<Rightarrow> usr_thread p)"

fun run_event :: "event \<Rightarrow> procs \<Rightarrow> procs option" where
  "run_event (Execute cur name page junk created) s = map_option snd (execute_begin cur name page junk created s)"
| "run_event (Report t loaded exe pd) s = start_report t loaded exe pd s"
| "run_event (Continue t) s = start_continue t s"
| "run_event (Return cur) s = map_option snd (execute_end cur s)"
| "run_event (Wait cur t) s = map_option (\<lambda>r. case r of Blocks \<Rightarrow> s | Result _ s' \<Rightarrow> s') (process_wait cur t s)"
| "run_event (Exit cur st) s = sys_exit_process cur st s"
| "run_event (Kill cur) s = thread_exit cur s"

section \<open>Who uses a page\<close>

text \<open>\<open>owns s a r t\<close>: process \<open>a\<close> has the page \<open>r\<close> for its child \<open>t\<close>, in its list or in the leash of a call that has not returned.\<close>

definition owns :: "procs \<Rightarrow> int \<Rightarrow> nat \<Rightarrow> int \<Rightarrow> bool" where
  "owns s a r t \<longleftrightarrow>
     (\<exists>p cs c. uprocs s a = Some p \<and> children p = Some cs \<and> r \<in> set cs \<and> childs s r = Some c \<and> c_tid c = t) \<or>
     (\<exists>l. leashes s a = Some l \<and> l_child l = r \<and> l_tid l = t)"

text \<open>\<open>uses s t r\<close>: thread \<open>t\<close> has the page \<open>r\<close> as its own status, or will have it when it reports.\<close>

definition uses :: "procs \<Rightarrow> int \<Rightarrow> nat \<Rightarrow> bool" where
  "uses s t r \<longleftrightarrow> (\<exists>p. uprocs s t = Some p \<and>
     (self p = Some r \<or> (\<exists>a l. phase p = Starting a \<and> leashes s a = Some l \<and> l_child l = r)))"

definition proc_ok :: "procs \<Rightarrow> int \<Rightarrow> uproc \<Rightarrow> bool" where
  "proc_ok s t p \<longleftrightarrow> t < next_tid s \<and> usr_thread p = (self p \<noteq> None) \<and>
     (case children p of None \<Rightarrow> True | Some cs \<Rightarrow> distinct cs \<and> (\<forall>r\<in>set cs. childs s r \<noteq> None)) \<and>
     (case phase p of
        Starting a \<Rightarrow> self p = None \<and> children p = None \<and> leashes s t = None \<and>
          (\<exists>l. leashes s a = Some l \<and> success_set l = 0 \<and> l_tid l = t)
      | Reported a \<Rightarrow> children p = None \<and> leashes s t = None \<and>
          (\<exists>l. leashes s a = Some l \<and> success_set l = 1 \<and> l_tid l = t \<and> self p = Some (l_child l))
      | Running \<Rightarrow> True)"

definition leash_ok :: "procs \<Rightarrow> int \<Rightarrow> leash \<Rightarrow> bool" where
  "leash_ok s a l \<longleftrightarrow> (\<exists>p. uprocs s a = Some p \<and> phase p = Running \<and> l_child l \<notin> set (case children p of None \<Rightarrow> [] | Some cs \<Rightarrow> cs)) \<and>
     childs s (l_child l) \<noteq> None \<and>
     (success_set l = 0 \<longrightarrow> (\<exists>p. uprocs s (l_tid l) = Some p \<and> phase p = Starting a)) \<and>
     (success_set l = 1 \<and> \<not> success l \<longrightarrow>
        (case uprocs s (l_tid l) of None \<Rightarrow> True | Some p \<Rightarrow> phase p = Reported a)) \<and> success_set l \<le> 1"

definition procs_wf :: "procs \<Rightarrow> bool" where
  "procs_wf s \<longleftrightarrow> 0 < next_tid s \<and>
     (\<forall>t p. uprocs s t = Some p \<longrightarrow> proc_ok s t p) \<and>
     (\<forall>a l. leashes s a = Some l \<longrightarrow> leash_ok s a l) \<and>
     (\<forall>a r t. owns s a r t \<longrightarrow> 0 < t \<and> t < next_tid s \<and> a < t) \<and>
     (\<forall>a r t a' r' t'. owns s a r t \<and> owns s a' r' t' \<and> (r = r' \<or> t = t') \<longrightarrow> a = a' \<and> r = r' \<and> t = t') \<and>
     (\<forall>t r. uses s t r \<longrightarrow> (\<exists>a c. owns s a r t \<and> childs s r = Some c \<and> terminated c = 0))"

text \<open>
  The kernel is safe in the orders in which no call of \<open>process_execute\<close> returns while the new thread is between its report
  and its first instruction, and no process exits while a child of it runs.
\<close>

fun orderly :: "event \<Rightarrow> procs \<Rightarrow> bool" where
  "orderly (Return cur) s \<longleftrightarrow> (\<forall>t p. uprocs s t = Some p \<longrightarrow> phase p \<noteq> Reported cur)"
| "orderly (Exit cur st) s \<longleftrightarrow> (\<forall>r t. owns s cur r t \<longrightarrow> uprocs s t = None)"
| "orderly (Kill cur) s \<longleftrightarrow> (\<forall>r t. owns s cur r t \<longrightarrow> uprocs s t = None)"
| "orderly e s \<longleftrightarrow> True"

section \<open>Lemmas on well-formed states\<close>

lemma procs_wfD:
  assumes "procs_wf s"
  shows "0 < next_tid s"
    "\<And>t p. uprocs s t = Some p \<Longrightarrow> proc_ok s t p"
    "\<And>a l. leashes s a = Some l \<Longrightarrow> leash_ok s a l"
    "\<And>a r t. owns s a r t \<Longrightarrow> 0 < t \<and> t < next_tid s \<and> a < t"
    "\<And>a r t a' t'. owns s a r t \<Longrightarrow> owns s a' r t' \<Longrightarrow> a = a' \<and> t = t'"
    "\<And>a r t a' r'. owns s a r t \<Longrightarrow> owns s a' r' t \<Longrightarrow> a = a' \<and> r = r'"
    "\<And>t r. uses s t r \<Longrightarrow> \<exists>a c. owns s a r t \<and> childs s r = Some c \<and> terminated c = 0"
proof -
  note H = assms[unfolded procs_wf_def]
  note u = conjunct1 [OF conjunct2, OF conjunct2, OF conjunct2, OF conjunct2, OF H]
  show "0 < next_tid s" using H by (elim conjE)
  show "\<And>t p. uprocs s t = Some p \<Longrightarrow> proc_ok s t p" 
    using conjunct1 [OF conjunct2, OF H] by simp
  show "\<And>a l. leashes s a = Some l \<Longrightarrow> leash_ok s a l"
    using conjunct1 [OF conjunct2, OF conjunct2, OF H] by simp
  show "\<And>a r t. owns s a r t \<Longrightarrow> 0 < t \<and> t < next_tid s \<and> a < t"
    using conjunct1 [OF conjunct2, OF conjunct2, OF conjunct2, OF H] by blast
  show "\<And>a r t a' t'. owns s a r t \<Longrightarrow> owns s a' r t' \<Longrightarrow> a = a' \<and> t = t'" using u by blast
  show "\<And>a r t a' r'. owns s a r t \<Longrightarrow> owns s a' r' t \<Longrightarrow> a = a' \<and> r = r'" using u by blast
  show "\<And>t r. uses s t r \<Longrightarrow> \<exists>a c. owns s a r t \<and> childs s r = Some c \<and> terminated c = 0"
    using conjunct2 [OF conjunct2, OF conjunct2, OF conjunct2, OF conjunct2, OF H] by blast
qed

lemma procs_wf_narrow:
  assumes "procs_wf s" "next_tid s' = next_tid s"
    and "\<And>t p. uprocs s' t = Some p \<Longrightarrow> proc_ok s' t p"
    and "\<And>a l. leashes s' a = Some l \<Longrightarrow> leash_ok s' a l"
    and "\<And>a r t. owns s' a r t \<Longrightarrow> owns s a r t"
    and "\<And>t r. uses s' t r \<Longrightarrow> \<exists>a c. owns s' a r t \<and> childs s' r = Some c \<and> terminated c = 0"
  shows "procs_wf s'"
  unfolding procs_wf_def
proof (intro conjI allI impI)
  note D = procs_wfD[OF assms(1)]
  show "0 < next_tid s'" using D(1) assms(2) by simp
  show "proc_ok s' t p" if "uprocs s' t = Some p" for t p using assms(3) that .
  show "leash_ok s' a l" if "leashes s' a = Some l" for a l using assms(4) that .
  show "0 < t" "t < next_tid s'" "a < t" if "owns s' a r t" for a r t using D(4)[OF assms(5)[OF that]] assms(2) by auto
  show "\<exists>a c. owns s' a r t \<and> childs s' r = Some c \<and> terminated c = 0" if "uses s' t r" for t r using assms(6) that .
  fix a r t a' r' t' assume H: "owns s' a r t \<and> owns s' a' r' t' \<and> (r = r' \<or> t = t')"
  then have o: "owns s a r t" "owns s a' r' t'" using assms(5) by blast+
  show "a = a'" "r = r'" "t = t'" using H D(5)[OF o(1)] D(6)[OF o(1)] o(2) by blast+
qed

definition child_list :: "uproc \<Rightarrow> nat list" where
  "child_list p = (case children p of None \<Rightarrow> [] | Some cs \<Rightarrow> cs)"

lemma owns_alt: "owns s a r t \<longleftrightarrow>
    (\<exists>p c. uprocs s a = Some p \<and> r \<in> set (child_list p) \<and> childs s r = Some c \<and> c_tid c = t) \<or>
    (\<exists>l. leashes s a = Some l \<and> l_child l = r \<and> l_tid l = t)"
  unfolding owns_def child_list_def by (auto split: option.splits)

lemma owns_list: "uprocs s a = Some p \<Longrightarrow> r \<in> set (child_list p) \<Longrightarrow> childs s r = Some c \<Longrightarrow> owns s a r (c_tid c)"
  unfolding owns_alt by blast

lemma proc_okD:
  assumes "procs_wf s" "uprocs s t = Some p"
  shows "t < next_tid s" "usr_thread p = (self p \<noteq> None)" "distinct (child_list p)" "\<And>r. r \<in> set (child_list p) \<Longrightarrow> childs s r \<noteq> None"
  using procs_wfD(2)[OF assms] by (auto simp: proc_ok_def child_list_def split: option.splits)

lemma owns_leash: "leashes s a = Some l \<Longrightarrow> owns s a (l_child l) (l_tid l)"
  unfolding owns_def by blast

lemma uses_self: "uprocs s t = Some p \<Longrightarrow> self p = Some r \<Longrightarrow> uses s t r"
  unfolding uses_def by blast

lemma uses_one:
  assumes "procs_wf s" "uses s t r" "uses s t' r"
  shows "t = t'"
  using procs_wfD(5,7)[OF assms(1)] assms(2,3) by blast

lemma leash_tid:
  assumes "procs_wf s" "leashes s a = Some l" "leashes s b = Some k" "l_tid k = l_tid l"
  shows "b = a"
  using procs_wfD(6)[OF assms(1)] owns_leash[OF assms(2)] owns_leash[OF assms(3)] assms(4) by metis

text \<open>Owned pages are allocated.\<close>

lemma owns_allocated: "procs_wf s \<Longrightarrow> owns s a r t \<Longrightarrow> childs s r \<noteq> None"
  unfolding owns_def using procs_wfD(3)[of s] by (auto simp: leash_ok_def)

lemma free_children_eq:
  "distinct cs \<Longrightarrow> \<forall>r\<in>set cs. childs s r \<noteq> None \<Longrightarrow>
   free_children cs s = Some (s\<lparr>childs := (\<lambda>r. if r \<in> set cs then None else childs s r)\<rparr>)"
proof (induction cs arbitrary: s)
  case (Cons r cs)
  have "childs s r \<noteq> None" using Cons.prems by simp
  then obtain c where c: "childs s r = Some c" by blast
  let ?t = "s\<lparr>childs := (childs s)(r := None)\<rparr>"
  have "free_children cs ?t = Some (?t\<lparr>childs := (\<lambda>x. if x \<in> set cs then None else childs ?t x)\<rparr>)"
    using Cons.prems by (intro Cons.IH) auto
  also have "?t\<lparr>childs := (\<lambda>x. if x \<in> set cs then None else childs ?t x)\<rparr> =
      s\<lparr>childs := (\<lambda>x. if x \<in> set (r # cs) then None else childs s x)\<rparr>"
    by (auto simp: fun_eq_iff intro!: procs.equality)
  finally show ?case using c by (simp add: free_child_def fun_upd_def)
qed simp

text \<open>The state a thread leaves behind.\<close>

definition exited :: "int \<Rightarrow> uproc \<Rightarrow> nat \<Rightarrow> child \<Rightarrow> procs \<Rightarrow> procs" where
  "exited t p r c s = s\<lparr>uprocs := (uprocs s)(t := None),
     childs := (\<lambda>x. if x \<in> set (child_list p) then None
                    else if x = r then Some (c\<lparr>terminated := terminated c + 1\<rparr>) else childs s x),
     files_closed := files_closed s @ open_list p @ (case executing p of None \<Rightarrow> [] | Some f \<Rightarrow> [f])\<rparr>"

lemma thread_exit_eq:
  assumes "uprocs s t = Some p" "self p = Some r" "usr_thread p" "childs s r = Some c"
    and "distinct (child_list p)" "\<forall>x\<in>set (child_list p). childs s x \<noteq> None" "r \<notin> set (child_list p)"
  shows "thread_exit t s = Some (exited t p r c s)"
  using assms free_children_eq[of "child_list p" s]
  by (cases "children p")
    (auto simp: thread_exit_def process_exit_def put_proc_def set_child_def exited_def child_list_def fun_eq_iff
      intro!: procs.equality)

lemma exited_wf:
  assumes wf: "procs_wf s" and p: "uprocs s t = Some p" "self p = Some r" and c: "childs s r = Some c"
    and leash: "leashes s t = None" and ph: "\<And>a. phase p \<noteq> Starting a"
    and orphans: "\<And>x u. x \<in> set (child_list p) \<Longrightarrow> owns s t x u \<Longrightarrow> uprocs s u = None"
  shows "procs_wf (exited t p r c s)"
proof (rule procs_wf_narrow[OF wf])
  let ?s = "exited t p r c s"
  note D = procs_wfD[OF wf]
  have alloc: "\<exists>d. childs s x = Some d \<and> owns s t x (c_tid d)" if "x \<in> set (child_list p)" for x
    using proc_okD(4)[OF wf p(1) that] owns_list[OF p(1) that] by blast
  obtain a0 where a0: "owns s a0 r t" using D(7)[OF uses_self[OF p]] by blast
  have r: "r \<notin> set (child_list p)"
    using alloc[of r] orphans D(5)[OF a0] p(1) by fastforce
  have other: "x \<notin> set (child_list q)" if "x \<in> set (child_list p)" "uprocs s u = Some q" "u \<noteq> t" for x u q
    using alloc[OF that(1)] owns_list[OF that(2)] D(5) that(3) by blast
  have leashed: "l_child l \<notin> set (child_list p)" if "leashes s a = Some l" for a l
    using alloc owns_leash[OF that] D(5) leash that by (metis option.distinct(1))
  have unused: "x \<notin> set (child_list p) \<and> x \<noteq> r" if U: "uses s u x" and "u \<noteq> t" for u x
  proof -
    obtain a q where a: "owns s a x u" "uprocs s u = Some q" using D(7)[OF U] U by (auto simp: uses_def)
    have "x \<notin> set (child_list p)" using alloc[of x] orphans D(5)[OF a(1)] a(2) by fastforce
    moreover have "x \<noteq> r" using D(5)[OF a(1)] a0 \<open>u \<noteq> t\<close> by blast
    ultimately show ?thesis by blast
  qed
  show "next_tid ?s = next_tid s" by (simp add: exited_def)
  show "owns s a x u" if "owns ?s a x u" for a x u
    using that c unfolding owns_alt by (auto simp: exited_def split: if_splits)
  show "proc_ok ?s u q" if "uprocs ?s u = Some q" for u q
  proof -
    have q: "uprocs s u = Some q" "u \<noteq> t" using that by (auto simp: exited_def split: if_splits)
    have "\<forall>x\<in>set (child_list q). childs ?s x \<noteq> None"
      using other q proc_okD(4)[OF wf q(1)] by (auto simp: exited_def)
    then show ?thesis using D(2)[OF q(1)] by (auto simp: proc_ok_def child_list_def exited_def split: option.splits phase.splits)
  qed
  show "leash_ok ?s a l" if "leashes ?s a = Some l" for a l
  proof -
    have l: "leashes s a = Some l" using that by (simp add: exited_def)
    have "a \<noteq> t" using l leash by auto
    then show ?thesis using D(3)[OF l] leashed[OF l] ph p c
      by (auto simp: leash_ok_def exited_def split: option.splits)
  qed
  show "\<exists>a d. owns ?s a x u \<and> childs ?s x = Some d \<and> terminated d = 0" if "uses ?s u x" for u x
  proof -
    have u: "uses s u x" "u \<noteq> t" using that by (auto simp: uses_def exited_def split: if_splits)
    obtain a d where a: "owns s a x u" "childs s x = Some d" "terminated d = 0" using D(7)[OF u(1)] by blast
    have "a \<noteq> t" using a(1) orphans u leash unused[OF u] unfolding owns_alt using p(1) by auto
    then have "owns ?s a x u" using a(1) unused[OF u] unfolding owns_alt by (auto simp: exited_def)
    then show ?thesis using a unused[OF u] by (auto simp: exited_def)
  qed
qed

section \<open>Every step is safe\<close>

lemma exit_step:
  assumes wf: "procs_wf s" and p: "uprocs s t = Some p" "self p = Some r" and leash: "leashes s t = None"
    and ph: "\<And>a. phase p \<noteq> Starting a" and orphans: "\<And>x u. x \<in> set (child_list p) \<Longrightarrow> owns s t x u \<Longrightarrow> uprocs s u = None"
  obtains a c where "owns s a r t" "a \<noteq> t \<or> leashes s a \<noteq> None" "childs s r = Some c" "terminated c = 0"
    "r \<notin> set (child_list p)" "thread_exit t s = Some (exited t p r c s)" "procs_wf (exited t p r c s)"
proof -
  note D = procs_wfD[OF wf]
  obtain a c where a: "owns s a r t" "childs s r = Some c" "terminated c = 0" using D(7)[OF uses_self[OF p]] by blast
  have r: "r \<notin> set (child_list p)"
    using owns_list[OF p(1) _ a(2)] orphans D(5)[OF a(1)] p(1) by fastforce
  have "a \<noteq> t \<or> leashes s a \<noteq> None" using a(1) r p(1) unfolding owns_alt by auto
  moreover have "thread_exit t s = Some (exited t p r c s)"
    using proc_okD[OF wf p(1)] p a(2) r by (intro thread_exit_eq) auto
  moreover have "procs_wf (exited t p r c s)"
    by (rule exited_wf[OF wf p a(2) leash ph]) (rule orphans)
  ultimately show thesis by (rule that[OF a(1) _ a(2,3) r])
qed

lemma may_actD: "may_act cur s \<Longrightarrow> \<exists>p. uprocs s cur = Some p \<and> phase p = Running \<and> leashes s cur = None"
  by (auto simp: may_act_def split: option.splits)

lemma kill_step:
  assumes "procs_wf s" "enabled (Kill cur) s" "orderly (Kill cur) s"
  shows "\<exists>s'. run_event (Kill cur) s = Some s' \<and> procs_wf s'"
proof -
  obtain p where p: "uprocs s cur = Some p" "phase p = Running" "leashes s cur = None" "usr_thread p"
    using assms(2) may_actD by fastforce
  obtain r where r: "self p = Some r" using proc_okD(2)[OF assms(1) p(1)] p(4) by auto
  show ?thesis using exit_step[OF assms(1) p(1) r p(3)] p(2) assms(3) by (metis orderly.simps(3) phase.distinct(3) run_event.simps(7))
qed

text \<open>Setting a status keeps everything the other processes rely on.\<close>

lemma set_status:
  assumes wf: "procs_wf s" and c: "childs s r = Some c"
  shows "procs_wf (s\<lparr>childs := (childs s)(r \<mapsto> c\<lparr>c_status := n\<rparr>)\<rparr>)" (is "procs_wf ?s")
    and "owns (s\<lparr>childs := (childs s)(r \<mapsto> c\<lparr>c_status := n\<rparr>)\<rparr>) = owns s"
proof -
  show o: "owns ?s = owns s" unfolding owns_def fun_eq_iff using c by (auto; force)
  have u: "uses ?s = uses s" by (simp add: uses_def fun_eq_iff)
  note D = procs_wfD[OF wf]
  show "procs_wf ?s"
  proof (rule procs_wf_narrow[OF wf])
    show "proc_ok ?s t p" if "uprocs ?s t = Some p" for t p
      using D(2)[of t p] that by (auto simp: proc_ok_def split: option.splits phase.splits)
    show "leash_ok ?s a l" if "leashes ?s a = Some l" for a l
      using D(3)[of a l] that by (auto simp: leash_ok_def)
    show "\<exists>a d. owns ?s a x t \<and> childs ?s x = Some d \<and> terminated d = 0" if "uses ?s t x" for t x
      using D(7)[of t x] that c unfolding o u by auto
  qed (simp_all add: o)
qed

lemma exit_event:
  assumes wf: "procs_wf s" and en: "enabled (Exit cur n) s" and ord: "orderly (Exit cur n) s"
  obtains p r a c s1 where "uprocs s cur = Some p" "self p = Some r" "owns s a r cur" "childs s r = Some c" "terminated c = 0"
    "s1 = s\<lparr>childs := (childs s)(r \<mapsto> c\<lparr>c_status := n\<rparr>)\<rparr>" "r \<notin> set (child_list p)"
    "run_event (Exit cur n) s = Some (exited cur p r (c\<lparr>c_status := n\<rparr>) s1)" "procs_wf (exited cur p r (c\<lparr>c_status := n\<rparr>) s1)"
proof -
  obtain p where p: "uprocs s cur = Some p" "phase p = Running" "leashes s cur = None" "usr_thread p"
    using en may_actD by fastforce
  obtain r where r: "self p = Some r" using proc_okD(2)[OF wf p(1)] p(4) by auto
  obtain a c where a: "owns s a r cur" "childs s r = Some c" "terminated c = 0" using procs_wfD(7)[OF wf uses_self[OF p(1) r]] by blast
  let ?s = "s\<lparr>childs := (childs s)(r \<mapsto> c\<lparr>c_status := n\<rparr>)\<rparr>"
  note st = set_status[OF wf a(2), of n]
  obtain d where d: "childs ?s r = Some d" "r \<notin> set (child_list p)" "thread_exit cur ?s = Some (exited cur p r d ?s)" "procs_wf (exited cur p r d ?s)"
  proof (rule exit_step[OF st(1), of cur p r])
    show "\<And>x u. x \<in> set (child_list p) \<Longrightarrow> owns ?s cur x u \<Longrightarrow> uprocs ?s u = None" unfolding st(2) using ord by simp
  qed (use p r in auto)
  have "run_event (Exit cur n) s = Some (exited cur p r (c\<lparr>c_status := n\<rparr>) ?s)"
    using d p r a by (simp add: sys_exit_process_def set_child_def)
  then show thesis using that[OF p(1) r a refl d(2)] d by simp
qed

lemma report_step:
  assumes wf: "procs_wf s" and en: "enabled (Report t loaded exe pd) s"
  shows "\<exists>s'. run_event (Report t loaded exe pd) s = Some s' \<and> procs_wf s'"
proof -
  note D = procs_wfD[OF wf]
  obtain p a where p: "uprocs s t = Some p" "phase p = Starting a" using en by (auto split: option.splits phase.splits)
  obtain l where l: "leashes s a = Some l" "success_set l = 0" "l_tid l = t" "self p = None" "children p = None" "leashes s t = None"
    using D(2)[OF p(1)] p(2) by (auto simp: proc_ok_def)
  define p' where "p' = p\<lparr>self := Some (l_child l), usr_thread := True, executing := exe, own_pagedir := pd, phase := Reported a\<rparr>"
  define l' where "l' = l\<lparr>success := loaded, success_set := 1\<rparr>"
  define s' where "s' = s\<lparr>name_pages := name_pages s - {l_file_name l}, uprocs := (uprocs s)(t \<mapsto> p'), leashes := (leashes s)(a \<mapsto> l')\<rparr>"
  have run: "run_event (Report t loaded exe pd) s = Some s'"
    using p l by (simp add: start_report_def put_proc_def put_leash_def s'_def p'_def l'_def)
  have [simp]: "child_list p' = child_list p" "child_list p = []" using l by (simp_all add: child_list_def p'_def)
  have own: "owns s' = owns s" unfolding fun_eq_iff owns_alt using p l by (auto simp: s'_def l'_def)
  have use: "uses s u x" if "uses s' u x" for u x
    using that p l by (auto simp: uses_def s'_def p'_def l'_def split: if_splits)
  have "procs_wf s'"
  proof (rule procs_wf_narrow[OF wf])
    show "proc_ok s' u q" if "uprocs s' u = Some q" for u q
    proof (cases "u = t")
      case True
      then show ?thesis using that D(2)[OF p(1)] p l by (auto simp: proc_ok_def s'_def p'_def l'_def)
    next
      case False
      then have q: "uprocs s u = Some q" using that by (simp add: s'_def)
      show ?thesis using D(2)[OF q] False l D(3)[OF l(1)] q by (auto simp: proc_ok_def s'_def l'_def leash_ok_def split: option.splits phase.splits)
    qed
    show "leash_ok s' b k" if "leashes s' b = Some k" for b k
    proof (cases "b = a")
      case True
      then show ?thesis using that D(3)[OF l(1)] p l by (auto simp: leash_ok_def s'_def p'_def l'_def)
    next
      case False
      then have k: "leashes s b = Some k" using that by (simp add: s'_def)
      have "l_tid k \<noteq> t" using leash_tid[OF wf l(1) k] False l(3) by metis
      then show ?thesis using D(3)[OF k] p by (auto simp: leash_ok_def s'_def)
    qed
    show "\<exists>b c. owns s' b x u \<and> childs s' x = Some c \<and> terminated c = 0" if "uses s' u x" for u x
      using D(7)[OF use[OF that]] own by (simp add: s'_def)
  qed (simp_all add: own, simp add: s'_def)
  then show ?thesis using run by blast
qed

lemma continue_step:
  assumes wf: "procs_wf s" and en: "enabled (Continue t) s"
  shows "\<exists>s'. run_event (Continue t) s = Some s' \<and> procs_wf s'"
proof -
  note D = procs_wfD[OF wf]
  obtain p a where p: "uprocs s t = Some p" "phase p = Reported a" using en by (auto split: option.splits phase.splits)
  obtain l where l: "leashes s a = Some l" "success_set l = 1" "l_tid l = t" "self p = Some (l_child l)" "children p = None" "leashes s t = None"
    using D(2)[OF p(1)] p(2) by (auto simp: proc_ok_def)
  have none: "child_list p = []" using l by (simp add: child_list_def)
  show ?thesis
  proof (cases "success l")
    case False
    obtain c where "thread_exit t s = Some (exited t p (l_child l) c s)" "procs_wf (exited t p (l_child l) c s)"
      using exit_step[OF wf p(1) l(4,6)] p(2) none by (metis empty_iff list.set(1) phase.distinct(1))
    then show ?thesis using p l False by (simp add: start_continue_def)
  next
    case True
    define p' where "p' = p\<lparr>open_list := [], phase := Running\<rparr>"
    define s' where "s' = s\<lparr>uprocs := (uprocs s)(t \<mapsto> p')\<rparr>"
    have run: "run_event (Continue t) s = Some s'"
      using p l True by (simp add: start_continue_def put_proc_def s'_def p'_def)
    have [simp]: "child_list p' = []" "child_list p = []" using none by (simp_all add: child_list_def p'_def)
    have own: "owns s' = owns s" unfolding fun_eq_iff owns_alt using p by (auto simp: s'_def)
    have use: "uses s u x" if "uses s' u x" for u x
      using that p by (auto simp: uses_def s'_def p'_def split: if_splits)
    have "procs_wf s'"
    proof (rule procs_wf_narrow[OF wf])
      show "proc_ok s' u q" if "uprocs s' u = Some q" for u q
        using that D(2)[of u] D(2)[OF p(1)] by (cases "u = t") (auto simp: proc_ok_def s'_def p'_def split: option.splits phase.splits)
      show "leash_ok s' b k" if "leashes s' b = Some k" for b k
      proof -
        have k: "leashes s b = Some k" using that by (simp add: s'_def)
        have bt: "b \<noteq> t" using k l(6) by auto
        have succ: "success k" if "l_tid k = t"
          using leash_tid[OF wf l(1) k] that l(1,3) k True by auto
        note K = D(3)[OF k, unfolded leash_ok_def]
        show ?thesis unfolding leash_ok_def
        proof (intro conjI)
          show "\<exists>p. uprocs s' b = Some p \<and> phase p = Running \<and> l_child k \<notin> set (case children p of None \<Rightarrow> [] | Some cs \<Rightarrow> cs)"
            using K bt by (simp add: s'_def)
          show "success_set k = 0 \<longrightarrow> (\<exists>p. uprocs s' (l_tid k) = Some p \<and> phase p = Starting b)"
            using K p by (cases "l_tid k = t") (simp_all add: s'_def)
          show "success_set k = 1 \<and> \<not> success k \<longrightarrow>
              (case uprocs s' (l_tid k) of None \<Rightarrow> True | Some p \<Rightarrow> phase p = Reported b)"
            using K succ by (cases "l_tid k = t") (simp_all add: s'_def)
        qed (use K in \<open>simp_all add: s'_def\<close>)
      qed
      show "\<exists>b c. owns s' b x u \<and> childs s' x = Some c \<and> terminated c = 0" if "uses s' u x" for u x
        using D(7)[OF use[OF that]] own by (simp add: s'_def)
    qed (simp_all add: own, simp add: s'_def)
    then show ?thesis using run by blast
  qed
qed

section \<open>Waiting\<close>

lemma find_child_none:
  "\<forall>r\<in>set cs. \<exists>c. m r = Some c \<and> c_tid c \<noteq> t \<Longrightarrow> find_child m t cs = Some None"
proof (induction cs)
  case (Cons x cs)
  then obtain c where "m x = Some c" "c_tid c \<noteq> t" by auto
  then show ?case using Cons by simp
qed simp

lemma find_child_some:
  "\<forall>r\<in>set cs. m r \<noteq> None \<Longrightarrow> r \<in> set cs \<Longrightarrow> m r = Some c \<Longrightarrow> c_tid c = t \<Longrightarrow>
   \<forall>x\<in>set cs. \<forall>d. m x = Some d \<and> c_tid d = t \<longrightarrow> x = r \<Longrightarrow> find_child m t cs = Some (Some r)"
proof (induction cs)
  case (Cons x cs)
  obtain d where d: "m x = Some d" using Cons.prems(1) by auto
  show ?case
  proof (cases "c_tid d = t")
    case True
    then have "x = r" using Cons.prems(5) d by simp
    then show ?thesis using d True by simp
  next
    case False
    then have "x \<noteq> r" using d Cons.prems(3,4) by auto
    then have "r \<in> set cs" using Cons.prems(2) by simp
    moreover have "\<forall>r\<in>set cs. m r \<noteq> None" using Cons.prems(1) by simp
    moreover have "\<forall>x\<in>set cs. \<forall>d. m x = Some d \<and> c_tid d = t \<longrightarrow> x = r" using Cons.prems(5) by simp
    ultimately have "find_child m t cs = Some (Some r)" using Cons.IH Cons.prems(3,4) by blast
    then show ?thesis using d False by simp
  qed
qed simp

definition reaped :: "int \<Rightarrow> uproc \<Rightarrow> nat \<Rightarrow> procs \<Rightarrow> procs" where
  "reaped cur p r s = s\<lparr>childs := (childs s)(r := None), uprocs := (uprocs s)(cur \<mapsto> p\<lparr>children := Some (remove1 r (child_list p))\<rparr>)\<rparr>"

lemma wait_no_child:
  assumes "procs_wf s" "uprocs s cur = Some p" "\<And>r c. r \<in> set (child_list p) \<Longrightarrow> childs s r = Some c \<Longrightarrow> c_tid c \<noteq> t"
  shows "process_wait cur t s = Some (Result (- 1) s)"
proof (cases "children p")
  case (Some cs)
  have "find_child (childs s) t cs = Some None"
    using proc_okD(4)[OF assms(1,2)] assms(3) Some by (intro find_child_none) (fastforce simp: child_list_def)
  then show ?thesis using assms(2) Some by (simp add: process_wait_def)
qed (use assms(2) in \<open>simp add: process_wait_def\<close>)

lemma wait_child:
  assumes wf: "procs_wf s" and p: "uprocs s cur = Some p" and r: "r \<in> set (child_list p)" "childs s r = Some c" "c_tid c = t"
  shows "process_wait cur t s = (if terminated c = 0 then Some Blocks else Some (Result (c_status c) (reaped cur p r s)))"
proof -
  obtain cs where cs: "children p = Some cs" "child_list p = cs" using r(1) by (cases "children p") (auto simp: child_list_def)
  have "find_child (childs s) t cs = Some (Some r)"
  proof (rule find_child_some[where c = c])
    show "\<forall>r\<in>set cs. childs s r \<noteq> None" using proc_okD(4)[OF wf p] cs by simp
    show "\<forall>x\<in>set cs. \<forall>d. childs s x = Some d \<and> c_tid d = t \<longrightarrow> x = r"
    proof (intro ballI allI impI)
      fix x d assume x: "x \<in> set cs" "childs s x = Some d \<and> c_tid d = t"
      have "owns s cur x t" using owns_list[OF p, of x d] x cs by auto
      then show "x = r" using owns_list[OF p r(1,2)] procs_wfD(6)[OF wf] r(3) by blast
    qed
  qed (use r cs in simp_all)
  then show ?thesis using p r cs by (simp add: process_wait_def reaped_def set_child_def free_child_def put_proc_def)
qed

lemma child_list_reaped [simp]: "child_list (p\<lparr>children := Some cs\<rparr>) = cs"
  by (simp add: child_list_def)

lemma reaped_wf:
  assumes wf: "procs_wf s" and p: "uprocs s cur = Some p" and r: "r \<in> set (child_list p)" "childs s r = Some c" "terminated c > 0"
  shows "procs_wf (reaped cur p r s)" (is "procs_wf ?s")
    and "owns (reaped cur p r s) a x u \<longleftrightarrow> owns s a x u \<and> x \<noteq> r"
proof -
  note D = procs_wfD[OF wf]
  have mine: "owns s cur r (c_tid c)" using owns_list[OF p r(1,2)] .
  have dist: "distinct (child_list p)" using proc_okD[OF wf p] by simp
  have elsewhere: "a = cur \<and> leashes s a \<noteq> Some l" if "owns s a r u" "l_child l = r" for a u l
    using D(5)[OF mine that(1)] D(3)[of cur l] that(2) p r(1) by (auto simp: leash_ok_def child_list_def split: option.splits)
  have noleash: "l_child l \<noteq> r" if "leashes s a = Some l" for a l
    using elsewhere[of a "l_tid l" l] owns_leash[OF that] that by metis
  show o: "owns ?s a x u \<longleftrightarrow> owns s a x u \<and> x \<noteq> r" for a x u
    unfolding owns_alt using p dist noleash D(5)[OF mine]
    by (auto simp: reaped_def owns_alt)
  have nouse: "x \<noteq> r" if "uses s u x" for u x
    using D(7)[OF that] r by auto
  have use: "uses ?s = uses s" unfolding fun_eq_iff uses_def using p by (auto simp: reaped_def)
  have run: "phase p = Running" using D(2)[OF p] r(1) by (auto simp: proc_ok_def child_list_def split: phase.splits option.splits)
  have others: "r \<notin> set (child_list q)" if "uprocs s u = Some q" "u \<noteq> cur" for u q
    using owns_list[OF that(1) _ r(2)] D(5)[OF mine] that(2) by blast
  show "procs_wf ?s"
  proof (rule procs_wf_narrow[OF wf])
    show "owns s a x u" if "owns ?s a x u" for a x u using that o by simp
    show "proc_ok ?s u q" if "uprocs ?s u = Some q" for u q
    proof (cases "u = cur")
      case True
      then show ?thesis using that D(2)[OF p] dist run by (auto simp: proc_ok_def reaped_def child_list_def split: option.splits)
    next
      case False
      then have q: "uprocs s u = Some q" using that by (simp add: reaped_def)
      then show ?thesis using D(2)[OF q] others[OF q False]
        by (auto simp: proc_ok_def reaped_def child_list_def split: option.splits phase.splits)
    qed
    show "leash_ok ?s a l" if "leashes ?s a = Some l" for a l
    proof -
      have l: "leashes s a = Some l" using that by (simp add: reaped_def)
      show ?thesis using D(3)[OF l] noleash[OF l] p run set_remove1_subset[of r "child_list p"]
        by (auto simp: leash_ok_def reaped_def child_list_def split: option.splits)
    qed
    show "\<exists>a d. owns ?s a x u \<and> childs ?s x = Some d \<and> terminated d = 0" if "uses ?s u x" for u x
      using D(7)[of u x] nouse[of u x] that unfolding use o by (auto simp: reaped_def)
  qed (simp add: reaped_def)
qed

lemma wait_step:
  assumes wf: "procs_wf s" and en: "enabled (Wait cur t) s"
  shows "\<exists>s'. run_event (Wait cur t) s = Some s' \<and> procs_wf s'"
proof -
  obtain p where p: "uprocs s cur = Some p" using en may_actD by fastforce
  show ?thesis
  proof (cases "\<exists>r c. r \<in> set (child_list p) \<and> childs s r = Some c \<and> c_tid c = t")
    case True
    then obtain r c where r: "r \<in> set (child_list p)" "childs s r = Some c" "c_tid c = t" by blast
    show ?thesis using wait_child[OF wf p r] reaped_wf(1)[OF wf p r(1,2)] wf by simp
  next
    case False
    then have "process_wait cur t s = Some (Result (- 1) s)" using wait_no_child[OF wf p] by blast
    then show ?thesis using wf by simp
  qed
qed

section \<open>Execute\<close>

definition returned :: "int \<Rightarrow> uproc \<Rightarrow> leash \<Rightarrow> child \<Rightarrow> procs \<Rightarrow> procs" where
  "returned cur p l c s =
     (if success l
      then s\<lparr>childs := (childs s)(l_child l \<mapsto> c\<lparr>c_tid := l_tid l\<rparr>),
             uprocs := (uprocs s)(cur \<mapsto> p\<lparr>children := Some (child_list p @ [l_child l])\<rparr>), leashes := (leashes s)(cur := None)\<rparr>
      else s\<lparr>childs := (childs s)(l_child l := None), leashes := (leashes s)(cur := None)\<rparr>)"

lemma execute_end_eq:
  assumes wf: "procs_wf s" and l: "leashes s cur = Some l"
  obtains p c where "uprocs s cur = Some p" "phase p = Running" "l_child l \<notin> set (child_list p)" "childs s (l_child l) = Some c"
    "execute_end cur s = Some (if success l then l_tid l else TID_ERROR, returned cur p l c s)"
proof -
  note L = procs_wfD(3)[OF wf l, unfolded leash_ok_def]
  obtain p c where p: "uprocs s cur = Some p" "phase p = Running" "l_child l \<notin> set (child_list p)" "childs s (l_child l) = Some c"
    using L by (auto simp: child_list_def)
  have "l_tid l \<noteq> TID_ERROR" using procs_wfD(4)[OF wf owns_leash[OF l]] by simp
  then have "execute_end cur s = Some (if success l then l_tid l else TID_ERROR, returned cur p l c s)"
    using l p by (simp add: execute_end_def returned_def set_child_def free_child_def put_proc_def child_list_def Let_def)
  then show thesis using that p by blast
qed

lemma return_step:
  assumes wf: "procs_wf s" and en: "enabled (Return cur) s" and ord: "orderly (Return cur) s"
  shows "\<exists>s'. run_event (Return cur) s = Some s' \<and> procs_wf s'"
proof -
  note D = procs_wfD[OF wf]
  obtain l where l: "leashes s cur = Some l" "success_set l = 1"
    using en D(3) by (fastforce split: option.splits simp: leash_ok_def)
  obtain p c where p: "uprocs s cur = Some p" "phase p = Running" "l_child l \<notin> set (child_list p)" "childs s (l_child l) = Some c"
    and ex: "execute_end cur s = Some (if success l then l_tid l else TID_ERROR, returned cur p l c s)"
    using execute_end_eq[OF wf l(1)] .
  let ?s = "returned cur p l c s"
  have mine: "owns s cur (l_child l) (l_tid l)" using owns_leash[OF l(1)] .
  have others: "l_child l \<notin> set (child_list q)" if "uprocs s u = Some q" for u q
  proof
    assume "l_child l \<in> set (child_list q)"
    then have "u = cur" using owns_list[OF that _ p(4)] D(5)[OF mine] by blast
    then show False using \<open>l_child l \<in> set (child_list q)\<close> that p(1,3) by simp
  qed
  have leash: "l_child k \<noteq> l_child l" if "leashes s a = Some k" "a \<noteq> cur" for a k
    using owns_leash[OF that(1)] D(5)[OF mine] that(2) by metis
  have nophase: "phase q \<noteq> Reported cur" if "uprocs s u = Some q" for u q using ord that by simp
  have nostart: "phase q \<noteq> Starting cur" if "uprocs s u = Some q" for u q
    using D(2)[OF that] l by (auto simp: proc_ok_def)
  have nouse: "x \<noteq> l_child l" if "\<not> success l" "uses s u x" for u x
  proof
    assume x: "x = l_child l"
    obtain q where q: "uprocs s u = Some q" using \<open>uses s u x\<close> by (auto simp: uses_def)
    have "u = l_tid l" using D(5)[OF mine] D(7)[OF \<open>uses s u x\<close>] x by blast
    then show False using D(3)[OF l(1)] l(2) \<open>\<not> success l\<close> q nophase[OF q] by (simp add: leash_ok_def)
  qed
  have own: "owns s a x u" if "owns ?s a x u" for a x u
    using that p(1,3) l mine unfolding owns_alt by (auto simp: returned_def split: if_splits dest: others)
  have own': "owns ?s a x u" if "owns s a x u" "success l \<or> x \<noteq> l_child l" for a x u
    using that(1) unfolding owns_alt
  proof (elim disjE exE conjE)
    fix q d assume q: "uprocs s a = Some q" "x \<in> set (child_list q)" "childs s x = Some d" "c_tid d = u"
    have "x \<noteq> l_child l" using others[OF q(1)] q(2) by auto
    then show "(\<exists>p c. uprocs ?s a = Some p \<and> x \<in> set (child_list p) \<and> childs ?s x = Some c \<and> c_tid c = u) \<or>
        (\<exists>k. leashes ?s a = Some k \<and> l_child k = x \<and> l_tid k = u)"
      using q p(1) by (auto simp: returned_def)
  next
    fix k assume k: "leashes s a = Some k" "l_child k = x" "l_tid k = u"
    then show "(\<exists>p c. uprocs ?s a = Some p \<and> x \<in> set (child_list p) \<and> childs ?s x = Some c \<and> c_tid c = u) \<or>
        (\<exists>k. leashes ?s a = Some k \<and> l_child k = x \<and> l_tid k = u)"
      using that(2) l by (cases "a = cur") (auto simp: returned_def)
  qed
  have use: "uses s u x" if "uses ?s u x" for u x
    using that p(1) unfolding uses_def by (auto simp: returned_def split: if_splits)
  have "procs_wf ?s"
  proof (rule procs_wf_narrow[OF wf])
    show "next_tid ?s = next_tid s" by (simp add: returned_def)
    show "owns s a x u" if "owns ?s a x u" for a x u using own[OF that] .
    show "proc_ok ?s u q" if "uprocs ?s u = Some q" for u q
    proof (cases "u = cur \<and> success l")
      case True
      then have q: "q = p\<lparr>children := Some (child_list p @ [l_child l])\<rparr>" using that by (simp add: returned_def)
      show ?thesis using D(2)[OF p(1)] proc_okD[OF wf p(1)] p q True
        by (auto simp: proc_ok_def returned_def)
    next
      case False
      then have q: "uprocs s u = Some q" using that by (auto simp: returned_def split: if_splits)
      have "\<forall>x\<in>set (child_list q). childs ?s x \<noteq> None"
        using proc_okD(4)[OF wf q] others[OF q] by (auto simp: returned_def)
      then show ?thesis using D(2)[OF q] q nophase[OF q] nostart[OF q]
        by (auto simp: proc_ok_def child_list_def returned_def split: option.splits phase.splits)
    qed
    show "leash_ok ?s a k" if "leashes ?s a = Some k" for a k
    proof -
      have k: "leashes s a = Some k" "a \<noteq> cur" using that by (auto simp: returned_def split: if_splits)
      have phases: "(case uprocs ?s u of None \<Rightarrow> None | Some q \<Rightarrow> Some (phase q)) = (case uprocs s u of None \<Rightarrow> None | Some q \<Rightarrow> Some (phase q))" for u
        using p(1) by (simp add: returned_def)
      have same: "uprocs ?s u = uprocs s u" if "u \<noteq> cur" for u using that by (simp add: returned_def)
      have "\<exists>q. uprocs ?s cur = Some q \<and> phase q = Running" using p by (simp add: returned_def)
      then show ?thesis using D(3)[OF k(1)] leash[OF k] k(2) p(1,2) same[OF k(2)] same[of "l_tid k"]
        by (cases "l_tid k = cur") (auto simp: leash_ok_def returned_def)
    qed
    show "\<exists>a d. owns ?s a x u \<and> childs ?s x = Some d \<and> terminated d = 0" if U: "uses ?s u x" for u x
    proof -
      obtain a d where a: "owns s a x u" "childs s x = Some d" "terminated d = 0" using D(7)[OF use[OF U]] by blast
      have "success l \<or> x \<noteq> l_child l" using nouse[OF _ use[OF U]] by blast
      then show ?thesis using own'[OF a(1)] a p(4) by (auto simp: returned_def)
    qed
  qed
  then show ?thesis using ex by simp
qed

lemma execute_step:
  assumes wf: "procs_wf s" and en: "enabled (Execute cur name page junk created) s"
  shows "\<exists>s'. run_event (Execute cur name page junk created) s = Some s' \<and> procs_wf s'"
proof -
  note D = procs_wfD[OF wf]
  obtain p where p: "uprocs s cur = Some p" "phase p = Running" "leashes s cur = None" using en may_actD by fastforce
  have names: "procs_wf (s\<lparr>name_pages := X\<rparr>)" for X
  proof -
    let ?s = "s\<lparr>name_pages := X\<rparr>"
    have sel: "uprocs ?s = uprocs s" "childs ?s = childs s" "leashes ?s = leashes s" "next_tid ?s = next_tid s" by simp_all
    have eqs: "owns ?s a x u = owns s a x u" "uses ?s u x = uses s u x" "proc_ok ?s u q = proc_ok s u q" "leash_ok ?s a l = leash_ok s a l"
      for a x u q l unfolding owns_def uses_def proc_ok_def leash_ok_def sel by (rule refl)+
    show ?thesis using wf unfolding procs_wf_def eqs sel .
  qed
  show ?thesis
  proof (cases "name = None \<or> page = None \<or> \<not> created")
    case True
    have c: "r \<notin> dom (childs s)" if "page = Some r" for r using en that by (simp add: domIff)
    have "(childs s)(r := None) = childs s" if "page = Some r" for r using c[OF that] by (auto simp: fun_eq_iff domIff)
    then show ?thesis using True names wf
      by (cases name; cases page) (simp_all add: execute_begin_def free_child_def Let_def)
  next
    case False
    then obtain n r where nr: "name = Some n" "page = Some r" by auto
    have fresh: "childs s r = None" using en nr by simp
    let ?t = "next_tid s"
    have t: "uprocs s ?t = None" using proc_okD(1)[OF wf] by (metis less_irrefl not_None_eq)
    have t_cur: "cur \<noteq> ?t" using t p by auto
    define l where "l = \<lparr>success_set = 0, success = False, l_file_name = n, l_child = r, l_tid = ?t\<rparr>"
    define s' where "s' = s\<lparr>name_pages := insert n (name_pages s), childs := (childs s)(r \<mapsto> \<lparr>c_tid = junk, c_status = - 1, terminated = 0\<rparr>),
      next_tid := ?t + 1, uprocs := (uprocs s)(?t \<mapsto> new_proc cur), leashes := (leashes s)(cur \<mapsto> l)\<rparr>"
    have run: "run_event (Execute cur name page junk created) s = Some s'"
      using False nr D(1) by (simp add: execute_begin_def Let_def put_leash_def put_proc_def s'_def l_def)
    have [simp]: "child_list (new_proc cur) = []" by (simp add: new_proc_def child_list_def)
    have notin: "r \<notin> set (child_list q)" if "uprocs s u = Some q" for u q using proc_okD(4)[OF wf that, of r] fresh by auto
    have noleash: "l_child k \<noteq> r" if "leashes s a = Some k" for a k using D(3)[OF that] fresh by (auto simp: leash_ok_def)
    have l_tid: "l_tid k \<noteq> ?t" if "leashes s a = Some k" for a k using D(4)[OF owns_leash[OF that]] by auto
    have own: "owns s' a x u \<longleftrightarrow> owns s a x u \<or> (a = cur \<and> x = r \<and> u = ?t)" for a x u
      unfolding owns_alt using t p fresh notin by (auto simp: s'_def l_def)
    have use: "uses s' u x \<longleftrightarrow> uses s u x \<or> (u = ?t \<and> x = r)" for u x
    proof (cases "u = ?t")
      case True
      then show ?thesis using t t_cur unfolding uses_def by (auto simp: s'_def new_proc_def l_def)
    next
      case False
      have "phase q \<noteq> Starting cur" if "uprocs s u = Some q" for q using D(2)[OF that] p(3) by (auto simp: proc_ok_def)
      then have "(\<exists>a l. phase q = Starting a \<and> leashes s' a = Some l \<and> l_child l = x) = (\<exists>a l. phase q = Starting a \<and> leashes s a = Some l \<and> l_child l = x)"
        if "uprocs s u = Some q" for q using that by (cases "phase q") (auto simp: s'_def)
      moreover have "uprocs s' u = uprocs s u" using False by (simp add: s'_def)
      ultimately show ?thesis using False unfolding uses_def by auto
    qed
    have "procs_wf s'"
      unfolding procs_wf_def
    proof (intro conjI allI impI)
      show "0 < next_tid s'" using D(1) by (simp add: s'_def)
      show "proc_ok s' u q" if "uprocs s' u = Some q" for u q
      proof (cases "u = ?t")
        case True
        have "leashes s ?t = None" using D(3)[of ?t] t by (cases "leashes s ?t") (auto simp: leash_ok_def)
        then show ?thesis using that True t_cur by (auto simp: s'_def proc_ok_def new_proc_def l_def)
      next
        case False
        then have q: "uprocs s u = Some q" using that by (simp add: s'_def)
        have "phase q \<noteq> Starting cur" "phase q \<noteq> Reported cur" using D(2)[OF q] p(3) by (auto simp: proc_ok_def)
        then show ?thesis using D(2)[OF q] q p by (auto simp: s'_def proc_ok_def split: option.splits phase.splits)
      qed
      show "leash_ok s' a k" if "leashes s' a = Some k" for a k
      proof (cases "a = cur")
        case True
        then show ?thesis using that p t_cur notin[OF p(1)]
          by (auto simp: s'_def l_def leash_ok_def new_proc_def child_list_def)
      next
        case False
        then have k: "leashes s a = Some k" using that by (simp add: s'_def)
        show ?thesis using D(3)[OF k] l_tid[OF k] noleash[OF k] t by (auto simp: s'_def leash_ok_def)
      qed
      show "0 < u" "u < next_tid s'" "a < u" if "owns s' a x u" for a x u
        using that D(1) D(4)[of a x u] proc_okD(1)[OF wf p(1)] unfolding own by (auto simp: s'_def)
      show "\<exists>a c. owns s' a x u \<and> childs s' x = Some c \<and> terminated c = 0" if "uses s' u x" for u x
      proof (cases "x = r")
        case True
        then have "u = ?t" using that D(7)[of u x] fresh unfolding use by auto
        then show ?thesis unfolding own using True by (auto simp: s'_def)
      next
        case False
        then show ?thesis using that D(7)[of u x] unfolding use own by (auto simp: s'_def)
      qed
      have bound: "x \<noteq> r" "u \<noteq> ?t" if "owns s a x u" for a x u
        using owns_allocated[OF wf that] fresh D(4)[OF that] by auto
      fix a x u a' x' u' assume H: "owns s' a x u \<and> owns s' a' x' u' \<and> (x = x' \<or> u = u')"
      then show "a = a'" "x = x'" "u = u'" using bound D(5,6) unfolding own by blast+
    qed
    then show ?thesis using run by blast
  qed
qed

lemma event_step:
  assumes "procs_wf s" "enabled e s" "orderly e s"
  shows "\<exists>s'. run_event e s = Some s' \<and> procs_wf s'"
  using assms execute_step report_step continue_step return_step wait_step kill_step
  by (cases e) (blast | (metis exit_event))+

section \<open>The status of an exited child stays until it is waited for\<close>

definition zombie :: "procs \<Rightarrow> int \<Rightarrow> nat \<Rightarrow> int \<Rightarrow> int \<Rightarrow> bool" where
  "zombie s cur r t n \<longleftrightarrow> owns s cur r t \<and>
     (\<exists>c. childs s r = Some c \<and> terminated c > 0 \<and> c_status c = n) \<and>
     (\<forall>l. leashes s cur = Some l \<and> l_child l = r \<longrightarrow> success l \<and> success_set l = 1)"

lemma zombie_unused: "procs_wf s \<Longrightarrow> zombie s cur r t n \<Longrightarrow> \<not> uses s u r"
  using procs_wfD(7)[of s u r] by (auto simp: zombie_def)

lemma zombie_frame:
  assumes "zombie s cur r t n" "childs s' r = childs s r" "leashes s' cur = leashes s cur"
    and "\<And>p. uprocs s cur = Some p \<Longrightarrow> \<exists>p'. uprocs s' cur = Some p' \<and> (r \<in> set (child_list p) \<longrightarrow> r \<in> set (child_list p'))"
  shows "zombie s' cur r t n"
  using assms unfolding zombie_def owns_alt by (auto; fastforce)

lemma zombie_exited:
  assumes wf: "procs_wf s" and z: "zombie s cur r t n" and p: "uprocs s u = Some p" "self p = Some x" and "u \<noteq> cur"
  shows "zombie (exited u p x c s) cur r t n"
proof (rule zombie_frame[OF z])
  have "r \<notin> set (child_list p)"
    using owns_list[OF p(1)] procs_wfD(5)[OF wf, of cur r t] z \<open>u \<noteq> cur\<close> by (auto simp: zombie_def)
  moreover have "r \<noteq> x" using zombie_unused[OF wf z] uses_self[OF p] by auto
  ultimately show "childs (exited u p x c s) r = childs s r" by (simp add: exited_def)
qed (use \<open>u \<noteq> cur\<close> in \<open>simp_all add: exited_def\<close>)

lemma zombie_event:
  assumes wf: "procs_wf s" and z: "zombie s cur r t n" and en: "enabled e s" and ord: "orderly e s"
    and run: "run_event e s = Some s'" and e: "e \<noteq> Wait cur t" "\<forall>m. e \<noteq> Exit cur m" "e \<noteq> Kill cur"
  shows "zombie s' cur r t n"
proof -
  note D = procs_wfD[OF wf]
  have own: "owns s cur r t" using z by (simp add: zombie_def)
  obtain c where c: "childs s r = Some c" "terminated c > 0" "c_status c = n" using z by (auto simp: zombie_def)
  show ?thesis
  proof (cases e)
    case (Execute a name page junk created)
    then have "page \<noteq> Some r" using en c by auto
    have a: "leashes s a = None" using en Execute may_actD by fastforce
    have cur: "cur \<noteq> next_tid s" using own D(2)[of cur] D(3)[of cur] unfolding owns_def by (force simp: leash_ok_def proc_ok_def)
    have nr: "r \<noteq> x" if "page = Some x" for x using en c Execute that by auto
    show ?thesis
    proof (cases "name = None \<or> page = None \<or> \<not> created")
      case True
      have "childs s' r = childs s r" "leashes s' = leashes s" "uprocs s' = uprocs s"
        using True run Execute nr
        by (cases name; cases page; auto simp: execute_begin_def free_child_def Let_def)+
      then show ?thesis by (intro zombie_frame[OF z]) simp_all
    next
      case False
      then obtain nm x where x: "name = Some nm" "page = Some x" by auto
      have s': "childs s' r = childs s r" "uprocs s' cur = uprocs s cur" "\<And>b. b \<noteq> a \<Longrightarrow> leashes s' b = leashes s b"
          "\<And>l. leashes s' a = Some l \<Longrightarrow> l_child l = x"
        using False run Execute x nr cur D(1) by (auto simp: execute_begin_def Let_def put_leash_def put_proc_def)
      show ?thesis using z a nr[OF x(2)] s' unfolding zombie_def owns_alt by (cases "cur = a") auto
    qed
  next
    case (Report u loaded exe pd)
    obtain p a l where p: "uprocs s u = Some p" "phase p = Starting a" "leashes s a = Some l" "success_set l = 0" "leashes s u = None"
      using en Report D(2) by (fastforce simp: proc_ok_def split: option.splits phase.splits)
    have nr: "a = cur \<longrightarrow> l_child l \<noteq> r" using z p by (auto simp: zombie_def)
    have s': "childs s' r = childs s r" "\<And>b. b \<noteq> a \<Longrightarrow> leashes s' b = leashes s b"
        "\<And>l'. leashes s' a = Some l' \<Longrightarrow> l_child l' = l_child l"
        "\<And>q. uprocs s cur = Some q \<Longrightarrow> \<exists>q'. uprocs s' cur = Some q' \<and> child_list q' = child_list q"
      using run Report p by (auto simp: start_report_def put_leash_def put_proc_def child_list_def)
    show ?thesis
    proof (cases "a = cur")
      case False
      then show ?thesis using s' by (intro zombie_frame[OF z]) auto
    next
      case True
      obtain q where q: "uprocs s cur = Some q" "r \<in> set (child_list q)" "c_tid c = t"
        using own nr p(3) c True unfolding owns_alt by auto
      obtain q' where "uprocs s' cur = Some q'" "child_list q' = child_list q" using s'(4)[OF q(1)] by blast
      then have "owns s' cur r t" using owns_list[of s' cur q' r c] q s'(1) c by simp
      then show ?thesis using s'(1,3) nr c True unfolding zombie_def by auto
    qed
  next
    case (Continue u)
    obtain p a l where p: "uprocs s u = Some p" "phase p = Reported a" "leashes s a = Some l" "self p = Some (l_child l)" "leashes s u = None" "children p = None"
      using en Continue D(2) by (fastforce simp: proc_ok_def split: option.splits phase.splits)
    have none: "child_list p = []" using p by (simp add: child_list_def)
    have "u \<noteq> cur" using own p none unfolding owns_alt by auto
    show ?thesis
    proof (cases "success l")
      case True
      then have "s' = put_proc u (p\<lparr>open_list := [], phase := Running\<rparr>) s" using run Continue p by (simp add: start_continue_def)
      then show ?thesis using \<open>u \<noteq> cur\<close> by (intro zombie_frame[OF z]) (simp_all add: put_proc_def)
    next
      case False
      obtain d where "thread_exit u s = Some (exited u p (l_child l) d s)"
        using exit_step[OF wf p(1,4,5)] p(2) none by (metis empty_iff list.set(1) phase.distinct(1))
      then have "s' = exited u p (l_child l) d s" using run Continue p False by (simp add: start_continue_def)
      then show ?thesis using zombie_exited[OF wf z p(1,4) \<open>u \<noteq> cur\<close>] by simp
    qed
  next
    case (Return a)
    obtain l where l: "leashes s a = Some l" "success_set l > 0" using en Return by (auto split: option.splits)
    obtain p d where p: "uprocs s a = Some p" "l_child l \<notin> set (child_list p)" "childs s (l_child l) = Some d"
      and "execute_end a s = Some (if success l then l_tid l else TID_ERROR, returned a p l d s)"
      using execute_end_eq[OF wf l(1)] by metis
    then have s': "s' = returned a p l d s" using run Return by simp
    have other: "l_child l \<noteq> r" if "a \<noteq> cur" using D(5)[OF own] owns_leash[OF l(1)] that by metis
    show ?thesis
    proof (cases "a = cur")
      case False
      then show ?thesis using s' other p by (intro zombie_frame[OF z]) (auto simp: returned_def)
    next
      case True
      show ?thesis
      proof (cases "l_child l = r")
        case True
        have "d = c" using True p(3) c by simp
        have "success l" using z l(1) \<open>a = cur\<close> True unfolding zombie_def by simp
        have "l_tid l = t" using D(5)[OF own] owns_leash[OF l(1)] True by metis
        then have "owns s' cur r t" using s' \<open>a = cur\<close> True \<open>success l\<close> by (intro owns_alt[THEN iffD2] disjI1) (simp add: returned_def)
        then show ?thesis using s' \<open>a = cur\<close> True c \<open>d = c\<close> \<open>success l\<close> unfolding zombie_def by (simp add: returned_def)
      next
        case False
        then have "r \<in> set (child_list p)" "c_tid c = t" using own \<open>a = cur\<close> l p(1) c unfolding owns_alt by auto
        then have "owns s' cur r t" using s' \<open>a = cur\<close> False c p by (intro owns_alt[THEN iffD2] disjI1) (auto simp: returned_def)
        then show ?thesis using s' \<open>a = cur\<close> False c unfolding zombie_def by (simp add: returned_def)
      qed
    qed
  next
    case (Wait a u)
    obtain p where p: "uprocs s a = Some p" using en Wait may_actD by fastforce
    show ?thesis
    proof (cases "\<exists>x d. x \<in> set (child_list p) \<and> childs s x = Some d \<and> c_tid d = u")
      case False
      then show ?thesis using wait_no_child[OF wf p, of u] run Wait z by auto
    next
      case True
      then obtain x d where x: "x \<in> set (child_list p)" "childs s x = Some d" "c_tid d = u" by blast
      have nr: "x \<noteq> r" using D(5)[OF own, of a u] owns_list[OF p x(1,2)] x(3) Wait e(1) by auto
      have "s' = s \<or> s' = reaped a p x s" using wait_child[OF wf p x] run Wait by (auto split: if_splits)
      then show ?thesis
      proof
        assume "s' = reaped a p x s"
        then show ?thesis using p nr by (intro zombie_frame[OF z]) (auto simp: reaped_def)
      qed (use z in simp)
    qed
  next
    case (Exit u m)
    obtain p x a d s1 where x: "uprocs s u = Some p" "self p = Some x" "childs s x = Some d"
        "s1 = s\<lparr>childs := (childs s)(x \<mapsto> d\<lparr>c_status := m\<rparr>)\<rparr>"
        "run_event (Exit u m) s = Some (exited u p x (d\<lparr>c_status := m\<rparr>) s1)"
      using exit_event[OF wf, of u m] en ord Exit by metis
    have "r \<noteq> x" using zombie_unused[OF wf z] uses_self[OF x(1,2)] by auto
    then have "zombie s1 cur r t n" using x(4) by (intro zombie_frame[OF z]) simp_all
    then have "zombie (exited u p x (d\<lparr>c_status := m\<rparr>) s1) cur r t n"
      using zombie_exited[of s1 cur r t n u p x] set_status(1)[OF wf x(3), of m] x e(2) Exit by auto
    then show ?thesis using run Exit x(5) by simp
  next
    case (Kill u)
    obtain p where p: "uprocs s u = Some p" "phase p = Running" "leashes s u = None" "usr_thread p" using en Kill may_actD by fastforce
    obtain x where x: "self p = Some x" using proc_okD(2)[OF wf p(1)] p(4) by auto
    obtain d where "thread_exit u s = Some (exited u p x d s)"
      using exit_step[OF wf p(1) x p(3)] p(2) ord Kill by (metis orderly.simps(3) phase.distinct(3))
    then show ?thesis using run Kill zombie_exited[OF wf z p(1) x, of d] e(3) by auto
  qed
qed

section \<open>Runs\<close>

text \<open>A run of the processes from \<open>s\<close> on, with only the events that \<open>allowed\<close> has.\<close>

inductive proc_run :: "(event \<Rightarrow> bool) \<Rightarrow> procs \<Rightarrow> procs \<Rightarrow> bool" for allowed s where
  run_start: "proc_run allowed s s"
| run_step: "proc_run allowed s s' \<Longrightarrow> allowed e \<Longrightarrow> enabled e s' \<Longrightarrow> orderly e s' \<Longrightarrow> run_event e s' = Some s'' \<Longrightarrow>
    proc_run allowed s s''"

text \<open>The kernel after booting: its first thread, which is not a user process, and no other.\<close>

definition boot :: procs where
  "boot = \<lparr>uprocs = [1 \<mapsto> \<lparr>children = None, self = None, usr_thread = False, open_list = [], executing = None,
      own_pagedir = False, phase = Running\<rparr>],
    childs = Map.empty, leashes = Map.empty, name_pages = {}, files_closed = [], next_tid = 2\<rparr>"

lemma boot_wf: "procs_wf boot"
  by (auto simp: procs_wf_def boot_def owns_def uses_def proc_ok_def split: if_splits)

lemma run_wf: "proc_run allowed s s' \<Longrightarrow> procs_wf s \<Longrightarrow> procs_wf s'"
  by (induction rule: proc_run.induct) (use event_step in fastforce)+

lemma run_zombie:
  assumes "proc_run (\<lambda>e. e \<noteq> Wait cur t \<and> (\<forall>m. e \<noteq> Exit cur m) \<and> e \<noteq> Kill cur) s s'" "procs_wf s" "zombie s cur r t n"
  shows "zombie s' cur r t n"
  using assms
proof (induction rule: proc_run.induct)
  case (run_step s' e s'')
  then have "procs_wf s'" using run_wf by blast
  then show ?case using run_step zombie_event by blast
qed simp

lemma exit_zombie:
  assumes wf: "procs_wf s" and own: "owns s cur r t" and en: "enabled (Exit t n) s" and ord: "orderly (Exit t n) s"
  shows "\<exists>s'. run_event (Exit t n) s = Some s' \<and> procs_wf s' \<and> zombie s' cur r t n"
proof -
  note D = procs_wfD[OF wf]
  have t: "cur < t" using D(4)[OF own] by simp
  obtain p x a c s1 where x: "uprocs s t = Some p" "self p = Some x" "owns s a x t" "childs s x = Some c"
      "s1 = s\<lparr>childs := (childs s)(x \<mapsto> c\<lparr>c_status := n\<rparr>)\<rparr>" "x \<notin> set (child_list p)"
      "run_event (Exit t n) s = Some (exited t p x (c\<lparr>c_status := n\<rparr>) s1)" "procs_wf (exited t p x (c\<lparr>c_status := n\<rparr>) s1)"
    using exit_event[OF wf en ord] by metis
  let ?s = "exited t p x (c\<lparr>c_status := n\<rparr>) s1"
  have "x = r" using D(6)[OF own x(3)] by simp
  have run: "phase p = Running" using en x(1) may_actD by fastforce
  have "success l \<and> success_set l = 1" if "leashes s cur = Some l" "l_child l = r" for l
  proof -
    have "l_tid l = t" using D(5)[OF own] owns_leash[OF that(1)] that(2) by metis
    then show ?thesis using D(3)[OF that(1)] x(1) run by (cases "success_set l = 0") (auto simp: leash_ok_def)
  qed
  moreover have "owns ?s cur r t"
    using own x(4,6) t \<open>x = r\<close> unfolding owns_alt x(5) by (auto simp: exited_def)
  ultimately have "zombie ?s cur r t n" using x(6) \<open>x = r\<close> unfolding zombie_def x(5) by (simp add: exited_def)
  then show ?thesis using x(7,8) by blast
qed

lemma zombie_wait:
  assumes wf: "procs_wf s" and z: "zombie s cur r t n" and act: "may_act cur s"
  shows "\<exists>s'. process_wait cur t s = Some (Result n s') \<and> process_wait cur t s' = Some (Result (- 1) s') \<and> childs s' r = None"
proof -
  obtain c where c: "childs s r = Some c" "terminated c > 0" "c_status c = n" using z by (auto simp: zombie_def)
  obtain p where p: "uprocs s cur = Some p" "r \<in> set (child_list p)" "c_tid c = t"
    using z act c(1) may_actD[OF act] unfolding zombie_def owns_alt by auto
  let ?s = "reaped cur p r s"
  have ps: "uprocs ?s cur = Some (p\<lparr>children := Some (remove1 r (child_list p))\<rparr>)" by (simp add: reaped_def)
  have "process_wait cur t ?s = Some (Result (- 1) ?s)"
  proof (rule wait_no_child[OF reaped_wf(1)[OF wf p(1,2) c(1,2)] ps])
    fix x d assume x: "x \<in> set (child_list (p\<lparr>children := Some (remove1 r (child_list p))\<rparr>))" "childs ?s x = Some d"
    have "owns s cur x (c_tid d) \<and> x \<noteq> r"
      using owns_list[OF ps x] reaped_wf(2)[OF wf p(1,2) c(1,2)] by blast
    then show "c_tid d \<noteq> t" using procs_wfD(6)[OF wf, of cur x t cur r] z by (auto simp: zombie_def)
  qed
  then show ?thesis using wait_child[OF wf p(1,2) c(1) p(3)] c by (simp add: reaped_def)
qed

lemma wait_blocks:
  assumes wf: "procs_wf s" and own: "owns s cur r t" and use: "uses s t r" and act: "may_act cur s"
  shows "process_wait cur t s = Some Blocks"
proof -
  obtain c where c: "childs s r = Some c" "terminated c = 0" using procs_wfD(7)[OF wf use] by auto
  obtain p where "uprocs s cur = Some p" "r \<in> set (child_list p)" "c_tid c = t"
    using own act c(1) may_actD[OF act] unfolding owns_alt by auto
  then show ?thesis using wait_child[OF wf _ _ c(1)] c by simp
qed

section \<open>A run\<close>

text \<open>The first thread starts process 2, which starts process 3.\<close>

definition mk_proc :: "nat list option \<Rightarrow> nat option \<Rightarrow> phase \<Rightarrow> uproc" where
  "mk_proc cs slf ph = \<lparr>children = cs, self = slf, usr_thread = (slf \<noteq> None), open_list = [], executing = None,
     own_pagedir = False, phase = ph\<rparr>"

definition demo1 :: procs where
  "demo1 = \<lparr>uprocs = [1 \<mapsto> mk_proc None None Running, 2 \<mapsto> mk_proc None None (Starting 1)],
    childs = [20 \<mapsto> \<lparr>c_tid = 0, c_status = - 1, terminated = 0\<rparr>], leashes = [1 \<mapsto> \<lparr>success_set = 0, success = False, l_file_name = 10, l_child = 20, l_tid = 2\<rparr>], name_pages = {10}, files_closed = [], next_tid = 3\<rparr>"

definition demo2 :: procs where
  "demo2 = \<lparr>uprocs = [1 \<mapsto> mk_proc None None Running, 2 \<mapsto> mk_proc None (Some 20) (Reported 1)],
    childs = [20 \<mapsto> \<lparr>c_tid = 0, c_status = - 1, terminated = 0\<rparr>], leashes = [1 \<mapsto> \<lparr>success_set = 1, success = True, l_file_name = 10, l_child = 20, l_tid = 2\<rparr>], name_pages = {}, files_closed = [], next_tid = 3\<rparr>"

definition demo2f :: procs where
  "demo2f = \<lparr>uprocs = [1 \<mapsto> mk_proc None None Running, 2 \<mapsto> mk_proc None (Some 20) (Reported 1)],
    childs = [20 \<mapsto> \<lparr>c_tid = 0, c_status = - 1, terminated = 0\<rparr>], leashes = [1 \<mapsto> \<lparr>success_set = 1, success = False, l_file_name = 10, l_child = 20, l_tid = 2\<rparr>], name_pages = {}, files_closed = [], next_tid = 3\<rparr>"

definition demo3 :: procs where
  "demo3 = \<lparr>uprocs = [1 \<mapsto> mk_proc None None Running, 2 \<mapsto> mk_proc None (Some 20) Running],
    childs = [20 \<mapsto> \<lparr>c_tid = 0, c_status = - 1, terminated = 0\<rparr>], leashes = [1 \<mapsto> \<lparr>success_set = 1, success = True, l_file_name = 10, l_child = 20, l_tid = 2\<rparr>], name_pages = {}, files_closed = [], next_tid = 3\<rparr>"

definition demo4 :: procs where
  "demo4 = \<lparr>uprocs = [1 \<mapsto> mk_proc (Some [20]) None Running, 2 \<mapsto> mk_proc None (Some 20) Running],
    childs = [20 \<mapsto> \<lparr>c_tid = 2, c_status = - 1, terminated = 0\<rparr>], leashes = Map.empty, name_pages = {}, files_closed = [], next_tid = 3\<rparr>"

definition demo5 :: procs where
  "demo5 = \<lparr>uprocs = [1 \<mapsto> mk_proc (Some [20]) None Running, 2 \<mapsto> mk_proc None (Some 20) Running, 3 \<mapsto> mk_proc None None (Starting 2)],
    childs = [20 \<mapsto> \<lparr>c_tid = 2, c_status = - 1, terminated = 0\<rparr>, 21 \<mapsto> \<lparr>c_tid = 0, c_status = - 1, terminated = 0\<rparr>], leashes = [2 \<mapsto> \<lparr>success_set = 0, success = False, l_file_name = 11, l_child = 21, l_tid = 3\<rparr>], name_pages = {11}, files_closed = [], next_tid = 4\<rparr>"

definition demo6 :: procs where
  "demo6 = \<lparr>uprocs = [1 \<mapsto> mk_proc (Some [20]) None Running, 2 \<mapsto> mk_proc None (Some 20) Running, 3 \<mapsto> mk_proc None (Some 21) (Reported 2)],
    childs = [20 \<mapsto> \<lparr>c_tid = 2, c_status = - 1, terminated = 0\<rparr>, 21 \<mapsto> \<lparr>c_tid = 0, c_status = - 1, terminated = 0\<rparr>], leashes = [2 \<mapsto> \<lparr>success_set = 1, success = True, l_file_name = 11, l_child = 21, l_tid = 3\<rparr>], name_pages = {}, files_closed = [], next_tid = 4\<rparr>"

definition demo7 :: procs where
  "demo7 = \<lparr>uprocs = [1 \<mapsto> mk_proc (Some [20]) None Running, 2 \<mapsto> mk_proc None (Some 20) Running, 3 \<mapsto> mk_proc None (Some 21) Running],
    childs = [20 \<mapsto> \<lparr>c_tid = 2, c_status = - 1, terminated = 0\<rparr>, 21 \<mapsto> \<lparr>c_tid = 0, c_status = - 1, terminated = 0\<rparr>], leashes = [2 \<mapsto> \<lparr>success_set = 1, success = True, l_file_name = 11, l_child = 21, l_tid = 3\<rparr>], name_pages = {}, files_closed = [], next_tid = 4\<rparr>"

definition demo8 :: procs where
  "demo8 = \<lparr>uprocs = [1 \<mapsto> mk_proc (Some [20]) None Running, 2 \<mapsto> mk_proc (Some [21]) (Some 20) Running, 3 \<mapsto> mk_proc None (Some 21) Running],
    childs = [20 \<mapsto> \<lparr>c_tid = 2, c_status = - 1, terminated = 0\<rparr>, 21 \<mapsto> \<lparr>c_tid = 3, c_status = - 1, terminated = 0\<rparr>], leashes = Map.empty, name_pages = {}, files_closed = [], next_tid = 4\<rparr>"

lemmas demo_defs = demo1_def demo2_def demo2f_def demo3_def demo4_def demo5_def demo6_def demo7_def demo8_def boot_def mk_proc_def

lemmas event_defs = execute_begin_def start_report_def start_continue_def execute_end_def put_proc_def put_leash_def
  new_proc_def free_child_def set_child_def may_act_def Let_def

lemma demo_run:
  "proc_run (\<lambda>_. True) boot demo2f" "proc_run (\<lambda>_. True) boot demo3" "proc_run (\<lambda>_. True) boot demo4" "proc_run (\<lambda>_. True) boot demo8"
proof -
  let ?run = "proc_run (\<lambda>_. True) boot"
  have 1: "?run demo1"
    by (rule run_step[OF run_start, of _ "Execute 1 (Some 10) (Some 20) 0 True"]) (simp_all add: demo_defs event_defs fun_eq_iff)
  show "?run demo2f" by (rule run_step[OF 1, of "Report 2 False None False"]) (simp_all add: demo_defs event_defs fun_eq_iff)
  have 2: "?run demo2" by (rule run_step[OF 1, of "Report 2 True None False"]) (simp_all add: demo_defs event_defs fun_eq_iff)
  show 3: "?run demo3" by (rule run_step[OF 2, of "Continue 2"]) (simp_all add: demo_defs event_defs fun_eq_iff)
  show 4: "?run demo4" by (rule run_step[OF 3, of "Return 1"]) (simp_all add: demo_defs event_defs fun_eq_iff)
  have 5: "?run demo5"
    by (rule run_step[OF 4, of "Execute 2 (Some 11) (Some 21) 0 True"]) (simp_all add: demo_defs event_defs fun_eq_iff)
  have 6: "?run demo6" by (rule run_step[OF 5, of "Report 3 True None False"]) (simp_all add: demo_defs event_defs fun_eq_iff)
  have 7: "?run demo7" by (rule run_step[OF 6, of "Continue 3"]) (simp_all add: demo_defs event_defs fun_eq_iff)
  show "?run demo8" by (rule run_step[OF 7, of "Return 2"]) (simp_all add: demo_defs event_defs fun_eq_iff)
qed

lemma processes_safe_spec:
  assumes "proc_run (\<lambda>_. True) boot s" "enabled e s" "orderly e s"
  shows "\<exists>s'. run_event e s = Some s'" and "\<And>t r. uses s t r \<Longrightarrow> \<exists>c. childs s r = Some c"
    and "\<And>t r t'. uses s t r \<Longrightarrow> uses s t' r \<Longrightarrow> t = t'" and "\<And>a r t a' t'. owns s a r t \<Longrightarrow> owns s a' r t' \<Longrightarrow> a = a' \<and> t = t'"
proof -
  have wf: "procs_wf s" using run_wf[OF assms(1) boot_wf] .
  show "\<exists>s'. run_event e s = Some s'" using event_step[OF wf assms(2,3)] by blast
  show "\<And>t r. uses s t r \<Longrightarrow> \<exists>c. childs s r = Some c" using procs_wfD(7)[OF wf] by blast
  show "\<And>t r t'. uses s t r \<Longrightarrow> uses s t' r \<Longrightarrow> t = t'" using uses_one[OF wf] .
  show "\<And>a r t a' t'. owns s a r t \<Longrightarrow> owns s a' r t' \<Longrightarrow> a = a' \<and> t = t'" using procs_wfD(5)[OF wf] .
qed

text \<open>
  C25 (safety): in orderly runs processes never use freed memory. In every state that processes reach from boot by
  starting others, waiting, exiting and being killed, in any order in which no \<open>process_execute\<close> returns between a
  report and the first instruction of the new program and no process exits before its children, every next call runs through;
  every page with a status that a process will still use is allocated, and has one process and one parent.
\<close>

theorem processes_safe:
  assumes "proc_run (\<lambda>_. True) boot s" "enabled e s" "orderly e s"
  shows "(\<exists>s'. run_event e s = Some s') \<and> (\<forall>t r. uses s t r \<longrightarrow> (\<exists>c. childs s r = Some c)) \<and>
    (\<forall>t r t'. uses s t r \<and> uses s t' r \<longrightarrow> t = t') \<and> (\<forall>a r t a' t'. owns s a r t \<and> owns s a' r t' \<longrightarrow> a = a' \<and> t = t')"
  using processes_safe_spec[OF assms] by blast

theorem processes_safe_witness:
  "\<exists>s'. run_event (Exit 3 7) demo8 = Some s'"
  using processes_safe[OF demo_run(4), of "Exit 3 7"]
  by (simp add: demo_defs may_act_def owns_def)

lemma process_wait_status_spec:
  assumes "proc_run (\<lambda>_. True) boot s" "owns s cur r t" "enabled (Exit t n) s" "orderly (Exit t n) s"
  shows "may_act cur s \<Longrightarrow> process_wait cur t s = Some Blocks"
    and "\<exists>s1. run_event (Exit t n) s = Some s1 \<and>
      (\<forall>s2. proc_run (\<lambda>e. e \<noteq> Wait cur t \<and> (\<forall>m. e \<noteq> Exit cur m) \<and> e \<noteq> Kill cur) s1 s2 \<and> may_act cur s2 \<longrightarrow>
        (\<exists>s3. process_wait cur t s2 = Some (Result n s3) \<and> process_wait cur t s3 = Some (Result (- 1) s3) \<and> childs s3 r = None))"
proof -
  have wf: "procs_wf s" using run_wf[OF assms(1) boot_wf] .
  obtain p x a where x: "uprocs s t = Some p" "self p = Some x" "owns s a x t"
    using exit_event[OF wf assms(3,4)] by metis
  have "x = r" using procs_wfD(6)[OF wf assms(2) x(3)] by simp
  then show "may_act cur s \<Longrightarrow> process_wait cur t s = Some Blocks"
    using wait_blocks[OF wf assms(2)] uses_self[OF x(1,2)] by simp
  obtain s1 where s1: "run_event (Exit t n) s = Some s1" "procs_wf s1" "zombie s1 cur r t n"
    using exit_zombie[OF wf assms(2-4)] by blast
  show "\<exists>s1. run_event (Exit t n) s = Some s1 \<and>
      (\<forall>s2. proc_run (\<lambda>e. e \<noteq> Wait cur t \<and> (\<forall>m. e \<noteq> Exit cur m) \<and> e \<noteq> Kill cur) s1 s2 \<and> may_act cur s2 \<longrightarrow>
        (\<exists>s3. process_wait cur t s2 = Some (Result n s3) \<and> process_wait cur t s3 = Some (Result (- 1) s3) \<and> childs s3 r = None))"
    using s1 zombie_wait run_wf run_zombie by blast
qed

text \<open>
  C24 (functional): in orderly runs (where no process exits while one of its children still runs, and no call to \<open>exec\<close> returns before the
  child is done with its leash) waiting gives every exit status exactly once. While a child runs, \<open>process_wait\<close> of its parent blocks.
  When it has exited, whatever other processes and the parent do then, the first \<open>process_wait\<close> for it returns its
  status and frees the page they shared, and from then on waiting for it returns -1 at once.
\<close>

theorem process_wait_status:
  assumes "proc_run (\<lambda>_. True) boot s" "owns s cur r t" "enabled (Exit t n) s" "orderly (Exit t n) s"
  shows "(may_act cur s \<longrightarrow> process_wait cur t s = Some Blocks) \<and>
    (\<exists>s1. run_event (Exit t n) s = Some s1 \<and>
      (\<forall>s2. proc_run (\<lambda>e. e \<noteq> Wait cur t \<and> (\<forall>m. e \<noteq> Exit cur m) \<and> e \<noteq> Kill cur) s1 s2 \<and> may_act cur s2 \<longrightarrow>
        (\<exists>s3. process_wait cur t s2 = Some (Result n s3) \<and> process_wait cur t s3 = Some (Result (- 1) s3) \<and> childs s3 r = None)))"
  using process_wait_status_spec[OF assms] by blast

theorem process_wait_status_witness:
  "process_wait 1 2 demo4 = Some Blocks \<and>
   (\<exists>s1 s3. run_event (Exit 2 7) demo4 = Some s1 \<and> process_wait 1 2 s1 = Some (Result 7 s3) \<and> process_wait 1 2 s3 = Some (Result (- 1) s3))"
proof -
  have pre: "owns demo4 1 20 2" "enabled (Exit 2 7) demo4" "orderly (Exit 2 7) demo4" "may_act 1 demo4"
    by (simp_all add: demo_defs owns_def may_act_def)
  note P = process_wait_status[OF demo_run(3) pre(1-3)]
  have blocks: "process_wait 1 2 demo4 = Some Blocks" using P pre(4) by blast
  from P obtain s1 where s1: "run_event (Exit 2 7) demo4 = Some s1"
    "\<forall>s2. proc_run (\<lambda>e. e \<noteq> Wait 1 2 \<and> (\<forall>m. e \<noteq> Exit 1 m) \<and> e \<noteq> Kill 1) s1 s2 \<and> may_act 1 s2 \<longrightarrow>
        (\<exists>s3. process_wait 1 2 s2 = Some (Result 7 s3) \<and> process_wait 1 2 s3 = Some (Result (- 1) s3) \<and> childs s3 20 = None)"
    by blast
  have "may_act 1 s1"
    using s1(1) by (auto simp: demo_defs may_act_def sys_exit_process_def thread_exit_def process_exit_def set_child_def put_proc_def)
  then show ?thesis using blocks s1 run_start by blast
qed

lemma orphan_spec:
  assumes run: "proc_run (\<lambda>_. True) boot s" and own: "owns s cur r t"
    and en: "enabled (Exit cur n) s" "enabled (Exit t m) s"
  shows "\<exists>s1. run_event (Exit cur n) s = Some s1 \<and> run_event (Exit t m) s1 = None \<and> run_event (Kill t) s1 = None"
proof -
  have wf: "procs_wf s" using run_wf[OF run boot_wf] .
  note D = procs_wfD[OF wf]
  have lt: "cur < t" using D(4)[OF own] by simp
  obtain p where p: "uprocs s cur = Some p" "leashes s cur = None" "usr_thread p" using en(1) may_actD by fastforce
  obtain q where q: "uprocs s t = Some q" "usr_thread q" using en(2) may_actD by fastforce
  obtain x y where x: "self p = Some x" and y: "self q = Some y"
    using proc_okD(2)[OF wf] p q by fastforce
  obtain a c where a: "owns s a x cur" "childs s x = Some c" using D(7)[OF uses_self[OF p(1) x]] by blast
  obtain b where b: "owns s b y t" using D(7)[OF uses_self[OF q(1) y]] by blast
  have "y = r" using D(6)[OF own b] by simp
  have r: "r \<in> set (child_list p)" using own p(1,2) unfolding owns_alt by auto
  have x': "x \<notin> set (child_list p)" using owns_list[OF p(1) _ a(2)] D(5)[OF a(1)] D(4)[OF a(1)] by fastforce
  let ?s = "s\<lparr>childs := (childs s)(x \<mapsto> c\<lparr>c_status := n\<rparr>)\<rparr>"
  let ?s1 = "exited cur p x (c\<lparr>c_status := n\<rparr>) ?s"
  have "thread_exit cur ?s = Some ?s1"
    using p x x' proc_okD[OF wf p(1)] by (intro thread_exit_eq) auto
  then have "run_event (Exit cur n) s = Some ?s1" using p x a by (simp add: sys_exit_process_def set_child_def)
  moreover have "uprocs ?s1 t = Some q" "childs ?s1 r = None" using q lt r by (auto simp: exited_def)
  then have "run_event (Exit t m) ?s1 = None" "run_event (Kill t) ?s1 = None"
    using y \<open>y = r\<close> by (simp_all add: sys_exit_process_def thread_exit_def process_exit_def set_child_def)
  ultimately show ?thesis by blast
qed

text \<open>
  A process must not outlive its parent. When a process exits it frees the pages of all its
  children; a child that still runs then uses its freed page as soon as it exits or is killed.
\<close>

theorem orphan_exit_faults:
  assumes "proc_run (\<lambda>_. True) boot s" "owns s cur r t" "enabled (Exit cur n) s" "enabled (Exit t m) s"
  shows "\<exists>s1. run_event (Exit cur n) s = Some s1 \<and> run_event (Exit t m) s1 = None \<and> run_event (Kill t) s1 = None"
  by (rule orphan_spec[OF assms])

theorem orphan_exit_faults_witness:
  "\<exists>s1. run_event (Exit 2 0) demo8 = Some s1 \<and> run_event (Exit 3 5) s1 = None \<and> run_event (Kill 3) s1 = None"
  using orphan_exit_faults[OF demo_run(4), of 2 21 3 0 5] by (simp add: demo_defs owns_def may_act_def)

lemma return_race_spec:
  assumes run: "proc_run (\<lambda>_. True) boot s" and p: "uprocs s t = Some p" "phase p = Reported cur"
  shows "\<exists>l s1. leashes s cur = Some l \<and> run_event (Return cur) s = Some s1 \<and> run_event (Continue t) s1 = None \<and>
    (success l \<or> thread_exit t s1 = None)"
proof -
  have wf: "procs_wf s" using run_wf[OF run boot_wf] .
  obtain l where l: "leashes s cur = Some l" "self p = Some (l_child l)" "leashes s t = None"
    using procs_wfD(2)[OF wf p(1)] p(2) by (auto simp: proc_ok_def)
  obtain q c where q: "uprocs s cur = Some q" "phase q = Running"
      "execute_end cur s = Some (if success l then l_tid l else TID_ERROR, returned cur q l c s)"
    using execute_end_eq[OF wf l(1)] by metis
  have "t \<noteq> cur" using p q by auto
  then have "uprocs (returned cur q l c s) t = Some p" "leashes (returned cur q l c s) cur = None"
    using p by (simp_all add: returned_def)
  note left = this
  have "start_continue t (returned cur q l c s) = None" using left p by (simp add: start_continue_def)
  moreover have "success l \<or> thread_exit t (returned cur q l c s) = None"
  proof (cases "success l")
    case False
    then have "childs (returned cur q l c s) (l_child l) = None" by (simp add: returned_def)
    then show ?thesis using left l by (simp add: thread_exit_def process_exit_def)
  qed simp
  ultimately show ?thesis using l q by simp
qed

text \<open>
  \<open>start_process\<close> reports too early. If \<open>process_execute\<close> returns as soon as the report is in, the
  new thread reads the leash, which is gone with the stack frame of its parent; and if the program could not be loaded, the
  parent has freed the page whose status the new thread prints when it exits.
\<close>

theorem execute_return_race:
  assumes "proc_run (\<lambda>_. True) boot s" "uprocs s t = Some p" "phase p = Reported cur"
  shows "\<exists>l s1. leashes s cur = Some l \<and> run_event (Return cur) s = Some s1 \<and> run_event (Continue t) s1 = None \<and>
    (success l \<or> thread_exit t s1 = None)"
  by (rule return_race_spec[OF assms])

theorem execute_return_race_witness:
  "\<exists>s1. run_event (Return 1) demo2f = Some s1 \<and> run_event (Continue 2) s1 = None \<and> thread_exit 2 s1 = None"
  using execute_return_race[OF demo_run(1), of 2 "mk_proc None (Some 20) (Reported 1)" 1]
  by (auto simp: demo2f_def mk_proc_def)

end
