(* ===== verification/Round_Robin.thy ===== *)
theory Round_Robin
  imports Kernel_Prelude
begin

text \<open>
  The round-robin scheduler of the kernel with user programs, \<open>virtual-memory/threads/thread.c\<close>:
  thread states, the ready list as a queue, time slices, context switches with the page directory of each
  thread, creation and exit. \<open>user-programs/threads/thread.c\<close> is the same code; the two files differ in a comment only.

  As in \<open>Scheduler\<close>, thread pointers are natural numbers, \<open>threads\<close> maps the pages that hold
  a thread, \<open>running\<close> is the thread whose stack the CPU uses, a context switch returns in the thread that
  runs next, and \<open>saved_intr\<close> is the interrupt level that a thread sets when it continues after \<open>schedule\<close>.
  \<open>None\<close> is a failed assertion or an access through an invalid pointer.
\<close>

section \<open>State\<close>

datatype thread_status = THREAD_RUNNING | THREAD_READY | THREAD_BLOCKED | THREAD_DYING

text \<open>
  \<open>pagedir\<close> is the page directory of a process and \<open>self\<close> the page its parent waits on, both \<open>None\<close> for a kernel thread.
\<close>

record thread =
  tid :: int
  status :: thread_status
  t_name :: string
  t_stack :: int
  t_entry :: "(nat \<times> nat) option"
  priority :: int
  pagedir :: "nat option"
  children_init :: bool
  usr_thread :: bool
  self :: "nat option"
  magic :: u32
  saved_intr :: bool

text \<open>\<open>active_pagedir\<close> is the directory the CPU uses, \<open>None\<close> for the one with the kernel only.\<close>

record sched =
  threads :: "nat \<rightharpoonup> thread"
  ready_list :: "nat list"
  all_list :: "nat list"
  idle_thread :: "nat option"
  initial_thread :: nat
  running :: nat
  intr_on :: bool
  in_intr :: bool
  yield_on_return :: bool
  next_tid :: int
  idle_ticks :: int
  kernel_ticks :: int
  user_ticks :: int
  thread_ticks :: u32
  active_pagedir :: "nat option"

abbreviation THREAD_MAGIC :: u32 where "THREAD_MAGIC \<equiv> 0xcd6abf4b"
abbreviation PRI_MIN :: int where "PRI_MIN \<equiv> 0"
abbreviation PRI_DEFAULT :: int where "PRI_DEFAULT \<equiv> 31"
abbreviation PRI_MAX :: int where "PRI_MAX \<equiv> 63"
abbreviation TIME_SLICE :: u32 where "TIME_SLICE \<equiv> 4"
abbreviation TID_ERROR :: int where "TID_ERROR \<equiv> - 1"

definition put_thread :: "nat \<Rightarrow> thread \<Rightarrow> sched \<Rightarrow> sched" where
  "put_thread p t s = s\<lparr>threads := (threads s)(p \<mapsto> t)\<rparr>"

definition is_thread :: "sched \<Rightarrow> nat option \<Rightarrow> bool" where
  "is_thread s p = (case p of None \<Rightarrow> False | Some q \<Rightarrow> (case threads s q of None \<Rightarrow> False | Some t \<Rightarrow> magic t = THREAD_MAGIC))"

definition thread_current :: "sched \<Rightarrow> (nat \<times> thread) option" where
  "thread_current s = do {
     t \<leftarrow> threads s (running s);
     kassert (is_thread s (Some (running s)));
     kassert (status t = THREAD_RUNNING);
     Some (running s, t)
   }"

definition thread_tid :: "sched \<Rightarrow> int option" where
  "thread_tid s = map_option (\<lambda>(p, t). tid t) (thread_current s)"

definition thread_name :: "sched \<Rightarrow> string option" where
  "thread_name s = map_option (\<lambda>(p, t). t_name t) (thread_current s)"

section \<open>Ticks\<close>

text \<open>The counters are \<open>long long\<close>.\<close>

definition thread_tick :: "sched \<Rightarrow> sched option" where
  "thread_tick s = do {
     (cur, t) \<leftarrow> thread_current s;
     s1 \<leftarrow> (if Some cur = idle_thread s
            then do { n \<leftarrow> c_int64 (idle_ticks s + 1); Some (s\<lparr>idle_ticks := n\<rparr>) }
            else if pagedir t \<noteq> None
            then do { n \<leftarrow> c_int64 (user_ticks s + 1); Some (s\<lparr>user_ticks := n\<rparr>) }
            else do { n \<leftarrow> c_int64 (kernel_ticks s + 1); Some (s\<lparr>kernel_ticks := n\<rparr>) });
     let n = thread_ticks s1 + 1;
     Some (s1\<lparr>thread_ticks := n, yield_on_return := (yield_on_return s1 \<or> TIME_SLICE \<le> n)\<rparr>)
   }"

section \<open>Switching threads\<close>

definition next_thread_to_run :: "sched \<Rightarrow> nat option \<times> sched" where
  "next_thread_to_run s =
     (case ready_list s of
        [] \<Rightarrow> (idle_thread s, s)
      | p # rest \<Rightarrow> (Some p, s\<lparr>ready_list := rest\<rparr>))"

text \<open>\<open>process_activate\<close> of \<open>userprog/process.c\<close>; the task state segment is not modelled.\<close>

definition process_activate :: "sched \<Rightarrow> sched option" where
  "process_activate s = do {
     (cur, t) \<leftarrow> thread_current s;
     Some (s\<lparr>active_pagedir := pagedir t\<rparr>)
   }"

definition thread_schedule_tail :: "nat option \<Rightarrow> sched \<Rightarrow> sched option" where
  "thread_schedule_tail prev s = do {
     kassert (\<not> intr_on s);
     t \<leftarrow> threads s (running s);
     s1 \<leftarrow> process_activate ((put_thread (running s) (t\<lparr>status := THREAD_RUNNING\<rparr>) s)\<lparr>thread_ticks := 0\<rparr>);
     (case prev of
        None \<Rightarrow> Some s1
      | Some p \<Rightarrow> do {
          pt \<leftarrow> threads s1 p;
          if status pt = THREAD_DYING \<and> p \<noteq> initial_thread s1 then do {
            kassert (p \<noteq> running s1);
            Some (s1\<lparr>threads := (threads s1)(p := None)\<rparr>)
          } else Some s1
        })
   }"

definition schedule :: "sched \<Rightarrow> sched option" where
  "schedule s = do {
     let cur = running s;
     let (nxt, s1) = next_thread_to_run s;
     kassert (\<not> intr_on s1);
     t \<leftarrow> threads s1 cur;
     kassert (status t \<noteq> THREAD_RUNNING);
     kassert (is_thread s1 nxt);
     n \<leftarrow> nxt;
     thread_schedule_tail (if cur \<noteq> n then Some cur else None) (s1\<lparr>running := n\<rparr>)
   }"

text \<open>The thread that runs now goes on where it called \<open>schedule\<close>; a new thread starts in \<open>kernel_thread\<close>, which turns interrupts on.\<close>

definition resume :: "sched \<Rightarrow> sched option" where
  "resume s = do {
     t \<leftarrow> threads s (running s);
     Some (s\<lparr>intr_on := saved_intr t\<rparr>)
   }"

definition thread_block :: "sched \<Rightarrow> sched option" where
  "thread_block s = do {
     kassert (\<not> in_intr s);
     kassert (\<not> intr_on s);
     (cur, t) \<leftarrow> thread_current s;
     schedule (put_thread cur (t\<lparr>status := THREAD_BLOCKED\<rparr>) s)
   }"

definition thread_unblock :: "nat \<Rightarrow> sched \<Rightarrow> sched option" where
  "thread_unblock p s = do {
     kassert (is_thread s (Some p));
     t \<leftarrow> threads s p;
     kassert (status t = THREAD_BLOCKED);
     Some ((put_thread p (t\<lparr>status := THREAD_READY\<rparr>) s)\<lparr>ready_list := ready_list s @ [p]\<rparr>)
   }"

definition thread_yield :: "sched \<Rightarrow> sched option" where
  "thread_yield s = do {
     (cur, t) \<leftarrow> thread_current s;
     kassert (\<not> in_intr s);
     let s1 = (if Some cur \<noteq> idle_thread s then s\<lparr>ready_list := ready_list s @ [cur]\<rparr> else s);
     s2 \<leftarrow> schedule ((put_thread cur (t\<lparr>status := THREAD_READY, saved_intr := intr_on s\<rparr>) s1)\<lparr>intr_on := False\<rparr>);
     resume s2
   }"

text \<open>
  \<open>start_process\<close> makes the thread a process. What it and \<open>process_exit\<close> do to processes is in \<open>Process\<close>; here \<open>process_exit\<close>
  reads the status through \<open>self\<close>, a null pointer in a kernel thread, and takes the page directory away. \<open>waiter\<close> is the thread
  that waits on the semaphore \<open>terminated\<close> of \<open>self\<close>, which \<open>sema_up\<close> unblocks.
\<close>

definition become_process :: "nat \<Rightarrow> sched \<Rightarrow> sched option" where
  "become_process child s = do {
     (cur, t) \<leftarrow> thread_current s;
     Some (put_thread cur (t\<lparr>self := Some child, usr_thread := True\<rparr>) s)
   }"

definition read_self :: "thread \<Rightarrow> unit option" where
  "read_self t = kassert (self t \<noteq> None)"

definition process_exit :: "sched \<Rightarrow> sched option" where
  "process_exit s = do {
     (cur, t) \<leftarrow> thread_current s;
     read_self t;
     Some (if pagedir t \<noteq> None then (put_thread cur (t\<lparr>pagedir := None\<rparr>) s)\<lparr>active_pagedir := None\<rparr> else s)
   }"

definition thread_exit :: "nat option \<Rightarrow> sched \<Rightarrow> sched option" where
  "thread_exit waiter s = do {
     kassert (\<not> in_intr s);
     s1 \<leftarrow> process_exit s;
     (cur, t) \<leftarrow> thread_current s1;
     s2 \<leftarrow> (if usr_thread t then do {
              read_self t;
              (case waiter of None \<Rightarrow> Some s1 | Some p \<Rightarrow> thread_unblock p s1)
            } else Some s1);
     (cur, t) \<leftarrow> thread_current s2;
     s3 \<leftarrow> schedule ((put_thread cur (t\<lparr>status := THREAD_DYING\<rparr>) s2)\<lparr>intr_on := False, all_list := remove1 cur (all_list s2)\<rparr>);
     resume s3
   }"

section \<open>Creating threads\<close>

definition allocate_tid :: "sched \<Rightarrow> (int \<times> sched) option" where
  "allocate_tid s = do {
     n \<leftarrow> c_int (next_tid s + 1);
     Some (next_tid s, s\<lparr>next_tid := n\<rparr>)
   }"

definition init_thread :: "nat \<Rightarrow> string \<Rightarrow> int \<Rightarrow> sched \<Rightarrow> sched option" where
  "init_thread p name pri s = do {
     kassert (PRI_MIN \<le> pri \<and> pri \<le> PRI_MAX);
     let t = \<lparr>tid = 0, status = THREAD_BLOCKED, t_name = take 15 name, t_stack = 4096, t_entry = None, priority = pri,
              pagedir = None, children_init = False, usr_thread = False, self = None, magic = THREAD_MAGIC, saved_intr = True\<rparr>;
     Some ((put_thread p t s)\<lparr>all_list := all_list s @ [p]\<rparr>)
   }"

definition alloc_frame :: "thread \<Rightarrow> int \<Rightarrow> thread option" where
  "alloc_frame t sz = do {
     kassert (magic t = THREAD_MAGIC);
     kassert (sz smod 4 = 0);
     Some (t\<lparr>t_stack := t_stack t - sz\<rparr>)
   }"

text \<open>\<open>page\<close> is the page the allocator gives, \<open>entry_size\<close> and \<open>threads_size\<close> the sizes of the frames of \<open>switch.h\<close>.\<close>

definition thread_create :: "int \<Rightarrow> int \<Rightarrow> string \<Rightarrow> int \<Rightarrow> nat \<Rightarrow> nat \<Rightarrow> nat option \<Rightarrow> sched \<Rightarrow> (int \<times> sched) option" where
  "thread_create entry_size threads_size name pri func aux page s = do {
     kassert (func \<noteq> 0);
     (case page of
        None \<Rightarrow> Some (TID_ERROR, s)
      | Some p \<Rightarrow> do {
          s1 \<leftarrow> init_thread p name pri s;
          (i, s2) \<leftarrow> allocate_tid s1;
          t \<leftarrow> threads s2 p;
          t1 \<leftarrow> alloc_frame (t\<lparr>tid := i\<rparr>) 12;
          t2 \<leftarrow> alloc_frame (t1\<lparr>t_entry := Some (func, aux)\<rparr>) entry_size;
          t3 \<leftarrow> alloc_frame t2 threads_size;
          s3 \<leftarrow> thread_unblock p (put_thread p t3 s2);
          Some (i, s3)
        })
   }"

definition thread_init :: "nat \<Rightarrow> sched \<Rightarrow> sched option" where
  "thread_init p s = do {
     kassert (\<not> intr_on s);
     s2 \<leftarrow> init_thread p ''main'' PRI_DEFAULT (s\<lparr>ready_list := [], all_list := [], initial_thread := p, running := p\<rparr>);
     t \<leftarrow> threads s2 p;
     (i, s3) \<leftarrow> allocate_tid (put_thread p (t\<lparr>status := THREAD_RUNNING\<rparr>) s2);
     t' \<leftarrow> threads s3 p;
     Some (put_thread p (t'\<lparr>tid := i\<rparr>) s3)
   }"

section \<open>All threads, parameters, the idle thread\<close>

fun foreach_loop :: "(thread \<Rightarrow> thread) \<Rightarrow> nat list \<Rightarrow> sched \<Rightarrow> sched option" where
  "foreach_loop func [] s = Some s"
| "foreach_loop func (p # ps) s = do {
     t \<leftarrow> threads s p;
     foreach_loop func ps (put_thread p (func t) s)
   }"

definition thread_foreach :: "(thread \<Rightarrow> thread) \<Rightarrow> sched \<Rightarrow> sched option" where
  "thread_foreach func s = do {
     kassert (\<not> intr_on s);
     foreach_loop func (all_list s) s
   }"

definition thread_set_priority :: "int \<Rightarrow> sched \<Rightarrow> sched option" where
  "thread_set_priority new_priority s = do {
     (cur, t) \<leftarrow> thread_current s;
     Some (put_thread cur (t\<lparr>priority := new_priority\<rparr>) s)
   }"

definition thread_get_priority :: "sched \<Rightarrow> int option" where
  "thread_get_priority s = map_option (\<lambda>(p, t). priority t) (thread_current s)"

definition thread_set_nice :: "int \<Rightarrow> sched \<Rightarrow> sched" where
  "thread_set_nice n s = s"

definition thread_get_nice :: int where
  "thread_get_nice = 0"

definition thread_get_load_avg :: int where
  "thread_get_load_avg = 0"

definition thread_get_recent_cpu :: int where
  "thread_get_recent_cpu = 0"

definition idle_start :: "sched \<Rightarrow> sched option" where
  "idle_start s = do { (cur, t) \<leftarrow> thread_current s; Some (s\<lparr>idle_thread := Some cur\<rparr>) }"

definition idle_loop :: "sched \<Rightarrow> sched option" where
  "idle_loop s = do {
     (cur, t) \<leftarrow> thread_current s;
     s1 \<leftarrow> thread_block ((put_thread cur (t\<lparr>saved_intr := True\<rparr>) s)\<lparr>intr_on := False\<rparr>);
     resume s1
   }"

end
