(* ===== verification/Round_Robin_Props.thy ===== *)
theory Round_Robin_Props
  imports Round_Robin
begin

text \<open>
  Properties of the round-robin scheduler: the lists and the states of the threads agree and the page directory of the
  running thread is active after any sequence of operations and timer interrupts; the ready list is a queue, and
  no ready thread waits longer than one time slice for each thread before it.
\<close>

section \<open>The invariant\<close>

text \<open>\<open>R\<close> is the set of the threads in state running: one, or none while \<open>schedule\<close> is called.\<close>

definition thread_wf :: "nat set \<Rightarrow> sched \<Rightarrow> nat \<Rightarrow> thread \<Rightarrow> bool" where
  "thread_wf R s p t \<longleftrightarrow> magic t = THREAD_MAGIC \<and> (status t = THREAD_RUNNING \<longleftrightarrow> p \<in> R) \<and>
     (p \<in> set (ready_list s) \<longleftrightarrow> status t = THREAD_READY \<and> idle_thread s \<noteq> Some p) \<and>
     (p \<in> set (all_list s) \<longleftrightarrow> status t \<noteq> THREAD_DYING) \<and>
     (status t = THREAD_DYING \<longrightarrow> (p = initial_thread s \<or> p = running s) \<and> idle_thread s \<noteq> Some p) \<and>
     0 < tid t \<and> tid t < next_tid s"

definition rr_wf :: "nat set \<Rightarrow> sched \<Rightarrow> bool" where
  "rr_wf R s \<longleftrightarrow> (\<forall>p t. threads s p = Some t \<longrightarrow> thread_wf R s p t) \<and>
     insert (running s) (set (ready_list s) \<union> set (all_list s)) \<subseteq> dom (threads s) \<and>
     distinct (ready_list s) \<and> distinct (all_list s) \<and> (\<exists>i. idle_thread s = Some i \<and> i \<in> dom (threads s)) \<and>
     (\<forall>p q t u. threads s p = Some t \<longrightarrow> threads s q = Some u \<longrightarrow> tid t = tid u \<longrightarrow> p = q)"

definition rr_inv :: "sched \<Rightarrow> bool" where
  "rr_inv s \<longleftrightarrow> rr_wf {running s} s \<and> (\<forall>t. threads s (running s) = Some t \<longrightarrow> active_pagedir s = pagedir t) \<and> \<not> in_intr s"

lemma rr_wfI:
  assumes "\<And>p t. threads s p = Some t \<Longrightarrow> thread_wf R s p t"
    and "running s \<in> dom (threads s)" "set (ready_list s) \<subseteq> dom (threads s)" "set (all_list s) \<subseteq> dom (threads s)"
    and "distinct (ready_list s)" "distinct (all_list s)" "idle_thread s = Some i" "i \<in> dom (threads s)"
    and "\<And>p q t u. threads s p = Some t \<Longrightarrow> threads s q = Some u \<Longrightarrow> tid t = tid u \<Longrightarrow> p = q"
  shows "rr_wf R s"
  using assms unfolding rr_wf_def by blast

lemma rr_wfD:
  assumes "rr_wf R s"
  shows "threads s p = Some t \<Longrightarrow> thread_wf R s p t" "running s \<in> dom (threads s)"
    "set (ready_list s) \<subseteq> dom (threads s)" "set (all_list s) \<subseteq> dom (threads s)"
    "distinct (ready_list s)" "distinct (all_list s)" "\<exists>i ti. idle_thread s = Some i \<and> threads s i = Some ti"
    "threads s p = Some t \<Longrightarrow> threads s q = Some u \<Longrightarrow> tid t = tid u \<Longrightarrow> p = q"
  using assms unfolding rr_wf_def by blast+

lemma put_simps [simp]:
  "threads (put_thread p t s) = (threads s)(p \<mapsto> t)" "ready_list (put_thread p t s) = ready_list s"
  "all_list (put_thread p t s) = all_list s" "idle_thread (put_thread p t s) = idle_thread s"
  "initial_thread (put_thread p t s) = initial_thread s" "running (put_thread p t s) = running s"
  "intr_on (put_thread p t s) = intr_on s" "in_intr (put_thread p t s) = in_intr s"
  "yield_on_return (put_thread p t s) = yield_on_return s" "next_tid (put_thread p t s) = next_tid s"
  "thread_ticks (put_thread p t s) = thread_ticks s" "active_pagedir (put_thread p t s) = active_pagedir s"
  by (simp_all add: put_thread_def)

lemma rr_current:
  assumes "rr_wf {running s} s"
  obtains t where "threads s (running s) = Some t" "status t = THREAD_RUNNING" "magic t = THREAD_MAGIC"
    "thread_current s = Some (running s, t)"
proof -
  obtain t where t: "threads s (running s) = Some t" using rr_wfD(2)[OF assms] by blast
  then have "status t = THREAD_RUNNING" "magic t = THREAD_MAGIC" using rr_wfD(1)[OF assms t] by (simp_all add: thread_wf_def)
  with t that show thesis by (simp add: thread_current_def is_thread_def)
qed

section \<open>The context switch\<close>

definition next_thread :: "sched \<Rightarrow> nat" where
  "next_thread s = (case ready_list s of [] \<Rightarrow> the (idle_thread s) | p # _ \<Rightarrow> p)"

definition switched :: "sched \<Rightarrow> sched" where
  "switched s = (let n = next_thread s; tn = the (threads s n) in
     s\<lparr>ready_list := tl (ready_list s), running := n, thread_ticks := 0, active_pagedir := pagedir tn,
       threads := (\<lambda>p. if p = n then Some (tn\<lparr>status := THREAD_RUNNING\<rparr>)
         else if p = running s \<and> p \<noteq> initial_thread s \<and> map_option status (threads s p) = Some THREAD_DYING then None
         else threads s p)\<rparr>)"

lemma rr_switched_simps [simp]:
  "ready_list (switched s) = tl (ready_list s)" "running (switched s) = next_thread s" "thread_ticks (switched s) = 0"
  "all_list (switched s) = all_list s" "idle_thread (switched s) = idle_thread s" "initial_thread (switched s) = initial_thread s"
  "intr_on (switched s) = intr_on s" "in_intr (switched s) = in_intr s" "next_tid (switched s) = next_tid s"
  "yield_on_return (switched s) = yield_on_return s"
  by (simp_all add: switched_def Let_def)

lemma next_thread_ok:
  assumes "rr_wf {} s"
  obtains tn where "threads s (next_thread s) = Some tn" "magic tn = THREAD_MAGIC" "status tn \<noteq> THREAD_DYING"
    "next_thread_to_run s = (Some (next_thread s), s\<lparr>ready_list := tl (ready_list s)\<rparr>)"
proof -
  obtain i ti where i: "idle_thread s = Some i" "threads s i = Some ti" using rr_wfD(7)[OF assms] by blast
  show thesis
  proof (cases "ready_list s")
    case Nil
    then show thesis using that[of ti] i rr_wfD(1)[OF assms i(2)]
      by (auto simp: next_thread_def next_thread_to_run_def thread_wf_def)
  next
    case (Cons p ps)
    then obtain t where t: "threads s p = Some t" using rr_wfD(3)[OF assms] by auto
    show thesis using that[of t] Cons t rr_wfD(1)[OF assms t]
      by (auto simp: next_thread_def next_thread_to_run_def thread_wf_def)
  qed
qed

lemma schedule_eq:
  assumes wf: "rr_wf {} s" and off: "\<not> intr_on s"
  shows "schedule s = Some (switched s)"
proof -
  obtain tn where n: "threads s (next_thread s) = Some tn" "magic tn = THREAD_MAGIC" "status tn \<noteq> THREAD_DYING"
    "next_thread_to_run s = (Some (next_thread s), s\<lparr>ready_list := tl (ready_list s)\<rparr>)"
    using next_thread_ok[OF wf] .
  obtain tc where tc: "threads s (running s) = Some tc" using rr_wfD(2)[OF wf] by blast
  have st: "status tc \<noteq> THREAD_RUNNING" using rr_wfD(1)[OF wf tc] by (simp add: thread_wf_def)
  let ?n = "next_thread s"
  let ?s1 = "s\<lparr>ready_list := tl (ready_list s), running := ?n\<rparr>"
  let ?s2 = "(put_thread ?n (tn\<lparr>status := THREAD_RUNNING\<rparr>) ?s1)\<lparr>thread_ticks := 0, active_pagedir := pagedir tn\<rparr>"
  have activate: "process_activate ((put_thread ?n (tn\<lparr>status := THREAD_RUNNING\<rparr>) ?s1)\<lparr>thread_ticks := 0\<rparr>) = Some ?s2"
    using n(2) by (simp add: process_activate_def thread_current_def is_thread_def)
  have sched: "schedule s = thread_schedule_tail (if running s \<noteq> ?n then Some (running s) else None) ?s1"
    using n tc st off by (simp add: schedule_def is_thread_def)
  show ?thesis
  proof (cases "running s = ?n")
    case True
    have "threads ?s2 = threads (switched s)" using n(1) True by (simp add: switched_def Let_def fun_eq_iff)
    then have "?s2 = switched s" using n(1) by (simp add: switched_def Let_def put_thread_def)
    then show ?thesis using True n(1) off activate unfolding sched by (simp add: thread_schedule_tail_def)
  next
    case False
    then have run: "schedule s = thread_schedule_tail (Some (running s)) ?s1" unfolding sched by simp
    have full: "?s2\<lparr>threads := threads (switched s)\<rparr> = switched s" using n(1) by (simp add: switched_def Let_def put_thread_def)
    show ?thesis
    proof (cases "status tc = THREAD_DYING \<and> running s \<noteq> initial_thread s")
      case True
      then have "(threads ?s2)(running s := None) = threads (switched s)"
        using n(1) False tc by (auto simp: switched_def Let_def fun_eq_iff)
      moreover have "thread_schedule_tail (Some (running s)) ?s1 = Some (?s2\<lparr>threads := (threads ?s2)(running s := None)\<rparr>)"
        using n(1) off activate tc False True by (simp add: thread_schedule_tail_def)
      ultimately show ?thesis unfolding run using full by (simp only:)
    next
      case alive: False
      then have cond: "(status tc = THREAD_DYING \<and> running s \<noteq> initial_thread s) = False" by blast
      then have "threads ?s2 = threads (switched s)"
        using n(1) False tc by (auto simp: switched_def Let_def fun_eq_iff)
      moreover have "thread_schedule_tail (Some (running s)) ?s1 = Some ?s2"
      proof (cases "status tc = THREAD_DYING")
        case True
        then have "running s = initial_thread s" using alive by blast
        then show ?thesis using n(1) off activate tc False True by (simp add: thread_schedule_tail_def)
      next
        case nd: False
        show ?thesis using n(1) off activate tc False nd by (simp add: thread_schedule_tail_def)
      qed
      moreover have "r\<lparr>threads := threads r\<rparr> = r" for r :: sched by simp
      ultimately show ?thesis unfolding run using full by metis
    qed
  qed
qed

lemma rr_switched_inv:
  assumes wf: "rr_wf {} s" and ctx: "\<not> in_intr s"
  shows "rr_inv (switched s)"
proof -
  let ?n = "next_thread s"
  obtain tn where n: "threads s ?n = Some tn" "magic tn = THREAD_MAGIC" "status tn \<noteq> THREAD_DYING"
    using next_thread_ok[OF wf] by metis
  have threads: "threads (switched s) p = (if p = ?n then Some (tn\<lparr>status := THREAD_RUNNING\<rparr>)
      else if p = running s \<and> p \<noteq> initial_thread s \<and> map_option status (threads s p) = Some THREAD_DYING then None else threads s p)" for p
    using n(1) by (simp add: switched_def Let_def)
  obtain i ti where i: "idle_thread s = Some i" "threads s i = Some ti" using rr_wfD(7)[OF wf] by blast
  have ndead: "status ti \<noteq> THREAD_DYING" using rr_wfD(1)[OF wf i(2)] i(1) by (simp add: thread_wf_def)
  have mem: "p \<in> set (tl (ready_list s)) \<longleftrightarrow> p \<in> set (ready_list s) \<and> p \<noteq> ?n" for p
    using rr_wfD(5)[OF wf] rr_wfD(1)[OF wf i(2)] i(1) by (cases "ready_list s") (auto simp: next_thread_def thread_wf_def)
  have "rr_wf {?n} (switched s)"
  proof (rule rr_wfI[where i = i])
    show "thread_wf {?n} (switched s) p t" if t: "threads (switched s) p = Some t" for p t
    proof (cases "p = ?n")
      case True
      then have "t = tn\<lparr>status := THREAD_RUNNING\<rparr>" using t by (simp add: threads)
      moreover have "thread_wf {} s ?n tn" by (rule rr_wfD(1)[OF wf n(1)])
      ultimately show ?thesis using n(3) True mem[of ?n] by (simp add: thread_wf_def)
    next
      case False
      then have "threads s p = Some t" "p = running s \<longrightarrow> p \<noteq> initial_thread s \<longrightarrow> status t \<noteq> THREAD_DYING"
        using t by (auto simp: threads split: if_splits)
      then show ?thesis using rr_wfD(1)[OF wf, of p t] mem[of p] False unfolding thread_wf_def rr_switched_simps by blast
    qed
    have alive: "p \<in> dom (threads (switched s))" if "threads s p = Some t" "status t \<noteq> THREAD_DYING" for p t
      using that by (auto simp: threads)
    show "running (switched s) \<in> dom (threads (switched s))" by (simp add: threads domIff)
    show "set (ready_list (switched s)) \<subseteq> dom (threads (switched s))"
    proof
      fix p assume "p \<in> set (ready_list (switched s))"
      then have p: "p \<in> set (ready_list s)" using mem by simp
      then obtain t where t: "threads s p = Some t" using rr_wfD(3)[OF wf] by auto
      then show "p \<in> dom (threads (switched s))" using rr_wfD(1)[OF wf t] p alive by (auto simp: thread_wf_def)
    qed
    show "set (all_list (switched s)) \<subseteq> dom (threads (switched s))"
    proof
      fix p assume "p \<in> set (all_list (switched s))"
      then have p: "p \<in> set (all_list s)" by simp
      then obtain t where t: "threads s p = Some t" using rr_wfD(4)[OF wf] by auto
      then show "p \<in> dom (threads (switched s))" using rr_wfD(1)[OF wf t] p alive by (auto simp: thread_wf_def)
    qed
    show "distinct (ready_list (switched s))" "distinct (all_list (switched s))"
      using rr_wfD(5,6)[OF wf] by (simp_all add: distinct_tl)
    show "idle_thread (switched s) = Some i" "i \<in> dom (threads (switched s))" using i ndead alive by simp_all
    show "p = q" if "threads (switched s) p = Some t" "threads (switched s) q = Some u" "tid t = tid u" for p q t u
    proof -
      have old: "\<exists>t'. threads s p = Some t' \<and> tid t' = tid t" if "threads (switched s) p = Some t" for p t
        using that n(1) by (auto simp: threads split: if_splits)
      show ?thesis using old[OF that(1)] old[OF that(2)] that(3) rr_wfD(8)[OF wf] by metis
    qed
  qed
  moreover have "active_pagedir (switched s) = pagedir tn" using n(1) by (simp add: switched_def Let_def)
  ultimately show ?thesis using ctx by (simp add: rr_inv_def threads)
qed

section \<open>Leaving the CPU\<close>

lemma rr_leave_cpu:
  assumes inv: "rr_inv s" and t: "threads s (running s) = Some t"
    and st: "status t' \<noteq> THREAD_RUNNING" "status t' = THREAD_DYING \<Longrightarrow> idle_thread s \<noteq> Some (running s)"
    and t': "magic t' = magic t" "tid t' = tid t"
    and s': "threads s' = (threads s)(running s \<mapsto> t')"
      "ready_list s' = ready_list s @ (if status t' = THREAD_READY \<and> idle_thread s \<noteq> Some (running s) then [running s] else [])"
      "all_list s' = (if status t' = THREAD_DYING then remove1 (running s) (all_list s) else all_list s)"
      "idle_thread s' = idle_thread s" "initial_thread s' = initial_thread s" "running s' = running s" "next_tid s' = next_tid s"
  shows "rr_wf {} s'"
proof -
  have wf: "rr_wf {running s} s" using inv by (simp add: rr_inv_def)
  have cur: "thread_wf {running s} s (running s) t" using rr_wfD(1)[OF wf t] .
  have nr: "running s \<notin> set (ready_list s)" using cur by (auto simp: thread_wf_def)
  obtain i ti where i: "idle_thread s = Some i" "threads s i = Some ti" using rr_wfD(7)[OF wf] by blast
  have ready: "p \<in> set (ready_list s') \<longleftrightarrow> p \<in> set (ready_list s) \<or>
      (p = running s \<and> status t' = THREAD_READY \<and> idle_thread s \<noteq> Some (running s))" for p
    unfolding s' by auto
  have all: "p \<in> set (all_list s') \<longleftrightarrow> p \<in> set (all_list s) \<and> (p = running s \<longrightarrow> status t' \<noteq> THREAD_DYING)" for p
    unfolding s' using rr_wfD(6)[OF wf] by auto
  show ?thesis
  proof (rule rr_wfI[where i = i])
    show "thread_wf {} s' p u" if u: "threads s' p = Some u" for p u
    proof (cases "p = running s")
      case True
      then have "u = t'" using u s'(1) by simp
      then show ?thesis using cur st t' True nr unfolding thread_wf_def ready all s'(4-7) by auto
    next
      case False
      then have "threads s p = Some u" using u s'(1) by simp
      then show ?thesis using rr_wfD(1)[OF wf, of p u] False unfolding thread_wf_def ready all s'(4-7) by auto
    qed
    show "running s' \<in> dom (threads s')" "set (ready_list s') \<subseteq> dom (threads s')" "set (all_list s') \<subseteq> dom (threads s')"
      using rr_wfD(2-4)[OF wf] all ready s'(1,6) by auto
    show "distinct (ready_list s')" "distinct (all_list s')" using rr_wfD(5,6)[OF wf] nr unfolding s' by (auto simp: distinct_remove1)
    show "idle_thread s' = Some i" "i \<in> dom (threads s')" using i s' by auto
    show "p = q" if "threads s' p = Some u" "threads s' q = Some v" "tid u = tid v" for p q u v
    proof -
      have old: "\<exists>x. threads s p = Some x \<and> tid x = tid u" if "threads s' p = Some u" for p u
        using that s'(1) t t' by (auto split: if_splits)
      show ?thesis using old[OF that(1)] old[OF that(2)] that(3) rr_wfD(8)[OF wf] by metis
    qed
  qed
qed

text \<open>Who runs next, and the ready list then, when \<open>xs\<close> joins the list before the switch.\<close>

definition switches :: "sched \<Rightarrow> nat list \<Rightarrow> sched \<Rightarrow> bool" where
  "switches s xs s' \<longleftrightarrow> thread_ticks s' = 0 \<and>
     (case ready_list s @ xs of
        [] \<Rightarrow> ready_list s' = [] \<and> idle_thread s = Some (running s')
      | p # ps \<Rightarrow> running s' = p \<and> ready_list s' = ps)"

lemma switchesI:
  assumes "rr_wf {} s1" "ready_list s1 = ready_list s @ xs" "idle_thread s1 = idle_thread s"
  shows "switches s xs (switched s1)"
  using assms(2,3) rr_wfD(7)[OF assms(1)] by (auto simp: switches_def next_thread_def split: list.split)

lemma rr_inv_intr [simp]: "rr_inv (s\<lparr>intr_on := b\<rparr>) = rr_inv s"
proof -
  have "rr_wf R (s\<lparr>intr_on := b\<rparr>) = rr_wf R s" for R by (simp add: rr_wf_def thread_wf_def)
  then show ?thesis by (simp add: rr_inv_def)
qed

lemma resume_eq:
  assumes "rr_inv s"
  obtains b where "resume s = Some (s\<lparr>intr_on := b\<rparr>)"
proof -
  obtain t where "threads s (running s) = Some t" using rr_wfD(2)[of "{running s}" s] assms by (auto simp: rr_inv_def)
  then show thesis using that by (simp add: resume_def)
qed

text \<open>The common end of every operation that gives the CPU away.\<close>

lemma give_away:
  assumes inv: "rr_inv s" and wf: "rr_wf {} s1" and off: "\<not> intr_on s1" "\<not> in_intr s1"
    and s1: "ready_list s1 = ready_list s @ xs" "idle_thread s1 = idle_thread s"
  shows "\<exists>s'. Option.bind (schedule s1) resume = Some s' \<and> rr_inv s' \<and> switches s xs s' \<and> idle_thread s' = idle_thread s"
proof -
  have i: "rr_inv (switched s1)" using rr_switched_inv[OF wf off(2)] .
  obtain b where "resume (switched s1) = Some ((switched s1)\<lparr>intr_on := b\<rparr>)" using resume_eq[OF i] .
  moreover have "switches s xs ((switched s1)\<lparr>intr_on := b\<rparr>)" using switchesI[OF wf s1]
    by (cases "ready_list s @ xs") (simp_all add: switches_def)
  ultimately show ?thesis using schedule_eq[OF wf off(1)] i s1(2) by simp
qed

lemma inv_current:
  assumes "rr_inv s"
  obtains t where "threads s (running s) = Some t" "status t = THREAD_RUNNING" "magic t = THREAD_MAGIC"
    "thread_current s = Some (running s, t)" "\<not> in_intr s" "active_pagedir s = pagedir t"
  using assms rr_current[of s] by (metis rr_inv_def)

lemma yield_spec:
  assumes inv: "rr_inv s"
  shows "\<exists>s'. thread_yield s = Some s' \<and> rr_inv s' \<and> idle_thread s' = idle_thread s \<and>
    switches s (if idle_thread s = Some (running s) then [] else [running s]) s'"
proof -
  obtain t where t: "threads s (running s) = Some t" "status t = THREAD_RUNNING" "magic t = THREAD_MAGIC"
    "thread_current s = Some (running s, t)" "\<not> in_intr s" using inv_current[OF inv] by metis
  let ?xs = "if idle_thread s = Some (running s) then [] else [running s]"
  define s1 where "s1 = (put_thread (running s) (t\<lparr>status := THREAD_READY, saved_intr := intr_on s\<rparr>)
      (if Some (running s) \<noteq> idle_thread s then s\<lparr>ready_list := ready_list s @ [running s]\<rparr> else s))\<lparr>intr_on := False\<rparr>"
  have f: "threads s1 = (threads s)(running s \<mapsto> t\<lparr>status := THREAD_READY, saved_intr := intr_on s\<rparr>)"
    "ready_list s1 = ready_list s @ ?xs" "all_list s1 = all_list s" "idle_thread s1 = idle_thread s"
    "initial_thread s1 = initial_thread s" "running s1 = running s" "next_tid s1 = next_tid s" "\<not> intr_on s1" "\<not> in_intr s1"
    using t(5) by (auto simp: s1_def)
  have "rr_wf {} s1" by (rule rr_leave_cpu[OF inv t(1), of "t\<lparr>status := THREAD_READY, saved_intr := intr_on s\<rparr>"]) (use f in simp_all)
  then obtain s' where "Option.bind (schedule s1) resume = Some s'" "rr_inv s'" "switches s ?xs s'" "idle_thread s' = idle_thread s"
    using give_away[OF inv _ f(8,9,2,4)] by blast
  then show ?thesis using t by (simp add: thread_yield_def s1_def)
qed

text \<open>A thread that blocks: interrupts off, \<open>thread_block\<close>, and later the interrupt level it had.\<close>

definition block_current :: "sched \<Rightarrow> sched option" where
  "block_current s = do {
     (cur, t) \<leftarrow> thread_current s;
     s1 \<leftarrow> thread_block ((put_thread cur (t\<lparr>saved_intr := intr_on s\<rparr>) s)\<lparr>intr_on := False\<rparr>);
     resume s1
   }"

lemma block_spec:
  assumes inv: "rr_inv s"
  shows "\<exists>s'. block_current s = Some s' \<and> rr_inv s' \<and> switches s [] s' \<and> idle_thread s' = idle_thread s"
proof -
  obtain t where t: "threads s (running s) = Some t" "status t = THREAD_RUNNING" "magic t = THREAD_MAGIC"
    "thread_current s = Some (running s, t)" "\<not> in_intr s" using inv_current[OF inv] by metis
  let ?t = "t\<lparr>saved_intr := intr_on s, status := THREAD_BLOCKED\<rparr>"
  define s0 where "s0 = (put_thread (running s) (t\<lparr>saved_intr := intr_on s\<rparr>) s)\<lparr>intr_on := False\<rparr>"
  have s0: "thread_current s0 = Some (running s, t\<lparr>saved_intr := intr_on s\<rparr>)"
    using t by (simp add: s0_def thread_current_def is_thread_def)
  define s1 where "s1 = put_thread (running s) ?t s0"
  have "rr_wf {} s1" by (rule rr_leave_cpu[OF inv t(1), of ?t]) (simp_all add: s1_def s0_def)
  then obtain s' where "Option.bind (schedule s1) resume = Some s'" "rr_inv s'" "switches s [] s'" "idle_thread s' = idle_thread s"
    using give_away[OF inv, of s1 "[]"] t(5) by (auto simp: s1_def s0_def)
  then show ?thesis using t s0 unfolding block_current_def thread_block_def
    by (simp add: s1_def[symmetric] s0_def[symmetric])
qed

lemma inv_put:
  assumes inv: "rr_inv s" and t: "threads s p = Some t"
    and t': "status t' = status t" "magic t' = magic t" "tid t' = tid t" "p = running s \<Longrightarrow> active_pagedir s' = pagedir t'"
    and s': "threads s' = (threads s)(p \<mapsto> t')" "ready_list s' = ready_list s" "all_list s' = all_list s"
      "idle_thread s' = idle_thread s" "initial_thread s' = initial_thread s" "running s' = running s" "next_tid s' = next_tid s"
      "in_intr s' = in_intr s" "p \<noteq> running s \<Longrightarrow> active_pagedir s' = active_pagedir s"
  shows "rr_inv s'"
proof -
  have wf: "rr_wf {running s} s" using inv by (simp add: rr_inv_def)
  have tw: "thread_wf R s' q u" if "thread_wf R s q t0" "status u = status t0" "magic u = magic t0" "tid u = tid t0" for R q u t0
    using that s' by (simp add: thread_wf_def)
  have old: "\<exists>x. threads s q = Some x \<and> tid x = tid u \<and> status x = status u \<and> magic x = magic u" if "threads s' q = Some u" for q u
    using that s'(1) t t' by (auto split: if_splits)
  have "rr_wf {running s'} s'"
    unfolding rr_wf_def
  proof (intro conjI allI impI)
    show "thread_wf {running s'} s' q u" if "threads s' q = Some u" for q u
      using old[OF that] tw rr_wfD(1)[OF wf] s'(6) by metis
    show "insert (running s') (set (ready_list s') \<union> set (all_list s')) \<subseteq> dom (threads s')"
      using rr_wfD(2-4)[OF wf] s' by auto
    show "distinct (ready_list s')" "distinct (all_list s')" using rr_wfD(5,6)[OF wf] s' by simp_all
    show "\<exists>i. idle_thread s' = Some i \<and> i \<in> dom (threads s')" using rr_wfD(7)[OF wf] s' by auto
    show "q = r" if "threads s' q = Some u" "threads s' r = Some v" "tid u = tid v" for q r u v
      using old[OF that(1)] old[OF that(2)] that(3) rr_wfD(8)[OF wf] by metis
  qed
  then show ?thesis using inv t' s' t unfolding rr_inv_def by auto
qed

lemma unblock_spec:
  assumes inv: "rr_inv s" and u: "threads s p = Some u" "status u = THREAD_BLOCKED" "idle_thread s \<noteq> Some p"
  shows "\<exists>s'. thread_unblock p s = Some s' \<and> rr_inv s' \<and> ready_list s' = ready_list s @ [p] \<and>
    running s' = running s \<and> thread_ticks s' = thread_ticks s \<and> idle_thread s' = idle_thread s \<and> all_list s' = all_list s \<and>
    initial_thread s' = initial_thread s \<and> threads s' (running s) = threads s (running s) \<and> intr_on s' = intr_on s"
proof -
  have wf: "rr_wf {running s} s" using inv by (simp add: rr_inv_def)
  have up: "thread_wf {running s} s p u" using rr_wfD(1)[OF wf u(1)] .
  have pr: "p \<noteq> running s" "p \<notin> set (ready_list s)" using up u(2) by (auto simp: thread_wf_def)
  define s' where "s' = (put_thread p (u\<lparr>status := THREAD_READY\<rparr>) s)\<lparr>ready_list := ready_list s @ [p]\<rparr>"
  have run: "thread_unblock p s = Some s'" using u up by (simp add: thread_unblock_def is_thread_def thread_wf_def s'_def)
  have f: "threads s' = (threads s)(p \<mapsto> u\<lparr>status := THREAD_READY\<rparr>)" "ready_list s' = ready_list s @ [p]" "all_list s' = all_list s"
      "idle_thread s' = idle_thread s" "initial_thread s' = initial_thread s" "running s' = running s" "next_tid s' = next_tid s"
      "active_pagedir s' = active_pagedir s" "in_intr s' = in_intr s"
    by (simp_all add: s'_def)
  obtain i ti where i: "idle_thread s = Some i" "threads s i = Some ti" using rr_wfD(7)[OF wf] by blast
  have "rr_wf {running s'} s'"
  proof (rule rr_wfI[where i = i])
    show "thread_wf {running s'} s' q v" if "threads s' q = Some v" for q v
    proof (cases "q = p")
      case True
      then have "v = u\<lparr>status := THREAD_READY\<rparr>" using that f(1) by simp
      then show ?thesis using up True u pr by (simp add: thread_wf_def f)
    next
      case False
      then have "threads s q = Some v" using that f(1) by simp
      then show ?thesis using rr_wfD(1)[OF wf, of q v] False by (simp add: thread_wf_def f)
    qed
    show "running s' \<in> dom (threads s')" "set (ready_list s') \<subseteq> dom (threads s')" "set (all_list s') \<subseteq> dom (threads s')"
      using rr_wfD(2-4)[OF wf] by (auto simp: f)
    show "distinct (ready_list s')" "distinct (all_list s')" using rr_wfD(5,6)[OF wf] pr by (simp_all add: f)
    show "idle_thread s' = Some i" "i \<in> dom (threads s')" using i by (auto simp: f)
    show "q = r" if "threads s' q = Some v" "threads s' r = Some x" "tid v = tid x" for q r v x
    proof -
      have old: "\<exists>x. threads s q = Some x \<and> tid x = tid v" if "threads s' q = Some v" for q v
        using that u(1) by (auto simp: f split: if_splits)
      show ?thesis using old[OF that(1)] old[OF that(2)] that(3) rr_wfD(8)[OF wf] by metis
    qed
  qed
  then have "rr_inv s'" using inv pr by (simp add: rr_inv_def f)
  then show ?thesis using run f pr by (simp add: s'_def)
qed

lemma process_exit_spec:
  assumes inv: "rr_inv s" and self: "\<And>t. threads s (running s) = Some t \<Longrightarrow> self t \<noteq> None"
  shows "\<exists>s' t'. process_exit s = Some s' \<and> rr_inv s' \<and> threads s' (running s) = Some t' \<and> thread_current s' = Some (running s, t') \<and>
    threads s' = (threads s)(running s \<mapsto> t') \<and> active_pagedir s' = None \<and> running s' = running s \<and> ready_list s' = ready_list s \<and>
    all_list s' = all_list s \<and> idle_thread s' = idle_thread s \<and> initial_thread s' = initial_thread s \<and> self t' \<noteq> None"
proof -
  obtain t where t: "threads s (running s) = Some t" "status t = THREAD_RUNNING" "magic t = THREAD_MAGIC"
    "thread_current s = Some (running s, t)" "\<not> in_intr s" "active_pagedir s = pagedir t" using inv_current[OF inv] by metis
  show ?thesis
  proof (cases "pagedir t = None")
    case True
    then have "process_exit s = Some s" using t self[OF t(1)] by (simp add: process_exit_def read_self_def)
    moreover have "threads s = (threads s)(running s \<mapsto> t)" using t(1) by auto
    ultimately show ?thesis using inv t True self[OF t(1)] by auto
  next
    case False
    define s' where "s' = (put_thread (running s) (t\<lparr>pagedir := None\<rparr>) s)\<lparr>active_pagedir := None\<rparr>"
    have run: "process_exit s = Some s'" using t False self[OF t(1)] by (simp add: process_exit_def read_self_def s'_def)
    have i: "rr_inv s'" by (rule inv_put[OF inv t(1), of "t\<lparr>pagedir := None\<rparr>"]) (simp_all add: s'_def)
    have "thread_current s' = Some (running s, t\<lparr>pagedir := None\<rparr>)" using t by (simp add: s'_def thread_current_def is_thread_def)
    with run i self[OF t(1)] show ?thesis by (intro exI[of _ s'] exI[of _ "t\<lparr>pagedir := None\<rparr>"]) (simp add: s'_def)
  qed
qed

lemma dead_gone:
  assumes wf: "rr_wf {} s" and t: "threads s (running s) = Some t" "status t = THREAD_DYING" "running s \<noteq> initial_thread s"
  shows "threads (switched s) (running s) = None"
proof -
  have "next_thread s \<noteq> running s" using next_thread_ok[OF wf] t(1,2) by (metis option.inject)
  then show ?thesis using t by (simp add: switched_def Let_def)
qed

lemma exit_spec:
  assumes inv: "rr_inv s" and idle: "idle_thread s \<noteq> Some (running s)" and self: "\<And>t. threads s (running s) = Some t \<Longrightarrow> self t \<noteq> None"
    and w: "\<And>p. waiter = Some p \<Longrightarrow> \<exists>u. threads s p = Some u \<and> status u = THREAD_BLOCKED \<and> idle_thread s \<noteq> Some p"
  shows "\<exists>s' xs. thread_exit waiter s = Some s' \<and> rr_inv s' \<and> switches s xs s' \<and> idle_thread s' = idle_thread s \<and>
    (running s \<noteq> initial_thread s \<longrightarrow> threads s' (running s) = None) \<and> running s \<notin> set (all_list s')"
proof -
  have ctx: "\<not> in_intr s" using inv by (simp add: rr_inv_def)
  obtain s1 t1 where s1: "process_exit s = Some s1" "rr_inv s1" "threads s1 (running s) = Some t1" "thread_current s1 = Some (running s, t1)"
    "threads s1 = (threads s)(running s \<mapsto> t1)" "running s1 = running s" "ready_list s1 = ready_list s" "all_list s1 = all_list s"
    "idle_thread s1 = idle_thread s" "initial_thread s1 = initial_thread s" "self t1 \<noteq> None" using process_exit_spec[OF inv self] by blast
  obtain s2 xs where s2: "(if usr_thread t1 then Option.bind (read_self t1) (\<lambda>_. case waiter of None \<Rightarrow> Some s1 | Some p \<Rightarrow> thread_unblock p s1)
      else Some s1) = Some s2"
    "rr_inv s2" "ready_list s2 = ready_list s @ xs" "running s2 = running s" "idle_thread s2 = idle_thread s"
    "initial_thread s2 = initial_thread s"
  proof (cases "if usr_thread t1 then waiter else None")
    case None
    then show thesis using that[of s1 "[]"] s1 by (auto simp: read_self_def split: if_splits)
  next
    case (Some p)
    then have p: "usr_thread t1" "waiter = Some p" by (auto split: if_splits)
    obtain u where u: "threads s p = Some u" "status u = THREAD_BLOCKED" "idle_thread s \<noteq> Some p" using w[OF p(2)] by blast
    have "p \<noteq> running s" using inv_current[OF inv] u by (metis option.inject thread_status.distinct(3))
    then obtain s2 where "thread_unblock p s1 = Some s2" "rr_inv s2" "ready_list s2 = ready_list s1 @ [p]" "running s2 = running s1"
        "idle_thread s2 = idle_thread s1" "initial_thread s2 = initial_thread s1"
      using unblock_spec[OF s1(2), of p u] u s1(5,9) by auto
    then show thesis using that[of s2 "[p]"] p s1 by (simp add: read_self_def)
  qed
  obtain t2 where t2: "threads s2 (running s) = Some t2" "thread_current s2 = Some (running s, t2)" "\<not> in_intr s2"
    using inv_current[OF s2(2)] s2(4) by metis
  define s3 where "s3 = (put_thread (running s) (t2\<lparr>status := THREAD_DYING\<rparr>) s2)\<lparr>intr_on := False, all_list := remove1 (running s) (all_list s2)\<rparr>"
  have wf: "rr_wf {} s3"
    by (rule rr_leave_cpu[OF s2(2), of t2 "t2\<lparr>status := THREAD_DYING\<rparr>"]) (use t2 s2 idle in \<open>simp_all add: s3_def\<close>)
  have sched: "schedule s3 = Some (switched s3)" by (rule schedule_eq[OF wf]) (simp add: s3_def)
  have i: "rr_inv (switched s3)" by (rule rr_switched_inv[OF wf]) (use t2 in \<open>simp add: s3_def\<close>)
  obtain b where b: "resume (switched s3) = Some ((switched s3)\<lparr>intr_on := b\<rparr>)" using resume_eq[OF i] .
  let ?s = "(switched s3)\<lparr>intr_on := b\<rparr>"
  have "switches s xs (switched s3)" by (rule switchesI[OF wf]) (use s2 in \<open>simp_all add: s3_def\<close>)
  then have "switches s xs ?s" by (cases "ready_list s @ xs") (simp_all add: switches_def)
  moreover have "thread_exit waiter s = Some ?s"
    using ctx s1 s2 t2 sched b by (simp add: thread_exit_def s3_def)
  moreover have "running s \<noteq> initial_thread s \<longrightarrow> threads ?s (running s) = None"
    using dead_gone[OF wf, of "t2\<lparr>status := THREAD_DYING\<rparr>"] s2(4,6) by (simp add: s3_def)
  moreover have "running s \<notin> set (all_list ?s)"
    using rr_wfD(6)[of "{running s2}" s2] s2(2) by (simp add: s3_def rr_inv_def set_remove1_eq)
  moreover have "idle_thread ?s = idle_thread s" using s2(5) by (simp add: s3_def)
  ultimately show ?thesis using i by (metis rr_inv_intr)
qed

section \<open>Creating threads and ticks\<close>

definition frames_ok :: "int \<Rightarrow> int \<Rightarrow> bool" where
  "frames_ok entry_size threads_size \<longleftrightarrow> entry_size smod 4 = 0 \<and> threads_size smod 4 = 0"

lemma create_spec:
  assumes inv: "rr_inv s" and ok: "frames_ok es ts" "func \<noteq> 0" "PRI_MIN \<le> pri" "pri \<le> PRI_MAX" "next_tid s < 2 ^ 31 - 1" "0 < next_tid s"
    and p: "threads s p = None"
  shows "\<exists>s'. thread_create es ts name pri func aux (Some p) s = Some (next_tid s, s') \<and> rr_inv s' \<and>
    ready_list s' = ready_list s @ [p] \<and> running s' = running s \<and> thread_ticks s' = thread_ticks s \<and> idle_thread s' = idle_thread s \<and>
    next_tid s' = next_tid s + 1 \<and> (\<forall>q t. threads s q = Some t \<longrightarrow> threads s' q = Some t \<and> tid t \<noteq> next_tid s)"
proof -
  have wf: "rr_wf {running s} s" using inv by (simp add: rr_inv_def)
  define t where "t = \<lparr>tid = next_tid s, status = THREAD_READY, t_name = take 15 name, t_stack = 4096 - 12 - es - ts,
     t_entry = Some (func, aux), priority = pri, pagedir = None, children_init = False, usr_thread = False, self = None, magic = THREAD_MAGIC, saved_intr = True\<rparr>"
  define s' where "s' = (put_thread p t s)\<lparr>all_list := all_list s @ [p], next_tid := next_tid s + 1, ready_list := ready_list s @ [p]\<rparr>"
  have run: "thread_create es ts name pri func aux (Some p) s = Some (next_tid s, s')"
    using ok unfolding frames_ok_def
    by (simp add: thread_create_def init_thread_def allocate_tid_def alloc_frame_def thread_unblock_def is_thread_def put_thread_def
      s'_def t_def)
  have f: "threads s' = (threads s)(p \<mapsto> t)" "ready_list s' = ready_list s @ [p]" "all_list s' = all_list s @ [p]"
      "idle_thread s' = idle_thread s" "initial_thread s' = initial_thread s" "running s' = running s" "next_tid s' = next_tid s + 1"
      "active_pagedir s' = active_pagedir s" "in_intr s' = in_intr s" "thread_ticks s' = thread_ticks s"
    by (simp_all add: s'_def)
  have pn: "p \<notin> set (ready_list s)" "p \<notin> set (all_list s)" "running s \<noteq> p" using rr_wfD(2-4)[OF wf] p by auto
  obtain i ti where i: "idle_thread s = Some i" "threads s i = Some ti" using rr_wfD(7)[OF wf] by blast
  have tid: "tid u < next_tid s" if "threads s q = Some u" for q u using rr_wfD(1)[OF wf that] by (simp add: thread_wf_def)
  have "rr_wf {running s'} s'"
  proof (rule rr_wfI[where i = i])
    show "thread_wf {running s'} s' q v" if "threads s' q = Some v" for q v
    proof (cases "q = p")
      case True
      then have "v = t" using that f(1) by simp
      then show ?thesis using True pn i p ok(6) by (auto simp: thread_wf_def f t_def)
    next
      case False
      then have "threads s q = Some v" using that f(1) by simp
      then show ?thesis using rr_wfD(1)[OF wf, of q v] False by (simp add: thread_wf_def f)
    qed
    show "running s' \<in> dom (threads s')" "set (ready_list s') \<subseteq> dom (threads s')" "set (all_list s') \<subseteq> dom (threads s')"
      using rr_wfD(2-4)[OF wf] by (auto simp: f)
    show "distinct (ready_list s')" "distinct (all_list s')" using rr_wfD(5,6)[OF wf] pn by (simp_all add: f)
    show "idle_thread s' = Some i" "i \<in> dom (threads s')" using i by (auto simp: f)
    show "q = r" if "threads s' q = Some v" "threads s' r = Some x" "tid v = tid x" for q r v x
      using that tid[of q v] tid[of r x] rr_wfD(8)[OF wf, of q v r x] by (auto simp: f t_def split: if_splits)
  qed
  then have "rr_inv s'" using inv pn by (simp add: rr_inv_def f)
  moreover have "threads s' q = Some u \<and> tid u \<noteq> next_tid s" if "threads s q = Some u" for q u
    using that p tid[OF that] by (auto simp: f)
  ultimately show ?thesis using run f by blast
qed

definition counters_ok :: "sched \<Rightarrow> bool" where
  "counters_ok s \<longleftrightarrow> (\<forall>n\<in>{idle_ticks s, kernel_ticks s, user_ticks s}. 0 \<le> n \<and> n < 2 ^ 63 - 1)"

text \<open>The timer interrupt: \<open>thread_tick\<close> in the interrupt, and a yield on return if one was asked for.\<close>

definition timer_irq :: "sched \<Rightarrow> sched option" where
  "timer_irq s = do {
     s1 \<leftarrow> thread_tick (s\<lparr>in_intr := True, yield_on_return := False\<rparr>);
     let s2 = s1\<lparr>in_intr := False\<rparr>;
     if yield_on_return s2 then thread_yield s2 else Some s2
   }"

lemma tick_spec:
  assumes inv: "rr_inv s" and ok: "counters_ok s" "thread_ticks s < TIME_SLICE"
  shows "\<exists>s'. timer_irq s = Some s' \<and> rr_inv s' \<and> idle_thread s' = idle_thread s \<and>
    (if unat (thread_ticks s) < 3
     then thread_ticks s' = thread_ticks s + 1 \<and> ready_list s' = ready_list s \<and> running s' = running s
     else switches s (if idle_thread s = Some (running s) then [] else [running s]) s')"
proof -
  obtain t where t: "threads s (running s) = Some t" "status t = THREAD_RUNNING" "magic t = THREAD_MAGIC"
    "thread_current s = Some (running s, t)" "\<not> in_intr s" using inv_current[OF inv] by metis
  define a where "a = idle_ticks s + (if Some (running s) = idle_thread s then 1 else 0)"
  define b where "b = kernel_ticks s + (if Some (running s) \<noteq> idle_thread s \<and> pagedir t = None then 1 else 0)"
  define c where "c = user_ticks s + (if Some (running s) \<noteq> idle_thread s \<and> pagedir t \<noteq> None then 1 else 0)"
  have cur: "thread_current (s\<lparr>in_intr := True, yield_on_return := False\<rparr>) = Some (running s, t)"
    using t by (simp add: thread_current_def is_thread_def)
  have fits: "c_int64 (idle_ticks s + 1) = Some (idle_ticks s + 1)" "c_int64 (kernel_ticks s + 1) = Some (kernel_ticks s + 1)"
      "c_int64 (user_ticks s + 1) = Some (user_ticks s + 1)"
    using ok(1) by (simp_all add: counters_ok_def c_int64_def)
  have tick: "thread_tick (s\<lparr>in_intr := True, yield_on_return := False\<rparr>) =
      Some (s\<lparr>in_intr := True, idle_ticks := a, kernel_ticks := b, user_ticks := c, thread_ticks := thread_ticks s + 1,
        yield_on_return := (TIME_SLICE \<le> thread_ticks s + 1)\<rparr>)"
    by (cases "Some (running s) = idle_thread s"; cases "pagedir t = None")
      (auto simp: thread_tick_def cur fits a_def b_def c_def Let_def)
  let ?s = "s\<lparr>idle_ticks := a, kernel_ticks := b, user_ticks := c, thread_ticks := thread_ticks s + 1,
        yield_on_return := (TIME_SLICE \<le> thread_ticks s + 1), in_intr := False\<rparr>"
  have wf: "rr_wf R ?s = rr_wf R s" for R by (simp add: rr_wf_def thread_wf_def)
  have i: "rr_inv ?s" using inv by (simp add: rr_inv_def wf)
  have small: "TIME_SLICE \<le> thread_ticks s + 1 \<longleftrightarrow> \<not> unat (thread_ticks s) < 3"
  proof -
    have "unat (thread_ticks s) < 4" using ok(2) by (simp add: word_less_nat_alt)
    moreover have "unat (thread_ticks s + 1) = (unat (thread_ticks s) + 1) mod 2 ^ 32" by (simp add: unat_word_ariths)
    ultimately have "unat (thread_ticks s + 1) = unat (thread_ticks s) + 1" by simp
    then show ?thesis by (auto simp: word_le_nat_alt)
  qed
  have irq: "timer_irq s = (if TIME_SLICE \<le> thread_ticks s + 1 then thread_yield ?s else Some ?s)"
    using tick by (simp add: timer_irq_def)
  show ?thesis
  proof (cases "unat (thread_ticks s) < 3")
    case True
    then show ?thesis using irq small i by simp
  next
    case False
    then have "timer_irq s = thread_yield ?s" using irq small by simp
    moreover have "idle_thread ?s = idle_thread s" "running ?s = running s" "ready_list ?s = ready_list s" by simp_all
    moreover from this have "switches ?s xs s' = switches s xs s'" for xs s' unfolding switches_def by (simp only:)
    ultimately show ?thesis using yield_spec[OF i] False by (simp only: if_False)
  qed
qed

section \<open>Runs\<close>

text \<open>A process gets its page directory, as in \<open>load\<close>.\<close>

definition set_pagedir :: "nat option \<Rightarrow> sched \<Rightarrow> sched option" where
  "set_pagedir pd s = do {
     (cur, t) \<leftarrow> thread_current s;
     process_activate (put_thread cur (t\<lparr>pagedir := pd\<rparr>) s)
   }"

datatype event = Yield | Block | Unblock nat | Create string int nat nat nat | Exit "nat option" | SetPriority int |
  SetPagedir "nat option" | Start_Process nat | Tick

definition blocked :: "sched \<Rightarrow> nat \<Rightarrow> bool" where
  "blocked s p \<longleftrightarrow> idle_thread s \<noteq> Some p \<and> (case threads s p of None \<Rightarrow> False | Some u \<Rightarrow> status u = THREAD_BLOCKED)"

fun possible :: "event \<Rightarrow> sched \<Rightarrow> bool" where
  "possible (Unblock p) s \<longleftrightarrow> blocked s p"
| "possible (Create name pri func aux p) s \<longleftrightarrow>
     threads s p = None \<and> func \<noteq> 0 \<and> PRI_MIN \<le> pri \<and> pri \<le> PRI_MAX \<and> next_tid s < 2 ^ 31 - 1"
| "possible (Exit waiter) s \<longleftrightarrow> idle_thread s \<noteq> Some (running s) \<and>
     (case threads s (running s) of None \<Rightarrow> False | Some t \<Rightarrow> self t \<noteq> None) \<and> (case waiter of None \<Rightarrow> True | Some p \<Rightarrow> blocked s p)"
| "possible Tick s \<longleftrightarrow> counters_ok s"
| "possible e s \<longleftrightarrow> True"

fun do_event :: "int \<Rightarrow> int \<Rightarrow> event \<Rightarrow> sched \<Rightarrow> sched option" where
  "do_event es ts Yield s = thread_yield s"
| "do_event es ts Block s = block_current s"
| "do_event es ts (Unblock p) s = thread_unblock p s"
| "do_event es ts (Create name pri func aux p) s = map_option snd (thread_create es ts name pri func aux (Some p) s)"
| "do_event es ts (Exit waiter) s = thread_exit waiter s"
| "do_event es ts (SetPriority n) s = thread_set_priority n s"
| "do_event es ts (SetPagedir pd) s = set_pagedir pd s"
| "do_event es ts (Start_Process child) s = become_process child s"
| "do_event es ts Tick s = timer_irq s"

text \<open>The thread that an event gives the CPU to.\<close>

fun dispatched :: "event \<Rightarrow> sched \<Rightarrow> sched \<Rightarrow> nat list" where
  "dispatched Yield s s' = [running s']"
| "dispatched Block s s' = [running s']"
| "dispatched (Exit waiter) s s' = [running s']"
| "dispatched Tick s s' = (if unat (thread_ticks s) < 3 then [] else [running s'])"
| "dispatched e s s' = []"

definition tick_count :: "event \<Rightarrow> nat" where
  "tick_count e = (if e = Tick then 1 else 0)"

definition rr_ok :: "sched \<Rightarrow> bool" where
  "rr_ok s \<longleftrightarrow> rr_inv s \<and> unat (thread_ticks s) < 4"

definition event_effect :: "event \<Rightarrow> sched \<Rightarrow> sched \<Rightarrow> bool" where
  "event_effect e s s' \<longleftrightarrow> rr_ok s' \<and>
     (\<exists>xs. if dispatched e s s' = []
           then ready_list s' = ready_list s @ xs \<and> unat (thread_ticks s') = unat (thread_ticks s) + tick_count e
           else dispatched e s s' = [running s'] \<and> switches s xs s')"

lemma switch_effect:
  assumes "rr_inv s'" "switches s xs s'" "dispatched e s s' = [running s']"
  shows "event_effect e s s'"
  using assms by (auto simp: event_effect_def rr_ok_def switches_def)

lemma stay_effect:
  assumes "rr_inv s'" "ready_list s' = ready_list s @ xs" "thread_ticks s' = thread_ticks s" "unat (thread_ticks s) < 4"
    "dispatched e s s' = []" "e \<noteq> Tick"
  shows "event_effect e s s'"
  using assms by (auto simp: event_effect_def rr_ok_def tick_count_def)

lemma blockedD: "blocked s p \<Longrightarrow> \<exists>u. threads s p = Some u \<and> status u = THREAD_BLOCKED \<and> idle_thread s \<noteq> Some p"
  by (auto simp: blocked_def split: option.splits)

lemma set_priority_spec:
  assumes inv: "rr_inv s"
  shows "\<exists>s'. thread_set_priority n s = Some s' \<and> rr_inv s' \<and> ready_list s' = ready_list s \<and> thread_ticks s' = thread_ticks s"
proof -
  obtain t where t: "threads s (running s) = Some t" "thread_current s = Some (running s, t)" "active_pagedir s = pagedir t"
    using inv_current[OF inv] by metis
  have "rr_inv (put_thread (running s) (t\<lparr>priority := n\<rparr>) s)"
    by (rule inv_put[OF inv t(1), of "t\<lparr>priority := n\<rparr>"]) (simp_all add: t)
  then show ?thesis using t by (simp add: thread_set_priority_def)
qed

lemma set_pagedir_spec:
  assumes inv: "rr_inv s"
  shows "\<exists>s'. set_pagedir pd s = Some s' \<and> rr_inv s' \<and> ready_list s' = ready_list s \<and> thread_ticks s' = thread_ticks s \<and> active_pagedir s' = pd"
proof -
  obtain t where t: "threads s (running s) = Some t" "status t = THREAD_RUNNING" "magic t = THREAD_MAGIC"
    "thread_current s = Some (running s, t)" using inv_current[OF inv] by metis
  let ?s = "(put_thread (running s) (t\<lparr>pagedir := pd\<rparr>) s)\<lparr>active_pagedir := pd\<rparr>"
  have "rr_inv ?s" by (rule inv_put[OF inv t(1), of "t\<lparr>pagedir := pd\<rparr>"]) simp_all
  moreover have "set_pagedir pd s = Some ?s"
    using t by (simp add: set_pagedir_def process_activate_def thread_current_def is_thread_def)
  ultimately show ?thesis by simp
qed

lemma become_process_spec:
  assumes inv: "rr_inv s"
  shows "\<exists>s'. become_process child s = Some s' \<and> rr_inv s' \<and> ready_list s' = ready_list s \<and> thread_ticks s' = thread_ticks s"
proof -
  obtain t where t: "threads s (running s) = Some t" "thread_current s = Some (running s, t)" "active_pagedir s = pagedir t"
    using inv_current[OF inv] by metis
  have "rr_inv (put_thread (running s) (t\<lparr>self := Some child, usr_thread := True\<rparr>) s)"
    by (rule inv_put[OF inv t(1), of "t\<lparr>self := Some child, usr_thread := True\<rparr>"]) (simp_all add: t)
  then show ?thesis using t by (simp add: become_process_def)
qed

lemma next_tid_pos: "rr_inv s \<Longrightarrow> 0 < next_tid s"
  using inv_current[of s] rr_wfD(1)[of "{running s}" s] by (metis (no_types, lifting) dual_order.strict_trans rr_inv_def thread_wf_def)

lemma event_spec:
  assumes fr: "frames_ok es ts" and ok: "rr_ok s" and e: "possible e s"
  shows "\<exists>s'. do_event es ts e s = Some s' \<and> event_effect e s s'"
proof -
  have inv: "rr_inv s" "unat (thread_ticks s) < 4" using ok by (simp_all add: rr_ok_def)
  show ?thesis
  proof (cases e)
    case Yield
    then show ?thesis using yield_spec[OF inv(1)] switch_effect by fastforce
  next
    case Block
    then show ?thesis using block_spec[OF inv(1)] switch_effect by fastforce
  next
    case (Unblock p)
    then obtain u where "threads s p = Some u" "status u = THREAD_BLOCKED" "idle_thread s \<noteq> Some p" using e blockedD by auto
    then show ?thesis using unblock_spec[OF inv(1)] stay_effect[OF _ _ _ inv(2)] Unblock by fastforce
  next
    case (Create name pri func aux p)
    then show ?thesis using create_spec[OF inv(1) fr, of func pri p name aux] next_tid_pos[OF inv(1)] e
        stay_effect[OF _ _ _ inv(2), of _ "[p]" e] by fastforce
  next
    case (Exit waiter)
    have "\<exists>u. threads s p = Some u \<and> status u = THREAD_BLOCKED \<and> idle_thread s \<noteq> Some p" if "waiter = Some p" for p
      using e Exit that blockedD by simp
    moreover have "self t \<noteq> None" if "threads s (running s) = Some t" for t using e Exit that by simp
    moreover have "idle_thread s \<noteq> Some (running s)" using e Exit by simp
    ultimately obtain s' xs where "thread_exit waiter s = Some s'" "rr_inv s'" "switches s xs s'"
      using exit_spec[OF inv(1), of waiter] by blast
    then show ?thesis using Exit switch_effect by simp
  next
    case (SetPriority n)
    then show ?thesis using set_priority_spec[OF inv(1), of n] stay_effect[OF _ _ _ inv(2), of _ "[]" e] by fastforce
  next
    case (SetPagedir pd)
    then show ?thesis using set_pagedir_spec[OF inv(1), of pd] stay_effect[OF _ _ _ inv(2), of _ "[]" e] by fastforce
  next
    case (Start_Process child)
    then show ?thesis using become_process_spec[OF inv(1), of child] stay_effect[OF _ _ _ inv(2), of _ "[]" e] by fastforce
  next
    case Tick
    have "thread_ticks s < TIME_SLICE" using inv(2) by (simp add: word_less_nat_alt)
    then obtain s' where s': "timer_irq s = Some s'" "rr_inv s'"
      "if unat (thread_ticks s) < 3 then thread_ticks s' = thread_ticks s + 1 \<and> ready_list s' = ready_list s \<and> running s' = running s
       else switches s (if idle_thread s = Some (running s) then [] else [running s]) s'"
      using tick_spec[OF inv(1)] e Tick by auto
    show ?thesis
    proof (cases "unat (thread_ticks s) < 3")
      case True
      have "unat (thread_ticks s + 1) = (unat (thread_ticks s) + 1) mod 2 ^ 32" by (simp add: unat_word_ariths)
      then have "unat (thread_ticks s') = unat (thread_ticks s) + 1" using s'(3) True by simp
      then have "event_effect e s s'" using s' True Tick by (simp add: event_effect_def rr_ok_def tick_count_def)
      then show ?thesis using s' Tick by simp
    next
      case False
      then have "event_effect e s s'" using s' Tick by (intro switch_effect) auto
      then show ?thesis using s' Tick by simp
    qed
  qed
qed

text \<open>A run with \<open>n\<close> timer interrupts that gives the CPU to the threads \<open>ps\<close>, in this order.\<close>

inductive rr_run :: "int \<Rightarrow> int \<Rightarrow> sched \<Rightarrow> nat \<Rightarrow> nat list \<Rightarrow> sched \<Rightarrow> bool" for es ts where
  rr_done: "rr_run es ts s 0 [] s"
| rr_step: "possible e s \<Longrightarrow> do_event es ts e s = Some s1 \<Longrightarrow> rr_run es ts s1 n ps s' \<Longrightarrow>
    rr_run es ts s (tick_count e + n) (dispatched e s s1 @ ps) s'"

lemma event_effect_run: "frames_ok es ts \<Longrightarrow> rr_ok s \<Longrightarrow> possible e s \<Longrightarrow> do_event es ts e s = Some s1 \<Longrightarrow> event_effect e s s1"
  using event_spec by fastforce

lemma run_ok: "rr_run es ts s n ps s' \<Longrightarrow> frames_ok es ts \<Longrightarrow> rr_ok s \<Longrightarrow> rr_ok s'"
  by (induction rule: rr_run.induct) (use event_effect_run in \<open>auto simp: event_effect_def\<close>)

lemma dispatched_cases: "dispatched e s s' = [] \<or> dispatched e s s' = [running s']"
  by (cases e) auto

lemma run_fifo:
  assumes "rr_run es ts s n ps s'" "frames_ok es ts" "rr_ok s"
  shows "take (length (ready_list s)) ps = take (length ps) (ready_list s)"
  using assms
proof (induction rule: rr_run.induct)
  case (rr_step e s s1 n ps s')
  have eff: "event_effect e s s1" using event_effect_run rr_step by blast
  then have IH: "take (length (ready_list s1)) ps = take (length ps) (ready_list s1)" using rr_step by (simp add: event_effect_def)
  obtain xs where xs: "if dispatched e s s1 = [] then ready_list s1 = ready_list s @ xs
      else dispatched e s s1 = [running s1] \<and> switches s xs s1" using eff by (auto simp: event_effect_def split: if_splits)
  show ?case
  proof (cases "dispatched e s s1")
    case Nil
    then have r: "ready_list s1 = ready_list s @ xs" using xs by simp
    have "take (length (ready_list s)) (take (length (ready_list s1)) ps) = take (length (ready_list s)) (take (length ps) (ready_list s1))"
      using IH by simp
    then show ?thesis using Nil r by (simp add: min_def split: if_splits)
  next
    case (Cons p ps')
    then have sw: "dispatched e s s1 = [running s1]" "switches s xs s1" using xs by simp_all
    show ?thesis
    proof (cases "ready_list s")
      case (Cons q qs)
      then have q: "running s1 = q" "ready_list s1 = qs @ xs" using sw(2) by (simp_all add: switches_def)
      have "take (length qs) (take (length (ready_list s1)) ps) = take (length qs) (take (length ps) (ready_list s1))"
        using IH by simp
      then show ?thesis using Cons q sw(1) by (simp add: min_def split: if_splits)
    qed simp
  qed
qed simp

lemma run_ticks:
  assumes "rr_run es ts s n ps s'" "frames_ok es ts" "rr_ok s"
  shows "n + unat (thread_ticks s) \<le> 4 * length ps + unat (thread_ticks s')"
  using assms
proof (induction rule: rr_run.induct)
  case (rr_step e s s1 n ps s')
  have eff: "event_effect e s s1" using event_effect_run rr_step by blast
  then have IH: "n + unat (thread_ticks s1) \<le> 4 * length ps + unat (thread_ticks s')" using rr_step by (simp add: event_effect_def)
  have "tick_count e + unat (thread_ticks s) \<le> 4 * length (dispatched e s s1) + unat (thread_ticks s1)"
    using eff rr_step.prems(2) by (auto simp: event_effect_def switches_def rr_ok_def tick_count_def split: if_splits)
  then show ?case using IH by simp
qed simp

text \<open>Booting: \<open>thread_init\<close>, the idle thread, and the wait of \<open>thread_start\<close> for it.\<close>

definition bare :: sched where
  "bare = \<lparr>threads = Map.empty, ready_list = [], all_list = [], idle_thread = None, initial_thread = 0, running = 0,
     intr_on = False, in_intr = False, yield_on_return = False, next_tid = 1, idle_ticks = 0, kernel_ticks = 0, user_ticks = 0,
     thread_ticks = 0, active_pagedir = None\<rparr>"

definition boot :: "sched option" where
  "boot = do {
     s1 \<leftarrow> thread_init 1 bare;
     (i, s2) \<leftarrow> thread_create 8 28 ''idle'' PRI_MIN 1 0 (Some 2) s1;
     s3 \<leftarrow> block_current (s2\<lparr>intr_on := True\<rparr>);
     s4 \<leftarrow> idle_start s3;
     s5 \<leftarrow> thread_unblock 1 s4;
     idle_loop s5
   }"

definition plain_thread :: "int \<Rightarrow> thread_status \<Rightarrow> string \<Rightarrow> int \<Rightarrow> (nat \<times> nat) option \<Rightarrow> int \<Rightarrow> thread" where
  "plain_thread i st nm stk entry pri = \<lparr>tid = i, status = st, t_name = nm, t_stack = stk, t_entry = entry, priority = pri,
     pagedir = None, children_init = False, usr_thread = False, self = None, magic = THREAD_MAGIC, saved_intr = True\<rparr>"

definition booted :: sched where
  "booted = bare\<lparr>threads := [1 \<mapsto> plain_thread 1 THREAD_RUNNING ''main'' 4096 None 31,
       2 \<mapsto> plain_thread 2 THREAD_BLOCKED ''idle'' 4048 (Some (1, 0)) 0],
     all_list := [1, 2], idle_thread := Some 2, initial_thread := 1, running := 1, next_tid := 3, intr_on := True\<rparr>"

lemmas rr_defs = thread_init_def init_thread_def allocate_tid_def thread_create_def alloc_frame_def thread_unblock_def is_thread_def
  block_current_def thread_block_def schedule_def next_thread_to_run_def thread_schedule_tail_def process_activate_def thread_current_def
  idle_start_def idle_loop_def resume_def put_thread_def

lemma boot_eq: "boot = Some booted"
  by (simp add: boot_def bare_def booted_def plain_thread_def rr_defs fun_eq_iff)

lemma booted_ok: "rr_ok booted"
  by (auto simp: rr_ok_def rr_inv_def rr_wf_def thread_wf_def booted_def bare_def plain_thread_def split: if_splits)

section \<open>Properties\<close>

lemma boot_run: "boot = Some s0 \<Longrightarrow> frames_ok es ts \<Longrightarrow> rr_run es ts s0 n ps s \<Longrightarrow> rr_ok s"
  using run_ok booted_ok boot_eq by (metis option.inject)

lemma rr_run_invariant_spec:
  assumes ok: "rr_ok s"
  shows "running s \<in> dom (threads s)" "distinct (ready_list s)" "distinct (all_list s)"
    and "\<And>p t. threads s p = Some t \<Longrightarrow> (status t = THREAD_RUNNING \<longleftrightarrow> p = running s) \<and>
      (p \<in> set (ready_list s) \<longleftrightarrow> status t = THREAD_READY \<and> idle_thread s \<noteq> Some p) \<and>
      (p \<in> set (all_list s) \<longleftrightarrow> status t \<noteq> THREAD_DYING) \<and> (p = running s \<longrightarrow> active_pagedir s = pagedir t)"
proof -
  have wf: "rr_wf {running s} s" and act: "\<forall>t. threads s (running s) = Some t \<longrightarrow> active_pagedir s = pagedir t"
    using ok by (simp_all add: rr_ok_def rr_inv_def)
  show "running s \<in> dom (threads s)" "distinct (ready_list s)" "distinct (all_list s)" using rr_wfD(2,5,6)[OF wf] by blast+
  show "(status t = THREAD_RUNNING \<longleftrightarrow> p = running s) \<and>
      (p \<in> set (ready_list s) \<longleftrightarrow> status t = THREAD_READY \<and> idle_thread s \<noteq> Some p) \<and>
      (p \<in> set (all_list s) \<longleftrightarrow> status t \<noteq> THREAD_DYING) \<and> (p = running s \<longrightarrow> active_pagedir s = pagedir t)"
    if "threads s p = Some t" for p t
    using rr_wfD(1)[OF wf that] act that by (auto simp: thread_wf_def)
qed

text \<open>
  C27 (type): after booting and any sequence of yields, blocking and waking, creation of threads, start and exit of
  processes, and timer interrupts, every next operation returns, no assertion fails. (The operations are called as the code may call
  them: only blocked threads are woken, an exiting process wakes a blocked thread that waits for it, and it is a process
  that exits. A kernel thread that exits would read its status through a null pointer.) Exactly the running thread has state
  running, the ready list holds the ready threads but the idle one, the list of all threads those that have not
  exited, each once; and the page directory in use is that of the running thread.
\<close>

theorem round_robin_invariant:
  assumes "boot = Some s0" "frames_ok es ts" "rr_run es ts s0 n ps s"
  shows "(\<forall>e. possible e s \<longrightarrow> (\<exists>s'. do_event es ts e s = Some s')) \<and>
    running s \<in> dom (threads s) \<and> distinct (ready_list s) \<and> distinct (all_list s) \<and>
    (\<forall>p t. threads s p = Some t \<longrightarrow> (status t = THREAD_RUNNING \<longleftrightarrow> p = running s) \<and>
      (p \<in> set (ready_list s) \<longleftrightarrow> status t = THREAD_READY \<and> idle_thread s \<noteq> Some p) \<and>
      (p \<in> set (all_list s) \<longleftrightarrow> status t \<noteq> THREAD_DYING) \<and> (p = running s \<longrightarrow> active_pagedir s = pagedir t))"
proof -
  have ok: "rr_ok s" by (rule boot_run[OF assms])
  show ?thesis using rr_run_invariant_spec[OF ok] event_spec[OF assms(2) ok] by blast
qed

lemma demo_frames: "frames_ok 8 28"
  by (simp add: frames_ok_def)

text \<open>The first thread makes two others; then it yields.\<close>

definition demo2 :: sched where
  "demo2 = booted\<lparr>threads := (threads booted)(3 \<mapsto> plain_thread 3 THREAD_READY ''a'' 4048 (Some (5, 0)) 31,
       4 \<mapsto> plain_thread 4 THREAD_READY ''b'' 4048 (Some (5, 0)) 31),
     ready_list := [3, 4], all_list := [1, 2, 3, 4], next_tid := 5\<rparr>"

lemma demo2_run: "rr_run 8 28 booted 0 [] demo2"
proof -
  let ?s1 = "booted\<lparr>threads := (threads booted)(3 \<mapsto> plain_thread 3 THREAD_READY ''a'' 4048 (Some (5, 0)) 31),
       ready_list := [3], all_list := [1, 2, 3], next_tid := 4\<rparr>"
  have "rr_run 8 28 booted (tick_count (Create ''a'' 31 5 0 3) + (tick_count (Create ''b'' 31 5 0 4) + 0))
      (dispatched (Create ''a'' 31 5 0 3) booted ?s1 @ (dispatched (Create ''b'' 31 5 0 4) ?s1 demo2 @ [])) demo2"
    by (rule rr_step[OF _ _ rr_step[OF _ _ rr_done]])
      (simp_all add: demo2_def booted_def bare_def plain_thread_def rr_defs)
  then show ?thesis by (simp add: tick_count_def)
qed

text \<open>The first thread makes another and waits; the other becomes a process, whose exit wakes the first.\<close>

definition demo3 :: sched where
  "demo3 = booted\<lparr>threads := [1 \<mapsto> plain_thread 1 THREAD_BLOCKED ''main'' 4096 None 31,
       2 \<mapsto> plain_thread 2 THREAD_BLOCKED ''idle'' 4048 (Some (1, 0)) 0,
       3 \<mapsto> (plain_thread 3 THREAD_RUNNING ''a'' 4048 (Some (5, 0)) 31)\<lparr>self := Some 77, usr_thread := True\<rparr>],
     running := 3, all_list := [1, 2, 3], next_tid := 4\<rparr>"

lemma demo3_run: "\<exists>n ps. rr_run 8 28 booted n ps demo3"
proof -
  let ?a = "plain_thread 3 THREAD_READY ''a'' 4048 (Some (5, 0)) 31"
  let ?s1 = "booted\<lparr>threads := (threads booted)(3 \<mapsto> ?a), ready_list := [3], all_list := [1, 2, 3], next_tid := 4\<rparr>"
  let ?s2 = "booted\<lparr>threads := [1 \<mapsto> plain_thread 1 THREAD_BLOCKED ''main'' 4096 None 31,
       2 \<mapsto> plain_thread 2 THREAD_BLOCKED ''idle'' 4048 (Some (1, 0)) 0,
       3 \<mapsto> plain_thread 3 THREAD_RUNNING ''a'' 4048 (Some (5, 0)) 31], running := 3, all_list := [1, 2, 3], next_tid := 4\<rparr>"
  have 1: "do_event 8 28 (Create ''a'' 31 5 0 3) booted = Some ?s1" "possible (Create ''a'' 31 5 0 3) booted"
    by (simp_all add: booted_def bare_def plain_thread_def rr_defs)
  have 2: "do_event 8 28 Block ?s1 = Some ?s2"
    by (simp add: booted_def bare_def plain_thread_def rr_defs fun_eq_iff)
  have 3: "do_event 8 28 (Start_Process 77) ?s2 = Some demo3"
    by (simp add: demo3_def booted_def bare_def plain_thread_def become_process_def rr_defs fun_eq_iff)
  show ?thesis
    using rr_step[OF 1(2,1) rr_step[OF _ 2 rr_step[OF _ 3 rr_done]]] by fastforce
qed

theorem round_robin_invariant_witness:
  "\<exists>s'. do_event 8 28 (Exit (Some 1)) demo3 = Some s' \<and> do_event 8 28 (Exit None) booted = None \<and> distinct (all_list demo3)"
proof -
  obtain n ps where run: "rr_run 8 28 booted n ps demo3" using demo3_run by blast
  have "possible (Exit (Some 1)) demo3"
    by (simp add: demo3_def booted_def bare_def plain_thread_def blocked_def)
  moreover have "do_event 8 28 (Exit None) booted = None"
    by (simp add: booted_def bare_def plain_thread_def thread_exit_def process_exit_def read_self_def rr_defs)
  ultimately show ?thesis using round_robin_invariant[OF boot_eq demo_frames run] by blast
qed

lemma round_robin_fair_spec:
  assumes ok: "rr_ok s" "frames_ok es ts" and run: "rr_run es ts s n ps s'" and k: "k < length (ready_list s)" "4 * (k + 1) \<le> n"
  shows "take (k + 1) ps = take (k + 1) (ready_list s)"
proof -
  have "rr_ok s'" using run_ok run ok by blast
  then have "n \<le> 4 * length ps + 3" using run_ticks[OF run ok(2,1)] by (simp add: rr_ok_def)
  then have len: "k + 1 \<le> length ps" using k by presburger
  have "take (k + 1) (take (length (ready_list s)) ps) = take (k + 1) (take (length ps) (ready_list s))"
    using run_fifo[OF run ok(2,1)] by simp
  then show ?thesis using len k by (simp add: min_def split: if_splits)
qed

text \<open>
  C26 (liveness): no thread starves. The thread at position \<open>k\<close> of the ready list has the CPU at the latest when
  \<open>k + 1\<close> time slices, of four timer interrupts each, have passed, whatever the threads do; and the threads before it have had it
  before, in the order of the list.
\<close>

theorem round_robin_fair:
  assumes "boot = Some s0" "frames_ok es ts" "rr_run es ts s0 m qs s"
    and "rr_run es ts s n ps s'" "k < length (ready_list s)" "4 * (k + 1) \<le> n"
  shows "take (k + 1) ps = take (k + 1) (ready_list s)"
  by (rule round_robin_fair_spec[OF boot_run[OF assms(1-3)] assms(2,4-6)])

theorem round_robin_fair_witness:
  "\<exists>ps s'. rr_run 8 28 demo2 4 ps s' \<and> take 1 ps = [3]"
proof -
  let ?t = "\<lambda>i j. demo2\<lparr>kernel_ticks := i, thread_ticks := j\<rparr>"
  have tick: "do_event 8 28 Tick demo2 = Some (?t 1 1)" "do_event 8 28 Tick (?t 1 1) = Some (?t 2 2)" "do_event 8 28 Tick (?t 2 2) = Some (?t 3 3)"
    by (simp_all add: timer_irq_def thread_tick_def thread_current_def is_thread_def c_int64_def Let_def word_le_nat_alt demo2_def booted_def bare_def plain_thread_def)
  have pos1: "possible Tick demo2" by (simp add: counters_ok_def demo2_def booted_def bare_def)
  have pos2: "possible Tick (?t i j)" if "0 \<le> i" "i < 4" for i j
    using that by (simp_all add: counters_ok_def demo2_def booted_def bare_def)
  have ok: "rr_ok demo2" by (rule boot_run[OF boot_eq demo_frames demo2_run])
  then have "rr_ok (?t 3 3)"
    using event_effect_run[OF demo_frames _ _ tick(1)] event_effect_run[OF demo_frames _ _ tick(2)] event_effect_run[OF demo_frames _ _ tick(3)] pos1 pos2
    by (simp add: event_effect_def)
  then obtain s' where s': "do_event 8 28 Tick (?t 3 3) = Some s'" using event_spec[OF demo_frames _ pos2[of 3 3]] by auto
  have p: "possible Tick (?t 1 1)" "possible Tick (?t 2 2)" "possible Tick (?t 3 3)" using pos2 by simp_all
  have "tick_count Tick + (tick_count Tick + (tick_count Tick + (tick_count Tick + 0))) = 4" by (simp add: tick_count_def)
  then obtain ps where run: "rr_run 8 28 demo2 4 ps s'"
    using rr_step[OF pos1 tick(1) rr_step[OF p(1) tick(2) rr_step[OF p(2) tick(3) rr_step[OF p(3) s' rr_done]]]] by auto
  have "ready_list demo2 = [3, 4]" by (simp add: demo2_def)
  then have "take 1 ps = [3]" using round_robin_fair[OF boot_eq demo_frames demo2_run run, of 0] by simp
  then show ?thesis using run by blast
qed

end
