(* ===== verification/Vm_Inv.thy ===== *)
theory Vm_Inv
  imports Vm_Props
begin

text \<open>
  The invariant of demand paging: frames belong to pages of known directories or to nobody, and
  what the directory of the running process maps is in its supplemental page table with the same rights. A page
  fetch that returns keeps it, adds at most the page it was asked for and takes nothing away.
\<close>

section \<open>The supplemental page table as a map\<close>

lemma first_index_map_of:
  "map_option (\<lambda>i. g (ps ! i)) (first_index (\<lambda>p. h p = u) ps) = map_of (map (\<lambda>p. (h p, g p)) ps) u"
  by (induction ps) (auto simp: option.map_comp comp_def)

definition rights :: "page \<Rightarrow> u32 \<times> bool" where
  "rights p = (p_upage p, p_writable p)"

lemma page_is_writable_map: "page_is_writable u s = map_of (map rights (cur_pages s)) u"
proof -
  have "page_is_writable u s = map_option (\<lambda>i. p_writable (cur_pages s ! i)) (find_upage u s)"
    by (simp add: page_is_writable_def map_option_case split: option.splits)
  also have "\<dots> = map_of (map rights (cur_pages s)) u"
    unfolding find_upage_def find_page_def using first_index_map_of [of p_writable "cur_pages s" p_upage u]
    by (simp add: match_upage_def [abs_def] rights_def [abs_def])
  finally show ?thesis .
qed

lemma find_upage_writable: "find_upage u s = None \<longleftrightarrow> page_is_writable u s = None"
  by (cases "find_upage u s") (simp_all add: page_is_writable_def)

lemma set_cur_pages_simps [simp]:
  "cur_pages (set_cur_pages ps s) = ps" "cur_pagedir (set_cur_pages ps s) = cur_pagedir s" "cur_thread (set_cur_pages ps s) = cur_thread s"
  "files (set_cur_pages ps s) = files s" "set_cur_pages ps (set_cur_pages qs s) = set_cur_pages ps s" "cr3 (set_cur_pages ps s) = cr3 s"
  "set_cur_pages (cur_pages s) s = s"
  by (simp_all add: set_cur_pages_def cur_pages_def cur_pagedir_def)

lemma map_list_update_same: "(\<And>x. h (g x) = h x) \<Longrightarrow> map h (xs[i := g (xs ! i)]) = map h xs"
  by (cases "i < length xs") (auto intro!: nth_equalityI simp: nth_list_update)

section \<open>The invariant\<close>

text \<open>\<open>pg_round_down\<close> is not part of the sources: what is documented of it.\<close>

definition round_ok :: "('d, 'f) vm_ops \<Rightarrow> bool" where
  "round_ok ops \<longleftrightarrow> (\<forall>a. is_user_vaddr (hw ops) a \<longrightarrow>
     same_slot (hw ops) a (pg_round_down ops a) \<and> is_user_vaddr (hw ops) (pg_round_down ops a) \<and> pg_ofs (hw ops) (pg_round_down ops a) = 0)"

definition vm_inv :: "('d, 'f) vm_ops \<Rightarrow> u32 set \<Rightarrow> ('d, 'f) vmm \<Rightarrow> bool" where
  "vm_inv ops D s \<longleftrightarrow> mmu_ok (hw ops) \<and> vm_wf (hw ops) D s \<and> cur_pagedir s \<in> D \<and> cr3 s = cur_pagedir s \<and>
     (\<forall>f\<in>set (frame_table s). f_pd f = 0 \<or> pd_key_ok (hw ops) D (frame_key f)) \<and>
     (\<not> fail_on_next s \<longrightarrow> next_frame s < length (frame_table s)) \<and>
     (\<forall>p\<in>set (cur_pages s). p_pd p = cur_pagedir s) \<and>
     (\<forall>u k w. pd_map (hw ops) D s (cur_pagedir s, u) = Some (k, w) \<longrightarrow> page_is_writable u s = Some w)"

lemma vm_invD:
  assumes "vm_inv ops D s"
  shows "mmu_ok (hw ops)" "vm_wf (hw ops) D s" "cur_pagedir s \<in> D" "cr3 s = cur_pagedir s"
    "f \<in> set (frame_table s) \<Longrightarrow> f_pd f = 0 \<or> pd_key_ok (hw ops) D (frame_key f)"
    "\<not> fail_on_next s \<Longrightarrow> next_frame s < length (frame_table s)" "p \<in> set (cur_pages s) \<Longrightarrow> p_pd p = cur_pagedir s"
    "pd_map (hw ops) D s (cur_pagedir s, u) = Some (k, w) \<Longrightarrow> page_is_writable u s = Some w"
  using assms unfolding vm_inv_def by blast+

text \<open>\<open>vm_grows\<close>: the invariant holds, and what was mapped still is.\<close>

definition vm_grows :: "('d, 'f) vm_ops \<Rightarrow> u32 set \<Rightarrow> ('d, 'f) vmm \<Rightarrow> ('d, 'f) vmm \<Rightarrow> bool" where
  "vm_grows ops D s s' \<longleftrightarrow> vm_inv ops D s' \<and> pd_map (hw ops) D s \<subseteq>\<^sub>m pd_map (hw ops) D s' \<and> cur_pagedir s' = cur_pagedir s"

lemma vm_grows_refl: "vm_inv ops D s \<Longrightarrow> vm_grows ops D s s"
  by (simp add: vm_grows_def)

lemma vm_growsD: "vm_grows ops D m m' \<Longrightarrow> vm_inv ops D m'"
  by (simp add: vm_grows_def)

lemma vm_grows_trans: "vm_grows ops D s s1 \<Longrightarrow> vm_grows ops D s1 s2 \<Longrightarrow> vm_grows ops D s s2"
  unfolding vm_grows_def using map_le_trans by auto

text \<open>Steps that keep the tables and the frames.\<close>

definition same_maps :: "('d, 'f) vm_ops \<Rightarrow> u32 set \<Rightarrow> ('d, 'f) vmm \<Rightarrow> ('d, 'f) vmm \<Rightarrow> bool" where
  "same_maps ops D s s' \<longleftrightarrow> vm_wf (hw ops) D s' \<and> pd_map (hw ops) D s' = pd_map (hw ops) D s \<and> cr3 s' = cr3 s \<and>
     cur_pagedir s' = cur_pagedir s \<and> frame_table s' = frame_table s \<and> next_frame s' = next_frame s \<and> fail_on_next s' = fail_on_next s \<and>
     map rights (cur_pages s') = map rights (cur_pages s) \<and> map p_pd (cur_pages s') = map p_pd (cur_pages s)"

lemma same_maps_ext:
  assumes inv: "vm_inv ops D s" and s: "same_maps ops D s s'"
  shows "vm_grows ops D s s'"
proof -
  have w: "page_is_writable u s' = page_is_writable u s" for u using s by (simp add: page_is_writable_map same_maps_def)
  have pd: "p_pd ` set (cur_pages s') = p_pd ` set (cur_pages s)" using s unfolding same_maps_def by (metis list.set_map)
  have "\<forall>p\<in>set (cur_pages s). p_pd p = cur_pagedir s" using vm_invD(7)[OF inv] by blast
  then have "p_pd ` set (cur_pages s') \<subseteq> {cur_pagedir s}" unfolding pd by blast
  then have "\<forall>p\<in>set (cur_pages s'). p_pd p = cur_pagedir s" by blast
  then show ?thesis using inv s w unfolding vm_grows_def vm_inv_def same_maps_def by simp
qed

lemma same_maps_refl: "vm_wf (hw ops) D s \<Longrightarrow> same_maps ops D s s"
  by (simp add: same_maps_def)

lemma same_maps_trans: "same_maps ops D s s1 \<Longrightarrow> same_maps ops D s1 s2 \<Longrightarrow> same_maps ops D s s2"
  by (simp add: same_maps_def)

lemma same_maps_wf: "same_maps ops D s s' \<Longrightarrow> vm_wf (hw ops) D s'"
  by (simp add: same_maps_def)

lemma same_maps_more:
  fixes s s' :: "('d, 'f) vmm"
  assumes "vm_wf (hw ops) D s'" "pd_map (hw ops) D s' = pd_map (hw ops) D s" "vm.more s' = vm.more s" "cr3 s' = cr3 s"
  shows "same_maps ops D s s'"
  using assms vmm_more [OF assms(3)] cur_pages_more(1,2) [OF assms(3)] by (simp add: same_maps_def)

lemma same_maps_fields [simp]:
  "same_maps ops D s (t\<lparr>ram := r\<rparr>) = same_maps ops D s t" "same_maps ops D s (t\<lparr>swap_space := sw\<rparr>) = same_maps ops D s t"
  "same_maps ops D s (t\<lparr>files := fs\<rparr>) = same_maps ops D s t"
  by (simp_all add: same_maps_def cur_pages_def cur_pagedir_def)

lemma same_maps_update_page:
  assumes "vm_wf (hw ops) D s" "\<And>p. rights (g p) = rights p" "\<And>p. p_pd (g p) = p_pd p"
  shows "same_maps ops D s (update_page i g s)"
  using assms(1) map_list_update_same [of rights g, OF assms(2)] map_list_update_same [of p_pd g, OF assms(3)]
  by (simp add: same_maps_def update_page_def) (simp add: set_cur_pages_def)

section \<open>Flags and contents\<close>

lemma flag_same:
  fixes s :: "('d, 'f) vmm"
  assumes "mmu_ok (hw ops)" "flag = PTE_A (hw ops) \<or> flag = PTE_D (hw ops)" "vm_wf (hw ops) D s" "pd_key_ok (hw ops) D (pd, va)"
    and "pagedir_flag (hw ops) flag pd va on s = Some s'"
  shows "same_maps ops D s s'"
  using flag_keeps [OF assms(1-4), of on] assms(5) same_maps_more by (metis option.inject)

lemma set_flag_same:
  fixes s :: "('d, 'f) vmm"
  assumes "mmu_ok (hw ops)" "vm_wf (hw ops) D s" "pd_key_ok (hw ops) D (pd, va)"
  shows "pagedir_set_accessed (hw ops) pd va on s = Some s' \<Longrightarrow> same_maps ops D s s'"
    "pagedir_set_dirty (hw ops) pd va on s = Some s' \<Longrightarrow> same_maps ops D s s'"
  using flag_same [OF assms(1) _ assms(2,3)] unfolding pagedir_set_accessed_def pagedir_set_dirty_def by blast+

lemma user_write_same:
  assumes "mmu_ok (hw ops)" "vm_wf (hw ops) D s" "pd_key_ok (hw ops) D (cr3 s, va)" "user_write ops va bytes s = Some s'"
  shows "same_maps ops D s s'"
proof (cases "bytes = []")
  case True
  then show ?thesis using assms(2,4) by (simp add: user_write_def same_maps_refl)
next
  case False
  then obtain s1 s2 r where s: "pagedir_set_accessed (hw ops) (cr3 s) va True s = Some s1"
      "pagedir_set_dirty (hw ops) (cr3 s) va True s1 = Some s2" "s' = s2\<lparr>ram := r\<rparr>"
    using assms(4) by (auto simp: user_write_def split: Option.bind_splits)
  have 1: "same_maps ops D s s1" by (rule set_flag_same(1) [OF assms(1-3) s(1)])
  have "same_maps ops D s1 s2" by (rule set_flag_same(2) [OF assms(1) same_maps_wf [OF 1] assms(3) s(2)])
  then show ?thesis using same_maps_trans [OF 1] s(3) by simp
qed

lemma page_write_data_same:
  assumes inv: "vm_inv ops D s" and u: "is_user_vaddr (hw ops) u" "pg_ofs (hw ops) u = 0" and w: "page_write_data ops u s = Some (b, s')"
  shows "same_maps ops D s s'"
proof (cases "find_upage u s")
  case None
  then show ?thesis using w vm_invD(2) [OF inv] by (simp add: page_write_data_def same_maps_refl)
next
  case (Some i)
  let ?p = "cur_pages s ! i"
  have "i < length (cur_pages s)" using first_index_Some Some unfolding find_upage_def find_page_def by blast
  then have pd: "p_pd ?p = cur_pagedir s" using vm_invD(7) [OF inv] by simp
  have key: "pd_key_ok (hw ops) D (cur_pagedir s, u)" using vm_invD(3) [OF inv] u by (simp add: pd_key_ok_def)
  have dirty: "same_maps ops D t s'" if "pagedir_set_dirty (hw ops) (cur_pagedir s) u False t = Some s'" "vm_wf (hw ops) D t" for t
    by (rule set_flag_same(2) [OF vm_invD(1) [OF inv] that(2) key that(1)])
  show ?thesis
  proof (cases "p_file ?p = 0")
    case False
    then obtain bytes s1 where s1: "user_write ops u bytes s = Some s1" "pagedir_set_dirty (hw ops) (cur_pagedir s) u False s1 = Some s'"
      using w Some pd by (auto simp: page_write_data_def Let_def split: Option.bind_splits)
    have "same_maps ops D s s1"
      using user_write_same [OF vm_invD(1,2) [OF inv]] key s1(1) vm_invD(4) [OF inv] by simp
    then show ?thesis using dirty [OF s1(2)] same_maps_trans same_maps_wf by blast
  next
    case True
    show ?thesis
    proof (cases "p_ss ?p")
      case None
      then show ?thesis using w Some True vm_invD(2) [OF inv] by (simp add: page_write_data_def same_maps_refl)
    next
      case (Some ss)
      then obtain r sw where t: "pagedir_set_dirty (hw ops) (cur_pagedir s) u False (s\<lparr>ram := r, swap_space := sw\<rparr>) = Some s'"
        using w \<open>find_upage u s = Some i\<close> True pd by (auto simp: page_write_data_def Let_def split: Option.bind_splits)
      have "same_maps ops D s (s\<lparr>ram := r, swap_space := sw\<rparr>)" using same_maps_refl [OF vm_invD(2) [OF inv]] by simp
      moreover have "same_maps ops D (s\<lparr>ram := r, swap_space := sw\<rparr>) s'" by (rule dirty [OF t]) (use vm_invD(2) [OF inv] in simp)
      ultimately show ?thesis by (rule same_maps_trans)
    qed
  qed
qed

section \<open>Frames\<close>

lemma clock_loop_same:
  fixes s :: "('d, 'f) vmm"
  assumes M: "mmu_ok (hw ops)"
  shows "vm_wf (hw ops) D s \<Longrightarrow> \<forall>f\<in>set fs. f_pd f = 0 \<or> pd_key_ok (hw ops) D (frame_key f) \<Longrightarrow>
    clock_loop (hw ops) fs i s = Some (r, s') \<Longrightarrow> same_maps ops D s s' \<and> (\<forall>j. r = Some j \<longrightarrow> j < i + length fs)"
proof (induction fs arbitrary: i s)
  case Nil
  then show ?case by (auto simp: same_maps_refl split: if_splits)
next
  case (Cons f fs)
  obtain a where a: "pagedir_is_accessed (hw ops) (f_pd f) (f_upage f) s = Some a" using Cons.prems(3) by (auto split: Option.bind_splits)
  then have "f_pd f \<noteq> 0" by (auto simp: pagedir_is_accessed_def pagedir_test_def lookup_page_def)
  then have key: "pd_key_ok (hw ops) D (frame_key f)" using Cons.prems(2) by simp
  show ?case
  proof (cases a)
    case False
    then show ?thesis using Cons.prems(1,3) a by (auto simp: same_maps_refl)
  next
    case True
    then obtain s1 where s1: "pagedir_set_accessed (hw ops) (f_pd f) (f_upage f) False s = Some s1" "clock_loop (hw ops) fs (Suc i) s1 = Some (r, s')"
      using Cons.prems(3) a by (auto split: Option.bind_splits)
    have 1: "same_maps ops D s s1" by (rule set_flag_same(1) [OF M Cons.prems(1) key s1(1)])
    have "same_maps ops D s1 s' \<and> (\<forall>j. r = Some j \<longrightarrow> j < Suc i + length fs)"
      by (rule Cons.IH [OF same_maps_wf [OF 1] _ s1(2)]) (use Cons.prems(2) in simp)
    then show ?thesis using same_maps_trans [OF 1] by simp
  qed
qed

text \<open>A frame is chosen: the tables stay, only the hand of the initial sweep moves.\<close>

lemma get_next_frame_inv:
  assumes inv: "vm_inv ops D s" and g: "get_next_frame ops s = Some (i, s1)"
  shows "vm_grows ops D s s1" "pd_map (hw ops) D s1 = pd_map (hw ops) D s" "i < length (frame_table s1)"
    "frame_table s1 = frame_table s" "map rights (cur_pages s1) = map rights (cur_pages s)"
proof -
  have "vm_grows ops D s s1 \<and> pd_map (hw ops) D s1 = pd_map (hw ops) D s \<and> i < length (frame_table s1) \<and>
    frame_table s1 = frame_table s \<and> map rights (cur_pages s1) = map rights (cur_pages s)"
  proof (cases "fail_on_next s")
    case True
    then obtain s' where c: "clock_loop (hw ops) (frame_table s) 0 s = Some (Some i, s')" and e: "evict_frame ops (frame_table s' ! i) s' = Some s1"
      using g by (auto simp: get_next_frame_def frame_clock_def split: Option.bind_splits)
    have 1: "same_maps ops D s s'" "i < length (frame_table s)"
      using clock_loop_same [OF vm_invD(1,2) [OF inv] _ c] vm_invD(5) [OF inv] by simp_all
    obtain sw j ss where s1: "s1 = update_page j (\<lambda>p. p\<lparr>p_ss := Some ss, p_active := False\<rparr>) (s'\<lparr>swap_space := sw\<rparr>)"
      using e by (auto simp: evict_frame_def page_set_swap_def split: Option.bind_splits)
    have "same_maps ops D (s'\<lparr>swap_space := sw\<rparr>) s1"
      unfolding s1 by (rule same_maps_update_page) (use same_maps_wf [OF 1(1)] in \<open>simp_all add: rights_def\<close>)
    moreover have "same_maps ops D s (s'\<lparr>swap_space := sw\<rparr>)" using 1(1) by simp
    ultimately have "same_maps ops D s s1" using same_maps_trans by blast
    then show ?thesis using same_maps_ext [OF inv] 1(2) by (simp add: same_maps_def)
  next
    case False
    then have i: "i = next_frame s" "i < length (frame_table s)"
      and s1: "s1 = (if Suc i = length (frame_table s) then s\<lparr>next_frame := 0, fail_on_next := True\<rparr> else s\<lparr>next_frame := Suc i\<rparr>)"
      using g vm_invD(6) [OF inv] by (auto simp: get_next_frame_def Let_def split: if_splits)
    have "cur_pages s1 = cur_pages s" "cur_pagedir s1 = cur_pagedir s" by (simp_all add: s1 cur_pages_def cur_pagedir_def)
    moreover have "frame_table s1 = frame_table s" "vm_wf (hw ops) D s1 = vm_wf (hw ops) D s" "pd_map (hw ops) D s1 = pd_map (hw ops) D s"
      "cr3 s1 = cr3 s" by (simp_all add: s1)
    moreover have "\<not> fail_on_next s1 \<Longrightarrow> next_frame s1 < length (frame_table s)" using i(2) by (simp add: s1 split: if_splits)
    ultimately show ?thesis using inv i(2) by (simp add: vm_grows_def vm_inv_def page_is_writable_map)
  qed
  then show "vm_grows ops D s s1" "pd_map (hw ops) D s1 = pd_map (hw ops) D s" "i < length (frame_table s1)"
    "frame_table s1 = frame_table s" "map rights (cur_pages s1) = map rights (cur_pages s)" by blast+
qed

lemma frame_alloc_inv:
  assumes inv: "vm_inv ops D s" and a: "frame_alloc ops u w s = Some (kpage, s')"
  shows "vm_wf (hw ops) D s'" "pd_map (hw ops) D s' = (pd_map (hw ops) D s)((cur_pagedir s, u) \<mapsto> (kpage, w))"
    "pd_map (hw ops) D s (cur_pagedir s, u) = None" "cr3 s' = cr3 s" "cur_pagedir s' = cur_pagedir s"
    "map rights (cur_pages s') = map rights (cur_pages s)" "\<forall>p\<in>set (cur_pages s'). p_pd p = cur_pagedir s"
    "\<forall>f\<in>set (frame_table s'). f_pd f = 0 \<or> pd_key_ok (hw ops) D (frame_key f)"
    "\<not> fail_on_next s' \<Longrightarrow> next_frame s' < length (frame_table s')"
    "is_user_vaddr (hw ops) u" "pg_ofs (hw ops) u = 0"
proof -
  let ?M = "hw ops" and ?pd = "cur_pagedir s"
  obtain i s1 s2 where g: "get_next_frame ops s = Some (i, s1)"
    and sp: "pagedir_set_page ?M ?pd u kpage w s1 = Some (True, s2)"
    and s': "s' = s2\<lparr>frame_table := (frame_table s2)[i := (frame_table s2 ! i)\<lparr>f_upage := u, f_pd := ?pd\<rparr>]\<rparr>"
    using a by (auto simp: frame_alloc_def Let_def kernel_simps split: Option.bind_splits)
  note n = get_next_frame_inv [OF inv g]
  have inv1: "vm_inv ops D s1" "cur_pagedir s1 = ?pd" using n(1) by (simp_all add: vm_grows_def)
  note M = vm_invD(1) [OF inv] and wf1 = vm_invD(2) [OF inv1(1)] and pd = vm_invD(3) [OF inv]
  have pre: "set_page_pre ?M s1 ?pd u kpage" "\<not> is_set (pte_val ?M s1 ?pd u) (PTE_P ?M)"
    using set_page_pre_holds [OF M wf1 pd sp] by simp_all
  obtain t where "pagedir_set_page ?M ?pd u kpage w s1 = Some (True, t)" "vm.more t = vm.more s1" "cr3 t = cr3 s1"
    using pagedir_set_page_spec [OF M wf1 pd pre, of w] vm_updD(3,4) by blast
  then have more: "vm.more s2 = vm.more s1" "cr3 s2 = cr3 s1" using sp by simp_all
  have law: "vm_wf ?M D s2 \<and> pd_map ?M D s1 (?pd, u) = None \<and> pd_map ?M D s2 = (pd_map ?M D s1)((?pd, u) \<mapsto> (kpage, w))"
    by (rule pd_set_law [OF M wf1]) (use sp pd in \<open>simp add: pd_set_def\<close>)
  note m2 = vmm_more [OF more(1)] cur_pages_more [OF more(1)]
  have s'2: "cur_pages s' = cur_pages s1" "cur_pagedir s' = ?pd"
    using m2 inv1(2) by (simp_all add: s' cur_pages_def cur_pagedir_def)
  show "vm_wf ?M D s'" "pd_map ?M D s' = (pd_map ?M D s)((?pd, u) \<mapsto> (kpage, w))" "pd_map ?M D s (?pd, u) = None"
    using law n(2) by (simp_all add: s')
  show "cr3 s' = cr3 s" using more(2) vm_invD(4) [OF inv1(1)] vm_invD(4) [OF inv] inv1(2) by (simp add: s')
  show "cur_pagedir s' = ?pd" by (rule s'2(2))
  show "map rights (cur_pages s') = map rights (cur_pages s)" using n(5) s'2(1) by simp
  show "\<forall>p\<in>set (cur_pages s'). p_pd p = ?pd" using vm_invD(7) [OF inv1(1)] inv1(2) s'2(1) by simp
  show k: "is_user_vaddr ?M u" "pg_ofs ?M u = 0" using pre(1) by (simp_all add: set_page_pre_def)
  have "pd_key_ok ?M D (?pd, u)" using pd k by (simp add: pd_key_ok_def)
  then show "\<forall>f\<in>set (frame_table s'). f_pd f = 0 \<or> pd_key_ok ?M D (frame_key f)"
    using vm_invD(5) [OF inv1(1)] m2(1) set_update_subset_insert [of "frame_table s1" i] by (fastforce simp: s')
  show "next_frame s' < length (frame_table s')" if "\<not> fail_on_next s'"
    using vm_invD(6) [OF inv1(1)] m2(1-3) that by (simp add: s')
qed

lemma page_set_frame_rights:
  assumes "page_set_frame ops u kpage w s = Some s'"
  shows "page_is_writable u s' = Some w" "v \<noteq> u \<Longrightarrow> page_is_writable v s' = page_is_writable v s"
    "set (map p_pd (cur_pages s')) \<subseteq> insert (cur_pagedir s) (set (map p_pd (cur_pages s)))"
    "\<exists>ps. s' = set_cur_pages ps s"
proof -
  have up: "map rights (cur_pages (update_page i (\<lambda>p. p\<lparr>p_active := True, p_frame := kpage\<rparr>) t)) = map rights (cur_pages t)"
    "map p_pd (cur_pages (update_page i (\<lambda>p. p\<lparr>p_active := True, p_frame := kpage\<rparr>) t)) = map p_pd (cur_pages t)" for i and t :: "('a, 'b) vmm"
    unfolding update_page_def set_cur_pages_simps by (rule map_list_update_same, simp add: rights_def)+
  have "page_is_writable u s' = Some w \<and> (v \<noteq> u \<longrightarrow> page_is_writable v s' = page_is_writable v s) \<and>
    set (map p_pd (cur_pages s')) \<subseteq> insert (cur_pagedir s) (set (map p_pd (cur_pages s))) \<and> (\<exists>ps. s' = set_cur_pages ps s)"
  proof (cases "find_upage u s")
    case None
    then have n: "map_of (map rights (cur_pages s)) u = None" by (simp add: find_upage_writable page_is_writable_map)
    define q where "q = \<lparr>p_pd = cur_pagedir s, p_frame = 0, p_upage = u, p_active = False, p_file = 0, p_off = 0, p_writable = w, p_ss = None\<rparr>"
    have s': "s' = update_page (length (cur_pages s)) (\<lambda>p. p\<lparr>p_active := True, p_frame := kpage\<rparr>) (set_cur_pages (cur_pages s @ [q]) s)"
      using assms None by (auto simp: page_set_frame_def page_alloc_def q_def kernel_simps split: if_splits Option.bind_splits)
    have "map rights (cur_pages s') = map rights (cur_pages s) @ [(u, w)]" unfolding s' up by (simp add: q_def rights_def)
    then have r: "page_is_writable x s' = map_of (map rights (cur_pages s) @ [(u, w)]) x" for x by (simp add: page_is_writable_map)
    have "set (map p_pd (cur_pages s')) = insert (cur_pagedir s) (set (map p_pd (cur_pages s)))" unfolding s' up by (simp add: q_def)
    moreover have "\<exists>ps. s' = set_cur_pages ps s" unfolding s' update_page_def by (auto simp: set_cur_pages_def)
    ultimately show ?thesis using r n by (simp add: page_is_writable_map map_add_def split: option.splits)
  next
    case (Some i)
    then have s': "p_writable (cur_pages s ! i) = w" "s' = update_page i (\<lambda>p. p\<lparr>p_active := True, p_frame := kpage\<rparr>) s"
      using assms by (simp_all add: page_set_frame_def kernel_simps)
    have "map rights (cur_pages s') = map rights (cur_pages s)" unfolding s'(2) by (rule up)
    then have "page_is_writable x s' = page_is_writable x s" for x by (simp add: page_is_writable_map)
    moreover have "page_is_writable u s = Some w" using Some s'(1) by (simp add: page_is_writable_def)
    moreover have "set (map p_pd (cur_pages s')) = set (map p_pd (cur_pages s))" unfolding s'(2) up ..
    moreover have "\<exists>ps. s' = set_cur_pages ps s" unfolding s'(2) update_page_def by blast
    ultimately show ?thesis by auto
  qed
  then show "page_is_writable u s' = Some w" "v \<noteq> u \<Longrightarrow> page_is_writable v s' = page_is_writable v s"
    "set (map p_pd (cur_pages s')) \<subseteq> insert (cur_pagedir s) (set (map p_pd (cur_pages s)))" "\<exists>ps. s' = set_cur_pages ps s" by auto
qed

lemma set_cur_pages_vm [simp]:
  "vm_wf M D (set_cur_pages ps s) = vm_wf M D s" "pd_map M D (set_cur_pages ps s) = pd_map M D s"
  "cr3 (set_cur_pages ps s) = cr3 s" "frame_table (set_cur_pages ps s) = frame_table s"
  "next_frame (set_cur_pages ps s) = next_frame s" "fail_on_next (set_cur_pages ps s) = fail_on_next s" "ram (set_cur_pages ps s) = ram s"
  by (simp_all add: set_cur_pages_def)

text \<open>A frame is taken for a page and entered in the table of the process.\<close>

lemma frame_page_inv:
  assumes inv: "vm_inv ops D s" and a: "frame_alloc ops u w s = Some (kpage, s1)" and p: "page_set_frame ops u kpage w s1 = Some s2"
  shows "vm_grows ops D s s2" "pd_map (hw ops) D s2 = (pd_map (hw ops) D s)((cur_pagedir s, u) \<mapsto> (kpage, w))"
    "pd_map (hw ops) D s (cur_pagedir s, u) = None" "is_user_vaddr (hw ops) u" "pg_ofs (hw ops) u = 0"
proof -
  note f = frame_alloc_inv [OF inv a] and r = page_set_frame_rights [OF p]
  obtain ps where s2: "s2 = set_cur_pages ps s1" using r(4) by blast
  have w1: "page_is_writable v s1 = page_is_writable v s" for v using f(6) by (simp add: page_is_writable_map)
  have pds: "\<forall>q\<in>set (cur_pages s2). p_pd q = cur_pagedir s"
  proof
    fix q assume "q \<in> set (cur_pages s2)"
    then have "p_pd q \<in> set (map p_pd (cur_pages s2))" by simp
    then show "p_pd q = cur_pagedir s" using r(3) f(5,7) by auto
  qed
  show m: "pd_map (hw ops) D s2 = (pd_map (hw ops) D s)((cur_pagedir s, u) \<mapsto> (kpage, w))" using f(2) by (simp add: s2)
  have "page_is_writable v s2 = Some w'" if "pd_map (hw ops) D s2 (cur_pagedir s, v) = Some (k, w')" for v k w'
    using that m r(1) r(2) [of v] w1 vm_invD(8) [OF inv] by (cases "v = u") auto
  moreover have "\<not> fail_on_next s2 \<Longrightarrow> next_frame s2 < length (frame_table s2)" using f(9) by (simp add: s2)
  moreover have "cur_pagedir s2 = cur_pagedir s" "vm_wf (hw ops) D s2" "cr3 s2 = cur_pagedir s" "frame_table s2 = frame_table s1"
    using f(1,4,5) vm_invD(4) [OF inv] by (simp_all add: s2)
  ultimately have "vm_inv ops D s2" unfolding vm_inv_def using vm_invD(1,3) [OF inv] pds f(8) by auto
  moreover have "pd_map (hw ops) D s \<subseteq>\<^sub>m pd_map (hw ops) D s2" using m f(3) by (auto simp: map_le_def)
  ultimately show "vm_grows ops D s s2" using \<open>cur_pagedir s2 = cur_pagedir s\<close> by (simp add: vm_grows_def)
  show "pd_map (hw ops) D s (cur_pagedir s, u) = None" "is_user_vaddr (hw ops) u" "pg_ofs (hw ops) u = 0" by (rule f)+
qed

section \<open>Unused frames\<close>

text \<open>The frames that have not been handed out yet, in the order in which they will be.\<close>

definition free_frames :: "('d, 'f) vmm \<Rightarrow> u32 list" where
  "free_frames m = (if fail_on_next m then [] else map f_kpage (drop (next_frame m) (frame_table m)))"

lemma free_frames_set [simp]: "free_frames (set_cur_pages ps m) = free_frames m" "free_frames (m\<lparr>ram := r\<rparr>) = free_frames m"
  by (simp_all add: free_frames_def)

lemma frame_alloc_free:
  assumes inv: "vm_inv ops D m" and a: "frame_alloc ops u w m = Some (kpage, m1)" and f: "free_frames m = k # ks"
  shows "kpage = k" "free_frames m1 = ks" "ram m1 = ram m"
proof -
  let ?n = "next_frame m" and ?t = "frame_table m"
  have n: "\<not> fail_on_next m" "?n < length ?t" using f by (simp_all add: free_frames_def split: if_splits) (metis drop_all list.distinct(1) list.simps(8) not_le)
  then have d: "k = f_kpage (?t ! ?n)" "ks = map f_kpage (drop (Suc ?n) ?t)"
    using f by (simp_all add: free_frames_def Cons_nth_drop_Suc [symmetric])
  define s1 where "s1 = (if Suc ?n = length ?t then m\<lparr>next_frame := 0, fail_on_next := True\<rparr> else m\<lparr>next_frame := Suc ?n\<rparr>)"
  have g: "get_next_frame ops m = Some (?n, s1)" using n(1) by (simp add: get_next_frame_def s1_def Let_def)
  have s1: "frame_table s1 = ?t" "cur_pagedir s1 = cur_pagedir m" "ram s1 = ram m" by (simp_all add: s1_def cur_pagedir_def)
  obtain s2 where sp: "pagedir_set_page (hw ops) (cur_pagedir m) u kpage w s1 = Some (True, s2)"
    and m1: "m1 = s2\<lparr>frame_table := (frame_table s2)[?n := (frame_table s2 ! ?n)\<lparr>f_upage := u, f_pd := cur_pagedir m\<rparr>]\<rparr>"
    and kp: "kpage = f_kpage (?t ! ?n)"
    using a g s1(1) by (auto simp: frame_alloc_def Let_def kernel_simps split: Option.bind_splits)
  have i1: "vm_inv ops D s1" using get_next_frame_inv(1) [OF inv g] by (rule vm_growsD)
  note pre = set_page_pre_holds [OF vm_invD(1,2) [OF i1] vm_invD(3) [OF inv] sp]
  obtain t where "pagedir_set_page (hw ops) (cur_pagedir m) u kpage w s1 = Some (True, t)" "vm.more t = vm.more s1"
    using pagedir_set_page_spec [OF vm_invD(1,2) [OF i1] vm_invD(3) [OF inv], of u kpage w] pre vm_updD(4) by blast
  then have more: "vm.more s2 = vm.more s1" using sp by simp
  note mm = vmm_more [OF more]
  show "kpage = k" using kp d(1) by simp
  show "ram m1 = ram m" using mm(4) s1(3) by (simp add: m1)
  have "frame_table m1 = ?t[?n := (?t ! ?n)\<lparr>f_upage := u, f_pd := cur_pagedir m\<rparr>]" using mm(1) s1(1) by (simp add: m1)
  moreover have "fail_on_next m1 = fail_on_next s1" "next_frame m1 = next_frame s1" using mm(2,3) by (simp_all add: m1)
  ultimately show "free_frames m1 = ks"
    using n(2) d(2) by (auto simp: free_frames_def s1_def n(1) drop_update_swap split: if_splits)
qed

lemma page_set_frame_fields:
  assumes "page_set_frame ops u k w m = Some m'"
  shows "free_frames m' = free_frames m" "ram m' = ram m"
  using page_set_frame_rights(4) [OF assms] by auto

text \<open>A mapped page is not given a frame.\<close>

lemma frame_alloc_mapped_None:
  "vm_inv ops D m \<Longrightarrow> pd_map (hw ops) D m (cur_pagedir m, u) \<noteq> None \<Longrightarrow> frame_alloc ops u w m = None"
  using frame_alloc_inv(3) [of ops D m u w] by (cases "frame_alloc ops u w m") auto

text \<open>A page for a new page table comes from the kernel pool: \<open>pool_has M n A\<close> when \<open>n\<close> more pages can be taken while \<open>A\<close> is in use.\<close>

fun pool_has :: "'m mmu_scheme \<Rightarrow> nat \<Rightarrow> u32 set \<Rightarrow> bool" where
  "pool_has M 0 A \<longleftrightarrow> True"
| "pool_has M (Suc n) A \<longleftrightarrow> (\<forall>ps. dom ps = A \<longrightarrow> (\<exists>pt. palloc_get_page M ps = Some pt \<and> pool_has M n (insert pt A)))"

lemma pool_has_Suc: "pool_has M (Suc n) A \<Longrightarrow> pool_has M n A"
proof (induction n arbitrary: A)
  case (Suc n)
  then show ?case by (subst pool_has.simps) (metis pool_has.simps(2))
qed simp

lemma put_pte_dom: "put_pte l e vm = Some vm' \<Longrightarrow> dom (pages vm') = dom (pages vm)"
  by (auto simp: put_pte_def split: Option.bind_splits if_splits)

lemma set_page_pool:
  assumes s: "pagedir_set_page M pd u k w vm = Some r" and p: "pool_has M (Suc n) (dom (pages vm))"
  shows "pool_has M n (dom (pages (snd r)))"
proof -
  obtain l vm1 vm2 e where 1: "lookup_page M pd u True vm = Some (Some l, vm1)" "put_pte l e vm1 = Some vm2" "r = (True, vm2)"
    using s by (auto simp: pagedir_set_page_def kernel_simps split: Option.bind_splits)
  have "dom (pages vm1) = dom (pages vm) \<or> (\<exists>pt. palloc_get_page M (pages vm) = Some pt \<and> dom (pages vm1) = insert pt (dom (pages vm)))"
    using 1(1) put_pte_dom by (fastforce simp: lookup_page_def kernel_simps split: Option.bind_splits if_splits option.splits)
  then show ?thesis using pool_has_Suc [OF p] p put_pte_dom [OF 1(2)] 1(3) by (auto dest: spec [of _ "pages vm"])
qed

text \<open>What loading a page into an unused frame needs.\<close>

definition frame_good :: "'m mmu_scheme \<Rightarrow> u32 \<Rightarrow> bool" where
  "frame_good M k \<longleftrightarrow> pg_ofs M k = 0 \<and> drop_bit (PTSHIFT M) (vtop M k) < init_ram_pages M"

definition page_new :: "('d, 'f) vm_ops \<Rightarrow> u32 \<Rightarrow> ('d, 'f) vmm \<Rightarrow> bool" where
  "page_new ops u m \<longleftrightarrow> page_is_writable u m = None \<and> is_user_vaddr (hw ops) u \<and> pg_ofs (hw ops) u = 0"

lemma frame_page_returns:
  assumes inv: "vm_inv ops D m" and f: "free_frames m = k # ks" "frame_good (hw ops) k" and u: "page_new ops u m"
    and pool: "pool_has (hw ops) (Suc n) (dom (pages m))" and pd: "cur_pagedir m \<noteq> init_page_dir m" and malloc: "\<And>ps. page_malloc ops ps"
  obtains m1 m2 where "frame_alloc ops u w m = Some (k, m1)" "page_set_frame ops u k w m1 = Some m2"
    "pool_has (hw ops) n (dom (pages m2))" "init_page_dir m2 = init_page_dir m" "\<And>v. v \<noteq> u \<Longrightarrow> page_is_writable v m2 = page_is_writable v m"
proof -
  let ?M = "hw ops" and ?n = "next_frame m" and ?t = "frame_table m" and ?pd = "cur_pagedir m"
  have n: "\<not> fail_on_next m" "?n < length ?t"
    using f(1) by (simp_all add: free_frames_def split: if_splits) (metis drop_all list.distinct(1) list.simps(8) not_le)
  then have k: "k = f_kpage (?t ! ?n)" using f(1) by (simp add: free_frames_def Cons_nth_drop_Suc [symmetric])
  define s1 where "s1 = (if Suc ?n = length ?t then m\<lparr>next_frame := 0, fail_on_next := True\<rparr> else m\<lparr>next_frame := Suc ?n\<rparr>)"
  have g: "get_next_frame ops m = Some (?n, s1)" using n(1) by (simp add: get_next_frame_def s1_def Let_def)
  note gi = get_next_frame_inv [OF inv g]
  have i1: "vm_inv ops D s1" using gi(1) by (rule vm_growsD)
  have s1: "frame_table s1 = ?t" "cur_pagedir s1 = ?pd" "pages s1 = pages m" "init_page_dir s1 = init_page_dir m" "cur_pages s1 = cur_pages m"
    by (simp_all add: s1_def cur_pagedir_def cur_pages_def)
  have un: "pd_map ?M D s1 (?pd, u) = None"
  proof (cases "pd_map ?M D m (?pd, u)")
    case (Some x)
    then show ?thesis using vm_invD(8) [OF inv, of u "fst x" "snd x"] u by (simp add: page_new_def)
  qed (simp add: gi(2))
  have uu: "is_user_vaddr ?M u" "pg_ofs ?M u = 0" using u by (simp_all add: page_new_def)
  have key: "pd_key_ok ?M D (?pd, u)" using vm_invD(3) [OF inv] uu by (simp add: pd_key_ok_def)
  then have np: "\<not> is_set (pte_val ?M s1 ?pd u) (PTE_P ?M)" using un pd_map_None by blast
  have "palloc_get_page ?M (pages s1) \<noteq> None" using pool s1(3) by auto
  then have pre: "set_page_pre ?M s1 ?pd u k" using uu f(2) pd s1(4) by (simp add: set_page_pre_def frame_good_def)
  obtain s2 where s2: "pagedir_set_page ?M ?pd u k w s1 = Some (True, s2)" "vm_upd ?M D s1 ?pd u (pte_create_user ?M k w) s2"
    using pagedir_set_page_spec [OF vm_invD(1,2) [OF i1] vm_invD(3) [OF inv] pre np] by blast
  have gp: "pagedir_get_page ?M ?pd u s1 = Some None"
    using pagedir_get_page_spec [OF vm_invD(1,2) [OF i1] vm_invD(3) [OF inv] uu(1)] np by simp
  define m1 where "m1 = s2\<lparr>frame_table := (frame_table s2)[?n := (frame_table s2 ! ?n)\<lparr>f_upage := u, f_pd := ?pd\<rparr>]\<rparr>"
  have a: "frame_alloc ops u w m = Some (k, m1)" using g gp s2(1) k s1(1) by (simp add: frame_alloc_def Let_def m1_def)
  note fa = frame_alloc_inv [OF inv a]
  have w1: "page_is_writable v m1 = page_is_writable v m" for v using fa(6) by (simp add: page_is_writable_map)
  then have fu: "find_upage u m1 = None" using u by (simp add: find_upage_writable page_new_def)
  have nt: "\<not> page_in_table u m1" using fu by (simp add: page_in_table_def)
  obtain m2 where m2: "page_set_frame ops u k w m1 = Some m2"
    using fu nt malloc by (simp add: page_set_frame_def page_alloc_def)
  note r = page_set_frame_rights [OF m2]
  obtain ps where ps: "m2 = set_cur_pages ps m1" using r(4) by blast
  have "pages m2 = pages s2" "init_page_dir m2 = init_page_dir m"
    using vm_updD(2) [OF s2(2)] s1(4) by (simp_all add: ps m1_def set_cur_pages_def)
  then show thesis using that [OF a m2] set_page_pool [OF s2(1), of n] pool s1(3) r(2) w1 by simp
qed

section \<open>Page fetches\<close>

text \<open>
  C33 (invariant): a page fetch that returns keeps the invariant of demand paging, whether a free frame is used or another page is
  evicted: what was mapped before still is, with its rights. If it reports success, the page of the address is mapped
  and writable, and nothing else has been added; if not, nothing has changed.
\<close>

theorem page_fetch_keeps:
  assumes inv: "vm_inv ops D s" and f: "page_fetch ops uaddr esp write s = Some (ok, s')"
  shows "vm_inv ops D s' \<and> cur_pagedir s' = cur_pagedir s \<and>
    (if ok then \<exists>kpage. pd_map (hw ops) D s (cur_pagedir s, pg_round_down ops uaddr) = None \<and>
         pd_map (hw ops) D s' = (pd_map (hw ops) D s)((cur_pagedir s, pg_round_down ops uaddr) \<mapsto> (kpage, True))
     else s' = s)"
proof (cases ok)
  case False
  then have "s' = s" using f page_fetch_rejects [of ops uaddr esp "write" s s'] by simp
  then show ?thesis using inv False by simp
next
  case True
  let ?pg = "pg_round_down ops uaddr"
  obtain kpage s1 s2 where s: "frame_alloc ops ?pg True s = Some (kpage, s1)" "page_set_frame ops ?pg kpage True s1 = Some s2"
      "s' = s2 \<or> (\<exists>b. page_write_data ops ?pg s2 = Some (b, s'))"
    using f True by (auto simp: page_fetch_def Let_def split: if_splits Option.bind_splits)
  note p = frame_page_inv [OF inv s(1,2)]
  have inv2: "vm_inv ops D s2" "cur_pagedir s2 = cur_pagedir s" using p(1) by (simp_all add: vm_grows_def)
  have "same_maps ops D s2 s'" using s(3) page_write_data_same [OF inv2(1) p(4,5)] same_maps_refl [OF vm_invD(2) [OF inv2(1)]] by blast
  then have "vm_grows ops D s2 s'" "pd_map (hw ops) D s' = pd_map (hw ops) D s2" using same_maps_ext [OF inv2(1)] by (simp_all add: same_maps_def)
  then show ?thesis using True inv2(2) p(2,3) by (auto simp: vm_grows_def)
qed

section \<open>A process with one page\<close>

lemma demo_full_only:
  assumes "pd_map x86 {0xc0200000} demo_full (pd, u) = Some (k, w)"
  shows "u = 0x08048000" "w"
proof -
  have a: "pd = 0xc0200000" "is_user_vaddr x86 u" "pg_ofs x86 u = 0" "is_set (pte_val x86 demo_full pd u) (PTE_P x86)"
    "w = is_set (pte_val x86 demo_full pd u) (PTE_W x86)"
    using assms by (auto simp: pd_map_def split: if_splits)
  then have n: "pte_at x86 demo_full pd u \<noteq> None" "pte_at x86 demo_full pd u \<noteq> Some 0"
    by (cases "pte_at x86 demo_full pd u"; auto simp: pte_val_def)+
  have lt: "pd_no x86 u < 1024" "pt_no x86 u < 1024" using mmu_okD(1,2) [OF x86_ok] by blast+
  have d: "pd_no x86 u = 32"
    using n(1) lt(1) demo_full_table [of "pd_no x86 u"] a(1) by (auto simp: pte_at_def split: if_splits)
  then have "pte_at x86 demo_full pd u = Some ((replicate 1024 0)[72 := 0x00300007] ! pt_no x86 u)"
    using demo_full_table [of 32] a(1) by (simp add: pte_at_def) (simp add: demo_full_def)
  then have "pt_no x86 u = 72" using n(2) lt(2) by (auto simp: nth_list_update split: if_splits)
  then have "same_slot x86 u 0x08048000" using d by (simp add: x86_def)
  then show u: "u = 0x08048000" using same_page [OF x86_ok, of u "0x08048000"] a(3) by (simp add: x86_def)
  show w using a(5) demo_full_entry unfolding u a(1) by (simp add: x86_def)
qed

lemma demo_full_inv: "vm_inv demo_ops {0xc0200000} demo_full"
proof -
  have c: "cur_pagedir demo_full = 0xc0200000" "cr3 demo_full = 0xc0200000" "fail_on_next demo_full" "cur_pages demo_full = [demo_page]"
    by (simp_all add: demo_full_def cur_pagedir_def cur_pages_def)
  have "page_is_writable u demo_full = Some w" if "pd_map x86 {0xc0200000} demo_full (0xc0200000, u) = Some (k, w)" for u k w
    using demo_full_only [OF that] by (simp add: page_is_writable_map c(4) rights_def demo_page_def)
  then show ?thesis using x86_ok demo_full_wf demo_full_frames c
    by (auto simp: vm_inv_def frames_ok_def demo_page_def)
qed

lemma demo_full_unmapped: "u \<noteq> 0x08048000 \<Longrightarrow> pd_map x86 {0xc0200000} demo_full (pd, u) = None"
  using demo_full_only(1) [of pd u] by (cases "pd_map x86 {0xc0200000} demo_full (pd, u)") auto

text \<open>The same with two frames that have not been used.\<close>

definition demo_free :: "(sector \<Rightarrow> byte list, byte list) vmm" where
  "demo_free = demo_full\<lparr>frame_table := frame_table demo_full @
       [\<lparr>f_kpage = 0xc0301000, f_pd = 0, f_upage = 0\<rparr>, \<lparr>f_kpage = 0xc0302000, f_pd = 0, f_upage = 0\<rparr>],
     next_frame := 1, fail_on_next := False,
     ram := [0xc0300000 \<mapsto> replicate 4096 3, 0xc0301000 \<mapsto> replicate 4096 4, 0xc0302000 \<mapsto> replicate 4096 4]\<rparr>"

lemma demo_free_vm [simp]:
  "vm_wf M D demo_free = vm_wf M D demo_full" "pd_map M D demo_free = pd_map M D demo_full" "cr3 demo_free = 0xc0200000"
  "cur_pagedir demo_free = 0xc0200000" "cur_pages demo_free = [demo_page]" "free_frames demo_free = [0xc0301000, 0xc0302000]"
  "init_page_dir demo_free = 0xc0201000" "cr3 demo_full = 0xc0200000" "cur_pagedir demo_full = 0xc0200000" "cur_pages demo_full = [demo_page]"
  by (simp_all add: demo_free_def) (simp_all add: demo_full_def cur_pagedir_def cur_pages_def free_frames_def)

lemma demo_free_inv: "vm_inv demo_ops {0xc0200000} demo_free"
proof -
  have "frame_table demo_free = frame_table demo_full @
       [\<lparr>f_kpage = 0xc0301000, f_pd = 0, f_upage = 0\<rparr>, \<lparr>f_kpage = 0xc0302000, f_pd = 0, f_upage = 0\<rparr>]" by (simp add: demo_free_def)
  moreover have "next_frame demo_free < length (frame_table demo_free)" by (simp add: demo_free_def)
  moreover have "page_is_writable u demo_free = page_is_writable u demo_full" for u by (simp add: page_is_writable_map)
  ultimately show ?thesis using demo_full_inv by (auto simp: vm_inv_def)
qed

lemma demo_free_pool: "pool_has x86 (Suc 0) (dom (pages demo_free))"
proof -
  have "dom (pages demo_free) = {0xc0200000, 0xc0100000, 0xc0201000}" by (auto simp: demo_free_def demo_full_def)
  moreover have "palloc_get_page x86 ps = Some 0xc0101000" if "dom ps = {0xc0200000, 0xc0100000, 0xc0201000}" for ps
  proof -
    have "0xc0100000 \<in> dom ps" "0xc0101000 \<notin> dom ps" using that by simp_all
    then show ?thesis by (auto simp: x86_def)
  qed
  ultimately show ?thesis by simp
qed

lemma demo_malloc [simp]: "page_malloc demo_ops ps"
  by (simp add: demo_ops_def)

lemma demo_free_new: "u \<noteq> 0x08048000 \<Longrightarrow> u < 0xc0000000 \<Longrightarrow> u AND 0xfff = 0 \<Longrightarrow> page_new demo_ops u demo_free"
  by (simp add: page_new_def page_is_writable_map rights_def demo_page_def) (simp add: x86_def)

theorem page_fetch_keeps_witness:
  "\<exists>s' k. page_fetch demo_ops 0x08049ffc 0x08049ff0 True demo_free = Some (True, s') \<and>
     pd_map x86 {0xc0200000} s' = (pd_map x86 {0xc0200000} demo_free)((0xc0200000, 0x08049000) \<mapsto> (k, True))"
proof -
  have rd: "pg_round_down demo_ops 0x08049ffc = 0x08049000" by (simp add: demo_ops_def)
  have "page_new demo_ops 0x08049000 demo_free" by (rule demo_free_new) simp_all
  moreover have "frame_good x86 0xc0301000" by (simp add: frame_good_def x86_def)
  moreover have "free_frames demo_free = [0xc0301000, 0xc0302000]" "cur_pagedir demo_free \<noteq> init_page_dir demo_free" by simp_all
  ultimately obtain m1 m2 where m: "frame_alloc demo_ops 0x08049000 True demo_free = Some (0xc0301000, m1)"
      "page_set_frame demo_ops 0x08049000 0xc0301000 True m1 = Some m2"
    using frame_page_returns [OF demo_free_inv _ _ _ demo_free_pool [folded demo_hw] _ demo_malloc, where w = True] unfolding demo_hw by metis
  have "\<not> page_in_table 0x08049000 demo_free" "is_user_vaddr x86 0x08049ffc"
    by (simp_all add: page_in_table_def find_upage_writable page_is_writable_map rights_def demo_page_def) (simp add: x86_def)
  then have f: "page_fetch demo_ops 0x08049ffc 0x08049ff0 True demo_free = Some (True, m2)"
    using m by (simp add: page_fetch_def rd stack_growth_def)
  then show ?thesis using page_fetch_keeps [OF demo_free_inv f] by (auto simp: rd)
qed

end
