(* ===== verification/User_Access.thy ===== *)
theory User_Access
  imports Exceptions Vm_Inv
begin

text \<open>
  The kernel's own accesses to user memory under demand paging: loads and stores by user addresses, and the
  page faults they may cause, which the handler of \<open>virtual-memory/userprog/exception.c\<close> serves as it serves those of user
  programs.

  A call has one of five outcomes: it returns, the process exits, the machine is halted, a page fault of the kernel
  is rejected so that \<open>kill\<close> panics, or the kernel stops for another reason (a failed assertion, no swap space).
\<close>

section \<open>Outcomes\<close>

datatype ('a, 's) run = Ret 'a 's | Exit 's | Halt 's | Panic | Stop

fun rbind :: "('a, 's) run \<Rightarrow> ('a \<Rightarrow> 's \<Rightarrow> ('b, 's) run) \<Rightarrow> ('b, 's) run" where
  "rbind (Ret a s) k = k a s"
| "rbind (Exit s) k = Exit s"
| "rbind (Halt s) k = Halt s"
| "rbind Panic k = Panic"
| "rbind Stop k = Stop"

definition run_of :: "('a \<times> 's) option \<Rightarrow> ('a, 's) run" where
  "run_of r = (case r of None \<Rightarrow> Stop | Some (a, s) \<Rightarrow> Ret a s)"

lemma run_of_simps [simp]: "run_of None = Stop" "run_of (Some (a, s)) = Ret a s"
  by (simp_all add: run_of_def)

section \<open>Loads and stores\<close>

text \<open>
  \<open>kernel_esp\<close> is what \<open>f->esp\<close> holds in a page fault of the kernel: the CPU does not save the stack pointer
  then, so it is some word of the kernel stack. \<open>kernel_byte\<close> is what lies in kernel memory.
\<close>

record ('d, 'f) access_ops =
  vmo :: "('d, 'f) vm_ops"
  kernel_esp :: u32
  kernel_byte :: "u32 \<Rightarrow> byte"

text \<open>The page fault handler for an access of the kernel: its \<open>kill\<close> panics.\<close>

definition kernel_fault :: "('d, 'f, 'x) access_ops_scheme \<Rightarrow> u32 \<Rightarrow> bool \<Rightarrow> ('d, 'f) vmm \<Rightarrow> (unit, ('d, 'f) vmm) run" where
  "kernel_fault env a write m =
     (case page_fetch (vmo env) a (kernel_esp env) write m of
        None \<Rightarrow> Stop
      | Some (ok, m1) \<Rightarrow> if ok then Ret () m1 else Panic)"

text \<open>What the CPU checks: the page is present and, for a store, writable.\<close>

definition can_access :: "('d, 'f) vm_ops \<Rightarrow> u32 \<Rightarrow> bool \<Rightarrow> ('d, 'f) vmm \<Rightarrow> bool option" where
  "can_access ops a write m = do {
     k \<leftarrow> pagedir_get_page (hw ops) (cr3 m) (pg_round_down ops a) m;
     if k = None then Some False
     else if write then pagedir_test (hw ops) (PTE_W (hw ops)) (cr3 m) (pg_round_down ops a) m
     else Some True
   }"

definition ensure_access :: "('d, 'f, 'x) access_ops_scheme \<Rightarrow> u32 \<Rightarrow> bool \<Rightarrow> ('d, 'f) vmm \<Rightarrow> (unit, ('d, 'f) vmm) run" where
  "ensure_access env a write m =
     (case can_access (vmo env) a write m of
        None \<Rightarrow> Stop
      | Some ok \<Rightarrow> if ok then Ret () m else kernel_fault env a write m)"

definition user_load :: "('d, 'f) vm_ops \<Rightarrow> u32 \<Rightarrow> ('d, 'f) vmm \<Rightarrow> (byte \<times> ('d, 'f) vmm) option" where
  "user_load ops a m = do {
     (kpage, pg) \<leftarrow> user_frame ops (pg_round_down ops a) m;
     b \<leftarrow> c_nth pg (uint (pg_ofs (hw ops) a));
     m1 \<leftarrow> pagedir_set_accessed (hw ops) (cr3 m) (pg_round_down ops a) True m;
     Some (b, m1)
   }"

definition user_store :: "('d, 'f) vm_ops \<Rightarrow> u32 \<Rightarrow> byte \<Rightarrow> ('d, 'f) vmm \<Rightarrow> (unit \<times> ('d, 'f) vmm) option" where
  "user_store ops a b m = do {
     (kpage, pg) \<leftarrow> user_frame ops (pg_round_down ops a) m;
     pg' \<leftarrow> c_update pg (uint (pg_ofs (hw ops) a)) b;
     m1 \<leftarrow> pagedir_set_accessed (hw ops) (cr3 m) (pg_round_down ops a) True m;
     m2 \<leftarrow> pagedir_set_dirty (hw ops) (cr3 m) (pg_round_down ops a) True m1;
     Some ((), m2\<lparr>ram := (ram m2)(kpage \<mapsto> pg')\<rparr>)
   }"

text \<open>A store to kernel memory through a user pointer has no defined effect: \<open>Stop\<close>.\<close>

definition kload :: "('d, 'f, 'x) access_ops_scheme \<Rightarrow> u32 \<Rightarrow> ('d, 'f) vmm \<Rightarrow> (byte, ('d, 'f) vmm) run" where
  "kload env a m =
     (if \<not> is_user_vaddr (hw (vmo env)) a then Ret (kernel_byte env a) m
      else rbind (ensure_access env a False m) (\<lambda>_ m. run_of (user_load (vmo env) a m)))"

definition kstore :: "('d, 'f, 'x) access_ops_scheme \<Rightarrow> u32 \<Rightarrow> byte \<Rightarrow> ('d, 'f) vmm \<Rightarrow> (unit, ('d, 'f) vmm) run" where
  "kstore env a b m =
     (if \<not> is_user_vaddr (hw (vmo env)) a then Stop
      else rbind (ensure_access env a True m) (\<lambda>_ m. run_of (user_store (vmo env) a b m)))"

fun kload_bytes :: "('d, 'f, 'x) access_ops_scheme \<Rightarrow> u32 \<Rightarrow> nat \<Rightarrow> ('d, 'f) vmm \<Rightarrow> (byte list, ('d, 'f) vmm) run" where
  "kload_bytes env a 0 m = Ret [] m"
| "kload_bytes env a (Suc n) m =
     rbind (kload env a m) (\<lambda>b m. rbind (kload_bytes env (a + 1) n m) (\<lambda>bs m. Ret (b # bs) m))"

fun kstore_bytes :: "('d, 'f, 'x) access_ops_scheme \<Rightarrow> u32 \<Rightarrow> byte list \<Rightarrow> ('d, 'f) vmm \<Rightarrow> (unit, ('d, 'f) vmm) run" where
  "kstore_bytes env a [] m = Ret () m"
| "kstore_bytes env a (b # bs) m = rbind (kstore env a b m) (\<lambda>_ m. kstore_bytes env (a + 1) bs m)"

text \<open>
  Code outside of the sources that is given a name in user memory reads as much of it as it
  needs, byte by byte: it is a value of type \<open>reader\<close>.
\<close>

datatype 'r reader = Finish 'r | Next "byte \<Rightarrow> 'r reader"

primrec run_reader :: "'r reader \<Rightarrow> ('d, 'f, 'x) access_ops_scheme \<Rightarrow> u32 \<Rightarrow> ('d, 'f) vmm \<Rightarrow> ('r, ('d, 'f) vmm) run" where
  "run_reader (Finish r) = (\<lambda>env a m. Ret r m)"
| "run_reader (Next k) = (\<lambda>env a m. rbind (kload env a m) (\<lambda>b m. run_reader (k b) env (a + 1) m))"

text \<open>\<open>kernel_fault\<close> is \<open>page_fault\<close> for a frame of kernel code.\<close>

lemma kernel_fault_page_fault:
  assumes c: "fr_cs f = SEL_KCSEG c" "SEL_KCSEG c \<noteq> SEL_UCSEG c" "fr_esp f = kernel_esp env" "(error_code f AND PF_W \<noteq> 0) = w"
    and s: "intr_enable c s = Some (old, s1)" "page_fault_cnt (world s1) + 1 < 2 ^ 63" "exc_vm (world s1) = m"
  shows "(case page_fault c (vmo env) a f s of None \<Rightarrow> kernel_fault env a w m \<in> {Panic, Stop}
      | Some (out, s2) \<Rightarrow> out = Resumes \<and> kernel_fault env a w m = Ret () (exc_vm (world s2)))"
  using c s by (auto simp: page_fault_def kernel_fault_def kill_def Let_def split: option.splits Option.bind_splits)

section \<open>What accesses keep\<close>

text \<open>
  A run in order: it does not panic, and when it returns, the state is as \<open>Q\<close> says.
\<close>

definition sound :: "('a \<Rightarrow> 's \<Rightarrow> bool) \<Rightarrow> ('a, 's) run \<Rightarrow> bool" where
  "sound Q r \<longleftrightarrow> (case r of Ret a s \<Rightarrow> Q a s | Panic \<Rightarrow> False | _ \<Rightarrow> True)"

lemma sound_simps [simp]:
  "sound Q (Ret a s) = Q a s" "sound Q (Exit s)" "sound Q (Halt s)" "\<not> sound Q Panic" "sound Q Stop"
  by (simp_all add: sound_def)

lemma sound_bind: "sound P r \<Longrightarrow> (\<And>a s. P a s \<Longrightarrow> sound Q (k a s)) \<Longrightarrow> sound Q (rbind r k)"
  by (cases r) simp_all

lemma sound_mono: "sound P r \<Longrightarrow> (\<And>a s. P a s \<Longrightarrow> Q a s) \<Longrightarrow> sound Q r"
  by (cases r) simp_all

lemma sound_run_of: "sound Q (run_of r) \<longleftrightarrow> (\<forall>a s. r = Some (a, s) \<longrightarrow> Q a s)"
  by (cases r) auto

lemma sound_no_panic: "sound Q r \<Longrightarrow> r \<noteq> Panic"
  by auto

text \<open>The address can be accessed: its page is mapped, with the right to write if that is needed.\<close>

definition accessible :: "('d, 'f) vm_ops \<Rightarrow> u32 set \<Rightarrow> u32 \<Rightarrow> bool \<Rightarrow> ('d, 'f) vmm \<Rightarrow> bool" where
  "accessible ops D a write m \<longleftrightarrow> is_user_vaddr (hw ops) a \<and>
     (\<exists>k w. pd_map (hw ops) D m (cur_pagedir m, pg_round_down ops a) = Some (k, w) \<and> (write \<longrightarrow> w))"

lemma accessible_grows: "accessible ops D a write m \<Longrightarrow> vm_grows ops D m m' \<Longrightarrow> accessible ops D a write m'"
  unfolding accessible_def vm_grows_def map_le_def by (metis domI)

lemma accessible_read: "accessible ops D a write m \<Longrightarrow> accessible ops D a False m"
  by (auto simp: accessible_def)

lemma round_okD:
  assumes "round_ok ops" "is_user_vaddr (hw ops) a"
  shows "same_slot (hw ops) a (pg_round_down ops a)" "is_user_vaddr (hw ops) (pg_round_down ops a)" "pg_ofs (hw ops) (pg_round_down ops a) = 0"
  using assms unfolding round_ok_def by blast+

lemma get_page_map:
  assumes inv: "vm_inv ops D m" and r: "round_ok ops" and u: "is_user_vaddr (hw ops) a"
  shows "\<exists>k. pagedir_get_page (hw ops) (cur_pagedir m) a m = Some k \<and>
      (k = None \<longleftrightarrow> pd_map (hw ops) D m (cur_pagedir m, pg_round_down ops a) = None)"
    "\<exists>k. pagedir_get_page (hw ops) (cur_pagedir m) (pg_round_down ops a) m = Some k \<and>
      (k = None \<longleftrightarrow> pd_map (hw ops) D m (cur_pagedir m, pg_round_down ops a) = None)"
  using pagedir_get_page_spec [OF vm_invD(1-3) [OF inv], of a] pagedir_get_page_spec [OF vm_invD(1-3) [OF inv], of "pg_round_down ops a"]
    round_okD [OF r u] u pte_val_slot [of "hw ops" a "pg_round_down ops a" m "cur_pagedir m"] vm_invD(3) [OF inv]
  by (auto simp: pd_map_def)

lemma can_access_accessible:
  assumes inv: "vm_inv ops D m" and r: "round_ok ops" and a: "accessible ops D a write m"
  shows "can_access ops a write m = Some True"
proof -
  have u: "is_user_vaddr (hw ops) a" using a by (simp add: accessible_def)
  obtain k where k: "pagedir_get_page (hw ops) (cr3 m) (pg_round_down ops a) m = Some k" "k \<noteq> None"
    using get_page_map(2) [OF inv r u] a vm_invD(4) [OF inv] by (auto simp: accessible_def)
  have "pagedir_test (hw ops) (PTE_W (hw ops)) (cr3 m) (pg_round_down ops a) m = Some True" if "write"
    using pagedir_test_spec [OF vm_invD(1-3) [OF inv] round_okD(2) [OF r u], of "PTE_W (hw ops)"] a that vm_invD(4) [OF inv]
    by (auto simp: accessible_def pd_map_def split: if_splits)
  then show ?thesis using k by (simp add: can_access_def)
qed

lemma user_load_grows:
  assumes inv: "vm_inv ops D m" and r: "round_ok ops" and u: "is_user_vaddr (hw ops) a" and l: "user_load ops a m = Some (b, m1)"
  shows "vm_grows ops D m m1"
proof -
  have key: "pd_key_ok (hw ops) D (cr3 m, pg_round_down ops a)"
    using round_okD [OF r u] vm_invD(3,4) [OF inv] by (simp add: pd_key_ok_def)
  obtain k pg where "pagedir_set_accessed (hw ops) (cr3 m) (pg_round_down ops a) True m = Some m1"
    using l by (auto simp: user_load_def split: Option.bind_splits)
  then have "same_maps ops D m m1" by (rule set_flag_same(1) [OF vm_invD(1,2) [OF inv] key])
  then show ?thesis by (rule same_maps_ext [OF inv])
qed

lemma user_store_grows:
  assumes inv: "vm_inv ops D m" and r: "round_ok ops" and u: "is_user_vaddr (hw ops) a" and l: "user_store ops a b m = Some (x, m2)"
  shows "vm_grows ops D m m2"
proof -
  have key: "pd_key_ok (hw ops) D (cr3 m, pg_round_down ops a)"
    using round_okD [OF r u] vm_invD(3,4) [OF inv] by (simp add: pd_key_ok_def)
  obtain m1 t x where s: "pagedir_set_accessed (hw ops) (cr3 m) (pg_round_down ops a) True m = Some m1"
      "pagedir_set_dirty (hw ops) (cr3 m) (pg_round_down ops a) True m1 = Some t" "m2 = t\<lparr>ram := x\<rparr>"
    using l by (auto simp: user_store_def split: Option.bind_splits)
  have 1: "same_maps ops D m m1" by (rule set_flag_same(1) [OF vm_invD(1,2) [OF inv] key s(1)])
  have "same_maps ops D m1 t" by (rule set_flag_same(2) [OF vm_invD(1) [OF inv] same_maps_wf [OF 1] key s(2)])
  then have "same_maps ops D m m2" using same_maps_trans [OF 1] s(3) by simp
  then show ?thesis by (rule same_maps_ext [OF inv])
qed

text \<open>Loads and stores of accessible addresses neither fault nor take anything away.\<close>

lemma kload_sound:
  assumes "vm_inv (vmo env) D m" "round_ok (vmo env)" "accessible (vmo env) D a False m"
  shows "sound (\<lambda>b m'. vm_grows (vmo env) D m m') (kload env a m)"
  using user_load_grows [OF assms(1,2)] can_access_accessible [OF assms] assms(3)
  by (auto simp: kload_def ensure_access_def sound_run_of accessible_def)

lemma kstore_sound:
  assumes "vm_inv (vmo env) D m" "round_ok (vmo env)" "accessible (vmo env) D a True m"
  shows "sound (\<lambda>_ m'. vm_grows (vmo env) D m m') (kstore env a b m)"
  using user_store_grows [OF assms(1,2)] can_access_accessible [OF assms] assms(3)
  by (auto simp: kstore_def ensure_access_def sound_run_of accessible_def)

definition range_accessible :: "('d, 'f) vm_ops \<Rightarrow> u32 set \<Rightarrow> u32 \<Rightarrow> nat \<Rightarrow> bool \<Rightarrow> ('d, 'f) vmm \<Rightarrow> bool" where
  "range_accessible ops D a n write m \<longleftrightarrow> (\<forall>i<n. accessible ops D (a + of_nat i) write m)"

lemma range_accessible_Suc:
  "range_accessible ops D a (Suc n) write m \<longleftrightarrow> accessible ops D a write m \<and> range_accessible ops D (a + 1) n write m"
proof -
  have 1: "(\<forall>i<Suc n. accessible ops D (a + of_nat i) write m) \<longleftrightarrow>
      accessible ops D (a + of_nat 0) write m \<and> (\<forall>i<n. accessible ops D (a + of_nat (Suc i)) write m)"
    by (metis less_Suc_eq_0_disj)
  have 2: "a + of_nat (Suc i) = a + 1 + of_nat i" for i by simp
  show ?thesis unfolding range_accessible_def 1 2 by simp
qed

lemma range_accessible_grows:
  "range_accessible ops D a n write m \<Longrightarrow> vm_grows ops D m m' \<Longrightarrow> range_accessible ops D a n write m'"
  unfolding range_accessible_def using accessible_grows by blast

lemma kload_bytes_sound:
  assumes r: "round_ok (vmo env)"
  shows "vm_inv (vmo env) D m \<Longrightarrow> range_accessible (vmo env) D a n False m \<Longrightarrow>
    sound (\<lambda>bs m'. vm_grows (vmo env) D m m' \<and> length bs = n) (kload_bytes env a n m)"
proof (induction n arbitrary: a m)
  case (Suc n)
  have a: "accessible (vmo env) D a False m" "range_accessible (vmo env) D (a + 1) n False m" using Suc.prems(2) by (simp_all add: range_accessible_Suc)
  show ?case unfolding kload_bytes.simps
  proof (rule sound_bind [OF kload_sound [OF Suc.prems(1) r a(1)]])
    fix b m1 assume g: "vm_grows (vmo env) D m m1"
    have "sound (\<lambda>bs m'. vm_grows (vmo env) D m1 m' \<and> length bs = n) (kload_bytes env (a + 1) n m1)"
      using Suc.IH [OF vm_growsD [OF g] range_accessible_grows [OF a(2) g]] .
    then show "sound (\<lambda>bs m'. vm_grows (vmo env) D m m' \<and> length bs = Suc n)
      (rbind (kload_bytes env (a + 1) n m1) (\<lambda>bs m. Ret (b # bs) m))"
      by (rule sound_bind) (use vm_grows_trans [OF g] in auto)
  qed
qed (simp add: vm_grows_refl)

lemma kstore_bytes_sound:
  assumes r: "round_ok (vmo env)"
  shows "vm_inv (vmo env) D m \<Longrightarrow> range_accessible (vmo env) D a (length bs) True m \<Longrightarrow>
    sound (\<lambda>_ m'. vm_grows (vmo env) D m m') (kstore_bytes env a bs m)"
proof (induction bs arbitrary: a m)
  case (Cons b bs)
  have a: "accessible (vmo env) D a True m" "range_accessible (vmo env) D (a + 1) (length bs) True m"
    using Cons.prems(2) by (simp_all add: range_accessible_Suc)
  show ?case unfolding kstore_bytes.simps
  proof (rule sound_bind [OF kstore_sound [OF Cons.prems(1) r a(1)]])
    fix x m1 assume g: "vm_grows (vmo env) D m m1"
    have "sound (\<lambda>_ m'. vm_grows (vmo env) D m1 m') (kstore_bytes env (a + 1) bs m1)"
      using Cons.IH [OF vm_growsD [OF g] range_accessible_grows [OF a(2) g]] .
    then show "sound (\<lambda>_ m'. vm_grows (vmo env) D m m') (kstore_bytes env (a + 1) bs m1)"
      by (rule sound_mono) (use vm_grows_trans [OF g] in auto)
  qed
qed (simp add: vm_grows_refl)

end
