(* ===== verification/Vm_Syscall.thy ===== *)
theory Vm_Syscall
  imports User_Access
begin

text \<open>
  System calls with virtual memory, \<open>virtual-memory/userprog/syscall.c\<close>: the handler, the check of user pointers, which brings pages
  in, the descriptors, all calls, memory-mapped files.

  The state is the virtual memory with the descriptor table of the process, front first. Files are known by
  their addresses, 0 is the null pointer. The record \<open>sys_ops\<close> has what the file uses from code outside of the
  sources: call numbers, processes, the file system, the keyboard; it acts on \<open>files\<close>, and processes on all of the virtual memory.
\<close>

section \<open>State\<close>

datatype syscall_no = SYS_HALT | SYS_EXIT | SYS_EXEC | SYS_WAIT | SYS_CREATE | SYS_REMOVE | SYS_OPEN | SYS_FILESIZE
  | SYS_READ | SYS_WRITE | SYS_SEEK | SYS_TELL | SYS_CLOSE | SYS_MMAP | SYS_MUNMAP

record file_store =
  fs_fd :: int
  fs_file :: nat
  fs_mapped :: bool

record ('d, 'f) msys =
  mem :: "('d, 'f) vmm"
  files_open :: "file_store list"
  self_status :: int
  console :: "byte list"

record ('d, 'f) sys_ops = "('d, 'f) access_ops" +
  sysno :: "u32 \<Rightarrow> syscall_no option"
  fd_malloc :: "file_store list \<Rightarrow> bool"
  process_execute :: "byte list \<Rightarrow> ('d, 'f) vmm \<Rightarrow> (int \<times> ('d, 'f) vmm) option"
  process_wait :: "int \<Rightarrow> ('d, 'f) vmm \<Rightarrow> (int \<times> ('d, 'f) vmm) option"
  filesys_create :: "int \<Rightarrow> 'f \<Rightarrow> (bool \<times> 'f) reader"
  filesys_remove :: "'f \<Rightarrow> (bool \<times> 'f) reader"
  filesys_open :: "'f \<Rightarrow> (nat \<times> 'f) reader"
  file_read :: "nat \<Rightarrow> int \<Rightarrow> 'f \<Rightarrow> byte list \<times> 'f"
  file_write :: "nat \<Rightarrow> byte list \<Rightarrow> 'f \<Rightarrow> int \<times> 'f"
  file_seek :: "nat \<Rightarrow> int \<Rightarrow> 'f \<Rightarrow> 'f"
  file_tell :: "nat \<Rightarrow> 'f \<Rightarrow> int"
  file_reopen :: "nat \<Rightarrow> 'f \<Rightarrow> nat \<times> 'f"
  file_close :: "nat \<Rightarrow> 'f \<Rightarrow> 'f"
  input_getc :: "'f \<Rightarrow> byte \<times> 'f"

abbreviation STD_IN :: int where "STD_IN \<equiv> 0"
abbreviation STD_OUT :: int where "STD_OUT \<equiv> 1"
abbreviation MIN_USER_FD :: int where "MIN_USER_FD \<equiv> 2"
abbreviation MAX_PUTBUF_LEN :: nat where "MAX_PUTBUF_LEN \<equiv> 300"

text \<open>A run on the virtual memory alone, and a call to the file system.\<close>

definition on_mem :: "(('d, 'f) vmm \<Rightarrow> ('a, ('d, 'f) vmm) run) \<Rightarrow> ('d, 'f) msys \<Rightarrow> ('a, ('d, 'f) msys) run" where
  "on_mem g s = (case g (mem s) of
     Ret a m \<Rightarrow> Ret a (s\<lparr>mem := m\<rparr>) | Exit m \<Rightarrow> Exit (s\<lparr>mem := m\<rparr>) | Halt m \<Rightarrow> Halt (s\<lparr>mem := m\<rparr>)
   | Panic \<Rightarrow> Panic | Stop \<Rightarrow> Stop)"

definition set_files :: "'f \<Rightarrow> ('d, 'f) msys \<Rightarrow> ('d, 'f) msys" where
  "set_files fs s = s\<lparr>mem := (mem s)\<lparr>files := fs\<rparr>\<rparr>"

definition sys_exit :: "int \<Rightarrow> ('d, 'f) msys \<Rightarrow> ('a, ('d, 'f) msys) run" where
  "sys_exit status s = Exit (s\<lparr>self_status := status\<rparr>)"

section \<open>User pointers\<close>

definition is_valid_uaddr :: "('d, 'f) sys_ops \<Rightarrow> u32 \<Rightarrow> u32 \<Rightarrow> bool \<Rightarrow> ('d, 'f) vmm \<Rightarrow> (bool \<times> ('d, 'f) vmm) option" where
  "is_valid_uaddr env uaddr esp write m =
     (if \<not> is_user_vaddr (hw (vmo env)) uaddr then Some (False, m)
      else do {
        kaddr \<leftarrow> pagedir_get_page (hw (vmo env)) (cur_pagedir m) uaddr m;
        if kaddr = None then page_fetch (vmo env) uaddr esp write m
        else if write then do {
          w \<leftarrow> page_is_writable (pg_round_down (vmo env) uaddr) m;
          Some (w, m)
        }
        else Some (True, m)
      })"

text \<open>The check as every call makes it: an invalid pointer ends the process.\<close>

definition check_uaddr :: "('d, 'f) sys_ops \<Rightarrow> u32 \<Rightarrow> u32 \<Rightarrow> bool \<Rightarrow> ('d, 'f) msys \<Rightarrow> (unit, ('d, 'f) msys) run" where
  "check_uaddr env uaddr esp write s =
     rbind (on_mem (\<lambda>m. run_of (is_valid_uaddr env uaddr esp write m)) s)
       (\<lambda>ok s. if \<not> ok then sys_exit (- 1) s else Ret () s)"

text \<open>The loops of \<open>grab_arg\<close>, \<open>sys_read\<close> and \<open>sys_write\<close> over \<open>n\<close> bytes.\<close>

fun check_range :: "('d, 'f) sys_ops \<Rightarrow> u32 \<Rightarrow> nat \<Rightarrow> u32 \<Rightarrow> bool \<Rightarrow> ('d, 'f) msys \<Rightarrow> (unit, ('d, 'f) msys) run" where
  "check_range env a 0 esp write s = Ret () s"
| "check_range env a (Suc n) esp write s = rbind (check_uaddr env a esp write s) (\<lambda>_ s. check_range env (a + 1) n esp write s)"

definition grab_arg :: "('d, 'f) sys_ops \<Rightarrow> u32 \<Rightarrow> ('d, 'f) msys \<Rightarrow> (u32 \<times> u32, ('d, 'f) msys) run" where
  "grab_arg env esp s =
     rbind (check_range env esp 4 0 False s) (\<lambda>_ s.
     rbind (on_mem (kload_bytes env esp 4) s) (\<lambda>bs s. Ret (of_le32 bs, esp + 4) s))"

section \<open>Descriptors\<close>

definition create_fd :: "('d, 'f) sys_ops \<Rightarrow> nat \<Rightarrow> bool \<Rightarrow> ('d, 'f) msys \<Rightarrow> (int \<times> ('d, 'f) msys) option" where
  "create_fd env f mapped s =
     (if f = 0 then Some (- 1, s)
      else if \<not> fd_malloc env (files_open s) then Some (- 1, s)
      else do {
        fd \<leftarrow> c_int (if files_open s = [] then MIN_USER_FD else fs_fd (hd (files_open s)) + 1);
        Some (fd, s\<lparr>files_open := \<lparr>fs_fd = fd, fs_file = f, fs_mapped = mapped\<rparr> # files_open s\<rparr>)
      })"

text \<open>The loop over the list; \<open>file_s\<close> is the position of the entry looked at last.\<close>

fun store_loop :: "int \<Rightarrow> file_store list \<Rightarrow> nat \<Rightarrow> nat option \<Rightarrow> nat option" where
  "store_loop fd [] i file_s = file_s"
| "store_loop fd (e # es) i file_s = (if fs_fd e = fd then Some i else store_loop fd es (Suc i) (Some i))"

definition fd_to_file_store :: "int \<Rightarrow> ('d, 'f) msys \<Rightarrow> nat option" where
  "fd_to_file_store fd s = (if fd < MIN_USER_FD then None else store_loop fd (files_open s) 0 None)"

definition fd_to_file :: "int \<Rightarrow> ('d, 'f) msys \<Rightarrow> nat" where
  "fd_to_file fd s = (case fd_to_file_store fd s of None \<Rightarrow> 0 | Some i \<Rightarrow> fs_file (files_open s ! i))"

definition remove_fd :: "int \<Rightarrow> ('d, 'f) msys \<Rightarrow> nat \<times> ('d, 'f) msys" where
  "remove_fd fd s =
     (case fd_to_file_store fd s of
        None \<Rightarrow> (0, s)
      | Some i \<Rightarrow> (fs_file (files_open s ! i), s\<lparr>files_open := remove_nth i (files_open s)\<rparr>))"

section \<open>The calls\<close>

definition sys_halt :: "('d, 'f) msys \<Rightarrow> ('a, ('d, 'f) msys) run" where
  "sys_halt s = Halt s"

text \<open>
  The loop over the command line returns the characters it has seen. A pointer that is incremented beyond the last address has no
  defined value.
\<close>

function check_string :: "('d, 'f) sys_ops \<Rightarrow> u32 \<Rightarrow> u32 \<Rightarrow> ('d, 'f) msys \<Rightarrow> (byte list, ('d, 'f) msys) run" where
  "check_string env c esp s =
     rbind (on_mem (kload env c) s) (\<lambda>b s.
       if b = 0 then Ret [] s
       else if c = - 1 then Stop
       else rbind (check_uaddr env (c + 1) esp False s) (\<lambda>_ s.
            rbind (check_string env (c + 1) esp s) (\<lambda>bs s. Ret (b # bs) s)))"
  by pat_completeness auto
termination
proof (relation "measure (\<lambda>(env, c, esp, s). 2 ^ 32 - unat c)")
  fix c :: u32
  assume "c \<noteq> - 1"
  then have "unat (c + 1) = Suc (unat c)" by (metis add.commute add_eq_0_iff unatSuc)
  moreover have "unat c < 2 ^ LENGTH(32)" by (rule unsigned_less)
  ultimately show "((env, c + 1, esp, s), (env', c, esp', s')) \<in> measure (\<lambda>(env, c, esp, s). 2 ^ 32 - unat c)"
    for env :: "('d, 'f) sys_ops" and env' :: "('d, 'f) sys_ops" and esp esp' :: u32 and s s' :: "('d, 'f) msys" by simp
qed simp

declare check_string.simps [simp del]

definition sys_exec :: "('d, 'f) sys_ops \<Rightarrow> u32 \<Rightarrow> u32 \<Rightarrow> ('d, 'f) msys \<Rightarrow> (int, ('d, 'f) msys) run" where
  "sys_exec env cmd_line esp s =
     rbind (check_uaddr env cmd_line esp False s) (\<lambda>_ s.
     rbind (check_string env cmd_line esp s) (\<lambda>str s.
       on_mem (\<lambda>m. run_of (process_execute env str m)) s))"

definition sys_wait :: "('d, 'f) sys_ops \<Rightarrow> int \<Rightarrow> ('d, 'f) msys \<Rightarrow> (int, ('d, 'f) msys) run" where
  "sys_wait env pid s = on_mem (\<lambda>m. run_of (process_wait env pid m)) s"

text \<open>A call of the file system that reads a name from user memory.\<close>

definition with_name :: "('d, 'f) sys_ops \<Rightarrow> u32 \<Rightarrow> ('f \<Rightarrow> ('r \<times> 'f) reader) \<Rightarrow> ('d, 'f) msys \<Rightarrow> ('r, ('d, 'f) msys) run" where
  "with_name env file call s =
     rbind (on_mem (\<lambda>m. run_reader (call (files m)) env file m) s) (\<lambda>(r, fs) s. Ret r (set_files fs s))"

definition sys_create :: "('d, 'f) sys_ops \<Rightarrow> u32 \<Rightarrow> u32 \<Rightarrow> u32 \<Rightarrow> ('d, 'f) msys \<Rightarrow> (bool, ('d, 'f) msys) run" where
  "sys_create env file initial_size esp s =
     rbind (check_uaddr env file esp False s) (\<lambda>_ s. with_name env file (filesys_create env (sint initial_size)) s)"

definition sys_remove :: "('d, 'f) sys_ops \<Rightarrow> u32 \<Rightarrow> u32 \<Rightarrow> ('d, 'f) msys \<Rightarrow> (bool, ('d, 'f) msys) run" where
  "sys_remove env file esp s =
     rbind (check_uaddr env file esp False s) (\<lambda>_ s. with_name env file (filesys_remove env) s)"

definition sys_open :: "('d, 'f) sys_ops \<Rightarrow> u32 \<Rightarrow> u32 \<Rightarrow> ('d, 'f) msys \<Rightarrow> (int, ('d, 'f) msys) run" where
  "sys_open env file esp s =
     rbind (check_uaddr env file esp False s) (\<lambda>_ s.
     rbind (with_name env file (filesys_open env) s) (\<lambda>f s. run_of (create_fd env f False s)))"

definition sys_filesize :: "('d, 'f) sys_ops \<Rightarrow> int \<Rightarrow> ('d, 'f) msys \<Rightarrow> (int, ('d, 'f) msys) run" where
  "sys_filesize env fd s =
     (let f = fd_to_file fd s
      in if f = 0 then sys_exit (- 1) s else Ret (file_length (vmo env) f (files (mem s))) s)"

definition sys_read :: "('d, 'f) sys_ops \<Rightarrow> int \<Rightarrow> u32 \<Rightarrow> u32 \<Rightarrow> u32 \<Rightarrow> ('d, 'f) msys \<Rightarrow> (int, ('d, 'f) msys) run" where
  "sys_read env fd buffer sz esp s =
     (if fd = STD_OUT then sys_exit (- 1) s
      else rbind (check_uaddr env buffer esp True s) (\<lambda>_ s.
        if fd = STD_IN then
          (let (c, fs) = input_getc env (files (mem s)) in Ret (uint c) (set_files fs s))
        else rbind (check_range env buffer (unat sz) esp True s) (\<lambda>_ s.
          let f = fd_to_file fd s
          in if f = 0 then Ret (- 1) s
             else let (bs, fs) = file_read env f (sint sz) (files (mem s))
                  in rbind (on_mem (kstore_bytes env buffer bs) (set_files fs s)) (\<lambda>_ s. Ret (int (length bs)) s))))"

text \<open>The output loop: every round prints from the start of the buffer.\<close>

function putbuf_loop :: "('d, 'f) sys_ops \<Rightarrow> u32 \<Rightarrow> nat \<Rightarrow> ('d, 'f) msys \<Rightarrow> (unit, ('d, 'f) msys) run" where
  "putbuf_loop env buffer remaining s =
     (if MAX_PUTBUF_LEN < remaining
      then rbind (on_mem (kload_bytes env buffer MAX_PUTBUF_LEN) s)
             (\<lambda>bs s. putbuf_loop env buffer (remaining - MAX_PUTBUF_LEN) (s\<lparr>console := console s @ bs\<rparr>))
      else rbind (on_mem (kload_bytes env buffer remaining) s) (\<lambda>bs s. Ret () (s\<lparr>console := console s @ bs\<rparr>)))"
  by pat_completeness auto
termination
  by (relation "measure (\<lambda>(env, buffer, remaining, s). remaining)") auto

declare putbuf_loop.simps [simp del]

definition sys_write :: "('d, 'f) sys_ops \<Rightarrow> int \<Rightarrow> u32 \<Rightarrow> u32 \<Rightarrow> u32 \<Rightarrow> ('d, 'f) msys \<Rightarrow> (int, ('d, 'f) msys) run" where
  "sys_write env fd buffer sz esp s =
     (if fd = STD_IN then sys_exit (- 1) s
      else rbind (check_uaddr env buffer esp False s) (\<lambda>_ s.
           rbind (check_range env buffer (unat sz) esp False s) (\<lambda>_ s.
             if fd = STD_OUT then rbind (putbuf_loop env buffer (unat sz) s) (\<lambda>_ s. Ret (sint sz) s)
             else let f = fd_to_file fd s
                  in if f = 0 then Ret (- 1) s
                     else rbind (on_mem (kload_bytes env buffer (if sint sz < 0 then 0 else unat sz)) s) (\<lambda>bs s.
                       let (n, fs) = file_write env f bs (files (mem s)) in Ret n (set_files fs s)))))"

definition sys_seek :: "('d, 'f) sys_ops \<Rightarrow> int \<Rightarrow> u32 \<Rightarrow> ('d, 'f) msys \<Rightarrow> (unit, ('d, 'f) msys) run" where
  "sys_seek env fd position s =
     (let f = fd_to_file fd s
      in if f = 0 then Ret () s else Ret () (set_files (file_seek env f (sint position) (files (mem s))) s))"

definition sys_tell :: "('d, 'f) sys_ops \<Rightarrow> int \<Rightarrow> ('d, 'f) msys \<Rightarrow> (u32, ('d, 'f) msys) run" where
  "sys_tell env fd s =
     (let f = fd_to_file fd s
      in if f = 0 then Ret (- 1) s else Ret (word_of_int (file_tell env f (files (mem s)))) s)"

definition sys_close :: "int \<Rightarrow> ('d, 'f) msys \<Rightarrow> (unit, ('d, 'f) msys) run" where
  "sys_close fd s = (let (f, s1) = remove_fd fd s in if f = 0 then sys_exit (- 1) s1 else Ret () s1)"

section \<open>Memory-mapped files\<close>

definition upage_at :: "u32 \<Rightarrow> nat \<Rightarrow> u32" where
  "upage_at addr i = addr + of_nat (i * 4096)"

text \<open>The first loop: is one of the pages \<open>i, ..., i + n - 1\<close> in the table?\<close>

fun in_table_loop :: "u32 \<Rightarrow> nat \<Rightarrow> nat \<Rightarrow> ('d, 'f) vmm \<Rightarrow> bool" where
  "in_table_loop addr i 0 s = False"
| "in_table_loop addr i (Suc n) s = (page_in_table (upage_at addr i) s \<or> in_table_loop addr (Suc i) n s)"

text \<open>The second loop, which stops at the first page that cannot be entered.\<close>

fun set_file_loop :: "('d, 'f) vm_ops \<Rightarrow> u32 \<Rightarrow> nat \<Rightarrow> nat \<Rightarrow> nat \<Rightarrow> ('d, 'f) vmm \<Rightarrow> bool \<times> ('d, 'f) vmm" where
  "set_file_loop ops addr f i 0 s = (True, s)"
| "set_file_loop ops addr f i (Suc n) s =
     (let (ok, s1) = page_set_file ops (upage_at addr i) f (int (i * 4096)) s
      in if ok then set_file_loop ops addr f (Suc i) n s1 else (False, s1))"

text \<open>\<open>off_t\<close> is an \<open>int\<close>.\<close>

definition num_pages :: "int \<Rightarrow> nat option" where
  "num_pages len = do {
     n \<leftarrow> c_int (len + 4095);
     Some (nat (n sdiv 4096))
   }"

definition sys_mmap :: "('d, 'f) sys_ops \<Rightarrow> int \<Rightarrow> u32 \<Rightarrow> ('d, 'f) msys \<Rightarrow> (int, ('d, 'f) msys) run" where
  "sys_mmap env fd addr s =
     (if fd = 0 \<or> fd = 1 \<or> addr = 0 \<or> pg_ofs (hw (vmo env)) addr \<noteq> 0 then Ret (- 1) s
      else
        let f = fd_to_file fd s; len = file_length (vmo env) f (files (mem s)) in
        if f = 0 then sys_exit (- 1) s
        else if len = 0 then Ret (- 1) s
        else (case num_pages len of
            None \<Rightarrow> Stop
          | Some n \<Rightarrow>
              if in_table_loop addr 0 n (mem s) then Ret (- 1) s
              else
                let (f', fs') = file_reopen env f (files (mem s)); s = set_files fs' s in
                if f' = 0 then Ret (- 1) s
                else
                  let (ok, m1) = set_file_loop (vmo env) addr f' 0 n (mem s); s = s\<lparr>mem := m1\<rparr> in
                  if \<not> ok then Ret (- 1) s else run_of (create_fd env f' True s)))"

definition sys_munmap :: "('d, 'f) sys_ops \<Rightarrow> int \<Rightarrow> ('d, 'f) msys \<Rightarrow> (unit, ('d, 'f) msys) run" where
  "sys_munmap env mapping s =
     (let f = fd_to_file mapping s
      in if f = 0 then Ret () s
         else case page_unmap (vmo env) f (mem s) of
           None \<Rightarrow> Stop
         | Some m \<Rightarrow>
             let (g, s1) = remove_fd mapping (s\<lparr>mem := m\<rparr>)
             in Ret () (set_files (file_close env f (files (mem s1))) s1))"

section \<open>The handler\<close>

definition set_eax :: "intr_frame \<Rightarrow> ('a \<Rightarrow> u32) \<Rightarrow> ('a, 's) run \<Rightarrow> (intr_frame, 's) run" where
  "set_eax f conv r = rbind r (\<lambda>a s. Ret (f\<lparr>fr_eax := conv a\<rparr>) s)"

definition no_result :: "intr_frame \<Rightarrow> (unit, 's) run \<Rightarrow> (intr_frame, 's) run" where
  "no_result f r = rbind r (\<lambda>_ s. Ret f s)"

text \<open>One, two and three arguments from the user stack.\<close>

definition args1 :: "('d, 'f) sys_ops \<Rightarrow> u32 \<Rightarrow> ('d, 'f) msys \<Rightarrow> (u32 \<Rightarrow> ('d, 'f) msys \<Rightarrow> ('a, ('d, 'f) msys) run) \<Rightarrow> ('a, ('d, 'f) msys) run" where
  "args1 env esp s k = rbind (grab_arg env esp s) (\<lambda>(a, esp) s. k a s)"

definition args2 :: "('d, 'f) sys_ops \<Rightarrow> u32 \<Rightarrow> ('d, 'f) msys \<Rightarrow> (u32 \<Rightarrow> u32 \<Rightarrow> ('d, 'f) msys \<Rightarrow> ('a, ('d, 'f) msys) run) \<Rightarrow> ('a, ('d, 'f) msys) run" where
  "args2 env esp s k = rbind (grab_arg env esp s) (\<lambda>(a, esp) s. args1 env esp s (k a))"

definition args3 :: "('d, 'f) sys_ops \<Rightarrow> u32 \<Rightarrow> ('d, 'f) msys \<Rightarrow> (u32 \<Rightarrow> u32 \<Rightarrow> u32 \<Rightarrow> ('d, 'f) msys \<Rightarrow> ('a, ('d, 'f) msys) run) \<Rightarrow> ('a, ('d, 'f) msys) run" where
  "args3 env esp s k = rbind (grab_arg env esp s) (\<lambda>(a, esp) s. args2 env esp s (k a))"

definition syscall_handler :: "('d, 'f) sys_ops \<Rightarrow> intr_frame \<Rightarrow> ('d, 'f) msys \<Rightarrow> (intr_frame, ('d, 'f) msys) run" where
  "syscall_handler env f s =
     (if fr_esp f = 0 then sys_exit (- 1) s
      else let esp_original = fr_esp f in
       rbind (grab_arg env (fr_esp f) s) (\<lambda>(number, esp) s.
       case sysno env number of
         None \<Rightarrow> Exit s
       | Some SYS_HALT \<Rightarrow> sys_halt s
       | Some SYS_EXIT \<Rightarrow> args1 env esp s (\<lambda>status s. sys_exit (sint status) s)
       | Some SYS_EXEC \<Rightarrow> args1 env esp s (\<lambda>cmd_line s. set_eax f word_of_int (sys_exec env cmd_line esp_original s))
       | Some SYS_WAIT \<Rightarrow> args1 env esp s (\<lambda>pid s. set_eax f word_of_int (sys_wait env (sint pid) s))
       | Some SYS_CREATE \<Rightarrow> args2 env esp s (\<lambda>file initial_size s. set_eax f of_bool (sys_create env file initial_size esp_original s))
       | Some SYS_REMOVE \<Rightarrow> args1 env esp s (\<lambda>file s. set_eax f of_bool (sys_remove env file esp_original s))
       | Some SYS_OPEN \<Rightarrow> args1 env esp s (\<lambda>file s. set_eax f word_of_int (sys_open env file esp_original s))
       | Some SYS_FILESIZE \<Rightarrow> args1 env esp s (\<lambda>fd s. set_eax f word_of_int (sys_filesize env (sint fd) s))
       | Some SYS_READ \<Rightarrow> args3 env esp s (\<lambda>fd buffer sz s. set_eax f word_of_int (sys_read env (sint fd) buffer sz esp_original s))
       | Some SYS_WRITE \<Rightarrow> args3 env esp s (\<lambda>fd buffer sz s. set_eax f word_of_int (sys_write env (sint fd) buffer sz esp_original s))
       | Some SYS_SEEK \<Rightarrow> args2 env esp s (\<lambda>fd position s. no_result f (sys_seek env (sint fd) position s))
       | Some SYS_TELL \<Rightarrow> args1 env esp s (\<lambda>fd s. set_eax f id (sys_tell env (sint fd) s))
       | Some SYS_CLOSE \<Rightarrow> args1 env esp s (\<lambda>fd s. no_result f (sys_close (sint fd) s))
       | Some SYS_MMAP \<Rightarrow> args2 env esp s (\<lambda>fd addr s. set_eax f word_of_int (sys_mmap env (sint fd) addr s))
       | Some SYS_MUNMAP \<Rightarrow> args1 env esp s (\<lambda>mapping s. no_result f (sys_munmap env (sint mapping) s))))"

definition syscall_init :: "cpu \<Rightarrow> 'h \<Rightarrow> ('h, 'w) intr \<Rightarrow> ('h, 'w) intr option" where
  "syscall_init c handler s = intr_register_int c 0x30 3 INTR_ON handler ''syscall'' s"

end
