(* ===== verification/Vm_Syscall_Props.thy ===== *)
theory Vm_Syscall_Props
  imports Vm_Syscall
begin

text \<open>
  Properties of system calls with virtual memory: the vectors that user programs can raise; a pointer that has been checked stays
  accessible, so that no call but those that read names is killed by the page fault handler; and how a name is.
\<close>

section \<open>The vectors of user programs\<close>

text \<open>
  C19 (safety): user programs can raise only the breakpoint, overflow and bounds exceptions and system calls by
  themselves. Starting from an empty table, \<open>intr_init\<close>, \<open>exception_init\<close> and \<open>syscall_init\<close> return, and among the 256
  gates exactly those of the vectors 3, 4, 5 and 0x30 then have privilege level 3; of the vectors these functions register,
  the page fault and no other enters its handler with interrupts off.
\<close>

theorem user_callable_vectors:
  assumes stubs: "\<And>v. intr_stubs c v \<noteq> 0" and e: "\<And>v. intr_handlers s v = None"
  shows "\<exists>s1 s2 s3. intr_init c s = Some s1 \<and> exception_init c s1 = Some s2 \<and> syscall_init c System_Call s2 = Some s3 \<and>
    (\<forall>v. gate_dpl (idt s3 v) = 3 \<longleftrightarrow> v \<in> {3, 4, 5, 0x30}) \<and>
    (\<forall>v. intr_handlers s3 v \<noteq> None \<longrightarrow> (gate_type (idt s3 v) = 14 \<longleftrightarrow> v = 14) \<and> (intr_handlers s3 v = Some Page_Fault \<longleftrightarrow> v = 14) \<and>
       (intr_handlers s3 v = Some System_Call \<longleftrightarrow> v = 0x30))"
proof -
  obtain s1 s2 where s2: "intr_init c s = Some s1" "exception_init c s1 = Some s2"
    "\<forall>v. gate_dpl (idt s2 v) = 3 \<longleftrightarrow> v \<in> {3, 4, 5}"
    "\<forall>v. intr_handlers s2 v \<noteq> None \<longrightarrow> v \<noteq> 0x30 \<and> (gate_type (idt s2 v) = 14 \<longleftrightarrow> v = 14) \<and>
       (intr_handlers s2 v = Some Page_Fault \<longleftrightarrow> v = 14) \<and> intr_handlers s2 v \<noteq> Some System_Call"
    using exceptions_registered [OF assms] by blast
  have "intr_handlers s2 0x30 = None" using s2(4) by blast
  then obtain g where g: "syscall_init c System_Call s2 = Some (s2\<lparr>idt := (idt s2)(0x30 := g),
      intr_handlers := (intr_handlers s2)(0x30 := Some System_Call), intr_names := (intr_names s2)(0x30 := ''syscall'')\<rparr>)"
    "gate_dpl g = 3" "gate_type g = 15"
    using register_int_spec [of c "0x30" 3 s2 INTR_ON System_Call "''syscall''"] stubs by (auto simp: syscall_init_def)
  let ?s3 = "s2\<lparr>idt := (idt s2)(0x30 := g), intr_handlers := (intr_handlers s2)(0x30 := Some System_Call),
      intr_names := (intr_names s2)(0x30 := ''syscall'')\<rparr>"
  have "\<forall>v. gate_dpl (idt ?s3 v) = 3 \<longleftrightarrow> v \<in> {3, 4, 5, 0x30}" using s2(3) g(2) by auto
  moreover have "\<forall>v. intr_handlers ?s3 v \<noteq> None \<longrightarrow> (gate_type (idt ?s3 v) = 14 \<longleftrightarrow> v = 14) \<and>
      (intr_handlers ?s3 v = Some Page_Fault \<longleftrightarrow> v = 14) \<and> (intr_handlers ?s3 v = Some System_Call \<longleftrightarrow> v = 0x30)"
    using s2(4) g(3) by auto
  ultimately show ?thesis using s2(1,2) g(1) by blast
qed

theorem user_callable_vectors_witness:
  "\<exists>s1 s2 s3. intr_init demo_cpu demo_boot = Some s1 \<and> exception_init demo_cpu s1 = Some s2 \<and> syscall_init demo_cpu System_Call s2 = Some s3 \<and>
     gate_dpl (idt s3 0x30) = 3 \<and> gate_dpl (idt s3 14) \<noteq> 3"
proof -
  have "intr_handlers demo_boot v = None" for v by (simp add: demo_boot_def)
  from user_callable_vectors [of demo_cpu demo_boot, OF demo_stubs this]
  obtain s1 s2 s3 where "intr_init demo_cpu demo_boot = Some s1" "exception_init demo_cpu s1 = Some s2" "syscall_init demo_cpu System_Call s2 = Some s3"
    "\<forall>v. gate_dpl (idt s3 v) = 3 \<longleftrightarrow> v \<in> {3, 4, 5, 0x30}" by blast
  then show ?thesis by auto
qed

section \<open>Checked pointers\<close>

definition sys_grows :: "('d, 'f) sys_ops \<Rightarrow> u32 set \<Rightarrow> ('d, 'f) msys \<Rightarrow> ('d, 'f) msys \<Rightarrow> bool" where
  "sys_grows env D s s' \<longleftrightarrow> vm_grows (vmo env) D (mem s) (mem s')"

lemma sys_grows_refl: "vm_inv (vmo env) D (mem s) \<Longrightarrow> sys_grows env D s s"
  by (simp add: sys_grows_def vm_grows_refl)

lemma sys_grows_trans: "sys_grows env D s s1 \<Longrightarrow> sys_grows env D s1 s2 \<Longrightarrow> sys_grows env D s s2"
  unfolding sys_grows_def by (rule vm_grows_trans)

lemma sys_growsD: "sys_grows env D s s' \<Longrightarrow> vm_inv (vmo env) D (mem s')"
  by (simp add: sys_grows_def vm_grows_def)

lemma sys_grows_fields [simp]:
  "sys_grows env D s (t\<lparr>files_open := x\<rparr>) = sys_grows env D s t" "sys_grows env D s (t\<lparr>console := y\<rparr>) = sys_grows env D s t"
  by (simp_all add: sys_grows_def)

lemma sys_grows_files: "sys_grows env D s t \<Longrightarrow> sys_grows env D s (set_files fs t)"
proof -
  assume g: "sys_grows env D s t"
  have "same_maps (vmo env) D (mem t) (mem (set_files fs t))"
    using same_maps_refl [OF vm_invD(2) [OF sys_growsD [OF g]]] by (simp add: set_files_def)
  then have "sys_grows env D t (set_files fs t)" using same_maps_ext [OF sys_growsD [OF g]] by (simp add: sys_grows_def)
  then show ?thesis by (rule sys_grows_trans [OF g])
qed

lemma on_mem_sound:
  assumes "sound (\<lambda>a m. Q a (s\<lparr>mem := m\<rparr>)) (g (mem s))"
  shows "sound Q (on_mem g s)"
  using assms by (cases "g (mem s)") (simp_all add: on_mem_def)

lemma is_valid_uaddr_spec:
  assumes inv: "vm_inv (vmo env) D m" and r: "round_ok (vmo env)" and v: "is_valid_uaddr env a esp write m = Some (ok, m')"
  shows "vm_grows (vmo env) D m m' \<and> (ok \<longrightarrow> accessible (vmo env) D a write m')"
proof (cases "is_user_vaddr (hw (vmo env)) a")
  case False
  then show ?thesis using v vm_grows_refl [OF inv] by (simp add: is_valid_uaddr_def)
next
  case True
  let ?pg = "pg_round_down (vmo env) a"
  obtain k where k: "pagedir_get_page (hw (vmo env)) (cur_pagedir m) a m = Some k"
      "k = None \<longleftrightarrow> pd_map (hw (vmo env)) D m (cur_pagedir m, ?pg) = None"
    using get_page_map(1) [OF inv r True] by (elim exE conjE) (rule that)
  show ?thesis
  proof (cases "k = None")
    case None: True
    then have f: "page_fetch (vmo env) a esp write m = Some (ok, m')" using v True k(1) by (simp add: is_valid_uaddr_def)
    have "vm_grows (vmo env) D m m'"
      using page_fetch_keeps [OF inv f] None k(2) by (auto simp: vm_grows_def map_le_def split: if_splits)
    then show ?thesis using page_fetch_keeps [OF inv f] True by (auto simp: accessible_def intro!: exI [of _ True])
  next
    case False
    then obtain p w where p: "pd_map (hw (vmo env)) D m (cur_pagedir m, ?pg) = Some (p, w)" using k(2) by auto
    have "page_is_writable ?pg m = Some w" by (rule vm_invD(8) [OF inv p])
    then have "m' = m" "ok \<longrightarrow> write \<longrightarrow> w" using v True k(1) False by (auto simp: is_valid_uaddr_def split: if_splits)
    then show ?thesis using vm_grows_refl [OF inv] p True by (simp add: accessible_def)
  qed
qed

lemma check_uaddr_sound:
  assumes "vm_inv (vmo env) D (mem s)" "round_ok (vmo env)"
  shows "sound (\<lambda>_ s'. sys_grows env D s s' \<and> accessible (vmo env) D a write (mem s')) (check_uaddr env a esp write s)"
proof -
  have "sound (\<lambda>ok s'. sys_grows env D s s' \<and> (ok \<longrightarrow> accessible (vmo env) D a write (mem s')))
      (on_mem (\<lambda>m. run_of (is_valid_uaddr env a esp write m)) s)"
    by (rule on_mem_sound) (use is_valid_uaddr_spec [OF assms] in \<open>simp add: sound_run_of sys_grows_def\<close>)
  then show ?thesis unfolding check_uaddr_def
    by (rule sound_bind) (auto simp: sys_exit_def)
qed

lemma check_range_sound:
  assumes r: "round_ok (vmo env)"
  shows "vm_inv (vmo env) D (mem s) \<Longrightarrow>
    sound (\<lambda>_ s'. sys_grows env D s s' \<and> range_accessible (vmo env) D a n write (mem s')) (check_range env a n esp write s)"
proof (induction n arbitrary: a s)
  case 0
  then show ?case by (simp add: sys_grows_refl range_accessible_def)
next
  case (Suc n)
  show ?case unfolding check_range.simps
  proof (rule sound_bind [OF check_uaddr_sound [OF Suc.prems r]], elim conjE)
    fix s1 assume s1: "sys_grows env D s s1" "accessible (vmo env) D a write (mem s1)"
    show "sound (\<lambda>_ s'. sys_grows env D s s' \<and> range_accessible (vmo env) D a (Suc n) write (mem s')) (check_range env (a + 1) n esp write s1)"
      by (rule sound_mono [OF Suc.IH [OF sys_growsD [OF s1(1)]]])
        (use sys_grows_trans [OF s1(1)] accessible_grows [OF s1(2)] in \<open>auto simp: range_accessible_Suc sys_grows_def\<close>)
  qed
qed

lemma checked_bind:
  assumes inv: "vm_inv (vmo env) D (mem s)" and r: "round_ok (vmo env)"
  shows "(\<And>t. sys_grows env D s t \<Longrightarrow> sound Q (k t)) \<Longrightarrow> sound Q (rbind (check_uaddr env a esp write s) (\<lambda>_. k))"
    "(\<And>t. sys_grows env D s t \<Longrightarrow> range_accessible (vmo env) D a n write (mem t) \<Longrightarrow> sound Q (k t)) \<Longrightarrow>
      sound Q (rbind (check_range env a n esp write s) (\<lambda>_. k))"
  by (rule sound_bind [OF check_uaddr_sound [OF inv r]], blast) (rule sound_bind [OF check_range_sound [OF r inv]], blast)

lemma load_range_sound:
  assumes "vm_inv (vmo env) D (mem s)" "round_ok (vmo env)" "range_accessible (vmo env) D a n False (mem s)"
  shows "sound (\<lambda>bs s'. sys_grows env D s s' \<and> length bs = n) (on_mem (kload_bytes env a n) s)"
  by (rule on_mem_sound) (use kload_bytes_sound [OF assms(2,1,3)] in \<open>simp add: sys_grows_def\<close>)

lemma grab_arg_sound:
  assumes "vm_inv (vmo env) D (mem s)" "round_ok (vmo env)"
  shows "sound (\<lambda>_ s'. sys_grows env D s s') (grab_arg env esp s)"
  unfolding grab_arg_def
proof (rule sound_bind [OF check_range_sound [OF assms(2,1)]], elim conjE)
  fix s1 assume s1: "sys_grows env D s s1" "range_accessible (vmo env) D esp 4 False (mem s1)"
  show "sound (\<lambda>_ s'. sys_grows env D s s') (rbind (on_mem (kload_bytes env esp 4) s1) (\<lambda>bs s. Ret (of_le32 bs, esp + 4) s))"
    by (rule sound_bind [OF load_range_sound [OF sys_growsD [OF s1(1)] assms(2) s1(2)]]) (use sys_grows_trans [OF s1(1)] in auto)
qed

section \<open>The calls\<close>

lemma args_sound:
  assumes inv: "vm_inv (vmo env) D (mem s)" and r: "round_ok (vmo env)"
  shows "(\<And>a s1. sys_grows env D s s1 \<Longrightarrow> sound Q (k1 a s1)) \<Longrightarrow> sound Q (args1 env esp s k1)"
    "(\<And>a b s1. sys_grows env D s s1 \<Longrightarrow> sound Q (k2 a b s1)) \<Longrightarrow> sound Q (args2 env esp s k2)"
    "(\<And>a b c s1. sys_grows env D s s1 \<Longrightarrow> sound Q (k3 a b c s1)) \<Longrightarrow> sound Q (args3 env esp s k3)"
proof -
  note g = sound_bind [OF grab_arg_sound [OF _ r]]
  have 1: "sound Q (args1 env e t k)" if "vm_inv (vmo env) D (mem t)" "\<And>a t1. sys_grows env D t t1 \<Longrightarrow> sound Q (k a t1)" for t k e
    unfolding args1_def by (rule g [OF that(1)]) (auto intro: that(2))
  have 2: "sound Q (args2 env e t k)" if "vm_inv (vmo env) D (mem t)" "\<And>a b t1. sys_grows env D t t1 \<Longrightarrow> sound Q (k a b t1)" for t k e
    unfolding args2_def
  proof (rule g [OF that(1)], clarify)
    fix a e' t1 assume t1: "sys_grows env D t t1"
    show "sound Q (args1 env e' t1 (k a))" by (rule 1 [OF sys_growsD [OF t1]]) (rule that(2) [OF sys_grows_trans [OF t1]])
  qed
  show "sound Q (args1 env esp s k1)" if "\<And>a s1. sys_grows env D s s1 \<Longrightarrow> sound Q (k1 a s1)" by (rule 1 [OF inv that])
  show "sound Q (args2 env esp s k2)" if "\<And>a b s1. sys_grows env D s s1 \<Longrightarrow> sound Q (k2 a b s1)" by (rule 2 [OF inv that])
  show "sound Q (args3 env esp s k3)" if k: "\<And>a b c s1. sys_grows env D s s1 \<Longrightarrow> sound Q (k3 a b c s1)"
    unfolding args3_def
  proof (rule g [OF inv], clarify)
    fix a e' t1 assume t1: "sys_grows env D s t1"
    show "sound Q (args2 env e' t1 (k3 a))" by (rule 2 [OF sys_growsD [OF t1]]) (rule k [OF sys_grows_trans [OF t1]])
  qed
qed

lemma frame_sound:
  "sound (\<lambda>_. P) r \<Longrightarrow> sound (\<lambda>_. P) (set_eax f conv r)" "sound (\<lambda>_. P) u \<Longrightarrow> sound (\<lambda>_. P) (no_result f u)"
  unfolding set_eax_def no_result_def by (rule sound_bind; simp)+

lemma check_string_sound:
  assumes r: "round_ok (vmo env)"
  shows "vm_inv (vmo env) D (mem s) \<Longrightarrow> accessible (vmo env) D c False (mem s) \<Longrightarrow>
    sound (\<lambda>_ s'. sys_grows env D s s') (check_string env c esp s)"
proof (induction "2 ^ 32 - unat c" arbitrary: c s rule: less_induct)
  case less
  have l: "sound (\<lambda>b s'. sys_grows env D s s') (on_mem (kload env c) s)"
    by (rule on_mem_sound) (use kload_sound [OF less.prems(1) r less.prems(2)] in \<open>simp add: sys_grows_def\<close>)
  show ?case
  proof (subst check_string.simps, rule sound_bind [OF l])
    fix b s1 assume s1: "sys_grows env D s s1"
    show "sound (\<lambda>_ s'. sys_grows env D s s') (if b = 0 then Ret [] s1 else if c = - 1 then Stop
        else rbind (check_uaddr env (c + 1) esp False s1) (\<lambda>_ s. rbind (check_string env (c + 1) esp s) (\<lambda>bs s. Ret (b # bs) s)))"
    proof (cases "b = 0 \<or> c = - 1")
      case False
      have "unat (c + 1) = Suc (unat c)" using False by (metis add.commute add_eq_0_iff unatSuc)
      moreover have "unat c < 2 ^ LENGTH(32)" by (rule unsigned_less)
      ultimately have d: "2 ^ 32 - unat (c + 1) < 2 ^ 32 - unat c" by simp
      have "sound (\<lambda>_ s'. sys_grows env D s s') (rbind (check_uaddr env (c + 1) esp False s1)
          (\<lambda>_ s. rbind (check_string env (c + 1) esp s) (\<lambda>bs s. Ret (b # bs) s)))"
      proof (rule sound_bind [OF check_uaddr_sound [OF sys_growsD [OF s1] r]], elim conjE)
        fix s2 assume s2: "sys_grows env D s1 s2" "accessible (vmo env) D (c + 1) False (mem s2)"
        show "sound (\<lambda>_ s'. sys_grows env D s s') (rbind (check_string env (c + 1) esp s2) (\<lambda>bs s. Ret (b # bs) s))"
          by (rule sound_bind [OF less.hyps [OF d sys_growsD [OF s2(1)] s2(2)]])
            (use sys_grows_trans [OF s1 sys_grows_trans [OF s2(1)]] in auto)
      qed
      then show ?thesis using False by simp
    qed (use s1 in auto)
  qed
qed

lemma putbuf_loop_sound:
  assumes r: "round_ok (vmo env)"
  shows "vm_inv (vmo env) D (mem s) \<Longrightarrow> range_accessible (vmo env) D buffer n False (mem s) \<Longrightarrow>
    sound (\<lambda>_ s'. sys_grows env D s s') (putbuf_loop env buffer n s)"
proof (induction n arbitrary: s rule: less_induct)
  case (less n)
  show ?case
  proof (cases "300 < n")
    case True
    have "range_accessible (vmo env) D buffer 300 False (mem s)" using less.prems(2) True by (simp add: range_accessible_def)
    note l = load_range_sound [OF less.prems(1) r this]
    have "sound (\<lambda>_ s'. sys_grows env D s s') (putbuf_loop env buffer (n - 300) (s1\<lparr>console := console s1 @ bs\<rparr>))"
      if s1: "sys_grows env D s s1" for bs s1
    proof (rule sound_mono [OF less.IH])
      show "vm_inv (vmo env) D (mem (s1\<lparr>console := console s1 @ bs\<rparr>))" using sys_growsD [OF s1] by simp
      show "range_accessible (vmo env) D buffer (n - 300) False (mem (s1\<lparr>console := console s1 @ bs\<rparr>))"
        using range_accessible_grows [OF less.prems(2)] s1 by (simp add: sys_grows_def range_accessible_def)
      show "sys_grows env D s s'" if "sys_grows env D (s1\<lparr>console := console s1 @ bs\<rparr>) s'" for s'
        using sys_grows_trans [OF s1, of s'] that by (simp add: sys_grows_def)
    qed (use True in simp)
    then show ?thesis using True by (subst putbuf_loop.simps) (auto intro!: sound_bind [OF l])
  next
    case False
    show ?thesis using False
      by (subst putbuf_loop.simps) (auto intro!: sound_bind [OF load_range_sound [OF less.prems(1) r less.prems(2)]])
  qed
qed

lemma sys_exec_sound:
  assumes inv: "vm_inv (vmo env) D (mem s)" and r: "round_ok (vmo env)"
  shows "sound (\<lambda>_ _. True) (sys_exec env cmd_line esp s)"
  unfolding sys_exec_def
proof (rule sound_bind [OF check_uaddr_sound [OF inv r]], elim conjE)
  fix s1 assume s1: "sys_grows env D s s1" "accessible (vmo env) D cmd_line False (mem s1)"
  have e: "sound (\<lambda>_ _. True) (on_mem (\<lambda>m. run_of (process_execute env str m)) t)" for str t
    by (cases "process_execute env str (mem t)") (auto simp: on_mem_def)
  show "sound (\<lambda>_ _. True) (rbind (check_string env cmd_line esp s1) (\<lambda>str s. on_mem (\<lambda>m. run_of (process_execute env str m)) s))"
    by (rule sound_bind [OF check_string_sound [OF r sys_growsD [OF s1(1)] s1(2)]]) (rule e)
qed

lemma sys_read_sound:
  assumes inv: "vm_inv (vmo env) D (mem s)" and r: "round_ok (vmo env)"
    and rd: "\<And>f n fs. int (length (fst (file_read env f n fs))) \<le> max 0 n"
  shows "sound (\<lambda>_ s'. sys_grows env D s s') (sys_read env fd buffer sz esp s)"
proof -
  have f: "sound (\<lambda>_ s'. sys_grows env D s s') (let f = fd_to_file fd t
          in if f = 0 then Ret (- 1) t
             else let (bs, fs) = file_read env f (sint sz) (files (mem t))
                  in rbind (on_mem (kstore_bytes env buffer bs) (set_files fs t)) (\<lambda>_ s. Ret (int (length bs)) s))"
    if t: "sys_grows env D s t" "range_accessible (vmo env) D buffer (unat sz) True (mem t)" for t
  proof -
    obtain bs fs where b: "file_read env (fd_to_file fd t) (sint sz) (files (mem t)) = (bs, fs)" by fastforce
    have sint: "max 0 (sint sz) \<le> int (unat sz)"
    proof -
      have "uint sz < 2 ^ LENGTH(32)" by (rule unsigned_less)
      then have "take_bit 32 (uint sz) = uint sz" by (intro take_bit_int_eq_self) simp_all
      then show ?thesis by (simp add: sint_uint signed_take_bit_eq_take_bit_minus)
    qed
    have "int (length bs) \<le> max 0 (sint sz)" using rd [of "fd_to_file fd t" "sint sz" "files (mem t)"] b by simp
    then have "int (length bs) \<le> int (unat sz)" using sint by (rule order_trans)
    then have "length bs \<le> unat sz" by (simp only: of_nat_le_iff)
    then have "range_accessible (vmo env) D buffer (length bs) True (mem t)" using t(2) by (simp add: range_accessible_def)
    then have a: "range_accessible (vmo env) D buffer (length bs) True (mem (set_files fs t))"
      by (rule range_accessible_grows [OF _ sys_grows_files [OF sys_grows_refl [OF sys_growsD [OF t(1)]], unfolded sys_grows_def]])
    have g: "sys_grows env D s (set_files fs t)" by (rule sys_grows_files [OF t(1)])
    have "sound (\<lambda>_ s'. sys_grows env D (set_files fs t) s') (on_mem (kstore_bytes env buffer bs) (set_files fs t))"
      by (rule on_mem_sound) (use kstore_bytes_sound [OF r sys_growsD [OF g] a] in \<open>simp add: sys_grows_def\<close>)
    then have "sound (\<lambda>_ s'. sys_grows env D s s') (rbind (on_mem (kstore_bytes env buffer bs) (set_files fs t)) (\<lambda>_ s. Ret (int (length bs)) s))"
      by (rule sound_bind) (use sys_grows_trans [OF g] in auto)
    then show ?thesis using b t(1) by (simp add: Let_def)
  qed
  have c: "sound (\<lambda>_ s'. sys_grows env D s s') (let (c, fs) = input_getc env (files (mem t)) in Ret (uint c) (set_files fs t))"
    if "sys_grows env D s t" for t using sys_grows_files [OF that] by (simp split: prod.split)
  have k: "sound (\<lambda>_ s'. sys_grows env D s s') (rbind (check_range env buffer (unat sz) esp True t) (\<lambda>_ s.
          let f = fd_to_file fd s
          in if f = 0 then Ret (- 1) s
             else let (bs, fs) = file_read env f (sint sz) (files (mem s))
                  in rbind (on_mem (kstore_bytes env buffer bs) (set_files fs s)) (\<lambda>_ s. Ret (int (length bs)) s)))"
    if t: "sys_grows env D s t" for t
    by (rule checked_bind(2) [OF sys_growsD [OF t] r], rule f [OF sys_grows_trans [OF t]])
  have "sound (\<lambda>_ s'. sys_grows env D s s') (rbind (check_uaddr env buffer esp True s) (\<lambda>_ s.
        if fd = STD_IN then
          (let (c, fs) = input_getc env (files (mem s)) in Ret (uint c) (set_files fs s))
        else rbind (check_range env buffer (unat sz) esp True s) (\<lambda>_ s.
          let f = fd_to_file fd s
          in if f = 0 then Ret (- 1) s
             else let (bs, fs) = file_read env f (sint sz) (files (mem s))
                  in rbind (on_mem (kstore_bytes env buffer bs) (set_files fs s)) (\<lambda>_ s. Ret (int (length bs)) s))))"
    by (rule checked_bind(1) [OF inv r]) (use c k in \<open>simp only: if_split simp_thms\<close>)
  then show ?thesis unfolding sys_read_def by (simp add: sys_exit_def)
qed

lemma sys_write_sound:
  assumes inv: "vm_inv (vmo env) D (mem s)" and r: "round_ok (vmo env)"
  shows "sound (\<lambda>_ s'. sys_grows env D s s') (sys_write env fd buffer sz esp s)"
proof -
  have p: "sound (\<lambda>_ s'. sys_grows env D s s') (rbind (putbuf_loop env buffer (unat sz) t) (\<lambda>_ s. Ret (sint sz) s))"
    if "sys_grows env D s t" "range_accessible (vmo env) D buffer (unat sz) False (mem t)" for t
    by (rule sound_bind [OF putbuf_loop_sound [OF r sys_growsD [OF that(1)] that(2)]]) (use sys_grows_trans [OF that(1)] in auto)
  have w: "sound (\<lambda>_ s'. sys_grows env D s s') (let f = fd_to_file fd t
        in if f = 0 then Ret (- 1) t
           else rbind (on_mem (kload_bytes env buffer (if sint sz < 0 then 0 else unat sz)) t) (\<lambda>bs s.
             let (n, fs) = file_write env f bs (files (mem s)) in Ret n (set_files fs s)))"
    if "sys_grows env D s t" "range_accessible (vmo env) D buffer (unat sz) False (mem t)" for t
  proof -
    have a: "range_accessible (vmo env) D buffer (if sint sz < 0 then 0 else unat sz) False (mem t)"
      using that(2) by (simp add: range_accessible_def)
    have "sound (\<lambda>_ s'. sys_grows env D s s') (rbind (on_mem (kload_bytes env buffer (if sint sz < 0 then 0 else unat sz)) t) (\<lambda>bs s.
             let (n, fs) = file_write env (fd_to_file fd t) bs (files (mem s)) in Ret n (set_files fs s)))"
      by (rule sound_bind [OF load_range_sound [OF sys_growsD [OF that(1)] r a]])
        (use sys_grows_files [OF sys_grows_trans [OF that(1)]] in \<open>auto split: prod.split\<close>)
    then show ?thesis using that(1) by (simp add: Let_def)
  qed
  have "sound (\<lambda>_ s'. sys_grows env D s s') (rbind (check_range env buffer (unat sz) esp False t) (\<lambda>_ s.
             if fd = STD_OUT then rbind (putbuf_loop env buffer (unat sz) s) (\<lambda>_ s. Ret (sint sz) s)
             else let f = fd_to_file fd s
                  in if f = 0 then Ret (- 1) s
                     else rbind (on_mem (kload_bytes env buffer (if sint sz < 0 then 0 else unat sz)) s) (\<lambda>bs s.
                       let (n, fs) = file_write env f bs (files (mem s)) in Ret n (set_files fs s))))"
    if t: "sys_grows env D s t" for t
    by (rule checked_bind(2) [OF sys_growsD [OF t] r]) (use p w sys_grows_trans [OF t] in \<open>simp only: if_split\<close>, blast)
  from checked_bind(1) [OF inv r this] show ?thesis unfolding sys_write_def by (simp add: sys_exit_def)
qed

lemma simple_calls_sound:
  assumes inv: "vm_inv (vmo env) D (mem s)"
  shows "sound (\<lambda>_ s'. sys_grows env D s s') (sys_filesize env fd s)" "sound (\<lambda>_ s'. sys_grows env D s s') (sys_seek env fd n s)"
    "sound (\<lambda>_ s'. sys_grows env D s s') (sys_tell env fd s)" "sound (\<lambda>_ s'. sys_grows env D s s') (sys_close fd s)"
    "sound (\<lambda>_ _. True) (sys_wait env pid s)" "sound (\<lambda>_ _. True) (sys_mmap env fd addr s)" "sound (\<lambda>_ _. True) (sys_munmap env fd s)"
proof -
  note g = sys_grows_refl [OF inv]
  show "sound (\<lambda>_ s'. sys_grows env D s s') (sys_filesize env fd s)" "sound (\<lambda>_ s'. sys_grows env D s s') (sys_seek env fd n s)"
    "sound (\<lambda>_ s'. sys_grows env D s s') (sys_tell env fd s)" "sound (\<lambda>_ s'. sys_grows env D s s') (sys_close fd s)"
    using g sys_grows_files [OF g]
    by (auto simp: sys_filesize_def sys_seek_def sys_tell_def sys_close_def sys_exit_def remove_fd_def Let_def split: option.splits)
  show "sound (\<lambda>_ _. True) (sys_wait env pid s)"
    by (cases "process_wait env pid (mem s)") (auto simp: sys_wait_def on_mem_def)
  show "sound (\<lambda>_ _. True) (sys_mmap env fd addr s)"
    unfolding sys_mmap_def Let_def by (auto simp: sound_run_of sys_exit_def split: option.splits prod.splits)
  show "sound (\<lambda>_ _. True) (sys_munmap env fd s)"
    unfolding sys_munmap_def Let_def by (auto split: option.splits prod.splits)
qed

text \<open>
  C34 (safety): in the virtual memory kernel, whatever stack pointer and arguments a system call other than \<open>create\<close>, \<open>remove\<close> and
  \<open>open\<close> gets, the page fault handler never kills the kernel for an access to user memory: every byte that is read or written has been
  checked and stays mapped. This is about rejected accesses (\<open>Panic\<close>) only; that the kernel stops in an assertion, as \<open>munmap\<close> does for a
  file mapped at kernel addresses, or because a page cannot be brought back after an eviction (\<open>Stop\<close>), is not excluded. The calls other than
  \<open>exec\<close>, \<open>wait\<close>, \<open>mmap\<close> and \<open>munmap\<close> that return leave everything mapped that was mapped, with its rights.
\<close>

theorem vm_syscall_pointers_checked:
  assumes inv: "vm_inv (vmo env) D (mem s)" and r: "round_ok (vmo env)"
    and rd: "\<And>f n fs. int (length (fst (file_read env f n fs))) \<le> max 0 n"
    and names: "\<And>n esp s1. grab_arg env (fr_esp f) s = Ret (n, esp) s1 \<Longrightarrow>
      sysno env n \<noteq> Some SYS_CREATE \<and> sysno env n \<noteq> Some SYS_REMOVE \<and> sysno env n \<noteq> Some SYS_OPEN"
  shows "syscall_handler env f s \<noteq> Panic \<and>
    (\<forall>n esp s1 f' s'. grab_arg env (fr_esp f) s = Ret (n, esp) s1 \<longrightarrow>
       sysno env n \<notin> Some ` {SYS_EXEC, SYS_WAIT, SYS_MMAP, SYS_MUNMAP} \<longrightarrow> syscall_handler env f s = Ret f' s' \<longrightarrow>
       pd_map (hw (vmo env)) D (mem s) \<subseteq>\<^sub>m pd_map (hw (vmo env)) D (mem s'))"
proof (cases "fr_esp f \<noteq> 0 \<and> (\<exists>n esp s1. grab_arg env (fr_esp f) s = Ret (n, esp) s1)")
  case False
  have "sound (\<lambda>_ s'. sys_grows env D s s') (grab_arg env (fr_esp f) s)" by (rule grab_arg_sound [OF inv r])
  then show ?thesis using False by (cases "grab_arg env (fr_esp f) s") (auto simp: syscall_handler_def sys_exit_def)
next
  case True
  then obtain n esp s1 where g: "grab_arg env (fr_esp f) s = Ret (n, esp) s1" "fr_esp f \<noteq> 0" by blast
  have s1: "sys_grows env D s s1" using grab_arg_sound [OF inv r, of "fr_esp f"] g(1) by simp
  note i1 = sys_growsD [OF s1]
  define Q where "Q = (\<lambda>s'. sysno env n \<notin> Some ` {SYS_EXEC, SYS_WAIT, SYS_MMAP, SYS_MUNMAP} \<longrightarrow> sys_grows env D s s')"
  have Q: "sound (\<lambda>_. Q) u" if "sys_grows env D s1 t" "sound (\<lambda>_. sys_grows env D t) u" for t and u :: "('c, _) run"
    by (rule sound_mono [OF that(2)]) (use sys_grows_trans [OF s1 sys_grows_trans [OF that(1)]] in \<open>simp add: Q_def\<close>)
  have Q': "sound (\<lambda>_. Q) u" if "sysno env n \<in> Some ` {SYS_EXEC, SYS_WAIT, SYS_MMAP, SYS_MUNMAP}" "sound (\<lambda>_ _. True) u" for u :: "('c, _) run"
    by (rule sound_mono [OF that(2)]) (use that(1) in \<open>simp add: Q_def\<close>)
  have "sound (\<lambda>_. Q) (syscall_handler env f s)"
  proof (cases "sysno env n")
    case (Some c)
    then show ?thesis using names [OF g(1)]
      by (cases c) (auto simp: syscall_handler_def g sys_halt_def sys_exit_def intro!: args_sound [OF i1 r] frame_sound
        intro: Q Q' sys_exec_sound [OF _ r] sys_read_sound [OF _ r rd] sys_write_sound [OF _ r] simple_calls_sound sys_growsD)
  qed (simp add: syscall_handler_def g Q_def)
  then show ?thesis by (cases "syscall_handler env f s") (auto simp: g Q_def sys_grows_def vm_grows_def)
qed

section \<open>Names\<close>

lemma kload_mapped:
  assumes inv: "vm_inv (vmo env) D m" and r: "round_ok (vmo env)" and u: "is_user_vaddr (hw (vmo env)) a"
    and k: "pd_map (hw (vmo env)) D m (cur_pagedir m, pg_round_down (vmo env) a) = Some (k, w)" "ram m k = Some pg"
      "uint (pg_ofs (hw (vmo env)) a) < int (length pg)"
  shows "\<exists>m'. kload env a m = Ret (pg ! nat (uint (pg_ofs (hw (vmo env)) a))) m' \<and> same_maps (vmo env) D m m' \<and> cur_pages m' = cur_pages m"
proof -
  let ?M = "hw (vmo env)" and ?pg = "pg_round_down (vmo env) a"
  have key: "pd_key_ok ?M D (cr3 m, ?pg)" using round_okD [OF r u] vm_invD(3,4) [OF inv] by (simp add: pd_key_ok_def)
  obtain m' where m': "pagedir_flag ?M (PTE_A ?M) (cr3 m) ?pg True m = Some m'" "vm_wf ?M D m'" "pd_map ?M D m' = pd_map ?M D m"
      "vm.more m' = vm.more m" "cr3 m' = cr3 m"
    using flag_keeps [OF vm_invD(1) [OF inv] _ vm_invD(2) [OF inv] key, of "PTE_A ?M" True] by blast
  have "accessible (vmo env) D a False m" using u k(1) by (simp add: accessible_def)
  note c = can_access_accessible [OF inv r this]
  have "pagedir_get_page ?M (cr3 m) ?pg m = Some (Some k)"
    using pagedir_get_page_spec [OF vm_invD(1-3) [OF inv] round_okD(2) [OF r u]] round_okD(3) [OF r u] k(1) vm_invD(3,4) [OF inv]
    by (auto simp: pd_map_def split: if_splits)
  then have "user_frame (vmo env) ?pg m = Some (k, pg)" using k(2) by (simp add: user_frame_def)
  then have "user_load (vmo env) a m = Some (pg ! nat (uint (pg_ofs ?M a)), m')"
    using m'(1) k(3) by (simp add: user_load_def pagedir_set_accessed_def)
  then show ?thesis
    using c u same_maps_more [OF m'(2-5)] cur_pages_more(1) [OF m'(4)] by (simp add: kload_def ensure_access_def)
qed

lemma bad_access_pages:
  "cur_pages m' = cur_pages m \<Longrightarrow> bad_access ops a esp write m' = bad_access ops a esp write m"
  by (simp add: bad_access_def page_in_table_def find_upage_def find_page_def page_is_writable_map)

lemma kload_rejected:
  assumes inv: "vm_inv (vmo env) D m" and r: "round_ok (vmo env)" and u: "is_user_vaddr (hw (vmo env)) a"
    and n: "pd_map (hw (vmo env)) D m (cur_pagedir m, pg_round_down (vmo env) a) = None" "bad_access (vmo env) a (kernel_esp env) False m"
  shows "kload env a m = Panic"
proof -
  have "can_access (vmo env) a False m = Some False"
    using get_page_map(2) [OF inv r u] n(1) vm_invD(4) [OF inv] by (auto simp: can_access_def)
  moreover have "page_fetch (vmo env) a (kernel_esp env) False m = Some (False, m)" using n(2) by (simp add: page_fetch_rejects)
  ultimately show ?thesis using u by (simp add: kload_def ensure_access_def kernel_fault_def)
qed

text \<open>
  C39 (error): only the first byte of a name is checked. If a name starts in a mapped page and, not ended yet, runs on into a page
  that the process does not have, then \<open>create\<close> reads it in the kernel, the page fault handler rejects the access, and the kernel
  panics: any user program can stop the machine with a pointer to the last byte of a page.
\<close>

theorem unchecked_name_panics:
  assumes inv: "vm_inv (vmo env) D (mem s)" and r: "round_ok (vmo env)"
    and first: "is_user_vaddr (hw (vmo env)) file" "pd_map (hw (vmo env)) D (mem s) (cur_pagedir (mem s), pg_round_down (vmo env) file) = Some (k, w)"
      "ram (mem s) k = Some pg" "uint (pg_ofs (hw (vmo env)) file) < int (length pg)" "pg ! nat (uint (pg_ofs (hw (vmo env)) file)) \<noteq> 0"
    and second: "is_user_vaddr (hw (vmo env)) (file + 1)"
      "pd_map (hw (vmo env)) D (mem s) (cur_pagedir (mem s), pg_round_down (vmo env) (file + 1)) = None"
      "bad_access (vmo env) (file + 1) (kernel_esp env) False (mem s)"
    and reads: "\<And>fs. \<exists>c. filesys_create env (sint n) fs = Next c \<and> (\<forall>b. b \<noteq> 0 \<longrightarrow> (\<exists>c'. c b = Next c'))"
  shows "sys_create env file n esp s = Panic"
proof -
  obtain x where "pagedir_get_page (hw (vmo env)) (cur_pagedir (mem s)) file (mem s) = Some (Some x)"
    using get_page_map(1) [OF inv r first(1)] first(2) by auto
  then have "is_valid_uaddr env file esp False (mem s) = Some (True, mem s)" using first(1) by (simp add: is_valid_uaddr_def)
  then have c: "check_uaddr env file esp False s = Ret () s" by (simp add: check_uaddr_def on_mem_def)
  obtain m where m: "kload env file (mem s) = Ret (pg ! nat (uint (pg_ofs (hw (vmo env)) file))) m" "same_maps (vmo env) D (mem s) m"
      "cur_pages m = cur_pages (mem s)"
    using kload_mapped [OF inv r first(1-4)] by blast
  have inv': "vm_inv (vmo env) D m" using same_maps_ext [OF inv m(2)] by (rule vm_growsD)
  have "kload env (file + 1) m = Panic"
    by (rule kload_rejected [OF inv' r second(1)]) (use second(2,3) m(2) bad_access_pages [OF m(3)] in \<open>simp_all add: same_maps_def\<close>)
  moreover obtain f where "filesys_create env (sint n) (files (mem s)) = Next f" "\<forall>b. b \<noteq> 0 \<longrightarrow> (\<exists>c'. f b = Next c')" using reads by blast
  moreover from this obtain c' where "f (pg ! nat (uint (pg_ofs (hw (vmo env)) file))) = Next c'" using first(5) by blast
  ultimately have "run_reader (filesys_create env (sint n) (files (mem s))) env file (mem s) = Panic" using m(1) by simp
  then show ?thesis using c by (simp add: sys_create_def with_name_def on_mem_def)
qed

section \<open>A process with one page\<close>

definition demo_sys :: "(sector \<Rightarrow> byte list, byte list) sys_ops" where
  "demo_sys = \<lparr>vmo = demo_ops, kernel_esp = 0xc000ef00, kernel_byte = (\<lambda>_. 0), sysno = (\<lambda>n. Some SYS_WRITE),
     fd_malloc = (\<lambda>_. True), process_execute = (\<lambda>_ m. Some (3, m)), process_wait = (\<lambda>_ m. Some (0, m)),
     filesys_create = (\<lambda>n fs. Next (\<lambda>b. if b = 0 then Finish (True, fs) else Next (\<lambda>_. Finish (False, fs)))),
     filesys_remove = (\<lambda>fs. Finish (False, fs)), filesys_open = (\<lambda>fs. Finish (8, fs)), file_read = (\<lambda>f n fs. (take (nat n) fs, fs)),
     file_write = (\<lambda>f bs fs. (0, fs)), file_seek = (\<lambda>f n fs. fs), file_tell = (\<lambda>f fs. 0), file_reopen = (\<lambda>f fs. (f + 1, fs)),
     file_close = (\<lambda>f fs. fs), input_getc = (\<lambda>fs. (0x61, fs))\<rparr>"

lemma demo_sys_vmo [simp]: "vmo demo_sys = demo_ops" "kernel_esp demo_sys = 0xc000ef00"
  by (simp_all add: demo_sys_def)

lemma demo_round: "round_ok demo_ops"
proof -
  have slot: "same_slot x86 a (a AND NOT 0xfff)" for a :: u32
  proof -
    have "drop_bit 22 (a AND NOT 0xfff) = drop_bit 22 a"
      unfolding mask12 by (rule bit_word_eqI) (auto simp: bit_simps dest: bit_imp_le_length)
    moreover have "drop_bit 12 (a AND NOT 0xfff) = drop_bit 12 a"
      unfolding mask12 by (rule bit_word_eqI) (auto simp: bit_simps dest: bit_imp_le_length)
    ultimately show ?thesis by (simp add: x86_def)
  qed
  have le: "a AND NOT 0xfff \<le> a" for a :: u32 by (rule word_and_le2)
  have zero: "(a AND NOT 0xfff) AND 0xfff = 0" for a :: u32 by (simp add: and.assoc)
  show ?thesis using slot le zero by (auto simp: round_ok_def demo_ops_def) (auto simp: x86_def intro: le_less_trans)
qed

definition demo_user :: "(sector \<Rightarrow> byte list, byte list) vmm \<Rightarrow> (sector \<Rightarrow> byte list, byte list) msys" where
  "demo_user m = \<lparr>mem = m, files_open = [\<lparr>fs_fd = 2, fs_file = 8, fs_mapped = False\<rparr>], self_status = 0, console = []\<rparr>"

theorem vm_syscall_pointers_checked_witness:
  "\<forall>f. syscall_handler demo_sys (f\<lparr>fr_esp := 0x08048000\<rparr>) (demo_user demo_full) \<noteq> Panic"
proof
  fix f
  have "int (length (fst (file_read demo_sys g n fs))) \<le> max 0 n" for g n fs by (simp add: demo_sys_def)
  moreover have "sysno demo_sys n = Some SYS_WRITE" for n by (simp add: demo_sys_def)
  ultimately show "syscall_handler demo_sys (f\<lparr>fr_esp := 0x08048000\<rparr>) (demo_user demo_full) \<noteq> Panic"
    using vm_syscall_pointers_checked [of demo_sys "{0xc0200000}" "demo_user demo_full" "f\<lparr>fr_esp := 0x08048000\<rparr>"]
      demo_full_inv demo_round by (simp add: demo_user_def)
qed

theorem unchecked_name_panics_witness:
  "sys_create demo_sys 0x08048fff 10 0x08048100 (demo_user demo_full) = Panic"
proof -
  have c: "cur_pagedir demo_full = 0xc0200000" "ram demo_full 0xc0300000 = Some (replicate 4096 3)" "cur_pages demo_full = [demo_page]"
    by (simp_all add: demo_full_def cur_pagedir_def cur_pages_def)
  have p: "pg_round_down demo_ops 0x08048fff = 0x08048000" "pg_round_down demo_ops 0x08049000 = 0x08049000"
    by (simp_all add: demo_ops_def)
  have u: "is_user_vaddr x86 0x08048fff" "is_user_vaddr x86 0x08049000" "pg_ofs x86 0x08048fff = 0xfff" by (simp_all add: x86_def)
  have bad: "bad_access demo_ops 0x08049000 0xc000ef00 False demo_full"
    by (simp add: bad_access_def p page_in_table_def find_upage_def find_page_def c(3) match_upage_def demo_page_def u)
  show ?thesis
    by (rule unchecked_name_panics [where D = "{0xc0200000}" and k = "0xc0300000" and w = True and pg = "replicate 4096 3"])
      (use demo_full_inv demo_round c p u bad demo_full_map demo_full_unmapped in \<open>simp_all add: demo_user_def demo_sys_def\<close>)
qed

end
