(* ===== verification/Mmap_Props.thy ===== *)
theory Mmap_Props
  imports Vm_Syscall_Props
begin

text \<open>
  Properties of memory-mapped files: mapping and unmapping restore the state, and a mapping over kernel addresses, which is
  accepted, stops the kernel when it is unmapped.
\<close>

section \<open>The pages of a mapping\<close>

definition map_page :: "u32 \<Rightarrow> u32 \<Rightarrow> nat \<Rightarrow> nat \<Rightarrow> page" where
  "map_page pd addr f i = \<lparr>p_pd = pd, p_frame = 0, p_upage = upage_at addr i, p_active = False, p_file = f, p_off = int (i * 4096),
     p_writable = True, p_ss = None\<rparr>"

lemma cur_pages_files: "cur_pages (s\<lparr>files := fs\<rparr>) = cur_pages s" "cur_pagedir (s\<lparr>files := fs\<rparr>) = cur_pagedir s"
  by (simp_all add: cur_pages_def cur_pagedir_def)

lemma page_in_table_iff: "page_in_table u s \<longleftrightarrow> u \<noteq> 0 \<and> u \<in> p_upage ` set (cur_pages s)"
  by (auto simp: page_in_table_def find_upage_def find_page_def match_upage_def first_index_None image_iff)

lemma in_table_loop_iff: "in_table_loop addr i n s \<longleftrightarrow> (\<exists>j\<in>{i..<i + n}. page_in_table (upage_at addr j) s)"
proof (induction n arbitrary: i)
  case (Suc n)
  have "{i..<i + Suc n} = insert i {Suc i..<Suc i + n}" by auto
  then show ?case using Suc.IH[of "Suc i"] by simp
qed simp

lemma unat_upage:
  assumes "unat addr + n * 4096 \<le> 2 ^ 32" "i < n"
  shows "unat (upage_at addr i) = unat addr + i * 4096"
proof -
  have lt: "unat addr + i * 4096 < 2 ^ 32" using assms by simp
  then have k: "unat (of_nat (i * 4096) :: u32) = i * 4096" by (simp add: unat_of_nat take_bit_eq_mod del: of_nat_mult)
  then have "unat addr + unat (of_nat (i * 4096) :: u32) < 2 ^ LENGTH(32)" using lt by simp
  then show ?thesis unfolding upage_at_def using unat_add_lem[of addr "of_nat (i * 4096)"] k by metis
qed

lemma upage_inj:
  assumes "unat addr + n * 4096 \<le> 2 ^ 32" "i < n" "j < n" "upage_at addr i = upage_at addr j"
  shows "i = j"
proof -
  have "unat addr + i * 4096 = unat addr + j * 4096"
    using unat_upage[OF assms(1,2)] unat_upage[OF assms(1,3)] assms(4) by metis
  then show ?thesis by simp
qed

lemma page_set_file_fresh:
  assumes "\<not> page_in_table u s" "page_malloc ops (cur_pages s)"
  shows "page_set_file ops u f off s = (True, set_cur_pages (cur_pages s @ [\<lparr>p_pd = cur_pagedir s, p_frame = 0, p_upage = u,
    p_active = False, p_file = f, p_off = off, p_writable = True, p_ss = None\<rparr>]) s)"
  using assms by (simp add: page_set_file_def page_alloc_def update_page_def)

lemma set_file_loop_fresh:
  assumes "\<And>ps. page_malloc ops ps" "unat addr + N * 4096 \<le> 2 ^ 32" "addr \<noteq> 0"
  shows "i + n = N \<Longrightarrow> \<forall>j\<in>{i..<N}. \<not> page_in_table (upage_at addr j) s \<Longrightarrow>
    set_file_loop ops addr f i n s = (True, set_cur_pages (cur_pages s @ map (map_page (cur_pagedir s) addr f) [i..<N]) s)"
proof (induction n arbitrary: i s)
  case (Suc n)
  have i: "i < N" using Suc.prems(1) by simp
  let ?s1 = "set_cur_pages (cur_pages s @ [map_page (cur_pagedir s) addr f i]) s"
  have first: "page_set_file ops (upage_at addr i) f (int (i * 4096)) s = (True, ?s1)"
    using page_set_file_fresh[of "upage_at addr i" s ops f "int (i * 4096)"] Suc.prems(2) i assms(1) by (simp add: map_page_def)
  have "\<not> page_in_table (upage_at addr j) ?s1" if "j \<in> {Suc i..<N}" for j
    using Suc.prems(2) that upage_inj[OF assms(2), of j i] i by (auto simp: page_in_table_iff map_page_def)
  then have "set_file_loop ops addr f (Suc i) n ?s1 =
      (True, set_cur_pages (cur_pages ?s1 @ map (map_page (cur_pagedir ?s1) addr f) [Suc i..<N]) ?s1)"
    using Suc.prems(1) by (intro Suc.IH) auto
  then show ?case using first i by (simp add: upt_rec[of i N])
qed simp

section \<open>Unmapping pages that were not used\<close>

lemma more_set_cur_pages:
  fixes a b :: "('d, 'f) vmm"
  assumes "vm.more a = vm.more b"
  shows "vm.more (set_cur_pages ps a) = vm.more (set_cur_pages ps b)"
  using assms by (cases a; cases b) (simp add: set_cur_pages_def)

lemma set_cur_pages_tables [simp]:
  fixes s :: "('d, 'f) vmm"
  shows "vm_wf M D (set_cur_pages ps s) = vm_wf M D s" "pte_at M (set_cur_pages ps s) pd va = pte_at M s pd va"
    "pte_val M (set_cur_pages ps s) pd va = pte_val M s pd va" "pd_map M D (set_cur_pages ps s) = pd_map M D s"
  by (simp_all add: set_cur_pages_def pte_val_def)

lemma remove_nth_append: "remove_nth (length xs) (xs @ y # ys) = xs @ ys"
  by (simp add: remove_nth_def)

lemma first_index_append: "\<forall>x\<in>set xs. \<not> P x \<Longrightarrow> P y \<Longrightarrow> first_index P (xs @ y # ys) = Some (length xs)"
  by (induction xs) auto

text \<open>\<open>clean\<close>: user pages that the page directory does not map.\<close>

definition clean :: "mmu \<Rightarrow> u32 set \<Rightarrow> u32 \<Rightarrow> u32 \<Rightarrow> ('d, 'f) vmm \<Rightarrow> bool" where
  "clean M D pd u s \<longleftrightarrow> is_user_vaddr M u \<and> pg_ofs M u = 0 \<and> \<not> is_set (pte_val M s pd u) (PTE_P M) \<and> \<not> is_set (pte_val M s pd u) (PTE_D M)"

lemma page_remove_clean:
  fixes s :: "('d, 'f) vmm"
  assumes M: "mmu_ok (hw ops)" and wf: "vm_wf (hw ops) D s" "pd \<in> D" and cl: "clean (hw ops) D pd u s"
    and pages: "cur_pages s = ps @ p # qs" "p_upage p = u" "p_pd p = pd" "\<forall>q\<in>set ps. p_upage q \<noteq> u"
  shows "\<exists>s'. page_remove ops u s = Some s' \<and> vm_wf (hw ops) D s' \<and> pd_map (hw ops) D s' = pd_map (hw ops) D s \<and>
    vm.more s' = vm.more (set_cur_pages (ps @ qs) s) \<and>
    (\<forall>v. is_user_vaddr (hw ops) v \<longrightarrow> pte_val (hw ops) s' pd v = pte_val (hw ops) s pd v)"
proof -
  let ?M = "hw ops" and ?s = "set_cur_pages (ps @ qs) s"
  have find: "find_upage u s = Some (length ps)"
    using pages by (simp add: find_upage_def find_page_def match_upage_def first_index_append)
  have u: "is_user_vaddr ?M u" "pg_ofs ?M u = 0" "\<not> is_set (pte_val ?M ?s pd u) (PTE_P ?M)" using cl by (simp_all add: clean_def)
  obtain s' where s': "pagedir_clear_page ?M pd u ?s = Some s'" "vm_upd ?M D ?s pd u (pte_val ?M ?s pd u) s'"
    using pagedir_clear_page_spec[OF M _ wf(2) u(1,2), of ?s] wf(1) u(3) by auto
  have pv: "pte_val ?M s' pd v = pte_val ?M s pd v" if "is_user_vaddr ?M v" for v
    using vm_updD(5)[OF s'(2) wf(2) that] pte_val_slot[of ?M u v s pd] by simp
  obtain s'' where s'': "pd_clear ?M (pd, u) ?s = Some s''" "pd_map ?M D s'' = (pd_map ?M D ?s)((pd, u) := None)"
    using pd_clear_law[OF M, of D ?s "(pd, u)"] wf u by (auto simp: pd_key_ok_def)
  have "s'' = s'" using s''(1) s'(1) by (simp add: pd_clear_def)
  moreover have "pd_map ?M D s (pd, u) = None" using cl by (simp add: clean_def pd_map_def)
  then have "(pd_map ?M D s)((pd, u) := None) = pd_map ?M D s" by (simp add: fun_upd_idem)
  ultimately have "pd_map ?M D s' = pd_map ?M D s" using s''(2) by simp
  moreover have "page_remove ops u s = Some s'"
    using find s'(1) pages(1,3) by (simp add: page_remove_def remove_nth_append)
  ultimately show ?thesis using vm_updD(1,4)[OF s'(2)] pv by blast
qed

lemma unmap_clean:
  fixes s :: "('d, 'f) vmm"
  assumes M: "mmu_ok (hw ops)" and pd: "pd \<in> D" and bound: "unat addr + N * 4096 \<le> 2 ^ 32"
    and ps: "\<And>p. p \<in> set ps \<Longrightarrow> p_file p \<noteq> f \<and> (\<forall>j<N. p_upage p \<noteq> upage_at addr j)"
  shows "i + n = N \<Longrightarrow> n \<le> m \<Longrightarrow> vm_wf (hw ops) D s \<Longrightarrow> cur_pages s = ps @ map (map_page pd addr f) [i..<N] \<Longrightarrow>
    \<forall>j\<in>{i..<N}. clean (hw ops) D pd (upage_at addr j) s \<Longrightarrow>
    \<exists>s'. unmap_loop ops f m s = Some s' \<and> vm_wf (hw ops) D s' \<and> pd_map (hw ops) D s' = pd_map (hw ops) D s \<and>
      vm.more s' = vm.more (set_cur_pages ps s)"
proof (induction n arbitrary: i m s)
  case 0
  have none: "find_file f s = None"
    using 0 ps by (auto simp: find_file_def find_page_def match_file_def first_index_None)
  then have "unmap_loop ops f m s = Some s" by (cases m) simp_all
  moreover have "set_cur_pages ps s = s" using 0(1,4) by (metis set_cur_pages_simps(7) add_0_right append_Nil2 list.simps(8) upt_rec less_irrefl)
  ultimately show ?case using 0 by simp
next
  case (Suc n)
  let ?M = "hw ops" and ?u = "upage_at addr i" and ?p = "map_page pd addr f i"
  have i: "i < N" using Suc.prems(1) by simp
  obtain m' where m: "m = Suc m'" using Suc.prems(2) by (cases m) auto
  have pages: "cur_pages s = ps @ ?p # map (map_page pd addr f) [Suc i..<N]" using Suc.prems(4) i by (simp add: upt_rec[of i N])
  have find: "find_file f s = Some (length ps)" unfolding find_file_def find_page_def pages
    by (rule first_index_append) (use ps in \<open>auto simp: match_file_def map_page_def\<close>)
  have cl: "clean ?M D pd ?u s" using Suc.prems(5) i by simp
  have dirty: "pagedir_is_dirty ?M pd ?u s = Some False"
    using pagedir_test_spec[OF M Suc.prems(3) pd, of ?u "PTE_D ?M"] cl by (simp add: pagedir_is_dirty_def clean_def)
  obtain s2 where s2: "page_remove ops ?u s = Some s2" "vm_wf ?M D s2" "pd_map ?M D s2 = pd_map ?M D s"
      "vm.more s2 = vm.more (set_cur_pages (ps @ map (map_page pd addr f) [Suc i..<N]) s)"
      "\<forall>v. is_user_vaddr ?M v \<longrightarrow> pte_val ?M s2 pd v = pte_val ?M s pd v"
    using page_remove_clean[OF M Suc.prems(3) pd cl pages] ps i by (auto simp: map_page_def)
  have loop: "unmap_loop ops f m s = unmap_loop ops f m' s2"
    using find dirty s2(1) pages by (simp add: m map_page_def)
  have "\<exists>s'. unmap_loop ops f m' s2 = Some s' \<and> vm_wf ?M D s' \<and> pd_map ?M D s' = pd_map ?M D s2 \<and> vm.more s' = vm.more (set_cur_pages ps s2)"
  proof (rule Suc.IH[of "Suc i"])
    show "Suc i + n = N" "n \<le> m'" using Suc.prems(1,2) m by simp_all
    show "vm_wf ?M D s2" by (rule s2(2))
    show "cur_pages s2 = ps @ map (map_page pd addr f) [Suc i..<N]" using cur_pages_more(1)[OF s2(4)] by simp
    show "\<forall>j\<in>{Suc i..<N}. clean ?M D pd (upage_at addr j) s2" using Suc.prems(5) s2(5) by (simp add: clean_def)
  qed
  moreover have "vm.more (set_cur_pages ps s2) = vm.more (set_cur_pages ps s)"
    using more_set_cur_pages[OF s2(4), of ps] by simp
  ultimately show ?case using loop s2(3) by metis
qed

section \<open>Mapping\<close>

text \<open>
  What mapping a file at \<open>addr\<close> needs to succeed: the file is open as \<open>fd\<close> and not empty, its \<open>n\<close> pages are
  free in the supplemental page table and do not wrap around, there is memory, and reopening it
  gives a file structure \<open>f'\<close> that no page has yet.
\<close>

definition mappable :: "('d, 'f) sys_ops \<Rightarrow> int \<Rightarrow> u32 \<Rightarrow> nat \<Rightarrow> nat \<Rightarrow> 'f \<Rightarrow> ('d, 'f) msys \<Rightarrow> bool" where
  "mappable mo fd addr n f' fs' s \<longleftrightarrow>
     fd \<noteq> 0 \<and> fd \<noteq> 1 \<and> addr \<noteq> 0 \<and> pg_ofs (hw (vmo mo)) addr = 0 \<and> fd_to_file fd s \<noteq> 0 \<and>
     file_length (vmo mo) (fd_to_file fd s) (files (mem s)) \<noteq> 0 \<and>
     num_pages (file_length (vmo mo) (fd_to_file fd s) (files (mem s))) = Some n \<and>
     unat addr + n * 4096 \<le> 2 ^ 32 \<and> (\<forall>j<n. upage_at addr j \<notin> p_upage ` set (cur_pages (mem s))) \<and>
     file_reopen mo (fd_to_file fd s) (files (mem s)) = (f', fs') \<and> f' \<noteq> 0 \<and> (\<forall>p\<in>set (cur_pages (mem s)). p_file p \<noteq> f') \<and>
     (\<forall>ps. page_malloc (vmo mo) ps) \<and> (\<forall>es. fd_malloc mo es) \<and>
     (files_open s = [] \<or> MIN_USER_FD \<le> fs_fd (hd (files_open s)) \<and> fs_fd (hd (files_open s)) + 1 < 2 ^ 31)"

lemma mmap_spec:
  assumes "mappable mo fd addr n f' fs' s"
  shows "\<exists>mapid. sys_mmap mo fd addr s = Ret mapid (s\<lparr>
      mem := set_cur_pages (cur_pages (mem s) @ map (map_page (cur_pagedir (mem s)) addr f') [0..<n]) ((mem s)\<lparr>files := fs'\<rparr>),
      files_open := \<lparr>fs_fd = mapid, fs_file = f', fs_mapped = True\<rparr> # files_open s\<rparr>) \<and> MIN_USER_FD \<le> mapid"
proof -
  let ?m = "(mem s)\<lparr>files := fs'\<rparr>"
  have same: "cur_pages ?m = cur_pages (mem s)" "cur_pagedir ?m = cur_pagedir (mem s)" by (simp_all add: cur_pages_def cur_pagedir_def)
  have free: "\<not> in_table_loop addr 0 n (mem s)" using assms by (auto simp: in_table_loop_iff page_in_table_iff mappable_def)
  have "\<forall>j\<in>{0..<n}. \<not> page_in_table (upage_at addr j) ?m" using assms by (auto simp: page_in_table_iff mappable_def same)
  then have set: "set_file_loop (vmo mo) addr f' 0 n ?m =
      (True, set_cur_pages (cur_pages (mem s) @ map (map_page (cur_pagedir (mem s)) addr f') [0..<n]) ?m)"
    using set_file_loop_fresh[of "vmo mo" addr n 0 n ?m f'] assms by (simp add: mappable_def same)
  define mapid where "mapid = (if files_open s = [] then MIN_USER_FD else fs_fd (hd (files_open s)) + 1)"
  have "c_int mapid = Some mapid" "MIN_USER_FD \<le> mapid" using assms by (auto simp: mapid_def mappable_def c_int_def)
  moreover have "create_fd mo f' True t = Some (mapid, t\<lparr>files_open := \<lparr>fs_fd = mapid, fs_file = f', fs_mapped = True\<rparr> # files_open t\<rparr>)"
    if "files_open t = files_open s" for t
    using assms calculation(1) unfolding create_fd_def that mapid_def[symmetric] by (simp add: mappable_def)
  ultimately show ?thesis
    using assms free set by (intro exI[of _ mapid]) (simp add: sys_mmap_def mappable_def Let_def set_files_def)
qed

lemma new_fd_found:
  assumes "files_open s = \<lparr>fs_fd = d, fs_file = f, fs_mapped = b\<rparr> # es" "MIN_USER_FD \<le> d"
  shows "fd_to_file_store d s = Some 0" "fd_to_file d s = f" "remove_fd d s = (f, s\<lparr>files_open := es\<rparr>)"
  using assms by (simp_all add: fd_to_file_store_def fd_to_file_def remove_fd_def remove_nth_def)

lemma mmap_munmap_spec:
  assumes M: "mmu_ok (hw (vmo mo))" and wf: "vm_wf (hw (vmo mo)) D (mem s)" "cur_pagedir (mem s) \<in> D" and mp: "mappable mo fd addr n f' fs' s"
    and cl: "\<And>j. j < n \<Longrightarrow> clean (hw (vmo mo)) D (cur_pagedir (mem s)) (upage_at addr j) (mem s)"
  shows "\<exists>mapid s1 s2. sys_mmap mo fd addr s = Ret mapid s1 \<and>
    cur_pages (mem s1) = cur_pages (mem s) @ map (map_page (cur_pagedir (mem s)) addr f') [0..<n] \<and> fd_to_file mapid s1 = f' \<and>
    pd_map (hw (vmo mo)) D (mem s1) = pd_map (hw (vmo mo)) D (mem s) \<and>
    sys_munmap mo mapid s1 = Ret () s2 \<and> cur_pages (mem s2) = cur_pages (mem s) \<and> files_open s2 = files_open s \<and>
    pd_map (hw (vmo mo)) D (mem s2) = pd_map (hw (vmo mo)) D (mem s) \<and> files (mem s2) = file_close mo f' fs'"
proof -
  let ?M = "hw (vmo mo)" and ?ps = "cur_pages (mem s)" and ?pd = "cur_pagedir (mem s)"
  let ?m0 = "(mem s)\<lparr>files := fs'\<rparr>"
  let ?m = "set_cur_pages (?ps @ map (map_page ?pd addr f') [0..<n]) ?m0"
  obtain mapid where map: "sys_mmap mo fd addr s = Ret mapid (s\<lparr>mem := ?m,
      files_open := \<lparr>fs_fd = mapid, fs_file = f', fs_mapped = True\<rparr> # files_open s\<rparr>)" "MIN_USER_FD \<le> mapid"
    using mmap_spec[OF mp] by blast
  define s1 where "s1 = s\<lparr>mem := ?m, files_open := \<lparr>fs_fd = mapid, fs_file = f', fs_mapped = True\<rparr> # files_open s\<rparr>"
  have fo: "files_open s1 = \<lparr>fs_fd = mapid, fs_file = f', fs_mapped = True\<rparr> # files_open s" "mem s1 = ?m" by (simp_all add: s1_def)
  have cl': "\<forall>j\<in>{0..<n}. clean ?M D ?pd (upage_at addr j) ?m" using cl by (simp add: clean_def pte_val_def)
  have "\<exists>m'. unmap_loop (vmo mo) f' (length (cur_pages ?m)) ?m = Some m' \<and> vm_wf ?M D m' \<and> pd_map ?M D m' = pd_map ?M D ?m \<and>
      vm.more m' = vm.more (set_cur_pages ?ps ?m)"
  proof (rule unmap_clean[OF M wf(2), where addr = addr and N = n and i = 0 and n = n])
    show "unat addr + n * 4096 \<le> 2 ^ 32" using mp by (simp add: mappable_def)
    show "p_file p \<noteq> f' \<and> (\<forall>j<n. p_upage p \<noteq> upage_at addr j)" if "p \<in> set ?ps" for p
      using mp that unfolding mappable_def by (metis imageI)
    show "0 + n = n" "n \<le> length (cur_pages ?m)" by simp_all
    show "vm_wf ?M D ?m" using wf(1) by simp
    show "cur_pages ?m = ?ps @ map (map_page ?pd addr f') [0..<n]" by simp
    show "\<forall>j\<in>{0..<n}. clean ?M D ?pd (upage_at addr j) ?m" by (rule cl')
  qed
  then obtain m' where m': "page_unmap (vmo mo) f' ?m = Some m'" "pd_map ?M D m' = pd_map ?M D ?m"
      "vm.more m' = vm.more (set_cur_pages ?ps ?m0)"
    by (auto simp: page_unmap_def)
  have rest: "cur_pages m' = ?ps" "files m' = fs'" using cur_pages_more(1)[OF m'(3)] vmm_more(9)[OF m'(3)] by simp_all
  have "f' \<noteq> 0" using mp by (simp add: mappable_def)
  have rem: "remove_fd mapid (s1\<lparr>mem := m'\<rparr>) = (f', s1\<lparr>mem := m', files_open := files_open s\<rparr>)"
    by (rule new_fd_found(3)[OF _ map(2)]) (simp add: fo)
  then have un: "sys_munmap mo mapid s1 = Ret () (s1\<lparr>mem := m'\<lparr>files := file_close mo f' (files m')\<rparr>, files_open := files_open s\<rparr>)"
    using new_fd_found(2)[OF fo(1) map(2)] m'(1) \<open>f' \<noteq> 0\<close> fo(2) by (simp add: sys_munmap_def set_files_def)
  show ?thesis
    by (intro exI[of _ mapid] exI[of _ s1] exI[of _ "s1\<lparr>mem := m'\<lparr>files := file_close mo f' (files m')\<rparr>, files_open := files_open s\<rparr>"])
      (use map(1) un fo rest m'(2) new_fd_found(2)[OF fo(1) map(2)] in \<open>simp add: s1_def cur_pages_files\<close>)
qed

text \<open>
  C38 (roundtrip): \<open>munmap\<close> undoes \<open>mmap\<close>, when no page is used in between. Mapping an open, non-empty file at free pages below the
  kernel, with memory for the entries and the descriptor, returns a new descriptor and
  enters one page for each page of the file, with its offset, in the supplemental page table; no page is loaded yet. As
  the pages stay clean, unmapping writes nothing and gives back the page table, the descriptors and the mappings as they were, and
  closes the file that mapping has opened.
\<close>

theorem mmap_munmap_roundtrip:
  assumes "mmu_ok (hw (vmo mo))" "vm_wf (hw (vmo mo)) D (mem s)" "cur_pagedir (mem s) \<in> D" "mappable mo fd addr n f' fs' s"
    and "\<And>j. j < n \<Longrightarrow> clean (hw (vmo mo)) D (cur_pagedir (mem s)) (upage_at addr j) (mem s)"
  shows "\<exists>mapid s1 s2. sys_mmap mo fd addr s = Ret mapid s1 \<and>
    cur_pages (mem s1) = cur_pages (mem s) @ map (map_page (cur_pagedir (mem s)) addr f') [0..<n] \<and> fd_to_file mapid s1 = f' \<and>
    pd_map (hw (vmo mo)) D (mem s1) = pd_map (hw (vmo mo)) D (mem s) \<and>
    sys_munmap mo mapid s1 = Ret () s2 \<and> cur_pages (mem s2) = cur_pages (mem s) \<and> files_open s2 = files_open s \<and>
    pd_map (hw (vmo mo)) D (mem s2) = pd_map (hw (vmo mo)) D (mem s) \<and> files (mem s2) = file_close mo f' fs'"
  by (rule mmap_munmap_spec[OF assms])

lemma clear_kernel_page: "\<not> is_user_vaddr M u \<Longrightarrow> pagedir_clear_page M pd u vm = None"
  by (simp add: pagedir_clear_page_def kassert_def)

lemma unmap_kernel:
  assumes "\<not> is_user_vaddr (hw ops) (p_upage (cur_pages s ! i))" "find_file f s = Some i"
  shows "unmap_loop ops f (Suc m) s = None"
proof -
  have "page_remove ops (p_upage (cur_pages s ! i)) t = None" for t :: "('a, 'b) vmm"
    using assms(1) by (auto simp: page_remove_def clear_kernel_page)
  then show ?thesis using assms(2) by (auto simp: Let_def split: prod.splits)
qed

lemma mmap_kernel_spec:
  assumes mp: "mappable mo fd addr n f' fs' s" and n: "0 < n" and kernel: "\<not> is_user_vaddr (hw (vmo mo)) addr"
  shows "\<exists>mapid s1. sys_mmap mo fd addr s = Ret mapid s1 \<and> sys_munmap mo mapid s1 = Stop"
proof -
  let ?ps = "cur_pages (mem s)" and ?pd = "cur_pagedir (mem s)"
  let ?m = "set_cur_pages (?ps @ map (map_page ?pd addr f') [0..<n]) ((mem s)\<lparr>files := fs'\<rparr>)"
  obtain mapid where map: "sys_mmap mo fd addr s = Ret mapid (s\<lparr>mem := ?m,
      files_open := \<lparr>fs_fd = mapid, fs_file = f', fs_mapped = True\<rparr> # files_open s\<rparr>)" "MIN_USER_FD \<le> mapid"
    using mmap_spec[OF mp] by blast
  define s1 where "s1 = s\<lparr>mem := ?m, files_open := \<lparr>fs_fd = mapid, fs_file = f', fs_mapped = True\<rparr> # files_open s\<rparr>"
  have pages: "cur_pages ?m = ?ps @ map_page ?pd addr f' 0 # map (map_page ?pd addr f') [1..<n]"
    using n by (simp add: upt_rec[of 0 n])
  have find: "find_file f' ?m = Some (length ?ps)" unfolding find_file_def find_page_def pages
    by (rule first_index_append) (use mp in \<open>auto simp: match_file_def map_page_def mappable_def\<close>)
  have "p_upage (cur_pages ?m ! length ?ps) = addr" unfolding pages by (simp add: map_page_def upage_at_def)
  then have "unmap_loop (vmo mo) f' (Suc k) ?m = None" for k using unmap_kernel[OF _ find] kernel by simp
  moreover have "length (cur_pages ?m) = Suc (length ?ps + length [1..<n])" unfolding pages by simp
  ultimately have "page_unmap (vmo mo) f' ?m = None" unfolding page_unmap_def by metis
  moreover have "fd_to_file mapid s1 = f'" by (rule new_fd_found(2)[OF _ map(2)]) (simp add: s1_def)
  moreover have "f' \<noteq> 0" "mem s1 = ?m" using mp by (simp_all add: mappable_def s1_def)
  ultimately have "sys_munmap mo mapid s1 = Stop" by (simp add: sys_munmap_def set_files_def)
  then show ?thesis using map(1) s1_def by blast
qed

text \<open>
  \<open>mmap\<close> does not check that the address belongs to the user. A file can be mapped over kernel
  addresses, and unmapping it fails an assertion of \<open>pagedir_clear_page\<close>: any user program can stop the kernel.
\<close>

theorem mmap_kernel_address:
  assumes "mappable mo fd addr n f' fs' s" "0 < n" "\<not> is_user_vaddr (hw (vmo mo)) addr"
  shows "\<exists>mapid s1. sys_mmap mo fd addr s = Ret mapid s1 \<and> sys_munmap mo mapid s1 = Stop"
  by (rule mmap_kernel_spec[OF assms])

section \<open>A process with one open file\<close>

lemma demo_mappable:
  assumes "addr \<in> {0x10000000, 0xc0000000}"
  shows "mappable demo_sys 2 addr 1 9 (files demo_fresh) (demo_user demo_fresh)"
proof -
  have f: "fd_to_file 2 (demo_user demo_fresh) = 8" by (simp add: fd_to_file_def fd_to_file_store_def demo_user_def)
  have len: "file_length demo_ops 8 (files demo_fresh) = 100" by (simp add: demo_ops_def demo_fresh_def demo_full_def)
  have "num_pages 100 = Some 1" by (simp add: num_pages_def c_int_def)
  moreover have "cur_pages demo_fresh = [demo_page]" by (simp add: demo_fresh_def demo_full_def cur_pages_def)
  moreover have "pg_ofs x86 addr = 0" using assms by (auto simp: x86_def)
  ultimately show ?thesis using assms f len
    by (auto simp: mappable_def demo_sys_def demo_user_def upage_at_def demo_page_def)
qed

theorem mmap_munmap_roundtrip_witness:
  "\<exists>mapid s1 s2. sys_mmap demo_sys 2 0x10000000 (demo_user demo_fresh) = Ret mapid s1 \<and> length (cur_pages (mem s1)) = 2 \<and>
     sys_munmap demo_sys mapid s1 = Ret () s2 \<and> cur_pages (mem s2) = cur_pages demo_fresh"
proof -
  have pd: "cur_pagedir demo_fresh = 0xc0200000" "length (cur_pages demo_fresh) = 1"
    by (simp_all add: demo_fresh_def demo_full_def cur_pagedir_def cur_pages_def)
  have cl: "clean x86 {0xc0200000} 0xc0200000 (upage_at 0x10000000 j) demo_fresh" if "j < 1" for j
    using that by (simp add: clean_def pte_val_def demo_fresh_pte upage_at_def) (simp add: x86_def)
  have m: "mem (demo_user demo_fresh) = demo_fresh" "hw (vmo demo_sys) = x86" by (simp_all add: demo_user_def)
  show ?thesis
    using mmap_munmap_roundtrip[of demo_sys "{0xc0200000}" "demo_user demo_fresh" 2 "0x10000000" 1 9 "files demo_fresh", unfolded m pd(1)]
      x86_ok demo_fresh_wf demo_mappable[of "0x10000000"] cl pd(2) by fastforce
qed

theorem mmap_kernel_address_witness:
  "\<exists>mapid s1. sys_mmap demo_sys 2 0xc0000000 (demo_user demo_fresh) = Ret mapid s1 \<and> sys_munmap demo_sys mapid s1 = Stop"
  by (rule mmap_kernel_address[OF demo_mappable]) (simp_all add: x86_def)

end
