(* ===== verification/Vm_Process.thy ===== *)
theory Vm_Process
  imports Vm_Syscall Loader
begin

text \<open>
  Loading and exit with virtual memory, the parts of \<open>virtual-memory/userprog/process.c\<close> that differ from \<open>user-programs\<close>: segments
  are loaded into frames of the frame table and entered in the supplemental page table, the arguments are stored
  through user addresses, an exit unmaps files and gives up frames. The checks of headers are those of \<open>Loader\<close>.

  Files of executables and their position are as in \<open>Loader\<close> (\<open>load_env\<close>); user memory and page faults as in \<open>User_Access\<close>.
\<close>

section \<open>Segments\<close>

text \<open>
  A page that \<open>palloc_free_page\<close> gives back has no contents any more. The frame table still has it, as in
  the code.
\<close>

function vm_segment_loop :: "'x load_env \<Rightarrow> ('d, 'f) vm_ops \<Rightarrow> u32 \<Rightarrow> nat \<Rightarrow> nat \<Rightarrow> bool \<Rightarrow> 'x \<Rightarrow> ('d, 'f) vmm \<Rightarrow>
    (bool \<times> 'x \<times> ('d, 'f) vmm) option" where
  "vm_segment_loop env ops upage read_bytes zero_bytes writable file m =
     (if 0 < read_bytes \<or> 0 < zero_bytes then
        let page_read_bytes = (if read_bytes < PGSIZE then read_bytes else PGSIZE);
            page_zero_bytes = PGSIZE - page_read_bytes
        in (case frame_alloc ops upage writable m of
            None \<Rightarrow> None
          | Some (kpage, m1) \<Rightarrow> (case page_set_frame ops upage kpage writable m1 of
                None \<Rightarrow> None
              | Some m2 \<Rightarrow>
                  if kpage = 0 then Some (False, file, m2)
                  else (case ram m2 kpage of
                      None \<Rightarrow> None
                    | Some pg \<Rightarrow>
                        let (bs, file1) = f_read env page_read_bytes file
                        in if length bs \<noteq> page_read_bytes then Some (False, file1, m2\<lparr>ram := (ram m2)(kpage := None)\<rparr>)
                           else vm_segment_loop env ops (upage + of_nat PGSIZE) (read_bytes - page_read_bytes)
                                  (zero_bytes - page_zero_bytes) writable file1
                                  (m2\<lparr>ram := (ram m2)(kpage \<mapsto> memcpy_at 0 (bs @ replicate page_zero_bytes 0) pg)\<rparr>))))
      else Some (True, file, m))"
  by pat_completeness auto
termination
  by (relation "measure (\<lambda>(env, ops, upage, r, z, w, f, m). r + z)") (auto split: if_splits simp flip: length_greater_0_conv)

declare vm_segment_loop.simps [simp del]

definition vm_load_segment :: "'x load_env \<Rightarrow> ('d, 'f) vm_ops \<Rightarrow> int \<Rightarrow> u32 \<Rightarrow> u32 \<Rightarrow> u32 \<Rightarrow> bool \<Rightarrow> 'x \<Rightarrow> ('d, 'f) vmm \<Rightarrow>
    (bool \<times> 'x \<times> ('d, 'f) vmm) option" where
  "vm_load_segment env ops ofs upage read_bytes zero_bytes writable file m = do {
     kassert ((read_bytes + zero_bytes) mod of_nat PGSIZE = 0);
     kassert (pg_ofs (hw ops) upage = 0);
     kassert (ofs mod int PGSIZE = 0);
     vm_segment_loop env ops upage (unat read_bytes) (unat zero_bytes) writable (f_seek env ofs file) m
   }"

section \<open>The initial stack\<close>

text \<open>The stores go to user addresses: beyond the page of the stack they fault.\<close>

fun vm_push_strings :: "('d, 'f, 'y) access_ops_scheme \<Rightarrow> byte list list \<Rightarrow> u32 \<Rightarrow> ('d, 'f) vmm \<Rightarrow> (u32 list \<times> u32, ('d, 'f) vmm) run" where
  "vm_push_strings acc [] esp m = Ret ([], esp) m"
| "vm_push_strings acc (t # ts) esp m =
     rbind (vm_push_strings acc ts esp m) (\<lambda>(ps, esp1) m.
       let esp2 = esp1 - of_nat (length t + 1)
       in rbind (kstore_bytes acc esp2 (t @ [0]) m) (\<lambda>_ m. Ret (esp2 # ps, esp2) m))"

fun vm_push_words :: "('d, 'f, 'y) access_ops_scheme \<Rightarrow> u32 list \<Rightarrow> u32 \<Rightarrow> ('d, 'f) vmm \<Rightarrow> (u32, ('d, 'f) vmm) run" where
  "vm_push_words acc [] esp m = Ret esp m"
| "vm_push_words acc (w # ws) esp m =
     rbind (vm_push_words acc ws esp m) (\<lambda>esp1 m.
       let esp2 = esp1 - 4
       in rbind (kstore_bytes acc esp2 (le32 w) m) (\<lambda>_ m. Ret esp2 m))"

definition vm_build_stack :: "('d, 'f, 'y) access_ops_scheme \<Rightarrow> byte list list \<Rightarrow> ('d, 'f) vmm \<Rightarrow> (u32, ('d, 'f) vmm) run" where
  "vm_build_stack acc tokens m =
     rbind (vm_push_strings acc tokens (PHYS_BASE (hw (vmo acc))) m) (\<lambda>(ps, esp) m.
       let bytes_align = (esp - 4) mod 4; esp = esp - bytes_align in
       rbind (kstore_bytes acc esp (replicate (unat bytes_align) 0) m) (\<lambda>_ m.
       let esp = esp - 4 in
       rbind (kstore_bytes acc esp (replicate 4 0) m) (\<lambda>_ m.
       rbind (vm_push_words acc ps esp m) (\<lambda>esp m.
       let esp_cpy = esp; esp = esp - 4 in
       rbind (kstore_bytes acc esp (le32 esp_cpy) m) (\<lambda>_ m.
       let esp = esp - 4 in
       rbind (kstore_bytes acc esp (le32 (of_nat (length tokens))) m) (\<lambda>_ m.
       let esp = esp - 4 in
       rbind (kstore_bytes acc esp (replicate 4 0) m) (\<lambda>_ m. Ret esp m)))))))"

definition vm_setup_stack :: "('d, 'f, 'y) access_ops_scheme \<Rightarrow> byte list list \<Rightarrow> ('d, 'f) vmm \<Rightarrow> (u32 option, ('d, 'f) vmm) run" where
  "vm_setup_stack acc tokens m =
     (let upage = PHYS_BASE (hw (vmo acc)) - of_nat PGSIZE in
      case frame_alloc (vmo acc) upage True m of
        None \<Rightarrow> Stop
      | Some (kpage, m1) \<Rightarrow>
          if kpage = 0 then Ret None m1
          else (case page_set_frame (vmo acc) upage kpage True m1 of
              None \<Rightarrow> Stop
            | Some m2 \<Rightarrow> rbind (vm_build_stack acc tokens m2) (\<lambda>esp m. Ret (Some esp) m)))"

section \<open>load\<close>

fun vm_load_phdrs :: "'x load_env \<Rightarrow> ('d, 'f) vm_ops \<Rightarrow> nat \<Rightarrow> int \<Rightarrow> 'x \<Rightarrow> ('d, 'f) vmm \<Rightarrow> (bool \<times> 'x \<times> ('d, 'f) vmm) option" where
  "vm_load_phdrs env ops 0 file_ofs file m = Some (True, file, m)"
| "vm_load_phdrs env ops (Suc n) file_ofs file m =
     (if file_ofs < 0 \<or> f_length env file < file_ofs then Some (False, file, m)
      else let (bs, file1) = f_read env 32 (f_seek env file_ofs file)
      in if length bs \<noteq> 32 then Some (False, file1, m)
         else do {
           file_ofs' \<leftarrow> c_int (file_ofs + 32);
           let phdr = decode_phdr bs;
           if p_type phdr \<in> {PT_DYNAMIC, PT_INTERP, PT_SHLIB} then Some (False, file1, m)
           else if p_type phdr = PT_LOAD then
             (if validate_segment env phdr file1 then do {
                let (file_page, mem_page, read_bytes, zero_bytes) = segment_layout phdr;
                (ok, file2, m2) \<leftarrow> vm_load_segment env ops (sint file_page) mem_page read_bytes zero_bytes (p_flags phdr AND PF_WRITE \<noteq> 0) file1 m;
                if \<not> ok then Some (False, file2, m2) else vm_load_phdrs env ops n file_ofs' file2 m2
              } else Some (False, file1, m))
           else vm_load_phdrs env ops n file_ofs' file1 m
         })"

definition set_pagedir :: "u32 \<Rightarrow> ('d, 'f) vmm \<Rightarrow> ('d, 'f) vmm" where
  "set_pagedir pd m = m\<lparr>thread_pagedir := (thread_pagedir m)(cur_thread m := pd)\<rparr>"

text \<open>
  \<open>process_activate\<close> loads the new directory; the task state segment is not part of the state. The result has the entry
  point and the stack pointer.
\<close>

definition vm_load :: "'x load_env \<Rightarrow> ('d, 'f, 'y) access_ops_scheme \<Rightarrow> byte list \<Rightarrow> ('d, 'f) vmm \<Rightarrow> ((u32 \<times> u32) option, ('d, 'f) vmm) run" where
  "vm_load env acc file_name m =
     (let file_name_token = (case strtok_all file_name of [] \<Rightarrow> None | t # _ \<Rightarrow> Some t); tokens = load_tokens file_name in
      if \<not> (tokens_malloc env \<or> file_name_token = None) then Stop
      else rbind (run_of (pagedir_create (hw (vmo acc)) m)) (\<lambda>pd m.
        case pd of
          None \<Rightarrow> Ret None (set_pagedir 0 m)
        | Some pd \<Rightarrow>
            let m = pagedir_activate pd (set_pagedir pd m) in
            (case f_open env file_name_token of
               None \<Rightarrow> Ret None m
             | Some file0 \<Rightarrow>
                 let (bs, file1) = f_read env 52 (f_deny env file0);
                     ehdr = decode_ehdr bs
                 in if length bs \<noteq> 52 \<or> \<not> header_ok ehdr then Ret None m
                    else (case vm_load_phdrs env (vmo acc) (unat (e_phnum ehdr)) (sint (e_phoff ehdr)) file1 m of
                        None \<Rightarrow> Stop
                      | Some (ok, file2, m) \<Rightarrow>
                          if \<not> ok then Ret None m
                          else rbind (vm_setup_stack acc tokens m) (\<lambda>esp m.
                            Ret (map_option (\<lambda>esp. (e_entry ehdr, esp)) esp) m)))))"

text \<open>\<open>start_process\<close>: the supplemental page table of the new thread is empty.\<close>

definition vm_start_process :: "'x load_env \<Rightarrow> ('d, 'f, 'y) access_ops_scheme \<Rightarrow> byte list \<Rightarrow> ('d, 'f) vmm \<Rightarrow> ((u32 \<times> u32) option, ('d, 'f) vmm) run" where
  "vm_start_process env acc file_name m = vm_load env acc file_name (set_cur_pages [] m)"

section \<open>Exit\<close>

text \<open>The files of the process, mapped or not.\<close>

fun close_files :: "('d, 'f) sys_ops \<Rightarrow> file_store list \<Rightarrow> ('d, 'f) vmm \<Rightarrow> ('d, 'f) vmm option" where
  "close_files env [] m = Some m"
| "close_files env (e # es) m = do {
     m1 \<leftarrow> (if fs_mapped e then page_unmap (vmo env) (fs_file e) m else Some m);
     close_files env es (m1\<lparr>files := file_close env (fs_file e) (files m1)\<rparr>)
   }"

text \<open>
  Between two statements of the end of \<open>process_exit\<close> the timer may take the CPU away. When it comes back,
  \<open>process_activate\<close> makes the directory of the thread the active one (of the other threads' doings only this is modelled).
  The kernel goes on only while the active directory is in a page that has not been freed: it has the mappings
  of the kernel's own code.
\<close>

definition switch_back :: "bool \<Rightarrow> ('d, 'f) vmm \<Rightarrow> ('d, 'f) vmm option" where
  "switch_back switched m = do {
     kassert (pages m (active_pd m) \<noteq> None);
     let m1 = (if switched then pagedir_activate (cur_pagedir m) m else m);
     kassert (pages m1 (active_pd m1) \<noteq> None);
     Some m1
   }"

text \<open>
  \<open>process_exit\<close> after it has released the structures of its children (\<open>Process\<close>). \<open>irq i\<close> tells whether the CPU is away
  after the \<open>i\<close>th of the four statements.
\<close>

definition vm_process_exit :: "('d, 'f) sys_ops \<Rightarrow> (nat \<Rightarrow> bool) \<Rightarrow> ('d, 'f) msys \<Rightarrow> ('d, 'f) msys option" where
  "vm_process_exit env irq s = do {
     m \<leftarrow> close_files env (files_open s) (mem s);
     let pd = cur_pagedir m;
     m' \<leftarrow> (if pd \<noteq> 0 then do {
              m0 \<leftarrow> switch_back (irq 0) (frame_free pd m);
              m1 \<leftarrow> switch_back (irq 1) (set_pagedir 0 m0);
              m2 \<leftarrow> switch_back (irq 2) (pagedir_activate 0 m1);
              m3 \<leftarrow> pagedir_destroy (hw (vmo env)) pd m2;
              switch_back (irq 3) m3
            } else Some m);
     Some (s\<lparr>mem := m', files_open := []\<rparr>)
   }"

end
