(* ===== verification/Vm_Process_Props.thy ===== *)
theory Vm_Process_Props
  imports Vm_Process Vm_Syscall_Props Loader_Props
begin

text \<open>
  Properties of loading and exit with virtual memory: segments and arguments end up in the right frames; what the variants of
  the loader lose against the one without virtual memory; an exit gives up the frames and the page directory.
\<close>

section \<open>Segments\<close>

text \<open>Frames with contents, each one different.\<close>

definition frames_usable :: "('d, 'f) vmm \<Rightarrow> bool" where
  "frames_usable m \<longleftrightarrow> distinct (free_frames m) \<and> (\<forall>k\<in>set (free_frames m). k \<noteq> 0 \<and> (\<exists>pg. ram m k = Some pg \<and> length pg = 4096))"

definition segment_loaded :: "('d, 'f) vm_ops \<Rightarrow> u32 set \<Rightarrow> u32 \<Rightarrow> byte list \<Rightarrow> bool \<Rightarrow> nat \<Rightarrow> ('d, 'f) vmm \<Rightarrow> ('d, 'f) vmm \<Rightarrow> bool" where
  "segment_loaded ops D upage bs w n m m' \<longleftrightarrow>
     (\<forall>i<n. pd_map (hw ops) D m (cur_pagedir m, page_addr upage i) = None \<and>
        pd_map (hw ops) D m' (cur_pagedir m, page_addr upage i) = Some (free_frames m ! i, w) \<and>
        ram m' (free_frames m ! i) = Some (seg_page bs i)) \<and>
     (\<forall>k. k \<notin> set (take n (free_frames m)) \<longrightarrow> ram m' k = ram m k)"

lemma segment_page: "r \<le> length bs \<Longrightarrow> pr = min r 4096 \<Longrightarrow> length bs = r \<Longrightarrow> take pr bs @ replicate (4096 - pr) 0 = seg_page bs 0"
  by (auto simp: seg_page_def min_def)

lemma vm_segment_loop_spec:
  fixes m :: "('d, 'f) vmm"
  assumes files: "files_ok env content pos"
  shows "r + z = 4096 * n \<Longrightarrow> bs = take r (drop (pos f) (content f)) \<Longrightarrow> vm_inv ops D m \<Longrightarrow> frames_usable m \<Longrightarrow> n \<le> length (free_frames m) \<Longrightarrow>
    vm_segment_loop env ops upage r z w f m = Some (ok, f', m') \<Longrightarrow>
    content f' = content f \<and> (ok \<longleftrightarrow> length bs = r) \<and>
    (ok \<longrightarrow> vm_grows ops D m m' \<and> free_frames m' = drop n (free_frames m) \<and> segment_loaded ops D upage bs w n m m')"
proof (induction n arbitrary: upage r z f bs m)
  case 0
  then show ?case by (auto simp: vm_segment_loop.simps segment_loaded_def vm_grows_refl)
next
  case (Suc n)
  define pr where "pr = (if r < PGSIZE then r else PGSIZE)"
  have pr: "pr \<le> 4096" "pr \<le> r" "(r - pr) + (z - (PGSIZE - pr)) = 4096 * n" "0 < r \<or> 0 < z"
    using Suc.prems(1) by (auto simp: pr_def)
  obtain k ks where fr: "free_frames m = k # ks" using Suc.prems(5) by (cases "free_frames m") auto
  obtain kpage m1 m2 where m1: "frame_alloc ops upage w m = Some (kpage, m1)" "page_set_frame ops upage kpage w m1 = Some m2"
    using Suc.prems(6) pr(4) by (subst (asm) vm_segment_loop.simps) (auto simp: Let_def split: option.splits)
  note fa = frame_alloc_free [OF Suc.prems(3) m1(1) fr]
  note fp = frame_page_inv [OF Suc.prems(3) m1]
  have m2: "free_frames m2 = ks" "ram m2 = ram m" using page_set_frame_fields [OF m1(2)] fa by simp_all
  obtain pg where pg: "ram m k = Some pg" "length pg = 4096" "k \<noteq> 0" using Suc.prems(4) fr by (auto simp: frames_usable_def)
  obtain f1 where f1: "f_read env pr f = (take pr (drop (pos f) (content f)), f1)" "content f1 = content f"
    "pos f1 = pos f + length (take pr (drop (pos f) (content f)))" using files_okD(4) [OF files] by blast
  define data where "data = take pr (drop (pos f) (content f))"
  define m3 where "m3 = m2\<lparr>ram := (ram m2)(k \<mapsto> memcpy_at 0 (data @ replicate (PGSIZE - pr) 0) pg)\<rparr>"
  have step: "vm_segment_loop env ops upage r z w f m = (if length data \<noteq> pr then Some (False, f1, m2\<lparr>ram := (ram m2)(k := None)\<rparr>)
      else vm_segment_loop env ops (upage + of_nat PGSIZE) (r - pr) (z - (PGSIZE - pr)) w f1 m3)"
    using m1 pr(4) fa(1) pg(1,3) m2(2) f1(1) by (subst vm_segment_loop.simps) (simp add: Let_def pr_def [symmetric] data_def m3_def)
  have tk: "length data = pr \<longleftrightarrow> pr \<le> length (drop (pos f) (content f))" by (auto simp: data_def)
  show ?case
  proof (cases "length data = pr")
    case False
    then have "length bs \<noteq> r" using tk pr(2) Suc.prems(2) by (auto simp: min_def)
    then show ?thesis using Suc.prems(6) False f1(2) unfolding step by auto
  next
    case True
    have pos1: "pos f1 = pos f + pr" using f1(3) True by (simp add: data_def)
    have g2: "vm_grows ops D m m2" by (rule fp(1))
    have g3: "vm_grows ops D m m3"
    proof -
      have "same_maps ops D m2 m3" using same_maps_refl [OF vm_invD(2) [OF vm_growsD [OF g2]]] by (simp add: m3_def)
      then show ?thesis using vm_grows_trans [OF g2] same_maps_ext [OF vm_growsD [OF g2]] by blast
    qed
    have u3: "frames_usable m3" using Suc.prems(4) fr m2 by (auto simp: frames_usable_def m3_def)
    have bs1: "take (r - pr) (drop (pos f1) (content f1)) = drop pr bs"
      using Suc.prems(2) pr(2) by (simp add: pos1 f1(2) drop_take add.commute)
    have l: "vm_segment_loop env ops (upage + of_nat PGSIZE) (r - pr) (z - (PGSIZE - pr)) w f1 m3 = Some (ok, f', m')"
      using Suc.prems(6) True unfolding step by simp
    have ih: "content f' = content f1 \<and> (ok \<longleftrightarrow> length (drop pr bs) = r - pr) \<and>
      (ok \<longrightarrow> vm_grows ops D m3 m' \<and> free_frames m' = drop n (free_frames m3) \<and> segment_loaded ops D (upage + of_nat PGSIZE) (drop pr bs) w n m3 m')"
      by (rule Suc.IH [OF pr(3) bs1 [symmetric] vm_growsD [OF g3] u3 _ l]) (use Suc.prems(5) fr m2(1) in \<open>simp add: m3_def\<close>)
    have lb: "length (drop pr bs) = r - pr \<longleftrightarrow> length bs = r" using True tk pr(2) Suc.prems(2) by auto
    have "vm_grows ops D m m' \<and> free_frames m' = drop (Suc n) (free_frames m) \<and> segment_loaded ops D upage bs w (Suc n) m m'" if ok: ok
    proof (intro conjI)
      have ld: "segment_loaded ops D (upage + of_nat PGSIZE) (drop pr bs) w n m3 m'" and g': "vm_grows ops D m3 m'"
        and ff: "free_frames m' = drop n (free_frames m3)" using ih ok by simp_all
      have len: "length bs = r" using ih ok lb by simp
      show "vm_grows ops D m m'" by (rule vm_grows_trans [OF g3 g'])
      have f3: "free_frames m3 = ks" using m2(1) by (simp add: m3_def)
      show "free_frames m' = drop (Suc n) (free_frames m)" using ff f3 fr by simp
      have cp: "cur_pagedir m3 = cur_pagedir m" using g3 by (simp add: vm_grows_def)
      have map3: "pd_map (hw ops) D m3 = (pd_map (hw ops) D m)((cur_pagedir m, upage) \<mapsto> (k, w))" using fp(2) fa(1) by (simp add: m3_def)
      have sp: "seg_page (drop pr bs) i = seg_page bs (Suc i)" if "i < n" for i
      proof (cases "r < 4096")
        case False
        then show ?thesis using seg_page_Suc [of bs i] by (simp add: pr_def)
      qed (use len in \<open>simp add: pr_def seg_page_def\<close>)
      have notk: "k \<notin> set ks" using Suc.prems(4) fr by (simp add: frames_usable_def)
      have r3: "ram m3 k = Some (seg_page bs 0)"
      proof -
        have "data = take pr bs" using Suc.prems(2) pr(2) by (simp add: data_def min_def)
        moreover have "pr = min r 4096" by (simp add: pr_def)
        ultimately have "data @ replicate (4096 - pr) 0 = seg_page bs 0" using segment_page [of r bs pr] len by simp
        moreover have "length (data @ replicate (4096 - pr) 0) = 4096" using True pr(1) by simp
        ultimately show ?thesis using pg(2) by (simp add: m3_def)
      qed
      have "k \<notin> set (take n ks)" using notk by (auto dest: in_set_takeD)
      then have rk: "ram m' k = Some (seg_page bs 0)" using ld r3 f3 by (simp add: segment_loaded_def)
      have mk: "pd_map (hw ops) D m' (cur_pagedir m, upage) = Some (k, w)"
        using g' map3 by (auto simp: vm_grows_def map_le_def dest: bspec [of _ _ "(cur_pagedir m, upage)"])
      show "segment_loaded ops D upage bs w (Suc n) m m'"
        unfolding segment_loaded_def
      proof (intro conjI allI impI)
        fix i assume i: "i < Suc n"
        show "pd_map (hw ops) D m (cur_pagedir m, page_addr upage i) = None"
          "pd_map (hw ops) D m' (cur_pagedir m, page_addr upage i) = Some (free_frames m ! i, w)"
          "ram m' (free_frames m ! i) = Some (seg_page bs i)"
        proof (atomize (full), cases i)
          case 0
          then show "pd_map (hw ops) D m (cur_pagedir m, page_addr upage i) = None \<and>
            pd_map (hw ops) D m' (cur_pagedir m, page_addr upage i) = Some (free_frames m ! i, w) \<and>
            ram m' (free_frames m ! i) = Some (seg_page bs i)" using fp(3) mk rk fr by simp
        next
          case (Suc j)
          have ldj: "pd_map (hw ops) D m3 (cur_pagedir m, page_addr upage (Suc j)) = None"
            "pd_map (hw ops) D m' (cur_pagedir m, page_addr upage (Suc j)) = Some (ks ! j, w)" "ram m' (ks ! j) = Some (seg_page bs (Suc j))"
            using ld i Suc sp [of j] unfolding segment_loaded_def page_addr_Suc cp f3 by auto
          then show "pd_map (hw ops) D m (cur_pagedir m, page_addr upage i) = None \<and>
            pd_map (hw ops) D m' (cur_pagedir m, page_addr upage i) = Some (free_frames m ! i, w) \<and>
            ram m' (free_frames m ! i) = Some (seg_page bs i)" using Suc fr map3 by (auto split: if_splits)
        qed
      next
        fix x assume "x \<notin> set (take (Suc n) (free_frames m))"
        then have "x \<noteq> k" "x \<notin> set (take n ks)" using fr by simp_all
        then show "ram m' x = ram m x" using ld f3 m2(2) by (simp add: segment_loaded_def m3_def)
      qed
    qed
    then show ?thesis using ih lb f1(2) by simp
  qed
qed

section \<open>Segments load\<close>

definition segment_room :: "('d, 'f) vm_ops \<Rightarrow> u32 \<Rightarrow> nat \<Rightarrow> ('d, 'f) vmm \<Rightarrow> bool" where
  "segment_room ops upage n m \<longleftrightarrow> n \<le> length (free_frames m) \<and> (\<forall>k\<in>set (free_frames m). frame_good (hw ops) k) \<and>
     pool_has (hw ops) n (dom (pages m)) \<and> cur_pagedir m \<noteq> init_page_dir m \<and> (\<forall>ps. page_malloc ops ps) \<and>
     unat upage + 4096 * n < 4294967296 \<and> (\<forall>i<n. page_new ops (page_addr upage i) m)"

lemma segment_room_ram [simp]: "segment_room ops upage n (m\<lparr>ram := rm\<rparr>) = segment_room ops upage n m"
  by (simp add: segment_room_def page_new_def page_is_writable_map cur_pages_def cur_pagedir_def)

lemma segment_room_step:
  assumes inv: "vm_inv ops D m" and room: "segment_room ops upage (Suc n) m" and u: "frames_usable m"
  obtains k m1 m2 pg where "frame_alloc ops upage w m = Some (k, m1)" "page_set_frame ops upage k w m1 = Some m2" "k \<noteq> 0"
    "ram m2 k = Some pg" "length pg = 4096" "vm_inv ops D m2" "\<And>x. frames_usable (m2\<lparr>ram := (ram m2)(k := x)\<rparr>)"
    "segment_room ops (upage + of_nat PGSIZE) n m2"
proof -
  have nw: "page_new ops (page_addr upage i) m" if "i < Suc n" for i using room that by (simp add: segment_room_def)
  have up: "page_new ops upage m" using nw [of 0] by simp
  obtain k ks where fr: "free_frames m = k # ks" using room by (cases "free_frames m") (auto simp: segment_room_def)
  have k: "k \<noteq> 0" "frame_good (hw ops) k" using u room fr by (auto simp: frames_usable_def segment_room_def)
  obtain pg where pg: "ram m k = Some pg" "length pg = 4096" using u fr by (auto simp: frames_usable_def)
  have pool: "pool_has (hw ops) (Suc n) (dom (pages m))" "cur_pagedir m \<noteq> init_page_dir m" "page_malloc ops ps" for ps
    using room by (simp_all only: segment_room_def simp_thms)
  obtain m1 m2 where m: "frame_alloc ops upage w m = Some (k, m1)" "page_set_frame ops upage k w m1 = Some m2"
    "pool_has (hw ops) n (dom (pages m2))" "init_page_dir m2 = init_page_dir m" "\<And>v. v \<noteq> upage \<Longrightarrow> page_is_writable v m2 = page_is_writable v m"
    using frame_page_returns [OF inv fr k(2) up pool(1,2,3), where w = w] by blast
  note fp = frame_page_inv [OF inv m(1,2)]
  have m2: "free_frames m2 = ks" "ram m2 = ram m"
    using page_set_frame_fields [OF m(2)] frame_alloc_free [OF inv m(1) fr] by simp_all
  have cp: "cur_pagedir m2 = cur_pagedir m" using fp(1) by (simp add: vm_grows_def)
  have un: "unat upage + 4096 * Suc n < 4294967296" using room by (simp add: segment_room_def)
  have un1: "unat (upage + of_nat PGSIZE) = unat upage + 4096" using unat_page_addr [of upage 1] un by simp
  have "page_new ops (page_addr (upage + of_nat PGSIZE) i) m2" if i: "i < n" for i
  proof -
    have "unat (page_addr upage (Suc i)) = unat upage + 4096 * Suc i" by (rule unat_page_addr) (use i un in simp)
    then have "page_addr upage (Suc i) \<noteq> upage" by (metis add_cancel_left_right mult_eq_0_iff nat.distinct(1) zero_neq_numeral)
    then show ?thesis using nw [of "Suc i"] m(5) i unfolding page_addr_Suc page_new_def by simp
  qed
  then have "segment_room ops (upage + of_nat PGSIZE) n m2"
    using room m(3,4) fr m2 cp un un1 by (simp add: segment_room_def)
  moreover have "frames_usable (m2\<lparr>ram := (ram m2)(k := x)\<rparr>)" for x using u fr m2 by (auto simp: frames_usable_def)
  ultimately show thesis using that m(1,2) k(1) pg m2(2) vm_growsD [OF fp(1)] by simp
qed

lemma vm_inv_ram: "vm_inv ops D m \<Longrightarrow> vm_inv ops D (m\<lparr>ram := rm\<rparr>)"
  using same_maps_ext [of ops D m "m\<lparr>ram := rm\<rparr>"] same_maps_refl [of ops D m] vm_invD(2) [of ops D m] by (auto intro: vm_growsD)

lemma vm_segment_loop_returns:
  fixes m :: "('d, 'f) vmm"
  assumes files: "files_ok env content pos"
  shows "r + z = 4096 * n \<Longrightarrow> vm_inv ops D m \<Longrightarrow> frames_usable m \<Longrightarrow> segment_room ops upage n m \<Longrightarrow>
    \<exists>res. vm_segment_loop env ops upage r z w f m = Some res"
proof (induction n arbitrary: upage r z f m)
  case 0
  then show ?case by (auto simp: vm_segment_loop.simps)
next
  case (Suc n)
  define pr where "pr = (if r < PGSIZE then r else PGSIZE)"
  have pr: "(r - pr) + (z - (PGSIZE - pr)) = 4096 * n" "0 < r \<or> 0 < z" using Suc.prems(1) by (auto simp: pr_def)
  obtain bs f1 where f1: "f_read env pr f = (bs, f1)" by force
  obtain k m1 m2 pg where m: "frame_alloc ops upage w m = Some (k, m1)" "page_set_frame ops upage k w m1 = Some m2" "k \<noteq> 0"
    "ram m2 k = Some pg" "length pg = 4096" "vm_inv ops D m2"
    and u: "\<And>x. frames_usable (m2\<lparr>ram := (ram m2)(k := x)\<rparr>)"
    and room: "segment_room ops (upage + of_nat PGSIZE) n m2"
    using segment_room_step [OF Suc.prems(2,4,3), where w = w] by blast
  have "vm_segment_loop env ops upage r z w f m = (if length bs \<noteq> pr then Some (False, f1, m2\<lparr>ram := (ram m2)(k := None)\<rparr>)
      else vm_segment_loop env ops (upage + of_nat PGSIZE) (r - pr) (z - (PGSIZE - pr)) w f1
        (m2\<lparr>ram := (ram m2)(k \<mapsto> memcpy_at 0 (bs @ replicate (PGSIZE - pr) 0) pg)\<rparr>))"
    using m(1-4) pr(2) f1 by (subst vm_segment_loop.simps) (simp add: Let_def pr_def [symmetric])
  then show ?case using Suc.IH [OF pr(1) vm_inv_ram [OF m(6)] u] room by (cases "length bs = pr") (simp_all del: split_paired_Ex)
qed

lemma vm_load_segment_spec:
  fixes m :: "('d, 'f) vmm"
  assumes files: "files_ok env content pos" and inv: "vm_inv ops D m" and room: "segment_room ops upage n m" "frames_usable m"
    and size: "unat rb + unat zb = 4096 * n" and al: "pg_ofs (hw ops) upage = 0" and ofs: "0 \<le> ofs" "ofs mod 4096 = 0"
  shows "\<exists>ok f' m'. vm_load_segment env ops ofs upage rb zb w f m = Some (ok, f', m') \<and> content f' = content f \<and>
    (ok \<longleftrightarrow> length (take (unat rb) (drop (nat ofs) (content f))) = unat rb) \<and>
    (ok \<longrightarrow> vm_grows ops D m m' \<and> free_frames m' = drop n (free_frames m) \<and>
       segment_loaded ops D upage (take (unat rb) (drop (nat ofs) (content f))) w n m m')"
proof -
  let ?f = "f_seek env ofs f"
  have sk: "content ?f = content f" "pos ?f = nat ofs" using files_okD(2,3) [OF files ofs(1)] by simp_all
  have n: "n \<le> length (free_frames m)" "4096 * n < 4294967296" using room(1) by (simp_all add: segment_room_def)
  have "unat (rb + zb) = unat rb + unat zb" using size n(2) by (intro unat_add_u32) simp
  then have "unat ((rb + zb) mod of_nat PGSIZE) = 0" using size by (simp add: unat_mod)
  then have a: "(rb + zb) mod of_nat PGSIZE = 0" by (metis unat_eq_zero)
  obtain ok f' m' where l: "vm_segment_loop env ops upage (unat rb) (unat zb) w ?f m = Some (ok, f', m')"
    using vm_segment_loop_returns [OF files size inv room(2,1)] by (metis prod_cases3)
  have "vm_load_segment env ops ofs upage rb zb w f m = Some (ok, f', m')"
    using l a al ofs(2) by (simp add: vm_load_segment_def kernel_simps)
  moreover note vm_segment_loop_spec [OF files size refl inv room(2) n(1) l]
  ultimately show ?thesis unfolding sk by simp
qed

text \<open>
  C35 (functional): loading a segment with virtual memory. When enough frames have not been used yet, the pages of the segment are new to
  the process and the kernel pool has pages for page tables, \<open>load_segment\<close> returns; it succeeds exactly if the file has the bytes, and
  then the pages are mapped to the next unused frames, in order and with the rights asked for, the frames hold the bytes
  of the file and zeros after them, no other frame has changed and everything that was mapped still is.
\<close>

theorem vm_load_segment_correct:
  fixes m :: "('d, 'f) vmm"
  assumes files: "files_ok env content pos" and inv: "vm_inv ops D m" and room: "segment_room ops upage n m" "frames_usable m"
    and size: "unat rb + unat zb = 4096 * n" and al: "pg_ofs (hw ops) upage = 0" and ofs: "0 \<le> ofs" "ofs mod 4096 = 0"
  shows "\<exists>ok f' m'. vm_load_segment env ops ofs upage rb zb w f m = Some (ok, f', m') \<and>
    (ok \<longleftrightarrow> length (take (unat rb) (drop (nat ofs) (content f))) = unat rb) \<and>
    (ok \<longrightarrow> vm_grows ops D m m' \<and> free_frames m' = drop n (free_frames m) \<and>
       segment_loaded ops D upage (take (unat rb) (drop (nat ofs) (content f))) w n m m')"
  using vm_load_segment_spec [OF assms] by blast

section \<open>Program headers\<close>

text \<open>A page that is mapped already.\<close>

lemma vm_load_segment_mapped:
  assumes "vm_inv ops D m" "pd_map (hw ops) D m (cur_pagedir m, upage) \<noteq> None" "0 < unat r + unat z"
  shows "vm_load_segment env ops ofs upage r z w f m = None"
proof -
  have "vm_segment_loop env ops upage (unat r) (unat z) w f' m = None" for f'
    using assms(3) frame_alloc_mapped_None [OF assms(1,2)] by (subst vm_segment_loop.simps) (simp add: Let_def)
  then show ?thesis by (simp add: vm_load_segment_def kernel_simps)
qed

lemma load_segment_mapped:
  assumes files: "files_ok env content pos" "length (content f) < 2147483648" and base: "base_ok env"
    and v: "validate_segment env p f" and l: "segment_layout p = (fp, mp, r, z)" and u: "upages s mp \<noteq> None"
  shows "\<exists>f' s'. load_segment env (sint fp) mp r z w f s = Some (False, f', s')"
proof -
  obtain ok f' s' k where s: "load_segment env (sint fp) mp r z w f s = Some (ok, f', s')" "ok \<longrightarrow> k = (unat r + unat z) div 4096"
    "segment_done env mp (take (unat r) (drop (unat fp) (content f))) w k s s'"
    using load_segment_spec [OF files base v l] by blast
  have "0 < (unat r + unat z) div 4096" using segment_layout_bounds(4,8) [OF base v l] by auto
  then have "\<not> ok" using s(2,3) u unfolding segment_done_def by (auto dest!: spec [of _ 0])
  then show ?thesis using s(1) by simp
qed

lemma validate_segment_length: "f_length env f' = f_length env f \<Longrightarrow> validate_segment env p f' = validate_segment env p f"
  by (simp add: validate_segment_def)

text \<open>One program header of a segment to load, at the offset \<open>ofs\<close>.\<close>

lemma phdr_read:
  assumes files: "files_ok env content pos" "length (content f) < 2147483616" and o: "0 \<le> ofs" "nat ofs + 32 \<le> length (content f)"
  obtains f1 where "f_read env 32 (f_seek env ofs f) = (take 32 (drop (nat ofs) (content f)), f1)" "content f1 = content f"
    "\<not> (ofs < 0 \<or> f_length env f < ofs)" "c_int (ofs + 32) = Some (ofs + 32)" "length (take 32 (drop (nat ofs) (content f))) = 32"
proof -
  obtain f1 where f1: "f_read env 32 (f_seek env ofs f) = (take 32 (drop (nat ofs) (content f)), f1)" "content f1 = content f"
    using files_okD(2-4) [OF files(1)] o(1) by metis
  moreover have "f_length env f = int (length (content f))" by (rule files_okD(1) [OF files(1)])
  ultimately show thesis using that o files(2) by simp
qed

lemma vm_phdr_step:
  assumes files: "files_ok env content pos" "length (content f) < 2147483616" and o: "0 \<le> ofs" "nat ofs + 32 \<le> length (content f)"
    and seg: "p = decode_phdr (take 32 (drop (nat ofs) (content f)))" "p_type p = PT_LOAD" "validate_segment env p f" "segment_layout p = (fp, mp, r, z)"
  shows "\<exists>f1. content f1 = content f \<and> vm_load_phdrs env ops (Suc n) ofs f m =
    Option.bind (vm_load_segment env ops (sint fp) mp r z (p_flags p AND PF_WRITE \<noteq> 0) f1 m)
      (\<lambda>(ok, f2, m2). if \<not> ok then Some (False, f2, m2) else vm_load_phdrs env ops n (ofs + 32) f2 m2)"
proof -
  obtain f1 where f1: "f_read env 32 (f_seek env ofs f) = (take 32 (drop (nat ofs) (content f)), f1)" "content f1 = content f"
    "\<not> (ofs < 0 \<or> f_length env f < ofs)" "c_int (ofs + 32) = Some (ofs + 32)" "length (take 32 (drop (nat ofs) (content f))) = 32"
    by (rule phdr_read [OF files o])
  have "validate_segment env p f1" using seg(3) validate_segment_length [of env f1 f p] files_okD(1) [OF files(1)] f1(2) by simp
  then have "vm_load_phdrs env ops (Suc n) ofs f m =
    Option.bind (vm_load_segment env ops (sint fp) mp r z (p_flags p AND PF_WRITE \<noteq> 0) f1 m)
      (\<lambda>(ok, f2, m2). if \<not> ok then Some (False, f2, m2) else vm_load_phdrs env ops n (ofs + 32) f2 m2)"
    using seg(2,4) unfolding vm_load_phdrs.simps(2) if_not_P [OF f1(3)] f1(1) Let_def prod.case f1(5) f1(4) bind.bind_lunit seg(1) [symmetric] by simp
  then show ?thesis using f1(2) by blast
qed

lemma phdr_step:
  assumes files: "files_ok env content pos" "length (content f) < 2147483616" and o: "0 \<le> ofs" "nat ofs + 32 \<le> length (content f)"
    and seg: "p = decode_phdr (take 32 (drop (nat ofs) (content f)))" "p_type p = PT_LOAD" "validate_segment env p f" "segment_layout p = (fp, mp, r, z)"
  shows "\<exists>f1. content f1 = content f \<and> validate_segment env p f1 \<and> load_phdrs env (Suc n) ofs f s =
    Option.bind (load_segment env (sint fp) mp r z (p_flags p AND PF_WRITE \<noteq> 0) f1 s)
      (\<lambda>(ok, f2, s2). if \<not> ok then Some (False, f2, s2) else load_phdrs env n (ofs + 32) f2 s2)"
proof -
  obtain f1 where f1: "f_read env 32 (f_seek env ofs f) = (take 32 (drop (nat ofs) (content f)), f1)" "content f1 = content f"
    "\<not> (ofs < 0 \<or> f_length env f < ofs)" "c_int (ofs + 32) = Some (ofs + 32)" "length (take 32 (drop (nat ofs) (content f))) = 32"
    by (rule phdr_read [OF files o])
  have v: "validate_segment env p f1" using seg(3) validate_segment_length [of env f1 f p] files_okD(1) [OF files(1)] f1(2) by simp
  then have "load_phdrs env (Suc n) ofs f s =
    Option.bind (load_segment env (sint fp) mp r z (p_flags p AND PF_WRITE \<noteq> 0) f1 s)
      (\<lambda>(ok, f2, s2). if \<not> ok then Some (False, f2, s2) else load_phdrs env n (ofs + 32) f2 s2)"
    using seg(2,4) unfolding load_phdrs.simps(2) if_not_P [OF f1(3)] f1(1) Let_def prod.case f1(5) f1(4) bind.bind_lunit seg(1) [symmetric] by simp
  then show ?thesis using f1(2) v by blast
qed

text \<open>
  C40 (error): an executable with two segments, the second of which starts in a page of the first (as when code and data share a page).
  Without virtual memory \<open>load\<close> finds the page mapped and
  refuses the file. With virtual memory every check of the headers passes, and then \<open>frame_alloc\<close> asserts that the page is
  not mapped: the same file, given to \<open>exec\<close> by any user program, stops the kernel (if there is room to load the first segment).
\<close>

theorem overlapping_segment_asserts:
  fixes m :: "('d, 'f) vmm"
  assumes files: "files_ok env content pos" "length (content f) < 2147483616" and base: "base_ok env"
    and hdrs: "0 \<le> ofs" "nat ofs + 64 \<le> length (content f)" "p1 = decode_phdr (take 32 (drop (nat ofs) (content f)))"
      "p2 = decode_phdr (take 32 (drop (nat ofs + 32) (content f)))"
    and seg1: "p_type p1 = PT_LOAD" "validate_segment env p1 f" "segment_layout p1 = (fp, mp, r, z)" "unat fp + unat r \<le> length (content f)"
    and seg2: "p_type p2 = PT_LOAD" "validate_segment env p2 f" "p_vaddr p2 AND NOT PGMASK = page_addr mp j" "j < k"
    and size: "unat r + unat z = 4096 * k"
    and inv: "vm_inv ops D m" and room: "segment_room ops mp k m" "frames_usable m" "pg_ofs (hw ops) mp = 0"
  shows "vm_load_phdrs env ops (Suc (Suc n)) ofs f m = None \<and> (\<exists>f' s'. load_phdrs env (Suc (Suc n)) ofs f s = Some (False, f', s'))"
proof
  obtain fp2 mp2 r2 z2 where sl2: "segment_layout p2 = (fp2, mp2, r2, z2)" by (metis prod_cases4)
  have mp2: "mp2 = page_addr mp j" using sl2 seg2(3) by (auto simp: segment_layout_def Let_def split: if_splits)
  have o2: "0 \<le> ofs + 32" "nat (ofs + 32) = nat ofs + 32" using hdrs(1) by (simp_all add: nat_add_distrib)
  have fp: "0 \<le> sint fp" "sint fp mod 4096 = 0" "nat (sint fp) = unat fp"
  proof -
    have "unat fp < 2147483648" using seg1(4) files(2) by simp
    then have s: "sint fp = int (unat fp)" by (rule sint_small)
    have "int (unat fp) mod 4096 = int (unat fp mod 4096)" by (simp add: zmod_int)
    then show "sint fp mod 4096 = 0" unfolding s segment_layout_bounds(1) [OF base seg1(2,3)] by simp
    show "0 \<le> sint fp" "nat (sint fp) = unat fp" unfolding s by simp_all
  qed
  have later: "length (content f2) < 2147483616" "nat (ofs + 32) + 32 \<le> length (content f2)"
    "p2 = decode_phdr (take 32 (drop (nat (ofs + 32)) (content f2)))" "validate_segment env p2 f2" if "content f2 = content f" for f2
    using that files(2) hdrs(2,4) o2 seg2(2) validate_segment_length [of env f2 f p2] files_okD(1) [OF files(1)] by simp_all
  have o1: "nat ofs + 32 \<le> length (content f)" using hdrs(2) by simp
  obtain f1 where f1: "content f1 = content f" "vm_load_phdrs env ops (Suc (Suc n)) ofs f m =
    Option.bind (vm_load_segment env ops (sint fp) mp r z (p_flags p1 AND PF_WRITE \<noteq> 0) f1 m)
      (\<lambda>(ok, f2, m2). if \<not> ok then Some (False, f2, m2) else vm_load_phdrs env ops (Suc n) (ofs + 32) f2 m2)"
    using vm_phdr_step [OF files hdrs(1) o1 hdrs(3) seg1(1-3)] by blast
  define bs where "bs = take (unat r) (drop (unat fp) (content f))"
  have full: "length bs = unat r" using seg1(4) by (simp add: bs_def)
  obtain ok f2 m2 where l: "vm_load_segment env ops (sint fp) mp r z (p_flags p1 AND PF_WRITE \<noteq> 0) f1 m = Some (ok, f2, m2)"
    "content f2 = content f" "ok \<longleftrightarrow> length bs = unat r"
    "ok \<longrightarrow> vm_grows ops D m m2 \<and> segment_loaded ops D mp bs (p_flags p1 AND PF_WRITE \<noteq> 0) k m m2"
    using vm_load_segment_spec [OF files(1) inv room(1,2) size room(3) fp(1,2), of "p_flags p1 AND PF_WRITE \<noteq> 0" f1]
    unfolding fp(3) f1(1) bs_def by blast
  have g: "vm_inv ops D m2" "cur_pagedir m2 = cur_pagedir m" "pd_map (hw ops) D m2 (cur_pagedir m, page_addr mp j) \<noteq> None"
  proof -
    have gr: "vm_grows ops D m m2" and ld: "segment_loaded ops D mp bs (p_flags p1 AND PF_WRITE \<noteq> 0) k m m2" using l(3,4) full by simp_all
    show "vm_inv ops D m2" by (rule vm_growsD [OF gr])
    show "cur_pagedir m2 = cur_pagedir m" using gr by (simp add: vm_grows_def)
    show "pd_map (hw ops) D m2 (cur_pagedir m, page_addr mp j) \<noteq> None" using ld seg2(4) unfolding segment_loaded_def by fast
  qed
  obtain f3 where "vm_load_phdrs env ops (Suc n) (ofs + 32) f2 m2 =
    Option.bind (vm_load_segment env ops (sint fp2) mp2 r2 z2 (p_flags p2 AND PF_WRITE \<noteq> 0) f3 m2)
      (\<lambda>(ok, f3, m3). if \<not> ok then Some (False, f3, m3) else vm_load_phdrs env ops n (ofs + 32 + 32) f3 m3)"
    using vm_phdr_step [OF files(1) later(1) [OF l(2)] o2(1) later(2,3) [OF l(2)] seg2(1) later(4) [OF l(2)] sl2] by blast
  moreover have "vm_load_segment env ops (sint fp2) mp2 r2 z2 (p_flags p2 AND PF_WRITE \<noteq> 0) f3 m2 = None"
    by (rule vm_load_segment_mapped [OF g(1) _ segment_layout_bounds(8) [OF base seg2(2) sl2]]) (use g(2,3) in \<open>simp add: mp2\<close>)
  ultimately show "vm_load_phdrs env ops (Suc (Suc n)) ofs f m = None" using f1(2) l(1,3) full by simp
next
  obtain fp2 mp2 r2 z2 where sl2: "segment_layout p2 = (fp2, mp2, r2, z2)" by (metis prod_cases4)
  have mp2: "mp2 = page_addr mp j" using sl2 seg2(3) by (auto simp: segment_layout_def Let_def split: if_splits)
  have o2: "0 \<le> ofs + 32" "nat (ofs + 32) = nat ofs + 32" using hdrs(1) by (simp_all add: nat_add_distrib)
  have o1: "nat ofs + 32 \<le> length (content f)" using hdrs(2) by simp
  obtain f1 where f1: "content f1 = content f" "validate_segment env p1 f1" "load_phdrs env (Suc (Suc n)) ofs f s =
    Option.bind (load_segment env (sint fp) mp r z (p_flags p1 AND PF_WRITE \<noteq> 0) f1 s)
      (\<lambda>(ok, f2, s2). if \<not> ok then Some (False, f2, s2) else load_phdrs env (Suc n) (ofs + 32) f2 s2)"
    using phdr_step [OF files hdrs(1) o1 hdrs(3) seg1(1-3)] by blast
  have len1: "length (content f1) < 2147483648" using files(2) f1(1) by simp
  obtain ok f2 s2 where l: "load_segment env (sint fp) mp r z (p_flags p1 AND PF_WRITE \<noteq> 0) f1 s = Some (ok, f2, s2)"
    "content f2 = content f" "ok \<longrightarrow> upages s2 (page_addr mp j) \<noteq> None"
    using load_segment_spec [OF files(1) len1 base f1(2) seg1(3), of "p_flags p1 AND PF_WRITE \<noteq> 0" s] size seg2(4)
    unfolding f1(1) segment_done_def by fastforce
  show "\<exists>f' s'. load_phdrs env (Suc (Suc n)) ofs f s = Some (False, f', s')"
  proof (cases ok)
    case True
    have len2: "length (content f2) < 2147483616" "nat (ofs + 32) + 32 \<le> length (content f2)"
      "p2 = decode_phdr (take 32 (drop (nat (ofs + 32)) (content f2)))" "validate_segment env p2 f2"
      using l(2) files(2) hdrs(2,4) o2 seg2(2) validate_segment_length [of env f2 f p2] files_okD(1) [OF files(1)] by simp_all
    obtain f3 where f3: "content f3 = content f2" "validate_segment env p2 f3" "load_phdrs env (Suc n) (ofs + 32) f2 s2 =
      Option.bind (load_segment env (sint fp2) mp2 r2 z2 (p_flags p2 AND PF_WRITE \<noteq> 0) f3 s2)
        (\<lambda>(ok, f3, s3). if \<not> ok then Some (False, f3, s3) else load_phdrs env n (ofs + 32 + 32) f3 s3)"
      using phdr_step [OF files(1) len2(1) o2(1) len2(2,3) seg2(1) len2(4) sl2] by blast
    have "length (content f3) < 2147483648" "upages s2 mp2 \<noteq> None" using len2(1) f3(1) l(3) True by (simp_all add: mp2)
    from load_segment_mapped [OF files(1) this(1) base f3(2) sl2 this(2)]
    obtain f4 s4 where "load_segment env (sint fp2) mp2 r2 z2 (p_flags p2 AND PF_WRITE \<noteq> 0) f3 s2 = Some (False, f4, s4)" by blast
    then show ?thesis using f1(3) f3(3) l(1) True by simp
  qed (use f1(3) l(1) in simp)
qed

section \<open>Exit\<close>

lemma close_files_unmapped:
  "\<forall>e\<in>set es. \<not> fs_mapped e \<Longrightarrow>
   close_files env es m = Some (m\<lparr>files := foldl (\<lambda>fs e. file_close env (fs_file e) fs) (files m) es\<rparr>)"
proof (induction es arbitrary: m)
  case (Cons e es)
  then show ?case by simp
qed simp

text \<open>What a process that exits leaves behind.\<close>

definition process_gone :: "('d, 'f) vm_ops \<Rightarrow> u32 set \<Rightarrow> ('d, 'f) vmm \<Rightarrow> ('d, 'f) vmm \<Rightarrow> bool" where
  "process_gone ops D m m' \<longleftrightarrow>
     cur_pagedir m' = 0 \<and> cr3 m' = init_page_dir m \<and> (\<forall>f\<in>set (frame_table m'). f_pd f \<noteq> cur_pagedir m) \<and>
     vm_wf (hw ops) (D - {cur_pagedir m}) m' \<and>
     (\<forall>p. pages m' p = (if p = cur_pagedir m \<or> p \<in> dir_tables (hw ops) m (cur_pagedir m) then None else pages m p)) \<and>
     pd_map (hw ops) (D - {cur_pagedir m}) m' = (\<lambda>k. if fst k = cur_pagedir m then None else pd_map (hw ops) D m k)"

text \<open>\<open>pagedir_destroy\<close> after the other three statements, whichever directory the interrupts made active.\<close>

lemma exit_pagedir:
  fixes m :: "('d, 'f) vmm"
  assumes inv: "vm_inv ops D m" and pd: "cur_pagedir m \<noteq> init_page_dir m"
    and m1: "m1 = frame_free (cur_pagedir m) (set_pagedir 0 m)\<lparr>cr3 := init_page_dir m, tlb := T\<rparr>"
  shows "\<exists>m'. pagedir_destroy (hw ops) (cur_pagedir m) m1 = Some m' \<and> process_gone ops D m m' \<and> files m' = files m \<and>
    init_page_dir m' = init_page_dir m"
proof -
  let ?pd = "cur_pagedir m"
  have f1: "frame_table m1 = map (\<lambda>f. if f_pd f = ?pd then f\<lparr>f_pd := 0, f_upage := 0\<rparr> else f) (frame_table m)"
    "cur_pagedir m1 = 0" "cr3 m1 = init_page_dir m" "init_page_dir m1 = init_page_dir m" "pages m1 = pages m" "files m1 = files m"
    by (simp_all add: m1 set_pagedir_def frame_free_def cur_pagedir_def)
  have vm1: "vm_wf (hw ops) D m1" "pd_map (hw ops) D m1 = pd_map (hw ops) D m" "dir_tables (hw ops) m1 ?pd = dir_tables (hw ops) m ?pd"
    using vm_invD(2) [OF inv] f1(5) by (simp_all add: vm_wf_def dir_ok_def user_table_def pd_map_def pte_val_def pte_at_def dir_tables_def fun_eq_iff)
  obtain m' where d: "pagedir_destroy (hw ops) ?pd m1 = Some m'" "vm_wf (hw ops) (D - {?pd}) m'"
      "m' = m1\<lparr>pages := \<lambda>p. if p = ?pd \<or> p \<in> dir_tables (hw ops) m1 ?pd then None else pages m1 p\<rparr>"
      "pd_map (hw ops) (D - {?pd}) m' = (\<lambda>k. if fst k = ?pd then None else pd_map (hw ops) D m1 k)"
    using pagedir_destroy_spec [OF vm_invD(1) [OF inv] vm1(1) vm_invD(3) [OF inv]] pd f1(4) by auto
  have nz: "?pd \<noteq> 0" using vm_wf_dir [OF vm_invD(2,3) [OF inv]] by blast
  have m': "frame_table m' = frame_table m1" "cur_pagedir m' = cur_pagedir m1" "cr3 m' = cr3 m1" "files m' = files m1"
    "init_page_dir m' = init_page_dir m1"
    "\<And>p. pages m' p = (if p = ?pd \<or> p \<in> dir_tables (hw ops) m1 ?pd then None else pages m1 p)"
    unfolding d(3) by (simp_all add: cur_pagedir_def)
  then have "process_gone ops D m m' \<and> files m' = files m"
    using d(2,4) f1 vm1(2,3) nz by (auto simp: process_gone_def)
  then show ?thesis using d(1) m'(5) f1(4) by auto
qed

text \<open>The three statements before.\<close>

lemma exit_statements:
  fixes m :: "('d, 'f) vmm"
  assumes inv: "vm_inv ops D m" and base: "pages m (init_page_dir m) \<noteq> None"
  shows "\<exists>m0 m1 T. switch_back b0 (frame_free (cur_pagedir m) m) = Some m0 \<and> switch_back b1 (set_pagedir 0 m0) = Some m1 \<and>
    switch_back b2 (pagedir_activate 0 m1) = Some (frame_free (cur_pagedir m) (set_pagedir 0 m)\<lparr>cr3 := init_page_dir m, tlb := T\<rparr>)"
proof -
  let ?pd = "cur_pagedir m" and ?f = "frame_free (cur_pagedir m) m"
  have dir: "pages m ?pd \<noteq> None" "?pd \<noteq> 0" using vm_wf_dir [OF vm_invD(2,3) [OF inv]] by auto
  have f: "cur_pagedir ?f = ?pd" "cr3 ?f = ?pd" "pages ?f = pages m" "init_page_dir ?f = init_page_dir m"
    using vm_invD(4) [OF inv] by (simp_all add: frame_free_def cur_pagedir_def)
  have 0: "\<exists>T. switch_back b0 ?f = Some (?f\<lparr>cr3 := ?pd, tlb := T\<rparr>)"
    using f dir by (cases b0) (auto simp: switch_back_def active_pd_def pagedir_activate_def intro!: exI [of _ "if b0 then Map.empty else tlb ?f"])
  then obtain T0 where m0: "switch_back b0 ?f = Some (?f\<lparr>cr3 := ?pd, tlb := T0\<rparr>)" by blast
  let ?m0 = "?f\<lparr>cr3 := ?pd, tlb := T0\<rparr>"
  let ?g = "frame_free ?pd (set_pagedir 0 m)"
  have g: "set_pagedir 0 ?m0 = ?g\<lparr>cr3 := ?pd, tlb := T0\<rparr>" "cur_pagedir ?g = 0" "pages ?g = pages m" "init_page_dir ?g = init_page_dir m"
    by (simp_all add: set_pagedir_def frame_free_def cur_pagedir_def)
  have "\<exists>a T. (a = ?pd \<or> a = init_page_dir m) \<and> switch_back b1 (set_pagedir 0 ?m0) = Some (?g\<lparr>cr3 := a, tlb := T\<rparr>)"
    unfolding g(1) using g(2-4) dir base
    by (cases b1) (auto simp: switch_back_def active_pd_def pagedir_activate_def cur_pagedir_def)
  then obtain a T1 where m1: "switch_back b1 (set_pagedir 0 ?m0) = Some (?g\<lparr>cr3 := a, tlb := T1\<rparr>)" by blast
  have "\<exists>T. switch_back b2 (pagedir_activate 0 (?g\<lparr>cr3 := a, tlb := T1\<rparr>)) = Some (?g\<lparr>cr3 := init_page_dir m, tlb := T\<rparr>)"
    using g(2-4) base by (cases b2) (auto simp: switch_back_def active_pd_def pagedir_activate_def cur_pagedir_def)
  then show ?thesis using m0 m1 by blast
qed

text \<open>
  C37 (functional): the exit of a process that has mapped no files returns, whenever the timer takes the CPU away meanwhile. Every file it
  had open is closed once, and its table of files is empty; its frames belong to nobody; its page directory and the page tables of that
  directory, and no other page, go back to the pool, and never while the CPU uses them; in the end the directory of the kernel is the active
  one; every other address space is what it was. The directory of the kernel must be none of these pages.
\<close>

theorem vm_process_exit_releases:
  assumes inv: "vm_inv (vmo env) D (mem s)" and unmapped: "\<forall>e\<in>set (files_open s). \<not> fs_mapped e"
    and pd: "cur_pagedir (mem s) \<noteq> init_page_dir (mem s)" and base: "pages (mem s) (init_page_dir (mem s)) \<noteq> None"
      "init_page_dir (mem s) \<notin> dir_tables (hw (vmo env)) (mem s) (cur_pagedir (mem s))"
  shows "\<exists>s'. vm_process_exit env irq s = Some s' \<and> files_open s' = [] \<and> process_gone (vmo env) D (mem s) (mem s') \<and>
    files (mem s') = foldl (\<lambda>fs e. file_close env (fs_file e) fs) (files (mem s)) (files_open s)"
proof -
  define m where "m = (mem s)\<lparr>files := foldl (\<lambda>fs e. file_close env (fs_file e) fs) (files (mem s)) (files_open s)\<rparr>"
  have cf: "close_files env (files_open s) (mem s) = Some m" using close_files_unmapped [OF unmapped] by (simp add: m_def)
  have "same_maps (vmo env) D (mem s) m" using same_maps_refl [OF vm_invD(2) [OF inv]] by (simp add: m_def)
  then have im: "vm_inv (vmo env) D m" using same_maps_ext [OF inv] by (blast intro: vm_growsD)
  have cm: "cur_pagedir m = cur_pagedir (mem s)" "init_page_dir m = init_page_dir (mem s)" "pages m = pages (mem s)"
    "pd_map (hw (vmo env)) D m = pd_map (hw (vmo env)) D (mem s)" by (simp_all add: m_def cur_pagedir_def)
  have dt: "dir_tables (hw (vmo env)) m p = dir_tables (hw (vmo env)) (mem s) p" for p using cm(3) by (simp add: dir_tables_def user_table_def)
  have "pages m (init_page_dir m) \<noteq> None" using base(1) cm by simp
  from exit_statements [OF im this, of "irq 0" "irq 1" "irq 2"]
  obtain m0 m1 T where st: "switch_back (irq 0) (frame_free (cur_pagedir m) m) = Some m0" "switch_back (irq 1) (set_pagedir 0 m0) = Some m1"
    "switch_back (irq 2) (pagedir_activate 0 m1) = Some (frame_free (cur_pagedir m) (set_pagedir 0 m)\<lparr>cr3 := init_page_dir m, tlb := T\<rparr>)"
    by blast
  obtain m' where m': "pagedir_destroy (hw (vmo env)) (cur_pagedir m) (frame_free (cur_pagedir m) (set_pagedir 0 m)\<lparr>cr3 := init_page_dir m, tlb := T\<rparr>) = Some m'"
      "process_gone (vmo env) D m m'" "files m' = files m" "init_page_dir m' = init_page_dir m"
    using exit_pagedir [OF im _ refl] pd cm by metis
  have gone: "cur_pagedir m' = 0" "cr3 m' = init_page_dir m'" "pages m' (init_page_dir m') \<noteq> None"
    using m'(2,4) base pd cm dt by (auto simp: process_gone_def)
  have "\<exists>T. switch_back (irq 3) m' = Some (m'\<lparr>tlb := T\<rparr>)"
    using gone by (cases "irq 3") (auto simp: switch_back_def active_pd_def pagedir_activate_def intro!: exI [of _ "if irq 3 then Map.empty else tlb m'"])
  then obtain T' where sb: "switch_back (irq 3) m' = Some (m'\<lparr>tlb := T'\<rparr>)" by blast
  have nz: "cur_pagedir m \<noteq> 0" using vm_wf_dir [OF vm_invD(2,3) [OF im]] by blast
  have "vm_wf M E (m'\<lparr>tlb := T'\<rparr>) = vm_wf M E m'" "pd_map M E (m'\<lparr>tlb := T'\<rparr>) = pd_map M E m'" for M :: mmu and E
    by (simp_all add: vm_wf_def dir_ok_def user_table_def pd_map_def pte_val_def pte_at_def fun_eq_iff)
  moreover have "cur_pagedir (m'\<lparr>tlb := T'\<rparr>) = cur_pagedir m'" by (simp add: cur_pagedir_def)
  ultimately have "process_gone (vmo env) D m (m'\<lparr>tlb := T'\<rparr>)" using m'(2) by (simp add: process_gone_def)
  then have "process_gone (vmo env) D (mem s) (m'\<lparr>tlb := T'\<rparr>)" unfolding process_gone_def cm dt by simp
  moreover have "vm_process_exit env irq s = Some (s\<lparr>mem := m'\<lparr>tlb := T'\<rparr>, files_open := []\<rparr>)"
    using cf nz st m'(1) sb by (simp add: vm_process_exit_def Let_def)
  ultimately show ?thesis using m'(3) by (simp add: m_def)
qed

section \<open>An executable for the process with one page\<close>

lemma demo_free_room: "segment_room demo_ops 0x08049000 1 demo_free" "frames_usable demo_free"
proof -
  have "frame_good x86 k" if "k \<in> {0xc0301000, 0xc0302000}" for k using that by (auto simp: frame_good_def x86_def)
  moreover have "page_new demo_ops 0x08049000 demo_free" by (rule demo_free_new) simp_all
  ultimately show "segment_room demo_ops 0x08049000 1 demo_free"
    using demo_free_pool unfolding segment_room_def One_nat_def by (auto simp del: pool_has.simps)
  show "frames_usable demo_free" by (simp add: frames_usable_def) (simp add: demo_free_def)
qed

theorem vm_load_segment_correct_witness:
  "\<exists>f' m'. vm_load_segment demo_load demo_ops 0 0x08049000 100 3996 False (demo_elf, 0) demo_free = Some (True, f', m') \<and>
     pd_map x86 {0xc0200000} m' (0xc0200000, 0x08049000) = Some (0xc0301000, False) \<and> ram m' 0xc0301000 = Some (demo_elf @ replicate 3996 0)"
proof -
  have n: "unat (100 :: u32) + unat (3996 :: u32) = 4096 * 1" "pg_ofs (hw demo_ops) 0x08049000 = 0" "(0 :: int) \<le> 0" "(0 :: int) mod 4096 = 0"
    by simp_all (simp add: x86_def)
  have bs: "take (unat (100 :: u32)) (drop (nat 0) (fst (demo_elf, 0 :: nat))) = demo_elf" by (simp add: length_demo_elf)
  obtain ok f' m' where l: "vm_load_segment demo_load demo_ops 0 0x08049000 100 3996 False (demo_elf, 0) demo_free = Some (ok, f', m')"
    "ok \<longleftrightarrow> length demo_elf = unat (100 :: u32)" "ok \<longrightarrow> segment_loaded demo_ops {0xc0200000} 0x08049000 demo_elf False 1 demo_free m'"
    using vm_load_segment_correct [OF demo_load_ok(1) demo_free_inv demo_free_room n, of False "(demo_elf, 0)"] unfolding bs by blast
  have ok: ok using l(2) by (simp add: length_demo_elf)
  have "seg_page demo_elf 0 = demo_elf @ replicate 3996 0" by (simp add: seg_page_def length_demo_elf)
  then show ?thesis using l(1,3) ok by (simp add: segment_loaded_def)
qed

text \<open>An executable of 116 bytes with two segments in one page: the first has its 100 first bytes, the second the rest.\<close>

definition demo_elf2 :: "byte list" where
  "demo_elf2 = take 52 demo_elf @
     le32 1 @ le32 0 @ le32 0x08049000 @ le32 0 @ le32 100 @ le32 100 @ le32 5 @ le32 4096 @
     le32 1 @ le32 100 @ le32 0x08049064 @ le32 0 @ le32 16 @ le32 16 @ le32 6 @ le32 4096"

lemma demo_elf2_headers:
  "length demo_elf2 = 116"
  "decode_phdr (take 32 (drop 52 demo_elf2)) = \<lparr>p_type = 1, p_offset = 0, p_vaddr = 0x08049000, p_paddr = 0, p_filesz = 100, p_memsz = 100,
     p_flags = 5, p_align = 4096\<rparr>"
  "decode_phdr (take 32 (drop 84 demo_elf2)) = \<lparr>p_type = 1, p_offset = 100, p_vaddr = 0x08049064, p_paddr = 0, p_filesz = 16, p_memsz = 16,
     p_flags = 6, p_align = 4096\<rparr>"
  by (simp_all add: demo_elf2_def demo_elf_def decode_phdr_def word_at_def)

theorem overlapping_segment_asserts_witness:
  "vm_load_phdrs demo_load demo_ops 2 52 (demo_elf2, 0) demo_free = None \<and>
   (\<exists>f' s'. load_phdrs demo_load 2 52 (demo_elf2, 0) demo_space = Some (False, f', s'))"
proof -
  let ?p1 = "decode_phdr (take 32 (drop 52 demo_elf2))" and ?p2 = "decode_phdr (take 32 (drop 84 demo_elf2))"
  have v: "validate_segment demo_load ?p1 (demo_elf2, 0)" "validate_segment demo_load ?p2 (demo_elf2, 0)"
    unfolding demo_elf2_headers(2,3) by (simp_all add: validate_segment_def demo_load_def user_addr_def demo_elf2_headers(1))
  have l: "segment_layout ?p1 = (0, 0x08049000, 100, 3996)" "p_vaddr ?p2 AND NOT PGMASK = page_addr 0x08049000 0"
    "p_type ?p1 = PT_LOAD" "p_type ?p2 = PT_LOAD"
    unfolding demo_elf2_headers(2,3) by (simp_all add: segment_layout_def)
  have "pg_ofs (hw demo_ops) 0x08049000 = 0" by simp (simp add: x86_def)
  then have "vm_load_phdrs demo_load demo_ops (Suc (Suc 0)) 52 (demo_elf2, 0) demo_free = None \<and>
   (\<exists>f' s'. load_phdrs demo_load (Suc (Suc 0)) 52 (demo_elf2, 0) demo_space = Some (False, f', s'))"
    by (intro overlapping_segment_asserts [OF demo_load_ok(1) _ demo_load_ok(2) _ _ _ _ l(3) _ l(1) _ l(4) _ l(2) _ _ demo_free_inv demo_free_room])
      (use v in \<open>simp_all add: demo_elf2_headers(1)\<close>)
  then show ?thesis by (simp only: numeral_2_eq_2)
qed

theorem vm_process_exit_releases_witness:
  "\<exists>s'. vm_process_exit demo_sys (\<lambda>_. True) (demo_user demo_full) = Some s' \<and> files_open s' = [] \<and> pages (mem s') 0xc0200000 = None \<and>
     pages (mem s') 0xc0100000 = None \<and> cr3 (mem s') = 0xc0201000"
proof -
  have e: "mem (demo_user demo_full) = demo_full" "init_page_dir demo_full = 0xc0201000"
    "\<forall>e\<in>set (files_open (demo_user demo_full)). \<not> fs_mapped e" by (simp_all add: demo_user_def) (simp add: demo_full_def)
  have "user_table x86 demo_full 0xc0200000 32 = Some 0xc0100000" using demo_full_table [of 32] by simp
  moreover have "(32 :: nat) < user_slots x86" by (simp add: x86_def)
  ultimately have "0xc0100000 \<in> dir_tables x86 demo_full 0xc0200000" unfolding dir_tables_def by auto
  moreover have "0xc0201000 \<notin> dir_tables x86 demo_full 0xc0200000"
  proof -
    have "user_table x86 demo_full 0xc0200000 i \<noteq> Some 0xc0201000" if "i < user_slots x86" for i
      using that demo_full_table [of i] by (auto simp: x86_def split: if_splits)
    then show ?thesis by (auto simp: dir_tables_def)
  qed
  moreover have "pages demo_full 0xc0201000 \<noteq> None" "cur_pagedir demo_full = 0xc0200000" by (simp_all add: demo_full_def cur_pagedir_def)
  ultimately show ?thesis
    using vm_process_exit_releases [of demo_sys "{0xc0200000}" "demo_user demo_full" "\<lambda>_. True"] demo_full_inv e by (auto simp: process_gone_def)
qed

end
