(* ===== verification/Vm_Stack_Props.thy ===== *)
theory Vm_Stack_Props
  imports Vm_Process_Props
begin

text \<open>
  The first stack of a process with virtual memory: the stores through user addresses do to the frame of the stack page what
  \<open>Loader.build_stack\<close> does to a page in memory, so that a program finds its arguments.
\<close>

section \<open>Stores into one page\<close>

text \<open>The addresses of a user page.\<close>

definition stack_page_ok :: "('d, 'f) vm_ops \<Rightarrow> u32 \<Rightarrow> bool" where
  "stack_page_ok ops page \<longleftrightarrow> uint page mod 4096 = 0 \<and> uint page + 4096 < 2 ^ 32 \<and>
     (\<forall>j<4096. is_user_vaddr (hw ops) (page + of_nat j) \<and> pg_round_down ops (page + of_nat j) = page \<and> pg_ofs (hw ops) (page + of_nat j) = of_nat j)"

text \<open>The page is mapped to the frame \<open>k\<close>, which holds the bytes of \<open>mb\<close>; a step that changes only this frame.\<close>

definition page_view :: "('d, 'f) vm_ops \<Rightarrow> u32 set \<Rightarrow> u32 \<Rightarrow> u32 \<Rightarrow> (int \<Rightarrow> byte) \<Rightarrow> ('d, 'f) vmm \<Rightarrow> bool" where
  "page_view ops D page k mb m \<longleftrightarrow> vm_inv ops D m \<and> pd_map (hw ops) D m (cur_pagedir m, page) = Some (k, True) \<and>
     ram m k = Some (page_bytes (uint page) mb)"

definition only_frame :: "('d, 'f) vm_ops \<Rightarrow> u32 set \<Rightarrow> u32 \<Rightarrow> ('d, 'f) vmm \<Rightarrow> ('d, 'f) vmm \<Rightarrow> bool" where
  "only_frame ops D k m m' \<longleftrightarrow> same_maps ops D m m' \<and> (\<forall>k'. k' \<noteq> k \<longrightarrow> ram m' k' = ram m k')"

lemma only_frame_trans: "only_frame ops D k m m1 \<Longrightarrow> only_frame ops D k m1 m2 \<Longrightarrow> only_frame ops D k m m2"
  unfolding only_frame_def using same_maps_trans by auto

lemma only_frame_refl: "page_view ops D page k mb m \<Longrightarrow> only_frame ops D k m m"
  by (simp add: only_frame_def page_view_def same_maps_refl vm_invD(2))

lemma page_bytes_update: "j < 4096 \<Longrightarrow> (page_bytes p mb)[j := b] = page_bytes p (mb(p + int j := b))"
  by (rule nth_equalityI) (auto simp: page_bytes_def nth_list_update)

lemma kstore_view:
  assumes r: "round_ok (vmo env)" and ok: "stack_page_ok (vmo env) page" and v: "page_view (vmo env) D page k mb m" and j: "j < 4096"
  shows "\<exists>m'. kstore env (page + of_nat j) b m = Ret () m' \<and> page_view (vmo env) D page k (mb(uint page + int j := b)) m' \<and>
    only_frame (vmo env) D k m m'"
proof -
  let ?M = "hw (vmo env)" and ?a = "page + of_nat j :: u32"
  have inv: "vm_inv (vmo env) D m" and map: "pd_map ?M D m (cur_pagedir m, page) = Some (k, True)"
    and pg: "ram m k = Some (page_bytes (uint page) mb)" using v by (simp_all add: page_view_def)
  have a: "is_user_vaddr ?M ?a" "pg_round_down (vmo env) ?a = page" "pg_ofs ?M ?a = of_nat j" using ok j by (auto simp: stack_page_ok_def)
  have p: "is_user_vaddr ?M page" "pg_ofs ?M page = 0" using round_okD [OF r a(1)] a(2) by simp_all
  have cr: "cr3 m = cur_pagedir m" by (rule vm_invD(4) [OF inv])
  have key: "pd_key_ok ?M D (cr3 m, page)" using vm_invD(3) [OF inv] p cr by (simp add: pd_key_ok_def)
  have "accessible (vmo env) D ?a True m" using a(1,2) map unfolding accessible_def by auto
  note c = can_access_accessible [OF inv r this]
  have "pagedir_get_page ?M (cr3 m) page m = Some (Some k)"
    using pagedir_get_page_spec [OF vm_invD(1-3) [OF inv] p(1)] p(2) map cr by (auto simp: pd_map_def split: if_splits)
  then have uf: "user_frame (vmo env) page m = Some (k, page_bytes (uint page) mb)" using pg by (simp add: user_frame_def)
  obtain m1 where m1: "pagedir_set_accessed ?M (cr3 m) page True m = Some m1" "vm_wf ?M D m1" "pd_map ?M D m1 = pd_map ?M D m"
    "vm.more m1 = vm.more m" "cr3 m1 = cr3 m"
    using flag_keeps [OF vm_invD(1) [OF inv] _ vm_invD(2) [OF inv] key, of "PTE_A ?M" True] unfolding pagedir_set_accessed_def by blast
  obtain m2 where m2: "pagedir_set_dirty ?M (cr3 m) page True m1 = Some m2" "vm_wf ?M D m2" "pd_map ?M D m2 = pd_map ?M D m1"
    "vm.more m2 = vm.more m1" "cr3 m2 = cr3 m1"
    using flag_keeps [OF vm_invD(1) [OF inv] _ m1(2) key, of "PTE_D ?M" True] unfolding pagedir_set_dirty_def by blast
  define m' where "m' = m2\<lparr>ram := (ram m2)(k \<mapsto> page_bytes (uint page) (mb(uint page + int j := b)))\<rparr>"
  have "uint (of_nat j :: u32) = int j" using j by (simp add: uint_nat unat_of_nat take_bit_eq_mod)
  then have up: "c_update (page_bytes (uint page) mb) (uint (pg_ofs ?M ?a)) b = Some (page_bytes (uint page) (mb(uint page + int j := b)))"
    using j page_bytes_update [OF j, of "uint page" mb b] unfolding a(3) by (simp add: c_update_def page_bytes_def)
  have "kstore env ?a b m = Ret () m'"
    using a(1,2) c uf up m1(1) m2(1) by (simp add: kstore_def ensure_access_def user_store_def m'_def)
  moreover have mo: "vm.more m2 = vm.more m" using m1(4) m2(4) by simp
  have sm2: "same_maps (vmo env) D m m2" by (rule same_maps_more) (use m1 m2 mo in simp_all)
  then have sm: "same_maps (vmo env) D m m'" by (simp add: m'_def)
  have rm: "ram m2 = ram m" using vmm_more [OF mo] by simp
  have "only_frame (vmo env) D k m m'" using sm rm by (simp add: only_frame_def m'_def)
  moreover have "page_view (vmo env) D page k (mb(uint page + int j := b)) m'"
    using vm_growsD [OF same_maps_ext [OF inv sm]] sm map by (simp add: page_view_def same_maps_def) (simp add: m'_def)
  ultimately show ?thesis by blast
qed

lemma kstore_bytes_view:
  assumes r: "round_ok (vmo env)" and ok: "stack_page_ok (vmo env) page"
  shows "page_view (vmo env) D page k mb m \<Longrightarrow> ustore (uint page) a bs mb = Some mb' \<Longrightarrow>
    \<exists>m'. kstore_bytes env (word_of_int a) bs m = Ret () m' \<and> page_view (vmo env) D page k mb' m' \<and> only_frame (vmo env) D k m m'"
proof (induction bs arbitrary: a mb m)
  case Nil
  then have "mb' x = mb x" for x by (auto simp: ustore_def)
  then have "mb' = mb" ..
  then show ?case using Nil.prems(1) only_frame_refl by auto
next
  case (Cons b bs)
  have lo: "uint page \<le> a" "a + 1 + int (length bs) \<le> uint page + 4096"
    and mb': "mb' = (\<lambda>x. if a \<le> x \<and> x < a + 1 + int (length bs) then (b # bs) ! nat (x - a) else mb x)"
    using Cons.prems(2) by (auto simp: ustore_def split: if_splits)
  define j where "j = nat (a - uint page)"
  have j: "j < 4096" "a = uint page + int j" using lo by (simp_all add: j_def)
  have w: "word_of_int a = page + of_nat j" by (simp add: j(2))
  obtain m1 where m1: "kstore env (word_of_int a) b m = Ret () m1" "page_view (vmo env) D page k (mb(a := b)) m1" "only_frame (vmo env) D k m m1"
    using kstore_view [OF r ok Cons.prems(1) j(1), of b] unfolding w j(2) [symmetric] by blast
  have nat: "nat (x - (a + 1)) = nat (x - a) - Suc 0" for x by arith
  have "ustore (uint page) (a + 1) bs (mb(a := b)) = Some mb'"
    using lo nat by (auto simp: ustore_def mb' fun_eq_iff nth_Cons')
  from Cons.IH [OF m1(2) this] obtain m2 where "kstore_bytes env (word_of_int a + 1) bs m1 = Ret () m2"
    "page_view (vmo env) D page k mb' m2" "only_frame (vmo env) D k m1 m2" by auto
  then show ?case using m1(1,3) only_frame_trans by (auto intro: only_frame_trans)
qed

section \<open>The stack\<close>

lemma word_mod4: "(word_of_int x :: u32) mod 4 = word_of_int (x mod 4)"
proof -
  have "uint ((word_of_int x :: u32) mod 4) = x mod 2 ^ 32 mod 4" by (simp add: uint_mod uint_word_of_int)
  also have "\<dots> = x mod 4" by (rule mod_mod_cancel) simp
  finally show ?thesis by (metis word_of_int_uint)
qed

lemma vm_push_strings_view:
  assumes r: "round_ok (vmo env)" and ok: "stack_page_ok (vmo env) page"
  shows "page_view (vmo env) D page k mb m \<Longrightarrow> push_strings (uint page) ts esp mb = Some (ps, esp', mb') \<Longrightarrow>
    \<exists>m'. vm_push_strings env ts (word_of_int esp) m = Ret (map word_of_int ps, word_of_int esp') m' \<and>
      page_view (vmo env) D page k mb' m' \<and> only_frame (vmo env) D k m m'"
proof (induction ts arbitrary: ps esp' mb')
  case Nil
  then show ?case using only_frame_refl by auto
next
  case (Cons t ts)
  obtain ps1 esp1 mb1 where 1: "push_strings (uint page) ts esp mb = Some (ps1, esp1, mb1)"
    "ustore (uint page) (esp1 - (int (length t) + 1)) (t @ [0]) mb1 = Some mb'" "esp' = esp1 - (int (length t) + 1)" "ps = esp' # ps1"
    using Cons.prems(2) by (auto simp: Let_def split: Option.bind_splits)
  obtain m1 where m1: "vm_push_strings env ts (word_of_int esp) m = Ret (map word_of_int ps1, word_of_int esp1) m1"
    "page_view (vmo env) D page k mb1 m1" "only_frame (vmo env) D k m m1" using Cons.IH [OF Cons.prems(1) 1(1)] by blast
  have w: "word_of_int esp1 - (1 + of_nat (length t)) = (word_of_int esp' :: u32)" by (simp add: 1(3))
  obtain m2 where m2: "kstore_bytes env (word_of_int esp') (t @ [0]) m1 = Ret () m2"
    "page_view (vmo env) D page k mb' m2" "only_frame (vmo env) D k m1 m2" using kstore_bytes_view [OF r ok m1(2) 1(2)] 1(3) by blast
  show ?case using m1(1) m2 w only_frame_trans [OF m1(3) m2(3)] by (simp add: 1(4) Let_def)
qed

lemma vm_push_words_view:
  assumes r: "round_ok (vmo env)" and ok: "stack_page_ok (vmo env) page"
  shows "page_view (vmo env) D page k mb m \<Longrightarrow> push_words (uint page) ws esp mb = Some (esp', mb') \<Longrightarrow>
    \<exists>m'. vm_push_words env (map word_of_int ws) (word_of_int esp) m = Ret (word_of_int esp') m' \<and>
      page_view (vmo env) D page k mb' m' \<and> only_frame (vmo env) D k m m'"
proof (induction ws arbitrary: esp' mb')
  case Nil
  then show ?case using only_frame_refl by auto
next
  case (Cons w ws)
  obtain esp1 mb1 where 1: "push_words (uint page) ws esp mb = Some (esp1, mb1)"
    "ustore (uint page) (esp1 - 4) (le32 (word_of_int w)) mb1 = Some mb'" "esp' = esp1 - 4"
    using Cons.prems(2) by (auto simp: Let_def split: Option.bind_splits)
  obtain m1 where m1: "vm_push_words env (map word_of_int ws) (word_of_int esp) m = Ret (word_of_int esp1) m1"
    "page_view (vmo env) D page k mb1 m1" "only_frame (vmo env) D k m m1" using Cons.IH [OF Cons.prems(1) 1(1)] by blast
  have w: "word_of_int esp1 - 4 = (word_of_int esp' :: u32)" by (simp add: 1(3))
  obtain m2 where m2: "kstore_bytes env (word_of_int esp') (le32 (word_of_int w)) m1 = Ret () m2"
    "page_view (vmo env) D page k mb' m2" "only_frame (vmo env) D k m1 m2" using kstore_bytes_view [OF r ok m1(2) 1(2)] 1(3) by blast
  show ?case using m1(1) m2 w only_frame_trans [OF m1(3) m2(3)] by (simp add: Let_def)
qed

lemma vm_build_stack_view:
  assumes r: "round_ok (vmo env)" and ok: "stack_page_ok (vmo env) page" and base: "PHYS_BASE (hw (vmo env)) = page + of_nat PGSIZE"
    and v: "page_view (vmo env) D page k mb m" and b: "build_stack (uint page) ts mb = Some (esp, mb')"
  shows "\<exists>m'. vm_build_stack env ts m = Ret (word_of_int esp) m' \<and> page_view (vmo env) D page k mb' m' \<and> only_frame (vmo env) D k m m'"
proof -
  let ?V = "page_view (vmo env) D page k" and ?F = "only_frame (vmo env) D k"
  obtain ps e0 mb0 where 0: "push_strings (uint page) ts (uint page + int PGSIZE) mb = Some (ps, e0, mb0)"
    using b by (auto simp: build_stack_def split: Option.bind_splits)
  define al where "al = (e0 - 4) mod 4"
  obtain mb1 mb2 e3 mb3 mb4 mb5 where
    1: "ustore (uint page) (e0 - al) (replicate (nat al) 0) mb0 = Some mb1"
    and 2: "ustore (uint page) (e0 - al - 4) (replicate 4 0) mb1 = Some mb2"
    and 3: "push_words (uint page) ps (e0 - al - 4) mb2 = Some (e3, mb3)"
    and 4: "ustore (uint page) (e3 - 4) (le32 (word_of_int e3)) mb3 = Some mb4"
    and 5: "ustore (uint page) (e3 - 4 - 4) (le32 (of_nat (length ts))) mb4 = Some mb5"
    and 6: "ustore (uint page) (e3 - 4 - 4 - 4) (replicate 4 0) mb5 = Some mb'" and esp: "esp = e3 - 4 - 4 - 4"
    using b 0 unfolding build_stack_def Let_def al_def by (auto split: Option.bind_splits)
  have base': "PHYS_BASE (hw (vmo env)) = word_of_int (uint page + int PGSIZE)" using base by simp
  have al: "(word_of_int e0 - 4) mod 4 = (word_of_int al :: u32)" "unat (word_of_int al :: u32) = nat al"
  proof -
    have "word_of_int e0 - 4 = (word_of_int (e0 - 4) :: u32)" by simp
    then show "(word_of_int e0 - 4) mod 4 = (word_of_int al :: u32)" using word_mod4 [of "e0 - 4"] by (simp add: al_def)
    have "0 \<le> al" "al < 4" by (simp_all add: al_def)
    then show "unat (word_of_int al :: u32) = nat al" by (simp add: unat_eq_nat_uint uint_word_of_int)
  qed
  obtain m0 where m0: "vm_push_strings env ts (word_of_int (uint page + int PGSIZE)) m = Ret (map word_of_int ps, word_of_int e0) m0" "?V mb0 m0" "?F m m0"
    using vm_push_strings_view [OF r ok v 0] by blast
  obtain m1 where m1: "kstore_bytes env (word_of_int (e0 - al)) (replicate (nat al) 0) m0 = Ret () m1" "?V mb1 m1" "?F m0 m1"
    using kstore_bytes_view [OF r ok m0(2) 1] by blast
  obtain m2 where m2: "kstore_bytes env (word_of_int (e0 - al - 4)) (replicate 4 0) m1 = Ret () m2" "?V mb2 m2" "?F m1 m2"
    using kstore_bytes_view [OF r ok m1(2) 2] by blast
  obtain m3 where m3: "vm_push_words env (map word_of_int ps) (word_of_int (e0 - al - 4)) m2 = Ret (word_of_int e3) m3" "?V mb3 m3" "?F m2 m3"
    using vm_push_words_view [OF r ok m2(2) 3] by blast
  obtain m4 where m4: "kstore_bytes env (word_of_int (e3 - 4)) (le32 (word_of_int e3)) m3 = Ret () m4" "?V mb4 m4" "?F m3 m4"
    using kstore_bytes_view [OF r ok m3(2) 4] by blast
  obtain m5 where m5: "kstore_bytes env (word_of_int (e3 - 4 - 4)) (le32 (of_nat (length ts))) m4 = Ret () m5" "?V mb5 m5" "?F m4 m5"
    using kstore_bytes_view [OF r ok m4(2) 5] by blast
  obtain m6 where m6: "kstore_bytes env (word_of_int (e3 - 4 - 4 - 4)) (replicate 4 0) m5 = Ret () m6" "?V mb' m6" "?F m5 m6"
    using kstore_bytes_view [OF r ok m5(2) 6] by blast
  have w: "word_of_int e0 - word_of_int al = (word_of_int (e0 - al) :: u32)" "word_of_int (e0 - al) - 4 = (word_of_int (e0 - al - 4) :: u32)"
    "word_of_int e3 - 4 = (word_of_int (e3 - 4) :: u32)" "word_of_int (e3 - 4) - 4 = (word_of_int (e3 - 4 - 4) :: u32)"
    "word_of_int (e3 - 4 - 4) - 4 = (word_of_int (e3 - 4 - 4 - 4) :: u32)" by simp_all
  have "vm_build_stack env ts m = Ret (word_of_int esp) m6"
    unfolding vm_build_stack_def Let_def base' m0(1) rbind.simps prod.case al w m1(1) m2(1) m3(1) m4(1) m5(1) m6(1) esp ..
  moreover have "?F m m6"
    using m0(3) m1(3) m2(3) m3(3) m4(3) m5(3) m6(3) only_frame_trans by metis
  ultimately show ?thesis using m6(2) by blast
qed

text \<open>Nothing is stored below the final stack pointer.\<close>

lemma ustore_below: "ustore p a bs m = Some m' \<Longrightarrow> x < a \<Longrightarrow> m' x = m x"
  by (auto simp: ustore_def split: if_splits)

lemma push_strings_below:
  "push_strings p ts esp m = Some (ps, esp', m') \<Longrightarrow> esp' \<le> esp \<and> (\<forall>x<esp'. m' x = m x)"
proof (induction ts arbitrary: ps esp' m')
  case (Cons t ts)
  obtain ps1 e1 m1 where "push_strings p ts esp m = Some (ps1, e1, m1)" "ustore p (e1 - (int (length t) + 1)) (t @ [0]) m1 = Some m'"
    "esp' = e1 - (int (length t) + 1)"
    using Cons.prems by (auto simp: Let_def split: Option.bind_splits)
  then show ?case using Cons.IH [of ps1 e1 m1] ustore_below by fastforce
qed simp

lemma push_words_below:
  "push_words p ws esp m = Some (esp', m') \<Longrightarrow> esp' \<le> esp \<and> (\<forall>x<esp'. m' x = m x)"
proof (induction ws arbitrary: esp' m')
  case (Cons w ws)
  obtain e1 m1 where "push_words p ws esp m = Some (e1, m1)" "ustore p (e1 - 4) (le32 (word_of_int w)) m1 = Some m'" "esp' = e1 - 4"
    using Cons.prems by (auto simp: Let_def split: Option.bind_splits)
  then show ?case using Cons.IH [of e1 m1] ustore_below by fastforce
qed simp

lemma build_stack_below:
  assumes b: "build_stack p ts m = Some (esp, m')" and x: "x < esp"
  shows "m' x = m x"
proof -
  obtain ps e0 m0 where 0: "push_strings p ts (p + int PGSIZE) m = Some (ps, e0, m0)"
    using b by (auto simp: build_stack_def split: Option.bind_splits)
  define al where "al = (e0 - 4) mod 4"
  have al: "0 \<le> al" by (simp add: al_def)
  obtain m1 m2 e3 m3 m4 m5 where
    s: "ustore p (e0 - al) (replicate (nat al) 0) m0 = Some m1" "ustore p (e0 - al - 4) (replicate 4 0) m1 = Some m2"
    "push_words p ps (e0 - al - 4) m2 = Some (e3, m3)" "ustore p (e3 - 4) (le32 (word_of_int e3)) m3 = Some m4"
    "ustore p (e3 - 4 - 4) (le32 (of_nat (length ts))) m4 = Some m5"
    "ustore p (e3 - 4 - 4 - 4) (replicate 4 0) m5 = Some m'" "esp = e3 - 4 - 4 - 4"
    using b 0 unfolding build_stack_def Let_def al_def by (auto split: Option.bind_splits)
  note w = push_words_below [OF s(3)]
  have "m0 x = m x" using push_strings_below [OF 0] w x s(7) al by auto
  moreover have "m1 x = m0 x" by (rule ustore_below [OF s(1)]) (use w x s(7) in linarith)
  moreover have "m2 x = m1 x" by (rule ustore_below [OF s(2)]) (use w x s(7) in linarith)
  moreover have "m3 x = m2 x" using w x s(7) by auto
  moreover have "m4 x = m3 x" by (rule ustore_below [OF s(4)]) (use x s(7) in linarith)
  moreover have "m5 x = m4 x" by (rule ustore_below [OF s(5)]) (use x s(7) in linarith)
  moreover have "m' x = m5 x" by (rule ustore_below [OF s(6)]) (use x s(7) in linarith)
  ultimately show ?thesis by simp
qed

section \<open>The arguments of a program\<close>

text \<open>
  C36 (functional): the first stack of a process with virtual memory. If there is an unused frame, the page of the stack is new to the
  process and the arguments fit into a page, \<open>setup_stack\<close> returns the stack pointer; the page is mapped to that frame with the right to
  write, the return address is 0 and \<open>main\<close> finds the tokens of the command line; everything that was mapped still is and no other frame has
  changed. Below the stack pointer the frame keeps the bytes it had: the page is not zeroed as the comment says, and the process can read them.
\<close>

theorem vm_setup_stack_args:
  fixes m :: "('d, 'f) vmm" and env :: "('d, 'f, 'y) access_ops_scheme"
  assumes page: "page = PHYS_BASE (hw (vmo env)) - of_nat PGSIZE" and esp: "esp = word_of_int (uint page + 4096 - stack_size ts)"
    and r: "round_ok (vmo env)" and ok: "stack_page_ok (vmo env) page" and inv: "vm_inv (vmo env) D m"
    and room: "segment_room (vmo env) page 1 m" "frames_usable m" and k: "free_frames m = k # ks" "ram m k = Some old"
    and ts: "stack_size ts \<le> 4096" "\<forall>t\<in>set ts. 0 \<notin> set t"
  shows "\<exists>m' bytes. vm_setup_stack env ts m = Ret (Some esp) m' \<and> vm_grows (vmo env) D m m' \<and>
    pd_map (hw (vmo env)) D m' = (pd_map (hw (vmo env)) D m)((cur_pagedir m, page) \<mapsto> (k, True)) \<and>
    ram m' = (ram m)(k \<mapsto> bytes) \<and> peek_word page bytes esp = 0 \<and> main_args page bytes esp = ts \<and>
    (\<forall>i<nat (4096 - stack_size ts). bytes ! i = old ! i)"
proof -
  let ?M = "hw (vmo env)"
  have p: "uint page mod 4096 = 0" "uint page + 4096 < 2 ^ 32" using ok by (simp_all add: stack_page_ok_def)
  have base: "PHYS_BASE ?M = page + of_nat PGSIZE" by (simp add: page)
  obtain k' m1 m2 pg where m: "frame_alloc (vmo env) page True m = Some (k', m1)" "page_set_frame (vmo env) page k' True m1 = Some m2" "k' \<noteq> 0"
    "ram m2 k' = Some pg" "length pg = 4096" "vm_inv (vmo env) D m2"
    using segment_room_step [OF inv room(1) [unfolded One_nat_def] room(2), where w = True] by metis
  note fa = frame_alloc_free [OF inv m(1) k(1)] and fp = frame_page_inv [OF inv m(1,2)]
  have ram2: "ram m2 = ram m" using page_set_frame_fields [OF m(2)] fa(3) by simp
  have kk: "k' = k" "pg = old" using fa(1) m(4) k(2) ram2 by simp_all
  define m0 where "m0 = (\<lambda>x. old ! nat (x - uint page))"
  have "page_bytes (uint page) m0 = old" using m(5) kk(2) by (intro nth_equalityI) (simp_all add: page_bytes_def m0_def)
  moreover have cp: "cur_pagedir m2 = cur_pagedir m" using fp(1) by (simp add: vm_grows_def)
  ultimately have v: "page_view (vmo env) D page k m0 m2" using m(4,6) fp(2) kk by (simp add: page_view_def)
  obtain mb where mb: "build_stack (uint page) ts m0 = Some (uint page + 4096 - stack_size ts, mb)"
    "peek_word page (page_bytes (uint page) mb) esp = 0" "main_args page (page_bytes (uint page) mb) esp = ts"
    using build_stack_args [OF p ts, of m0] unfolding esp by blast
  obtain m' where m': "vm_build_stack env ts m2 = Ret esp m'" "page_view (vmo env) D page k mb m'" "only_frame (vmo env) D k m2 m'"
    using vm_build_stack_view [OF r ok base v mb(1)] unfolding esp by blast
  have "vm_setup_stack env ts m = Ret (Some esp) m'"
    unfolding vm_setup_stack_def Let_def page [symmetric] using m(1-3) m'(1) by simp
  moreover have "vm_grows (vmo env) D m m'"
    using vm_grows_trans [OF fp(1) same_maps_ext [OF m(6)]] m'(3) by (simp add: only_frame_def)
  moreover have "pd_map ?M D m' = (pd_map ?M D m)((cur_pagedir m, page) \<mapsto> (k, True))"
    using m'(3) fp(2) kk(1) by (simp add: only_frame_def same_maps_def)
  moreover have "ram m' = (ram m)(k \<mapsto> page_bytes (uint page) mb)"
    using m'(2,3) ram2 by (auto simp: only_frame_def page_view_def fun_eq_iff)
  moreover have "page_bytes (uint page) mb ! i = old ! i" if "i < nat (4096 - stack_size ts)" for i
  proof -
    have "0 < stack_size ts" using strings_size_nonneg [of ts] by (simp add: stack_size_def stack_pad_def)
    then have "i < 4096" "uint page + int i < uint page + 4096 - stack_size ts" using that by linarith+
    then show ?thesis using build_stack_below [OF mb(1)] by (simp add: page_bytes_def m0_def)
  qed
  ultimately show ?thesis using mb(2,3) by blast
qed

section \<open>An instance\<close>

lemma demo_stack_page: "stack_page_ok demo_ops 0xbffff000"
proof -
  have "0xbffff000 + of_nat j < (0xc0000000 :: u32) \<and> (0xbffff000 + of_nat j) AND NOT 0xfff = (0xbffff000 :: u32) \<and>
    (0xbffff000 + of_nat j) AND 0xfff = (of_nat j :: u32)" if j: "j < 4096" for j
  proof -
    have u: "unat (of_nat j :: u32) = j" using j by (simp add: unat_of_nat take_bit_eq_mod)
    have a: "unat (0xbffff000 + of_nat j :: u32) = 3221221376 + j" using j u by (subst unat_add_u32) simp_all
    have "(3221221376 + j) div 4096 = 786431" "(3221221376 + j) mod 4096 = j"
      using j div_mult_self3 [of 4096 786431 j] mod_mult_self3 [of 786431 4096 j] by simp_all
    then have "unat ((0xbffff000 + of_nat j) AND NOT PGMASK) = unat (0xbffff000 :: u32)" "unat ((0xbffff000 + of_nat j) AND PGMASK) = unat (of_nat j :: u32)"
      using unat_page_base [of "0xbffff000 + of_nat j"] unat_page_offset [of "0xbffff000 + of_nat j"] u a by simp_all
    then have "(0xbffff000 + of_nat j) AND NOT PGMASK = (0xbffff000 :: u32)" "(0xbffff000 + of_nat j) AND PGMASK = (of_nat j :: u32)"
      by (simp_all only: word_unat_eq_iff)
    then show ?thesis using a j by (simp add: word_less_nat_alt)
  qed
  then show ?thesis by (simp add: stack_page_ok_def) (simp add: demo_ops_def x86_def)
qed

theorem vm_setup_stack_args_witness:
  "\<exists>m' bytes. vm_setup_stack demo_sys [[0x61], [0x62]] demo_free = Ret (Some 0xbfffffe4) m' \<and> ram m' 0xc0301000 = Some bytes \<and>
     main_args 0xbffff000 bytes 0xbfffffe4 = [[0x61], [0x62]] \<and> bytes ! 0 = 4"
proof -
  have sz: "stack_size [[0x61], [0x62]] = 28" by (simp add: stack_size_def stack_pad_def)
  have p: "(0xbffff000 :: u32) = PHYS_BASE (hw (vmo demo_sys)) - of_nat PGSIZE" by (simp add: x86_def)
  have e: "(0xbfffffe4 :: u32) = word_of_int (uint (0xbffff000 :: u32) + 4096 - stack_size [[0x61], [0x62]])" unfolding sz by simp
  have "page_new demo_ops 0xbffff000 demo_free" by (rule demo_free_new) simp_all
  then have room: "segment_room (vmo demo_sys) 0xbffff000 1 demo_free"
    using demo_free_room(1) unfolding segment_room_def by (auto simp del: pool_has.simps)
  have k: "free_frames demo_free = 0xc0301000 # [0xc0302000]" "ram demo_free 0xc0301000 = Some (replicate 4096 4)"
    by simp (simp add: demo_free_def)
  have ts: "stack_size [[0x61], [0x62]] \<le> 4096" "\<forall>t\<in>set [[0x61], [0x62 :: byte]]. 0 \<notin> set t" unfolding sz by simp_all
  show ?thesis
    using vm_setup_stack_args [OF p e _ _ _ room _ k ts] demo_round demo_stack_page demo_free_inv demo_free_room(2) sz by force
qed

end
