(* ===== verification/Spec2Isabelle.thy ===== *)
theory Spec2Isabelle
  imports Inode_Properties Sched_Props Exceptions Filesys Syscall_Props Loader_Props Process_Props Round_Robin_Props Mmap_Props Vm_Stack_Props
begin

text \<open>
  Verification of the Pintos kernel components of this repository. The repository holds four projects, each the
  changed files of a kernel whose other files are not included: \<open>priority-scheduler\<close>, \<open>user-programs\<close>,
  \<open>virtual-memory\<close> and \<open>file-system\<close>.

  \<^bold>\<open>Conventions\<close> (\<open>Kernel_Prelude\<close>). A C function is a HOL function of the state it reads and changes, with the same name.
  \<open>None\<close> is a kernel that does not continue: a failed \<open>ASSERT\<close>, a \<open>PANIC\<close>, an invalid pointer, undefined
  arithmetic. What a C function reports to its caller (\<open>false\<close>, \<open>-1\<close>, \<open>NULL\<close>) is a value. Unsigned and
  address types are words of their width; \<open>int\<close> and \<open>long long\<close> are integers whose results go through \<open>c_int\<close> and \<open>c_int64\<close>, which
  are \<open>None\<close> outside the range of the type. Pointers are natural numbers, heaps are maps. Code that is not in the repository
  (block device, bitmaps, directories, page allocator, layout of page tables, lists ordered by a C function) is a
  parameter, with what its documentation promises as named hypotheses (\<open>blockdev_ok\<close>, \<open>bitmap_ok\<close>, \<open>dir_ok\<close>, \<open>mmu_ok\<close>,
  \<open>pop_max_ok\<close>, \<open>frames_ok\<close>, \<open>round_ok\<close>, \<open>files_ok\<close>, \<open>pool_has\<close>,
  \<open>stack_page_ok\<close>); each property with such a hypothesis has a witness that instantiates it.

  \<^bold>\<open>File system\<close> (\<open>file-system/filesys\<close>).
  \<^item> \<open>Buffer_Cache\<close>: \<open>cache.c\<close>. State: the 64 buffers with locks and the hand of the sweep. Lemmas: the cache invariant, each sector
    in at most one buffer; reading and writing through the cache refine an array of sectors (locale \<open>sector_store\<close>);
    the search for a buffer ends when other threads run finitely many operations meanwhile; two concurrent misses of one sector lose a write.
  \<^item> \<open>Free_Map\<close>: \<open>free-map.c\<close>, an instance of the locale \<open>allocator\<close>.
  \<^item> \<open>Inode\<close>, \<open>Inode_Files\<close>, \<open>Inode_Growth\<close>, \<open>Inode_Ops\<close>, \<open>Inode_Table\<close>, \<open>Inode_Properties\<close>: \<open>inode.c\<close>. The definitions; an inode as a
    file of bytes; growth; what the operations promise; the table of open inodes; the properties. Statements on
    contents are about the 188 direct indices (94 KB); beyond them the code overwrites sector 0, which is a theorem.
  \<^item> \<open>Filesys\<close>: \<open>filesys.c\<close> and opening and creating the file of the free map.

  \<^bold>\<open>Scheduling\<close> (\<open>priority-scheduler\<close>, \<open>virtual-memory/threads/thread.c\<close>).
  \<^item> \<open>Fixed_Point\<close>: \<open>lib/kernel/fixed-point.c\<close>, with overflow; accuracy of multiplication and division.
  \<^item> \<open>Scheduler\<close>, \<open>Donation\<close>, \<open>Sched_Inv\<close>, \<open>Mlfqs\<close>, \<open>Sched_Props\<close>: \<open>threads/thread.c\<close>. The definitions; \<open>get_priority\<close> equals the maximum over
    the threads that wait, and when it does not return; the invariant, kept by every operation; the bounds of the feedback queue
    (at most 1000 threads); steps and runs, in which every operation returns and no sleeping thread is woken early.
  \<^item> \<open>Timer\<close>: \<open>devices/timer.c\<close>, the sleeping list and busy waiting.
  \<^item> \<open>Round_Robin\<close>, \<open>Round_Robin_Props\<close>: the scheduler of the other projects (the same code in \<open>user-programs/threads/thread.c\<close>). Every
    operation from booting on returns and keeps the lists and the active page directory right; the
    ready list is a queue, and nobody waits longer than four ticks for each thread before it.

  \<^bold>\<open>Processes\<close> (\<open>user-programs\<close>).
  \<^item> \<open>Process\<close>, \<open>Process_Props\<close>: starting, waiting and exit in \<open>userprog/process.c\<close>, with the accesses to the page that parent and child
    share. Events of all processes interleave; orderly runs never use a freed page, exit statuses arrive exactly once, and the
    two disorderly orders that do use freed memory are theorems.
  \<^item> \<open>Loader\<close>, \<open>Loader_Props\<close>: \<open>load\<close> and its helpers in the same file. No executable file makes the kernel fail or map anything but user pages when the
    arguments fit into a page;
    the contents of segments; the arguments on the stack; a command line of more than a page.
  \<^item> \<open>Syscall\<close>, \<open>Syscall_Props\<close>: \<open>userprog/syscall.c\<close>. The checks of pointers, the descriptor table (locale \<open>handle_table\<close>), the console.

  \<^bold>\<open>Virtual memory\<close> (\<open>virtual-memory\<close>).
  \<^item> \<open>Pagedir\<close>, \<open>Pagedir_Props\<close>: \<open>userprog/pagedir.c\<close>, page tables as arrays of words. They refine a partial map (locale \<open>page_map\<close>); the translation
    buffer is never stale.
  \<^item> \<open>Swap\<close>: \<open>vm/swap.c\<close>, slots as an instance of \<open>allocator\<close>, pages come back as they were.
  \<^item> \<open>Vm\<close>, \<open>Vm_Props\<close>: \<open>vm/frame.c\<close> and \<open>vm/page.c\<close>. What a page fault brings in; eviction leaves two pages in one frame.
  \<^item> \<open>Vm_Inv\<close>: the invariant of demand paging, kept by every page fault that returns; when a fault on a new page returns.
  \<^item> \<open>User_Access\<close>: the kernel's own loads and stores at user addresses, with the page faults they cause and their five outcomes.
  \<^item> \<open>Vm_Syscall\<close>, \<open>Vm_Syscall_Props\<close>, \<open>Mmap_Props\<close>: \<open>userprog/syscall.c\<close> of this project. Which pointers can make the kernel panic; mapped files; the vectors user programs can raise.
  \<^item> \<open>Vm_Process\<close>, \<open>Vm_Process_Props\<close>, \<open>Vm_Stack_Props\<close>: loading and exit in \<open>userprog/process.c\<close> of this project. Segments end up in the next unused frames;
    overlapping segments; what an exit gives up; a program finds its arguments on the stack.
  \<^item> \<open>Interrupts\<close>, \<open>Exceptions\<close>: \<open>threads/interrupt.c\<close> and \<open>userprog/exception.c\<close>. Gates, nesting and acknowledgement of interrupts; the
    table after initialisation; the outcomes of a page fault.

  The components meet where the code calls: inodes use the cache and the free map, \<open>filesys.c\<close> uses inodes; the page
  fault handler uses the supplemental page table, frames, swap and page directories; the scheduler wakes sleeping threads;
  locales hold the contracts, and the components that keep them interpret them.

  \<^bold>\<open>Loops.\<close> Recursion is structural or has a measure, except for \<open>donors_loop\<close> (\<open>get_priority\<close> need not
  end), where \<open>partial_function\<close> makes not returning \<open>None\<close>; that it returns without circular waiting is proved. The busy wait of the timer
  and its calibration take the answers of the clock as arguments. There is no fuel that could run out unnoticed.

  \<^bold>\<open>Limits of the models.\<close>
  \<^item> \<open>Buffer_Cache\<close>: other threads run only while a thread waits for a lock, and then a finite list of whole operations, each leaving all locks
    free; the loops of \<open>next_cache_entry\<close> and \<open>find_cache_entry\<close> have no bound in the code. The block device answers every sector (the block layer
    panics beyond its size). \<open>Inode\<close> uses the cache with no other thread in between.
  \<^item> \<open>Inode\<close>: \<open>extend_disk\<close> rounds lengths without the range of \<open>int\<close>. \<open>Filesys\<close>: the directory (\<open>directory.c\<close> is not in the repository) works as documented.
  \<^item> \<open>Sched_Props\<close>: runs are without the feedback queue, which \<open>Mlfqs\<close> bounds; the steps of locks and semaphores are given by what they may change.
  \<^item> \<open>Pagedir_Props\<close>: the operations on existing directories; \<open>pagedir_create\<close> and \<open>pagedir_destroy\<close> have lemmas of their own, and an exit
    (\<open>Vm_Process_Props\<close>) uses the latter.
  \<^item> \<open>User_Access\<close>: \<open>Panic\<close> is a fault that the page fault handler rejects; any other end of the kernel is \<open>Stop\<close>.
  \<^item> \<open>Vm_Process\<close>: an exit leaves out the printed status and the children, which are in \<open>Process\<close>; the timer may take the CPU away between its last statements.
  \<^item> \<open>Round_Robin\<close>: the page behind \<open>self\<close> is only a pointer, whose use after it is freed is in \<open>Process\<close>.

  \<^bold>\<open>Not modelled.\<close> Output of statistics and register dumps (\<open>thread_print_stats\<close>, \<open>timer_print_stats\<close>, \<open>intr_dump_frame\<close>,
  \<open>exception_print_stats\<close>); the task state segment and inline assembly; the semaphores themselves (\<open>synch.c\<close> is not in
  the repository), whose waiters and wake-ups are arguments or steps. In \<open>virtual-memory/userprog/process.c\<close>, \<open>process_execute\<close>,
  \<open>process_wait\<close>, \<open>validate_segment\<close>, the children in \<open>process_exit\<close> and the reports of \<open>start_process\<close> are the same code as in \<open>user-programs\<close> and are
  modelled there only; \<open>user-programs/threads/thread.c\<close> is the same code as in \<open>virtual-memory\<close>. Calls whose C functions are empty and return nothing (\<open>sys_chdir\<close> and
  the like) have no defined result to model.
\<close>

end
